(* ===== verification/Prelude.thy ===== *)
theory Prelude
  imports Main "HOL-Library.Word"
begin

text \<open>
  Shared vocabulary of the development: the machine types of the source, the result type
  that makes every exception, failed assertion and undefined read of the source a value,
  the sequencing of such results, and the lemmas on lists, words and results that the
  component theories share.
\<close>

section \<open>Types of the source\<close>

text \<open>
  C and C++ vectors are lists. Unsigned integers of a fixed width are words; \<open>char\<close> and
  \<open>unsigned char\<close> are both bytes, read with \<open>sint\<close> or \<open>uint\<close> where the code compares
  them as integers.
\<close>

type_synonym byte = "8 word"
type_synonym u16 = "16 word"
type_synonym u32 = "32 word"
type_synonym u64 = "64 word"

text \<open>\<open>Data\<close>, \<open>DataBits\<close> and \<open>BigInt\<close> of \<open>Types.h\<close>.\<close>

type_synonym data = "byte list"
type_synonym databits = "bool list"
type_synonym bigint = int

section \<open>Results\<close>

text \<open>
  What a call may do instead of returning: a failed \<open>assert\<close>, an exception of the
  standard library for a missing key, any other exception with its text, a read or write
  outside a vector (undefined behaviour), a loop that never ends, and a source of
  randomness that the run has used up.
\<close>

datatype error =
    AssertFailed
  | OutOfRange
  | Thrown string
  | Undefined
  | Diverges
  | NoMoreInput

type_synonym 'a result = "error + 'a"

definition rbind :: "'a result \<Rightarrow> ('a \<Rightarrow> 'b result) \<Rightarrow> 'b result" where
  "rbind m f = (case m of Inl e \<Rightarrow> Inl e | Inr x \<Rightarrow> f x)"

definition rassert :: "bool \<Rightarrow> unit result" where
  "rassert b = (if b then Inr () else Inl AssertFailed)"

definition of_loop :: "'a result option \<Rightarrow> 'a result" where
  "of_loop l = (case l of None \<Rightarrow> Inl Diverges | Some r \<Rightarrow> r)"

text \<open>\<open>std::vector::operator[]\<close> reads; outside the vector the behaviour is undefined.\<close>

definition vec_at :: "'a list \<Rightarrow> nat \<Rightarrow> 'a result" where
  "vec_at xs i = (if i < length xs then Inr (xs ! i) else Inl Undefined)"

fun rmap :: "('a \<Rightarrow> 'b result) \<Rightarrow> 'a list \<Rightarrow> 'b list result" where
  "rmap f [] = Inr []"
| "rmap f (x # xs) = rbind (f x) (\<lambda>y. rbind (rmap f xs) (\<lambda>ys. Inr (y # ys)))"

fun rfold :: "('a \<Rightarrow> 's \<Rightarrow> 's result) \<Rightarrow> 'a list \<Rightarrow> 's \<Rightarrow> 's result" where
  "rfold f [] s = Inr s"
| "rfold f (x # xs) s = rbind (f x s) (rfold f xs)"

named_theorems result_simps \<open>evaluation of the result monad\<close>

lemma rbind_Inr [simp]: "rbind (Inr x) f = f x"
  by (simp add: rbind_def)

lemma rbind_Inl [simp]: "rbind (Inl e) f = Inl e"
  by (simp add: rbind_def)

lemma rbind_eq_Inr [result_simps]: "rbind m f = Inr y \<longleftrightarrow> (\<exists>x. m = Inr x \<and> f x = Inr y)"
  by (cases m) auto

lemma rbind_eq_Inl [result_simps]:
  "rbind m f = Inl e \<longleftrightarrow> m = Inl e \<or> (\<exists>x. m = Inr x \<and> f x = Inl e)"
  by (cases m) auto

lemma rbind_assoc: "rbind (rbind m f) g = rbind m (\<lambda>x. rbind (f x) g)"
  by (cases m) auto

lemma rassert_True [simp]: "rassert True = Inr ()"
  by (simp add: rassert_def)

lemma rassert_False [simp]: "rassert False = Inl AssertFailed"
  by (simp add: rassert_def)

lemma rassert_eq_Inr [result_simps]: "rassert b = Inr u \<longleftrightarrow> b"
  by (simp add: rassert_def)

lemma of_loop_simps [simp]:
  "of_loop None = Inl Diverges" "of_loop (Some r) = r"
  by (simp_all add: of_loop_def)

lemma vec_at_Inr [simp]: "i < length xs \<Longrightarrow> vec_at xs i = Inr (xs ! i)"
  by (simp add: vec_at_def)

lemma vec_at_eq_Inr [result_simps]: "vec_at xs i = Inr x \<longleftrightarrow> i < length xs \<and> xs ! i = x"
  by (simp add: vec_at_def)

lemma rbind_cong [fundef_cong]:
  "m = m' \<Longrightarrow> (\<And>x. m' = Inr x \<Longrightarrow> f x = f' x) \<Longrightarrow> rbind m f = rbind m' f'"
  by (cases m') auto

lemma rmap_eq_Inr_length: "rmap f xs = Inr ys \<Longrightarrow> length ys = length xs"
  by (induction xs arbitrary: ys) (auto simp: result_simps)

lemma rmap_Inr: "(\<And>x. x \<in> set xs \<Longrightarrow> f x = Inr (g x)) \<Longrightarrow> rmap f xs = Inr (map g xs)"
  by (induction xs) auto

lemma rfold_append: "rfold f (xs @ ys) s = rbind (rfold f xs s) (rfold f ys)"
  by (induction xs arbitrary: s) (auto simp: rbind_assoc intro: rbind_cong)

lemma rfold_map: "rfold f (map g xs) s = rfold (\<lambda>x. f (g x)) xs s"
  by (induction xs arbitrary: s) (auto intro: rbind_cong)

section \<open>Integer conversions\<close>

text \<open>
  \<open>(int) v.size()\<close>: the low 32 bits of the size, read as a signed number. Sizes below
  \<open>2 ^ 31\<close> are unchanged.
\<close>

definition int_of_size :: "nat \<Rightarrow> int" where
  "int_of_size n = sint (of_nat n :: u32)"

lemma int_of_size_small [simp]:
  assumes "n < 2 ^ 31"
  shows "int_of_size n = int n"
  using assms by (simp add: int_of_size_def signed_of_nat signed_take_bit_int_eq_self)

text \<open>Division of a \<open>cpp_int\<close> truncates towards zero.\<close>

definition trunc_div :: "int \<Rightarrow> int \<Rightarrow> int" where
  "trunc_div a b =
     (let q = \<bar>a\<bar> div \<bar>b\<bar> in if (a < 0) = (b < 0) then q else - q)"

lemma trunc_div_nonneg [simp]: "0 \<le> a \<Longrightarrow> 0 < b \<Longrightarrow> trunc_div a b = a div b"
  by (simp add: trunc_div_def)

lemma trunc_div_two_less: "a \<noteq> 0 \<Longrightarrow> \<bar>trunc_div a 2\<bar> < \<bar>a\<bar>"
  by (auto simp: trunc_div_def Let_def)

section \<open>Words as natural numbers\<close>

lemma unat_ucast_up:
  "LENGTH('a) \<le> LENGTH('b) \<Longrightarrow> unat (ucast (x :: 'a :: len word) :: 'b :: len word) = unat x"
  by (simp add: unsigned_ucast_eq take_bit_nat_eq_self order_less_le_trans [OF unsigned_less])

lemma unat_less_64: "unat (x :: u64) < 2 ^ 64"
  by (rule order_less_le_trans [OF unsigned_less]) simp

lemma unat_less_32: "unat (x :: u32) < 2 ^ 32"
  by (rule order_less_le_trans [OF unsigned_less]) simp

lemma unat_less_16: "unat (x :: u16) < 2 ^ 16"
  by (rule order_less_le_trans [OF unsigned_less]) simp

lemma unat_Suc_word: "i + 1 \<noteq> 0 \<Longrightarrow> unat (i + 1) = Suc (unat (i :: 'a :: len word))"
  using unatSuc [of i] by (simp add: add.commute)

lemma unat_Suc_word': "unat i + 1 < 2 ^ LENGTH('a) \<Longrightarrow> unat (i + 1) = Suc (unat (i :: 'a :: len word))"
  by (simp add: unat_word_ariths)

end
