(* ===== verification/Bytes.thy ===== *)
theory Bytes
  imports Prelude
begin

text \<open>
  Memory as the program reads and writes it: the byte image of an integer on a little-endian
  machine, and the hexadecimal digits of a byte. The sources copy integers and hashes with
  \<open>memcpy\<close>, \<open>write((char*)&obj, sizeof(obj))\<close> and casts to \<open>unsigned char*\<close>; the platforms
  the build supports are little-endian.
\<close>

unbundle bit_operations_syntax

section \<open>Little-endian images\<close>

definition le_bytes :: "nat \<Rightarrow> 'a :: len word \<Rightarrow> data" where
  "le_bytes n w = map (\<lambda>i. ucast (drop_bit (8 * i) w)) [0..<n]"

fun le_word :: "data \<Rightarrow> 'a :: len word" where
  "le_word [] = 0"
| "le_word (b # bs) = ucast b OR push_bit 8 (le_word bs)"

lemma length_le_bytes [simp]: "length (le_bytes n w) = n"
  by (simp add: le_bytes_def)

lemma nth_le_bytes [simp]: "i < n \<Longrightarrow> le_bytes n w ! i = ucast (drop_bit (8 * i) w)"
  by (simp add: le_bytes_def)

lemma bit_le_word:
  "bit (le_word bs :: 'a :: len word) j \<longleftrightarrow>
     j < LENGTH('a) \<and> j div 8 < length bs \<and> bit (bs ! (j div 8)) (j mod 8)"
proof (induction bs arbitrary: j)
  case (Cons b bs)
  show ?case
  proof (cases "j < 8")
    case True then show ?thesis by (auto simp: bit_simps)
  next
    case False
    then obtain i where j: "j = i + 8" by (metis add.commute le_Suc_ex not_less)
    have "(i + 8) div 8 = Suc (i div 8)" "(i + 8) mod 8 = i mod 8" by simp_all
    moreover have "\<not> bit b (i + 8)" using bit_imp_le_length [of b "i + 8"] by auto
    ultimately show ?thesis using Cons.IH [of i] by (auto simp: j bit_simps)
  qed
qed simp

lemma le_word_le_bytes:
  assumes "LENGTH('a) \<le> 8 * n"
  shows "le_word (le_bytes n w) = (w :: 'a :: len word)"
proof (rule bit_word_eqI)
  fix j assume "j < LENGTH('a)"
  moreover from this assms have "j div 8 < n" by auto
  ultimately show "bit (le_word (le_bytes n w) :: 'a word) j = bit w j"
    by (simp add: bit_le_word bit_simps)
qed

lemma le_bytes_le_word:
  assumes "8 * length bs \<le> LENGTH('a :: len)"
  shows "le_bytes (length bs) (le_word bs :: 'a word) = bs"
proof (rule nth_equalityI)
  fix i assume i: "i < length (le_bytes (length bs) (le_word bs :: 'a word))"
  show "le_bytes (length bs) (le_word bs :: 'a word) ! i = bs ! i"
  proof (rule bit_word_eqI)
    fix j :: nat assume "j < LENGTH(8)"
    then have "(8 * i + j) div 8 = i" "(8 * i + j) mod 8 = j" "8 * i + j < LENGTH('a)"
      using i assms by auto
    then show "bit (le_bytes (length bs) (le_word bs :: 'a word) ! i) j = bit (bs ! i) j"
      using i \<open>j < LENGTH(8)\<close> by (simp add: bit_simps bit_le_word)
  qed
qed simp

lemma le_bytes_inj:
  assumes "LENGTH('a) \<le> 8 * n" "le_bytes n v = le_bytes n w"
  shows "v = (w :: 'a :: len word)"
  using assms le_word_le_bytes by metis

lemma le_bytes_4: "le_bytes 4 w = [ucast w, ucast (drop_bit 8 w), ucast (drop_bit 16 w), ucast (drop_bit 24 w)]"
  by (simp add: le_bytes_def upt_conv_Cons)

section \<open>Hexadecimal digits\<close>

text \<open>A nibble as the lower-case digit that \<open>%02x\<close> and the digit tables of the sources give.\<close>

definition hex_digit :: "nat \<Rightarrow> char" where
  "hex_digit n = ''0123456789abcdef'' ! n"

definition hex_byte :: "byte \<Rightarrow> string" where
  "hex_byte b = [hex_digit (unat (drop_bit 4 b)), hex_digit (unat (b AND 15))]"

text \<open>The decimal digits that \<open>%d\<close> prints.\<close>

fun dec_nat :: "nat \<Rightarrow> string" where
  "dec_nat n = (if n < 10 then [hex_digit n] else dec_nat (n div 10) @ [hex_digit (n mod 10)])"

declare dec_nat.simps [simp del]

definition dec_int :: "int \<Rightarrow> string" where
  "dec_int n = (if n < 0 then CHR ''-'' # dec_nat (nat (- n)) else dec_nat (nat n))"

lemma mask_nibble: "(15 :: byte) = mask 4"
  by (simp add: mask_eq_exp_minus_1)

lemma unat_nibbles [simp]:
  "unat (drop_bit 4 (b :: byte)) < 16" "unat ((b :: byte) AND 15) < 16"
proof -
  have b: "unat b < 256" by (rule order_less_le_trans [OF unsigned_less]) simp
  have "unat (drop_bit 4 b) = unat b div 16" by (simp add: drop_bit_eq_div unat_div)
  with b show "unat (drop_bit 4 b) < 16" by (simp add: less_mult_imp_div_less)
  have "b AND 15 = take_bit 4 b" by (simp add: mask_nibble take_bit_eq_mask)
  then have "unat (b AND 15) = unat b mod 16" by (simp add: take_bit_eq_mod unat_mod)
  then show "unat (b AND 15) < 16" by simp
qed

lemma nibbles: "drop_bit 4 b = h \<Longrightarrow> b AND 15 = l \<Longrightarrow> (b :: byte) = l OR push_bit 4 h"
proof -
  assume h: "drop_bit 4 b = h" and l: "b AND 15 = l"
  have "b = (b AND 15) OR push_bit 4 (drop_bit 4 b)"
    unfolding mask_nibble
    by (intro bit_word_eqI) (simp add: bit_simps, metis le_add_diff_inverse not_less)
  with h l show ?thesis by simp
qed

end
