(* ===== verification/Uint256.thy ===== *)
theory Uint256
  imports Bytes
begin

text \<open>
  \<open>src/src/lib/core/uint256.h\<close>: \<open>base_uint<BITS>\<close>, from which \<open>uint160\<close> (transaction and key
  identifiers) and \<open>uint256\<close> (hashes) are derived. A number is the array \<open>pn\<close> of its 32-bit limbs,
  least significant first; \<open>uvalue\<close> is the number it stands for. The lemmas show that every
  operation on limbs is the operation on numbers modulo \<open>2 ^ BITS\<close>, and that the hexadecimal form
  is read back. \<open>getdouble\<close> (floating point) is left out.
\<close>

section \<open>Limbs\<close>

type_synonym base_uint = "u32 list"

definition uvalue :: "base_uint \<Rightarrow> int" where
  "uvalue pn = horner_sum uint (2 ^ 32) pn"

definition low32 :: "u64 \<Rightarrow> u32" where
  "low32 b = ucast b"

definition high32 :: "u64 \<Rightarrow> u32" where
  "high32 b = ucast (drop_bit 32 b)"

text \<open>\<open>operator=(uint64_t)\<close> and the constructors from a number, for \<open>WIDTH\<close> limbs.\<close>

definition bu_of_u64 :: "nat \<Rightarrow> u64 \<Rightarrow> base_uint" where
  "bu_of_u64 width b = low32 b # high32 b # replicate (width - 2) 0"

definition bu_is_zero :: "base_uint \<Rightarrow> bool" where
  "bu_is_zero pn = list_all (\<lambda>p. p = 0) pn"

definition bu_compl :: "base_uint \<Rightarrow> base_uint" where
  "bu_compl pn = map (\<lambda>p. NOT p) pn"

definition bu_xor :: "base_uint \<Rightarrow> base_uint \<Rightarrow> base_uint" where
  "bu_xor pn b = map2 (\<lambda>p q. p XOR q) pn b"

definition bu_and :: "base_uint \<Rightarrow> base_uint \<Rightarrow> base_uint" where
  "bu_and pn b = map2 (\<lambda>p q. p AND q) pn b"

definition bu_or :: "base_uint \<Rightarrow> base_uint \<Rightarrow> base_uint" where
  "bu_or pn b = map2 (\<lambda>p q. p OR q) pn b"

definition bu_xor_u64 :: "base_uint \<Rightarrow> u64 \<Rightarrow> base_uint" where
  "bu_xor_u64 pn b = pn[0 := pn ! 0 XOR low32 b, 1 := pn ! 1 XOR high32 b]"

definition bu_or_u64 :: "base_uint \<Rightarrow> u64 \<Rightarrow> base_uint" where
  "bu_or_u64 pn b = pn[0 := pn ! 0 OR low32 b, 1 := pn ! 1 OR high32 b]"

text \<open>\<open>while (++pn[i] == 0 && i < WIDTH-1) i++;\<close> and its counterpart for \<open>--\<close>.\<close>

fun bu_inc :: "base_uint \<Rightarrow> base_uint" where
  "bu_inc [] = []"
| "bu_inc (p # pn) = (if p + 1 = 0 then (p + 1) # bu_inc pn else (p + 1) # pn)"

fun bu_dec :: "base_uint \<Rightarrow> base_uint" where
  "bu_dec [] = []"
| "bu_dec (p # pn) = (if p - 1 = - 1 then (p - 1) # bu_dec pn else (p - 1) # pn)"

definition bu_neg :: "base_uint \<Rightarrow> base_uint" where
  "bu_neg pn = bu_inc (bu_compl pn)"

fun bu_add_loop :: "u64 \<Rightarrow> base_uint \<Rightarrow> base_uint \<Rightarrow> base_uint" where
  "bu_add_loop carry (p # pn) (q # b) =
     (let n = carry + ucast p + ucast q
      in low32 (n AND 0xffffffff) # bu_add_loop (drop_bit 32 n) pn b)"
| "bu_add_loop carry pn b = []"

definition bu_add :: "base_uint \<Rightarrow> base_uint \<Rightarrow> base_uint" where
  "bu_add pn b = bu_add_loop 0 pn b"

definition bu_sub :: "base_uint \<Rightarrow> base_uint \<Rightarrow> base_uint" where
  "bu_sub pn b = bu_add pn (bu_neg b)"

definition bu_add_u64 :: "base_uint \<Rightarrow> u64 \<Rightarrow> base_uint" where
  "bu_add_u64 pn b = bu_add pn (bu_of_u64 (length pn) b)"

definition bu_sub_u64 :: "base_uint \<Rightarrow> u64 \<Rightarrow> base_uint" where
  "bu_sub_u64 pn b = bu_add pn (bu_neg (bu_of_u64 (length pn) b))"

text \<open>The shifts work on a copy \<open>a\<close> and collect into zeroed limbs.\<close>

definition bu_shl_step :: "base_uint \<Rightarrow> nat \<Rightarrow> nat \<Rightarrow> nat \<Rightarrow> base_uint \<Rightarrow> base_uint" where
  "bu_shl_step a k shift i pn =
     (let pn = (if i + k + 1 < length a \<and> shift \<noteq> 0
                then pn[i + k + 1 := pn ! (i + k + 1) OR drop_bit (32 - shift) (a ! i)] else pn)
      in if i + k < length a then pn[i + k := pn ! (i + k) OR push_bit shift (a ! i)] else pn)"

definition bu_shl :: "base_uint \<Rightarrow> u32 \<Rightarrow> base_uint" where
  "bu_shl a shift =
     fold (bu_shl_step a (unat shift div 32) (unat shift mod 32)) [0..<length a]
       (replicate (length a) 0)"

definition bu_shr_step :: "base_uint \<Rightarrow> nat \<Rightarrow> nat \<Rightarrow> nat \<Rightarrow> base_uint \<Rightarrow> base_uint" where
  "bu_shr_step a k shift i pn =
     (let pn = (if k + 1 \<le> i \<and> shift \<noteq> 0
                then pn[i - k - 1 := pn ! (i - k - 1) OR push_bit (32 - shift) (a ! i)] else pn)
      in if k \<le> i then pn[i - k := pn ! (i - k) OR drop_bit shift (a ! i)] else pn)"

definition bu_shr :: "base_uint \<Rightarrow> u32 \<Rightarrow> base_uint" where
  "bu_shr a shift =
     fold (bu_shr_step a (unat shift div 32) (unat shift mod 32)) [0..<length a]
       (replicate (length a) 0)"

text \<open>Comparisons run from the most significant limb; the arguments here are reversed.\<close>

fun bu_less_loop :: "bool \<Rightarrow> base_uint \<Rightarrow> base_uint \<Rightarrow> bool" where
  "bu_less_loop eq (p # a) (q # b) = (if p < q then True else if p > q then False else bu_less_loop eq a b)"
| "bu_less_loop eq a b = eq"

definition bu_less :: "base_uint \<Rightarrow> base_uint \<Rightarrow> bool" where
  "bu_less a b = bu_less_loop False (rev a) (rev b)"

definition bu_leq :: "base_uint \<Rightarrow> base_uint \<Rightarrow> bool" where
  "bu_leq a b = bu_less_loop True (rev a) (rev b)"

definition bu_greater :: "base_uint \<Rightarrow> base_uint \<Rightarrow> bool" where
  "bu_greater a b = bu_less_loop False (rev b) (rev a)"

definition bu_geq :: "base_uint \<Rightarrow> base_uint \<Rightarrow> bool" where
  "bu_geq a b = bu_less_loop True (rev b) (rev a)"

definition bu_eq :: "base_uint \<Rightarrow> base_uint \<Rightarrow> bool" where
  "bu_eq a b = list_all2 (\<lambda>p q. p = q) a b"

definition bu_eq_u64 :: "base_uint \<Rightarrow> u64 \<Rightarrow> bool" where
  "bu_eq_u64 a b = (a ! 0 = low32 b \<and> a ! 1 = high32 b \<and> list_all (\<lambda>p. p = 0) (drop 2 a))"

definition GetLow64 :: "base_uint \<Rightarrow> u64 result" where
  "GetLow64 pn =
     rbind (rassert (2 \<le> length pn)) (\<lambda>_. Inr (ucast (pn ! 0) OR push_bit 32 (ucast (pn ! 1))))"

section \<open>Memory image and hexadecimal form\<close>

text \<open>\<open>begin()\<close> to \<open>end()\<close>; \<open>memcpy\<close> into \<open>pn\<close>; the constructors from a byte vector.\<close>

definition bu_bytes :: "base_uint \<Rightarrow> data" where
  "bu_bytes pn = concat (map (le_bytes 4) pn)"

fun bu_of_bytes :: "data \<Rightarrow> base_uint" where
  "bu_of_bytes (a # b # c # d # bs) = le_word [a, b, c, d] # bu_of_bytes bs"
| "bu_of_bytes bs = []"

definition bu_of_vch :: "nat \<Rightarrow> data \<Rightarrow> base_uint" where
  "bu_of_vch width vch =
     (if length vch = 4 * width then bu_of_bytes vch else bu_of_u64 width 0)"

definition GetHex :: "base_uint \<Rightarrow> string" where
  "GetHex pn = concat (map hex_byte (rev (bu_bytes pn)))"

definition p_util_hexdigit :: "int list" where
  "p_util_hexdigit =
     replicate 48 (-1) @ [0, 1, 2, 3, 4, 5, 6, 7, 8, 9] @
     replicate 7 (-1) @ [10, 11, 12, 13, 14, 15] @
     replicate 26 (-1) @ [10, 11, 12, 13, 14, 15] @ replicate 153 (-1)"

definition HexDigit :: "char \<Rightarrow> int" where
  "HexDigit c = p_util_hexdigit ! of_char c"

definition isspace :: "char \<Rightarrow> bool" where
  "isspace c = (of_char c \<in> {9 :: nat, 10, 11, 12, 13, 32})"

text \<open>\<open>skip0x\<close> is the part of \<open>SetHex\<close> that drops the prefix.\<close>

fun skip0x :: "string \<Rightarrow> string" where
  "skip0x (a # b # s) = (if a = CHR ''0'' \<and> (b = CHR ''x'' \<or> b = CHR ''X'') then s else a # b # s)"
| "skip0x s = s"

text \<open>The digits, last one first, into \<open>n\<close> zeroed bytes.\<close>

fun SetHex_loop :: "string \<Rightarrow> nat \<Rightarrow> data" where
  "SetHex_loop ds 0 = []"
| "SetHex_loop [] n = replicate n 0"
| "SetHex_loop [d] (Suc n) = word_of_int (HexDigit d) # replicate n 0"
| "SetHex_loop (d # e # ds) (Suc n) =
     (word_of_int (HexDigit d) OR push_bit 4 (word_of_int (HexDigit e))) # SetHex_loop ds n"

definition SetHex :: "nat \<Rightarrow> string \<Rightarrow> base_uint" where
  "SetHex width psz =
     (let digits = takeWhile (\<lambda>c. HexDigit c \<noteq> -1) (skip0x (dropWhile isspace psz))
      in bu_of_bytes (SetHex_loop (rev digits) (4 * width)))"

section \<open>The operations on numbers\<close>


lemma uvalue_Nil [simp]: "uvalue [] = 0"
  by (simp add: uvalue_def)

lemma uvalue_Cons [simp]: "uvalue (p # pn) = uint p + 2 ^ 32 * uvalue pn"
  by (simp add: uvalue_def)

lemma uint_less_32: "uint (p :: u32) < 2 ^ 32"
  using unsigned_less [of p] by simp

lemma uvalue_bounds: "0 \<le> uvalue pn \<and> uvalue pn < 2 ^ (32 * length pn)"
proof (induction pn)
  case (Cons p pn)
  have "0 \<le> uint p" "uint p < 2 ^ 32" using uint_less_32 by auto
  with Cons show ?case by (auto simp: power_add algebra_simps)
qed simp

lemma bit_uvalue: "bit (uvalue pn) n \<longleftrightarrow> n div 32 < length pn \<and> bit (pn ! (n div 32)) (n mod 32)"
  using bit_horner_sum_uint_exp_iff [of pn n] by (simp add: uvalue_def)

lemma uvalue_inj: "length a = length b \<Longrightarrow> uvalue a = uvalue b \<Longrightarrow> a = b"
proof (rule nth_equalityI)
  fix i assume "length a = length b" "uvalue a = uvalue b" "i < length a"
  show "a ! i = b ! i"
  proof (rule bit_word_eqI)
    fix j :: nat assume "j < LENGTH(32)"
    then have "(32 * i + j) div 32 = i" "(32 * i + j) mod 32 = j" by auto
    with bit_uvalue [of a "32 * i + j"] bit_uvalue [of b "32 * i + j"]
    show "bit (a ! i) j = bit (b ! i) j"
      using \<open>length a = length b\<close> \<open>uvalue a = uvalue b\<close> \<open>i < length a\<close> by simp
  qed
qed

lemma length_bu [simp]:
  "length (bu_compl a) = length a" "length (bu_inc a) = length a" "length (bu_dec a) = length a"
  "length (bu_neg a) = length a" "2 \<le> w \<Longrightarrow> length (bu_of_u64 w b) = w"
proof -
  show inc: "length (bu_inc a) = length a" for a by (induction a) auto
  show "length (bu_dec a) = length a" by (induction a) auto
  show "length (bu_compl a) = length a" by (simp add: bu_compl_def)
  then show "length (bu_neg a) = length a" by (simp add: bu_neg_def inc)
  show "2 \<le> w \<Longrightarrow> length (bu_of_u64 w b) = w" by (simp add: bu_of_u64_def)
qed

lemma mod_limbs: "0 \<le> l \<Longrightarrow> l < 2 ^ 32 \<Longrightarrow> l + 2 ^ 32 * (h mod 2 ^ m) = (l + 2 ^ 32 * h) mod (2 ^ (32 + m) :: int)"
proof -
  assume l: "0 \<le> l" "l < 2 ^ 32"
  have "(l + 2 ^ 32 * h) mod (2 ^ 32 * 2 ^ m) = 2 ^ 32 * ((l + 2 ^ 32 * h) div 2 ^ 32 mod 2 ^ m) + (l + 2 ^ 32 * h) mod 2 ^ 32"
    by (rule zmod_zmult2_eq) simp
  moreover have "(l + 2 ^ 32 * h) div 2 ^ 32 = h" "(l + 2 ^ 32 * h) mod 2 ^ 32 = l"
    using l by simp_all
  ultimately show ?thesis by (simp add: power_add)
qed

lemma uint_plus_one: "p + 1 \<noteq> 0 \<Longrightarrow> uint (p + 1 :: u32) = uint p + 1"
  using unat_Suc_word [of p] by (simp add: uint_nat del: of_nat_unat)

lemma uint_NOT: "uint (NOT p :: u32) = 2 ^ 32 - 1 - uint p"
proof -
  have "NOT p = - 1 - p" by (simp add: not_eq_complement)
  moreover have "0 \<le> 2 ^ 32 - 1 - uint p" "2 ^ 32 - 1 - uint p < 2 ^ 32"
    using uint_less_32 [of p] order_less_le_trans [OF _ uint_ge_0, of "- 1" p] by simp_all
  ultimately show ?thesis by (simp add: uint_word_ariths)
qed

lemma uint_up [simp]: "uint (ucast (p :: u32) :: u64) = uint p"
proof -
  have "unat (ucast p :: u64) = unat p" by (simp add: unat_ucast_up)
  then show ?thesis by (simp only: uint_nat)
qed

lemma uvalue_inc: "uvalue (bu_inc a) = (uvalue a + 1) mod 2 ^ (32 * length a)"
proof (induction a)
  case (Cons p a)
  show ?case
  proof (cases "p + 1 = 0")
    case True
    then have "p = - 1" by (simp add: eq_neg_iff_add_eq_0)
    then have p: "uint p = 2 ^ 32 - 1" by (simp add: unsigned_minus_1_eq_mask mask_eq_exp_minus_1)
    then show ?thesis using Cons mod_limbs [of 0 "uvalue a + 1" "32 * length a"]
      by (simp add: True) (simp add: add.commute)
  next
    case False
    then have "uint (p + 1) = uint p + 1" by (rule uint_plus_one)
    moreover have "uint (p + 1) < 2 ^ 32" "0 \<le> uint (p + 1)" using uint_less_32 by auto
    ultimately show ?thesis using False uvalue_bounds [of "(p + 1) # a"] by simp
  qed
qed simp

lemma uvalue_compl: "uvalue (bu_compl a) = 2 ^ (32 * length a) - 1 - uvalue a"
proof (induction a)
  case (Cons p a)
  with uint_NOT [of p] Cons show ?case by (simp add: bu_compl_def power_add)
qed (simp add: bu_compl_def)

lemma uvalue_neg: "uvalue (bu_neg a) = (- uvalue a) mod 2 ^ (32 * length a)"
proof -
  have "uvalue (bu_neg a) = (2 ^ (32 * length a) - uvalue a) mod 2 ^ (32 * length a)"
    by (simp add: bu_neg_def uvalue_inc uvalue_compl)
  then show ?thesis by (metis minus_mod_self1 )
qed

lemma uint_split: "uint (low32 (n AND 0xffffffff)) = uint n mod 2 ^ 32" "uint (drop_bit 32 n) = uint n div 2 ^ 32"
proof -
  have "(0xffffffff :: u64) = mask 32" by (simp add: mask_eq_exp_minus_1)
  then have "n AND 0xffffffff = take_bit 32 n" by (simp add: take_bit_eq_mask)
  moreover have "uint (take_bit 32 n) = take_bit 32 (uint n)" by (rule unsigned_take_bit_eq)
  ultimately show "uint (low32 (n AND 0xffffffff)) = uint n mod 2 ^ 32"
    by (simp add: low32_def unsigned_ucast_eq take_bit_eq_mod)
  show "uint (drop_bit 32 n) = uint n div 2 ^ 32"
    by (simp add: drop_bit_eq_div uint_div)
qed

lemma uvalue_add_loop:
  "length a = length b \<Longrightarrow> carry \<le> 1 \<Longrightarrow>
     uvalue (bu_add_loop carry a b) = (uint carry + uvalue a + uvalue b) mod 2 ^ (32 * length a)"
proof (induction a b arbitrary: carry rule: list_induct2)
  case (Cons p a q b)
  define n :: u64 where "n = carry + ucast p + ucast q"
  have "uint carry \<le> 1" using Cons.prems by (simp add: word_le_def)
  then have n: "uint n = uint carry + uint p + uint q"
    using uint_less_32 [of p] uint_less_32 [of q] by (simp add: n_def uint_word_ariths)
  note uint_split [of n]
  moreover have "drop_bit 32 n \<le> 1"
    using \<open>uint carry \<le> 1\<close> uint_less_32 [of p] uint_less_32 [of q] by (simp add: word_le_def uint_split n)
  ultimately show ?case
    using Cons.IH [of "drop_bit 32 n"] mod_limbs [of "uint n mod 2 ^ 32" "uint n div 2 ^ 32 + uvalue a + uvalue b" "32 * length a"]
    by (simp add: n_def [symmetric] Let_def) (simp add: n algebra_simps)
qed simp

lemma uvalue_add:
  "length a = length b \<Longrightarrow> uvalue (bu_add a b) = (uvalue a + uvalue b) mod 2 ^ (32 * length a)"
  by (simp add: bu_add_def uvalue_add_loop)

lemma uvalue_sub:
  "length a = length b \<Longrightarrow> uvalue (bu_sub a b) = (uvalue a - uvalue b) mod 2 ^ (32 * length a)"
  by (simp add: bu_sub_def uvalue_add uvalue_neg mod_simps)

lemma uvalue_append: "uvalue (a @ b) = uvalue a + 2 ^ (32 * length a) * uvalue b"
  by (induction a) (auto simp: power_add algebra_simps)

lemma bu_less_loop_rev:
  "length a = length b \<Longrightarrow> bu_less_loop eq a b \<longleftrightarrow> uvalue (rev a) < uvalue (rev b) \<or> eq \<and> uvalue (rev a) = uvalue (rev b)"
proof (induction a b rule: list_induct2)
  case (Cons p a q b)
  let ?m = "2 ^ (32 * length a) :: int"
  have bnd: "0 \<le> uvalue (rev a)" "uvalue (rev a) < ?m" "0 \<le> uvalue (rev b)" "uvalue (rev b) < ?m"
    using uvalue_bounds [of "rev a"] uvalue_bounds [of "rev b"] Cons by auto
  have "?m * uint p + ?m \<le> ?m * uint q" if "uint p < uint q" for p q :: u32
    using mult_left_mono [of "uint p + 1" "uint q" ?m] that by (simp add: algebra_simps)
  from this [of p q] this [of q p] show ?case using Cons bnd
    by (auto simp: uvalue_append word_less_def word_uint_eq_iff)
qed simp

lemma bu_compare:
  assumes "length a = length b"
  shows "bu_less a b \<longleftrightarrow> uvalue a < uvalue b" "bu_leq a b \<longleftrightarrow> uvalue a \<le> uvalue b"
    "bu_greater a b \<longleftrightarrow> uvalue a > uvalue b" "bu_geq a b \<longleftrightarrow> uvalue a \<ge> uvalue b"
    "bu_eq a b \<longleftrightarrow> uvalue a = uvalue b"
  using assms uvalue_inj [of a b]
  by (auto simp: bu_less_def bu_leq_def bu_greater_def bu_geq_def bu_eq_def bu_less_loop_rev list.rel_eq)


lemma nth_bu_shl_step:
  assumes "length c = length a" "j < length a" "i < length a"
  shows "bu_shl_step a k s i c ! j =
    c ! j OR (if j = i + k + 1 \<and> s \<noteq> 0 then drop_bit (32 - s) (a ! i) else 0)
      OR (if j = i + k then push_bit s (a ! i) else 0)"
  using assms by (auto simp: bu_shl_step_def Let_def nth_list_update)

lemma length_bu_shl_step: "length (bu_shl_step a k s i c) = length c"
  by (simp add: bu_shl_step_def Let_def)

lemma bu_shl_fold:
  assumes "t \<le> length a"
  shows "length (fold (bu_shl_step a k s) [0..<t] (replicate (length a) 0)) = length a" and
    "j < length a \<Longrightarrow> fold (bu_shl_step a k s) [0..<t] (replicate (length a) 0) ! j =
       (if k + 1 \<le> j \<and> j - k - 1 < t \<and> s \<noteq> 0 then drop_bit (32 - s) (a ! (j - k - 1)) else 0) OR
       (if k \<le> j \<and> j - k < t then push_bit s (a ! (j - k)) else 0)"
  using assms
proof (induction t arbitrary: j)
  case (Suc t)
  {
    case 1 with Suc.IH show ?case by (simp add: length_bu_shl_step)
  next
    case 2
    consider "j = t + k + 1" | "j = t + k" | "j \<noteq> t + k + 1" "j \<noteq> t + k" by blast
    then show ?case using Suc.IH 2
      by cases (auto simp: nth_bu_shl_step less_Suc_eq or.commute)
  }
qed simp_all

lemma nth_bu_shr_step:
  assumes "length c = length a" "j < length a" "i < length a"
  shows "bu_shr_step a k s i c ! j =
    c ! j OR (if j + k + 1 = i \<and> s \<noteq> 0 then push_bit (32 - s) (a ! i) else 0)
      OR (if j + k = i then drop_bit s (a ! i) else 0)"
  using assms by (auto simp: bu_shr_step_def Let_def nth_list_update)

lemma length_bu_shr_step: "length (bu_shr_step a k s i c) = length c"
  by (simp add: bu_shr_step_def Let_def)

lemma bu_shr_fold:
  assumes "t \<le> length a"
  shows "length (fold (bu_shr_step a k s) [0..<t] (replicate (length a) 0)) = length a" and
    "j < length a \<Longrightarrow> fold (bu_shr_step a k s) [0..<t] (replicate (length a) 0) ! j =
       (if j + k + 1 < t \<and> s \<noteq> 0 then push_bit (32 - s) (a ! (j + k + 1)) else 0) OR
       (if j + k < t then drop_bit s (a ! (j + k)) else 0)"
  using assms
proof (induction t arbitrary: j)
  case (Suc t)
  {
    case 1 with Suc.IH show ?case by (simp add: length_bu_shr_step)
  next
    case 2 with Suc.IH show ?case
      by (auto simp: nth_bu_shr_step less_Suc_eq or.commute)
  }
qed simp_all

lemma uvalue_eqI:
  assumes "\<And>j m. m < 32 \<Longrightarrow> j < length pn \<Longrightarrow> bit (pn ! j) m = bit x (32 * j + m)"
    and "\<And>n. bit x n \<Longrightarrow> n < 32 * length pn"
  shows "uvalue pn = x"
proof (rule bit_eqI)
  fix n :: nat
  have "n = 32 * (n div 32) + n mod 32" "n mod 32 < 32" by simp_all
  with assms(1) [of "n mod 32" "n div 32"] assms(2) [of n]
  show "bit (uvalue pn) n = bit x n"
    by (cases "n div 32 < length pn") (auto simp: bit_uvalue)
qed

lemma bit_uvalue_at: "m < 32 \<Longrightarrow> bit (uvalue a) (32 * j + m) \<longleftrightarrow> j < length a \<and> bit (a ! j) m"
  by (simp add: bit_uvalue)

lemma uvalue_shl:
  "uvalue (bu_shl a shift) = take_bit (32 * length a) (push_bit (unat shift) (uvalue a))"
proof (rule uvalue_eqI)
  let ?k = "unat shift div 32" and ?s = "unat shift mod 32"
  have len: "length (bu_shl a shift) = length a"
    by (simp add: bu_shl_def bu_shl_fold)
  fix j m :: nat assume m: "m < 32" and "j < length (bu_shl a shift)"
  then have j: "j < length a" by (simp add: len)
  define k s where ks: "k = ?k" "s = ?s"
  have sh: "unat shift = 32 * k + s" "s < 32" by (simp_all add: ks)
  have r: "bu_shl a shift ! j =
       (if k + 1 \<le> j \<and> j - k - 1 < length a \<and> s \<noteq> 0 then drop_bit (32 - s) (a ! (j - k - 1)) else 0) OR
       (if k \<le> j \<and> j - k < length a then push_bit s (a ! (j - k)) else 0)"
    using bu_shl_fold(2) [OF order_refl j] by (simp add: bu_shl_def ks)
  have goal: "bit (take_bit (32 * length a) (push_bit (unat shift) (uvalue a))) (32 * j + m) \<longleftrightarrow>
     32 * k + s \<le> 32 * j + m \<and> bit (uvalue a) (32 * j + m - (32 * k + s))"
    using j m sh by (simp add: bit_simps)
  consider "j < k" | "j = k" "m < s" | "k \<le> j" "s \<le> m" | "k < j" "m < s" by linarith
  then show "bit (bu_shl a shift ! j) m =
      bit (take_bit (32 * length a) (push_bit (unat shift) (uvalue a))) (32 * j + m)"
  proof cases
    case 3
    then have e: "32 * j + m - (32 * k + s) = 32 * (j - k) + (m - s)" by simp
    from m have lt: "m - s < 32" by simp
    show ?thesis using 3 m j
      unfolding goal e bit_uvalue_at [OF lt] r by (auto simp: bit_simps dest: bit_imp_le_length)
  next
    case 4
    then have e: "32 * j + m - (32 * k + s) = 32 * (j - k - 1) + (32 - s + m)"
      using sh(2) by linarith
    from 4 have lt: "32 - s + m < 32" "32 * k + s \<le> 32 * j + m"
      using sh(2) by linarith+
    show ?thesis using 4 m j lt
      unfolding goal e bit_uvalue_at [OF lt(1)] r by (auto simp: bit_simps)
  qed (use sh(2) m in \<open>unfold goal r, auto simp: bit_simps\<close>)
qed (simp add: bit_simps bu_shl_def bu_shl_fold)

lemma uvalue_shr: "uvalue (bu_shr a shift) = drop_bit (unat shift) (uvalue a)"
proof (rule uvalue_eqI)
  let ?k = "unat shift div 32" and ?s = "unat shift mod 32"
  have len: "length (bu_shr a shift) = length a"
    by (simp add: bu_shr_def bu_shr_fold)
  fix j m :: nat assume m: "m < 32" and "j < length (bu_shr a shift)"
  then have j: "j < length a" by (simp add: len)
  define k s where ks: "k = ?k" "s = ?s"
  have sh: "unat shift = 32 * k + s" "s < 32" by (simp_all add: ks)
  have r: "bu_shr a shift ! j =
       (if j + k + 1 < length a \<and> s \<noteq> 0 then push_bit (32 - s) (a ! (j + k + 1)) else 0) OR
       (if j + k < length a then drop_bit s (a ! (j + k)) else 0)"
    using bu_shr_fold(2) [OF order_refl j] by (simp add: bu_shr_def ks)
  consider "m + s < 32" | "32 \<le> m + s" by linarith
  then show "bit (bu_shr a shift ! j) m = bit (drop_bit (unat shift) (uvalue a)) (32 * j + m)"
  proof cases
    case 1
    have e: "unat shift + (32 * j + m) = 32 * (j + k) + (m + s)" using sh by simp
    show ?thesis using 1
      unfolding r bit_drop_bit_eq comp_def e bit_uvalue_at [OF 1] by (auto simp: bit_simps add.commute dest: bit_imp_le_length)
  next
    case 2
    then have e: "unat shift + (32 * j + m) = 32 * (j + k + 1) + (m + s - 32)" using sh by simp
    from m sh(2) have lt: "m + s - 32 < 32" by simp
    show ?thesis using 2 m sh(2)
      unfolding r bit_drop_bit_eq comp_def e bit_uvalue_at [OF lt] by (auto simp: bit_simps dest: bit_imp_le_length)
  qed
next
  fix n assume "bit (drop_bit (unat shift) (uvalue a)) n"
  then have "(unat shift + n) div 32 < length a" by (simp add: bit_simps bit_uvalue)
  then show "n < 32 * length (bu_shr a shift)" by (simp add: bu_shr_def bu_shr_fold)
qed

section \<open>Bytes and hexadecimal digits are read back\<close>


lemma length_bu_bytes [simp]: "length (bu_bytes pn) = 4 * length pn"
  by (simp add: bu_bytes_def length_concat sum_list_triv comp_def)

lemma bu_of_bytes_bytes [simp]: "bu_of_bytes (bu_bytes pn) = pn"
proof (induction pn)
  case (Cons p pn)
  then show ?case using le_word_le_bytes [of 4 p] by (simp add: bu_bytes_def le_bytes_4)
qed (simp add: bu_bytes_def)

lemma bu_bytes_of_bytes: "length bs = 4 * n \<Longrightarrow> bu_bytes (bu_of_bytes bs) = bs"
proof (induction n arbitrary: bs)
  case (Suc n)
  then obtain a b c d bs' where bs: "bs = a # b # c # d # bs'" "length bs' = 4 * n"
    by (auto simp: numeral_eq_Suc length_Suc_conv)
  have "le_bytes 4 (le_word [a, b, c, d] :: u32) = [a, b, c, d]"
    using le_bytes_le_word [of "[a, b, c, d]", where 'a = 32] by (simp add: numeral_eq_Suc)
  with bs Suc.IH [of bs'] show ?case
    by (simp add: bu_bytes_def)
qed (simp add: bu_bytes_def)

lemma HexDigit_hex_digit: "n < 16 \<Longrightarrow> HexDigit (hex_digit n) = int n"
proof -
  assume "n < 16"
  then have "n \<in> set [0..<16]" by simp
  moreover have "list_all (\<lambda>n. HexDigit (hex_digit n) = int n) [0..<16]" by code_simp
  ultimately show ?thesis by (simp add: list_all_iff)
qed

lemma hex_digit_chars: "n < 16 \<Longrightarrow> \<not> isspace (hex_digit n) \<and> hex_digit n \<notin> {CHR ''x'', CHR ''X''}"
proof -
  assume "n < 16"
  then have "n \<in> set [0..<16]" by simp
  moreover have "list_all (\<lambda>n. \<not> isspace (hex_digit n) \<and> hex_digit n \<notin> {CHR ''x'', CHR ''X''}) [0..<16]"
    by code_simp
  ultimately show ?thesis by (simp add: list_all_iff)
qed

lemma SetHex_loop_hex: 
  "SetHex_loop (rev (concat (map hex_byte (rev bs)))) (length bs) = bs"
proof (induction bs)
  case (Cons b bs)
  have "word_of_int (int (unat w)) = (w :: byte)" for w by simp
  then show ?case using Cons nibbles [OF refl refl, of b]
    by (simp add: hex_byte_def HexDigit_hex_digit)
qed simp

lemma hex_bytes_digits: "c \<in> set (concat (map hex_byte bs)) \<Longrightarrow> \<exists>n < 16. c = hex_digit n"
  by (auto simp: hex_byte_def) (metis unat_nibbles)+

lemma skip0x_hex: "\<forall>c \<in> set s. \<exists>n < 16. c = hex_digit n \<Longrightarrow> skip0x s = s"
proof (cases s rule: skip0x.cases)
  case (1 a b t)
  assume "\<forall>c \<in> set s. \<exists>n < 16. c = hex_digit n"
  with 1 obtain n where "n < 16" "b = hex_digit n" by auto
  with hex_digit_chars [of n] 1 show ?thesis by auto
qed simp_all

lemma SetHex_GetHex: "SetHex (length pn) (GetHex pn) = pn"
proof -
  let ?s = "GetHex pn"
  have hex: "\<forall>c \<in> set ?s. \<exists>n < 16. c = hex_digit n"
    using hex_bytes_digits unfolding GetHex_def by blast
  have "dropWhile isspace ?s = ?s"
    using hex hex_digit_chars by (cases ?s) auto
  moreover have "takeWhile (\<lambda>c. HexDigit c \<noteq> -1) ?s = ?s"
    unfolding takeWhile_eq_all_conv using hex by (auto simp: HexDigit_hex_digit)
  moreover have "SetHex_loop (rev ?s) (4 * length pn) = bu_bytes pn"
    using SetHex_loop_hex [of "bu_bytes pn"] by (simp add: GetHex_def)
  ultimately show ?thesis using skip0x_hex [OF hex] by (simp only: SetHex_def Let_def bu_of_bytes_bytes)
qed

lemma GetHex_inj: "length a = length b \<Longrightarrow> GetHex a = GetHex b \<Longrightarrow> a = b"
  using SetHex_GetHex by metis

lemma length_GetHex: "length (GetHex pn) = 8 * length pn"
  by (simp add: GetHex_def hex_byte_def length_concat comp_def sum_list_triv rev_map [symmetric] del: rev_map)

section \<open>Properties\<close>


text \<open>C30: on numbers of the same width the limb-wise operations are addition, subtraction, negation,
  increment and the two shifts modulo \<open>2 ^ BITS\<close>, and the comparisons compare the numbers.\<close>

theorem base_uint_arithmetic:
  assumes "length a = length b"
  shows "uvalue (bu_add a b) = (uvalue a + uvalue b) mod 2 ^ (32 * length a) \<and>
    uvalue (bu_sub a b) = (uvalue a - uvalue b) mod 2 ^ (32 * length a) \<and>
    uvalue (bu_neg a) = (- uvalue a) mod 2 ^ (32 * length a) \<and>
    uvalue (bu_inc a) = (uvalue a + 1) mod 2 ^ (32 * length a) \<and>
    uvalue (bu_shl a s) = (uvalue a * 2 ^ unat s) mod 2 ^ (32 * length a) \<and>
    uvalue (bu_shr a s) = uvalue a div 2 ^ unat s \<and>
    (bu_less a b \<longleftrightarrow> uvalue a < uvalue b) \<and> (bu_leq a b \<longleftrightarrow> uvalue a \<le> uvalue b) \<and>
    (bu_greater a b \<longleftrightarrow> uvalue a > uvalue b) \<and> (bu_geq a b \<longleftrightarrow> uvalue a \<ge> uvalue b) \<and>
    (bu_eq a b \<longleftrightarrow> uvalue a = uvalue b)"
  using assms
  by (simp add: uvalue_add uvalue_sub uvalue_neg uvalue_inc uvalue_shl uvalue_shr bu_compare
      take_bit_eq_mod push_bit_eq_mult drop_bit_eq_div)

theorem base_uint_arithmetic_witness:
  "uvalue (bu_add [0xffffffff, 1, 0, 0, 0] [1, 2, 0, 0, 0]) =
    (uvalue [0xffffffff, 1, 0, 0, 0] + uvalue [1, 2, 0, 0, 0]) mod 2 ^ 160"
  using base_uint_arithmetic [of "[0xffffffff, 1, 0, 0, 0]" "[1, 2, 0, 0, 0]"] by simp

text \<open>\<open>SetHex\<close> reads back the digits that \<open>GetHex\<close> prints, at every width, and the digits are two
  for each byte.\<close>

theorem hex_roundtrip:
  "SetHex (length pn) (GetHex pn) = pn \<and> length (GetHex pn) = 8 * length pn"
  by (simp add: SetHex_GetHex length_GetHex)

end
