(* ===== verification/Serialize.thy ===== *)
theory Serialize
  imports Uint256
begin

text \<open>
  \<open>src/src/lib/core/serialize.h\<close>: the wire format. The templates read and write any stream; here
  a writer is the list of bytes it appends and a reader takes the bytes that are left and gives
  the value and what remains. The streams of the sources, with their buffers and positions, are modelled in
  theory \<open>Streams\<close> and shown there to give bytes in this way. Sizes are \<open>unsigned int\<close>, computed modulo \<open>2 ^ 32\<close>.
\<close>

section \<open>Readers\<close>

type_synonym 'a reader = "data \<Rightarrow> ('a \<times> data) result"

definition ios_failure :: "string \<Rightarrow> error" where
  "ios_failure msg = Thrown msg"

definition read_bytes :: "nat \<Rightarrow> data reader" where
  "read_bytes n s =
     (if n \<le> length s then Inr (take n s, drop n s)
      else Inl (ios_failure ''CDataStream::read() : end of data''))"

text \<open>\<open>READDATA\<close> of an integer of \<open>n\<close> bytes.\<close>

definition read_word :: "nat \<Rightarrow> 'a :: len word reader" where
  "read_word n s = rbind (read_bytes n s) (\<lambda>(bs, s). Inr (le_word bs, s))"

lemma read_bytes_append [simp]: "n = length bs \<Longrightarrow> read_bytes n (bs @ s) = Inr (bs, s)"
  by (simp add: read_bytes_def)

lemma read_word_append [simp]:
  "LENGTH('a) = 8 * n \<Longrightarrow> read_word n (le_bytes n w @ s) = Inr (w :: 'a :: len word, s)"
  by (simp add: read_word_def le_word_le_bytes)

section \<open>Compact sizes\<close>

definition MAX_SIZE :: nat where
  "MAX_SIZE = 0x02000000"

definition GetSizeOfCompactSize :: "u64 \<Rightarrow> u32" where
  "GetSizeOfCompactSize nSize =
     (if nSize < 253 then 1
      else if nSize \<le> 0xffff then 1 + 2
      else if nSize \<le> 0xffffffff then 1 + 4
      else 1 + 8)"

definition WriteCompactSize :: "u64 \<Rightarrow> data" where
  "WriteCompactSize nSize =
     (if nSize < 253 then [ucast nSize]
      else if nSize \<le> 0xffff then 253 # le_bytes 2 (ucast nSize :: u16)
      else if nSize \<le> 0xffffffff then 254 # le_bytes 4 (ucast nSize :: u32)
      else 255 # le_bytes 8 nSize)"

definition ReadCompactSize :: "u64 reader" where
  "ReadCompactSize s =
     rbind (read_word 1 s) (\<lambda>(chSize :: byte, s).
     rbind
       (if chSize < 253 then Inr (ucast chSize, s)
        else if chSize = 253 then
          rbind (read_word 2 s) (\<lambda>(xSize :: u16, s).
            let nSizeRet = ucast xSize in
            if nSizeRet < 253 then Inl (ios_failure ''non-canonical ReadCompactSize()'')
            else Inr (nSizeRet, s))
        else if chSize = 254 then
          rbind (read_word 4 s) (\<lambda>(xSize :: u32, s).
            let nSizeRet = ucast xSize in
            if nSizeRet < 0x10000 then Inl (ios_failure ''non-canonical ReadCompactSize()'')
            else Inr (nSizeRet, s))
        else
          rbind (read_word 8 s) (\<lambda>(nSizeRet :: u64, s).
            if nSizeRet < 0x100000000 then Inl (ios_failure ''non-canonical ReadCompactSize()'')
            else Inr (nSizeRet, s)))
       (\<lambda>(nSizeRet :: u64, s).
         if nSizeRet > of_nat MAX_SIZE then Inl (ios_failure ''ReadCompactSize() : size too large'')
         else Inr (nSizeRet, s)))"

section \<open>Variable-length integers\<close>

function GetSizeOfVarInt :: "u64 \<Rightarrow> nat" where
  "GetSizeOfVarInt n = (if n \<le> 0x7F then 1 else Suc (GetSizeOfVarInt (drop_bit 7 n - 1)))"
  by pat_completeness auto
termination
proof (relation "measure unat", goal_cases)
  case (2 n)
  then have "127 < unat n" by (simp add: word_le_nat_alt)
  moreover have "unat (drop_bit 7 n) = unat n div 128" by (simp add: drop_bit_eq_div unat_div)
  ultimately have "unat (drop_bit 7 n - 1) = unat n div 128 - 1" by (subst unat_sub) (auto simp: word_le_nat_alt)
  with \<open>127 < unat n\<close> show ?case by simp
qed simp

text \<open>
  \<open>tmp\<close> collects the digits, least significant first; the second loop writes them from the last
  one down.
\<close>

function WriteVarInt_loop :: "u64 \<Rightarrow> data \<Rightarrow> data" where
  "WriteVarInt_loop n tmp =
     (let tmp = tmp @ [ucast (n AND 0x7F) OR (if tmp \<noteq> [] then 0x80 else 0)]
      in if n \<le> 0x7F then tmp else WriteVarInt_loop (drop_bit 7 n - 1) tmp)"
  by pat_completeness auto
termination
proof (relation "measure (\<lambda>(n, tmp). unat n)", goal_cases)
  case (2 n tmp)
  then have "127 < unat n" by (simp add: word_le_nat_alt)
  moreover have "unat (drop_bit 7 n) = unat n div 128" by (simp add: drop_bit_eq_div unat_div)
  ultimately have "unat (drop_bit 7 n - 1) = unat n div 128 - 1" by (subst unat_sub) (auto simp: word_le_nat_alt)
  with \<open>127 < unat n\<close> show ?case by simp
qed simp

definition WriteVarInt :: "u64 \<Rightarrow> data" where
  "WriteVarInt n = rev (WriteVarInt_loop n [])"

fun ReadVarInt_loop :: "u64 \<Rightarrow> u64 reader" where
  "ReadVarInt_loop n [] = Inl (ios_failure ''CDataStream::read() : end of data'')"
| "ReadVarInt_loop n (chData # s) =
     (let n = push_bit 7 n OR ucast (chData AND 0x7F)
      in if chData AND 0x80 \<noteq> 0 then ReadVarInt_loop (n + 1) s else Inr (n, s))"

definition ReadVarInt :: "u64 reader" where
  "ReadVarInt s = ReadVarInt_loop 0 s"

declare GetSizeOfVarInt.simps [simp del] WriteVarInt_loop.simps [simp del]

section \<open>Strings and vectors\<close>

text \<open>Vectors of a fundamental type are read in blocks of at most \<open>1 + 4999999 / sizeof(T)\<close>.\<close>

definition Serialize_bytes :: "data \<Rightarrow> data" where
  "Serialize_bytes v = WriteCompactSize (of_nat (length v)) @ v"

definition GetSerializeSize_bytes :: "data \<Rightarrow> u32" where
  "GetSerializeSize_bytes v = GetSizeOfCompactSize (of_nat (length v)) + of_nat (length v)"

function Unserialize_blocks :: "u32 \<Rightarrow> u32 \<Rightarrow> data \<Rightarrow> data reader" where
  "Unserialize_blocks nSize i v s =
     (if i < nSize
      then let blk = min (nSize - i) (1 + 4999999)
           in rbind (read_bytes (unat blk) s) (\<lambda>(bs, s). Unserialize_blocks nSize (i + blk) (v @ bs) s)
      else Inr (v, s))"
  by pat_completeness auto
termination
proof (relation "measure (\<lambda>(nSize, i, v, s). unat nSize - unat i)", goal_cases)
  case (2 nSize i v s blk bs s')
  have "unat (nSize - i) = unat nSize - unat i" using 2 by (simp add: unat_sub order_less_imp_le)
  then have "unat blk \<le> unat nSize - unat i" "1 \<le> unat blk"
    using 2 by (auto simp: min_def word_less_nat_alt word_le_nat_alt)
  moreover from this have "unat (i + blk) = unat i + unat blk"
    using unat_less_32 [of nSize] by (simp add: unat_word_ariths)
  ultimately show ?case by simp
qed simp

definition Unserialize_bytes :: "data reader" where
  "Unserialize_bytes s =
     rbind (ReadCompactSize s) (\<lambda>(nSize, s). Unserialize_blocks (ucast nSize) 0 [] s)"

text \<open>
  Other vectors are read element by element; the steps in which the vector grows are not
  observable.
\<close>

definition Serialize_vector :: "('a \<Rightarrow> data) \<Rightarrow> 'a list \<Rightarrow> data" where
  "Serialize_vector ser v = WriteCompactSize (of_nat (length v)) @ concat (map ser v)"

definition GetSerializeSize_vector :: "('a \<Rightarrow> u32) \<Rightarrow> 'a list \<Rightarrow> u32" where
  "GetSerializeSize_vector sz v =
     fold (\<lambda>x nSize. nSize + sz x) v (GetSizeOfCompactSize (of_nat (length v)))"

fun Unserialize_elems :: "'a reader \<Rightarrow> nat \<Rightarrow> 'a list reader" where
  "Unserialize_elems unser 0 s = Inr ([], s)"
| "Unserialize_elems unser (Suc n) s =
     rbind (unser s) (\<lambda>(x, s). rbind (Unserialize_elems unser n s) (\<lambda>(v, s). Inr (x # v, s)))"

definition Unserialize_vector :: "'a reader \<Rightarrow> 'a list reader" where
  "Unserialize_vector unser s =
     rbind (ReadCompactSize s) (\<lambda>(nSize, s). Unserialize_elems unser (unat (ucast nSize :: u32)) s)"

definition Serialize_pair :: "('a \<Rightarrow> data) \<Rightarrow> ('b \<Rightarrow> data) \<Rightarrow> 'a \<times> 'b \<Rightarrow> data" where
  "Serialize_pair ser1 ser2 item = ser1 (fst item) @ ser2 (snd item)"

definition GetSerializeSize_pair :: "('a \<Rightarrow> u32) \<Rightarrow> ('b \<Rightarrow> u32) \<Rightarrow> 'a \<times> 'b \<Rightarrow> u32" where
  "GetSerializeSize_pair sz1 sz2 item = sz1 (fst item) + sz2 (snd item)"

definition Unserialize_pair :: "'a reader \<Rightarrow> 'b reader \<Rightarrow> ('a \<times> 'b) reader" where
  "Unserialize_pair unser1 unser2 s =
     rbind (unser1 s) (\<lambda>(x, s). rbind (unser2 s) (\<lambda>(y, s). Inr ((x, y), s)))"

section \<open>What is written is read back\<close>


lemma ucast_down_up:
  assumes "unat n < 2 ^ LENGTH('b)" "LENGTH('b) \<le> LENGTH('a)"
  shows "ucast (ucast n :: 'b :: len word) = (n :: 'a :: len word)"
proof -
  have "unat (ucast n :: 'b word) = unat n"
    using assms by (simp add: unsigned_ucast_eq take_bit_nat_eq_self)
  with assms show ?thesis
    unfolding word_unat_eq_iff by (simp add: unat_ucast_up)
qed

lemma unat_MAX_SIZE [simp]: "unat (of_nat MAX_SIZE :: u64) = MAX_SIZE"
  by (simp add: MAX_SIZE_def)

lemma ReadCompactSize_Write:
  "ReadCompactSize (WriteCompactSize n @ s) =
     (if unat n \<le> MAX_SIZE then Inr (n, s) else Inl (ios_failure ''ReadCompactSize() : size too large''))"
proof -
  have le: "of_nat MAX_SIZE < n \<longleftrightarrow> \<not> unat n \<le> MAX_SIZE"
    by (simp add: word_less_nat_alt not_le)
  have b: "read_word (Suc 0) (b # s) = Inr (b, s)" for b :: byte and s
    using read_word_append [of "Suc 0" b s] by (simp add: le_bytes_def)
  consider "n < 253" | "253 \<le> n" "n \<le> 0xffff" | "0xffff < n" "n \<le> 0xffffffff" | "0xffffffff < n" by force
  then show ?thesis
  proof cases
    case 1
    then have u: "ucast (ucast n :: byte) = n" by (intro ucast_down_up) (auto simp: word_less_nat_alt)
    have "unat (ucast (ucast n :: byte) :: u64) = unat (ucast n :: byte)" by (simp add: unat_ucast_up)
    with u have "unat (ucast n :: byte) = unat n" by simp
    with 1 u le show ?thesis by (simp add: WriteCompactSize_def ReadCompactSize_def b word_less_nat_alt)
  next
    case 2
    then have u: "ucast (ucast n :: u16) = n" by (intro ucast_down_up) (auto simp: word_le_nat_alt)
    from 2 have "\<not> n < 253" by simp
    with 2(2) u le show ?thesis by (simp add: WriteCompactSize_def ReadCompactSize_def b Let_def)
  next
    case 3
    then have u: "ucast (ucast n :: u32) = n" by (intro ucast_down_up) (auto simp: word_le_nat_alt)
    from 3 have "\<not> n < 253" "\<not> n \<le> 0xffff" "\<not> n < 0x10000" by (auto simp: word_less_nat_alt word_le_nat_alt)
    with 3(2) u le show ?thesis by (simp add: WriteCompactSize_def ReadCompactSize_def b Let_def)
  next
    case 4
    then have "\<not> n < 253" "\<not> n \<le> 0xffff" "\<not> n \<le> 0xffffffff" "\<not> n < 0x100000000" by (auto simp: word_less_nat_alt word_le_nat_alt)
    with le show ?thesis by (simp add: WriteCompactSize_def ReadCompactSize_def b Let_def)
  qed
qed

lemma length_WriteCompactSize: "length (WriteCompactSize n) = unat (GetSizeOfCompactSize n)"
  by (simp add: WriteCompactSize_def GetSizeOfCompactSize_def)

text \<open>The digits of the bijective base 128, least significant first.\<close>

function varint_digits :: "bool \<Rightarrow> u64 \<Rightarrow> data" where
  "varint_digits lst n =
     (ucast (n AND 0x7F) OR (if lst then 0 else 0x80)) #
       (if n \<le> 0x7F then [] else varint_digits False (drop_bit 7 n - 1))"
  by pat_completeness auto
termination
  by (relation "measure (\<lambda>(lst, n). GetSizeOfVarInt n)") (auto simp: GetSizeOfVarInt.simps)

declare varint_digits.simps [simp del]

lemma WriteVarInt_loop_digits: "WriteVarInt_loop n tmp = tmp @ varint_digits (tmp = []) n"
proof (induction n tmp rule: WriteVarInt_loop.induct)
  case (1 n tmp)
  then show ?case
    by (subst WriteVarInt_loop.simps, subst varint_digits.simps) (auto simp: Let_def)
qed

lemma length_varint_digits: "length (varint_digits lst n) = GetSizeOfVarInt n"
  by (induction lst n rule: varint_digits.induct)
    (subst varint_digits.simps, subst GetSizeOfVarInt.simps, auto)

lemma length_WriteVarInt: "length (WriteVarInt n) = GetSizeOfVarInt n"
  by (simp add: WriteVarInt_def WriteVarInt_loop_digits length_varint_digits)

lemma septet_mask: "(0x7F :: u64) = mask 7" "(0x7F :: byte) = mask 7"   by (simp_all add: mask_eq_exp_minus_1)

lemma varint_digit:
  "c = 0 \<or> c = 0x80 \<Longrightarrow> ucast ((ucast (n AND 0x7F) OR c) AND 0x7F :: byte) = (n AND 0x7F :: u64)"
  "(ucast (n AND 0x7F :: u64) OR 0x80 :: byte) AND 0x80 \<noteq> 0"
  "(ucast (n AND 0x7F :: u64) :: byte) AND 0x80 = 0"
proof -
  have b: "bit (128 :: int) i \<longleftrightarrow> i = 7" for i
    using bit_exp_iff [of 7 i, where 'a = int] by simp
  have m: "(0x7F :: u64) = mask 7" "(0x7F :: byte) = mask 7" by (simp_all add: mask_eq_exp_minus_1)
  show "ucast ((ucast (n AND 0x7F) OR c) AND 0x7F :: byte) = (n AND 0x7F :: u64)" if "c = 0 \<or> c = 0x80"
    using that unfolding m by (intro bit_word_eqI) (elim disjE, simp_all only:, auto simp: bit_simps b)
  have "bit ((ucast (n AND 0x7F :: u64) OR 0x80 :: byte) AND 0x80) 7"
    by (simp add: bit_simps b)
  then show "(ucast (n AND 0x7F :: u64) OR 0x80 :: byte) AND 0x80 \<noteq> 0" by auto
  show "(ucast (n AND 0x7F :: u64) :: byte) AND 0x80 = 0"
    unfolding m by (intro bit_word_eqI) (auto simp: bit_simps b)
qed

lemma septet_split: "push_bit 7 (drop_bit 7 n) OR (n AND 0x7F) = (n :: u64)"
  unfolding septet_mask by (intro bit_word_eqI) (auto simp: bit_simps)

lemma septet_small: "n \<le> 0x7F \<Longrightarrow> n AND 0x7F = (n :: u64)"
proof -
  assume "n \<le> 0x7F"
  then have "unat n < 2 ^ 7" by (simp add: word_le_nat_alt)
  then have "take_bit 7 n = n"
    unfolding word_unat_eq_iff by (simp add: unsigned_take_bit_eq take_bit_nat_eq_self)
  then show ?thesis by (simp add: septet_mask take_bit_eq_mask)
qed

lemma ReadVarInt_digits:
  "ReadVarInt_loop 0 (rev (varint_digits lst n) @ s) =
     (if lst then Inr (n, s) else ReadVarInt_loop (n + 1) s)"
proof (induction lst n arbitrary: s rule: varint_digits.induct)
  case (1 lst n)
  define n' where "n' = (if n \<le> 0x7F then 0 else drop_bit 7 n)"
  have n': "push_bit 7 n' OR (n AND 0x7F) = n"
    using septet_split septet_small by (simp add: n'_def)
  define d where "d = (ucast (n AND 0x7F) OR (if lst then 0 else 0x80) :: byte)"
  have "ReadVarInt_loop 0 (rev (varint_digits lst n) @ s) = ReadVarInt_loop n' (d # s)"
    using 1 by (subst varint_digits.simps) (auto simp: d_def n'_def)
  then show ?case using n' varint_digit(1) [where c = 0 and n = n]
      varint_digit(1) [where c = "0x80" and n = n] varint_digit(2) [where n = n] varint_digit(3) [where n = n]
    by (simp add: Let_def d_def)
qed

lemma ReadVarInt_Write: "ReadVarInt (WriteVarInt n @ s) = Inr (n, s)"
  by (simp add: ReadVarInt_def WriteVarInt_def WriteVarInt_loop_digits ReadVarInt_digits)

declare Unserialize_blocks.simps [simp del]

lemma Unserialize_blocks_append:
  "unat nSize = unat i + length bs \<Longrightarrow> Unserialize_blocks nSize i v (bs @ s) = Inr (v @ bs, s)"
proof (induction nSize i v "bs @ s" arbitrary: bs rule: Unserialize_blocks.induct)
  case (1 nSize i v)
  show ?case
  proof (cases "i < nSize")
    case True
    define blk where "blk = min (nSize - i) (1 + 4999999)"
    have "unat (nSize - i) = unat nSize - unat i" using True by (simp add: unat_sub order_less_imp_le)
    then have blk: "unat blk \<le> length bs" using 1(2) by (auto simp: blk_def min_def word_le_nat_alt)
    moreover have "unat (i + blk) = unat i + unat blk"
      using unat_less_32 [of nSize] blk 1(2) by (simp add: unat_word_ariths)
    ultimately have "Unserialize_blocks nSize (i + blk) (v @ take (unat blk) bs) (drop (unat blk) bs @ s) =
      Inr ((v @ take (unat blk) bs) @ drop (unat blk) bs, s)"
      using 1(2) True by (intro 1(1) [OF True blk_def, of "(take (unat blk) bs, drop (unat blk) bs @ s)"]) (auto simp: read_bytes_def)
    then show ?thesis using True blk
      by (subst Unserialize_blocks.simps) (simp only: Let_def blk_def [symmetric], simp add: read_bytes_def)
  next
    case False
    with 1(2) have "bs = []" by (simp add: word_less_nat_alt)
    with False show ?thesis by (subst Unserialize_blocks.simps) simp
  qed
qed

lemma Unserialize_bytes_Serialize:
  "length v \<le> MAX_SIZE \<Longrightarrow> Unserialize_bytes (Serialize_bytes v @ s) = Inr (v, s)"
proof -
  assume "length v \<le> MAX_SIZE"
  then have "unat (of_nat (length v) :: u64) = length v" "unat (ucast (of_nat (length v) :: u64) :: u32) = length v"
    by (simp_all add: MAX_SIZE_def unat_of_nat unsigned_ucast_eq take_bit_nat_eq_self)
  with \<open>length v \<le> MAX_SIZE\<close> show ?thesis
    by (simp add: Unserialize_bytes_def Serialize_bytes_def ReadCompactSize_Write Unserialize_blocks_append)
qed

lemma length_Serialize_bytes: "of_nat (length (Serialize_bytes v)) = GetSerializeSize_bytes v"
  by (simp add: Serialize_bytes_def GetSerializeSize_bytes_def length_WriteCompactSize)

section \<open>The contract of a serializable type\<close>

text \<open>
  What \<open>IMPLEMENT_SERIALIZE\<close> promises: reading gives back the value that was written and leaves
  the rest of the stream, and \<open>GetSerializeSize\<close> is the number of bytes written, as an
  \<open>unsigned int\<close>. \<open>ok\<close> says which values can be read back (vectors are limited to \<open>MAX_SIZE\<close>).
\<close>

locale serializer =
  fixes ser :: "'a \<Rightarrow> data"
    and unser :: "'a reader"
    and sz :: "'a \<Rightarrow> u32"
    and ok :: "'a \<Rightarrow> bool"
  assumes unser_ser: "ok x \<Longrightarrow> unser (ser x @ s) = Inr (x, s)"
    and size_ser: "ok x \<Longrightarrow> of_nat (length (ser x)) = sz x"
begin

lemma unser_all: "ok x \<Longrightarrow> unser (ser x) = Inr (x, [])"
  by (metis append_Nil2 unser_ser)

lemma prefix_free: "ok x \<Longrightarrow> ok y \<Longrightarrow> ser x @ s = ser y @ t \<Longrightarrow> x = y \<and> s = t"
  by (metis Pair_inject sum.inject(2) unser_ser)

lemma ser_inj: "ok x \<Longrightarrow> ok y \<Longrightarrow> ser x = ser y \<Longrightarrow> x = y"
  by (metis prefix_free)

lemma unser_elems:
  "list_all ok v \<Longrightarrow> Unserialize_elems unser (length v) (concat (map ser v) @ s) = Inr (v, s)"
  by (induction v) (auto simp: unser_ser)

lemma vector_unser:
  assumes "list_all ok v" "length v \<le> MAX_SIZE"
  shows "Unserialize_vector unser (Serialize_vector ser v @ s) = Inr (v, s)"
proof -
  have "unat (of_nat (length v) :: u64) = length v" "unat (ucast (of_nat (length v) :: u64) :: u32) = length v"
    using assms(2) by (simp_all add: MAX_SIZE_def unat_of_nat unsigned_ucast_eq take_bit_nat_eq_self)
  with assms show ?thesis
    by (simp add: Unserialize_vector_def Serialize_vector_def ReadCompactSize_Write unser_elems)
qed

lemma vector_size:
  "list_all ok v \<Longrightarrow> of_nat (length (Serialize_vector ser v)) = GetSerializeSize_vector sz v"
proof -
  assume "list_all ok v"
  then have "fold (\<lambda>x n. n + sz x) v n = n + of_nat (length (concat (map ser v)))" for n
    by (induction v arbitrary: n) (auto simp: size_ser [symmetric] algebra_simps)
  then show ?thesis
    by (simp add: GetSerializeSize_vector_def Serialize_vector_def length_WriteCompactSize)
qed

end

text \<open>Two serializable types give the pair of them.\<close>

locale serializer_pair =
  one: serializer ser1 unser1 sz1 ok1 + two: serializer ser2 unser2 sz2 ok2
  for ser1 :: "'a \<Rightarrow> data" and unser1 sz1 ok1
    and ser2 :: "'b \<Rightarrow> data" and unser2 sz2 ok2
begin

lemma pair_unser:
  "ok1 (fst p) \<Longrightarrow> ok2 (snd p) \<Longrightarrow>
     Unserialize_pair unser1 unser2 (Serialize_pair ser1 ser2 p @ s) = Inr (p, s)"
  by (simp add: Unserialize_pair_def Serialize_pair_def one.unser_ser two.unser_ser)

end

sublocale serializer_pair \<subseteq> pair: serializer
  "Serialize_pair ser1 ser2" "Unserialize_pair unser1 unser2" "GetSerializeSize_pair sz1 sz2"
  "\<lambda>p. ok1 (fst p) \<and> ok2 (snd p)"
  by unfold_locales
    (simp add: pair_unser, simp add: Serialize_pair_def GetSerializeSize_pair_def one.size_ser two.size_ser)

interpretation ser_u32: serializer "le_bytes 4 :: u32 \<Rightarrow> data" "read_word 4" "\<lambda>_. 4" "\<lambda>_. True"
  by unfold_locales simp_all

interpretation ser_u64: serializer "le_bytes 8 :: u64 \<Rightarrow> data" "read_word 8" "\<lambda>_. 8" "\<lambda>_. True"
  by unfold_locales simp_all

interpretation ser_compact: serializer
  WriteCompactSize ReadCompactSize GetSizeOfCompactSize "\<lambda>n. unat n \<le> MAX_SIZE"
  by unfold_locales (simp_all add: ReadCompactSize_Write length_WriteCompactSize)

interpretation ser_varint: serializer
  WriteVarInt ReadVarInt "\<lambda>n. of_nat (GetSizeOfVarInt n)" "\<lambda>_. True"
  by unfold_locales (simp_all add: ReadVarInt_Write length_WriteVarInt)

interpretation ser_bytes: serializer
  Serialize_bytes Unserialize_bytes GetSerializeSize_bytes "\<lambda>v. length v \<le> MAX_SIZE"
  by unfold_locales (simp_all add: Unserialize_bytes_Serialize length_Serialize_bytes)

section \<open>Properties\<close>


text \<open>A compact size is read back when it is at most \<open>MAX_SIZE\<close> and refused when it is larger, and
  \<open>GetSizeOfCompactSize\<close> is its length.\<close>

theorem compact_size_roundtrip:
  "ReadCompactSize (WriteCompactSize n @ s) =
     (if unat n \<le> MAX_SIZE then Inr (n, s)
      else Inl (ios_failure ''ReadCompactSize() : size too large'')) \<and>
   length (WriteCompactSize n) = unat (GetSizeOfCompactSize n)"
  by (simp add: ReadCompactSize_Write length_WriteCompactSize)

text \<open>Every 64-bit number is read back from its variable-length form, whatever follows it, and
  \<open>GetSizeOfVarInt\<close> is the number of bytes.\<close>

theorem varint_roundtrip:
  "ReadVarInt (WriteVarInt n @ s) = Inr (n, s) \<and> length (WriteVarInt n) = GetSizeOfVarInt n"
  by (simp add: ReadVarInt_Write length_WriteVarInt)

end
