(* ===== verification/OpenSSL.thy ===== *)
theory OpenSSL
  imports Bytes
begin

text \<open>
  The interface to OpenSSL. The library is not part of the repository, so its functions are the
  fields of a record that every definition using them takes as an argument, named after the C
  functions; \<open>openssl_ok\<close> states what their documentation promises. A \<open>BIGNUM\<close> is the integer it
  holds and the arithmetic on it (\<open>BN_add\<close>, \<open>BN_cmp\<close>, \<open>BN_mod_mul\<close> and so on) is that of the
  integers; the conversions between numbers and bytes are parameters. A point of the curve is given
  by its two coordinates, the point at infinity by \<open>None\<close>.
\<close>

type_synonym bignum = int
type_synonym ec_point = "(int \<times> int) option"
type_synonym ecdsa_sig = "bignum \<times> bignum"

record openssl =
  SHA256 :: "data \<Rightarrow> data"
  SHA512 :: "data \<Rightarrow> data"
  RIPEMD160 :: "data \<Rightarrow> data"
  SHA1 :: "data \<Rightarrow> data"
  BN_bin2bn :: "data \<Rightarrow> bignum"
  BN_bn2bin :: "bignum \<Rightarrow> data"
  BN_mpi2bn :: "data \<Rightarrow> bignum"
  BN_bn2mpi :: "bignum \<Rightarrow> data"
  BN_mod_inverse :: "bignum \<Rightarrow> bignum \<Rightarrow> bignum option"
  \<comment> \<open>the group \<open>NID_secp256k1\<close>: order, prime of the field, multiples of the generator and of a point\<close>
  EC_order :: bignum
  EC_field :: bignum
  EC_POINT_mul :: "bignum option \<Rightarrow> (ec_point \<times> bignum) option \<Rightarrow> ec_point"
  EC_POINT_set_compressed_coordinates :: "bignum \<Rightarrow> bool \<Rightarrow> ec_point option"
  o2i_ECPublicKey :: "data \<Rightarrow> ec_point option"
  i2o_ECPublicKey :: "ec_point \<Rightarrow> bool \<Rightarrow> data"
  d2i_ECPrivateKey :: "data \<Rightarrow> (bignum \<times> bool) option"
  i2d_ECPrivateKey :: "bignum \<Rightarrow> bool \<Rightarrow> data"
  ECDSA_do_sign :: "data \<Rightarrow> bignum \<Rightarrow> ecdsa_sig option"
  i2d_ECDSA_SIG :: "ecdsa_sig \<Rightarrow> data"
  ECDSA_verify :: "data \<Rightarrow> data \<Rightarrow> ec_point \<Rightarrow> bool"

section \<open>Numbers as bytes\<close>

text \<open>The number that bytes stand for, most significant byte first.\<close>

definition be_value :: "data \<Rightarrow> nat" where
  "be_value bs = foldl (\<lambda>v b. 256 * v + unat b) 0 bs"

text \<open>
  The MPI format: the length in four bytes, most significant first, and the bytes of the absolute
  value, of which the first bit is the sign. \<open>mpi_value\<close> reads the part after the length.
\<close>

definition be32 :: "nat \<Rightarrow> data" where
  "be32 n = rev (le_bytes 4 (of_nat n :: u32))"

definition mpi_value :: "data \<Rightarrow> int" where
  "mpi_value bs =
     (case bs of [] \<Rightarrow> 0
      | b # bs \<Rightarrow>
          let v = int (be_value ((b AND 0x7F) # bs))
          in if bit b 7 then - v else v)"

definition mpi_minimal :: "data \<Rightarrow> bool" where
  "mpi_minimal bs =
     (case bs of [] \<Rightarrow> True
      | [b] \<Rightarrow> b AND 0x7F \<noteq> 0
      | b # c # bs \<Rightarrow> b AND 0x7F \<noteq> 0 \<or> bit c 7)"

text \<open>Conversions to a machine word, the size in bytes, and the shift of the absolute value.\<close>

definition BN_get_word :: "bignum \<Rightarrow> u64" where
  "BN_get_word n = (if \<bar>n\<bar> < 2 ^ 64 then word_of_int \<bar>n\<bar> else - 1)"

fun nat_bytes :: "nat \<Rightarrow> nat" where
  "nat_bytes n = (if n = 0 then 0 else Suc (nat_bytes (n div 256)))"

declare nat_bytes.simps [simp del]

definition BN_num_bytes :: "bignum \<Rightarrow> nat" where
  "BN_num_bytes n = nat_bytes (nat \<bar>n\<bar>)"

definition BN_rshift :: "bignum \<Rightarrow> nat \<Rightarrow> bignum" where
  "BN_rshift n k = sgn n * (\<bar>n\<bar> div 2 ^ k)"

section \<open>What OpenSSL promises\<close>

text \<open>Digests have their length; numbers are converted by value and without superfluous bytes.\<close>

definition digests_ok :: "openssl \<Rightarrow> bool" where
  "digests_ok ssl \<longleftrightarrow>
     (\<forall>v. length (SHA256 ssl v) = 32 \<and> length (SHA512 ssl v) = 64 \<and>
          length (RIPEMD160 ssl v) = 20 \<and> length (SHA1 ssl v) = 20)"

definition bignum_ok :: "openssl \<Rightarrow> bool" where
  "bignum_ok ssl \<longleftrightarrow>
     (\<forall>v. BN_bin2bn ssl v = int (be_value v)) \<and>
     (\<forall>n. int (be_value (BN_bn2bin ssl n)) = \<bar>n\<bar> \<and>
          (BN_bn2bin ssl n \<noteq> [] \<longrightarrow> hd (BN_bn2bin ssl n) \<noteq> 0)) \<and>
     (\<forall>v. length v < 2 ^ 31 \<longrightarrow> BN_mpi2bn ssl (be32 (length v) @ v) = mpi_value v) \<and>
     (\<forall>n. \<bar>n\<bar> < 256 ^ 1000 \<longrightarrow>
        (\<exists>v. BN_bn2mpi ssl n = be32 (length v) @ v \<and> mpi_minimal v \<and> mpi_value v = n))"

text \<open>The order of the group and what is promised about signatures.\<close>

definition secp256k1_order :: int where
  "secp256k1_order = 0xFFFFFFFFFFFFFFFFFFFFFFFFFFFFFFFEBAAEDCE6AF48A03BBFD25E8CD0364141"

text \<open>The DER encoding of a signature with the integers encoded as \<open>R\<close> and \<open>S\<close>.\<close>

definition der_of :: "data \<Rightarrow> data \<Rightarrow> data" where
  "der_of R S = [0x30, of_nat (length R + length S + 4), 2, of_nat (length R)] @ R @ [2, of_nat (length S)] @ S"

text \<open>
  Signing with a secret in range succeeds, the signature with either of the two values of \<open>S\<close>
  verifies under the public point, signatures are encoded by DER, and the encoding of a public point
  is read back.
\<close>

definition ecdsa_ok :: "openssl \<Rightarrow> bool" where
  "ecdsa_ok ssl \<longleftrightarrow>
     EC_order ssl = secp256k1_order \<and>
     (\<forall>h d. 0 < d \<and> d < secp256k1_order \<longrightarrow>
        (\<exists>r s. ECDSA_do_sign ssl h d = Some (r, s) \<and>
           0 < r \<and> r < secp256k1_order \<and> 0 < s \<and> s < secp256k1_order \<and>
           (\<forall>s' \<in> {s, secp256k1_order - s}. ECDSA_verify ssl h (i2d_ECDSA_SIG ssl (r, s')) (EC_POINT_mul ssl (Some d) None)))) \<and>
     (\<forall>r s. 0 < r \<and> r < secp256k1_order \<and> 0 < s \<and> s < secp256k1_order \<longrightarrow>
        (\<exists>R S. i2d_ECDSA_SIG ssl (r, s) = der_of R S \<and> mpi_minimal R \<and> mpi_value R = r \<and> mpi_minimal S \<and> mpi_value S = s)) \<and>
     (\<forall>d c. 0 < d \<and> d < secp256k1_order \<longrightarrow>
        o2i_ECPublicKey ssl (i2o_ECPublicKey ssl (EC_POINT_mul ssl (Some d) None) c) = Some (EC_POINT_mul ssl (Some d) None))"

section \<open>Lemmas\<close>

lemma foldl_be: "foldl (\<lambda>v b. 256 * v + unat b) v bs = v * 256 ^ length bs + be_value bs"
proof (induction bs arbitrary: v)
  case (Cons b bs)
  show ?case using Cons [of "256 * v + unat b"] Cons [of "unat b"]
    by (simp add: be_value_def algebra_simps)
qed (simp add: be_value_def)

lemma be_value_simps [simp]:
  "be_value [] = 0" "be_value (b # bs) = unat b * 256 ^ length bs + be_value bs"
  using foldl_be [of "unat b" bs] by (simp_all add: be_value_def)

lemma be_value_append: "be_value (xs @ ys) = be_value xs * 256 ^ length ys + be_value ys"
  by (induction xs) (simp_all add: power_add algebra_simps)

lemma be_value_less: "be_value bs < 256 ^ length bs"
proof (induction bs)
  case (Cons b bs)
  have "unat b < 2 ^ 8" by (rule order_less_le_trans [OF unsigned_less]) simp
  then have "unat b + 1 \<le> 256" by simp
  then have "(unat b + 1) * 256 ^ length bs \<le> 256 * 256 ^ length bs" by (rule mult_right_mono) simp
  then have "unat b * 256 ^ length bs + 256 ^ length bs \<le> 256 * 256 ^ length bs"
    by (simp only: distrib_right mult_1)
  with Cons show ?case unfolding be_value_simps length_Cons power_Suc by linarith
qed simp

lemma be_value_zero: "be_value bs = 0 \<longleftrightarrow> list_all (\<lambda>b. b = 0) bs"
  by (induction bs) (auto simp: unat_eq_0)

lemma be_value_inj: "length xs = length ys \<Longrightarrow> be_value xs = be_value ys \<Longrightarrow> xs = ys"
proof (induction xs ys rule: list_induct2)
  case (Cons x xs y ys)
  have "be_value (x # xs) div 256 ^ length xs = unat x" "be_value (y # ys) div 256 ^ length xs = unat y"
    "be_value (x # xs) mod 256 ^ length xs = be_value xs" "be_value (y # ys) mod 256 ^ length xs = be_value ys"
    using be_value_less [of xs] be_value_less [of ys] Cons(1) by simp_all
  with Cons show ?case by (simp add: word_unat_eq_iff)
qed simp

lemma length_be32 [simp]: "length (be32 n) = 4"
  by (simp add: be32_def)

end
