(* ===== verification/Keys.thy ===== *)
theory Keys
  imports Serialize OpenSSL "HOL-Library.Mapping"
begin

text \<open>
  \<open>src/src/lib/core/key.h\<close>, \<open>key.cpp\<close>, \<open>hash.h\<close>: public keys, private keys and the hashes that
  identify them. Random bytes are a list of draws that a call takes from. \<open>openssl_ok\<close> adds to the
  promises of theory \<open>OpenSSL\<close> that a secret in range has a public key.
\<close>

section \<open>Hashes\<close>

text \<open>Double SHA-256, and RIPEMD-160 of SHA-256, copied into the limbs of the result.\<close>

definition Hash :: "openssl \<Rightarrow> data \<Rightarrow> base_uint" where
  "Hash ssl v = bu_of_bytes (SHA256 ssl (bu_bytes (bu_of_bytes (SHA256 ssl v))))"

definition Hash160 :: "openssl \<Rightarrow> data \<Rightarrow> base_uint" where
  "Hash160 ssl v = bu_of_bytes (RIPEMD160 ssl (bu_bytes (bu_of_bytes (SHA256 ssl v))))"

section \<open>Public keys\<close>

text \<open>
  \<open>vch\<close> are the initialised bytes of the 65-byte array; the length of the key follows from the
  first of them.
\<close>

record CPubKey =
  pk_vch :: data

definition GetLen :: "byte \<Rightarrow> nat" where
  "GetLen chHeader =
     (if chHeader = 2 \<or> chHeader = 3 then 33
      else if chHeader = 4 \<or> chHeader = 6 \<or> chHeader = 7 then 65
      else 0)"

definition pk_Invalidate :: "CPubKey \<Rightarrow> CPubKey" where
  "pk_Invalidate pk = pk\<lparr>pk_vch := 0xFF # tl (pk_vch pk)\<rparr>"

definition invalid_pubkey :: CPubKey where
  "invalid_pubkey = \<lparr>pk_vch = [0xFF]\<rparr>"

definition pk_Set :: "data \<Rightarrow> CPubKey \<Rightarrow> CPubKey" where
  "pk_Set v pk =
     (let len = (if v = [] then 0 else GetLen (hd v))
      in if len \<noteq> 0 \<and> len = length v then pk\<lparr>pk_vch := take len v @ drop len (pk_vch pk)\<rparr>
         else pk_Invalidate pk)"

text \<open>The constructor from a byte vector.\<close>

definition mk_pubkey :: "data \<Rightarrow> CPubKey" where
  "mk_pubkey v = pk_Set v \<lparr>pk_vch = []\<rparr>"

definition pk_size :: "CPubKey \<Rightarrow> nat" where
  "pk_size pk = GetLen (hd (pk_vch pk))"

text \<open>The bytes from \<open>begin()\<close> to \<open>end()\<close>.\<close>

definition pk_bytes :: "CPubKey \<Rightarrow> data" where
  "pk_bytes pk = take (pk_size pk) (pk_vch pk)"

definition pk_eq :: "CPubKey \<Rightarrow> CPubKey \<Rightarrow> bool" where
  "pk_eq a b \<longleftrightarrow> hd (pk_vch a) = hd (pk_vch b) \<and> take (pk_size a) (pk_vch a) = take (pk_size a) (pk_vch b)"

definition pk_IsValid :: "CPubKey \<Rightarrow> bool" where
  "pk_IsValid pk \<longleftrightarrow> pk_size pk > 0"

definition pk_IsCompressed :: "CPubKey \<Rightarrow> bool" where
  "pk_IsCompressed pk \<longleftrightarrow> pk_size pk = 33"

definition IsFullyValid :: "openssl \<Rightarrow> CPubKey \<Rightarrow> bool" where
  "IsFullyValid ssl pk \<longleftrightarrow> pk_IsValid pk \<and> o2i_ECPublicKey ssl (pk_bytes pk) \<noteq> None"

definition pk_GetID :: "openssl \<Rightarrow> CPubKey \<Rightarrow> base_uint" where
  "pk_GetID ssl pk = Hash160 ssl (pk_bytes pk)"

definition pk_Verify :: "openssl \<Rightarrow> CPubKey \<Rightarrow> base_uint \<Rightarrow> data \<Rightarrow> bool" where
  "pk_Verify ssl pk hash vchSig \<longleftrightarrow>
     pk_IsValid pk \<and>
     (case o2i_ECPublicKey ssl (pk_bytes pk) of
        None \<Rightarrow> False
      | Some pkey \<Rightarrow> ECDSA_verify ssl (bu_bytes hash) vchSig pkey)"

definition pk_Serialize :: "CPubKey \<Rightarrow> data" where
  "pk_Serialize pk = WriteCompactSize (of_nat (pk_size pk)) @ take (pk_size pk) (pk_vch pk)"

definition pk_GetSerializeSize :: "CPubKey \<Rightarrow> u32" where
  "pk_GetSerializeSize pk = of_nat (pk_size pk) + 1"

definition pk_Unserialize :: "CPubKey \<Rightarrow> CPubKey reader" where
  "pk_Unserialize pk s =
     rbind (ReadCompactSize s) (\<lambda>(n, s).
       let len = unat (ucast n :: u32) in
       if len \<le> 65 then
         rbind (read_bytes len s) (\<lambda>(bs, s). Inr (pk\<lparr>pk_vch := bs @ drop len (pk_vch pk)\<rparr>, s))
       else rbind (read_bytes len s) (\<lambda>(_, s). Inr (pk_Invalidate pk, s)))"

section \<open>Private keys\<close>

record CKey =
  k_fValid :: bool
  k_fCompressed :: bool
  k_vch :: data

text \<open>\<open>Check\<close>: 32 bytes, big-endian, not zero and at most the order of the curve minus one.\<close>

definition vchMax :: data where
  "vchMax =
     [0xFF, 0xFF, 0xFF, 0xFF, 0xFF, 0xFF, 0xFF, 0xFF,
      0xFF, 0xFF, 0xFF, 0xFF, 0xFF, 0xFF, 0xFF, 0xFE,
      0xBA, 0xAE, 0xDC, 0xE6, 0xAF, 0x48, 0xA0, 0x3B,
      0xBF, 0xD2, 0x5E, 0x8C, 0xD0, 0x36, 0x41, 0x40]"

fun Check_loop :: "data \<Rightarrow> data \<Rightarrow> bool" where
  "Check_loop (b # bs) (m # ms) = (if b < m then True else if b > m then False else Check_loop bs ms)"
| "Check_loop bs ms = True"

definition key_Check :: "data \<Rightarrow> bool" where
  "key_Check vch = (if list_all (\<lambda>b. b = 0) vch then False else Check_loop vch vchMax)"

definition key_size :: "CKey \<Rightarrow> nat" where
  "key_size k = (if k_fValid k then 32 else 0)"

definition key_Set :: "data \<Rightarrow> bool \<Rightarrow> CKey \<Rightarrow> CKey" where
  "key_Set v fCompressedIn k =
     (if length v \<noteq> 32 then k\<lparr>k_fValid := False\<rparr>
      else if key_Check v then k\<lparr>k_vch := v, k_fValid := True, k_fCompressed := fCompressedIn\<rparr>
      else k\<lparr>k_fValid := False\<rparr>)"

text \<open>\<open>MakeNewKey\<close> draws 32 random bytes until they are a key.\<close>

fun MakeNewKey :: "data list \<Rightarrow> bool \<Rightarrow> (CKey \<times> data list) result" where
  "MakeNewKey [] fCompressedIn = Inl NoMoreInput"
| "MakeNewKey (vch # draws) fCompressedIn =
     (if key_Check vch then Inr (\<lparr>k_fValid = True, k_fCompressed = fCompressedIn, k_vch = vch\<rparr>, draws)
      else MakeNewKey draws fCompressedIn)"

definition regenerate_key :: "openssl \<Rightarrow> data \<Rightarrow> ec_point" where
  "regenerate_key ssl vch = EC_POINT_mul ssl (Some (BN_bin2bn ssl vch)) None"

text \<open>\<open>CECKey::GetPubKey\<close>.\<close>

definition eckey_GetPubKey :: "openssl \<Rightarrow> ec_point \<Rightarrow> bool \<Rightarrow> CPubKey \<Rightarrow> CPubKey result" where
  "eckey_GetPubKey ssl pkey fCompressed pubkey =
     (let c = i2o_ECPublicKey ssl pkey fCompressed
      in rbind (rassert (c \<noteq> [])) (\<lambda>_.
         rbind (rassert (length c \<le> 65)) (\<lambda>_. Inr (pk_Set c pubkey))))"

definition key_GetPubKey :: "openssl \<Rightarrow> CKey \<Rightarrow> CPubKey result" where
  "key_GetPubKey ssl k =
     rbind (rassert (k_fValid k)) (\<lambda>_.
       eckey_GetPubKey ssl (regenerate_key ssl (k_vch k)) (k_fCompressed k) invalid_pubkey)"

text \<open>\<open>Decompress\<close> replaces the key by its uncompressed form.\<close>

definition pk_Decompress :: "openssl \<Rightarrow> CPubKey \<Rightarrow> (bool \<times> CPubKey) result" where
  "pk_Decompress ssl pk =
     (if \<not> pk_IsValid pk then Inr (False, pk)
      else case o2i_ECPublicKey ssl (pk_bytes pk) of
             None \<Rightarrow> Inr (False, pk)
           | Some pkey \<Rightarrow> rbind (eckey_GetPubKey ssl pkey False pk) (\<lambda>pk. Inr (True, pk)))"

text \<open>\<open>CECKey::Sign\<close> negates an \<open>S\<close> above half the order.\<close>

definition key_Sign :: "openssl \<Rightarrow> CKey \<Rightarrow> base_uint \<Rightarrow> data option" where
  "key_Sign ssl k hash =
     (if \<not> k_fValid k then None
      else case ECDSA_do_sign ssl (bu_bytes hash) (BN_bin2bn ssl (k_vch k)) of
             None \<Rightarrow> None
           | Some (r, s) \<Rightarrow>
               let halforder = EC_order ssl div 2;
                   s' = (if s > halforder then EC_order ssl - s else s)
               in Some (i2d_ECDSA_SIG ssl (r, s')))"

section \<open>What OpenSSL promises\<close>

text \<open>The multiples of the generator by a secret in range are points with an encoding.\<close>

definition openssl_ok :: "openssl \<Rightarrow> bool" where
  "openssl_ok ssl \<longleftrightarrow>
     digests_ok ssl \<and> bignum_ok ssl \<and>
     (\<forall>s c. key_Check s \<longrightarrow> length s = 32 \<longrightarrow>
        (let p = i2o_ECPublicKey ssl (EC_POINT_mul ssl (Some (int (be_value s))) None) c
         in p \<noteq> [] \<and> length p = (if c then 33 else 65) \<and> hd p \<in> (if c then {2, 3} else {4})))"

section \<open>Lemmas\<close>

lemma GetLen_cases: "GetLen b \<in> {0, 33, 65}"
  by (simp add: GetLen_def)

lemma pk_bytes_mk_pubkey:
  "v \<noteq> [] \<Longrightarrow> GetLen (hd v) = length v \<Longrightarrow> pk_bytes (mk_pubkey v) = v"
  by (auto simp: mk_pubkey_def pk_Set_def pk_bytes_def pk_size_def Let_def)

lemma pk_size_mk_pubkey:
  "v \<noteq> [] \<Longrightarrow> GetLen (hd v) = length v \<Longrightarrow> pk_size (mk_pubkey v) = length v"
  by (auto simp: mk_pubkey_def pk_Set_def pk_size_def Let_def)

lemma pk_Set_invalid:
  "v \<noteq> [] \<Longrightarrow> GetLen (hd v) = length v \<Longrightarrow> pk_bytes (pk_Set v pk) = v \<and> pk_size (pk_Set v pk) = length v"
  by (auto simp: pk_Set_def pk_bytes_def pk_size_def Let_def)

lemma mk_pubkey_invalid:
  "v = [] \<or> GetLen (hd v) \<noteq> length v \<Longrightarrow> \<not> pk_IsValid (mk_pubkey v)"
  by (auto simp: mk_pubkey_def pk_Set_def pk_IsValid_def pk_size_def pk_Invalidate_def GetLen_def Let_def)

text \<open>A private key is one of the numbers from 1 to the order of secp256k1 minus 1.\<close>

lemma Check_loop_value:
  "length bs = length ms \<Longrightarrow> Check_loop bs ms \<longleftrightarrow> be_value bs \<le> be_value ms"
proof (induction bs ms rule: list_induct2)
  case (Cons b bs m ms)
  have lt: "unat p * 256 ^ length bs + be_value xs < unat q * 256 ^ length bs + be_value ys"
    if "unat p < unat q" "length xs = length bs" for p q :: byte and xs ys
    using that be_value_less [of xs] mult_right_mono [of "unat p + 1" "unat q" "256 ^ length bs"] by simp
  show ?case
    using Cons lt [of b m bs ms] lt [of m b ms bs]
    by (cases "unat b" "unat m" rule: linorder_cases) (auto simp: word_less_nat_alt)
qed simp

lemma key_Check_value:
  "length vch = 32 \<Longrightarrow> key_Check vch \<longleftrightarrow>
     0 < be_value vch \<and> be_value vch < 0xFFFFFFFFFFFFFFFFFFFFFFFFFFFFFFFEBAAEDCE6AF48A03BBFD25E8CD0364141"
proof -
  assume "length vch = 32"
  moreover have "length vchMax = 32"
    "be_value vchMax = 0xFFFFFFFFFFFFFFFFFFFFFFFFFFFFFFFEBAAEDCE6AF48A03BBFD25E8CD0364140"
    by (simp_all add: vchMax_def)
  ultimately show ?thesis
    using Check_loop_value [of vch vchMax] be_value_zero [of vch]
    by (auto simp: key_Check_def)
qed

lemma key_GetPubKey_ok:
  assumes "openssl_ok ssl" "k_fValid k" "key_Check (k_vch k)" "length (k_vch k) = 32"
  shows "\<exists>pk. key_GetPubKey ssl k = Inr pk \<and> pk_IsValid pk \<and> length (pk_bytes pk) = pk_size pk \<and>
    pk_size pk = (if k_fCompressed k then 33 else 65)"
proof -
  define p where "p = i2o_ECPublicKey ssl (regenerate_key ssl (k_vch k)) (k_fCompressed k)"
  have p: "p \<noteq> []" "length p = (if k_fCompressed k then 33 else 65)" "hd p \<in> (if k_fCompressed k then {2, 3} else {4})"
    using assms unfolding openssl_ok_def bignum_ok_def p_def regenerate_key_def Let_def by metis+
  then have "GetLen (hd p) = length p" by (auto simp: GetLen_def split: if_splits)
  with p assms(2) show ?thesis
    using pk_Set_invalid [of p invalid_pubkey]
    by (auto simp: key_GetPubKey_def eckey_GetPubKey_def pk_IsValid_def Let_def p_def [symmetric])
qed

section \<open>Properties\<close>


text \<open>32 bytes are a private key exactly when the number they stand for, most significant byte
  first, is not zero and is below the order of secp256k1.\<close>

theorem private_key_range:
  assumes "length vch = 32"
  shows "key_Check vch \<longleftrightarrow> 0 < be_value vch \<and>
    be_value vch < 0xFFFFFFFFFFFFFFFFFFFFFFFFFFFFFFFEBAAEDCE6AF48A03BBFD25E8CD0364141"
  using key_Check_value [OF assms] .

theorem private_key_range_witness: "key_Check (replicate 31 0 @ [7])"
proof -
  have "be_value (replicate n 0 @ [7]) = 7" for n by (induction n) simp_all
  then show ?thesis using private_key_range [of "replicate 31 0 @ [7]"] by simp
qed

end
