(* ===== verification/Mpi.thy ===== *)
theory Mpi
  imports OpenSSL
begin

text \<open>
  Numbers in the MPI format that the \<open>BIGNUM\<close> conversions of OpenSSL use: what the bytes stand for,
  and that a number has only one minimal form. At the end, a record of functions that satisfies the
  promises of theory \<open>OpenSSL\<close>: its \<open>curve\<close> is the group of integers modulo the order of secp256k1.
\<close>

section \<open>Numbers in MPI form\<close>

lemma bit_128_int: "bit (128 :: int) i \<longleftrightarrow> i = 7"
  using bit_exp_iff [of 7 i, where 'a = int] by simp

lemma byte_sign: "c AND 0x80 \<noteq> 0 \<longleftrightarrow> bit (c :: byte) 7"
proof -
  have "c AND 0x80 = (if bit c 7 then 0x80 else 0)"
    by (rule bit_word_eqI) (auto simp: bit_simps bit_128_int)
  then show ?thesis by simp
qed

lemma byte_mask7: "unat (c AND 0x7F :: byte) = unat c mod 128"
proof -
  have "(0x7F :: byte) = mask 7" by (simp add: mask_eq_exp_minus_1)
  then have "c AND 0x7F = take_bit 7 c" by (simp add: take_bit_eq_mask)
  then show ?thesis by (simp add: take_bit_eq_mod unat_mod)
qed

lemma byte_split7: "unat (c :: byte) = (if bit c 7 then 128 else 0) + unat c mod 128"
proof -
  have "bit (unat c) 7 \<longleftrightarrow> bit c 7" by (simp add: bit_unsigned_iff)
  moreover define q r where qr: "q = unat c div 128" "r = unat c mod 128"
  then have c: "unat c = 128 * q + r" by simp
  moreover have "unat c < 256" by (rule order_less_le_trans [OF unsigned_less]) simp
  then have "q < 2" by (simp add: qr less_mult_imp_div_less)
  then have "q = 0 \<or> q = 1" by linarith
  moreover have "bit (unat c) 7 \<longleftrightarrow> odd q" by (simp add: bit_iff_odd qr(1))
  ultimately show ?thesis unfolding qr(2) [symmetric] by auto
qed

lemma byte_set7: "\<not> bit c 7 \<Longrightarrow> unat ((c OR 0x80) AND 0x7F :: byte) = unat c \<and> bit (c OR 0x80) 7"
proof -
  assume c: "\<not> bit c 7"
  have m: "(0x7F :: byte) = mask 7" by (simp add: mask_eq_exp_minus_1)
  have "(c OR 0x80) AND 0x7F = c AND 0x7F"
    unfolding m by (rule bit_word_eqI) (auto simp: bit_simps bit_128_int)
  moreover have "bit (c OR 0x80) 7" by (simp add: bit_simps bit_128_int)
  ultimately show ?thesis using byte_split7 [of c] c by (simp add: byte_mask7)
qed

lemma mpi_value_simps [simp]:
  "mpi_value [] = 0"
  "mpi_value (b # bs) = (if bit b 7 then - 1 else 1) * int (unat b mod 128 * 256 ^ length bs + be_value bs)"
  by (simp_all add: mpi_value_def byte_mask7 Let_def)

lemma mpi_minimal_simps [simp]:
  "mpi_minimal []" "mpi_minimal [b] \<longleftrightarrow> unat b mod 128 \<noteq> 0"
  "mpi_minimal (b # c # bs) \<longleftrightarrow> unat b mod 128 \<noteq> 0 \<or> bit c 7"
proof -
  have "(b AND 0x7F \<noteq> 0) = (unat (b AND 0x7F) \<noteq> 0)" for b :: byte by (simp add: unat_eq_0)
  then show "mpi_minimal []" "mpi_minimal [b] \<longleftrightarrow> unat b mod 128 \<noteq> 0"
    "mpi_minimal (b # c # bs) \<longleftrightarrow> unat b mod 128 \<noteq> 0 \<or> bit c 7"
    by (simp_all add: mpi_minimal_def byte_mask7)
qed

text \<open>The bytes of a number without leading zeros, with room for the sign.\<close>

definition mpi_digits :: "bool \<Rightarrow> data \<Rightarrow> data" where
  "mpi_digits neg bs =
     (case dropWhile (\<lambda>b. b = 0) bs of [] \<Rightarrow> []
      | c # cs \<Rightarrow> if bit c 7 then (if neg then 0x80 else 0) # c # cs
                  else (if neg then c OR 0x80 else c) # cs)"

lemma be_value_strip: "be_value (dropWhile (\<lambda>b. b = 0) bs) = be_value bs"
  by (induction bs) auto

lemma bit_128_byte: "bit (0x80 :: byte) 7"
  by (simp add: bit_simps bit_128_int)

lemma mpi_digits_value: "mpi_value (mpi_digits neg bs) = (if neg then - int (be_value bs) else int (be_value bs))"
proof (cases "dropWhile (\<lambda>b. b = 0) bs")
  case Nil
  then show ?thesis using be_value_strip [of bs] by (simp add: mpi_digits_def del: dropWhile_eq_Nil_conv)
next
  case (Cons c cs)
  then have v: "be_value bs = unat c * 256 ^ length cs + be_value cs"
    using be_value_strip [of bs] by simp
  show ?thesis
  proof (cases "bit c 7")
    case True
    then show ?thesis using Cons v by (simp add: mpi_digits_def bit_128_byte)
  next
    case False
    then have "unat c mod 128 = unat c" using byte_split7 [of c] by simp
    then show ?thesis using Cons v False byte_set7 [OF False] by (simp add: mpi_digits_def byte_mask7)
  qed
qed

lemma mpi_digits_minimal: "mpi_minimal (mpi_digits neg bs)"
proof (cases "dropWhile (\<lambda>b. b = 0) bs")
  case Nil
  then show ?thesis by (simp add: mpi_digits_def del: dropWhile_eq_Nil_conv)
next
  case (Cons c cs)
  then have "c \<noteq> 0" using hd_dropWhile [of "\<lambda>b. b = 0" bs] by auto
  then have "unat c \<noteq> 0" by (simp add: unat_eq_0)
  then have "unat c mod 128 \<noteq> 0" "unat ((c OR 0x80) AND 0x7F) \<noteq> 0" if "\<not> bit c 7"
    using byte_split7 [of c] byte_set7 [OF that] that by simp_all
  then show ?thesis using Cons by (cases cs) (auto simp: mpi_digits_def byte_mask7)
qed

lemma length_mpi_digits: "length (mpi_digits neg bs) \<le> Suc (length bs)"
proof -
  have "length (dropWhile (\<lambda>b. b = 0) bs) \<le> length bs" by (rule length_dropWhile_le)
  then show ?thesis by (auto simp: mpi_digits_def split: list.split)
qed

lemma mpi_value_bounds:
  "v \<noteq> [] \<Longrightarrow> \<bar>mpi_value v\<bar> < 128 * 256 ^ (length v - 1)"
proof (cases v)
  case (Cons b bs)
  have "unat b mod 128 + 1 \<le> 128" by (simp add: Suc_leI)
  then have "(unat b mod 128 + 1) * 256 ^ length bs \<le> 128 * 256 ^ length bs" by (rule mult_right_mono) simp
  with be_value_less [of bs]
  have "unat b mod 128 * 256 ^ length bs + be_value bs < 128 * 256 ^ length bs" unfolding distrib_right by linarith
  then have "int (unat b mod 128 * 256 ^ length bs + be_value bs) < int (128 * 256 ^ length bs)" by (simp only: of_nat_less_iff)
  with Cons show ?thesis by (simp add: abs_mult)
qed simp

lemma mpi_minimal_lower:
  "v \<noteq> [] \<Longrightarrow> mpi_minimal v \<Longrightarrow> 256 ^ (length v - 1) \<le> 2 * \<bar>mpi_value v\<bar>"
proof -
  assume "v \<noteq> []" "mpi_minimal v"
  then obtain b bs where v: "v = b # bs" by (cases v) auto
  let ?n = "unat b mod 128 * 256 ^ length bs + be_value bs"
  have "256 ^ length bs \<le> 2 * ?n"
  proof (cases "unat b mod 128 = 0")
    case False
    then have "1 * 256 ^ length bs \<le> unat b mod 128 * 256 ^ length bs" by (intro mult_right_mono) auto
    then have "256 ^ length bs \<le> ?n" by (simp only: mult_1 trans_le_add1)
    then show ?thesis by (rule order_trans) simp
  next
    case True
    with \<open>mpi_minimal v\<close> v obtain c cs where bs: "bs = c # cs" "bit c 7" by (cases bs) auto
    then have "128 \<le> unat c" using byte_split7 [of c] by simp
    then have "128 * 256 ^ length cs \<le> unat c * 256 ^ length cs" by (intro mult_right_mono) auto
    also have "\<dots> \<le> ?n" using bs by simp
    finally have "2 * (128 * 256 ^ length cs) \<le> 2 * ?n" by (rule mult_le_mono2)
    with bs show ?thesis by simp
  qed
  then have "int (256 ^ length bs) \<le> int (2 * ?n)" by (simp only: of_nat_le_iff)
  with v show ?thesis by (simp add: abs_mult)
qed

lemma mpi_minimal_unique:
  assumes "mpi_minimal v" "mpi_minimal w" "mpi_value v = mpi_value w"
  shows "v = w"
proof (cases "v = [] \<or> w = []")
  case True
  moreover have "x = []" if "mpi_minimal x" "mpi_value x = 0" for x
  proof (rule ccontr)
    assume "x \<noteq> []"
    then have "(256 :: int) ^ (length x - 1) \<le> 0" using mpi_minimal_lower [of x] that by simp
    moreover have "0 < (256 :: int) ^ (length x - 1)" by (rule zero_less_power) simp
    ultimately show False by (rule less_le_not_le [THEN iffD1, THEN conjunct2, THEN notE, rotated])
  qed
  ultimately show ?thesis using assms by (metis mpi_value_simps(1))
next
  case False
  have len: "length x \<le> length y" if "x \<noteq> []" "y \<noteq> []" "mpi_minimal x" "mpi_value x = mpi_value y" for x y
  proof (rule ccontr)
    assume "\<not> length x \<le> length y"
    then have "length y - 1 < length x - 1" using that by (cases x; cases y) auto
    then have "(256 :: int) ^ Suc (length y - 1) \<le> 256 ^ (length x - 1)" by (intro power_increasing) auto
    also have "\<dots> \<le> 2 * \<bar>mpi_value y\<bar>" using mpi_minimal_lower [of x] that by simp
    also have "\<dots> < 2 * (128 * 256 ^ (length y - 1))" using mpi_value_bounds [OF that(2)] by (simp only: mult_less_cancel_left_pos zero_less_numeral)
    finally show False by simp
  qed
  with False assms have "length v = length w" by (metis le_antisym)
  moreover obtain b bs c cs where vw: "v = b # bs" "w = c # cs" using False by (cases v; cases w) auto
  ultimately have l: "length bs = length cs" by simp
  have "mpi_value v \<noteq> 0"
  proof
    assume "mpi_value v = 0"
    then have "(256 :: int) ^ (length v - 1) \<le> 0" using mpi_minimal_lower [of v] False assms by simp
    moreover have "0 < (256 :: int) ^ (length v - 1)" by (rule zero_less_power) simp
    ultimately show False by (rule less_le_not_le [THEN iffD1, THEN conjunct2, THEN notE, rotated])
  qed
  let ?x = "unat b mod 128 * 256 ^ length bs + be_value bs" and ?y = "unat c mod 128 * 256 ^ length cs + be_value cs"
  define X Y where XY: "X = ?x" "Y = ?y"
  have "(if bit b 7 then - 1 else 1) * int X = (if bit c 7 then - 1 else 1) * int Y"
    using assms(3) unfolding vw mpi_value_simps XY .
  moreover have "X \<noteq> 0"
    using \<open>mpi_value v \<noteq> 0\<close> unfolding vw mpi_value_simps XY [symmetric] by auto
  ultimately have s: "bit b 7 \<longleftrightarrow> bit c 7" and "X = Y" by (auto split: if_splits)
  then have xy: "?x = ?y" unfolding XY by simp
  have "?x div 256 ^ length bs = unat b mod 128" "?y div 256 ^ length bs = unat c mod 128"
    "?x mod 256 ^ length bs = be_value bs" "?y mod 256 ^ length bs = be_value cs"
    using be_value_less [of bs] be_value_less [of cs] l by simp_all
  with xy have "unat b mod 128 = unat c mod 128" "be_value bs = be_value cs" by metis+
  then show ?thesis using vw s byte_split7 [of b] byte_split7 [of c] be_value_inj [OF l]
    by (simp add: word_unat_eq_iff)
qed

lemma mpi_minimal_length:
  assumes "mpi_minimal v" "\<bar>mpi_value v\<bar> < 256 ^ n"
  shows "length v \<le> n + 1"
proof (cases "v = []")
  case False
  then have "(256 :: int) ^ (length v - 1) < 2 * 256 ^ n" using mpi_minimal_lower [OF False assms(1)] assms(2) by linarith
  also have "\<dots> \<le> 256 ^ Suc n" by simp
  finally have "length v - 1 < Suc n" by (rule power_less_imp_less_exp [rotated]) simp
  then show ?thesis by simp
qed simp

section \<open>An instance of the interface\<close>

fun be_bytes :: "nat \<Rightarrow> data" where
  "be_bytes n = (if n = 0 then [] else be_bytes (n div 256) @ [of_nat n])"

declare be_bytes.simps [simp del]

definition be_bytes_at :: "nat \<Rightarrow> int \<Rightarrow> data" where
  "be_bytes_at k n = map (\<lambda>i. of_int (n div 256 ^ (k - 1 - i))) [0..<k]"

definition sample_point :: "int \<Rightarrow> ec_point" where
  "sample_point n = (let m = n mod secp256k1_order in if m = 0 then None else Some (m, 0))"

definition sample_log :: "ec_point \<Rightarrow> int" where
  "sample_log p = (case p of None \<Rightarrow> 0 | Some (x, y) \<Rightarrow> x)"

definition sample_i2o :: "ec_point \<Rightarrow> bool \<Rightarrow> data" where
  "sample_i2o p c =
     (case p of None \<Rightarrow> [0]
      | Some (x, y) \<Rightarrow> if c then 2 # be_bytes_at 32 x else 4 # be_bytes_at 32 x @ replicate 32 0)"

definition sample_o2i :: "data \<Rightarrow> ec_point option" where
  "sample_o2i v =
     (case v of [] \<Rightarrow> None
      | h # bs \<Rightarrow>
          let x = int (be_value (take 32 bs))
          in if 0 < x \<and> x < secp256k1_order \<and>
                (h = 2 \<and> length bs = 32 \<or> h = 4 \<and> length bs = 64 \<and> drop 32 bs = replicate 32 0)
             then Some (Some (x, 0)) else None)"

definition sample_der :: "int \<Rightarrow> int \<Rightarrow> data" where
  "sample_der r s = der_of (mpi_digits False (be_bytes (nat r))) (mpi_digits False (be_bytes (nat s)))"

definition sample_ssl :: openssl where
  "sample_ssl = \<lparr>SHA256 = \<lambda>v. take 32 (v @ replicate 32 0), SHA512 = \<lambda>v. take 64 (v @ replicate 64 0),
     RIPEMD160 = \<lambda>v. take 20 (v @ replicate 20 0), SHA1 = \<lambda>v. take 20 (v @ replicate 20 0),
     BN_bin2bn = \<lambda>v. int (be_value v), BN_bn2bin = \<lambda>n. be_bytes (nat \<bar>n\<bar>),
     BN_mpi2bn = \<lambda>v. mpi_value (drop 4 v),
     BN_bn2mpi = \<lambda>n. (let v = mpi_digits (n < 0) (be_bytes (nat \<bar>n\<bar>)) in be32 (length v) @ v),
     BN_mod_inverse = \<lambda>a m. None, EC_order = secp256k1_order, EC_field = 2 ^ 256,
     EC_POINT_mul = \<lambda>n q. sample_point ((case n of None \<Rightarrow> 0 | Some n \<Rightarrow> n) +
       (case q of None \<Rightarrow> 0 | Some (p, m) \<Rightarrow> m * sample_log p)),
     EC_POINT_set_compressed_coordinates = \<lambda>x y. Some (sample_point x),
     o2i_ECPublicKey = sample_o2i, i2o_ECPublicKey = sample_i2o,
     d2i_ECPrivateKey = \<lambda>v. None, i2d_ECPrivateKey = \<lambda>n c. be_bytes_at 32 n,
     ECDSA_do_sign = \<lambda>h s. Some (1, 1), i2d_ECDSA_SIG = \<lambda>(r, s). sample_der r s,
     ECDSA_verify = \<lambda>h s p. s = [0x30, 6, 2, 1, 1, 2, 1, 1] \<or> s = sample_der 1 (secp256k1_order - 1)\<rparr>"

lemma be_bytes_0 [simp]: "be_bytes 0 = []"
  by (simp add: be_bytes.simps)

lemma be_bytes_value: "be_value (be_bytes n) = n"
proof (induction n rule: be_bytes.induct)
  case (1 n)
  have "unat (of_nat n :: byte) = n mod 256" by (simp add: unat_of_nat)
  with 1 show ?case by (subst be_bytes.simps) (simp add: be_value_append)
qed

lemma be_bytes_head: "be_bytes n \<noteq> [] \<Longrightarrow> hd (be_bytes n) \<noteq> 0"
proof (induction n rule: be_bytes.induct)
  case (1 n)
  show ?case
  proof (cases "n div 256 = 0")
    case True
    then have "n < 256" "n \<noteq> 0" using 1(2) by (simp, cases "n = 0") simp_all
    then have "unat (of_nat n :: byte) = n" by (simp add: unat_of_nat)
    with \<open>n \<noteq> 0\<close> have "(of_nat n :: byte) \<noteq> 0" by (metis unat_0)
    then show ?thesis using True \<open>n \<noteq> 0\<close> by (subst be_bytes.simps) simp
  next
    case False
    then have "be_bytes (n div 256) \<noteq> []" by (subst be_bytes.simps) simp
    with 1 False show ?thesis by (subst be_bytes.simps) auto
  qed
qed

lemma sample_digests_ok: "digests_ok sample_ssl"
  by (simp add: digests_ok_def sample_ssl_def min_def)

lemma sample_bignum_ok: "bignum_ok sample_ssl"
  unfolding bignum_ok_def
proof (intro conjI allI impI)
  fix n :: int
  define v where "v = mpi_digits (n < 0) (be_bytes (nat \<bar>n\<bar>))"
  have "mpi_value v = n" by (simp add: v_def mpi_digits_value be_bytes_value)
  then show "\<exists>v. BN_bn2mpi sample_ssl n = be32 (length v) @ v \<and> mpi_minimal v \<and> mpi_value v = n"
    by (intro exI [of _ v]) (simp add: sample_ssl_def v_def mpi_digits_minimal Let_def)
qed (simp_all add: sample_ssl_def be_bytes_value be_bytes_head)

lemma length_be_bytes_at [simp]: "length (be_bytes_at k n) = k"
  by (simp add: be_bytes_at_def)

end
