(* ===== verification/Bignum.thy ===== *)
theory Bignum
  imports Mpi Serialize
begin

text \<open>
  \<open>src/src/lib/core/bignum.h\<close>: \<open>CBigNum\<close>, the arithmetic of scripts. A \<open>CBigNum\<close> is a \<open>BIGNUM\<close> and
  its operators that only call the library are the operations on integers; modelled here are the
  conversions that the header itself computes: from and to machine integers, byte vectors, \<open>uint256\<close>,
  the compact form of difficulty targets, and text.
\<close>

section \<open>Machine integers\<close>

text \<open>The first four bytes of the MPI format.\<close>

definition mpi_header :: "u32 \<Rightarrow> data" where
  "mpi_header nSize =
     [ucast (drop_bit 24 nSize AND 0xff), ucast (drop_bit 16 nSize AND 0xff),
      ucast (drop_bit 8 nSize AND 0xff), ucast (nSize AND 0xff)]"

definition setulong :: "u64 \<Rightarrow> bignum" where
  "setulong n = uint n"

definition getulong :: "bignum \<Rightarrow> u64" where
  "getulong bn = BN_get_word bn"

definition getuint :: "bignum \<Rightarrow> u32" where
  "getuint bn = ucast (BN_get_word bn)"

definition INT_MAX :: int where
  "INT_MAX = 2147483647"

definition INT_MIN :: int where
  "INT_MIN = -2147483648"

definition getint :: "bignum \<Rightarrow> int" where
  "getint bn =
     (let n = BN_get_word bn
      in if \<not> bn < 0 then (if uint n > INT_MAX then INT_MAX else uint n)
         else (if uint n > INT_MAX then INT_MIN else - uint n))"

text \<open>The loop over the eight bytes; \<open>p\<close> are the bytes written after the header.\<close>

fun setint64_loop :: "bool \<Rightarrow> nat \<Rightarrow> u64 \<Rightarrow> bool \<Rightarrow> data \<Rightarrow> data" where
  "setint64_loop fNegative 0 n fLeadingZeroes p = p"
| "setint64_loop fNegative (Suc i) n fLeadingZeroes p =
     (let c = ucast (drop_bit 56 n AND 0xff) :: byte;
          n = push_bit 8 n
      in if fLeadingZeroes then
           if c = 0 then setint64_loop fNegative i n True p
           else let (p, c) =
                  (if c AND 0x80 \<noteq> 0 then (p @ [if fNegative then 0x80 else 0], c)
                   else (p, if fNegative then c OR 0x80 else c))
                in setint64_loop fNegative i n False (p @ [c])
         else setint64_loop fNegative i n False (p @ [c]))"

definition setint64 :: "openssl \<Rightarrow> 64 word \<Rightarrow> bignum" where
  "setint64 ssl sn =
     (let (n, fNegative) = (if sn <s 0 then (- (sn + 1) + 1, True) else (sn, False));
          p = setint64_loop fNegative 8 n True []
      in BN_mpi2bn ssl (mpi_header (of_nat (length p)) @ p))"

fun setuint64_loop :: "nat \<Rightarrow> u64 \<Rightarrow> bool \<Rightarrow> data \<Rightarrow> data" where
  "setuint64_loop 0 n fLeadingZeroes p = p"
| "setuint64_loop (Suc i) n fLeadingZeroes p =
     (let c = ucast (drop_bit 56 n AND 0xff) :: byte;
          n = push_bit 8 n
      in if fLeadingZeroes then
           if c = 0 then setuint64_loop i n True p
           else setuint64_loop i n False ((if c AND 0x80 \<noteq> 0 then p @ [0] else p) @ [c])
         else setuint64_loop i n False (p @ [c]))"

definition setuint64 :: "openssl \<Rightarrow> u64 \<Rightarrow> bignum" where
  "setuint64 ssl n =
     (let p = setuint64_loop 8 n True []
      in BN_mpi2bn ssl (mpi_header (of_nat (length p)) @ p))"

text \<open>The constructors from \<open>int\<close> and \<open>long\<close> take the unsigned path for numbers that are not negative.\<close>

definition CBigNum_of_long :: "openssl \<Rightarrow> 64 word \<Rightarrow> bignum" where
  "CBigNum_of_long ssl n = (if 0 \<le>s n then setulong n else setint64 ssl n)"

section \<open>Hashes and byte vectors\<close>

text \<open>The bytes of the number from the most significant one down.\<close>

fun setuint256_loop :: "data \<Rightarrow> bool \<Rightarrow> data \<Rightarrow> data" where
  "setuint256_loop [] fLeadingZeroes p = p"
| "setuint256_loop (c # cs) fLeadingZeroes p =
     (if fLeadingZeroes then
        if c = 0 then setuint256_loop cs True p
        else setuint256_loop cs False ((if c AND 0x80 \<noteq> 0 then p @ [0] else p) @ [c])
      else setuint256_loop cs False (p @ [c]))"

definition setuint256 :: "openssl \<Rightarrow> base_uint \<Rightarrow> bignum" where
  "setuint256 ssl n =
     (let p = setuint256_loop (rev (bu_bytes n)) True []
      in BN_mpi2bn ssl (mpi_header (of_nat (length p)) @ p))"

definition getuint256 :: "openssl \<Rightarrow> bignum \<Rightarrow> base_uint" where
  "getuint256 ssl bn =
     (let vch = BN_bn2mpi ssl bn
      in if length vch < 4 then bu_of_u64 8 0
         else let vch = (if length vch > 4 then vch[4 := vch ! 4 AND 0x7f] else vch);
                  low = take 32 (rev (drop 4 vch))
              in bu_of_bytes (low @ replicate (32 - length low) 0))"

definition setvch :: "openssl \<Rightarrow> data \<Rightarrow> bignum" where
  "setvch ssl vch = BN_mpi2bn ssl (mpi_header (of_nat (length vch)) @ rev vch)"

definition getvch :: "openssl \<Rightarrow> bignum \<Rightarrow> data" where
  "getvch ssl bn =
     (let vch = BN_bn2mpi ssl bn
      in if length vch \<le> 4 then [] else rev (drop 4 vch))"

definition bn_Serialize :: "openssl \<Rightarrow> bignum \<Rightarrow> data" where
  "bn_Serialize ssl bn = Serialize_bytes (getvch ssl bn)"

definition bn_GetSerializeSize :: "openssl \<Rightarrow> bignum \<Rightarrow> u32" where
  "bn_GetSerializeSize ssl bn = GetSerializeSize_bytes (getvch ssl bn)"

definition bn_Unserialize :: "openssl \<Rightarrow> bignum reader" where
  "bn_Unserialize ssl s = rbind (Unserialize_bytes s) (\<lambda>(vch, s). Inr (setvch ssl vch, s))"

section \<open>The compact form\<close>

definition SetCompact :: "u32 \<Rightarrow> bignum" where
  "SetCompact nCompact =
     (let nSize = drop_bit 24 nCompact;
          fNegative = (nCompact AND 0x00800000 \<noteq> 0);
          nWord = nCompact AND 0x007fffff;
          bn = (if nSize \<le> 3 then uint (drop_bit (8 * (3 - unat nSize)) nWord)
                else uint nWord * 2 ^ (8 * (unat nSize - 3)))
      in if fNegative then - bn else bn)"

definition GetCompact :: "bignum \<Rightarrow> u32" where
  "GetCompact bn =
     (let nSize = of_nat (BN_num_bytes bn) :: u32;
          nCompact =
            (if nSize \<le> 3 then ucast (push_bit (8 * (3 - unat nSize)) (BN_get_word bn))
             else ucast (BN_get_word (BN_rshift bn (8 * (unat nSize - 3)))));
          (nCompact, nSize) =
            (if nCompact AND 0x00800000 \<noteq> 0 then (drop_bit 8 nCompact, nSize + 1)
             else (nCompact, nSize))
      in nCompact OR push_bit 24 nSize OR (if bn < 0 then 0x00800000 else 0))"

section \<open>Text\<close>

definition bn_SetHex :: "string \<Rightarrow> bignum" where
  "bn_SetHex str =
     (let psz = dropWhile isspace str;
          (fNegative, psz) =
            (case psz of c # cs \<Rightarrow> if c = CHR ''-'' then (True, cs) else (False, psz) | [] \<Rightarrow> (False, psz));
          psz = dropWhile isspace (skip0x psz);
          bn = foldl (\<lambda>bn c. bn * 2 ^ 4 + HexDigit c) 0 (takeWhile (\<lambda>c. HexDigit c \<noteq> -1) psz)
      in if fNegative then 0 - bn else bn)"

text \<open>\<open>BN_div\<close> fails for a base of zero, and the table of digits has sixteen entries and a terminator.\<close>

partial_function (option) ToString_loop :: "int \<Rightarrow> bignum \<Rightarrow> string \<Rightarrow> string result option" where
  "ToString_loop nBase bn str =
     (if bn > 0 then
        if nBase = 0 then Some (Inl (Thrown ''CBigNum::ToString() : BN_div failed''))
        else let dv = trunc_div bn nBase;
                 c = unat (ucast (getulong (bn - dv * nBase)) :: u32)
             in if c < 16 then ToString_loop nBase dv (str @ [hex_digit c])
                else if c = 16 then ToString_loop nBase dv (str @ [CHR 0x00])
                else Some (Inl Undefined)
      else Some (Inr str))"

definition bn_ToString :: "int \<Rightarrow> bignum \<Rightarrow> string result" where
  "bn_ToString nBase n =
     (if \<bar>n\<bar> = 0 then Inr ''0''
      else rbind (of_loop (ToString_loop nBase \<bar>n\<bar> ''''))
        (\<lambda>str. Inr (rev (if n < 0 then str @ ''-'' else str))))"

definition bn_GetHex :: "bignum \<Rightarrow> string result" where
  "bn_GetHex n = bn_ToString 16 n"

section \<open>Shifts\<close>

definition bn_shr :: "bignum \<Rightarrow> u32 \<Rightarrow> bignum" where
  "bn_shr bn shift =
     (let a = 1 * 2 ^ unat shift
      in if a > bn then 0 else BN_rshift bn (unat shift))"

section \<open>The MPI format\<close>

lemma mpi_header_be32: "mpi_header (of_nat n) = be32 n"
proof -
  have m: "(0xFF :: u32) = mask 8" by (simp add: mask_eq_exp_minus_1)
  have "ucast (x AND 0xFF) = (ucast x :: byte)" for x :: u32
    unfolding m by (rule bit_word_eqI) (auto simp: bit_simps)
  then show ?thesis by (simp add: mpi_header_def be32_def le_bytes_4)
qed

text \<open>The parts of \<open>bignum_ok\<close> that the conversions use.\<close>

lemma bignum_okD:
  assumes "bignum_ok ssl"
  shows "length v < 2 ^ 31 \<Longrightarrow> BN_mpi2bn ssl (mpi_header (of_nat (length v)) @ v) = mpi_value v"
    and "\<bar>n\<bar> < 256 ^ 1000 \<Longrightarrow>
      \<exists>v. BN_bn2mpi ssl n = be32 (length v) @ v \<and> mpi_minimal v \<and> mpi_value v = n \<and> length v \<le> 1001"
proof -
  show "length v < 2 ^ 31 \<Longrightarrow> BN_mpi2bn ssl (mpi_header (of_nat (length v)) @ v) = mpi_value v"
    using assms unfolding bignum_ok_def mpi_header_be32 by blast
  assume n: "\<bar>n\<bar> < 256 ^ 1000"
  then obtain v where v: "BN_bn2mpi ssl n = be32 (length v) @ v" "mpi_minimal v" "mpi_value v = n"
    using assms unfolding bignum_ok_def by blast
  moreover have "length v \<le> 1000 + 1" by (rule mpi_minimal_length) (use v n in \<open>simp_all only:\<close>)
  ultimately show "\<exists>v. BN_bn2mpi ssl n = be32 (length v) @ v \<and> mpi_minimal v \<and> mpi_value v = n \<and> length v \<le> 1001"
    by auto
qed

section \<open>The conversions on numbers\<close>

fun top_bytes :: "nat \<Rightarrow> u64 \<Rightarrow> data" where
  "top_bytes 0 n = []"
| "top_bytes (Suc i) n = ucast (drop_bit 56 n AND 0xff) # top_bytes i (push_bit 8 n)"

lemma length_top_bytes [simp]: "length (top_bytes i n) = i"
  by (induction i arbitrary: n) auto

lemma top_bytes_value: "i \<le> 8 \<Longrightarrow> be_value (top_bytes i n) = unat n div 2 ^ (64 - 8 * i)"
proof (induction i arbitrary: n)
  case 0
  show ?case using unat_less_64 [of n] by simp
next
  case (Suc i)
  define a r where ar: "a = unat n div 2 ^ 56" "r = unat n mod 2 ^ 56"
  have n: "unat n = a * 2 ^ 56 + r" "r < 2 ^ 56" by (simp_all add: ar)
  have a: "a < 256" using unat_less_64 [of n] n by simp
  have m: "(0xFF :: u64) = mask 8" by (simp add: mask_eq_exp_minus_1)
  have "unat (drop_bit 56 n AND 0xff) = a"
    using a by (simp add: m take_bit_eq_mask [symmetric] unsigned_take_bit_eq drop_bit_eq_div unat_div ar take_bit_nat_eq_self)
  then have c: "unat (ucast (drop_bit 56 n AND 0xff) :: byte) = a"
    using a by (simp add: unsigned_ucast_eq take_bit_nat_eq_self)
  have "unat (push_bit 8 n) = (unat n * 256) mod 2 ^ 64"
    by (simp add: push_bit_eq_mult unat_word_ariths)
  also have "\<dots> = r * 256" using n by simp
  finally have p: "unat (push_bit 8 n) = r * 256" .
  obtain k where k: "8 = Suc i + k" using Suc.prems le_Suc_ex by blast
  have e: "64 - 8 * i = 8 * k + 8" "64 - 8 * Suc i = 8 * k" "56 = 8 * i + 8 * k" using k by simp_all
  have "be_value (top_bytes (Suc i) n) = a * 256 ^ i + r * 256 div (2 ^ (8 * k) * 256)"
    using Suc c p by (simp add: e(1) power_add)
  also have "\<dots> = a * 256 ^ i + r div 2 ^ (8 * k)" by simp
  also have "\<dots> = (a * 256 ^ i * 2 ^ (8 * k) + r) div 2 ^ (8 * k)" by simp
  also have "a * 256 ^ i * 2 ^ (8 * k) = a * 2 ^ 56"
    unfolding e(3) by (simp add: power_add power_mult)
  finally show ?case using n e(2) by simp
qed

lemma setuint256_loop_digits:
  "setuint256_loop bs lz p = p @ (if lz then mpi_digits False bs else bs)"
  by (induction bs lz p rule: setuint256_loop.induct)
    (auto simp: mpi_digits_def byte_sign)

lemma setuint64_loop_digits:
  "setuint64_loop i n lz p = p @ (if lz then mpi_digits False (top_bytes i n) else top_bytes i n)"
  by (induction i n lz p rule: setuint64_loop.induct)
    (auto simp: mpi_digits_def byte_sign Let_def)

lemma setint64_loop_digits:
  "setint64_loop neg i n lz p = p @ (if lz then mpi_digits neg (top_bytes i n) else top_bytes i n)"
  by (induction neg i n lz p rule: setint64_loop.induct)
    (auto simp: mpi_digits_def byte_sign Let_def)

lemma setuint64_value: "bignum_ok ssl \<Longrightarrow> setuint64 ssl n = uint n"
  using length_mpi_digits [of False "top_bytes 8 n"]
  by (simp add: setuint64_def setuint64_loop_digits Let_def bignum_okD(1) mpi_digits_value top_bytes_value)

lemma sint_abs: "(n :: 64 word) <s 0 \<Longrightarrow> int (unat (- n)) = - sint n" "\<not> n <s 0 \<Longrightarrow> int (unat n) = sint n"
proof -
  have "sint n = take_bit 64 (uint n) - 2 ^ 64 * of_bool (bit (uint n) 63)"
    by (simp add: sint_uint signed_take_bit_eq_take_bit_minus)
  moreover have u: "0 \<le> uint n" "uint n < 2 ^ 64" using unsigned_less [of n] by auto
  ultimately have s: "sint n = uint n - 2 ^ 64 * of_bool (bit (uint n) 63)" by (simp add: take_bit_int_eq_self)
  have l: "n <s 0 \<longleftrightarrow> sint n < 0" by (simp add: word_sless_alt)
  show "int (unat (- n)) = - sint n" if "n <s 0"
  proof -
    have "sint n = uint n - 2 ^ 64" "uint n \<noteq> 0" using that l s u by (cases "bit (uint n) 63"; auto)+
    moreover have "uint (- n) = (- uint n) mod 2 ^ 64" by (simp add: uint_word_ariths)
    ultimately show ?thesis using u by (simp add: zmod_zminus1_eq_if)
  qed
  show "int (unat n) = sint n" if "\<not> n <s 0"
    using that l s u by (cases "bit (uint n) 63"; auto)
qed

lemma setint64_value: "bignum_ok ssl \<Longrightarrow> setint64 ssl n = sint n"
  using length_mpi_digits [of False "top_bytes 8 n"] length_mpi_digits [of True "top_bytes 8 (- n)"]
    sint_abs [of n]
  by (simp add: setint64_def setint64_loop_digits Let_def bignum_okD(1) mpi_digits_value top_bytes_value)

lemma unat_drop_bit: "unat (drop_bit k w) = unat w div 2 ^ k"
  by (simp only: unsigned_drop_bit_eq) (simp add: drop_bit_eq_div take_bit_nat_eq_self)

lemma be_value_rev_le_bytes: "be_value (rev (le_bytes n w)) = unat w mod 2 ^ (8 * n)"
proof (induction n)
  case (Suc n)
  have "unat (ucast (drop_bit (8 * n) w) :: byte) = unat w div 2 ^ (8 * n) mod 256"
    by (simp add: unsigned_ucast_eq take_bit_eq_mod unat_drop_bit del: drop_bit_eq_div)
  moreover have "le_bytes (Suc n) w = le_bytes n w @ [ucast (drop_bit (8 * n) w)]"
    by (simp add: le_bytes_def)
  moreover have "(256 :: nat) ^ n = 2 ^ (8 * n)" by (simp add: power_mult)
  ultimately show ?case using Suc mod_mult2_eq [of "unat w" "2 ^ (8 * n)" 256] by (simp add: power_add algebra_simps)
qed (simp add: le_bytes_def)

lemma be_value_bu_bytes: "int (be_value (rev (bu_bytes pn))) = uvalue pn"
proof (induction pn)
  case (Cons p pn)
  have "unat p mod 2 ^ 32 = unat p" using unat_less_32 [of p] by simp
  moreover have "bu_bytes (p # pn) = le_bytes 4 p @ bu_bytes pn" by (simp add: bu_bytes_def)
  ultimately show ?case using Cons be_value_rev_le_bytes [of 4 p] by (simp add: be_value_append)
qed (simp add: bu_bytes_def)

lemma setuint256_value: "bignum_ok ssl \<Longrightarrow> length n \<le> 1000 \<Longrightarrow> setuint256 ssl n = uvalue n"
  using length_mpi_digits [of False "rev (bu_bytes n)"]
  by (simp add: setuint256_def setuint256_loop_digits Let_def bignum_okD(1) mpi_digits_value be_value_bu_bytes)

lemma getvch_value:
  assumes "bignum_ok ssl" "\<bar>n\<bar> < 256 ^ 1000"
  shows "mpi_minimal (rev (getvch ssl n))" "mpi_value (rev (getvch ssl n)) = n" "length (getvch ssl n) \<le> 1001"
proof -
  obtain v where v: "BN_bn2mpi ssl n = be32 (length v) @ v" "mpi_minimal v" "mpi_value v = n" "length v \<le> 1001"
    using bignum_okD(2) [OF assms] by blast
  then have "getvch ssl n = rev v" by (auto simp: getvch_def Let_def)
  with v show "mpi_minimal (rev (getvch ssl n))" "mpi_value (rev (getvch ssl n)) = n" "length (getvch ssl n) \<le> 1001"
    by simp_all
qed

lemma setvch_value: "bignum_ok ssl \<Longrightarrow> length v < 2 ^ 31 \<Longrightarrow> setvch ssl v = mpi_value (rev v)"
  using bignum_okD(1) [of ssl "rev v"] by (simp add: setvch_def)

lemma setvch_getvch: "bignum_ok ssl \<Longrightarrow> \<bar>n\<bar> < 256 ^ 1000 \<Longrightarrow> setvch ssl (getvch ssl n) = n"
  using getvch_value [of ssl n] by (simp add: setvch_value)

lemma mpi_value_le: "\<bar>mpi_value v\<bar> < 256 ^ length v"
proof (cases "v = []")
  case False
  then have "\<bar>mpi_value v\<bar> < 128 * 256 ^ (length v - 1)" by (rule mpi_value_bounds)
  also have "\<dots> \<le> 256 ^ Suc (length v - 1)" by simp
  finally show ?thesis using False by simp
qed simp

lemma getvch_setvch:
  assumes "bignum_ok ssl" "length v \<le> 1000"
  shows "getvch ssl (setvch ssl v) = v \<longleftrightarrow> mpi_minimal (rev v)"
proof -
  have "(256 :: int) ^ length v \<le> 256 ^ 1000" using assms(2) by (intro power_increasing) auto
  then have b: "\<bar>mpi_value (rev v)\<bar> < 256 ^ 1000" using mpi_value_le [of "rev v"] by simp
  have e: "setvch ssl v = mpi_value (rev v)" using assms by (intro setvch_value) auto
  note g = getvch_value [OF assms(1) b]
  show ?thesis unfolding e
    using g mpi_minimal_unique [of "rev v" "rev (getvch ssl (mpi_value (rev v)))"] by (metis rev_rev_ident)
qed

lemma getint_value: "getint n = (if n > INT_MAX then INT_MAX else if n < - INT_MAX then INT_MIN else n)"
proof (cases "\<bar>n\<bar> < 2 ^ 64")
  case True
  then have "uint (BN_get_word n) = \<bar>n\<bar>" by (simp add: BN_get_word_def uint_word_of_int)
  then show ?thesis by (auto simp: getint_def Let_def INT_MAX_def)
next
  case False
  then have "uint (BN_get_word n) = 2 ^ 64 - 1" by (simp add: BN_get_word_def unsigned_minus_1_eq_mask mask_eq_exp_minus_1)
  then show ?thesis using False by (auto simp: getint_def Let_def INT_MAX_def)
qed

lemma be_value_replicate_0: "be_value (replicate k 0 @ bs) = be_value bs"
  by (induction k) auto

lemma uvalue_of_bytes: "length bs = 4 * n \<Longrightarrow> uvalue (bu_of_bytes bs) = int (be_value (rev bs))"
  using be_value_bu_bytes [of "bu_of_bytes bs"] by (simp add: bu_bytes_of_bytes)

lemma length_bu_of_bytes [simp]: "length bs = 4 * n \<Longrightarrow> length (bu_of_bytes bs) = n"
  using length_bu_bytes [of "bu_of_bytes bs"] by (simp add: bu_bytes_of_bytes)

lemma getuint256_value:
  assumes "bignum_ok ssl" "\<bar>n\<bar> < 2 ^ 256"
  shows "uvalue (getuint256 ssl n) = \<bar>n\<bar>" "length (getuint256 ssl n) = 8"
proof -
  have "(2 :: int) ^ 256 \<le> 256 ^ 1000" by simp
  then obtain v where v: "BN_bn2mpi ssl n = be32 (length v) @ v" "mpi_minimal v" "mpi_value v = n"
    using bignum_okD(2) [OF assms(1), of n] assms(2) by fastforce
  define w where "w = (case v of [] \<Rightarrow> [] | b # bs \<Rightarrow> (b AND 0x7f) # bs)"
  have w: "int (be_value w) = \<bar>n\<bar>"
    unfolding v(3) [symmetric] by (auto simp: w_def byte_mask7 abs_mult split: list.split)
  define low where "low = take 32 (rev w)"
  have g: "getuint256 ssl n = bu_of_bytes (low @ replicate (32 - length low) 0)"
    using v(1) by (cases v) (auto simp: getuint256_def Let_def low_def w_def nth_append list_update_append min_def split: nat.split)
  have l: "length (low @ replicate (32 - length low) 0) = 4 * 8" by (simp add: low_def)
  show "length (getuint256 ssl n) = 8" unfolding g using l by (rule length_bu_of_bytes)
  have "rev w = low @ drop 32 (rev w)" by (simp add: low_def)
  then have "w = rev (drop 32 (rev w)) @ rev low" by (metis rev_append rev_rev_ident)
  then have bw: "be_value w = be_value (rev (drop 32 (rev w))) * 256 ^ length low + be_value (rev low)"
    by (metis be_value_append length_rev)
  have "be_value (rev (drop 32 (rev w))) * 256 ^ length low = 0"
  proof (cases "length w \<le> 32")
    case False
    then have "length low = 32" by (simp add: low_def)
    with bw w assms(2) show ?thesis by (cases "be_value (rev (drop 32 (rev w)))") auto
  qed simp
  with bw w show "uvalue (getuint256 ssl n) = \<bar>n\<bar>"
    unfolding g uvalue_of_bytes [OF l] by (simp add: be_value_replicate_0)
qed

lemma getuint256_setuint256:
  assumes "bignum_ok ssl" "length n = 8"
  shows "getuint256 ssl (setuint256 ssl n) = n"
proof -
  have "setuint256 ssl n = uvalue n" using assms by (intro setuint256_value) auto
  with getuint256_value [OF assms(1), of "uvalue n"] uvalue_bounds [of n] assms(2) show ?thesis
    by (intro uvalue_inj) auto
qed

section \<open>Text is read back\<close>

lemma ToString_loop_digits:
  assumes "2 \<le> base" "base \<le> 16" "0 \<le> bn"
  shows "\<exists>ds. ToString_loop base bn str = Some (Inr (str @ ds)) \<and>
    (\<forall>c \<in> set ds. \<exists>d < 16. c = hex_digit d) \<and>
    foldr (\<lambda>c v. v * base + HexDigit c) ds 0 = bn \<and> (0 < bn \<longrightarrow> ds \<noteq> [])"
  using assms(3)
proof (induction "nat bn" arbitrary: bn str rule: less_induct)
  case less
  show ?case
  proof (cases "0 < bn")
    case False
    with less.prems have "bn = 0" by simp
    then show ?thesis by (subst ToString_loop.simps) simp
  next
    case True
    have dm: "bn - bn div base * base = bn mod base" using minus_div_mult_eq_mod [of bn base] by simp
    define d where "d = nat (bn mod base)"
    have "bn mod base < base" "0 \<le> bn mod base" using assms by simp_all
    then have d: "int d = bn mod base" "d < 16" using assms unfolding d_def by linarith+
    have "getulong (bn mod base) = word_of_int (int d)"
      using d by (simp add: getulong_def BN_get_word_def)
    then have c: "unat (ucast (getulong (bn mod base)) :: u32) = d"
      using d(2) by (simp add: unat_of_nat unsigned_ucast_eq take_bit_nat_eq_self)
    have lt: "bn div base < bn" using True assms by (intro int_div_less_self) auto
    moreover have ge: "0 \<le> bn div base" using True assms by (simp add: pos_imp_zdiv_nonneg_iff)
    ultimately obtain ds where ds: "ToString_loop base (bn div base) (str @ [hex_digit d]) = Some (Inr ((str @ [hex_digit d]) @ ds))"
      "\<forall>c \<in> set ds. \<exists>d < 16. c = hex_digit d" "foldr (\<lambda>c v. v * base + HexDigit c) ds 0 = bn div base"
      using less.hyps [of "bn div base" "str @ [hex_digit d]"] by auto
    have "ToString_loop base bn str = Some (Inr (str @ hex_digit d # ds))"
      using True assms c d ds(1) dm by (subst ToString_loop.simps) (simp add: Let_def)
    then show ?thesis using ds d by (intro exI [of _ "hex_digit d # ds"]) (auto simp: HexDigit_hex_digit)
  qed
qed

lemma hex_digit_minus: "n < 16 \<Longrightarrow> hex_digit n \<noteq> CHR ''-''"
proof -
  assume "n < 16"
  then have "n \<in> set [0..<16]" by simp
  moreover have "list_all (\<lambda>n. hex_digit n \<noteq> CHR ''-'') [0..<16]" by code_simp
  ultimately show ?thesis by (simp add: list_all_iff)
qed

lemma bn_SetHex_digits:
  assumes "ds \<noteq> []" "\<forall>c \<in> set ds. \<exists>n < 16. c = hex_digit n"
  shows "bn_SetHex ds = foldl (\<lambda>bn c. bn * 2 ^ 4 + HexDigit c) 0 ds"
    and "bn_SetHex (CHR ''-'' # ds) = - foldl (\<lambda>bn c. bn * 2 ^ 4 + HexDigit c) 0 ds"
proof -
  obtain d cs where ds: "ds = d # cs" using assms(1) by (cases ds) auto
  then have d: "\<not> isspace d" "d \<noteq> CHR ''-''" using assms(2) hex_digit_chars hex_digit_minus by auto
  have t: "takeWhile (\<lambda>c. HexDigit c \<noteq> -1) ds = ds"
    unfolding takeWhile_eq_all_conv using assms(2) by (auto simp: HexDigit_hex_digit)
  have m: "\<not> isspace CHR ''-''" by code_simp
  have s: "skip0x ds = ds" using assms(2) by (rule skip0x_hex)
  show "bn_SetHex ds = foldl (\<lambda>bn c. bn * 2 ^ 4 + HexDigit c) 0 ds"
    using d t s by (simp add: bn_SetHex_def ds)
  show "bn_SetHex (CHR ''-'' # ds) = - foldl (\<lambda>bn c. bn * 2 ^ 4 + HexDigit c) 0 ds"
    using d t s m by (simp add: bn_SetHex_def ds)
qed

lemma bn_SetHex_GetHex: "\<exists>s. bn_GetHex n = Inr s \<and> bn_SetHex s = n"
proof (cases "n = 0")
  case True
  have "bn_SetHex ''0'' = 0" by code_simp
  with True show ?thesis by (simp add: bn_GetHex_def bn_ToString_def)
next
  case False
  then obtain ds where ds: "ToString_loop 16 \<bar>n\<bar> [] = Some (Inr ds)" "\<forall>c \<in> set ds. \<exists>d < 16. c = hex_digit d"
    "foldr (\<lambda>c v. v * 16 + HexDigit c) ds 0 = \<bar>n\<bar>" "ds \<noteq> []"
    using ToString_loop_digits [of 16 "\<bar>n\<bar>" "[]"] by auto
  have "foldl (\<lambda>bn c. bn * 2 ^ 4 + HexDigit c) 0 (rev ds) = \<bar>n\<bar>"
    using ds(3) by (simp add: foldl_conv_foldr)
  with bn_SetHex_digits [of "rev ds"] ds False show ?thesis
    by (auto simp: bn_GetHex_def bn_ToString_def)
qed

section \<open>The compact form keeps the leading bytes\<close>

lemma nat_bytes_pos: "0 < n \<Longrightarrow> nat_bytes n = Suc (nat_bytes (n div 256))"
  by (subst nat_bytes.simps) simp

lemma nat_bytes_0 [simp]: "nat_bytes 0 = 0"
  by (simp add: nat_bytes.simps)

lemma nat_bytes_bounds: "n < 256 ^ nat_bytes n" "0 < n \<Longrightarrow> 256 ^ (nat_bytes n - 1) \<le> n"
proof (induction n rule: nat_bytes.induct)
  case (1 n)
  {
    case 1
    show ?case
    proof (cases "n = 0")
      case False
      then have "n div 256 < 256 ^ nat_bytes (n div 256)" using "1.IH" by blast
      then show ?thesis using False by (subst nat_bytes.simps) (simp add: div_less_iff_less_mult mult.commute)
    qed simp
  next
    case 2
    show ?case
    proof (cases "n div 256 = 0")
      case True
      then show ?thesis using 2 by (subst nat_bytes.simps) (simp add: nat_bytes.simps)
    next
      case False
      then have "256 ^ (nat_bytes (n div 256) - 1) \<le> n div 256" using "1.IH" 2 by blast
      then have "256 * 256 ^ (nat_bytes (n div 256) - 1) \<le> n" by simp
      moreover have "nat_bytes n = Suc (Suc (nat_bytes (n div 256) - 1))"
        using False 2 nat_bytes_pos [of n] nat_bytes_pos [of "n div 256"] by simp
      ultimately show ?thesis by simp
    qed
  }
qed

lemma bit_23_int: "bit (0x00800000 :: int) i \<longleftrightarrow> i = 23"
  using bit_exp_iff [of 23 i, where 'a = int] by simp

lemma bit_23_u32: "bit (0x00800000 :: u32) i \<longleftrightarrow> i = 23"
  using bit_exp_iff [of 23 i, where 'a = "32 word"] by auto

lemma compact_fields:
  fixes q s :: u32
  assumes "unat q < 2 ^ 23" "unat s < 2 ^ 8" "sg = 0 \<or> sg = 0x00800000"
  defines "c \<equiv> q OR push_bit 24 s OR sg"
  shows "drop_bit 24 c = s" "c AND 0x007fffff = q" "c AND 0x00800000 \<noteq> 0 \<longleftrightarrow> sg \<noteq> 0"
proof -
  have "take_bit 23 q = q" using assms(1) unfolding word_unat_eq_iff by (simp add: unsigned_take_bit_eq take_bit_nat_eq_self)
  then have q: "23 \<le> i \<Longrightarrow> \<not> bit q i" for i by (metis bit_take_bit_iff not_le)
  have "take_bit 8 s = s" using assms(2) unfolding word_unat_eq_iff by (simp add: unsigned_take_bit_eq take_bit_nat_eq_self)
  then have s: "8 \<le> i \<Longrightarrow> \<not> bit s i" for i by (metis bit_take_bit_iff not_le)
  have sg: "bit sg i \<longleftrightarrow> sg \<noteq> 0 \<and> i = 23" for i
    using assms(3) bit_23_u32 [of i] by (cases "sg = 0") (simp, metis)
  have m: "(0x007fffff :: u32) = mask 23" by (simp add: mask_eq_exp_minus_1)
  show "drop_bit 24 c = s"
    unfolding c_def by (rule bit_word_eqI) (auto simp: bit_simps q sg, metis not_le s)
  show "c AND 0x007fffff = q"
    unfolding c_def m by (rule bit_word_eqI) (auto simp: bit_simps s sg, metis not_le q)
  have "c AND 0x00800000 = sg"
    unfolding c_def by (rule bit_word_eqI) (auto simp: bit_simps bit_23_int q s sg)
  then show "c AND 0x00800000 \<noteq> 0 \<longleftrightarrow> sg \<noteq> 0" by simp
qed

lemma SetCompact_fields:
  assumes "unat q < 2 ^ 23" "unat s < 2 ^ 8" "sg = 0 \<or> sg = 0x00800000"
  shows "SetCompact (q OR push_bit 24 s OR sg) =
    (let v = int (unat q * 256 ^ (unat s - 3) div 256 ^ (3 - unat s)) in if sg \<noteq> 0 then - v else v)"
proof -
  have p: "(2 :: nat) ^ (8 * k) = 256 ^ k" "(2 :: int) ^ (8 * k) = 256 ^ k" for k by (simp_all add: power_mult)
  have le: "s \<le> 3 \<longleftrightarrow> unat s \<le> 3" by (simp add: word_le_nat_alt)
  have "uint (drop_bit (8 * (3 - unat s)) q) = int (unat q div 256 ^ (3 - unat s))"
    unfolding uint_nat unat_drop_bit p(1) ..
  then show ?thesis
    unfolding SetCompact_def compact_fields [OF assms] Let_def le p(2) by (auto simp: zdiv_int)
qed

lemma carry_bit:
  fixes x :: u32
  assumes "unat x < 2 ^ 24"
  shows "x AND 0x00800000 \<noteq> 0 \<longleftrightarrow> 2 ^ 23 \<le> unat x"
proof -
  have "x AND 0x00800000 = (if bit x 23 then 0x00800000 else 0)"
    by (rule bit_word_eqI) (auto simp: bit_simps bit_23_int)
  moreover have "bit x 23 \<longleftrightarrow> odd (unat x div 2 ^ 23)"
    by (simp only: bit_iff_odd [symmetric]) (simp add: bit_unsigned_iff)
  moreover have "unat x div 2 ^ 23 < 2" using assms by (intro less_mult_imp_div_less) simp
  then have "odd (unat x div 2 ^ 23) \<longleftrightarrow> unat x div 2 ^ 23 = 1" by (metis One_nat_def even_zero less_2_cases odd_one)
  moreover have "unat x div 2 ^ 23 = 1 \<longleftrightarrow> 2 ^ 23 \<le> unat x" using assms by (auto simp: div_nat_eqI intro: ccontr)
  ultimately show ?thesis by auto
qed

lemma GetCompact_fields:
  fixes n :: int
  defines "m \<equiv> nat \<bar>n\<bar>"
  defines "s \<equiv> nat_bytes m"
  defines "q \<equiv> m * 256 ^ (3 - s) div 256 ^ (s - 3)"
  assumes "s \<le> 254"
  shows "q < 2 ^ 24" and "\<exists>q' s'. GetCompact n = q' OR push_bit 24 s' OR (if n < 0 then 0x00800000 else 0) \<and>
    unat q' = (if 2 ^ 23 \<le> q then q div 256 else q) \<and> unat s' = (if 2 ^ 23 \<le> q then s + 1 else s)"
proof -
  have m: "m < 256 ^ s" using nat_bytes_bounds [of m] by (simp add: s_def)
  show q: "q < 2 ^ 24"
  proof (cases "s \<le> 3")
    case True
    then have "m * 256 ^ (3 - s) < 256 ^ s * 256 ^ (3 - s)" using m by simp
    also have "\<dots> = 256 ^ 3" using True by (simp flip: power_add)
    finally show ?thesis using True by (simp add: q_def)
  next
    case False
    then have "(256 :: nat) ^ s = 256 ^ 3 * 256 ^ (s - 3)" by (metis le_add_diff_inverse nat_le_linear power_add)
    with m have "m div 256 ^ (s - 3) < 256 ^ 3" by (intro less_mult_imp_div_less) simp
    with False show ?thesis by (simp add: q_def)
  qed
  define w :: u32 where "w = of_nat q"
  have w: "unat w = q" using q by (simp add: w_def unat_of_nat)
  define z :: u32 where "z = of_nat s"
  have z: "unat z = s" using \<open>s \<le> 254\<close> by (simp add: z_def unat_of_nat)
  have p: "(2 :: nat) ^ (8 * k) = 256 ^ k" "(2 :: int) ^ (8 * k) = 256 ^ k" for k by (simp_all add: power_mult)
  have small: "ucast (push_bit (8 * (3 - s)) (BN_get_word n)) = w" if "s \<le> 3"
  proof -
    have le: "(256 :: nat) ^ s \<le> 256 ^ 3" using that by (intro power_increasing) auto
    with m have "int m < 2 ^ 64" by simp
    then have "BN_get_word n = of_nat m" by (simp add: BN_get_word_def m_def)
    moreover have "unat (of_nat m :: u64) = m" using le m by (simp add: unat_of_nat)
    ultimately have "unat (push_bit (8 * (3 - s)) (BN_get_word n)) = m * 256 ^ (3 - s) mod 2 ^ 64"
      by (simp add: unsigned_push_bit_eq p(1) [symmetric] take_bit_eq_mod)
        (simp add: push_bit_eq_mult p(1))
    also have "\<dots> = q" using q that by (simp add: q_def)
    finally have "unat (ucast (push_bit (8 * (3 - s)) (BN_get_word n)) :: u32) = q"
      using q by (simp add: unsigned_ucast_eq take_bit_nat_eq_self)
    with w show ?thesis by (simp add: word_unat_eq_iff)
  qed
  have large: "ucast (BN_get_word (BN_rshift n (8 * (s - 3)))) = w" if "\<not> s \<le> 3"
  proof -
    have "\<bar>n\<bar> div 256 ^ (s - 3) = int q" using that by (simp add: q_def m_def zdiv_int)
    then have "\<bar>BN_rshift n (8 * (s - 3))\<bar> = int q" by (cases "n = 0") (simp_all add: BN_rshift_def p(2) abs_mult)
    then have "BN_get_word (BN_rshift n (8 * (s - 3))) = of_nat q" using q by (simp add: BN_get_word_def)
    then show ?thesis using q
      by (simp add: w_def word_unat_eq_iff unsigned_ucast_eq take_bit_nat_eq_self unat_of_nat)
  qed
  have le: "z \<le> 3 \<longleftrightarrow> s \<le> 3" using z by (simp add: word_le_nat_alt)
  have "GetCompact n =
    (let (q', s') = (if w AND 0x00800000 \<noteq> 0 then (drop_bit 8 w, z + 1) else (w, z))
     in q' OR push_bit 24 s' OR (if n < 0 then 0x00800000 else 0))"
    unfolding GetCompact_def Let_def BN_num_bytes_def m_def [symmetric] s_def [symmetric] z_def [symmetric] le z
    using small large by simp
  moreover have "unat (drop_bit 8 w) = q div 256" by (simp add: unat_drop_bit w del: drop_bit_eq_div)
  moreover have "unat (z + 1) = s + 1" using z \<open>s \<le> 254\<close> by (subst unat_Suc_word') auto
  ultimately show "\<exists>q' s'. GetCompact n = q' OR push_bit 24 s' OR (if n < 0 then 0x00800000 else 0) \<and>
    unat q' = (if 2 ^ 23 \<le> q then q div 256 else q) \<and> unat s' = (if 2 ^ 23 \<le> q then s + 1 else s)"
    using w z q carry_bit [of w] by (cases "2 ^ 23 \<le> q") auto
qed

lemma compact_precise:
  assumes "BN_num_bytes n \<le> 254"
  shows "\<exists>k. SetCompact (GetCompact n) = sgn n * int (nat \<bar>n\<bar> div 256 ^ k * 256 ^ k) \<and>
    (k = 0 \<or> 2 ^ 15 * 256 ^ k \<le> nat \<bar>n\<bar>)"
proof -
  define m s where ms: "m = nat \<bar>n\<bar>" "s = nat_bytes m"
  have s: "s \<le> 254" using assms by (simp add: BN_num_bytes_def ms)
  have m: "256 ^ (s - 1) \<le> m" if "s \<noteq> 0" using nat_bytes_bounds(2) [of m] that by (cases "m = 0") (auto simp: ms)
  define q where "q = m * 256 ^ (3 - s) div 256 ^ (s - 3)"
  obtain q' s' where g: "GetCompact n = q' OR push_bit 24 s' OR (if n < 0 then 0x00800000 else 0)"
    "unat q' = (if 2 ^ 23 \<le> q then q div 256 else q)" "unat s' = (if 2 ^ 23 \<le> q then s + 1 else s)" and q: "q < 2 ^ 24"
    using GetCompact_fields [of n] s unfolding ms(1) [symmetric] ms(2) [symmetric] q_def [symmetric] by blast
  have "q div 256 < 2 ^ 16" using q by simp
  then have q': "unat q' < 2 ^ 23" using g(2) by simp
  have s': "unat s' < 2 ^ 8" using g(3) s by simp
  define k v where "k = (if 2 ^ 23 \<le> q then s - 2 else s - 3)"
    and "v = unat q' * 256 ^ (unat s' - 3) div 256 ^ (3 - unat s')"
  have "SetCompact (GetCompact n) = sgn n * int v"
  proof (cases "n = 0")
    case True
    then have "m = 0" by (simp add: ms)
    then have "v = 0" using g(2) by (simp add: v_def q_def)
    then show ?thesis unfolding g(1) using True by (subst SetCompact_fields [OF q' s']) (simp_all add: v_def)
  next
    case False
    then show ?thesis unfolding g(1) by (subst SetCompact_fields [OF q' s']) (simp_all add: v_def sgn_if)
  qed
  moreover have "v = m div 256 ^ k * 256 ^ k \<and> (k = 0 \<or> 2 ^ 15 * 256 ^ k \<le> m)"
  proof (cases "s \<le> 3")
    case True
    then consider "s = 0" | "s = 1" | "s = 2" | "s = 3" by linarith
    moreover have "m = 0" if "s = 0" using that nat_bytes_bounds(1) [of m] by (simp add: ms)
    ultimately show ?thesis by cases (auto simp: v_def k_def q_def g(2,3))
  next
    case False
    then obtain j where j: "s = j + 4" by (intro that [of "s - 4"]) simp
    have e: "q = m div 256 ^ (j + 1)" by (simp add: q_def j)
    show ?thesis
    proof (cases "2 ^ 23 \<le> q")
      case True
      then have "2 ^ 23 * 256 ^ (j + 1) \<le> m div 256 ^ (j + 1) * 256 ^ (j + 1)" unfolding e by (rule mult_right_mono) simp
      also have "\<dots> \<le> m" by (rule div_times_less_eq_dividend)
      finally have "2 ^ 15 * 256 ^ (j + 2) \<le> m" by simp
      moreover have "q div 256 = m div 256 ^ (j + 2)"
        unfolding e by (simp only: div_mult2_eq [symmetric]) (simp add: mult.commute)
      ultimately show ?thesis using True by (simp add: v_def k_def g(2,3) j)
    next
      case False
      have "(2 :: nat) ^ 15 * 256 ^ (j + 1) \<le> 256 ^ (j + 3)" by (simp add: power_add)
      also have "\<dots> \<le> m" using m j by (simp add: add.commute)
      finally show ?thesis using False by (simp add: v_def k_def g(2,3) j e)
    qed
  qed
  ultimately show ?thesis unfolding ms(1) by metis
qed

section \<open>Properties\<close>

text \<open>C39: machine integers of either sign, the little-endian sign-magnitude byte vectors of scripts and
  256-bit numbers become a \<open>CBigNum\<close> of the same value and come back: \<open>getint\<close> saturates, and a vector
  is given back unchanged exactly when it has no superfluous byte.\<close>

theorem bignum_conversions:
  assumes "bignum_ok ssl" "\<bar>n\<bar> < 256 ^ 1000" "length v \<le> 1000" "length u = 8"
  shows "CBigNum_of_long ssl sn = sint sn \<and> setint64 ssl sn = sint sn \<and> setuint64 ssl un = uint un \<and>
    getint n = (if n > INT_MAX then INT_MAX else if n < - INT_MAX then INT_MIN else n) \<and>
    setvch ssl (getvch ssl n) = n \<and>
    (getvch ssl (setvch ssl v) = v \<longleftrightarrow> mpi_minimal (rev v)) \<and>
    getuint256 ssl (setuint256 ssl u) = u"
proof -
  have "CBigNum_of_long ssl sn = sint sn"
  proof (cases "sn <s 0")
    case True
    then show ?thesis using setint64_value [OF assms(1)] by (simp add: CBigNum_of_long_def flip: signed.not_less)
  next
    case False
    then show ?thesis using sint_abs(2) [OF False] by (simp add: CBigNum_of_long_def setulong_def signed.not_less)
  qed
  then show ?thesis
    using assms by (simp add: setint64_value setuint64_value getint_value setvch_getvch getvch_setvch getuint256_setuint256)
qed

theorem bignum_conversions_witness:
  "getvch sample_ssl (setvch sample_ssl [0xE8, 0x83]) = [0xE8, 0x83] \<and>
   setvch sample_ssl [0xE8, 0x83] = - 1000 \<and>
   getvch sample_ssl (setvch sample_ssl [0x80]) \<noteq> [0x80] \<and> setint64 sample_ssl (- 5) = - 5"
proof -
  have b: "bit (0x83 :: byte) 7" "bit (0x80 :: byte) 7" by code_simp+
  have "setvch sample_ssl [0xE8, 0x83] = - 1000"
    using b setvch_value [OF sample_bignum_ok, of "[0xE8, 0x83]"] by simp
  then show ?thesis
    using b bignum_conversions [OF sample_bignum_ok, of 0 "[0xE8, 0x83]" "replicate 8 0" "- 5" 0]
      bignum_conversions [OF sample_bignum_ok, of 0 "[0x80]" "replicate 8 0" "- 5" 0]
    by simp
qed

text \<open>The compact form of a number of at most 254 bytes is that number with its low bytes cleared, and
  at least fifteen leading bits are kept.\<close>

theorem compact_precision:
  assumes "BN_num_bytes n \<le> 254"
  shows "\<exists>k. SetCompact (GetCompact n) = sgn n * int (nat \<bar>n\<bar> div 256 ^ k * 256 ^ k) \<and>
    (k = 0 \<or> 2 ^ 15 * 256 ^ k \<le> nat \<bar>n\<bar>)"
  using assms by (rule compact_precise)

theorem compact_precision_witness:
  "\<exists>k. SetCompact (GetCompact 0x1234560000) = sgn 0x1234560000 * int (nat \<bar>0x1234560000\<bar> div 256 ^ k * 256 ^ k) \<and>
    (k = 0 \<or> 2 ^ 15 * 256 ^ k \<le> nat \<bar>0x1234560000 :: int\<bar>)"
  by (rule compact_precision) (simp add: BN_num_bytes_def nat_bytes_pos)

end
