(* ===== verification/Opcodes.thy ===== *)
theory Opcodes
  imports Prelude
begin

text \<open>
  The opcodes of scripts (\<open>enum opcodetype\<close> in \<open>src/src/lib/core/script.h\<close>) and their names
  (\<open>GetOpName\<close> in \<open>script.cpp\<close>). The sources cast every byte to \<open>opcodetype\<close>, so an opcode is a byte.
\<close>

type_synonym opcodetype = byte

section \<open>Values\<close>

abbreviation OP_0 :: opcodetype where "OP_0 \<equiv> 0x00"
abbreviation OP_FALSE :: opcodetype where "OP_FALSE \<equiv> OP_0"
abbreviation OP_PUSHDATA1 :: opcodetype where "OP_PUSHDATA1 \<equiv> 0x4c"
abbreviation OP_PUSHDATA2 :: opcodetype where "OP_PUSHDATA2 \<equiv> 0x4d"
abbreviation OP_PUSHDATA4 :: opcodetype where "OP_PUSHDATA4 \<equiv> 0x4e"
abbreviation OP_1NEGATE :: opcodetype where "OP_1NEGATE \<equiv> 0x4f"
abbreviation OP_RESERVED :: opcodetype where "OP_RESERVED \<equiv> 0x50"
abbreviation OP_1 :: opcodetype where "OP_1 \<equiv> 0x51"
abbreviation OP_TRUE :: opcodetype where "OP_TRUE \<equiv> OP_1"
abbreviation OP_2 :: opcodetype where "OP_2 \<equiv> 0x52"
abbreviation OP_3 :: opcodetype where "OP_3 \<equiv> 0x53"
abbreviation OP_4 :: opcodetype where "OP_4 \<equiv> 0x54"
abbreviation OP_5 :: opcodetype where "OP_5 \<equiv> 0x55"
abbreviation OP_6 :: opcodetype where "OP_6 \<equiv> 0x56"
abbreviation OP_7 :: opcodetype where "OP_7 \<equiv> 0x57"
abbreviation OP_8 :: opcodetype where "OP_8 \<equiv> 0x58"
abbreviation OP_9 :: opcodetype where "OP_9 \<equiv> 0x59"
abbreviation OP_10 :: opcodetype where "OP_10 \<equiv> 0x5a"
abbreviation OP_11 :: opcodetype where "OP_11 \<equiv> 0x5b"
abbreviation OP_12 :: opcodetype where "OP_12 \<equiv> 0x5c"
abbreviation OP_13 :: opcodetype where "OP_13 \<equiv> 0x5d"
abbreviation OP_14 :: opcodetype where "OP_14 \<equiv> 0x5e"
abbreviation OP_15 :: opcodetype where "OP_15 \<equiv> 0x5f"
abbreviation OP_16 :: opcodetype where "OP_16 \<equiv> 0x60"
abbreviation OP_NOP :: opcodetype where "OP_NOP \<equiv> 0x61"
abbreviation OP_VER :: opcodetype where "OP_VER \<equiv> 0x62"
abbreviation OP_IF :: opcodetype where "OP_IF \<equiv> 0x63"
abbreviation OP_NOTIF :: opcodetype where "OP_NOTIF \<equiv> 0x64"
abbreviation OP_VERIF :: opcodetype where "OP_VERIF \<equiv> 0x65"
abbreviation OP_VERNOTIF :: opcodetype where "OP_VERNOTIF \<equiv> 0x66"
abbreviation OP_ELSE :: opcodetype where "OP_ELSE \<equiv> 0x67"
abbreviation OP_ENDIF :: opcodetype where "OP_ENDIF \<equiv> 0x68"
abbreviation OP_VERIFY :: opcodetype where "OP_VERIFY \<equiv> 0x69"
abbreviation OP_RETURN :: opcodetype where "OP_RETURN \<equiv> 0x6a"
abbreviation OP_TOALTSTACK :: opcodetype where "OP_TOALTSTACK \<equiv> 0x6b"
abbreviation OP_FROMALTSTACK :: opcodetype where "OP_FROMALTSTACK \<equiv> 0x6c"
abbreviation OP_2DROP :: opcodetype where "OP_2DROP \<equiv> 0x6d"
abbreviation OP_2DUP :: opcodetype where "OP_2DUP \<equiv> 0x6e"
abbreviation OP_3DUP :: opcodetype where "OP_3DUP \<equiv> 0x6f"
abbreviation OP_2OVER :: opcodetype where "OP_2OVER \<equiv> 0x70"
abbreviation OP_2ROT :: opcodetype where "OP_2ROT \<equiv> 0x71"
abbreviation OP_2SWAP :: opcodetype where "OP_2SWAP \<equiv> 0x72"
abbreviation OP_IFDUP :: opcodetype where "OP_IFDUP \<equiv> 0x73"
abbreviation OP_DEPTH :: opcodetype where "OP_DEPTH \<equiv> 0x74"
abbreviation OP_DROP :: opcodetype where "OP_DROP \<equiv> 0x75"
abbreviation OP_DUP :: opcodetype where "OP_DUP \<equiv> 0x76"
abbreviation OP_NIP :: opcodetype where "OP_NIP \<equiv> 0x77"
abbreviation OP_OVER :: opcodetype where "OP_OVER \<equiv> 0x78"
abbreviation OP_PICK :: opcodetype where "OP_PICK \<equiv> 0x79"
abbreviation OP_ROLL :: opcodetype where "OP_ROLL \<equiv> 0x7a"
abbreviation OP_ROT :: opcodetype where "OP_ROT \<equiv> 0x7b"
abbreviation OP_SWAP :: opcodetype where "OP_SWAP \<equiv> 0x7c"
abbreviation OP_TUCK :: opcodetype where "OP_TUCK \<equiv> 0x7d"
abbreviation OP_CAT :: opcodetype where "OP_CAT \<equiv> 0x7e"
abbreviation OP_SUBSTR :: opcodetype where "OP_SUBSTR \<equiv> 0x7f"
abbreviation OP_LEFT :: opcodetype where "OP_LEFT \<equiv> 0x80"
abbreviation OP_RIGHT :: opcodetype where "OP_RIGHT \<equiv> 0x81"
abbreviation OP_SIZE :: opcodetype where "OP_SIZE \<equiv> 0x82"
abbreviation OP_INVERT :: opcodetype where "OP_INVERT \<equiv> 0x83"
abbreviation OP_AND :: opcodetype where "OP_AND \<equiv> 0x84"
abbreviation OP_OR :: opcodetype where "OP_OR \<equiv> 0x85"
abbreviation OP_XOR :: opcodetype where "OP_XOR \<equiv> 0x86"
abbreviation OP_EQUAL :: opcodetype where "OP_EQUAL \<equiv> 0x87"
abbreviation OP_EQUALVERIFY :: opcodetype where "OP_EQUALVERIFY \<equiv> 0x88"
abbreviation OP_RESERVED1 :: opcodetype where "OP_RESERVED1 \<equiv> 0x89"
abbreviation OP_RESERVED2 :: opcodetype where "OP_RESERVED2 \<equiv> 0x8a"
abbreviation OP_1ADD :: opcodetype where "OP_1ADD \<equiv> 0x8b"
abbreviation OP_1SUB :: opcodetype where "OP_1SUB \<equiv> 0x8c"
abbreviation OP_2MUL :: opcodetype where "OP_2MUL \<equiv> 0x8d"
abbreviation OP_2DIV :: opcodetype where "OP_2DIV \<equiv> 0x8e"
abbreviation OP_NEGATE :: opcodetype where "OP_NEGATE \<equiv> 0x8f"
abbreviation OP_ABS :: opcodetype where "OP_ABS \<equiv> 0x90"
abbreviation OP_NOT :: opcodetype where "OP_NOT \<equiv> 0x91"
abbreviation OP_0NOTEQUAL :: opcodetype where "OP_0NOTEQUAL \<equiv> 0x92"
abbreviation OP_ADD :: opcodetype where "OP_ADD \<equiv> 0x93"
abbreviation OP_SUB :: opcodetype where "OP_SUB \<equiv> 0x94"
abbreviation OP_MUL :: opcodetype where "OP_MUL \<equiv> 0x95"
abbreviation OP_DIV :: opcodetype where "OP_DIV \<equiv> 0x96"
abbreviation OP_MOD :: opcodetype where "OP_MOD \<equiv> 0x97"
abbreviation OP_LSHIFT :: opcodetype where "OP_LSHIFT \<equiv> 0x98"
abbreviation OP_RSHIFT :: opcodetype where "OP_RSHIFT \<equiv> 0x99"
abbreviation OP_BOOLAND :: opcodetype where "OP_BOOLAND \<equiv> 0x9a"
abbreviation OP_BOOLOR :: opcodetype where "OP_BOOLOR \<equiv> 0x9b"
abbreviation OP_NUMEQUAL :: opcodetype where "OP_NUMEQUAL \<equiv> 0x9c"
abbreviation OP_NUMEQUALVERIFY :: opcodetype where "OP_NUMEQUALVERIFY \<equiv> 0x9d"
abbreviation OP_NUMNOTEQUAL :: opcodetype where "OP_NUMNOTEQUAL \<equiv> 0x9e"
abbreviation OP_LESSTHAN :: opcodetype where "OP_LESSTHAN \<equiv> 0x9f"
abbreviation OP_GREATERTHAN :: opcodetype where "OP_GREATERTHAN \<equiv> 0xa0"
abbreviation OP_LESSTHANOREQUAL :: opcodetype where "OP_LESSTHANOREQUAL \<equiv> 0xa1"
abbreviation OP_GREATERTHANOREQUAL :: opcodetype where "OP_GREATERTHANOREQUAL \<equiv> 0xa2"
abbreviation OP_MIN :: opcodetype where "OP_MIN \<equiv> 0xa3"
abbreviation OP_MAX :: opcodetype where "OP_MAX \<equiv> 0xa4"
abbreviation OP_WITHIN :: opcodetype where "OP_WITHIN \<equiv> 0xa5"
abbreviation OP_RIPEMD160 :: opcodetype where "OP_RIPEMD160 \<equiv> 0xa6"
abbreviation OP_SHA1 :: opcodetype where "OP_SHA1 \<equiv> 0xa7"
abbreviation OP_SHA256 :: opcodetype where "OP_SHA256 \<equiv> 0xa8"
abbreviation OP_HASH160 :: opcodetype where "OP_HASH160 \<equiv> 0xa9"
abbreviation OP_HASH256 :: opcodetype where "OP_HASH256 \<equiv> 0xaa"
abbreviation OP_CODESEPARATOR :: opcodetype where "OP_CODESEPARATOR \<equiv> 0xab"
abbreviation OP_CHECKSIG :: opcodetype where "OP_CHECKSIG \<equiv> 0xac"
abbreviation OP_CHECKSIGVERIFY :: opcodetype where "OP_CHECKSIGVERIFY \<equiv> 0xad"
abbreviation OP_CHECKMULTISIG :: opcodetype where "OP_CHECKMULTISIG \<equiv> 0xae"
abbreviation OP_CHECKMULTISIGVERIFY :: opcodetype where "OP_CHECKMULTISIGVERIFY \<equiv> 0xaf"
abbreviation OP_NOP1 :: opcodetype where "OP_NOP1 \<equiv> 0xb0"
abbreviation OP_NOP2 :: opcodetype where "OP_NOP2 \<equiv> 0xb1"
abbreviation OP_NOP3 :: opcodetype where "OP_NOP3 \<equiv> 0xb2"
abbreviation OP_NOP4 :: opcodetype where "OP_NOP4 \<equiv> 0xb3"
abbreviation OP_NOP5 :: opcodetype where "OP_NOP5 \<equiv> 0xb4"
abbreviation OP_NOP6 :: opcodetype where "OP_NOP6 \<equiv> 0xb5"
abbreviation OP_NOP7 :: opcodetype where "OP_NOP7 \<equiv> 0xb6"
abbreviation OP_NOP8 :: opcodetype where "OP_NOP8 \<equiv> 0xb7"
abbreviation OP_NOP9 :: opcodetype where "OP_NOP9 \<equiv> 0xb8"
abbreviation OP_NOP10 :: opcodetype where "OP_NOP10 \<equiv> 0xb9"
abbreviation OP_SMALLDATA :: opcodetype where "OP_SMALLDATA \<equiv> 0xf9"
abbreviation OP_SMALLINTEGER :: opcodetype where "OP_SMALLINTEGER \<equiv> 0xfa"
abbreviation OP_PUBKEYS :: opcodetype where "OP_PUBKEYS \<equiv> 0xfb"
abbreviation OP_PUBKEYHASH :: opcodetype where "OP_PUBKEYHASH \<equiv> 0xfd"
abbreviation OP_PUBKEY :: opcodetype where "OP_PUBKEY \<equiv> 0xfe"
abbreviation OP_INVALIDOPCODE :: opcodetype where "OP_INVALIDOPCODE \<equiv> 0xff"

section \<open>Names\<close>

definition op_names :: "(opcodetype \<times> string) list" where
  "op_names =
     [(OP_0, ''0''),
      (OP_PUSHDATA1, ''OP_PUSHDATA1''),
      (OP_PUSHDATA2, ''OP_PUSHDATA2''),
      (OP_PUSHDATA4, ''OP_PUSHDATA4''),
      (OP_1NEGATE, ''-1''),
      (OP_RESERVED, ''OP_RESERVED''),
      (OP_1, ''1''),
      (OP_2, ''2''),
      (OP_3, ''3''),
      (OP_4, ''4''),
      (OP_5, ''5''),
      (OP_6, ''6''),
      (OP_7, ''7''),
      (OP_8, ''8''),
      (OP_9, ''9''),
      (OP_10, ''10''),
      (OP_11, ''11''),
      (OP_12, ''12''),
      (OP_13, ''13''),
      (OP_14, ''14''),
      (OP_15, ''15''),
      (OP_16, ''16''),
      (OP_NOP, ''OP_NOP''),
      (OP_VER, ''OP_VER''),
      (OP_IF, ''OP_IF''),
      (OP_NOTIF, ''OP_NOTIF''),
      (OP_VERIF, ''OP_VERIF''),
      (OP_VERNOTIF, ''OP_VERNOTIF''),
      (OP_ELSE, ''OP_ELSE''),
      (OP_ENDIF, ''OP_ENDIF''),
      (OP_VERIFY, ''OP_VERIFY''),
      (OP_RETURN, ''OP_RETURN''),
      (OP_TOALTSTACK, ''OP_TOALTSTACK''),
      (OP_FROMALTSTACK, ''OP_FROMALTSTACK''),
      (OP_2DROP, ''OP_2DROP''),
      (OP_2DUP, ''OP_2DUP''),
      (OP_3DUP, ''OP_3DUP''),
      (OP_2OVER, ''OP_2OVER''),
      (OP_2ROT, ''OP_2ROT''),
      (OP_2SWAP, ''OP_2SWAP''),
      (OP_IFDUP, ''OP_IFDUP''),
      (OP_DEPTH, ''OP_DEPTH''),
      (OP_DROP, ''OP_DROP''),
      (OP_DUP, ''OP_DUP''),
      (OP_NIP, ''OP_NIP''),
      (OP_OVER, ''OP_OVER''),
      (OP_PICK, ''OP_PICK''),
      (OP_ROLL, ''OP_ROLL''),
      (OP_ROT, ''OP_ROT''),
      (OP_SWAP, ''OP_SWAP''),
      (OP_TUCK, ''OP_TUCK''),
      (OP_CAT, ''OP_CAT''),
      (OP_SUBSTR, ''OP_SUBSTR''),
      (OP_LEFT, ''OP_LEFT''),
      (OP_RIGHT, ''OP_RIGHT''),
      (OP_SIZE, ''OP_SIZE''),
      (OP_INVERT, ''OP_INVERT''),
      (OP_AND, ''OP_AND''),
      (OP_OR, ''OP_OR''),
      (OP_XOR, ''OP_XOR''),
      (OP_EQUAL, ''OP_EQUAL''),
      (OP_EQUALVERIFY, ''OP_EQUALVERIFY''),
      (OP_RESERVED1, ''OP_RESERVED1''),
      (OP_RESERVED2, ''OP_RESERVED2''),
      (OP_1ADD, ''OP_1ADD''),
      (OP_1SUB, ''OP_1SUB''),
      (OP_2MUL, ''OP_2MUL''),
      (OP_2DIV, ''OP_2DIV''),
      (OP_NEGATE, ''OP_NEGATE''),
      (OP_ABS, ''OP_ABS''),
      (OP_NOT, ''OP_NOT''),
      (OP_0NOTEQUAL, ''OP_0NOTEQUAL''),
      (OP_ADD, ''OP_ADD''),
      (OP_SUB, ''OP_SUB''),
      (OP_MUL, ''OP_MUL''),
      (OP_DIV, ''OP_DIV''),
      (OP_MOD, ''OP_MOD''),
      (OP_LSHIFT, ''OP_LSHIFT''),
      (OP_RSHIFT, ''OP_RSHIFT''),
      (OP_BOOLAND, ''OP_BOOLAND''),
      (OP_BOOLOR, ''OP_BOOLOR''),
      (OP_NUMEQUAL, ''OP_NUMEQUAL''),
      (OP_NUMEQUALVERIFY, ''OP_NUMEQUALVERIFY''),
      (OP_NUMNOTEQUAL, ''OP_NUMNOTEQUAL''),
      (OP_LESSTHAN, ''OP_LESSTHAN''),
      (OP_GREATERTHAN, ''OP_GREATERTHAN''),
      (OP_LESSTHANOREQUAL, ''OP_LESSTHANOREQUAL''),
      (OP_GREATERTHANOREQUAL, ''OP_GREATERTHANOREQUAL''),
      (OP_MIN, ''OP_MIN''),
      (OP_MAX, ''OP_MAX''),
      (OP_WITHIN, ''OP_WITHIN''),
      (OP_RIPEMD160, ''OP_RIPEMD160''),
      (OP_SHA1, ''OP_SHA1''),
      (OP_SHA256, ''OP_SHA256''),
      (OP_HASH160, ''OP_HASH160''),
      (OP_HASH256, ''OP_HASH256''),
      (OP_CODESEPARATOR, ''OP_CODESEPARATOR''),
      (OP_CHECKSIG, ''OP_CHECKSIG''),
      (OP_CHECKSIGVERIFY, ''OP_CHECKSIGVERIFY''),
      (OP_CHECKMULTISIG, ''OP_CHECKMULTISIG''),
      (OP_CHECKMULTISIGVERIFY, ''OP_CHECKMULTISIGVERIFY''),
      (OP_NOP1, ''OP_NOP1''),
      (OP_NOP2, ''OP_NOP2''),
      (OP_NOP3, ''OP_NOP3''),
      (OP_NOP4, ''OP_NOP4''),
      (OP_NOP5, ''OP_NOP5''),
      (OP_NOP6, ''OP_NOP6''),
      (OP_NOP7, ''OP_NOP7''),
      (OP_NOP8, ''OP_NOP8''),
      (OP_NOP9, ''OP_NOP9''),
      (OP_NOP10, ''OP_NOP10''),
      (OP_PUBKEYHASH, ''OP_PUBKEYHASH''),
      (OP_PUBKEY, ''OP_PUBKEY''),
      (OP_SMALLDATA, ''OP_SMALLDATA''),
      (OP_INVALIDOPCODE, ''OP_INVALIDOPCODE'')]"

definition GetOpName :: "opcodetype \<Rightarrow> string" where
  "GetOpName opcode = (case map_of op_names opcode of Some name \<Rightarrow> name | None \<Rightarrow> ''OP_UNKNOWN'')"

end
