(* ===== verification/Script.thy ===== *)
theory Script
  imports Keys Bignum Opcodes
begin

text \<open>
  \<open>src/src/lib/core/script.h\<close> and the parts of \<open>script.cpp\<close> that build, read and classify scripts:
  pushes, instruction decoding, the scanning predicates, the templates of standard outputs,
  destinations, multi-signature scripts and the compact serialization. A script is its bytes; an
  iterator into it is the list of bytes from the iterator on. Scripts are run in theory
  \<open>Interpreter\<close>.
\<close>

type_synonym script = data
type_synonym valtype = data

section \<open>Types\<close>

definition MAX_SCRIPT_ELEMENT_SIZE :: nat where
  "MAX_SCRIPT_ELEMENT_SIZE = 520"

definition MAX_OP_RETURN_RELAY :: nat where
  "MAX_OP_RETURN_RELAY = 40"

datatype txnouttype =
    TX_NONSTANDARD
  | TX_PUBKEY
  | TX_PUBKEYHASH
  | TX_SCRIPTHASH
  | TX_MULTISIG
  | TX_NULL_DATA

fun GetTxnOutputType :: "txnouttype \<Rightarrow> string" where
  "GetTxnOutputType TX_NONSTANDARD = ''nonstandard''"
| "GetTxnOutputType TX_PUBKEY = ''pubkey''"
| "GetTxnOutputType TX_PUBKEYHASH = ''pubkeyhash''"
| "GetTxnOutputType TX_SCRIPTHASH = ''scripthash''"
| "GetTxnOutputType TX_MULTISIG = ''multisig''"
| "GetTxnOutputType TX_NULL_DATA = ''nulldata''"

datatype CTxDestination =
    CNoDestination
  | CKeyID base_uint
  | CScriptID base_uint

section \<open>Building scripts\<close>

text \<open>\<open>operator<<\<close> of a byte vector, an opcode, a hash, a public key and an integer.\<close>

definition push_data :: "script \<Rightarrow> valtype \<Rightarrow> script" where
  "push_data s b =
     (if length b < unat OP_PUSHDATA1 then s @ [of_nat (length b)]
      else if length b \<le> 0xff then s @ [OP_PUSHDATA1] @ [of_nat (length b)]
      else if length b \<le> 0xffff then s @ [OP_PUSHDATA2] @ le_bytes 2 (of_nat (length b) :: u16)
      else s @ [OP_PUSHDATA4] @ le_bytes 4 (of_nat (length b) :: u32)) @ b"

definition push_opcode :: "script \<Rightarrow> opcodetype \<Rightarrow> script" where
  "push_opcode s opcode = s @ [opcode]"

definition push_uint160 :: "script \<Rightarrow> base_uint \<Rightarrow> script" where
  "push_uint160 s b = s @ [20] @ bu_bytes b"

definition push_uint256 :: "script \<Rightarrow> base_uint \<Rightarrow> script" where
  "push_uint256 s b = s @ [32] @ bu_bytes b"

definition push_pubkey :: "script \<Rightarrow> CPubKey \<Rightarrow> script result" where
  "push_pubkey s key =
     rbind (rassert (pk_size key < unat OP_PUSHDATA1)) (\<lambda>_.
       Inr (s @ [of_nat (pk_size key)] @ pk_bytes key))"

definition push_bignum :: "openssl \<Rightarrow> script \<Rightarrow> bignum \<Rightarrow> script" where
  "push_bignum ssl s b = push_data s (getvch ssl b)"

definition push_int64 :: "openssl \<Rightarrow> script \<Rightarrow> 64 word \<Rightarrow> script" where
  "push_int64 ssl s n =
     (if n = - 1 \<or> (1 \<le>s n \<and> n \<le>s 16) then s @ [ucast (n + (ucast OP_1 - 1))]
      else push_data s (getvch ssl (CBigNum_of_long ssl n)))"

definition push_uint64 :: "openssl \<Rightarrow> script \<Rightarrow> u64 \<Rightarrow> script" where
  "push_uint64 ssl s n =
     (if n \<ge> 1 \<and> n \<le> 16 then s @ [ucast (n + (ucast OP_1 - 1))]
      else push_data s (getvch ssl (setulong n)))"

text \<open>\<open>DecodeOP_N\<close> and \<open>EncodeOP_N\<close>.\<close>

definition DecodeOP_N :: "opcodetype \<Rightarrow> int result" where
  "DecodeOP_N opcode =
     (if opcode = OP_0 then Inr 0
      else rbind (rassert (opcode \<ge> OP_1 \<and> opcode \<le> OP_16)) (\<lambda>_. Inr (uint opcode - uint (OP_1 - 1))))"

definition EncodeOP_N :: "int \<Rightarrow> opcodetype result" where
  "EncodeOP_N n =
     rbind (rassert (n \<ge> 0 \<and> n \<le> 16)) (\<lambda>_.
       if n = 0 then Inr OP_0 else Inr (word_of_int (uint OP_1 + n - 1)))"

text \<open>The identifier of a script, the scripts of destinations and multi-signature scripts.\<close>

definition script_GetID :: "openssl \<Rightarrow> script \<Rightarrow> base_uint" where
  "script_GetID ssl s = Hash160 ssl s"

fun SetDestination :: "CTxDestination \<Rightarrow> script" where
  "SetDestination CNoDestination = []"
| "SetDestination (CKeyID keyID) =
     push_opcode (push_opcode (push_uint160 (push_opcode (push_opcode [] OP_DUP) OP_HASH160) keyID)
       OP_EQUALVERIFY) OP_CHECKSIG"
| "SetDestination (CScriptID scriptID) =
     push_opcode (push_uint160 (push_opcode [] OP_HASH160) scriptID) OP_EQUAL"

definition SetMultisig :: "int \<Rightarrow> CPubKey list \<Rightarrow> script result" where
  "SetMultisig nRequired keys =
     rbind (EncodeOP_N nRequired) (\<lambda>m.
     rbind (rfold (\<lambda>key s. push_pubkey s key) keys (push_opcode [] m)) (\<lambda>s.
     rbind (EncodeOP_N (int_of_size (length keys))) (\<lambda>n.
       Inr (push_opcode (push_opcode s n) OP_CHECKMULTISIG))))"

definition PushAll :: "valtype list \<Rightarrow> script" where
  "PushAll values = foldl push_data [] values"

section \<open>Reading instructions\<close>

text \<open>
  \<open>GetOp2\<close> returns whether it succeeded, the opcode, the operand and where the iterator stands,
  which on failure may be past the opcode and the length.
\<close>

definition push_size :: "opcodetype \<Rightarrow> data \<Rightarrow> (u32 \<times> data) option" where
  "push_size opcode pc =
     (if opcode < OP_PUSHDATA1 then Some (ucast opcode, pc)
      else if opcode = OP_PUSHDATA1 then
        (if length pc < 1 then None else Some (ucast (hd pc), tl pc))
      else if opcode = OP_PUSHDATA2 then
        (if length pc < 2 then None else Some (le_word (take 2 pc), drop 2 pc))
      else
        (if length pc < 4 then None else Some (le_word (take 4 pc), drop 4 pc)))"

definition GetOp2 :: "data \<Rightarrow> bool \<times> opcodetype \<times> valtype \<times> data" where
  "GetOp2 pc =
     (case pc of
        [] \<Rightarrow> (False, OP_INVALIDOPCODE, [], [])
      | opcode # pc \<Rightarrow>
          if opcode \<le> OP_PUSHDATA4 then
            (case push_size opcode pc of
               None \<Rightarrow> (False, OP_INVALIDOPCODE, [], pc)
             | Some (nSize, pc) \<Rightarrow>
                 if of_nat (length pc) < nSize then (False, OP_INVALIDOPCODE, [], pc)
                 else (True, opcode, take (unat nSize) pc, drop (unat nSize) pc))
          else (True, opcode, [], pc))"

lemma GetOp2_shorter: "GetOp2 pc = (True, opcode, vch, pc') \<Longrightarrow> length pc' < length pc"
  by (auto simp: GetOp2_def push_size_def split: list.splits if_splits option.splits)

lemma GetOp2_shorter': "(True, opcode, vch, pc') = GetOp2 pc \<Longrightarrow> length pc' < length pc"
  by (metis GetOp2_shorter)

text \<open>\<open>Find\<close> and the predicates, one instruction after the other.\<close>

function Find_loop :: "opcodetype \<Rightarrow> data \<Rightarrow> int \<Rightarrow> int" where
  "Find_loop op pc nFound =
     (if pc \<noteq> [] then
        (case GetOp2 pc of
           (True, opcode, vch, pc') \<Rightarrow> Find_loop op pc' (if opcode = op then nFound + 1 else nFound)
         | (False, opcode, vch, pc') \<Rightarrow> nFound)
      else nFound)"
  by pat_completeness auto
termination by (relation "measure (\<lambda>(op, pc, n). length pc)") (auto dest: GetOp2_shorter')

definition Find :: "script \<Rightarrow> opcodetype \<Rightarrow> int" where
  "Find s op = Find_loop op s 0"

text \<open>\<open>FindAndDelete\<close>: the inner loop removes occurrences at the iterator, the outer one steps on.\<close>

function strip_prefix :: "script \<Rightarrow> data \<Rightarrow> int \<Rightarrow> data \<times> int" where
  "strip_prefix b pc nFound =
     (if b \<noteq> [] \<and> length pc \<ge> length b \<and> take (length b) pc = b
      then strip_prefix b (drop (length b) pc) (nFound + 1) else (pc, nFound))"
  by pat_completeness auto
termination
proof (relation "measure (\<lambda>(b, pc, n). length pc)", goal_cases)
  case (2 b pc n)
  then have "b \<noteq> []" "length b \<le> length pc" by blast+
  then show ?case by (cases b) auto
qed simp

declare strip_prefix.simps [simp del]

lemma strip_prefix_shorter: "length (fst (strip_prefix b pc n)) \<le> length pc"
proof (induction b pc n rule: strip_prefix.induct)
  case (1 b pc n)
  then show ?case by (subst strip_prefix.simps) (auto intro: le_trans)
qed

function FindAndDelete_loop :: "script \<Rightarrow> data \<Rightarrow> int \<Rightarrow> data \<times> int" where
  "FindAndDelete_loop b pc nFound =
     (let (pc, nFound) = strip_prefix b pc nFound
      in case GetOp2 pc of
           (True, opcode, vch, pc') \<Rightarrow>
             let (rest, nFound) = FindAndDelete_loop b pc' nFound
             in (take (length pc - length pc') pc @ rest, nFound)
         | (False, opcode, vch, pc') \<Rightarrow> (pc, nFound))"
  by pat_completeness auto
termination
proof (relation "measure (\<lambda>(b, pc, n). length pc)", goal_cases)
  case (2 b pc n s pc1 n1 g d opcode e vch pc')
  then have "length pc' < length pc1" using GetOp2_shorter [of pc1 opcode vch pc'] by auto
  moreover have "length pc1 \<le> length pc" using 2(1,2) strip_prefix_shorter [of b pc n] by (metis fst_conv)
  ultimately show ?case by simp
qed simp

definition FindAndDelete :: "script \<Rightarrow> script \<Rightarrow> script \<times> int" where
  "FindAndDelete s b = (if b = [] then (s, 0) else FindAndDelete_loop b s 0)"

definition IsPayToScriptHash :: "script \<Rightarrow> bool" where
  "IsPayToScriptHash s \<longleftrightarrow>
     length s = 23 \<and> s ! 0 = OP_HASH160 \<and> s ! 1 = 0x14 \<and> s ! 22 = OP_EQUAL"

definition IsUnspendable :: "script \<Rightarrow> bool" where
  "IsUnspendable s \<longleftrightarrow> length s > 0 \<and> hd s = OP_RETURN"

function IsPushOnly :: "script \<Rightarrow> bool" where
  "IsPushOnly pc =
     (if pc \<noteq> [] then
        (case GetOp2 pc of
           (True, opcode, vch, pc') \<Rightarrow> if opcode > OP_16 then False else IsPushOnly pc'
         | (False, opcode, vch, pc') \<Rightarrow> False)
      else True)"
  by pat_completeness auto
termination by (relation "measure length") (auto dest: GetOp2_shorter')

definition canonical_push :: "opcodetype \<Rightarrow> valtype \<Rightarrow> bool" where
  "canonical_push opcode dat \<longleftrightarrow>
     \<not> (opcode < OP_PUSHDATA1 \<and> opcode > OP_0 \<and> (length dat = 1 \<and> hd dat \<le> 16)) \<and>
     \<not> (opcode = OP_PUSHDATA1 \<and> length dat < unat OP_PUSHDATA1) \<and>
     \<not> (opcode = OP_PUSHDATA2 \<and> length dat \<le> 0xFF) \<and>
     \<not> (opcode = OP_PUSHDATA4 \<and> length dat \<le> 0xFFFF)"

function HasCanonicalPushes :: "script \<Rightarrow> bool" where
  "HasCanonicalPushes pc =
     (if pc \<noteq> [] then
        (case GetOp2 pc of
           (True, opcode, dat, pc') \<Rightarrow>
             if opcode > OP_16 then HasCanonicalPushes pc'
             else if \<not> canonical_push opcode dat then False
             else HasCanonicalPushes pc'
         | (False, opcode, dat, pc') \<Rightarrow> False)
      else True)"
  by pat_completeness auto
termination by (relation "measure length") (auto dest: GetOp2_shorter')

declare Find_loop.simps [simp del] FindAndDelete_loop.simps [simp del]
  IsPushOnly.simps [simp del] HasCanonicalPushes.simps [simp del]

text \<open>\<open>GetSigOpCount\<close>: of one script, and of the script that a pay-to-script-hash input pushes last.\<close>

function GetSigOpCount_loop :: "bool \<Rightarrow> opcodetype \<Rightarrow> data \<Rightarrow> u32 \<Rightarrow> u32 result" where
  "GetSigOpCount_loop fAccurate lastOpcode pc n =
     (if pc \<noteq> [] then
        (case GetOp2 pc of
           (True, opcode, vch, pc') \<Rightarrow>
             rbind
               (if opcode = OP_CHECKSIG \<or> opcode = OP_CHECKSIGVERIFY then Inr (n + 1)
                else if opcode = OP_CHECKMULTISIG \<or> opcode = OP_CHECKMULTISIGVERIFY then
                  if fAccurate \<and> lastOpcode \<ge> OP_1 \<and> lastOpcode \<le> OP_16
                  then rbind (DecodeOP_N lastOpcode) (\<lambda>k. Inr (n + word_of_int k))
                  else Inr (n + 20)
                else Inr n)
               (\<lambda>n. GetSigOpCount_loop fAccurate opcode pc' n)
         | (False, opcode, vch, pc') \<Rightarrow> Inr n)
      else Inr n)"
  by pat_completeness auto
termination
  by (relation "measure (\<lambda>(fAccurate, lastOpcode, pc, n). length pc)") (auto dest: GetOp2_shorter')

definition GetSigOpCount :: "script \<Rightarrow> bool \<Rightarrow> u32 result" where
  "GetSigOpCount s fAccurate = GetSigOpCount_loop fAccurate OP_INVALIDOPCODE s 0"

function last_push :: "data \<Rightarrow> valtype \<Rightarrow> valtype option" where
  "last_push pc dat =
     (if pc \<noteq> [] then
        (case GetOp2 pc of
           (True, opcode, dat, pc') \<Rightarrow> if opcode > OP_16 then None else last_push pc' dat
         | (False, opcode, dat, pc') \<Rightarrow> None)
      else Some dat)"
  by pat_completeness auto
termination by (relation "measure (\<lambda>(pc, dat). length pc)") (auto dest: GetOp2_shorter')

definition GetSigOpCount_P2SH :: "script \<Rightarrow> script \<Rightarrow> u32 result" where
  "GetSigOpCount_P2SH s scriptSig =
     (if \<not> IsPayToScriptHash s then GetSigOpCount s True
      else case last_push scriptSig [] of
             None \<Rightarrow> Inr 0
           | Some dat \<Rightarrow> GetSigOpCount dat True)"

declare GetSigOpCount_loop.simps [simp del] last_push.simps [simp del]

section \<open>Standard outputs\<close>

text \<open>
  The templates in the order of the \<open>multimap\<close>. \<open>pubkeys_loop\<close> is the loop for \<open>OP_PUBKEYS\<close>;
  \<open>match_op\<close> compares one instruction with one template opcode and gives the solutions found.
\<close>

definition mTemplates :: "(txnouttype \<times> script) list" where
  "mTemplates =
     [(TX_PUBKEY, [OP_PUBKEY, OP_CHECKSIG]),
      (TX_PUBKEYHASH, [OP_DUP, OP_HASH160, OP_PUBKEYHASH, OP_EQUALVERIFY, OP_CHECKSIG]),
      (TX_MULTISIG, [OP_SMALLINTEGER, OP_PUBKEYS, OP_SMALLINTEGER, OP_CHECKMULTISIG]),
      (TX_NULL_DATA, [OP_RETURN, OP_SMALLDATA]),
      (TX_NULL_DATA, [OP_RETURN])]"

function pubkeys_loop ::
    "opcodetype \<Rightarrow> valtype \<Rightarrow> data \<Rightarrow> valtype list \<Rightarrow> opcodetype \<times> valtype \<times> data \<times> valtype list" where
  "pubkeys_loop opcode1 vch1 pc1 vSolutions =
     (if length vch1 \<ge> 33 \<and> length vch1 \<le> 65 then
        (case GetOp2 pc1 of
           (True, opcode1, vch1', pc1') \<Rightarrow> pubkeys_loop opcode1 vch1' pc1' (vSolutions @ [vch1])
         | (False, opcode1, vch1', pc1') \<Rightarrow> (opcode1, vch1', pc1', vSolutions @ [vch1]))
      else (opcode1, vch1, pc1, vSolutions))"
  by pat_completeness auto
termination
  by (relation "measure (\<lambda>(opcode1, vch1, pc1, vSolutions). length pc1)") (auto dest: GetOp2_shorter')

declare pubkeys_loop.simps [simp del]

lemma pubkeys_loop_shorter:
  "length (fst (snd (snd (pubkeys_loop opcode1 vch1 pc1 vSolutions)))) \<le> length pc1"
proof (induction opcode1 vch1 pc1 vSolutions rule: pubkeys_loop.induct)
  case (1 opcode1 vch1 pc1 vSolutions)
  have "GetOp2 pc1 = (b, o', v', pc') \<Longrightarrow> length pc' \<le> length pc1" for b o' v' pc'
    by (auto simp: GetOp2_def push_size_def split: list.splits if_splits option.splits)
  with 1 show ?case
    by (subst pubkeys_loop.simps) (fastforce split: prod.split bool.split)
qed

definition match_op ::
    "opcodetype \<Rightarrow> valtype \<Rightarrow> opcodetype \<Rightarrow> valtype \<Rightarrow> valtype list \<Rightarrow> valtype list option" where
  "match_op opcode1 vch1 opcode2 vch2 vSolutions =
     (if opcode2 = OP_PUBKEY then
        (if length vch1 < 33 \<or> length vch1 > 65 then None else Some (vSolutions @ [vch1]))
      else if opcode2 = OP_PUBKEYHASH then
        (if length vch1 \<noteq> 20 then None else Some (vSolutions @ [vch1]))
      else if opcode2 = OP_SMALLINTEGER then
        (if opcode1 = OP_0 \<or> (opcode1 \<ge> OP_1 \<and> opcode1 \<le> OP_16)
         then Some (vSolutions @ [[if opcode1 = OP_0 then 0 else opcode1 - (OP_1 - 1)]])
         else None)
      else if opcode2 = OP_SMALLDATA then
        (if length vch1 > MAX_OP_RETURN_RELAY then None else Some vSolutions)
      else if opcode1 \<noteq> opcode2 \<or> vch1 \<noteq> vch2 then None
      else Some vSolutions)"

function match_loop :: "data \<Rightarrow> data \<Rightarrow> valtype list \<Rightarrow> valtype list option" where
  "match_loop pc1 pc2 vSolutions =
     (if pc1 = [] \<and> pc2 = [] then Some vSolutions
      else
        case GetOp2 pc1 of
          (False, opcode1, vch1, pc1') \<Rightarrow> None
        | (True, opcode1, vch1, pc1') \<Rightarrow>
        case GetOp2 pc2 of
          (False, opcode2, vch2, pc2') \<Rightarrow> None
        | (True, opcode2, vch2, pc2') \<Rightarrow>
        if opcode2 = OP_PUBKEYS then
          let (opcode1, vch1, pc1'', vSolutions) = pubkeys_loop opcode1 vch1 pc1' vSolutions
          in case GetOp2 pc2' of
               (False, opcode2, vch2, pc2'') \<Rightarrow> None
             | (True, opcode2, vch2, pc2'') \<Rightarrow>
                 (case match_op opcode1 vch1 opcode2 vch2 vSolutions of
                    None \<Rightarrow> None
                  | Some vSolutions \<Rightarrow> match_loop pc1'' pc2'' vSolutions)
        else
          (case match_op opcode1 vch1 opcode2 vch2 vSolutions of
             None \<Rightarrow> None
           | Some vSolutions \<Rightarrow> match_loop pc1' pc2' vSolutions))"
  by pat_completeness auto
termination
  by (relation "measure (\<lambda>(pc1, pc2, vSolutions). length pc2)")
    (auto dest!: GetOp2_shorter' dest: less_trans)

declare match_loop.simps [simp del]

definition multisig_ok :: "valtype list \<Rightarrow> bool" where
  "multisig_ok vSolutions =
     (let m = hd (hd vSolutions); n = hd (last vSolutions)
      in \<not> (m < 1 \<or> n < 1 \<or> m > n \<or> length vSolutions - 2 \<noteq> unat n))"

fun Solver_scan :: "(txnouttype \<times> script) list \<Rightarrow> script \<Rightarrow> bool \<times> txnouttype \<times> valtype list" where
  "Solver_scan [] script1 = (False, TX_NONSTANDARD, [])"
| "Solver_scan (tplate # ts) script1 =
     (case match_loop script1 (snd tplate) [] of
        None \<Rightarrow> Solver_scan ts script1
      | Some vSolutions \<Rightarrow>
          if fst tplate = TX_MULTISIG \<and> \<not> multisig_ok vSolutions
          then (False, fst tplate, vSolutions)
          else (True, fst tplate, vSolutions))"

definition Solver :: "script \<Rightarrow> bool \<times> txnouttype \<times> valtype list" where
  "Solver scriptPubKey =
     (if IsPayToScriptHash scriptPubKey then (True, TX_SCRIPTHASH, [take 20 (drop 2 scriptPubKey)])
      else Solver_scan mTemplates scriptPubKey)"

definition ScriptSigArgsExpected :: "txnouttype \<Rightarrow> valtype list \<Rightarrow> int" where
  "ScriptSigArgsExpected t vSolutions =
     (case t of
        TX_NONSTANDARD \<Rightarrow> - 1
      | TX_NULL_DATA \<Rightarrow> - 1
      | TX_PUBKEY \<Rightarrow> 1
      | TX_PUBKEYHASH \<Rightarrow> 2
      | TX_MULTISIG \<Rightarrow>
          if length vSolutions < 1 \<or> length (vSolutions ! 0) < 1 then - 1
          else uint (vSolutions ! 0 ! 0) + 1
      | TX_SCRIPTHASH \<Rightarrow> 1)"

definition IsStandard :: "script \<Rightarrow> bool \<times> txnouttype" where
  "IsStandard scriptPubKey =
     (let (ok, whichType, vSolutions) = Solver scriptPubKey
      in if \<not> ok then (False, whichType)
         else if whichType = TX_MULTISIG then
           let m = hd (hd vSolutions); n = hd (last vSolutions)
           in if n < 1 \<or> n > 3 then (False, whichType)
              else if m < 1 \<or> m > n then (False, whichType)
              else (whichType \<noteq> TX_NONSTANDARD, whichType)
         else (whichType \<noteq> TX_NONSTANDARD, whichType))"

text \<open>\<open>uint160(vch)\<close> is \<open>bu_of_vch 5\<close>. A destination is returned when there is exactly one.\<close>

definition ExtractDestination :: "openssl \<Rightarrow> script \<Rightarrow> CTxDestination option" where
  "ExtractDestination ssl scriptPubKey =
     (let (ok, whichType, vSolutions) = Solver scriptPubKey
      in if \<not> ok then None
         else if whichType = TX_PUBKEY then Some (CKeyID (pk_GetID ssl (mk_pubkey (vSolutions ! 0))))
         else if whichType = TX_PUBKEYHASH then Some (CKeyID (bu_of_vch 5 (vSolutions ! 0)))
         else if whichType = TX_SCRIPTHASH then Some (CScriptID (bu_of_vch 5 (vSolutions ! 0)))
         else None)"

definition ExtractDestinations ::
    "openssl \<Rightarrow> script \<Rightarrow> bool \<times> txnouttype \<times> CTxDestination list \<times> int option" where
  "ExtractDestinations ssl scriptPubKey =
     (let (ok, typeRet, vSolutions) = Solver scriptPubKey
      in if \<not> ok then (False, typeRet, [], None)
         else if typeRet = TX_NULL_DATA then (False, typeRet, [], None)
         else if typeRet = TX_MULTISIG then
           (True, typeRet,
            map (\<lambda>v. CKeyID (pk_GetID ssl (mk_pubkey v))) (take (length vSolutions - 2) (tl vSolutions)),
            Some (uint (hd (hd vSolutions))))
         else
           (case ExtractDestination ssl scriptPubKey of
              None \<Rightarrow> (False, typeRet, [], Some 1)
            | Some address \<Rightarrow> (True, typeRet, [address], Some 1)))"

section \<open>Text\<close>

text \<open>\<open>HexStr\<close> of \<open>util.h\<close>, \<open>ValueString\<close> and \<open>CScript::ToString\<close>.\<close>

fun HexStr :: "data \<Rightarrow> bool \<Rightarrow> string" where
  "HexStr [] fSpaces = []"
| "HexStr (b # bs) fSpaces =
     hex_byte b @ concat (map (\<lambda>b. (if fSpaces then '' '' else []) @ hex_byte b) bs)"

definition ValueString :: "openssl \<Rightarrow> valtype \<Rightarrow> string" where
  "ValueString ssl vch = (if length vch \<le> 4 then dec_int (getint (setvch ssl vch)) else HexStr vch False)"

function ToString_script_loop :: "openssl \<Rightarrow> data \<Rightarrow> string \<Rightarrow> string" where
  "ToString_script_loop ssl pc str =
     (if pc \<noteq> [] then
        let str = (if str \<noteq> [] then str @ '' '' else str)
        in case GetOp2 pc of
             (False, opcode, vch, pc') \<Rightarrow> str @ ''[error]''
           | (True, opcode, vch, pc') \<Rightarrow>
               ToString_script_loop ssl pc'
                 (str @ (if opcode \<le> OP_PUSHDATA4 then ValueString ssl vch else GetOpName opcode))
      else str)"
  by pat_completeness auto
termination
  by (relation "measure (\<lambda>(ssl, pc, str). length pc)") (auto dest: GetOp2_shorter')

declare ToString_script_loop.simps [simp del]

definition script_ToString :: "openssl \<Rightarrow> script \<Rightarrow> string" where
  "script_ToString ssl s = ToString_script_loop ssl s []"

section \<open>What is pushed is read back\<close>

lemma push_data_append: "push_data s b = s @ push_data [] b"
  by (simp add: push_data_def)

text \<open>The opcode of a push and its operand bytes.\<close>

definition push_op :: "valtype \<Rightarrow> opcodetype" where
  "push_op b =
     (if length b < 76 then of_nat (length b)
      else if length b \<le> 0xff then OP_PUSHDATA1
      else if length b \<le> 0xffff then OP_PUSHDATA2 else OP_PUSHDATA4)"

lemma of_nat_less_u32: "n < 2 ^ 32 \<Longrightarrow> (of_nat n :: u32) < of_nat m \<longleftrightarrow> n < m" if "m < 2 ^ 32" for n m
  using that by (simp add: word_less_nat_alt unat_of_nat)

lemma GetOp2_take:
  assumes "push_size opcode pc = Some (of_nat (length b), b @ s)" "opcode \<le> OP_PUSHDATA4" "length (b @ s) < 2 ^ 32"
  shows "GetOp2 (opcode # pc) = (True, opcode, b, s)"
proof -
  have "unat (of_nat (length b) :: u32) = length b" using assms(3) by (simp add: unat_of_nat)
  moreover have "\<not> (of_nat (length (b @ s)) :: u32) < of_nat (length b)"
    using assms(3) by (subst of_nat_less_u32) auto
  ultimately show ?thesis using assms by (simp add: GetOp2_def)
qed

lemma GetOp2_push:
  assumes "length (b @ s) < 2 ^ 32"
  shows "GetOp2 (push_data [] b @ s) = (True, push_op b, b, s)"
proof -
  have u16: "length b \<le> 0xffff \<Longrightarrow> le_word (le_bytes 2 (of_nat (length b) :: u16)) = (of_nat (length b) :: u32)"
  proof -
    assume l: "length b \<le> 0xffff"
    have "le_word (le_bytes 2 (of_nat (length b) :: u16)) = (ucast (of_nat (length b) :: u16) :: u32)"
    proof (rule bit_word_eqI)
      fix j assume "j < LENGTH(32)"
      show "bit (le_word (le_bytes 2 (of_nat (length b) :: u16)) :: u32) j = bit (ucast (of_nat (length b) :: u16) :: u32) j"
        by (auto simp: bit_le_word bit_simps less_mult_imp_div_less dest: bit_imp_le_length)
    qed
    also have "\<dots> = of_nat (length b)"
      using l unfolding word_unat_eq_iff by (simp add: unat_ucast_up unat_of_nat)
    finally show ?thesis .
  qed
  consider "length b < 76" | "76 \<le> length b" "length b \<le> 0xff" | "0xff < length b" "length b \<le> 0xffff" | "0xffff < length b"
    by linarith
  then show ?thesis
  proof cases
    case 1
    then have "(of_nat (length b) :: byte) < 76" "ucast (of_nat (length b) :: byte) = (of_nat (length b) :: u32)"
      unfolding word_less_nat_alt word_unat_eq_iff by (simp_all add: unat_of_nat unat_ucast_up)
    with 1 assms show ?thesis
      by (simp add: push_data_def push_op_def) (rule GetOp2_take, auto simp: push_size_def word_le_less_eq intro: order.strict_trans2)
  next
    case 2
    then have "ucast (of_nat (length b) :: byte) = (of_nat (length b) :: u32)"
      unfolding word_unat_eq_iff by (simp add: unat_of_nat unat_ucast_up)
    with 2 assms show ?thesis
      by (simp add: push_data_def push_op_def) (rule GetOp2_take, auto simp: push_size_def)
  next
    case 3
    with u16 assms show ?thesis
      by (simp add: push_data_def push_op_def) (rule GetOp2_take, auto simp: push_size_def)
  next
    case 4
    have "le_word (le_bytes 4 (of_nat (length b) :: u32)) = (of_nat (length b) :: u32)" by (rule le_word_le_bytes) simp
    with 4 assms show ?thesis
      by (simp add: push_data_def push_op_def) (rule GetOp2_take, auto simp: push_size_def)
  qed
qed

lemma GetOp2_opcode [simp]: "OP_PUSHDATA4 < opcode \<Longrightarrow> GetOp2 (opcode # s) = (True, opcode, [], s)"
  by (auto simp: GetOp2_def dest: leD)

lemma GetOp2_Nil [simp]: "GetOp2 [] = (False, OP_INVALIDOPCODE, [], [])"
  by (simp add: GetOp2_def)

lemma GetOp2_0 [simp]: "GetOp2 (0 # s) = (True, 0, [], s)"
  by (simp add: GetOp2_def push_size_def)

text \<open>A direct push of \<open>n\<close> bytes.\<close>

lemma GetOp2_direct:
  assumes "length b = n" "n < 76" "length (b @ s) < 2 ^ 32"
  shows "GetOp2 (of_nat n # b @ s) = (True, of_nat n, b, s)"
  using GetOp2_push [OF assms(3)] assms by (simp add: push_data_def push_op_def)

text \<open>The instructions of a script, and whether the last one is complete.\<close>

function script_ops :: "data \<Rightarrow> (opcodetype \<times> valtype) list \<times> bool" where
  "script_ops pc =
     (if pc = [] then ([], True)
      else case GetOp2 pc of
             (True, opcode, vch, pc') \<Rightarrow> let (ops, ok) = script_ops pc' in ((opcode, vch) # ops, ok)
           | (False, opcode, vch, pc') \<Rightarrow> ([], False))"
  by pat_completeness auto
termination by (relation "measure length") (auto dest: GetOp2_shorter')

declare script_ops.simps [simp del]

lemma script_ops_Nil [simp]: "script_ops [] = ([], True)"
  by (simp add: script_ops.simps)

lemma script_ops_step:
  "GetOp2 pc = (True, opcode, vch, pc') \<Longrightarrow> script_ops pc = ((opcode, vch) # fst (script_ops pc'), snd (script_ops pc'))"
  by (subst script_ops.simps) (auto simp: split_def Let_def)

lemma script_ops_fail:
  "pc \<noteq> [] \<Longrightarrow> GetOp2 pc = (False, opcode, vch, pc') \<Longrightarrow> script_ops pc = ([], False)"
  by (subst script_ops.simps) simp

lemma script_ops_induct [case_names Nil Fail Step]:
  assumes "P []"
    and "\<And>pc opcode vch pc'. pc \<noteq> [] \<Longrightarrow> GetOp2 pc = (False, opcode, vch, pc') \<Longrightarrow> P pc"
    and "\<And>pc opcode vch pc'. pc \<noteq> [] \<Longrightarrow> GetOp2 pc = (True, opcode, vch, pc') \<Longrightarrow> P pc' \<Longrightarrow> P pc"
  shows "P pc"
proof (induction "length pc" arbitrary: pc rule: less_induct)
  case less
  obtain ok opcode vch pc' where g: "GetOp2 pc = (ok, opcode, vch, pc')" by (cases "GetOp2 pc") auto
  show ?case
  proof (cases "pc = []")
    case False
    with g assms less [of pc'] GetOp2_shorter [of pc opcode vch pc'] show ?thesis by (cases ok) auto
  qed (use assms in simp)
qed

lemma IsPushOnly_ops: "IsPushOnly s \<longleftrightarrow> snd (script_ops s) \<and> (\<forall>i \<in> set (fst (script_ops s)). fst i \<le> OP_16)"
proof (induction s rule: script_ops_induct)
  case Nil
  then show ?case by (subst IsPushOnly.simps) simp
next
  case (Fail pc opcode vch pc')
  then show ?case by (subst IsPushOnly.simps) (simp add: script_ops_fail [OF Fail])
next
  case (Step pc opcode vch pc')
  then show ?case by (subst IsPushOnly.simps) (auto simp: script_ops_step [OF Step(2)] not_less)
qed

lemma HasCanonicalPushes_ops:
  "HasCanonicalPushes s \<longleftrightarrow> snd (script_ops s) \<and>
     (\<forall>i \<in> set (fst (script_ops s)). fst i > OP_16 \<or> canonical_push (fst i) (snd i))"
proof (induction s rule: script_ops_induct)
  case Nil
  then show ?case by (subst HasCanonicalPushes.simps) simp
next
  case (Fail pc opcode vch pc')
  then show ?case by (subst HasCanonicalPushes.simps) (simp add: script_ops_fail [OF Fail])
next
  case (Step pc opcode vch pc')
  then show ?case by (subst HasCanonicalPushes.simps) (auto simp: script_ops_step [OF Step(2)] not_less)
qed

lemma Find_loop_ops:
  "Find_loop op s n = n + int (length (filter (\<lambda>i. fst i = op) (fst (script_ops s))))"
proof (induction s arbitrary: n rule: script_ops_induct)
  case Nil
  then show ?case by (subst Find_loop.simps) simp
next
  case (Fail pc opcode vch pc')
  then show ?case by (subst Find_loop.simps) (simp add: script_ops_fail [OF Fail])
next
  case (Step pc opcode vch pc')
  then show ?case by (subst Find_loop.simps) (auto simp: script_ops_step [OF Step(2)] )
qed

definition op_cost :: "opcodetype \<Rightarrow> nat" where
  "op_cost op =
     (if op = OP_CHECKSIG \<or> op = OP_CHECKSIGVERIFY then 1
      else if op = OP_CHECKMULTISIG \<or> op = OP_CHECKMULTISIGVERIFY then 20 else 0)"

lemma GetSigOpCount_loop_ops:
  "GetSigOpCount_loop False lst s n = Inr (n + of_nat (sum_list (map (\<lambda>i. op_cost (fst i)) (fst (script_ops s)))))"
proof (induction s arbitrary: n lst rule: script_ops_induct)
  case Nil
  then show ?case by (subst GetSigOpCount_loop.simps) simp
next
  case (Fail pc opcode vch pc')
  then show ?case by (subst GetSigOpCount_loop.simps) (simp add: script_ops_fail [OF Fail])
next
  case (Step pc opcode vch pc')
  then show ?case by (subst GetSigOpCount_loop.simps) (auto simp: script_ops_step [OF Step(2)] op_cost_def)
qed

lemma PushAll_append: "foldl push_data s vs = s @ concat (map (push_data []) vs)"
proof (induction vs arbitrary: s)
  case (Cons v vs)
  show ?case using Cons [of "push_data s v"] by (simp add: push_data_append [of s])
qed simp

lemma script_ops_PushAll:
  "length (PushAll vs) < 2 ^ 32 \<Longrightarrow> script_ops (PushAll vs) = (map (\<lambda>v. (push_op v, v)) vs, True)"
proof (induction vs)
  case (Cons v vs)
  then have "length (v @ concat (map (push_data []) vs)) < 2 ^ 32" 
    by (simp add: PushAll_def PushAll_append [of "push_data [] v"]) (simp add: push_data_def split: if_splits)
  then have "script_ops (push_data [] v @ concat (map (push_data []) vs)) =
    ((push_op v, v) # fst (script_ops (concat (map (push_data []) vs))), snd (script_ops (concat (map (push_data []) vs))))"
    by (intro script_ops_step GetOp2_push)
  then show ?case using Cons by (simp add: PushAll_def PushAll_append)
qed (simp add: PushAll_def)

lemma push_op_le: "push_op v \<le> OP_16"
proof -
  have "length v < 76 \<Longrightarrow> (of_nat (length v) :: byte) \<le> OP_16" by (simp add: word_le_nat_alt unat_of_nat)
  then show ?thesis by (simp add: push_op_def)
qed

section \<open>Destinations are recognised\<close>

lemma match_loop_Nil [simp]: "match_loop [] [] sols = Some sols"
  by (simp add: match_loop.simps)

lemma match_loop_step:
  assumes "GetOp2 pc1 = (True, o1, v1, pc1')" "GetOp2 pc2 = (True, o2, v2, pc2')" "o2 \<noteq> OP_PUBKEYS"
  shows "match_loop pc1 pc2 sols =
    (case match_op o1 v1 o2 v2 sols of None \<Rightarrow> None | Some sols \<Rightarrow> match_loop pc1' pc2' sols)"
proof -
  have "pc1 \<noteq> []" using assms(1) by auto
  with assms show ?thesis by (subst match_loop.simps) simp
qed

lemma match_loop_keys:
  assumes "GetOp2 pc1 = (True, o1, v1, pc1')" "GetOp2 pc2 = (True, OP_PUBKEYS, v2, pc2')"
    "pubkeys_loop o1 v1 pc1' sols = (o1', v1', pc1'', sols')" "GetOp2 pc2' = (True, o2, v2', pc2'')"
  shows "match_loop pc1 pc2 sols =
    (case match_op o1' v1' o2 v2' sols' of None \<Rightarrow> None | Some sols \<Rightarrow> match_loop pc1'' pc2'' sols)"
proof -
  have "pc1 \<noteq> []" using assms(1) by auto
  with assms show ?thesis by (subst match_loop.simps) simp
qed

lemma GetOp2_hash:
  assumes "length h = 20" "length s < 2 ^ 31"
  shows "GetOp2 (20 # h @ s) = (True, 20, h, s)"
  using GetOp2_direct [of h 20 s] assms by simp

lemma match_op_exact [simp]:
  "opcode2 \<notin> {OP_PUBKEY, OP_PUBKEYHASH, OP_SMALLINTEGER, OP_SMALLDATA} \<Longrightarrow>
     match_op opcode1 vch1 opcode2 vch2 sols = (if opcode1 = opcode2 \<and> vch1 = vch2 then Some sols else None)"
  by (simp add: match_op_def)

lemma match_op_params [simp]:
  "match_op opcode1 vch1 OP_PUBKEY vch2 sols =
     (if length vch1 < 33 \<or> length vch1 > 65 then None else Some (sols @ [vch1]))"
  "match_op opcode1 vch1 OP_PUBKEYHASH vch2 sols =
     (if length vch1 \<noteq> 20 then None else Some (sols @ [vch1]))"
  "match_op opcode1 vch1 OP_SMALLDATA vch2 sols =
     (if length vch1 > MAX_OP_RETURN_RELAY then None else Some sols)"
  by (simp_all add: match_op_def)

lemma Solver_keyhash:
  assumes "length h = 20"
  shows "Solver (OP_DUP # OP_HASH160 # 20 # h @ [OP_EQUALVERIFY, OP_CHECKSIG]) = (True, TX_PUBKEYHASH, [h])"
proof -
  let ?s = "OP_DUP # OP_HASH160 # 20 # h @ [OP_EQUALVERIFY, OP_CHECKSIG]"
  have h: "GetOp2 (20 # h @ [OP_EQUALVERIFY, OP_CHECKSIG]) = (True, 20, h, [OP_EQUALVERIFY, OP_CHECKSIG])"
    using assms by (intro GetOp2_hash) simp_all
  have "match_loop ?s [OP_PUBKEY, OP_CHECKSIG] [] = None"
    by (subst match_loop_step) (rule GetOp2_opcode, simp, rule GetOp2_opcode, simp, simp, simp)
  moreover have "match_loop ?s [OP_DUP, OP_HASH160, OP_PUBKEYHASH, OP_EQUALVERIFY, OP_CHECKSIG] [] = Some [h]"
    using assms by (simp add: match_loop_step h)
  ultimately show ?thesis by (simp add: Solver_def IsPayToScriptHash_def mTemplates_def)
qed

lemma Solver_scripthash:
  assumes "length h = 20"
  shows "Solver (OP_HASH160 # 20 # h @ [OP_EQUAL]) = (True, TX_SCRIPTHASH, [h])"
  using assms by (simp add: Solver_def IsPayToScriptHash_def nth_append)

lemma Solver_SetDestination:
  assumes "length h = 5"
  shows "Solver (SetDestination (CKeyID h)) = (True, TX_PUBKEYHASH, [bu_bytes h])"
    "Solver (SetDestination (CScriptID h)) = (True, TX_SCRIPTHASH, [bu_bytes h])"
  using Solver_keyhash [of "bu_bytes h"] Solver_scripthash [of "bu_bytes h"] assms
  by (simp_all add: push_opcode_def push_uint160_def)

lemma bu_of_vch_bytes [simp]: "length h = n \<Longrightarrow> bu_of_vch n (bu_bytes h) = h"
  by (simp add: bu_of_vch_def)

section \<open>Multi-signature scripts are recognised\<close>

lemma rfold_push_pubkey:
  "(\<And>k. k \<in> set keys \<Longrightarrow> pk_size k < 76) \<Longrightarrow>
   rfold (\<lambda>key s. push_pubkey s key) keys s =
     Inr (s @ concat (map (\<lambda>k. of_nat (pk_size k) # pk_bytes k) keys))"
  by (induction keys arbitrary: s) (auto simp: push_pubkey_def unat_of_nat)

lemma pubkeys_loop_run:
  assumes "\<forall>v \<in> set vs. length v = 33 \<or> length v = 65" "length s < 2 ^ 30" "length vs \<le> 16"
    and "GetOp2 s = (True, o2, v2, s')" "\<not> (33 \<le> length v2 \<and> length v2 \<le> 65)" "vs \<noteq> []"
  shows "\<exists>o1 v1 r. GetOp2 (concat (map (\<lambda>v. of_nat (length v) # v) vs) @ s) = (True, o1, v1, r) \<and>
    pubkeys_loop o1 v1 r sols = (o2, v2, s', sols @ vs)"
  using assms
proof (induction vs arbitrary: sols)
  case (Cons v vs)
  let ?r = "concat (map (\<lambda>v. of_nat (length v) # v) vs) @ s"
  have "length (concat (map (\<lambda>v. of_nat (length v) # v :: data) vs)) \<le> 66 * length vs"
    using Cons.prems(1) by (induction vs) auto
  then have "length (v @ ?r) < 2 ^ 32" using Cons.prems by auto
  then have g: "GetOp2 (of_nat (length v) # v @ ?r) = (True, of_nat (length v), v, ?r)"
    using Cons.prems by (intro GetOp2_direct) auto
  show ?case
  proof (cases "vs = []")
    case True
    with g Cons.prems show ?thesis
      by (auto simp: pubkeys_loop.simps [of _ v] pubkeys_loop.simps [of _ v2])
  next
    case False
    then obtain o1 v1 r where IH: "GetOp2 ?r = (True, o1, v1, r)"
      "pubkeys_loop o1 v1 r (sols @ [v]) = (o2, v2, s', (sols @ [v]) @ vs)"
      using Cons.IH [of "sols @ [v]"] Cons.prems by auto
    have "33 \<le> length v \<and> length v \<le> 65" using Cons.prems(1) by auto
    then have "pubkeys_loop (of_nat (length v)) v ?r sols = (o2, v2, s', sols @ v # vs)"
      using IH by (subst pubkeys_loop.simps) simp
    with g show ?thesis by auto
  qed
qed simp

lemma small_int_op:
  assumes "n \<le> 16"
  shows "match_op (if n = 0 then OP_0 else of_nat (80 + n)) v OP_SMALLINTEGER w sols = Some (sols @ [[of_nat n]])"
proof (cases "n = 0")
  case False
  define w :: byte where "w = of_nat (80 + n)"
  have w: "unat w = 80 + n" using assms by (simp add: w_def unat_of_nat del: of_nat_add)
  have "w \<noteq> OP_0" "OP_1 \<le> w" "w \<le> OP_16" "unat (w - (OP_1 - 1)) = n"
    using w False assms by (auto simp: word_le_nat_alt unat_sub)
  moreover from this have "w - (OP_1 - 1) = of_nat n" by (metis of_nat_unat ucast_id)
  ultimately show ?thesis using False by (simp add: match_op_def w_def [symmetric] del: of_nat_add)
qed (simp add: match_op_def)

lemma Solver_multisig:
  assumes "1 \<le> m" "m \<le> length vs" "length vs \<le> 16" "\<forall>v \<in> set vs. length v = 33 \<or> length v = 65"
  shows "Solver (of_nat (80 + m) # concat (map (\<lambda>v. of_nat (length v) # v) vs) @
      [of_nat (80 + length vs), OP_CHECKMULTISIG]) =
    (True, TX_MULTISIG, [of_nat m] # vs @ [[of_nat (length vs)]])"
proof -
  let ?k = "concat (map (\<lambda>v. of_nat (length v) # v) vs) @ [of_nat (80 + length vs), OP_CHECKMULTISIG]"
  let ?s = "of_nat (80 + m) # ?k"
  note of_nat_add [simp del]
  have "vs \<noteq> []" using assms by auto
  have big: "OP_PUSHDATA4 < (of_nat (80 + n) :: byte)" if "n \<le> 16" for n
    using that by (simp add: word_less_nat_alt unat_of_nat unat_word_ariths)
  have first: "GetOp2 ?s = (True, of_nat (80 + m), [], ?k)" using assms by (intro GetOp2_opcode big) simp
  have last: "GetOp2 [of_nat (80 + length vs), OP_CHECKMULTISIG] = (True, of_nat (80 + length vs), [], [OP_CHECKMULTISIG])"
    using assms by (intro GetOp2_opcode big) simp
  obtain o1 v1 r where r: "GetOp2 ?k = (True, o1, v1, r)"
    "pubkeys_loop o1 v1 r [[of_nat m]] = (of_nat (80 + length vs), [], [OP_CHECKMULTISIG], [[of_nat m]] @ vs)"
    using pubkeys_loop_run [OF assms(4) _ assms(3) last, of "[[of_nat m]]"] assms(1,2)
    by (force simp del: of_nat_add)
  have "GetOp2 [OP_PUBKEYS, OP_SMALLINTEGER, OP_CHECKMULTISIG] = (True, OP_PUBKEYS, [], [OP_SMALLINTEGER, OP_CHECKMULTISIG])"
    "GetOp2 [OP_SMALLINTEGER, OP_CHECKMULTISIG] = (True, OP_SMALLINTEGER, [], [OP_CHECKMULTISIG])" by simp_all
  note mk = match_loop_keys [OF r(1) this(1) r(2) this(2)]
  have m0: "of_nat (80 + m) \<noteq> OP_DUP" "of_nat (80 + m) \<noteq> OP_HASH160"
    using assms by (simp_all add: word_unat_eq_iff unat_of_nat unat_word_ariths)
  have "match_loop ?s [OP_PUBKEY, OP_CHECKSIG] [] = None"
    "match_loop ?s [OP_DUP, OP_HASH160, OP_PUBKEYHASH, OP_EQUALVERIFY, OP_CHECKSIG] [] = None"
    using m0 by (simp_all add: match_loop_step [OF first GetOp2_opcode])
  moreover have "match_loop ?s [OP_SMALLINTEGER, OP_PUBKEYS, OP_SMALLINTEGER, OP_CHECKMULTISIG] [] =
      Some ([of_nat m] # vs @ [[of_nat (length vs)]])"
    using small_int_op [of m "[]" "[]" "[]"] small_int_op [of "length vs" "[]" "[]" "[of_nat m] # vs"] assms
      \<open>vs \<noteq> []\<close>
    by (simp add: match_loop_step [OF first GetOp2_opcode] mk match_loop_step)
  moreover have "multisig_ok ([of_nat m] # vs @ [[of_nat (length vs)]])"
    using assms \<open>vs \<noteq> []\<close> by (simp add: multisig_ok_def Let_def word_less_nat_alt unat_of_nat)
  ultimately show ?thesis using m0 by (simp add: Solver_def IsPayToScriptHash_def mTemplates_def)
qed

lemma SetMultisig_form:
  assumes "1 \<le> m" "m \<le> length keys" "length keys \<le> 16"
    and "\<forall>k \<in> set keys. pk_IsValid k \<and> length (pk_bytes k) = pk_size k"
  shows "SetMultisig (int m) keys = Inr (of_nat (80 + m) #
      concat (map (\<lambda>v. of_nat (length v) # v) (map pk_bytes keys)) @ [of_nat (80 + length (map pk_bytes keys)), OP_CHECKMULTISIG])"
    and "\<forall>v \<in> set (map pk_bytes keys). length v = 33 \<or> length v = 65"
proof -
  have sz: "pk_size k = 33 \<or> pk_size k = 65" if "k \<in> set keys" for k
    using that assms(4) GetLen_cases [of "hd (pk_vch k)"] by (auto simp: pk_IsValid_def pk_size_def)
  have E: "EncodeOP_N (int n) = Inr (of_nat (80 + n))" if "1 \<le> n" "n \<le> 16" for n
    using that by (simp add: EncodeOP_N_def word_unat_eq_iff unat_of_nat) 
  have "int_of_size (length keys) = int (length keys)" using assms(3) by simp
  moreover have "rfold (\<lambda>key s. push_pubkey s key) keys (push_opcode [] (of_nat (80 + m))) =
    Inr (of_nat (80 + m) # concat (map (\<lambda>k. of_nat (pk_size k) # pk_bytes k) keys))"
    by (subst rfold_push_pubkey) (use sz in \<open>fastforce simp: push_opcode_def\<close>)+
  moreover have "concat (map (\<lambda>k. of_nat (pk_size k) # pk_bytes k) keys) =
    concat (map (\<lambda>v. of_nat (length v) # v) (map pk_bytes keys))"
    using assms(4) by (intro arg_cong [of _ _ concat]) (simp add: comp_def)
  ultimately show "SetMultisig (int m) keys = Inr (of_nat (80 + m) #
      concat (map (\<lambda>v. of_nat (length v) # v) (map pk_bytes keys)) @ [of_nat (80 + length (map pk_bytes keys)), OP_CHECKMULTISIG])"
    using assms E [of m] E [of "length keys"] by (simp add: SetMultisig_def push_opcode_def)
  show "\<forall>v \<in> set (map pk_bytes keys). length v = 33 \<or> length v = 65" using sz assms(4) by auto
qed

lemma SetMultisig_Solver:
  assumes "1 \<le> m" "m \<le> length keys" "length keys \<le> 16"
    and "\<forall>k \<in> set keys. pk_IsValid k \<and> length (pk_bytes k) = pk_size k"
  shows "\<exists>s. SetMultisig (int m) keys = Inr s \<and>
    Solver s = (True, TX_MULTISIG, [of_nat m] # map pk_bytes keys @ [[of_nat (length keys)]])"
  using SetMultisig_form [OF assms] Solver_multisig [of m "map pk_bytes keys"] assms by simp

section \<open>Properties\<close>

text \<open>C27: the instructions of a script made by pushing values are exactly those pushes, for operands of
  every size up to the limit of the length field, and such a script is push-only.\<close>

theorem pushes_read_back:
  assumes "length (PushAll values) < 2 ^ 32"
  shows "script_ops (PushAll values) = (map (\<lambda>v. (push_op v, v)) values, True) \<and> IsPushOnly (PushAll values)"
  using script_ops_PushAll [OF assms] push_op_le by (auto simp: IsPushOnly_ops)

theorem pushes_read_back_witness:
  "script_ops (PushAll [replicate 75 1, replicate 76 2, []]) =
     ([(75, replicate 75 1), (OP_PUSHDATA1, replicate 76 2), (OP_0, [])], True)"
  using pushes_read_back [of "[replicate 75 1, replicate 76 2, []]"]
  by (simp add: PushAll_def push_data_def push_op_def)

text \<open>C28: the scanning functions compute what the instruction list of the script says: push-only and
  canonical scripts, the count of an opcode, and the signature operations with 20 for each
  multi-signature check.\<close>

theorem scanning_functions:
  "(IsPushOnly s \<longleftrightarrow> snd (script_ops s) \<and> list_all (\<lambda>i. fst i \<le> OP_16) (fst (script_ops s))) \<and>
   (HasCanonicalPushes s \<longleftrightarrow> snd (script_ops s) \<and>
      list_all (\<lambda>i. if fst i > OP_16 then True else canonical_push (fst i) (snd i)) (fst (script_ops s))) \<and>
   Find s op = int (length (filter (\<lambda>i. fst i = op) (fst (script_ops s)))) \<and>
   GetSigOpCount s False = Inr (of_nat (sum_list (map (\<lambda>i. op_cost (fst i)) (fst (script_ops s)))))"
  by (auto simp: IsPushOnly_ops HasCanonicalPushes_ops Find_def Find_loop_ops GetSigOpCount_def
      GetSigOpCount_loop_ops list_all_iff)

text \<open>The script of a key or script identifier is recognised as such and gives the identifier back.\<close>

theorem destination_roundtrip:
  assumes "length h = 5"
  shows "Solver (SetDestination (CKeyID h)) = (True, TX_PUBKEYHASH, [bu_bytes h]) \<and>
    Solver (SetDestination (CScriptID h)) = (True, TX_SCRIPTHASH, [bu_bytes h]) \<and>
    ExtractDestination ssl (SetDestination (CKeyID h)) = Some (CKeyID h) \<and>
    ExtractDestination ssl (SetDestination (CScriptID h)) = Some (CScriptID h)"
  using assms Solver_SetDestination [OF assms]
  by (simp add: ExtractDestination_def del: SetDestination.simps)

theorem destination_roundtrip_witness:
  "ExtractDestination sample_ssl (SetDestination (CScriptID [1, 2, 3, 4, 5])) = Some (CScriptID [1, 2, 3, 4, 5])"
  using destination_roundtrip [of "[1, 2, 3, 4, 5]" sample_ssl] by simp

text \<open>C29: the multi-signature script of at most sixteen valid keys is built and is recognised with the
  required number, the keys in order, and their number.\<close>

theorem multisig_recognised:
  assumes "1 \<le> m" "m \<le> length keys" "length keys \<le> 16"
    and "\<forall>k \<in> set keys. pk_IsValid k \<and> length (pk_bytes k) = pk_size k"
  shows "\<exists>s. SetMultisig (int m) keys = Inr s \<and>
    Solver s = (True, TX_MULTISIG, [of_nat m] # map pk_bytes keys @ [[of_nat (length keys)]])"
  using SetMultisig_Solver [OF assms] .

theorem multisig_recognised_witness:
  "\<exists>s. SetMultisig 1 [mk_pubkey (2 # replicate 32 7)] = Inr s \<and>
    Solver s = (True, TX_MULTISIG, [[1], 2 # replicate 32 7, [1]])"
proof -
  have "pk_bytes (mk_pubkey (2 # replicate 32 7)) = 2 # replicate 32 7"
    "pk_size (mk_pubkey (2 # replicate 32 7)) = 33"
    by (simp_all add: pk_bytes_mk_pubkey pk_size_mk_pubkey GetLen_def)
  then show ?thesis
    using multisig_recognised [of 1 "[mk_pubkey (2 # replicate 32 7)]"] by (simp add: pk_IsValid_def)
qed

end
