(* ===== verification/Keystore.thy ===== *)
theory Keystore
  imports Script "HOL-Library.Mapping"
begin

text \<open>
  \<open>src/src/lib/core/keystore.h\<close> and \<open>keystore.cpp\<close>: \<open>CBasicKeyStore\<close>, the maps from key
  identifiers to private keys and from script identifiers to redeem scripts. The locale \<open>store\<close> is
  what its clients rely on: an entry is found under its identifier after it was added, and adding
  does not disturb the others. The lock \<open>cs_KeyStore\<close> makes each operation atomic and has no other
  effect on a single thread.
\<close>

section \<open>The key store\<close>

record CBasicKeyStore =
  mapKeys :: "(base_uint, CKey) mapping"
  mapScripts :: "(base_uint, script) mapping"

definition empty_keystore :: CBasicKeyStore where
  "empty_keystore = \<lparr>mapKeys = Mapping.empty, mapScripts = Mapping.empty\<rparr>"

definition AddKeyPubKey :: "openssl \<Rightarrow> CKey \<Rightarrow> CPubKey \<Rightarrow> CBasicKeyStore \<Rightarrow> CBasicKeyStore" where
  "AddKeyPubKey ssl key pubkey ks = ks\<lparr>mapKeys := Mapping.update (pk_GetID ssl pubkey) key (mapKeys ks)\<rparr>"

definition AddKey :: "openssl \<Rightarrow> CKey \<Rightarrow> CBasicKeyStore \<Rightarrow> CBasicKeyStore result" where
  "AddKey ssl key ks = rbind (key_GetPubKey ssl key) (\<lambda>pubkey. Inr (AddKeyPubKey ssl key pubkey ks))"

definition HaveKey :: "CBasicKeyStore \<Rightarrow> base_uint \<Rightarrow> bool" where
  "HaveKey ks address \<longleftrightarrow> Mapping.lookup (mapKeys ks) address \<noteq> None"

definition GetKey :: "CBasicKeyStore \<Rightarrow> base_uint \<Rightarrow> CKey option" where
  "GetKey ks address = Mapping.lookup (mapKeys ks) address"

definition GetKeys :: "CBasicKeyStore \<Rightarrow> base_uint set" where
  "GetKeys ks = Mapping.keys (mapKeys ks)"

definition GetPubKey :: "openssl \<Rightarrow> CBasicKeyStore \<Rightarrow> base_uint \<Rightarrow> CPubKey option result" where
  "GetPubKey ssl ks address =
     (case GetKey ks address of
        None \<Rightarrow> Inr None
      | Some key \<Rightarrow> rbind (key_GetPubKey ssl key) (\<lambda>pk. Inr (Some pk)))"

definition AddCScript :: "openssl \<Rightarrow> script \<Rightarrow> CBasicKeyStore \<Rightarrow> CBasicKeyStore" where
  "AddCScript ssl redeemScript ks =
     ks\<lparr>mapScripts := Mapping.update (script_GetID ssl redeemScript) redeemScript (mapScripts ks)\<rparr>"

definition HaveCScript :: "CBasicKeyStore \<Rightarrow> base_uint \<Rightarrow> bool" where
  "HaveCScript ks hash \<longleftrightarrow> Mapping.lookup (mapScripts ks) hash \<noteq> None"

definition GetCScript :: "CBasicKeyStore \<Rightarrow> base_uint \<Rightarrow> script option" where
  "GetCScript ks hash = Mapping.lookup (mapScripts ks) hash"

definition ks_IsEmpty :: "CBasicKeyStore \<Rightarrow> bool" where
  "ks_IsEmpty ks \<longleftrightarrow> Mapping.is_empty (mapKeys ks) \<and> Mapping.is_empty (mapScripts ks)"

definition ks_Clear :: "CBasicKeyStore \<Rightarrow> CBasicKeyStore" where
  "ks_Clear ks = ks\<lparr>mapKeys := Mapping.empty, mapScripts := Mapping.empty\<rparr>"

section \<open>Ownership\<close>

text \<open>\<open>HaveKeys\<close> and \<open>IsMine\<close> of \<open>script.cpp\<close>; a redeem script in the store may itself be
  pay-to-script-hash, so \<open>IsMine\<close> may recur for ever.\<close>

definition HaveKeys :: "openssl \<Rightarrow> valtype list \<Rightarrow> CBasicKeyStore \<Rightarrow> u32" where
  "HaveKeys ssl pubkeys ks =
     fold (\<lambda>pubkey nResult. if HaveKey ks (pk_GetID ssl (mk_pubkey pubkey)) then nResult + 1 else nResult)
       pubkeys 0"

fun IsMine_dest :: "CBasicKeyStore \<Rightarrow> CTxDestination \<Rightarrow> bool" where
  "IsMine_dest ks CNoDestination = False"
| "IsMine_dest ks (CKeyID keyID) = HaveKey ks keyID"
| "IsMine_dest ks (CScriptID scriptID) = HaveCScript ks scriptID"

partial_function (option) IsMine :: "openssl \<Rightarrow> CBasicKeyStore \<Rightarrow> script \<Rightarrow> bool option" where
  "IsMine ssl ks scriptPubKey =
     (let (ok, whichType, vSolutions) = Solver scriptPubKey
      in if \<not> ok then Some False
         else case whichType of
                TX_NONSTANDARD \<Rightarrow> Some False
              | TX_NULL_DATA \<Rightarrow> Some False
              | TX_PUBKEY \<Rightarrow> Some (HaveKey ks (pk_GetID ssl (mk_pubkey (vSolutions ! 0))))
              | TX_PUBKEYHASH \<Rightarrow> Some (HaveKey ks (bu_of_vch 5 (vSolutions ! 0)))
              | TX_SCRIPTHASH \<Rightarrow>
                  (case GetCScript ks (bu_of_vch 5 (vSolutions ! 0)) of
                     None \<Rightarrow> Some False
                   | Some subscript \<Rightarrow> IsMine ssl ks subscript)
              | TX_MULTISIG \<Rightarrow>
                  let keys = take (length vSolutions - 2) (tl vSolutions)
                  in Some (HaveKeys ssl keys ks = of_nat (length keys)))"

text \<open>\<open>ExtractAffectedKeys\<close>: the visitor adds keys of the store and follows redeem scripts.\<close>

partial_function (option) AffectedKeys_Process ::
    "openssl \<Rightarrow> CBasicKeyStore \<Rightarrow> script \<Rightarrow> base_uint list \<Rightarrow> base_uint list option" where
  "AffectedKeys_Process ssl ks script vKeys =
     (let (ok, typ, vDest, nRequired) = ExtractDestinations ssl script
      in if \<not> ok then Some vKeys
         else case vDest of
                [CScriptID scriptId] \<Rightarrow>
                  (case GetCScript ks scriptId of
                     None \<Rightarrow> Some vKeys
                   | Some script \<Rightarrow> AffectedKeys_Process ssl ks script vKeys)
              | _ \<Rightarrow>
                  Some (vKeys @ concat (map (\<lambda>d. case d of CKeyID keyId \<Rightarrow> if HaveKey ks keyId then [keyId] else []
                                                  | _ \<Rightarrow> []) vDest)))"

definition ExtractAffectedKeys :: "openssl \<Rightarrow> CBasicKeyStore \<Rightarrow> script \<Rightarrow> base_uint list option" where
  "ExtractAffectedKeys ssl ks scriptPubKey = AffectedKeys_Process ssl ks scriptPubKey []"

section \<open>The contract of a store\<close>

locale store =
  fixes init :: "'s"
    and add :: "'v \<Rightarrow> 's \<Rightarrow> 's"
    and find :: "'s \<Rightarrow> 'k \<Rightarrow> 'w option"
    and ident :: "'v \<Rightarrow> 'k"
    and content :: "'v \<Rightarrow> 'w"
  assumes find_init: "find init k = None"
    and find_add: "find (add v s) k = (if k = ident v then Some (content v) else find s k)"
begin

lemma find_adds_other: "k \<notin> ident ` set vs \<Longrightarrow> find (fold add vs s) k = find s k"
  by (induction vs arbitrary: s) (auto simp: find_add)

lemma find_adds_last: "find (fold add (vs @ [v]) s) (ident v) = Some (content v)"
  by (simp add: find_add)

text \<open>Entries whose identifiers do not collide with different contents are all found.\<close>

lemma find_adds:
  assumes "v \<in> set vs" "\<And>u. u \<in> set vs \<Longrightarrow> ident u = ident v \<Longrightarrow> content u = content v"
  shows "find (fold add vs s) (ident v) = Some (content v)"
  using assms
proof (induction vs arbitrary: s rule: rev_induct)
  case (snoc u vs)
  show ?case
  proof (cases "ident u = ident v")
    case True
    then have "content u = content v" using snoc.prems(2) [of u] by simp
    with True show ?thesis by (simp add: find_add)
  next
    case False
    then have "v \<in> set vs" using snoc.prems(1) by auto
    then have "find (fold add vs s) (ident v) = Some (content v)"
      by (rule snoc.IH) (use snoc.prems(2) in simp)
    with False show ?thesis by (simp add: find_add)
  qed
qed simp

lemma find_adds_domain: "find (fold add vs init) k \<noteq> None \<longleftrightarrow> k \<in> ident ` set vs"
proof (induction vs rule: rev_induct)
  case (snoc u vs)
  then show ?case by (auto simp: find_add)
qed (simp add: find_init)

end

interpretation keys: store empty_keystore "\<lambda>(key, pubkey). AddKeyPubKey ssl key pubkey" GetKey
    "\<lambda>(key, pubkey). pk_GetID ssl pubkey" fst for ssl
  by unfold_locales
    (simp_all add: empty_keystore_def AddKeyPubKey_def GetKey_def lookup_update' split_beta)

interpretation scripts: store empty_keystore "AddCScript ssl" GetCScript "script_GetID ssl" "\<lambda>s. s" for ssl
  by unfold_locales (simp_all add: empty_keystore_def AddCScript_def GetCScript_def lookup_update')

section \<open>Lemmas\<close>

lemma keystore_frame [simp]:
  "GetKey (AddCScript ssl s ks) k = GetKey ks k"
  "GetCScript (AddKeyPubKey ssl key pk ks) h = GetCScript ks h"
  "HaveKey (AddCScript ssl s ks) k = HaveKey ks k"
  by (simp_all add: GetKey_def GetCScript_def HaveKey_def AddCScript_def AddKeyPubKey_def)

lemma HaveKey_GetKey: "HaveKey ks k \<longleftrightarrow> GetKey ks k \<noteq> None"
  by (simp add: HaveKey_def GetKey_def)

lemma HaveCScript_GetCScript: "HaveCScript ks h \<longleftrightarrow> GetCScript ks h \<noteq> None"
  by (simp add: HaveCScript_def GetCScript_def)

lemma GetKeys_GetKey: "GetKeys ks = {k. GetKey ks k \<noteq> None}"
  by (auto simp: GetKeys_def GetKey_def keys_is_none_rep Option.is_none_def)

text \<open>A cleared store to which pairs of a private and a public key were added.\<close>

definition keystore_of :: "openssl \<Rightarrow> (CKey \<times> CPubKey) list \<Rightarrow> CBasicKeyStore" where
  "keystore_of ssl entries = fold (\<lambda>(key, pubkey). AddKeyPubKey ssl key pubkey) entries empty_keystore"

lemma Clear_empty: "ks_IsEmpty (ks_Clear ks) \<and> GetKey (ks_Clear ks) k = None \<and> GetCScript (ks_Clear ks) h = None"
  by (simp add: ks_IsEmpty_def ks_Clear_def GetKey_def GetCScript_def Mapping.is_empty_empty)

section \<open>Properties\<close>

text \<open>After keys are added to a cleared store, exactly their identifiers are present, each with the key
  last stored under it, a redeem script added afterwards is found under its identifier, and nothing
  else is in the store.\<close>

theorem keystore_lookup:
  "GetKeys (keystore_of ssl entries) = (\<lambda>(key, pubkey). pk_GetID ssl pubkey) ` set entries \<and>
   GetKey (keystore_of ssl (entries @ [(key, pubkey)])) (pk_GetID ssl pubkey) = Some key \<and>
   GetCScript (AddCScript ssl s (keystore_of ssl entries)) h = (if h = script_GetID ssl s then Some s else None) \<and>
   GetKey (AddCScript ssl s (keystore_of ssl entries)) k = GetKey (keystore_of ssl entries) k"
proof -
  have "GetCScript (keystore_of ssl entries) h = None" for h
    unfolding keystore_of_def
    by (induction entries rule: rev_induct) (auto simp: scripts.find_init split: prod.split)
  moreover have "GetKeys (keystore_of ssl entries) = (\<lambda>(key, pubkey). pk_GetID ssl pubkey) ` set entries"
    unfolding keystore_of_def GetKeys_GetKey using keys.find_adds_domain by auto
  ultimately show ?thesis
    using keys.find_adds_last [of ssl entries "(key, pubkey)" empty_keystore]
    unfolding keystore_of_def by (simp add: scripts.find_add)
qed

end
