(* ===== verification/ScriptCompressor.thy ===== *)
theory ScriptCompressor
  imports Script
begin

text \<open>
  \<open>CScriptCompressor\<close> of \<open>src/src/lib/core/script.h\<close> and \<open>script.cpp\<close>: pay-to-key-hash,
  pay-to-script-hash and pay-to-key scripts are written as a type byte and a hash or coordinate,
  others with their length plus six. The property shows that every script is read back.
\<close>

section \<open>The special scripts\<close>

definition IsToKeyID :: "script \<Rightarrow> data option" where
  "IsToKeyID s =
     (if length s = 25 \<and> s ! 0 = OP_DUP \<and> s ! 1 = OP_HASH160 \<and> s ! 2 = 20 \<and>
         s ! 23 = OP_EQUALVERIFY \<and> s ! 24 = OP_CHECKSIG
      then Some (take 20 (drop 3 s)) else None)"

definition IsToScriptID :: "script \<Rightarrow> data option" where
  "IsToScriptID s =
     (if length s = 23 \<and> s ! 0 = OP_HASH160 \<and> s ! 1 = 20 \<and> s ! 22 = OP_EQUAL
      then Some (take 20 (drop 2 s)) else None)"

definition IsToPubKey :: "openssl \<Rightarrow> script \<Rightarrow> CPubKey option" where
  "IsToPubKey ssl s =
     (if length s = 35 \<and> s ! 0 = 33 \<and> s ! 34 = OP_CHECKSIG \<and> (s ! 1 = 0x02 \<or> s ! 1 = 0x03)
      then Some (pk_Set (take 33 (drop 1 s)) invalid_pubkey)
      else if length s = 67 \<and> s ! 0 = 65 \<and> s ! 66 = OP_CHECKSIG \<and> s ! 1 = 0x04
      then let pubkey = pk_Set (take 65 (drop 1 s)) invalid_pubkey
           in if IsFullyValid ssl pubkey then Some pubkey else None
      else None)"

definition Compress_script :: "openssl \<Rightarrow> script \<Rightarrow> data option" where
  "Compress_script ssl s =
     (case IsToKeyID s of Some keyID \<Rightarrow> Some (0x00 # keyID)
      | None \<Rightarrow>
      case IsToScriptID s of Some scriptID \<Rightarrow> Some (0x01 # scriptID)
      | None \<Rightarrow>
      case IsToPubKey ssl s of
        None \<Rightarrow> None
      | Some pubkey \<Rightarrow>
          let out = take 32 (drop 1 (pk_vch pubkey))
          in if hd (pk_vch pubkey) = 0x02 \<or> hd (pk_vch pubkey) = 0x03 then Some (hd (pk_vch pubkey) # out)
             else if hd (pk_vch pubkey) = 0x04 then Some ((0x04 OR (pk_vch pubkey ! 64 AND 0x01)) # out)
             else None)"

definition GetSpecialSize :: "u32 \<Rightarrow> u32" where
  "GetSpecialSize nSize =
     (if nSize = 0 \<or> nSize = 1 then 20
      else if nSize = 2 \<or> nSize = 3 \<or> nSize = 4 \<or> nSize = 5 then 32
      else 0)"

definition Decompress_script :: "openssl \<Rightarrow> u32 \<Rightarrow> data \<Rightarrow> script \<Rightarrow> (bool \<times> script) result" where
  "Decompress_script ssl nSize inp s =
     (if nSize = 0 then
        Inr (True, [OP_DUP, OP_HASH160, 20] @ take 20 inp @ [OP_EQUALVERIFY, OP_CHECKSIG])
      else if nSize = 1 then Inr (True, [OP_HASH160, 20] @ take 20 inp @ [OP_EQUAL])
      else if nSize = 2 \<or> nSize = 3 then Inr (True, [33, ucast nSize] @ take 32 inp @ [OP_CHECKSIG])
      else if nSize = 4 \<or> nSize = 5 then
        rbind (pk_Decompress ssl (mk_pubkey (ucast (nSize - 2) # take 32 inp))) (\<lambda>(ok, pubkey).
          if \<not> ok then Inr (False, s)
          else rbind (rassert (pk_size pubkey = 65)) (\<lambda>_.
            Inr (True, [65] @ take 65 (pk_vch pubkey) @ [OP_CHECKSIG])))
      else Inr (False, s))"

section \<open>Serialization\<close>

definition script_GetSerializeSize :: "openssl \<Rightarrow> script \<Rightarrow> u32" where
  "script_GetSerializeSize ssl s =
     (case Compress_script ssl s of
        Some compr \<Rightarrow> of_nat (length compr)
      | None \<Rightarrow>
          let nSize = of_nat (length s) + 6 :: u32
          in of_nat (length s) + of_nat (GetSizeOfVarInt (ucast nSize)))"

definition script_Serialize :: "openssl \<Rightarrow> script \<Rightarrow> data" where
  "script_Serialize ssl s =
     (case Compress_script ssl s of
        Some compr \<Rightarrow> compr
      | None \<Rightarrow>
          let nSize = of_nat (length s) + 6 :: u32
          in WriteVarInt (ucast nSize) @ s)"

text \<open>The result of \<open>Decompress\<close> is ignored; when it fails the script keeps its old contents.\<close>

definition script_Unserialize :: "openssl \<Rightarrow> script \<Rightarrow> script reader" where
  "script_Unserialize ssl old st =
     rbind (ReadVarInt st) (\<lambda>(n, st).
       let nSize = ucast n :: u32
       in if nSize < 6 then
            rbind (read_bytes (unat (GetSpecialSize nSize)) st) (\<lambda>(vch, st).
            rbind (Decompress_script ssl nSize vch old) (\<lambda>(ok, s). Inr (s, st)))
          else read_bytes (unat (nSize - 6)) st)"

section \<open>Every script is read back\<close>

text \<open>
  What the documentation of OpenSSL says of point encodings: a point read from the uncompressed form
  is written in the same way, and the compressed form with the parity of the second coordinate is the
  same point.
\<close>

definition point_encoding_ok :: "openssl \<Rightarrow> bool" where
  "point_encoding_ok ssl \<longleftrightarrow>
     (\<forall>x y p. length x = 32 \<longrightarrow> length y = 32 \<longrightarrow> o2i_ECPublicKey ssl (4 # x @ y) = Some p \<longrightarrow>
        i2o_ECPublicKey ssl p False = 4 # x @ y \<and>
        o2i_ECPublicKey ssl ((2 OR (last y AND 1)) # x) = Some p)"

lemma split_at:
  assumes "length s = m + n + k"
  shows "s = take m s @ take n (drop m s) @ drop (m + n) s"
  using assms by (metis append_assoc append_take_drop_id take_add)

lemma list_of_nth: "length s = 1 \<Longrightarrow> s = [s ! 0]" "length s = 2 \<Longrightarrow> s = [s ! 0, s ! 1]"
  "length s = 3 \<Longrightarrow> s = [s ! 0, s ! 1, s ! 2]"
  by (auto simp: numeral_eq_Suc length_Suc_conv)

lemma IsToKeyID_Some: "IsToKeyID s = Some h \<Longrightarrow>
  length h = 20 \<and> s = [OP_DUP, OP_HASH160, 20] @ h @ [OP_EQUALVERIFY, OP_CHECKSIG]"
  using split_at [of s 3 20 2] list_of_nth(3) [of "take 3 s"] list_of_nth(2) [of "drop 23 s"]
  by (auto simp: IsToKeyID_def split: if_splits)

lemma IsToScriptID_Some: "IsToScriptID s = Some h \<Longrightarrow>
  length h = 20 \<and> s = [OP_HASH160, 20] @ h @ [OP_EQUAL]"
  using split_at [of s 2 20 1] list_of_nth(2) [of "take 2 s"] list_of_nth(1) [of "drop 22 s"]
  by (auto simp: IsToScriptID_def split: if_splits)

lemma outer_bytes:
  assumes "length s = Suc n + 2"
  obtains a b bs z where "s = a # (b # bs) @ [z]" "length bs = n"
proof -
  obtain a t where t: "s = a # t" "length t = Suc n + 1" using assms by (cases s) auto
  then obtain v z where v: "t = v @ [z]" by (cases t rule: rev_cases) auto
  with t obtain b bs where "v = b # bs" by (cases v) auto
  with t v that show ?thesis by simp
qed

lemma pk_Set_bytes: "GetLen b = Suc (length bs) \<Longrightarrow>
    take (Suc (length bs)) (pk_vch (pk_Set (b # bs) pk)) = b # bs \<and> pk_bytes (pk_Set (b # bs) pk) = b # bs \<and>
    hd (pk_vch (pk_Set (b # bs) pk)) = b"
  by (simp add: pk_Set_def pk_bytes_def pk_size_def Let_def)

lemma IsToPubKey_Some:
  assumes "IsToPubKey ssl s = Some pk"
  shows "\<exists>b bs. s = of_nat (Suc (length bs)) # (b # bs) @ [OP_CHECKSIG] \<and>
    take (Suc (length bs)) (pk_vch pk) = b # bs \<and> hd (pk_vch pk) = b \<and>
    (b \<in> {2, 3} \<and> length bs = 32 \<or> b = 4 \<and> length bs = 64 \<and> o2i_ECPublicKey ssl (b # bs) \<noteq> None)"
proof -
  consider "length s = 35" "s ! 0 = 33" "s ! 34 = OP_CHECKSIG" "s ! 1 = 2 \<or> s ! 1 = 3"
      "pk = pk_Set (take 33 (drop 1 s)) invalid_pubkey"
    | "length s = 67" "s ! 0 = 65" "s ! 66 = OP_CHECKSIG" "s ! 1 = 4"
      "pk = pk_Set (take 65 (drop 1 s)) invalid_pubkey" "IsFullyValid ssl pk"
    using assms by (auto simp: IsToPubKey_def Let_def split: if_splits)
  then show ?thesis
  proof cases
    case 1
    obtain a b bs z where s: "s = a # (b # bs) @ [z]" "length bs = 32" using 1(1) by (auto intro: outer_bytes [of s 32])
    then have "take 33 (drop 1 s) = b # bs" "a = 33" "z = OP_CHECKSIG" "b = 2 \<or> b = 3"
      using 1 by (auto simp: nth_append)
    moreover from this have "GetLen b = Suc (length bs)" using s by (auto simp: GetLen_def)
    ultimately show ?thesis using s 1(5) pk_Set_bytes [of b bs invalid_pubkey] by auto
  next
    case 2
    obtain a b bs z where s: "s = a # (b # bs) @ [z]" "length bs = 64" using 2(1) by (auto intro: outer_bytes [of s 64])
    then have "take 65 (drop 1 s) = b # bs" "a = 65" "z = OP_CHECKSIG" "b = 4"
      using 2 by (auto simp: nth_append)
    moreover from this have "GetLen b = Suc (length bs)" using s by (auto simp: GetLen_def)
    ultimately show ?thesis using s 2(5,6) pk_Set_bytes [of b bs invalid_pubkey] by (auto simp: IsFullyValid_def)
  qed
qed

lemma ReadVarInt_small: "b < 0x80 \<Longrightarrow> ReadVarInt (b # s) = Inr (ucast b, s)"
proof -
  assume "b < 0x80"
  then have "unat b < 2 ^ 7" by (simp add: word_less_nat_alt)
  then have "take_bit 7 b = b"
    unfolding word_unat_eq_iff by (simp add: unsigned_take_bit_eq take_bit_nat_eq_self)
  then have m: "b AND 0x7F = b" by (simp add: septet_mask take_bit_eq_mask)
  have "\<not> bit b 7" using byte_split7 [of b] \<open>unat b < 2 ^ 7\<close> by auto
  then have "b AND 0x80 = 0" using byte_sign [of b] by simp
  with m show ?thesis by (simp add: ReadVarInt_def Let_def)
qed

lemma last_odd: "bs \<noteq> [] \<Longrightarrow> (last bs AND 1 :: byte) = 0 \<or> (last bs AND 1 :: byte) = 1"
  by (auto simp: and_one_eq odd_iff_mod_2_eq_one)

lemma ucast_ucast_u64: "(ucast (ucast (b :: byte) :: u64) :: u32) = ucast b"
  by (rule bit_word_eqI) (auto simp: bit_simps)

lemma ucast_u32_u64: "(ucast (ucast (w :: u32) :: u64) :: u32) = w"
  by (rule bit_word_eqI) (auto simp: bit_simps)

lemma Compress_key: "IsToKeyID s = Some h \<Longrightarrow> Compress_script ssl s = Some (0 # h)"
  by (simp add: Compress_script_def)

lemma Compress_hash: "IsToKeyID s = None \<Longrightarrow> IsToScriptID s = Some h \<Longrightarrow> Compress_script ssl s = Some (1 # h)"
  by (simp add: Compress_script_def)

lemma compressed_roundtrip:
  assumes "Compress_script ssl s = Some (b # bs)" "b < 6" "length bs = unat (GetSpecialSize (ucast b))"
    "Decompress_script ssl (ucast b) bs old = Inr (True, s)"
  shows "script_Unserialize ssl old (script_Serialize ssl s @ st) = Inr (s, st)"
proof -
  have n: "unat b < 6" using assms(2) by (simp add: word_less_nat_alt)
  then have "b < 0x80" "(ucast b :: u32) < 6" by (simp_all add: word_less_nat_alt unsigned_ucast_eq take_bit_nat_eq_self)
  then show ?thesis using assms
    by (simp add: script_Serialize_def script_Unserialize_def ReadVarInt_small Let_def ucast_ucast_u64)
qed

lemma uncompressed_key_roundtrip:
  assumes "point_encoding_ok ssl" "length x = 32" "length y = 32" "o2i_ECPublicKey ssl (4 # x @ y) = Some p"
  shows "Decompress_script ssl (ucast (4 OR (last y AND 1) :: byte)) x old
    = Inr (True, 65 # (4 # x @ y) @ [OP_CHECKSIG])"
proof -
  have pe: "i2o_ECPublicKey ssl p False = 4 # x @ y" "o2i_ECPublicKey ssl ((2 OR (last y AND 1)) # x) = Some p"
    using assms unfolding point_encoding_ok_def by blast+
  have "y \<noteq> []" using assms(3) by auto
  let ?P = "\<lambda>c. mk_pubkey (c # x)"
  have set: "take 65 (pk_vch (pk_Set (4 # x @ y) pk)) = 4 # x @ y" "pk_size (pk_Set (4 # x @ y) pk) = 65" for pk
    using pk_Set_bytes [of 4 "x @ y" pk] assms(2,3) by (simp_all add: GetLen_def pk_size_def)
  have dec: "pk_Decompress ssl (?P c) = Inr (True, pk_Set (4 # x @ y) (?P c))"
    if "c = 2 OR (last y AND 1)" for c
  proof -
    have "c = 2 \<or> c = 3" using last_odd [OF \<open>y \<noteq> []\<close>] that by auto
    then have "pk_size (?P c) = 33" "pk_bytes (?P c) = c # x"
      using assms(2) pk_Set_bytes [of c x "\<lparr>pk_vch = []\<rparr>"]
      by (auto simp: mk_pubkey_def pk_size_def GetLen_def)
    then show ?thesis using pe that assms(2,3)
      by (simp add: pk_Decompress_def pk_IsValid_def eckey_GetPubKey_def Let_def)
  qed
  from last_odd [OF \<open>y \<noteq> []\<close>] show ?thesis
    using dec [of 2] dec [of 3] assms(2,3) set by (auto simp: Decompress_script_def)
qed

lemma script_roundtrip:
  assumes "point_encoding_ok ssl" "length s + 6 < 2 ^ 32"
  shows "script_Unserialize ssl old (script_Serialize ssl s @ st) = Inr (s, st)"
proof -
  consider h where "IsToKeyID s = Some h"
    | h where "IsToKeyID s = None" "IsToScriptID s = Some h"
    | pk where "IsToKeyID s = None" "IsToScriptID s = None" "IsToPubKey ssl s = Some pk"
    | "IsToKeyID s = None" "IsToScriptID s = None" "IsToPubKey ssl s = None"
    by (cases "IsToKeyID s"; cases "IsToScriptID s"; cases "IsToPubKey ssl s") auto
  then show ?thesis
  proof cases
    case 1
    with IsToKeyID_Some [OF 1] show ?thesis
      by (intro compressed_roundtrip [OF Compress_key [OF 1]]) (simp_all add: GetSpecialSize_def Decompress_script_def)
  next
    case 2
    with IsToScriptID_Some [OF 2(2)] show ?thesis
      by (intro compressed_roundtrip [OF Compress_hash [OF 2]]) (simp_all add: GetSpecialSize_def Decompress_script_def)
  next
    case 3
    from IsToPubKey_Some [OF 3(3)] obtain b bs where b: "s = of_nat (Suc (length bs)) # (b # bs) @ [OP_CHECKSIG]"
      "take (Suc (length bs)) (pk_vch pk) = b # bs" "hd (pk_vch pk) = b"
      "b \<in> {2, 3} \<and> length bs = 32 \<or> b = 4 \<and> length bs = 64 \<and> o2i_ECPublicKey ssl (b # bs) \<noteq> None"
      by (elim exE conjE)
    have tl: "take (length bs) (tl (pk_vch pk)) = bs" using b(2) by (cases "pk_vch pk") auto
    show ?thesis
    proof (cases "b = 4")
      case False
      then have l: "length bs = 32" "b = 2 \<or> b = 3" using b(4) by simp_all
      have "Compress_script ssl s = Some (b # bs)"
        using 3 b(3) tl l by (auto simp: Compress_script_def Let_def drop_Suc)
      moreover have "s = [33, b] @ bs @ [OP_CHECKSIG]" using b(1) l(1) by simp
      ultimately show ?thesis using l
        by (intro compressed_roundtrip [of _ _ b bs]) (auto simp: GetSpecialSize_def Decompress_script_def)
    next
      case True
      define x y where xy: "x = take 32 bs" "y = drop 32 bs"
      then have bs: "bs = x @ y" and l: "length x = 32" "length y = 32" "length bs = 64" "y \<noteq> []"
        using b(4) True by auto
      obtain p where p: "o2i_ECPublicKey ssl (4 # x @ y) = Some p" using b(4) True bs by auto
      have "pk_vch pk ! 64 = (b # bs) ! 64" using b(2) l(3) by (metis lessI nth_take)
      then have "pk_vch pk ! 64 = last y" using bs l by (simp add: nth_append last_conv_nth)
      moreover have "take 32 (tl (pk_vch pk)) = x"
        using arg_cong [OF tl, of "take 32"] l(3) xy(1) by (simp add: min_def)
      ultimately have "Compress_script ssl s = Some ((4 OR (last y AND 1)) # x)"
        using 3 b(3) True by (simp add: Compress_script_def Let_def drop_Suc)
      moreover have "s = 65 # (4 # x @ y) @ [OP_CHECKSIG]" using b(1) True bs l(1,2) by simp
      ultimately show ?thesis
        using last_odd [OF l(4)] uncompressed_key_roundtrip [OF assms(1) l(1,2) p] l(1)
        by (intro compressed_roundtrip [of _ _ "4 OR (last y AND 1)" x]) (auto simp: GetSpecialSize_def)
    qed
  next
    case 4
    have u: "unat (of_nat (length s) + 6 :: u32) = length s + 6"
      using assms(2) by (simp add: unat_word_ariths unat_of_nat)
    then have "\<not> (of_nat (length s) + 6 :: u32) < 6" "unat (of_nat (length s) + 6 - 6 :: u32) = length s"
      using assms(2) by (simp_all add: word_less_nat_alt unat_of_nat)
    then show ?thesis using 4 assms(2) ReadVarInt_Write [of "ucast (of_nat (length s) + 6 :: u32)"]
      by (simp add: script_Serialize_def Compress_script_def script_Unserialize_def Let_def ucast_u32_u64)
  qed
qed

section \<open>An instance of the encoding\<close>

lemma be_bytes_at_Suc: "be_bytes_at (Suc k) n = be_bytes_at k (n div 256) @ [of_int n]"
proof -
  have "n div 256 ^ (Suc k - 1 - i) = (n div 256) div 256 ^ (k - 1 - i)" if "i < k" for i
  proof -
    have "Suc k - 1 - i = Suc (k - 1 - i)" using that by simp
    then show ?thesis by (simp add: zdiv_zmult2_eq)
  qed
  then show ?thesis by (simp add: be_bytes_at_def)
qed

lemma byte_256: "x * 256 = (0 :: byte)"
proof -
  have "(256 :: byte) = 0" by simp
  then show ?thesis by (simp only: mult_zero_right)
qed

lemma be_bytes_at_value: "be_bytes_at (length x) (int (be_value x)) = x"
proof (induction x rule: rev_induct)
  case (snoc b x)
  have "unat b < 2 ^ 8" by (rule order_less_le_trans [OF unsigned_less]) simp
  moreover have "(256 * i + int u) div 256 = i" if "u < 2 ^ 8" for i u using that by simp
  ultimately have "(256 * int (be_value x) + int (unat b)) div 256 = int (be_value x)" by blast
  then show ?case using snoc by (simp add: byte_256 be_bytes_at_Suc be_value_append mult.commute)
qed (simp add: be_bytes_at_def)

lemma sample_point_encoding_ok: "point_encoding_ok sample_ssl"
  unfolding point_encoding_ok_def
proof (intro allI impI)
  fix x y :: data and p
  assume l: "length x = 32" "length y = 32" and p: "o2i_ECPublicKey sample_ssl (4 # x @ y) = Some p"
  then have y: "y = replicate 32 0" and v: "0 < be_value x" "int (be_value x) < secp256k1_order"
    and p: "p = Some (int (be_value x), 0)"
    by (auto simp: sample_ssl_def sample_o2i_def Let_def split: if_splits)
  have "be_bytes_at 32 (int (be_value x)) = x" using be_bytes_at_value [of x] l(1) by simp
  then show "i2o_ECPublicKey sample_ssl p False = 4 # x @ y \<and>
      o2i_ECPublicKey sample_ssl ((2 OR (last y AND 1)) # x) = Some p"
    using l y v p by (simp add: sample_ssl_def sample_i2o_def sample_o2i_def Let_def)
qed

text \<open>C26: Serializing a script through CScriptCompressor and reading it back gives the script: pay-to-key-hash,
  pay-to-script-hash and pay-to-key scripts through their short forms (an uncompressed key through the
  parity of its second coordinate), every other script through its length. The length plus six must fit
  in 32 bits and point encodings must behave as documented.\<close>

theorem compressed_script_roundtrip:
  assumes "point_encoding_ok ssl" "length s + 6 < 2 ^ 32"
  shows "script_Unserialize ssl old (script_Serialize ssl s @ st) = Inr (s, st)"
  using assms by (rule script_roundtrip)

theorem compressed_script_roundtrip_witness:
  "script_Unserialize sample_ssl [] (script_Serialize sample_ssl
     (65 # (4 # (replicate 31 0 @ [7]) @ replicate 32 0) @ [OP_CHECKSIG]) @ [1])
   = Inr (65 # (4 # (replicate 31 0 @ [7]) @ replicate 32 0) @ [OP_CHECKSIG], [1])"
  by (rule compressed_script_roundtrip [OF sample_point_encoding_ok]) simp

end
