(* ===== verification/Hashing.thy ===== *)
theory Hashing
  imports Keys Bignum
begin

text \<open>
  \<open>src/src/lib/core/hash.h\<close> and \<open>hash.cpp\<close>: the hash of several ranges, \<open>CHashWriter\<close>, the stream that
  hashes what is serialized into it, \<open>MurmurHash3\<close> and \<open>HMAC_SHA512\<close>. A digest context of OpenSSL is
  the list of bytes it was updated with; \<open>_Final\<close> digests them.
\<close>

section \<open>Hashing of ranges and objects\<close>

definition Hash2 :: "openssl \<Rightarrow> data \<Rightarrow> data \<Rightarrow> base_uint" where
  "Hash2 ssl p1 p2 =
     (let ctx = []; ctx = ctx @ p1; ctx = ctx @ p2; hash1 = bu_of_bytes (SHA256 ssl ctx)
      in bu_of_bytes (SHA256 ssl (bu_bytes hash1)))"

definition Hash3 :: "openssl \<Rightarrow> data \<Rightarrow> data \<Rightarrow> data \<Rightarrow> base_uint" where
  "Hash3 ssl p1 p2 p3 =
     (let ctx = []; ctx = ctx @ p1; ctx = ctx @ p2; ctx = ctx @ p3; hash1 = bu_of_bytes (SHA256 ssl ctx)
      in bu_of_bytes (SHA256 ssl (bu_bytes hash1)))"

record CHashWriter =
  hw_ctx :: data
  hw_nType :: u32
  hw_nVersion :: u32

definition hw_new :: "u32 \<Rightarrow> u32 \<Rightarrow> CHashWriter" where
  "hw_new nTypeIn nVersionIn = \<lparr>hw_ctx = [], hw_nType = nTypeIn, hw_nVersion = nVersionIn\<rparr>"

definition hw_write :: "data \<Rightarrow> CHashWriter \<Rightarrow> CHashWriter" where
  "hw_write pch w = w\<lparr>hw_ctx := hw_ctx w @ pch\<rparr>"

definition hw_GetHash :: "openssl \<Rightarrow> CHashWriter \<Rightarrow> base_uint" where
  "hw_GetHash ssl w =
     (let hash1 = bu_of_bytes (SHA256 ssl (hw_ctx w))
      in bu_of_bytes (SHA256 ssl (bu_bytes hash1)))"

definition SER_NETWORK :: u32 where "SER_NETWORK = 1"
definition SER_DISK :: u32 where "SER_DISK = 2"
definition SER_GETHASH :: u32 where "SER_GETHASH = 4"

definition PROTOCOL_VERSION :: u32 where
  "PROTOCOL_VERSION = 70002"

text \<open>\<open>ser nType nVersion\<close> is the \<open>Serialize\<close> member of the object.\<close>

definition SerializeHash :: "openssl \<Rightarrow> (u32 \<Rightarrow> u32 \<Rightarrow> data) \<Rightarrow> base_uint" where
  "SerializeHash ssl ser =
     (let ss = hw_new SER_GETHASH PROTOCOL_VERSION;
          ss = hw_write (ser (hw_nType ss) (hw_nVersion ss)) ss
      in hw_GetHash ssl ss)"

lemma hash_of_ranges: "Hash2 ssl p1 p2 = Hash ssl (p1 @ p2)" "Hash3 ssl p1 p2 p3 = Hash ssl (p1 @ p2 @ p3)"
  by (simp_all add: Hash2_def Hash3_def Hash_def Let_def)

lemma SerializeHash_Hash: "SerializeHash ssl ser = Hash ssl (ser SER_GETHASH PROTOCOL_VERSION)"
  by (simp add: SerializeHash_def hw_new_def hw_write_def hw_GetHash_def Hash_def Let_def)

lemma length_Hash: "digests_ok ssl \<Longrightarrow> length (Hash ssl v) = 8"
  by (simp add: Hash_def digests_ok_def)

section \<open>MurmurHash3\<close>

definition ROTL32 :: "u32 \<Rightarrow> nat \<Rightarrow> u32" where
  "ROTL32 x r = push_bit r x OR drop_bit (32 - r) x"

definition murmur_k :: "u32 \<Rightarrow> u32" where
  "murmur_k k1 = ROTL32 (k1 * 0xcc9e2d51) 15 * 0x1b873593"

text \<open>The loop over blocks of four bytes gives the hash and the bytes of the tail.\<close>

fun murmur_blocks :: "u32 \<Rightarrow> data \<Rightarrow> u32 \<times> data" where
  "murmur_blocks h1 (a # b # c # d # rest) =
     murmur_blocks (ROTL32 (h1 XOR murmur_k (le_word [a, b, c, d])) 13 * 5 + 0xe6546b64) rest"
| "murmur_blocks h1 tail = (h1, tail)"

definition murmur_tail :: "u32 \<Rightarrow> data \<Rightarrow> u32" where
  "murmur_tail h1 tail =
     (if tail = [] then h1
      else let k1 = 0;
               k1 = (if length tail = 3 then k1 XOR push_bit 16 (ucast (tail ! 2)) else k1);
               k1 = (if length tail \<ge> 2 then k1 XOR push_bit 8 (ucast (tail ! 1)) else k1);
               k1 = k1 XOR ucast (tail ! 0)
           in h1 XOR murmur_k k1)"

definition MurmurHash3 :: "u32 \<Rightarrow> data \<Rightarrow> u32" where
  "MurmurHash3 nHashSeed v =
     (let (h1, tail) = murmur_blocks nHashSeed v;
          h1 = murmur_tail h1 tail;
          h1 = h1 XOR of_nat (length v);
          h1 = (h1 XOR drop_bit 16 h1) * 0x85ebca6b;
          h1 = (h1 XOR drop_bit 13 h1) * 0xc2b2ae35
      in h1 XOR drop_bit 16 h1)"

section \<open>HMAC-SHA512\<close>

record HMAC_SHA512_CTX =
  ctxInner :: data
  ctxOuter :: data

definition HMAC_SHA512_Init :: "openssl \<Rightarrow> data \<Rightarrow> HMAC_SHA512_CTX" where
  "HMAC_SHA512_Init ssl pkey =
     (let key = (if length pkey \<le> 128 then pkey @ replicate (128 - length pkey) 0
                 else SHA512 ssl pkey @ replicate 64 0);
          key = map (\<lambda>b. b XOR 0x5c) key;
          outer = key;
          key = map (\<lambda>b. b XOR (0x5c XOR 0x36)) key
      in \<lparr>ctxInner = key, ctxOuter = outer\<rparr>)"

definition HMAC_SHA512_Update :: "data \<Rightarrow> HMAC_SHA512_CTX \<Rightarrow> HMAC_SHA512_CTX" where
  "HMAC_SHA512_Update pdata ctx = ctx\<lparr>ctxInner := ctxInner ctx @ pdata\<rparr>"

definition HMAC_SHA512_Final :: "openssl \<Rightarrow> HMAC_SHA512_CTX \<Rightarrow> data" where
  "HMAC_SHA512_Final ssl ctx =
     (let buf = SHA512 ssl (ctxInner ctx) in SHA512 ssl (ctxOuter ctx @ buf))"

text \<open>The reference: RFC 2104 over SHA-512.\<close>

definition hmac_key :: "openssl \<Rightarrow> data \<Rightarrow> data" where
  "hmac_key ssl k = (let k = (if length k > 128 then SHA512 ssl k else k) in k @ replicate (128 - length k) 0)"

definition hmac_spec :: "openssl \<Rightarrow> data \<Rightarrow> data \<Rightarrow> data" where
  "hmac_spec ssl k m =
     SHA512 ssl (map (\<lambda>b. b XOR 0x5c) (hmac_key ssl k) @
       SHA512 ssl (map (\<lambda>b. b XOR 0x36) (hmac_key ssl k) @ m))"

lemma xor_twice: "(a XOR c) XOR (c XOR b) = (a XOR b :: byte)"
  by (simp add: xor.assoc [symmetric]) (simp add: xor.assoc)

text \<open>Whatever the chunks in which the message is given to HMAC_SHA512_Update, the three calls compute
  the HMAC of RFC 2104 over SHA-512, also for keys longer than the block of 128 bytes; the pads are
  derived from each other by one exclusive or.\<close>

theorem hmac_sha512_rfc2104:
  assumes "digests_ok ssl"
  shows "HMAC_SHA512_Final ssl (fold HMAC_SHA512_Update chunks (HMAC_SHA512_Init ssl k)) =
    hmac_spec ssl k (concat chunks)"
proof -
  have upd: "ctxInner (fold HMAC_SHA512_Update chunks c) = ctxInner c @ concat chunks"
    "ctxOuter (fold HMAC_SHA512_Update chunks c) = ctxOuter c" for c
    by (induction chunks arbitrary: c) (simp_all add: HMAC_SHA512_Update_def)
  have pads: "map (\<lambda>b. b XOR (0x5c XOR 0x36)) (map (\<lambda>b. b XOR 0x5c) v) = map (\<lambda>b :: byte. b XOR 0x36) v" for v
    using xor_twice [of _ "0x5c" "0x36"] by simp
  have key: "(if length k \<le> 128 then k @ replicate (128 - length k) 0
                 else SHA512 ssl k @ replicate 64 0) = hmac_key ssl k"
    using assms by (simp add: hmac_key_def digests_ok_def)
  show ?thesis
    unfolding HMAC_SHA512_Init_def key Let_def pads HMAC_SHA512_Final_def upd
    by (simp add: hmac_spec_def)
qed

theorem hmac_sha512_rfc2104_witness:
  "digests_ok sample_ssl \<and>
   HMAC_SHA512_Final sample_ssl (fold HMAC_SHA512_Update [[1], [], [2, 3]] (HMAC_SHA512_Init sample_ssl (replicate 200 7))) =
    hmac_spec sample_ssl (replicate 200 7) [1, 2, 3]"
  using hmac_sha512_rfc2104 [OF sample_digests_ok, of "[[1], [], [2, 3]]"] sample_digests_ok by simp

lemma murmur_vectors:
  "MurmurHash3 0 [] = 0" "MurmurHash3 0xFBA4C795 [] = 0x6a396f08" "MurmurHash3 0xffffffff [] = 0x81f16f39"
  "MurmurHash3 0 [0] = 0x514e28b7" "MurmurHash3 0xFBA4C795 [0] = 0xea3f0b17" "MurmurHash3 0 [0xff] = 0xfd6cf10d"
  "MurmurHash3 0 [0, 0x11] = 0x16c6b7ab" "MurmurHash3 0 [0, 0x11, 0x22] = 0x8eb51c3d"
  "MurmurHash3 0 [0, 0x11, 0x22, 0x33] = 0xb4471bf8" "MurmurHash3 0 [0, 0x11, 0x22, 0x33, 0x44] = 0xe2301fa8"
  by code_simp+

end
