(* ===== verification/Transactions.thy ===== *)
theory Transactions
  imports Hashing ScriptCompressor
begin

text \<open>
  \<open>src/src/lib/core/core.h\<close> and \<open>core.cpp\<close>: outpoints, inputs, outputs, transactions and their wire
  format, amounts, the compressed output format and the undo records. Signed fields are kept as
  words and read with \<open>sint\<close>. The wire formats interpret the locale \<open>serializer\<close>.
\<close>

section \<open>Amounts\<close>

definition COIN :: int where
  "COIN = 100000000"

definition MAX_MONEY :: int where
  "MAX_MONEY = 21000000 * COIN"

definition MoneyRange :: "u64 \<Rightarrow> bool" where
  "MoneyRange nValue \<longleftrightarrow> sint nValue \<ge> 0 \<and> sint nValue \<le> MAX_MONEY"

section \<open>Outpoints\<close>

record COutPoint =
  op_hash :: base_uint
  op_n :: u32

definition null_outpoint :: COutPoint where
  "null_outpoint = \<lparr>op_hash = bu_of_u64 8 0, op_n = - 1\<rparr>"

definition op_SetNull :: "COutPoint \<Rightarrow> COutPoint" where
  "op_SetNull p = p\<lparr>op_hash := bu_of_u64 8 0, op_n := - 1\<rparr>"

definition op_IsNull :: "COutPoint \<Rightarrow> bool" where
  "op_IsNull p \<longleftrightarrow> bu_eq_u64 (op_hash p) 0 \<and> op_n p = - 1"

definition op_less :: "COutPoint \<Rightarrow> COutPoint \<Rightarrow> bool" where
  "op_less a b \<longleftrightarrow>
     bu_less (op_hash a) (op_hash b) \<or> bu_eq (op_hash a) (op_hash b) \<and> op_n a < op_n b"

definition op_eq :: "COutPoint \<Rightarrow> COutPoint \<Rightarrow> bool" where
  "op_eq a b \<longleftrightarrow> bu_eq (op_hash a) (op_hash b) \<and> op_n a = op_n b"

text \<open>\<open>FLATDATA\<close>: the 36 bytes of the object.\<close>

definition op_Serialize :: "COutPoint \<Rightarrow> data" where
  "op_Serialize p = bu_bytes (op_hash p) @ le_bytes 4 (op_n p)"

definition op_Unserialize :: "COutPoint reader" where
  "op_Unserialize s =
     rbind (read_bytes 36 s) (\<lambda>(bs, s).
       Inr (\<lparr>op_hash = bu_of_bytes (take 32 bs), op_n = le_word (drop 32 bs)\<rparr>, s))"

definition op_GetSerializeSize :: "COutPoint \<Rightarrow> u32" where
  "op_GetSerializeSize p = 36"

section \<open>Inputs\<close>

record CTxIn =
  ti_prevout :: COutPoint
  ti_scriptSig :: script
  ti_nSequence :: u32

definition empty_txin :: CTxIn where
  "empty_txin = \<lparr>ti_prevout = null_outpoint, ti_scriptSig = [], ti_nSequence = - 1\<rparr>"

definition mk_txin :: "base_uint \<Rightarrow> u32 \<Rightarrow> script \<Rightarrow> u32 \<Rightarrow> CTxIn" where
  "mk_txin hashPrevTx nOut scriptSigIn nSequenceIn =
     \<lparr>ti_prevout = \<lparr>op_hash = hashPrevTx, op_n = nOut\<rparr>, ti_scriptSig = scriptSigIn, ti_nSequence = nSequenceIn\<rparr>"

definition txin_IsFinal :: "CTxIn \<Rightarrow> bool" where
  "txin_IsFinal i \<longleftrightarrow> ti_nSequence i = - 1"

definition txin_eq :: "CTxIn \<Rightarrow> CTxIn \<Rightarrow> bool" where
  "txin_eq a b \<longleftrightarrow>
     op_eq (ti_prevout a) (ti_prevout b) \<and> ti_scriptSig a = ti_scriptSig b \<and> ti_nSequence a = ti_nSequence b"

definition txin_Serialize :: "CTxIn \<Rightarrow> data" where
  "txin_Serialize i =
     op_Serialize (ti_prevout i) @ Serialize_bytes (ti_scriptSig i) @ le_bytes 4 (ti_nSequence i)"

definition txin_Unserialize :: "CTxIn reader" where
  "txin_Unserialize s =
     rbind (op_Unserialize s) (\<lambda>(prevout, s).
     rbind (Unserialize_bytes s) (\<lambda>(scriptSig, s).
     rbind (read_word 4 s) (\<lambda>(nSequence, s).
       Inr (\<lparr>ti_prevout = prevout, ti_scriptSig = scriptSig, ti_nSequence = nSequence\<rparr>, s))))"

definition txin_GetSerializeSize :: "CTxIn \<Rightarrow> u32" where
  "txin_GetSerializeSize i =
     op_GetSerializeSize (ti_prevout i) + GetSerializeSize_bytes (ti_scriptSig i) + 4"

section \<open>Outputs\<close>

record CTxOut =
  to_nValue :: u64
  to_scriptPubKey :: script

definition txout_SetNull :: "CTxOut \<Rightarrow> CTxOut" where
  "txout_SetNull o' = o'\<lparr>to_nValue := - 1, to_scriptPubKey := []\<rparr>"

definition null_txout :: CTxOut where
  "null_txout = \<lparr>to_nValue = - 1, to_scriptPubKey = []\<rparr>"

definition txout_IsNull :: "CTxOut \<Rightarrow> bool" where
  "txout_IsNull o' \<longleftrightarrow> to_nValue o' = - 1"

definition txout_Serialize :: "CTxOut \<Rightarrow> data" where
  "txout_Serialize o' = le_bytes 8 (to_nValue o') @ Serialize_bytes (to_scriptPubKey o')"

definition txout_Unserialize :: "CTxOut reader" where
  "txout_Unserialize s =
     rbind (read_word 8 s) (\<lambda>(nValue, s).
     rbind (Unserialize_bytes s) (\<lambda>(scriptPubKey, s).
       Inr (\<lparr>to_nValue = nValue, to_scriptPubKey = scriptPubKey\<rparr>, s)))"

definition txout_GetSerializeSize :: "CTxOut \<Rightarrow> u32" where
  "txout_GetSerializeSize o' = 8 + GetSerializeSize_bytes (to_scriptPubKey o')"

definition txout_GetHash :: "openssl \<Rightarrow> CTxOut \<Rightarrow> base_uint" where
  "txout_GetHash ssl o' = SerializeHash ssl (\<lambda>nType nVersion. txout_Serialize o')"

definition IsDust :: "CTxOut \<Rightarrow> u64 \<Rightarrow> bool" where
  "IsDust o' nMinRelayTxFee \<longleftrightarrow>
     trunc_div (sint (to_nValue o' * 1000)) (sint (3 * (txout_GetSerializeSize o' + 148)))
       < sint nMinRelayTxFee"

section \<open>Transactions\<close>

record CTransaction =
  tx_nVersion :: u32
  tx_vin :: "CTxIn list"
  tx_vout :: "CTxOut list"
  tx_nLockTime :: u32

definition tx_SetNull :: "CTransaction \<Rightarrow> CTransaction" where
  "tx_SetNull tx = tx\<lparr>tx_nVersion := 1, tx_vin := [], tx_vout := [], tx_nLockTime := 0\<rparr>"

definition null_tx :: CTransaction where
  "null_tx = \<lparr>tx_nVersion = 1, tx_vin = [], tx_vout = [], tx_nLockTime = 0\<rparr>"

definition tx_IsNull :: "CTransaction \<Rightarrow> bool" where
  "tx_IsNull tx \<longleftrightarrow> tx_vin tx = [] \<and> tx_vout tx = []"

definition tx_Serialize :: "CTransaction \<Rightarrow> data" where
  "tx_Serialize tx =
     le_bytes 4 (tx_nVersion tx) @ Serialize_vector txin_Serialize (tx_vin tx) @
     Serialize_vector txout_Serialize (tx_vout tx) @ le_bytes 4 (tx_nLockTime tx)"

definition tx_Unserialize :: "CTransaction reader" where
  "tx_Unserialize s =
     rbind (read_word 4 s) (\<lambda>(nVersion, s).
     rbind (Unserialize_vector txin_Unserialize s) (\<lambda>(vin, s).
     rbind (Unserialize_vector txout_Unserialize s) (\<lambda>(vout, s).
     rbind (read_word 4 s) (\<lambda>(nLockTime, s).
       Inr (\<lparr>tx_nVersion = nVersion, tx_vin = vin, tx_vout = vout, tx_nLockTime = nLockTime\<rparr>, s)))))"

definition tx_GetSerializeSize :: "CTransaction \<Rightarrow> u32" where
  "tx_GetSerializeSize tx =
     4 + GetSerializeSize_vector txin_GetSerializeSize (tx_vin tx) +
     GetSerializeSize_vector txout_GetSerializeSize (tx_vout tx) + 4"

definition tx_GetHash :: "openssl \<Rightarrow> CTransaction \<Rightarrow> base_uint" where
  "tx_GetHash ssl tx = SerializeHash ssl (\<lambda>nType nVersion. tx_Serialize tx)"

definition IsCoinBase :: "CTransaction \<Rightarrow> bool" where
  "IsCoinBase tx \<longleftrightarrow> length (tx_vin tx) = 1 \<and> op_IsNull (ti_prevout (tx_vin tx ! 0))"

text \<open>\<open>GetValueOut\<close>: the sum wraps before it is checked.\<close>

fun GetValueOut_loop :: "CTxOut list \<Rightarrow> u64 \<Rightarrow> u64 result" where
  "GetValueOut_loop [] nValueOut = Inr nValueOut"
| "GetValueOut_loop (txout # vout) nValueOut =
     (let nValueOut = nValueOut + to_nValue txout
      in if \<not> MoneyRange (to_nValue txout) \<or> \<not> MoneyRange nValueOut
         then Inl (Thrown ''CTransaction::GetValueOut() : value out of range'')
         else GetValueOut_loop vout nValueOut)"

definition GetValueOut :: "CTransaction \<Rightarrow> u64 result" where
  "GetValueOut tx = GetValueOut_loop (tx_vout tx) 0"

fun IsNewerThan_loop :: "(CTxIn \<times> CTxIn) list \<Rightarrow> bool \<Rightarrow> u32 \<Rightarrow> bool" where
  "IsNewerThan_loop [] fNewer nLowest = fNewer"
| "IsNewerThan_loop ((i, old) # rest) fNewer nLowest =
     (if ti_nSequence i \<noteq> ti_nSequence old then
        let (fNewer, nLowest) = (if ti_nSequence i \<le> nLowest then (False, ti_nSequence i) else (fNewer, nLowest));
            (fNewer, nLowest) = (if ti_nSequence old < nLowest then (True, ti_nSequence old) else (fNewer, nLowest))
        in IsNewerThan_loop rest fNewer nLowest
      else IsNewerThan_loop rest fNewer nLowest)"

definition IsNewerThan :: "CTransaction \<Rightarrow> CTransaction \<Rightarrow> bool" where
  "IsNewerThan tx old =
     (if length (tx_vin tx) \<noteq> length (tx_vin old) then False
      else if list_ex (\<lambda>(i, j). \<not> op_eq (ti_prevout i) (ti_prevout j)) (zip (tx_vin tx) (tx_vin old)) then False
      else IsNewerThan_loop (zip (tx_vin tx) (tx_vin old)) False (- 1))"

section \<open>Compressed amounts\<close>

function CompressAmount_loop :: "u64 \<Rightarrow> nat \<Rightarrow> u64 \<times> nat" where
  "CompressAmount_loop n e =
     (if n mod 10 = 0 \<and> e < 9 then CompressAmount_loop (n div 10) (e + 1) else (n, e))"
  by pat_completeness auto
termination by (relation "measure (\<lambda>(n, e). 9 - e)") auto

declare CompressAmount_loop.simps [simp del]

definition CompressAmount :: "u64 \<Rightarrow> u64" where
  "CompressAmount n =
     (if n = 0 then 0
      else let (n, e) = CompressAmount_loop n 0
           in if e < 9 then
                let d = n mod 10; n = n div 10
                in 1 + (n * 9 + d - 1) * 10 + of_nat e
              else 1 + (n - 1) * 10 + 9)"

fun times10 :: "nat \<Rightarrow> u64 \<Rightarrow> u64" where
  "times10 0 n = n"
| "times10 (Suc e) n = times10 e (n * 10)"

definition DecompressAmount :: "u64 \<Rightarrow> u64" where
  "DecompressAmount x =
     (if x = 0 then 0
      else let x = x - 1; e = unat (x mod 10); x = x div 10
           in times10 e
                (if e < 9 then
                   let d = x mod 9 + 1; x = x div 9 in x * 10 + d
                 else x + 1))"

section \<open>Compressed outputs and undo records\<close>

definition txoutc_Serialize :: "openssl \<Rightarrow> CTxOut \<Rightarrow> data" where
  "txoutc_Serialize ssl o' =
     WriteVarInt (CompressAmount (to_nValue o')) @ script_Serialize ssl (to_scriptPubKey o')"

definition txoutc_GetSerializeSize :: "openssl \<Rightarrow> CTxOut \<Rightarrow> u32" where
  "txoutc_GetSerializeSize ssl o' =
     of_nat (GetSizeOfVarInt (CompressAmount (to_nValue o'))) + script_GetSerializeSize ssl (to_scriptPubKey o')"

definition txoutc_Unserialize :: "openssl \<Rightarrow> CTxOut \<Rightarrow> CTxOut reader" where
  "txoutc_Unserialize ssl old s =
     rbind (ReadVarInt s) (\<lambda>(nVal, s).
     rbind (script_Unserialize ssl (to_scriptPubKey old) s) (\<lambda>(scriptPubKey, s).
       Inr (\<lparr>to_nValue = DecompressAmount nVal, to_scriptPubKey = scriptPubKey\<rparr>, s)))"

record CTxInUndo =
  tu_txout :: CTxOut
  tu_fCoinBase :: bool
  tu_nHeight :: u32
  tu_nVersion :: u32

definition empty_undo :: CTxInUndo where
  "empty_undo = \<lparr>tu_txout = \<lparr>to_nValue = - 1, to_scriptPubKey = []\<rparr>, tu_fCoinBase = False, tu_nHeight = 0, tu_nVersion = 0\<rparr>"

text \<open>The version is written as a variable-length \<open>int\<close>, whose loop compares and shifts signed numbers.\<close>

function WriteVarInt_int_loop :: "int \<Rightarrow> data \<Rightarrow> data" where
  "WriteVarInt_int_loop n tmp =
     (let tmp = tmp @ [of_int (take_bit 7 n) OR (if tmp \<noteq> [] then 0x80 else 0)]
      in if n \<le> 0x7F then tmp else WriteVarInt_int_loop (drop_bit 7 n - 1) tmp)"
  by pat_completeness auto
termination
  by (relation "measure (\<lambda>(n, tmp). nat n)") (auto simp: drop_bit_eq_div)

declare WriteVarInt_int_loop.simps [simp del]

definition WriteVarInt_int :: "u32 \<Rightarrow> data" where
  "WriteVarInt_int n = rev (WriteVarInt_int_loop (sint n) [])"

function GetSizeOfVarInt_int :: "int \<Rightarrow> nat" where
  "GetSizeOfVarInt_int n = (if n \<le> 0x7F then 1 else Suc (GetSizeOfVarInt_int (drop_bit 7 n - 1)))"
  by pat_completeness auto
termination
  by (relation "measure nat") (auto simp: drop_bit_eq_div)

declare GetSizeOfVarInt_int.simps [simp del]

definition undo_code :: "CTxInUndo \<Rightarrow> u32" where
  "undo_code u = tu_nHeight u * 2 + (if tu_fCoinBase u then 1 else 0)"

definition undo_Serialize :: "openssl \<Rightarrow> CTxInUndo \<Rightarrow> data" where
  "undo_Serialize ssl u =
     WriteVarInt (ucast (undo_code u)) @
     (if tu_nHeight u > 0 then WriteVarInt_int (tu_nVersion u) else []) @
     txoutc_Serialize ssl (tu_txout u)"

definition undo_GetSerializeSize :: "openssl \<Rightarrow> CTxInUndo \<Rightarrow> u32" where
  "undo_GetSerializeSize ssl u =
     of_nat (GetSizeOfVarInt (ucast (undo_code u))) +
     (if tu_nHeight u > 0 then of_nat (GetSizeOfVarInt_int (sint (tu_nVersion u))) else 0) +
     txoutc_GetSerializeSize ssl (tu_txout u)"

definition undo_Unserialize :: "openssl \<Rightarrow> CTxInUndo \<Rightarrow> CTxInUndo reader" where
  "undo_Unserialize ssl old s =
     rbind (ReadVarInt s) (\<lambda>(n, s).
       let nCode = ucast n :: u32; nHeight = nCode div 2; fCoinBase = (nCode AND 1 \<noteq> 0)
       in rbind (if nHeight > 0 then rbind (ReadVarInt s) (\<lambda>(v, s). Inr (ucast v :: u32, s))
                 else Inr (tu_nVersion old, s)) (\<lambda>(nVersion, s).
          rbind (txoutc_Unserialize ssl (tu_txout old) s) (\<lambda>(txout, s).
            Inr (\<lparr>tu_txout = txout, tu_fCoinBase = fCoinBase, tu_nHeight = nHeight, tu_nVersion = nVersion\<rparr>, s))))"

definition txundo_Serialize :: "openssl \<Rightarrow> CTxInUndo list \<Rightarrow> data" where
  "txundo_Serialize ssl vprevout = Serialize_vector (undo_Serialize ssl) vprevout"

definition txundo_Unserialize :: "openssl \<Rightarrow> CTxInUndo list reader" where
  "txundo_Unserialize ssl s = Unserialize_vector (undo_Unserialize ssl empty_undo) s"

section \<open>The wire formats are read back\<close>

definition op_ok :: "COutPoint \<Rightarrow> bool" where
  "op_ok p \<longleftrightarrow> length (op_hash p) = 8"

definition txin_ok :: "CTxIn \<Rightarrow> bool" where
  "txin_ok i \<longleftrightarrow> op_ok (ti_prevout i) \<and> length (ti_scriptSig i) \<le> MAX_SIZE"

definition txout_ok :: "CTxOut \<Rightarrow> bool" where
  "txout_ok o' \<longleftrightarrow> length (to_scriptPubKey o') \<le> MAX_SIZE"

definition tx_ok :: "CTransaction \<Rightarrow> bool" where
  "tx_ok tx \<longleftrightarrow> list_all txin_ok (tx_vin tx) \<and> list_all txout_ok (tx_vout tx) \<and>
     length (tx_vin tx) \<le> MAX_SIZE \<and> length (tx_vout tx) \<le> MAX_SIZE"

interpretation ser_outpoint: serializer op_Serialize op_Unserialize op_GetSerializeSize op_ok
proof unfold_locales
  show "op_Unserialize (op_Serialize p @ s) = Inr (p, s)" if "op_ok p" for p s
    using that by (simp add: op_ok_def op_Unserialize_def op_Serialize_def read_bytes_def le_word_le_bytes)
  show "of_nat (length (op_Serialize p)) = op_GetSerializeSize p" if "op_ok p" for p
    using that by (simp add: op_Serialize_def op_GetSerializeSize_def op_ok_def)
qed


interpretation ser_txin: serializer txin_Serialize txin_Unserialize txin_GetSerializeSize txin_ok
  by unfold_locales
    (auto simp: txin_ok_def txin_Unserialize_def txin_Serialize_def txin_GetSerializeSize_def
      ser_outpoint.unser_ser Unserialize_bytes_Serialize ser_outpoint.size_ser length_Serialize_bytes)

interpretation ser_txout: serializer txout_Serialize txout_Unserialize txout_GetSerializeSize txout_ok
  by unfold_locales
    (auto simp: txout_ok_def txout_Unserialize_def txout_Serialize_def txout_GetSerializeSize_def
      Unserialize_bytes_Serialize length_Serialize_bytes)

interpretation ser_tx: serializer tx_Serialize tx_Unserialize tx_GetSerializeSize tx_ok
  by unfold_locales
    (auto simp: tx_ok_def tx_Unserialize_def tx_Serialize_def tx_GetSerializeSize_def
      ser_txin.vector_unser ser_txout.vector_unser ser_txin.vector_size ser_txout.vector_size)

text \<open>C20: A transaction is read back from its serialization, whatever bytes follow, and GetSerializeSize
  is the number of bytes; two transactions with the same serialization (hence with the same hashed
  bytes) are equal. Scripts and lists are at most MAX_SIZE long.\<close>

theorem transaction_roundtrip:
  assumes "tx_ok tx"
  shows "tx_Unserialize (tx_Serialize tx @ s) = Inr (tx, s) \<and>
    of_nat (length (tx_Serialize tx)) = tx_GetSerializeSize tx \<and>
    (\<forall>tx'. tx_ok tx' \<longrightarrow> tx_Serialize tx' = tx_Serialize tx \<longrightarrow> tx' = tx)"
  using assms ser_tx.unser_ser ser_tx.size_ser ser_tx.ser_inj by blast

definition sample_tx :: CTransaction where
  "sample_tx = \<lparr>tx_nVersion = 1,
     tx_vin = [mk_txin [1, 2, 3, 4, 5, 6, 7, 8] 1 [OP_TRUE] (- 1)],
     tx_vout = [\<lparr>to_nValue = 5000, to_scriptPubKey = [OP_RETURN]\<rparr>, \<lparr>to_nValue = 7, to_scriptPubKey = []\<rparr>],
     tx_nLockTime = 9\<rparr>"

theorem transaction_roundtrip_witness:
  "tx_ok sample_tx \<and> tx_Unserialize (tx_Serialize sample_tx @ [1, 2]) = Inr (sample_tx, [1, 2])"
proof -
  have ok: "tx_ok sample_tx"
    by (simp add: tx_ok_def sample_tx_def txin_ok_def txout_ok_def op_ok_def mk_txin_def MAX_SIZE_def)
  with transaction_roundtrip [OF ok, of "[1, 2]"] show ?thesis by simp
qed

section \<open>Sums of outputs\<close>

text \<open>GetValueOut returns exactly when every output is in the money range and the exact sum is too, and
  then it is that sum without wrap-around; otherwise it throws.\<close>

theorem value_out_exact:
  "GetValueOut tx =
     (if list_all (\<lambda>o'. MoneyRange (to_nValue o')) (tx_vout tx) \<and>
         (\<Sum>o' \<leftarrow> tx_vout tx. sint (to_nValue o')) \<le> MAX_MONEY
      then Inr (of_int (\<Sum>o' \<leftarrow> tx_vout tx. sint (to_nValue o')))
      else Inl (Thrown ''CTransaction::GetValueOut() : value out of range''))"
proof -
  let ?S = "\<lambda>v. \<Sum>o' \<leftarrow> v. sint (to_nValue o')"
  have pos: "list_all (\<lambda>o'. MoneyRange (to_nValue o')) v \<Longrightarrow> 0 \<le> ?S v" for v
    by (rule sum_list_nonneg) (auto simp: list_all_iff MoneyRange_def)
  have *: "GetValueOut_loop v (of_int a) =
     (if list_all (\<lambda>o'. MoneyRange (to_nValue o')) v \<and> a + ?S v \<le> MAX_MONEY then Inr (of_int (a + ?S v))
      else Inl (Thrown ''CTransaction::GetValueOut() : value out of range''))"
    if "0 \<le> a" "a \<le> MAX_MONEY" for v a
    using that
  proof (induction v arbitrary: a)
    case (Cons o' v)
    have w: "of_int a + to_nValue o' = of_int (a + sint (to_nValue o'))" by simp
    show ?case
    proof (cases "MoneyRange (to_nValue o')")
      case True
      then have r: "0 \<le> sint (to_nValue o')" "sint (to_nValue o') \<le> MAX_MONEY" by (simp_all add: MoneyRange_def)
      with Cons.prems have "sint (of_int (a + sint (to_nValue o')) :: u64) = a + sint (to_nValue o')"
        by (subst signed_of_int) (simp add: signed_take_bit_int_eq_self MAX_MONEY_def COIN_def)
      then have "MoneyRange (of_int (a + sint (to_nValue o'))) \<longleftrightarrow> a + sint (to_nValue o') \<le> MAX_MONEY"
        using r Cons.prems by (simp add: MoneyRange_def)
      with True Cons.IH [of "a + sint (to_nValue o')"] r Cons.prems pos [of v] show ?thesis
        by (auto simp: w add.assoc simp del: of_int_add)
    qed (simp add: Let_def)
  qed simp
  show ?thesis using * [of 0] by (simp add: GetValueOut_def MAX_MONEY_def COIN_def)
qed

section \<open>Which transaction is newer\<close>

text \<open>\<open>seq_diff\<close> are the sequence numbers, new and old, of the inputs where they differ.\<close>

definition seq_diff :: "(CTxIn \<times> CTxIn) list \<Rightarrow> (u32 \<times> u32) set" where
  "seq_diff ps = {(a, b). a \<noteq> b \<and> (a, b) \<in> (\<lambda>(i, j). (ti_nSequence i, ti_nSequence j)) ` set ps}"

definition old_below :: "(u32 \<times> u32) set \<Rightarrow> u32 \<Rightarrow> bool" where
  "old_below D lo \<longleftrightarrow> (\<exists>(a, b) \<in> D. b < lo \<and> (\<forall>(a', b') \<in> D. b < a'))"

definition new_above :: "(u32 \<times> u32) set \<Rightarrow> u32 \<Rightarrow> bool" where
  "new_above D lo \<longleftrightarrow> (\<forall>(a, b) \<in> D. lo < a)"

lemma seq_diff_Cons: "seq_diff ((i, j) # ps) =
    (if ti_nSequence i = ti_nSequence j then seq_diff ps
     else insert (ti_nSequence i, ti_nSequence j) (seq_diff ps))"
  by (auto simp: seq_diff_def)

lemma old_below_insert: "old_below (insert (a, b) D) lo \<longleftrightarrow>
    b < lo \<and> b < a \<and> new_above D b \<or> old_below D (min lo a)"
  by (auto simp: old_below_def new_above_def)

lemma new_above_insert: "new_above (insert (a, b) D) lo \<longleftrightarrow> lo < a \<and> new_above D lo"
  by (auto simp: new_above_def)

lemma new_above_mono: "b \<le> lo \<Longrightarrow> new_above D lo \<Longrightarrow> new_above D b"
  by (auto simp: new_above_def)

lemma old_below_lower:
  assumes "b \<le> lo"
  shows "old_below D b \<or> new_above D b \<longleftrightarrow> old_below D lo \<or> new_above D b"
proof -
  have "old_below D b \<Longrightarrow> old_below D lo"
    using assms unfolding old_below_def by fastforce
  moreover have "new_above D b" if "old_below D lo" "\<not> old_below D b"
  proof -
    obtain a' b' where q: "(a', b') \<in> D" "\<forall>(a'', b'') \<in> D. b' < a''" using \<open>old_below D lo\<close> by (auto simp: old_below_def)
    with \<open>\<not> old_below D b\<close> have "b \<le> b'" by (auto simp: old_below_def not_less)
    with q(2) show ?thesis by (auto simp: new_above_def)
  qed
  ultimately show ?thesis by blast
qed

lemma newer_loop:
  "IsNewerThan_loop ps f lo \<longleftrightarrow> old_below (seq_diff ps) lo \<or> f \<and> new_above (seq_diff ps) lo"
proof (induction ps arbitrary: f lo)
  case Nil
  show ?case by (simp add: seq_diff_def old_below_def new_above_def)
next
  case (Cons p ps)
  obtain i j where p: "p = (i, j)" by (cases p)
  define a b D where d: "a = ti_nSequence i" "b = ti_nSequence j" "D = seq_diff ps"
  have step: "IsNewerThan_loop (p # ps) f lo =
    (if a \<noteq> b then
       if b < min lo a then IsNewerThan_loop ps True b
       else if a \<le> lo then IsNewerThan_loop ps False a else IsNewerThan_loop ps f lo
     else IsNewerThan_loop ps f lo)"
    by (auto simp: p d)
  show ?case
  proof (cases "a = b")
    case True then show ?thesis using Cons.IH by (simp add: step) (simp add: p seq_diff_Cons d)
  next
    case False
    then have D: "seq_diff (p # ps) = insert (a, b) D" by (simp add: p seq_diff_Cons d)
    consider "b < min lo a" | "\<not> b < min lo a" "a \<le> lo" | "\<not> b < min lo a" "lo < a" by force
    then show ?thesis
    proof cases
      case 1
      then have "b \<le> min lo a" "b \<le> lo" "b < lo" "b < a" by (simp_all add: order_less_imp_le)
      with old_below_lower [of b "min lo a" D] new_above_mono [of b lo D] show ?thesis
        using False 1 unfolding step D old_below_insert new_above_insert Cons.IH d(3) [symmetric]
        by (simp only: if_True if_False simp_thms not_False_eq_True; blast?)
    next
      case 2
      then have "\<not> (b < lo \<and> b < a)" "min lo a = a" "\<not> lo < a" by (simp_all add: min_absorb2 leD)
      then show ?thesis
        using False 2 unfolding step D old_below_insert new_above_insert Cons.IH d(3) [symmetric]
        by (simp only: if_True if_False simp_thms not_False_eq_True; blast?)
    next
      case 3
      then have "\<not> (b < lo \<and> b < a)" "min lo a = lo" "\<not> a \<le> lo" by (simp_all add: min_absorb1 leD order_less_imp_le)
      then show ?thesis
        using False 3 unfolding step D old_below_insert new_above_insert Cons.IH d(3) [symmetric]
        by (simp only: if_True if_False simp_thms not_False_eq_True; blast?)
    qed
  qed
qed

text \<open>IsNewerThan is true exactly when both transactions spend the same outpoints in the same order and
  some changed input had, in the old transaction, a sequence number lower than every sequence number
  that the new transaction gives to a changed input.\<close>

theorem newer_than_iff:
  "IsNewerThan tx old \<longleftrightarrow>
    map ti_prevout (tx_vin tx) = map ti_prevout (tx_vin old) \<and>
    (\<exists>(a, b) \<in> seq_diff (zip (tx_vin tx) (tx_vin old)).
       \<forall>(a', b') \<in> seq_diff (zip (tx_vin tx) (tx_vin old)). b < a')"
proof -
  have eq: "op_eq p q \<longleftrightarrow> p = q" for p q
    by (cases p; cases q) (simp add: op_eq_def bu_eq_def list.rel_eq)
  have prevouts: "list_ex (\<lambda>(i, j). \<not> op_eq (ti_prevout i) (ti_prevout j)) (zip v w) \<longleftrightarrow> map ti_prevout v \<noteq> map ti_prevout w"
    if "length v = length w" for v w
    using that by (induction v w rule: list_induct2) (auto simp: eq)
  have top: "old_below D (- 1) \<longleftrightarrow> (\<exists>(a, b) \<in> D. \<forall>(a', b') \<in> D. b < a')" for D
  proof -
    have "b < - 1" if "b < a" for a b :: u32 using that word_n1_ge [of a] by (rule order_less_le_trans)
    then have "(b < - 1 \<and> (\<forall>(a', b') \<in> D. b < a')) = (\<forall>(a', b') \<in> D. b < a')" if "(a, b) \<in> D" for a b
      using that by blast
    then show ?thesis unfolding old_below_def by (intro bex_cong refl) (clarsimp simp only: prod.case)
  qed
  show ?thesis
  proof (cases "length (tx_vin tx) = length (tx_vin old)")
    case True
    then show ?thesis unfolding IsNewerThan_def newer_loop top prevouts [OF True] by simp
  next
    case False
    then have "map ti_prevout (tx_vin tx) \<noteq> map ti_prevout (tx_vin old)" by (metis length_map)
    with False show ?thesis by (simp add: IsNewerThan_def)
  qed
qed

section \<open>Amounts are decompressed to what was compressed\<close>

lemma times10_value: "unat n * 10 ^ e < 2 ^ 64 \<Longrightarrow> unat (times10 e n) = unat n * 10 ^ e"
proof (induction e arbitrary: n)
  case (Suc e)
  have "unat n * 10 \<le> unat n * 10 ^ Suc e" by simp
  then have "unat n * 10 < 2 ^ 64" using Suc.prems by (rule order_le_less_trans)
  then have "unat (n * 10) = unat n * 10" by (simp add: unat_word_ariths)
  with Suc show ?case by (simp add: mult.assoc)
qed simp

lemma CompressAmount_loop_value:
  assumes "n \<noteq> 0" "e \<le> 9" "CompressAmount_loop n e = (n', e')"
  shows "unat n' * 10 ^ (e' - e) = unat n \<and> e \<le> e' \<and> e' \<le> 9 \<and> n' \<noteq> 0 \<and> (e' < 9 \<longrightarrow> unat n' mod 10 \<noteq> 0)"
  using assms
proof (induction n e rule: CompressAmount_loop.induct)
  case (1 n e)
  show ?case
  proof (cases "n mod 10 = 0 \<and> e < 9")
    case True
    then have m: "unat n mod 10 = 0" using unat_mod [of n 10] by simp
    have d: "unat (n div 10) * 10 = unat n" using m by (simp add: unat_div) presburger
    with 1(2) have nz: "n div 10 \<noteq> 0" by (auto simp: unat_eq_0)
    from 1(4) True have "CompressAmount_loop (n div 10) (e + 1) = (n', e')"
      by (simp add: CompressAmount_loop.simps [of n e])
    from 1(1) [OF True nz _ this] True have IH: "unat n' * 10 ^ (e' - (e + 1)) = unat (n div 10)" "e + 1 \<le> e'"
      "e' \<le> 9" "n' \<noteq> 0" "e' < 9 \<longrightarrow> unat n' mod 10 \<noteq> 0" by auto
    then have "(10 :: nat) ^ (e' - e) = 10 ^ (e' - (e + 1)) * 10"
      by (metis Suc_diff_le Suc_eq_plus1 diff_Suc_Suc power_Suc2)
    with IH d show ?thesis by (simp add: mult.assoc [symmetric])
  next
    case False
    then have "n' = n" "e' = e" using 1(4) by (simp_all add: CompressAmount_loop.simps [of n e] split: if_splits)
    moreover have "unat n mod 10 = 0 \<longleftrightarrow> n mod 10 = 0" using unat_mod [of n 10] by (simp add: unat_eq_0 [symmetric])
    ultimately show ?thesis using False 1(2,3) by auto
  qed
qed

lemma u64_arith:
  fixes x y :: u64
  shows "unat x + unat y < 2 ^ 64 \<Longrightarrow> unat (x + y) = unat x + unat y"
    "unat x * unat y < 2 ^ 64 \<Longrightarrow> unat (x * y) = unat x * unat y"
    "unat y \<le> unat x \<Longrightarrow> unat (x - y) = unat x - unat y"
  by (simp_all add: unat_word_ariths unat_sub word_le_nat_alt)

lemma DecompressAmount_Compress:
  assumes "unat n < 2 ^ 60"
  shows "DecompressAmount (CompressAmount n) = n"
proof (cases "n = 0")
  case False
  obtain m e where l: "CompressAmount_loop n 0 = (m, e)" by (cases "CompressAmount_loop n 0")
  have c: "unat m * 10 ^ (e - 0) = unat n \<and> 0 \<le> e \<and> e \<le> 9 \<and> m \<noteq> 0 \<and> (e < 9 \<longrightarrow> unat m mod 10 \<noteq> 0)"
    by (rule CompressAmount_loop_value [OF False _ l]) simp
  have m: "unat m * 10 ^ e = unat n" "e \<le> 9" "m \<noteq> 0" using c by auto
  have le: "unat m \<le> unat n" using m(1) by (metis le_square mult_le_mono2 one_le_numeral one_le_power mult.right_neutral)
  show ?thesis
  proof (cases "e < 9")
    case True
    define d q where dq: "d = unat m mod 10" "q = unat m div 10"
    then have mdq: "unat m = 10 * q + d" "1 \<le> d" "d \<le> 9" using c True by auto
    define x where "x = 1 + (m div 10 * 9 + m mod 10 - 1) * 10 + of_nat e"
    have b: "9 * q + d < 2 ^ 60" using mdq le assms by linarith
    have u1: "unat (m div 10 * 9) = 9 * q" "unat (m mod 10) = d"
      using b by (simp_all add: dq unat_div unat_mod u64_arith)
    have u2: "unat (m div 10 * 9 + m mod 10) = 9 * q + d" using b by (subst u64_arith(1)) (simp_all add: u1)
    have u3: "unat (m div 10 * 9 + m mod 10 - 1) = 9 * q + d - 1" using mdq by (subst u64_arith(3)) (simp_all add: u2)
    define t where "t = m div 10 * 9 + m mod 10 - 1"
    have u4: "unat (t * 10) = (9 * q + d - 1) * 10"
      using b by (subst u64_arith(2)) (simp_all add: u3 t_def)
    have ue: "unat (of_nat e :: u64) = e" using True by (simp add: unat_of_nat)
    have u5: "unat (1 + t * 10) = 1 + (9 * q + d - 1) * 10"
      using b by (subst u64_arith(1)) (simp_all add: u4)
    have ux: "unat x = 1 + (9 * q + d - 1) * 10 + e"
      using b True unfolding x_def t_def [symmetric] by (subst u64_arith(1)) (simp_all only: u5 ue, simp)
    have v: "CompressAmount n = x" using False True l by (simp add: CompressAmount_def x_def Let_def)
    have x1: "unat (x - 1) = (9 * q + d - 1) * 10 + e" using ux by (subst u64_arith(3)) simp_all
    have e': "unat ((x - 1) mod 10) = e" using x1 True by (simp add: unat_mod)
    have y: "unat ((x - 1) div 10) = 9 * q + (d - 1)" using x1 True mdq by (simp add: unat_div)
    have "unat (A mod 9) = d - 1 \<and> unat (A div 9) = q" if "unat A = 9 * q + (d - 1)" for A :: u64
      using mdq that by (cases d) (simp_all add: unat_mod unat_div)
    from this [OF y] have z: "unat ((x - 1) div 10 mod 9) = d - 1" "unat ((x - 1) div 10 div 9) = q" by simp_all
    have w: "unat ((x - 1) div 10 div 9 * 10 + ((x - 1) div 10 mod 9 + 1)) = unat m"
    proof -
      have "unat ((x - 1) div 10 div 9 * 10) = q * 10" using b by (subst u64_arith(2)) (simp_all add: z)
      moreover have "unat ((x - 1) div 10 mod 9 + 1) = d" using mdq by (subst u64_arith(1)) (simp_all add: z)
      ultimately show ?thesis using mdq b by (subst u64_arith(1)) simp_all
    qed
    have "unat (times10 e m) = unat n" using times10_value [of m e] m(1) unat_less_64 [of n] by simp
    then have "times10 e m = n" by (simp only: word_unat_eq_iff)
    moreover from w have "(x - 1) div 10 div 9 * 10 + ((x - 1) div 10 mod 9 + 1) = m" by (simp only: word_unat_eq_iff)
    moreover have "x \<noteq> 0" using ux by auto
    ultimately show ?thesis unfolding v DecompressAmount_def Let_def e' using True by simp
  next
    case False
    then have e9: "e = 9" using m(2) by simp
    define x where "x = 1 + (m - 1) * 10 + 9"
    have m1: "1 \<le> unat m" using m(3) by (simp add: unat_gt_0 Suc_le_eq)
    have b: "unat m * 10 < 2 ^ 63" using m(1) assms e9 by simp
    have u1: "unat (m - 1) = unat m - 1" using m1 by (subst u64_arith(3)) simp_all
    define t where "t = m - 1"
    have u2: "unat (t * 10) = (unat m - 1) * 10" using b by (subst u64_arith(2)) (simp_all add: u1 t_def)
    have u3: "unat (1 + t * 10) = 1 + (unat m - 1) * 10" using b by (subst u64_arith(1)) (simp_all add: u2)
    have ux: "unat x = unat m * 10" using b m1 unfolding x_def t_def [symmetric]
      by (subst u64_arith(1)) (simp_all only: u3, simp_all)
    have v: "CompressAmount n = x" using \<open>n \<noteq> 0\<close> False l by (simp add: CompressAmount_def x_def Let_def)
    have x1: "unat (x - 1) = (unat m - 1) * 10 + 9" using ux m1 by (subst u64_arith(3)) simp_all
    have e': "unat ((x - 1) mod 10) = 9" using x1 by (simp add: unat_mod)
    have y: "unat ((x - 1) div 10) = unat m - 1" using x1 by (simp add: unat_div)
    have w: "unat ((x - 1) div 10 + 1) = unat m" using b m1 by (subst u64_arith(1)) (simp_all add: y)
    have "unat (times10 9 m) = unat n" using times10_value [of m 9] m(1) unat_less_64 [of n] e9 by simp
    then have "times10 9 m = n" by (simp only: word_unat_eq_iff)
    moreover from w have "(x - 1) div 10 + 1 = m" by (simp only: word_unat_eq_iff)
    moreover have "x \<noteq> 0" using ux m1 by auto
    ultimately show ?thesis unfolding v DecompressAmount_def Let_def e' by simp
  qed
qed (simp add: CompressAmount_def DecompressAmount_def)

text \<open>C37: DecompressAmount inverts CompressAmount for every amount below 2^60 (MAX_MONEY is below 2^51).\<close>

theorem amount_roundtrip:
  assumes "unat n < 2 ^ 60"
  shows "DecompressAmount (CompressAmount n) = n"
  using assms by (rule DecompressAmount_Compress)

theorem amount_roundtrip_witness:
  "DecompressAmount (CompressAmount 2100000000000000) = 2100000000000000 \<and> CompressAmount 2100000000000000 = 21000000"
proof -
  have "CompressAmount 2100000000000000 = 21000000"
    by code_simp
  with amount_roundtrip [of 2100000000000000] show ?thesis by simp
qed

section \<open>Undo records\<close>

lemma septet_of_int: "(of_int (take_bit 7 n) :: byte) = ucast ((of_int n :: u64) AND 0x7F)"
  unfolding septet_mask take_bit_eq_mask [symmetric] by (rule bit_word_eqI) (auto simp: bit_simps)

lemma WriteVarInt_int_loop_eq:
  "0 \<le> n \<Longrightarrow> n < 2 ^ 63 \<Longrightarrow> WriteVarInt_int_loop n tmp = WriteVarInt_loop (of_int n) tmp"
proof (induction n tmp rule: WriteVarInt_int_loop.induct)
  case (1 n tmp)
  have u: "uint (of_int n :: u64) = n"
    using 1(2,3) by (simp add: unsigned_of_int take_bit_int_eq_self)
  have le: "(of_int n :: u64) \<le> 0x7F \<longleftrightarrow> n \<le> 0x7F" by (simp add: word_le_def u)
  let ?tmp = "tmp @ [of_int (take_bit 7 n) OR (if tmp \<noteq> [] then 0x80 else 0)]"
  show ?case
  proof (cases "n \<le> 0x7F")
    case True
    then show ?thesis
      by (subst WriteVarInt_int_loop.simps, subst WriteVarInt_loop.simps) (simp add: le septet_of_int Let_def)
  next
    case False
    have "drop_bit 7 (of_int n :: u64) = of_int (drop_bit 7 n)"
    proof -
      have "0 \<le> drop_bit 7 n" "drop_bit 7 n < 2 ^ 64" using 1(2,3) by (simp_all add: drop_bit_eq_div)
      then have "uint (of_int (drop_bit 7 n) :: u64) = drop_bit 7 n"
        unfolding unsigned_of_int by (simp add: take_bit_int_eq_self)
      moreover have "uint (drop_bit 7 (of_int n :: u64)) = drop_bit 7 n" using 1(2,3)
        by (simp only: unsigned_drop_bit_eq u) (simp add: take_bit_int_eq_self)
      ultimately show ?thesis by (simp add: word_uint_eq_iff)
    qed
    moreover have "WriteVarInt_int_loop (drop_bit 7 n - 1) ?tmp = WriteVarInt_loop (of_int (drop_bit 7 n - 1)) ?tmp"
      using 1(2,3) False by (intro 1(1)) (auto simp: drop_bit_eq_div)
    ultimately have "WriteVarInt_int_loop n tmp = WriteVarInt_loop (drop_bit 7 (of_int n) - 1) ?tmp"
      using False by (subst WriteVarInt_int_loop.simps) (simp add: Let_def)
    also have "\<dots> = WriteVarInt_loop (of_int n) tmp"
      using False by (subst (2) WriteVarInt_loop.simps) (simp add: Let_def le septet_of_int)
    finally show ?thesis .
  qed
qed

lemma ReadVarInt_Write_int:
  assumes "0 \<le> sint v"
  shows "ReadVarInt (WriteVarInt_int v @ s) = Inr (scast v, s)"
proof -
  have "sint v < 2 ^ 63" using sint_lt [of v] by simp
  with assms have "WriteVarInt_int v = WriteVarInt (of_int (sint v))"
    by (simp add: WriteVarInt_int_def WriteVarInt_def WriteVarInt_int_loop_eq)
  then show ?thesis by (simp add: ReadVarInt_Write)
qed

lemma txoutc_unser:
  assumes "point_encoding_ok ssl" "unat (to_nValue o') < 2 ^ 60" "length (to_scriptPubKey o') + 6 < 2 ^ 32"
  shows "txoutc_Unserialize ssl old (txoutc_Serialize ssl o' @ s) = Inr (o', s)"
  using script_roundtrip [OF assms(1,3)] DecompressAmount_Compress [OF assms(2)]
  by (simp add: txoutc_Unserialize_def txoutc_Serialize_def ReadVarInt_Write)

definition undo_ok :: "CTxInUndo \<Rightarrow> bool" where
  "undo_ok u \<longleftrightarrow> unat (to_nValue (tu_txout u)) < 2 ^ 60 \<and> length (to_scriptPubKey (tu_txout u)) + 6 < 2 ^ 32 \<and>
     unat (tu_nHeight u) < 2 ^ 31 \<and> 0 \<le> sint (tu_nVersion u) \<and> (tu_nHeight u = 0 \<longrightarrow> tu_nVersion u = 0)"

lemma undo_unser:
  assumes "point_encoding_ok ssl" "undo_ok u"
  shows "undo_Unserialize ssl empty_undo (undo_Serialize ssl u @ s) = Inr (u, s)"
proof -
  have h: "unat (tu_nHeight u) < 2 ^ 31" and v: "0 \<le> sint (tu_nVersion u)" "tu_nHeight u = 0 \<longrightarrow> tu_nVersion u = 0"
    and o': "unat (to_nValue (tu_txout u)) < 2 ^ 60" "length (to_scriptPubKey (tu_txout u)) + 6 < 2 ^ 32"
    using assms(2) by (simp_all add: undo_ok_def)
  let ?c = "undo_code u"
  have code: "unat ?c = unat (tu_nHeight u) * 2 + (if tu_fCoinBase u then 1 else 0)"
    using h by (simp add: undo_code_def unat_word_ariths)
  have d: "?c div 2 = tu_nHeight u" by (simp add: word_unat_eq_iff unat_div code)
  have m: "?c AND 1 \<noteq> 0 \<longleftrightarrow> tu_fCoinBase u"
  proof -
    have "unat (?c AND 1) = unat ?c mod 2" by (simp only: and_one_eq unat_mod) simp
    then have "?c AND 1 = 0 \<longleftrightarrow> unat ?c mod 2 = 0" by (metis unat_eq_0)
    then show ?thesis by (simp add: code)
  qed
  have c: "(ucast (ucast ?c :: u64) :: u32) = ?c" by (rule ucast_u32_u64)
  have n: "(ucast (scast (tu_nVersion u) :: u64) :: u32) = tu_nVersion u"
    by (rule bit_word_eqI) (auto simp: bit_simps)
  have "undo_Unserialize ssl empty_undo (undo_Serialize ssl u @ s) =
    Inr (\<lparr>tu_txout = tu_txout u, tu_fCoinBase = tu_fCoinBase u, tu_nHeight = tu_nHeight u, tu_nVersion = tu_nVersion u\<rparr>, s)"
    using txoutc_unser [OF assms(1) o', of _ s] ReadVarInt_Write_int [OF v(1)] v(2)
    by (cases "tu_nHeight u = 0")
      (simp_all add: undo_Unserialize_def undo_Serialize_def ReadVarInt_Write Let_def c d m n word_gt_0 empty_undo_def)
  then show ?thesis by simp
qed

lemma length_WriteVarInt_int_loop:
  "length (WriteVarInt_int_loop n tmp) = length tmp + GetSizeOfVarInt_int n"
proof (induction n tmp rule: WriteVarInt_int_loop.induct)
  case (1 n tmp)
  then show ?case
    by (subst WriteVarInt_int_loop.simps, subst GetSizeOfVarInt_int.simps) (simp add: Let_def)
qed

lemma script_size: "of_nat (length (script_Serialize ssl s)) = script_GetSerializeSize ssl s"
  by (simp add: script_Serialize_def script_GetSerializeSize_def Let_def length_WriteVarInt split: option.split)

lemma undo_serializer:
  assumes "point_encoding_ok ssl"
  shows "serializer (undo_Serialize ssl) (undo_Unserialize ssl empty_undo) (undo_GetSerializeSize ssl) undo_ok"
proof unfold_locales
  show "undo_Unserialize ssl empty_undo (undo_Serialize ssl u @ s) = Inr (u, s)" if "undo_ok u" for u s
    using undo_unser [OF assms that] .
qed (simp add: undo_Serialize_def undo_GetSerializeSize_def txoutc_Serialize_def txoutc_GetSerializeSize_def
    length_WriteVarInt script_size WriteVarInt_int_def length_WriteVarInt_int_loop)

text \<open>The undo record of a transaction (spent outputs in compressed form, the height and coinbase flag in
  one number, the version only where the height is known) is read back, for amounts below 2^60, heights
  below 2^31 and versions that are not negative.\<close>

theorem undo_roundtrip:
  assumes "point_encoding_ok ssl" "list_all undo_ok us" "length us \<le> MAX_SIZE"
  shows "txundo_Unserialize ssl (txundo_Serialize ssl us @ s) = Inr (us, s)"
  unfolding txundo_Unserialize_def txundo_Serialize_def
  using assms by (intro serializer.vector_unser [OF undo_serializer])

theorem undo_roundtrip_witness:
  "\<exists>us. us \<noteq> [] \<and> list_all undo_ok us \<and>
     txundo_Unserialize sample_ssl (txundo_Serialize sample_ssl us @ [5]) = Inr (us, [5])"
proof -
  let ?us = "[\<lparr>tu_txout = \<lparr>to_nValue = 5000000000, to_scriptPubKey = [OP_TRUE]\<rparr>, tu_fCoinBase = True,
    tu_nHeight = 7, tu_nVersion = 2\<rparr>]"
  have "list_all undo_ok ?us" by (simp add: undo_ok_def)
  with undo_roundtrip [OF sample_point_encoding_ok this, of "[5]"] show ?thesis
    by (intro exI [of _ ?us]) (simp add: MAX_SIZE_def)
qed

text \<open>A negative version does not survive: it is at most 0x7F as a signed number, so the loop stops at once
  and writes its low seven bits, which are read as a number from 0 to 127.\<close>

theorem negative_version_lost:
  assumes "sint v < 0"
  shows "WriteVarInt_int v = [of_int (take_bit 7 (sint v))] \<and>
    ReadVarInt (WriteVarInt_int v @ s) = Inr (of_int (take_bit 7 (sint v)), s) \<and>
    (ucast (of_int (take_bit 7 (sint v)) :: u64) :: u32) \<noteq> v"
proof -
  have t: "0 \<le> take_bit 7 (sint v)" "take_bit 7 (sint v) < 2 ^ 7" by (simp, rule take_bit_int_less_exp)
  have w: "WriteVarInt_int v = [of_int (take_bit 7 (sint v))]"
    using assms by (simp add: WriteVarInt_int_def WriteVarInt_int_loop.simps)
  define r where "r = take_bit 7 (sint v)"
  have b: "uint (of_int r :: byte) = r" "uint (of_int r :: u64) = r"
    using t by (simp_all add: r_def unsigned_of_int take_bit_int_eq_self)
  then have "(of_int r :: byte) < 0x80" using t by (simp add: word_less_def r_def)
  moreover have "ucast (of_int r :: byte) = (of_int r :: u64)" by (simp only: ucast_eq b)
  ultimately have "ReadVarInt ([of_int r] @ s) = Inr (of_int r, s)" by (simp add: ReadVarInt_small)
  moreover have "(ucast (of_int r :: u64) :: u32) \<noteq> v"
  proof
    assume "(ucast (of_int r :: u64) :: u32) = v"
    then have "sint (of_int r :: u32) = sint v" by (simp only: ucast_eq b)
    then show False using t assms by (simp add: signed_of_int signed_take_bit_int_eq_self r_def [symmetric])
  qed
  ultimately show ?thesis using w by (simp add: r_def)
qed

theorem negative_version_lost_witness:
  "WriteVarInt_int (- 1) = [127] \<and> ReadVarInt (WriteVarInt_int (- 1) @ []) = Inr (127, [])"
  using negative_version_lost [of "- 1" "[]"] by (clarsimp simp: mask_eq_exp_minus_1)

end
