(* ===== verification/Blocks.thy ===== *)
theory Blocks
  imports Transactions
begin

text \<open>
  \<open>src/src/lib/core/core.h\<close> and \<open>core.cpp\<close>: block headers, blocks, the Merkle tree and block
  locators. \<open>vMerkleTree\<close> holds the levels of the tree one after the other, the transaction hashes
  first. The reference notion is the tree of the list of hashes, level by level.
\<close>

section \<open>Headers and blocks\<close>

record CBlockHeader =
  bh_nVersion :: u32
  bh_hashPrevBlock :: base_uint
  bh_hashMerkleRoot :: base_uint
  bh_nTime :: u32
  bh_nBits :: u32
  bh_nNonce :: u32

record CBlock = CBlockHeader +
  b_vtx :: "CTransaction list"
  b_vMerkleTree :: "base_uint list"

definition bh_SetNull :: "'a CBlockHeader_scheme \<Rightarrow> 'a CBlockHeader_scheme" where
  "bh_SetNull b = b\<lparr>bh_nVersion := 2, bh_hashPrevBlock := bu_of_u64 8 0, bh_hashMerkleRoot := bu_of_u64 8 0,
     bh_nTime := 0, bh_nBits := 0, bh_nNonce := 0\<rparr>"

definition bh_IsNull :: "'a CBlockHeader_scheme \<Rightarrow> bool" where
  "bh_IsNull b \<longleftrightarrow> bh_nBits b = 0"

definition GetBlockTime :: "'a CBlockHeader_scheme \<Rightarrow> u64" where
  "GetBlockTime b = ucast (bh_nTime b)"

definition bh_Serialize :: "'a CBlockHeader_scheme \<Rightarrow> data" where
  "bh_Serialize b =
     le_bytes 4 (bh_nVersion b) @ bu_bytes (bh_hashPrevBlock b) @ bu_bytes (bh_hashMerkleRoot b) @
     le_bytes 4 (bh_nTime b) @ le_bytes 4 (bh_nBits b) @ le_bytes 4 (bh_nNonce b)"

definition read_uint256 :: "base_uint reader" where
  "read_uint256 s = rbind (read_bytes 32 s) (\<lambda>(bs, s). Inr (bu_of_bytes bs, s))"

definition bh_Unserialize :: "'a CBlockHeader_scheme \<Rightarrow> 'a CBlockHeader_scheme reader" where
  "bh_Unserialize b s =
     rbind (read_word 4 s) (\<lambda>(nVersion, s).
     rbind (read_uint256 s) (\<lambda>(hashPrevBlock, s).
     rbind (read_uint256 s) (\<lambda>(hashMerkleRoot, s).
     rbind (read_word 4 s) (\<lambda>(nTime, s).
     rbind (read_word 4 s) (\<lambda>(nBits, s).
     rbind (read_word 4 s) (\<lambda>(nNonce, s).
       Inr (b\<lparr>bh_nVersion := nVersion, bh_hashPrevBlock := hashPrevBlock, bh_hashMerkleRoot := hashMerkleRoot,
              bh_nTime := nTime, bh_nBits := nBits, bh_nNonce := nNonce\<rparr>, s)))))))"

text \<open>The bytes from \<open>nVersion\<close> to \<open>nNonce\<close> in memory.\<close>

definition bh_memory :: "'a CBlockHeader_scheme \<Rightarrow> data" where
  "bh_memory b =
     le_bytes 4 (bh_nVersion b) @ bu_bytes (bh_hashPrevBlock b) @ bu_bytes (bh_hashMerkleRoot b) @
     le_bytes 4 (bh_nTime b) @ le_bytes 4 (bh_nBits b) @ le_bytes 4 (bh_nNonce b)"

definition bh_GetHash :: "openssl \<Rightarrow> 'a CBlockHeader_scheme \<Rightarrow> base_uint" where
  "bh_GetHash ssl b = Hash ssl (bh_memory b)"

definition b_SetNull :: "CBlock \<Rightarrow> CBlock" where
  "b_SetNull b = (bh_SetNull b)\<lparr>b_vtx := [], b_vMerkleTree := []\<rparr>"

definition GetBlockHeader :: "CBlock \<Rightarrow> CBlockHeader" where
  "GetBlockHeader b = CBlockHeader.truncate b"

definition b_Serialize :: "CBlock \<Rightarrow> data" where
  "b_Serialize b = bh_Serialize b @ Serialize_vector tx_Serialize (b_vtx b)"

definition b_Unserialize :: "CBlock \<Rightarrow> CBlock reader" where
  "b_Unserialize b s =
     rbind (bh_Unserialize b s) (\<lambda>(b, s).
     rbind (Unserialize_vector tx_Unserialize s) (\<lambda>(vtx, s). Inr (b\<lparr>b_vtx := vtx\<rparr>, s)))"

section \<open>The Merkle tree\<close>

definition hash_pair :: "openssl \<Rightarrow> base_uint \<Rightarrow> base_uint \<Rightarrow> base_uint" where
  "hash_pair ssl a b = Hash2 ssl (bu_bytes a) (bu_bytes b)"

function merkle_level :: "openssl \<Rightarrow> nat \<Rightarrow> nat \<Rightarrow> nat \<Rightarrow> base_uint list \<Rightarrow> base_uint list" where
  "merkle_level ssl j nSize i tree =
     (if i < nSize then
        let i2 = min (i + 1) (nSize - 1)
        in merkle_level ssl j nSize (i + 2) (tree @ [hash_pair ssl (tree ! (j + i)) (tree ! (j + i2))])
      else tree)"
  by pat_completeness auto
termination by (relation "measure (\<lambda>(ssl, j, nSize, i, tree). nSize - i)") auto

function merkle_levels :: "openssl \<Rightarrow> nat \<Rightarrow> nat \<Rightarrow> base_uint list \<Rightarrow> base_uint list" where
  "merkle_levels ssl j nSize tree =
     (if nSize > 1 then merkle_levels ssl (j + nSize) ((nSize + 1) div 2) (merkle_level ssl j nSize 0 tree)
      else tree)"
  by pat_completeness auto
termination by (relation "measure (\<lambda>(ssl, j, nSize, tree). nSize)") auto

declare merkle_level.simps [simp del] merkle_levels.simps [simp del]

definition BuildMerkleTree :: "openssl \<Rightarrow> CBlock \<Rightarrow> base_uint \<times> CBlock" where
  "BuildMerkleTree ssl b =
     (let tree = merkle_levels ssl 0 (length (b_vtx b)) (map (tx_GetHash ssl) (b_vtx b))
      in (if tree = [] then bu_of_u64 8 0 else last tree, b\<lparr>b_vMerkleTree := tree\<rparr>))"

definition GetTxHash :: "CBlock \<Rightarrow> u32 \<Rightarrow> base_uint result" where
  "GetTxHash b nIndex =
     rbind (rassert (length (b_vMerkleTree b) > 0)) (\<lambda>_.
     rbind (rassert (unat nIndex < length (b_vtx b))) (\<lambda>_.
       vec_at (b_vMerkleTree b) (unat nIndex)))"

text \<open>The index is an \<open>int\<close>; a negative one reads outside the vector.\<close>

function branch_loop :: "base_uint list \<Rightarrow> int \<Rightarrow> nat \<Rightarrow> nat \<Rightarrow> base_uint list \<Rightarrow> base_uint list result" where
  "branch_loop tree nIndex j nSize branch =
     (if nSize > 1 then
        let i = min (nIndex XOR 1) (int nSize - 1)
        in if int j + i < 0 then Inl Undefined
           else rbind (vec_at tree (nat (int j + i))) (\<lambda>h.
                  branch_loop tree (drop_bit 1 nIndex) (j + nSize) ((nSize + 1) div 2) (branch @ [h]))
      else Inr branch)"
  by pat_completeness auto
termination by (relation "measure (\<lambda>(tree, nIndex, j, nSize, branch). nSize)") auto

declare branch_loop.simps [simp del]

definition GetMerkleBranch :: "openssl \<Rightarrow> CBlock \<Rightarrow> int \<Rightarrow> (base_uint list \<times> CBlock) result" where
  "GetMerkleBranch ssl b nIndex =
     (let b = (if b_vMerkleTree b = [] then snd (BuildMerkleTree ssl b) else b)
      in rbind (branch_loop (b_vMerkleTree b) nIndex 0 (length (b_vtx b)) []) (\<lambda>branch. Inr (branch, b)))"

fun CheckMerkleBranch_loop :: "openssl \<Rightarrow> base_uint \<Rightarrow> base_uint list \<Rightarrow> int \<Rightarrow> base_uint" where
  "CheckMerkleBranch_loop ssl hash [] nIndex = hash"
| "CheckMerkleBranch_loop ssl hash (otherside # branch) nIndex =
     CheckMerkleBranch_loop ssl
       (if nIndex AND 1 \<noteq> 0 then hash_pair ssl otherside hash else hash_pair ssl hash otherside)
       branch (drop_bit 1 nIndex)"

definition CheckMerkleBranch :: "openssl \<Rightarrow> base_uint \<Rightarrow> base_uint list \<Rightarrow> int \<Rightarrow> base_uint" where
  "CheckMerkleBranch ssl hash vMerkleBranch nIndex =
     (if nIndex = - 1 then bu_of_u64 8 0 else CheckMerkleBranch_loop ssl hash vMerkleBranch nIndex)"

section \<open>Block locators\<close>

definition loc_Serialize :: "u32 \<Rightarrow> u32 \<Rightarrow> base_uint list \<Rightarrow> data" where
  "loc_Serialize nType nVersion vHave =
     (if nType AND SER_GETHASH = 0 then le_bytes 4 nVersion else []) @ Serialize_vector bu_bytes vHave"

definition loc_Unserialize :: "u32 \<Rightarrow> base_uint list reader" where
  "loc_Unserialize nType s =
     rbind (if nType AND SER_GETHASH = 0 then rbind (read_word 4 s) (\<lambda>(nVersion :: u32, s). Inr ((), s)) else Inr ((), s))
       (\<lambda>(_, s). Unserialize_vector read_uint256 s)"

section \<open>The tree of a list of hashes\<close>

fun pair_up :: "openssl \<Rightarrow> base_uint list \<Rightarrow> base_uint list" where
  "pair_up ssl (a # b # hs) = hash_pair ssl a b # pair_up ssl hs"
| "pair_up ssl [a] = [hash_pair ssl a a]"
| "pair_up ssl [] = []"

lemma length_pair_up [simp]: "length (pair_up ssl hs) = (length hs + 1) div 2"
  by (induction ssl hs rule: pair_up.induct) auto

lemma nth_pair_up: "k < length (pair_up ssl hs) \<Longrightarrow>
    pair_up ssl hs ! k = hash_pair ssl (hs ! (2 * k)) (hs ! min (2 * k + 1) (length hs - 1))"
proof (induction ssl hs arbitrary: k rule: pair_up.induct)
  case (1 ssl a b hs)
  then show ?case by (cases k; cases hs) (auto simp: min_def nth_Cons')
qed auto

function levels :: "openssl \<Rightarrow> base_uint list \<Rightarrow> base_uint list" where
  "levels ssl hs = (if length hs > 1 then hs @ levels ssl (pair_up ssl hs) else hs)"
  by pat_completeness auto
termination by (relation "measure (\<lambda>(ssl, hs). length hs)") auto

function merkle_root :: "openssl \<Rightarrow> base_uint list \<Rightarrow> base_uint" where
  "merkle_root ssl hs = (if length hs > 1 then merkle_root ssl (pair_up ssl hs) else hd hs)"
  by pat_completeness auto
termination by (relation "measure (\<lambda>(ssl, hs). length hs)") auto

declare levels.simps [simp del] merkle_root.simps [simp del]

lemma last_levels: "hs \<noteq> [] \<Longrightarrow> last (levels ssl hs) = merkle_root ssl hs \<and> levels ssl hs \<noteq> []"
proof (induction ssl hs rule: levels.induct)
  case (1 ssl hs)
  show ?case
  proof (cases "length hs > 1")
    case True
    then have "pair_up ssl hs \<noteq> []" using length_pair_up [of ssl hs] by (cases "pair_up ssl hs") auto
    with 1 True show ?thesis by (simp add: levels.simps [of ssl hs] merkle_root.simps [of ssl hs])
  next
    case False
    with 1(2) obtain a where "hs = [a]" by (cases hs) auto
    then show ?thesis by (simp add: levels.simps [of ssl "[a]"] merkle_root.simps [of ssl "[a]"])
  qed
qed

text \<open>One pass of the loop appends the next level, for the level at the end of the tree.\<close>

lemma merkle_level_pair_up:
  assumes "2 * k \<le> length hs + 1" "i = 2 * k"
  shows "merkle_level ssl (length pre) (length hs) i (pre @ hs @ take k (pair_up ssl hs)) =
    pre @ hs @ pair_up ssl hs"
  using assms
proof (induction "length hs + 1 - 2 * k" arbitrary: k i rule: less_induct)
  case less
  show ?case
  proof (cases "2 * k < length hs")
    case True
    then have k: "k < length (pair_up ssl hs)" by simp
    define i2 where "i2 = min (i + 1) (length hs - 1)"
    have "i2 < length hs" "i < length hs" using True less(3) by (auto simp: i2_def)
    then have "hash_pair ssl ((pre @ hs @ take k (pair_up ssl hs)) ! (length pre + i))
        ((pre @ hs @ take k (pair_up ssl hs)) ! (length pre + i2)) = pair_up ssl hs ! k"
      using k less(3) by (simp add: nth_pair_up nth_append i2_def)
    moreover have "take k (pair_up ssl hs) @ [pair_up ssl hs ! k] = take (Suc k) (pair_up ssl hs)"
      using k by (simp add: take_Suc_conv_app_nth)
    moreover have "merkle_level ssl (length pre) (length hs) (i + 2) (pre @ hs @ take (Suc k) (pair_up ssl hs)) =
      pre @ hs @ pair_up ssl hs"
      using True less(3) by (intro less(1)) auto
    ultimately show ?thesis using True less(3) by (subst merkle_level.simps) (simp add: Let_def i2_def)
  next
    case False
    then show ?thesis using less(3) by (subst merkle_level.simps) simp
  qed
qed

lemma merkle_levels_levels:
  "merkle_levels ssl (length pre) (length hs) (pre @ hs) = pre @ levels ssl hs"
proof (induction ssl hs arbitrary: pre rule: levels.induct)
  case (1 ssl hs)
  show ?case
  proof (cases "length hs > 1")
    case True
    have "merkle_level ssl (length pre) (length hs) 0 (pre @ hs) = (pre @ hs) @ pair_up ssl hs"
      using merkle_level_pair_up [of 0 hs 0 ssl pre] by simp
    with 1 [OF True, of "pre @ hs"] True show ?thesis
      by (subst merkle_levels.simps) (simp add: levels.simps [of ssl hs])
  next
    case False
    then show ?thesis by (simp add: merkle_levels.simps levels.simps)
  qed
qed

lemma BuildMerkleTree_levels:
  "b_vMerkleTree (snd (BuildMerkleTree ssl b)) = levels ssl (map (tx_GetHash ssl) (b_vtx b))"
  "b_vtx b \<noteq> [] \<Longrightarrow> fst (BuildMerkleTree ssl b) = merkle_root ssl (map (tx_GetHash ssl) (b_vtx b))"
  using merkle_levels_levels [of ssl "[]" "map (tx_GetHash ssl) (b_vtx b)"]
    last_levels [of "map (tx_GetHash ssl) (b_vtx b)" ssl]
  by (simp_all add: BuildMerkleTree_def Let_def)

section \<open>Branches lead to the root\<close>

lemma xor_one: "int n XOR 1 = int (if even n then n + 1 else n - 1)"
  by (auto simp: xor_one_eq elim: oddE)

lemma branch_correct:
  assumes "k < length hs"
  shows "\<exists>branch. branch_loop (pre @ levels ssl hs) (int k) (length pre) (length hs) acc = Inr (acc @ branch) \<and>
    CheckMerkleBranch_loop ssl (hs ! k) branch (int k) = merkle_root ssl hs"
  using assms
proof (induction ssl hs arbitrary: pre acc k rule: levels.induct)
  case (1 ssl hs)
  show ?case
  proof (cases "length hs > 1")
    case True
    define o' where "o' = min (if even k then k + 1 else k - 1) (length hs - 1)"
    have i: "min (int k XOR 1) (int (length hs) - 1) = int o'"
      using True by (simp add: xor_one o'_def of_nat_min of_nat_diff)
    have "o' \<le> length hs - 1" by (simp add: o'_def)
    then have o: "o' < length hs" using True by linarith
    have k2: "k div 2 < length (pair_up ssl hs)" using 1(2) by simp
    from 1(1) [OF True k2, of "pre @ hs" "acc @ [hs ! o']"] obtain branch where
      br: "branch_loop (pre @ hs @ levels ssl (pair_up ssl hs)) (int (k div 2)) (length pre + length hs)
          ((length hs + 1) div 2) (acc @ [hs ! o']) = Inr (acc @ hs ! o' # branch)"
      and ch: "CheckMerkleBranch_loop ssl (pair_up ssl hs ! (k div 2)) branch (int (k div 2)) = merkle_root ssl (pair_up ssl hs)"
      by auto
    have d: "drop_bit (Suc 0) (int k) = int (k div 2)" by (simp add: drop_bit_eq_div zdiv_int)
    have "vec_at (pre @ levels ssl hs) (length pre + o') = Inr (hs ! o')"
      using True o by (simp add: levels.simps [of ssl hs] nth_append)
    with br True have "branch_loop (pre @ levels ssl hs) (int k) (length pre) (length hs) acc = Inr (acc @ hs ! o' # branch)"
      by (subst branch_loop.simps) (simp add: Let_def i d levels.simps [of ssl hs] nat_add_distrib)
    moreover have odd_int: "(int k AND 1 \<noteq> 0) = odd k" by (simp add: and_one_eq) presburger
    have "pair_up ssl hs ! (k div 2) =
      (if int k AND 1 \<noteq> 0 then hash_pair ssl (hs ! o') (hs ! k) else hash_pair ssl (hs ! k) (hs ! o'))"
    proof (cases "even k")
      case True
      then show ?thesis using nth_pair_up [OF k2] odd_int by (auto simp: o'_def elim!: evenE)
    next
      case False
      then obtain q where "k = 2 * q + 1" by (elim oddE)
      moreover have "min (2 * q + 1) (length hs - 1) = 2 * q + 1" "min (2 * q) (length hs - 1) = 2 * q"
        using \<open>k = 2 * q + 1\<close> 1(2) by simp_all
      ultimately show ?thesis using nth_pair_up [OF k2] odd_int False by (simp add: o'_def)
    qed
    then have "CheckMerkleBranch_loop ssl (hs ! k) (hs ! o' # branch) (int k) = merkle_root ssl hs"
      using ch d True by (simp add: merkle_root.simps [of ssl hs])
    ultimately show ?thesis by blast
  next
    case False
    with 1(2) obtain a where "k = 0" "hs = [a]" by (cases hs) auto
    then show ?thesis
      by (intro exI [of _ "[]"]) (simp add: branch_loop.simps merkle_root.simps [of ssl "[a]"])
  qed
qed

text \<open>C21: For every transaction of a block, the branch that GetMerkleBranch extracts leads from the hash of
  the transaction to the root that BuildMerkleTree computes, whether or not the tree had been built
  before; no property of the hash function is used.\<close>

theorem merkle_branch_correct:
  assumes "k < length (b_vtx b)"
    "b_vMerkleTree b = [] \<or> b_vMerkleTree b = b_vMerkleTree (snd (BuildMerkleTree ssl b))"
  shows "\<exists>branch b'. GetMerkleBranch ssl b (int k) = Inr (branch, b') \<and>
    CheckMerkleBranch ssl (tx_GetHash ssl (b_vtx b ! k)) branch (int k) = fst (BuildMerkleTree ssl b)"
proof -
  let ?hs = "map (tx_GetHash ssl) (b_vtx b)"
  obtain branch where br: "branch_loop (levels ssl ?hs) (int k) 0 (length ?hs) [] = Inr branch"
    and ch: "CheckMerkleBranch_loop ssl (?hs ! k) branch (int k) = merkle_root ssl ?hs"
    using branch_correct [of k ?hs "[]" ssl "[]"] assms(1) by auto
  have "b_vtx b \<noteq> []" using assms(1) by auto
  then have "levels ssl ?hs \<noteq> []" using last_levels [of ?hs ssl] by simp
  with br assms(2) have "\<exists>b'. GetMerkleBranch ssl b (int k) = Inr (branch, b')"
    by (auto simp: GetMerkleBranch_def Let_def BuildMerkleTree_levels(1)) (auto simp: BuildMerkleTree_def Let_def)
  moreover have "b_vtx b \<noteq> []" using assms(1) by auto
  ultimately show ?thesis using ch assms(1)
    by (auto simp: CheckMerkleBranch_def BuildMerkleTree_levels(2))
qed

definition sample_block :: CBlock where
  "sample_block = \<lparr>bh_nVersion = 2, bh_hashPrevBlock = replicate 8 1, bh_hashMerkleRoot = replicate 8 2,
     bh_nTime = 3, bh_nBits = 4, bh_nNonce = 5, b_vtx = [sample_tx, sample_tx, sample_tx], b_vMerkleTree = []\<rparr>"

theorem merkle_branch_correct_witness:
  "\<exists>branch b'. GetMerkleBranch sample_ssl sample_block 2 = Inr (branch, b') \<and>
    CheckMerkleBranch sample_ssl (tx_GetHash sample_ssl (b_vtx sample_block ! 2)) branch 2 =
      fst (BuildMerkleTree sample_ssl sample_block)"
  using merkle_branch_correct [of 2 sample_block sample_ssl] by (simp add: sample_block_def)

lemma pair_up_even: "even (length hs) \<Longrightarrow> pair_up ssl (hs @ [a]) = pair_up ssl (hs @ [a, a])"
  by (induction ssl hs rule: pair_up.induct) auto

text \<open>The root does not determine the transactions: when their number is odd, repeating the last one
  gives another block with the same root.\<close>

theorem merkle_root_ambiguous:
  assumes "even (length txs)" "txs \<noteq> []" "b_vtx b = txs @ [tx]"
  shows "fst (BuildMerkleTree ssl (b\<lparr>b_vtx := txs @ [tx, tx]\<rparr>)) = fst (BuildMerkleTree ssl b)"
proof -
  let ?h = "tx_GetHash ssl"
  have "merkle_root ssl (map ?h txs @ [?h tx]) = merkle_root ssl (map ?h txs @ [?h tx, ?h tx])"
    using assms(1,2) pair_up_even [of "map ?h txs" ssl "?h tx"]
    by (simp add: merkle_root.simps [of ssl "map ?h txs @ _"])
  then show ?thesis using assms(3)
    by (simp add: BuildMerkleTree_levels(2))
qed

theorem merkle_root_ambiguous_witness:
  "fst (BuildMerkleTree sample_ssl (sample_block\<lparr>b_vtx := [sample_tx, sample_tx, sample_tx, sample_tx]\<rparr>)) =
    fst (BuildMerkleTree sample_ssl sample_block)"
  using merkle_root_ambiguous [of "[sample_tx, sample_tx]" sample_block sample_tx sample_ssl]
  by (simp add: sample_block_def)

section \<open>Blocks are read back\<close>

definition bh_ok :: "'a CBlockHeader_scheme \<Rightarrow> bool" where
  "bh_ok b \<longleftrightarrow> length (bh_hashPrevBlock b) = 8 \<and> length (bh_hashMerkleRoot b) = 8"

interpretation ser_uint256: serializer bu_bytes read_uint256 "\<lambda>_. 32" "\<lambda>h. length h = 8"
  by unfold_locales (simp_all add: read_uint256_def)

lemma header_read: "bh_ok b \<Longrightarrow>
    bh_Unserialize c (bh_Serialize b @ s) =
      Inr (c\<lparr>bh_nVersion := bh_nVersion b, bh_hashPrevBlock := bh_hashPrevBlock b,
        bh_hashMerkleRoot := bh_hashMerkleRoot b, bh_nTime := bh_nTime b, bh_nBits := bh_nBits b,
        bh_nNonce := bh_nNonce b\<rparr>, s)"
  by (simp add: bh_ok_def bh_Unserialize_def bh_Serialize_def ser_uint256.unser_ser)

text \<open>A block read into a new object is the block that was written, except for the Merkle tree in memory,
  which is not part of the format; the hash of a block is the hash of its first 80 bytes.\<close>

theorem block_roundtrip:
  assumes "bh_ok b" "list_all tx_ok (b_vtx b)" "length (b_vtx b) \<le> MAX_SIZE"
  shows "b_Unserialize (b_SetNull c) (b_Serialize b @ s) = Inr (b\<lparr>b_vMerkleTree := []\<rparr>, s) \<and>
    bh_GetHash ssl b = Hash ssl (take 80 (b_Serialize b))"
proof -
  have "length (bh_Serialize b) = 80" using assms(1) by (simp add: bh_Serialize_def bh_ok_def)
  moreover have "bh_memory b = bh_Serialize b" by (simp add: bh_memory_def bh_Serialize_def)
  ultimately have "bh_GetHash ssl b = Hash ssl (take 80 (b_Serialize b))"
    by (simp add: bh_GetHash_def b_Serialize_def)
  then show ?thesis
    using ser_tx.vector_unser [OF assms(2,3)]
    by (simp add: header_read [OF assms(1)] b_Unserialize_def b_Serialize_def b_SetNull_def bh_SetNull_def)
qed

theorem block_roundtrip_witness:
  "b_Unserialize (b_SetNull sample_block) (b_Serialize sample_block @ [1]) = Inr (sample_block, [1])"
proof -
  have "bh_ok sample_block" "list_all tx_ok (b_vtx sample_block)" "length (b_vtx sample_block) \<le> MAX_SIZE"
    by (simp_all add: bh_ok_def sample_block_def tx_ok_def sample_tx_def txin_ok_def txout_ok_def op_ok_def
        mk_txin_def MAX_SIZE_def)
  from block_roundtrip [OF this, of sample_block "[1]" sample_ssl] show ?thesis
    by (simp add: sample_block_def)
qed

lemma locator_read:
  assumes "list_all (\<lambda>h. length h = 8) v" "length v \<le> MAX_SIZE"
  shows "loc_Unserialize nType (loc_Serialize nType nVersion v @ s) = Inr (v, s)"
  using ser_uint256.vector_unser [OF assms] by (simp add: loc_Unserialize_def loc_Serialize_def)

end
