(* ===== verification/Sighash.thy ===== *)
theory Sighash
  imports Blocks "HOL-Library.Sublist"
begin

text \<open>
  The part of \<open>src/src/lib/core/script.cpp\<close> that checks signatures: the serializer of what a signature
  covers, \<open>SignatureHash\<close>, the cache of valid signatures and \<open>CheckSig\<close>. The reference notion is the
  transaction, modified according to the hash type, serialized like any other. The cache is a
  sorted list, with the random hashes that choose what to evict as a stream; its invariant is that
  every entry was verified, so \<open>CheckSig\<close> answers the same with any cache.
\<close>

section \<open>What a signature covers\<close>

definition SIGHASH_ALL :: u32 where "SIGHASH_ALL = 1"
definition SIGHASH_NONE :: u32 where "SIGHASH_NONE = 2"
definition SIGHASH_SINGLE :: u32 where "SIGHASH_SINGLE = 3"
definition SIGHASH_ANYONECANPAY :: u32 where "SIGHASH_ANYONECANPAY = 0x80"

definition SCRIPT_VERIFY_NONE :: u32 where "SCRIPT_VERIFY_NONE = 0"
definition SCRIPT_VERIFY_P2SH :: u32 where "SCRIPT_VERIFY_P2SH = 1"
definition SCRIPT_VERIFY_STRICTENC :: u32 where "SCRIPT_VERIFY_STRICTENC = 2"
definition SCRIPT_VERIFY_EVEN_S :: u32 where "SCRIPT_VERIFY_EVEN_S = 4"
definition SCRIPT_VERIFY_NOCACHE :: u32 where "SCRIPT_VERIFY_NOCACHE = 8"

lemmas sighash_flags = SIGHASH_ALL_def SIGHASH_NONE_def SIGHASH_SINGLE_def SIGHASH_ANYONECANPAY_def

record CTransactionSignatureSerializer =
  ss_txTo :: CTransaction
  ss_scriptCode :: script
  ss_nIn :: u32
  ss_fAnyoneCanPay :: bool
  ss_fHashSingle :: bool
  ss_fHashNone :: bool

definition ss_new :: "CTransaction \<Rightarrow> script \<Rightarrow> u32 \<Rightarrow> u32 \<Rightarrow> CTransactionSignatureSerializer" where
  "ss_new txTo scriptCode nIn nHashType =
     \<lparr>ss_txTo = txTo, ss_scriptCode = scriptCode, ss_nIn = nIn,
      ss_fAnyoneCanPay = (nHashType AND SIGHASH_ANYONECANPAY \<noteq> 0),
      ss_fHashSingle = (nHashType AND 0x1f = SIGHASH_SINGLE),
      ss_fHashNone = (nHashType AND 0x1f = SIGHASH_NONE)\<rparr>"

text \<open>
  The two passes over the script. The iterator of a failed \<open>GetOp\<close> may be past the opcode, so the
  last write ends there.
\<close>

function count_separators :: "data \<Rightarrow> u32 \<Rightarrow> u32" where
  "count_separators it n =
     (case GetOp2 it of
        (True, opcode, vch, it') \<Rightarrow> count_separators it' (if opcode = OP_CODESEPARATOR then n + 1 else n)
      | (False, opcode, vch, it') \<Rightarrow> n)"
  by pat_completeness auto
termination by (relation "measure (\<lambda>(it, n). length it)") (auto dest: GetOp2_shorter')

function write_segments :: "data \<Rightarrow> data \<Rightarrow> data" where
  "write_segments itBegin it =
     (case GetOp2 it of
        (True, opcode, vch, it') \<Rightarrow>
          if opcode = OP_CODESEPARATOR
          then take (length itBegin - length it' - 1) itBegin @ write_segments it' it'
          else write_segments itBegin it'
      | (False, opcode, vch, it') \<Rightarrow> take (length itBegin - length it') itBegin)"
  by pat_completeness auto
termination by (relation "measure (\<lambda>(itBegin, it). length it)") (auto dest: GetOp2_shorter')

declare count_separators.simps [simp del] write_segments.simps [simp del]

definition SerializeScriptCode :: "CTransactionSignatureSerializer \<Rightarrow> data" where
  "SerializeScriptCode ss =
     (let scriptCode = ss_scriptCode ss; nCodeSeparators = count_separators scriptCode 0
      in WriteCompactSize (of_nat (length scriptCode) - ucast nCodeSeparators) @ write_segments scriptCode scriptCode)"

definition SerializeInput :: "CTransactionSignatureSerializer \<Rightarrow> u32 \<Rightarrow> data" where
  "SerializeInput ss nInput =
     (let nInput = (if ss_fAnyoneCanPay ss then ss_nIn ss else nInput);
          txin = tx_vin (ss_txTo ss) ! unat nInput
      in op_Serialize (ti_prevout txin) @
         (if nInput \<noteq> ss_nIn ss then Serialize_bytes [] else SerializeScriptCode ss) @
         (if nInput \<noteq> ss_nIn ss \<and> (ss_fHashSingle ss \<or> ss_fHashNone ss) then le_bytes 4 (0 :: u32)
          else le_bytes 4 (ti_nSequence txin)))"

definition SerializeOutput :: "CTransactionSignatureSerializer \<Rightarrow> u32 \<Rightarrow> data" where
  "SerializeOutput ss nOutput =
     (if ss_fHashSingle ss \<and> nOutput \<noteq> ss_nIn ss then txout_Serialize \<lparr>to_nValue = - 1, to_scriptPubKey = []\<rparr>
      else txout_Serialize (tx_vout (ss_txTo ss) ! unat nOutput))"

definition ss_Serialize :: "CTransactionSignatureSerializer \<Rightarrow> data" where
  "ss_Serialize ss =
     (let nInputs = (if ss_fAnyoneCanPay ss then 1 else of_nat (length (tx_vin (ss_txTo ss)))) :: u32;
          nOutputs = (if ss_fHashNone ss then 0
                      else if ss_fHashSingle ss then ss_nIn ss + 1
                      else of_nat (length (tx_vout (ss_txTo ss)))) :: u32
      in le_bytes 4 (tx_nVersion (ss_txTo ss)) @
         WriteCompactSize (ucast nInputs) @
         concat (map (\<lambda>i. SerializeInput ss (of_nat i)) [0..<unat nInputs]) @
         WriteCompactSize (ucast nOutputs) @
         concat (map (\<lambda>i. SerializeOutput ss (of_nat i)) [0..<unat nOutputs]) @
         le_bytes 4 (tx_nLockTime (ss_txTo ss)))"

definition SignatureHash :: "openssl \<Rightarrow> script \<Rightarrow> CTransaction \<Rightarrow> u32 \<Rightarrow> u32 \<Rightarrow> base_uint" where
  "SignatureHash ssl scriptCode txTo nIn nHashType =
     (if unat nIn \<ge> length (tx_vin txTo) then bu_of_u64 8 1
      else if nHashType AND 0x1f = SIGHASH_SINGLE \<and> unat nIn \<ge> length (tx_vout txTo) then bu_of_u64 8 1
      else let ss = hw_new SER_GETHASH 0;
               ss = hw_write (ss_Serialize (ss_new txTo scriptCode nIn nHashType)) ss;
               ss = hw_write (le_bytes 4 nHashType) ss
           in hw_GetHash ssl ss)"

section \<open>The signature cache\<close>

type_synonym sigdata = "base_uint \<times> data \<times> CPubKey"

record CSignatureCache =
  sc_setValid :: "sigdata list"
  sc_draws :: nat

fun bytes_less :: "data \<Rightarrow> data \<Rightarrow> bool" where
  "bytes_less [] [] = False"
| "bytes_less [] (y # ys) = True"
| "bytes_less (x # xs) [] = False"
| "bytes_less (x # xs) (y # ys) = (x < y \<or> x = y \<and> bytes_less xs ys)"

text \<open>\<open>operator<\<close> of public keys: the first bytes, then \<open>memcmp\<close> over the size of the left key.\<close>

definition pk_less :: "CPubKey \<Rightarrow> CPubKey \<Rightarrow> bool" where
  "pk_less a b \<longleftrightarrow> hd (pk_vch a) < hd (pk_vch b) \<or>
     hd (pk_vch a) = hd (pk_vch b) \<and> bytes_less (take (pk_size a) (pk_vch a)) (take (pk_size a) (pk_vch b))"

fun sig_less :: "sigdata \<Rightarrow> sigdata \<Rightarrow> bool" where
  "sig_less (h1, s1, k1) (h2, s2, k2) \<longleftrightarrow>
     bu_less h1 h2 \<or> \<not> bu_less h2 h1 \<and> (bytes_less s1 s2 \<or> \<not> bytes_less s2 s1 \<and> pk_less k1 k2)"

definition sig_equiv :: "sigdata \<Rightarrow> sigdata \<Rightarrow> bool" where
  "sig_equiv a b \<longleftrightarrow> \<not> sig_less a b \<and> \<not> sig_less b a"

text \<open>\<open>std::set::insert\<close>: an equivalent element stays.\<close>

fun sig_insert :: "sigdata \<Rightarrow> sigdata list \<Rightarrow> sigdata list" where
  "sig_insert k [] = [k]"
| "sig_insert k (e # es) =
     (if sig_less k e then k # e # es else if sig_less e k then e # sig_insert k es else e # es)"

definition sc_Get :: "base_uint \<Rightarrow> data \<Rightarrow> CPubKey \<Rightarrow> CSignatureCache \<Rightarrow> bool" where
  "sc_Get hash vchSig pubKey c \<longleftrightarrow> list_ex (sig_equiv (hash, vchSig, pubKey)) (sc_setValid c)"

text \<open>One eviction: the first element not below a random hash, or the first of all.\<close>

definition evict_one :: "base_uint \<Rightarrow> sigdata list \<Rightarrow> sigdata list" where
  "evict_one randomHash es =
     (let k = (randomHash, [], mk_pubkey []); below = takeWhile (\<lambda>e. sig_less e k) es
      in if length below = length es then tl es else below @ drop (Suc (length below)) es)"

lemma length_evict_one: "es \<noteq> [] \<Longrightarrow> length (evict_one h es) = length es - 1"
proof -
  assume "es \<noteq> []"
  moreover have "length (takeWhile (\<lambda>e. sig_less e (h, [], mk_pubkey [])) es) \<le> length es" by (rule length_takeWhile_le)
  ultimately show ?thesis by (auto simp: evict_one_def Let_def)
qed

function sc_evict :: "(nat \<Rightarrow> base_uint) \<Rightarrow> int \<Rightarrow> CSignatureCache \<Rightarrow> CSignatureCache" where
  "sc_evict GetRandHash nMaxCacheSize c =
     (if sc_setValid c \<noteq> [] \<and> int (length (sc_setValid c)) > nMaxCacheSize
      then sc_evict GetRandHash nMaxCacheSize
             (c\<lparr>sc_setValid := evict_one (GetRandHash (sc_draws c)) (sc_setValid c), sc_draws := sc_draws c + 1\<rparr>)
      else c)"
  by pat_completeness auto

termination
  by (relation "measure (\<lambda>(r, m, c). length (sc_setValid c))") (auto simp: length_evict_one)

declare sc_evict.simps [simp del]

definition sc_Set :: "(nat \<Rightarrow> base_uint) \<Rightarrow> int \<Rightarrow> base_uint \<Rightarrow> data \<Rightarrow> CPubKey \<Rightarrow> CSignatureCache \<Rightarrow> CSignatureCache" where
  "sc_Set GetRandHash nMaxCacheSize hash vchSig pubKey c =
     (if nMaxCacheSize \<le> 0 then c
      else let c = sc_evict GetRandHash nMaxCacheSize c
           in c\<lparr>sc_setValid := sig_insert (hash, vchSig, pubKey) (sc_setValid c)\<rparr>)"

section \<open>Checking a signature\<close>

text \<open>What a node is configured with: the size of the cache and its source of randomness.\<close>

record sig_env =
  se_ssl :: openssl
  se_GetRandHash :: "nat \<Rightarrow> base_uint"
  se_maxsigcachesize :: int

definition CheckSig ::
  "sig_env \<Rightarrow> data \<Rightarrow> data \<Rightarrow> script \<Rightarrow> CTransaction \<Rightarrow> u32 \<Rightarrow> u32 \<Rightarrow> u32 \<Rightarrow> CSignatureCache \<Rightarrow> bool \<times> CSignatureCache" where
  "CheckSig env vchSig vchPubKey scriptCode txTo nIn nHashType flags c =
     (let pubkey = mk_pubkey vchPubKey
      in if \<not> pk_IsValid pubkey then (False, c)
         else if vchSig = [] then (False, c)
         else if nHashType \<noteq> 0 \<and> nHashType \<noteq> ucast (last vchSig) then (False, c)
         else let nHashType = ucast (last vchSig); vchSig = butlast vchSig;
                  sighash = SignatureHash (se_ssl env) scriptCode txTo nIn nHashType
              in if sc_Get sighash vchSig pubkey c then (True, c)
                 else if \<not> pk_Verify (se_ssl env) pubkey sighash vchSig then (False, c)
                 else (True, if flags AND SCRIPT_VERIFY_NOCACHE = 0
                             then sc_Set (se_GetRandHash env) (se_maxsigcachesize env) sighash vchSig pubkey c
                             else c))"

section \<open>The signature hash is the hash of a modified transaction\<close>

definition delete_separators :: "data \<Rightarrow> data" where
  "delete_separators s = fst (FindAndDelete s [OP_CODESEPARATOR])"

lemma strip_separators: "fst (strip_prefix [OP_CODESEPARATOR] pc n) = dropWhile (\<lambda>b. b = OP_CODESEPARATOR) pc"
proof (induction pc arbitrary: n)
  case (Cons b pc)
  then show ?case by (subst strip_prefix.simps) simp
qed (simp add: strip_prefix.simps)

lemma GetOp2_suffix: "GetOp2 pc = (ok, opcode, vch, pc') \<Longrightarrow> \<exists>pre. pc = pre @ pc'"
proof -
  assume "GetOp2 pc = (ok, opcode, vch, pc')"
  then have "suffix pc' pc"
    by (auto simp: GetOp2_def push_size_def split: list.splits if_splits option.splits
        intro!: suffix_ConsI suffix_drop suffix_tl suffix_order.trans [OF suffix_drop suffix_tl])
  then show ?thesis by (auto simp: suffix_def)
qed

lemma FindAndDelete_unfold:
  "fst (FindAndDelete_loop [OP_CODESEPARATOR] pc n) =
    (let pc1 = dropWhile (\<lambda>b. b = OP_CODESEPARATOR) pc; n1 = snd (strip_prefix [OP_CODESEPARATOR] pc n)
     in case GetOp2 pc1 of
          (True, opcode, vch, pc') \<Rightarrow>
            take (length pc1 - length pc') pc1 @ fst (FindAndDelete_loop [OP_CODESEPARATOR] pc' n1)
        | (False, opcode, vch, pc') \<Rightarrow> pc1)"
  by (subst FindAndDelete_loop.simps)
    (simp add: split_def Let_def strip_separators split: bool.split)

lemma FindAndDelete_count:
  "fst (FindAndDelete_loop [OP_CODESEPARATOR] pc n) = fst (FindAndDelete_loop [OP_CODESEPARATOR] pc m)"
proof (induction "length pc" arbitrary: pc n m rule: less_induct)
  case less
  define pc1 where "pc1 = dropWhile (\<lambda>b. b = OP_CODESEPARATOR) pc"
  obtain ok opcode vch pc' where g: "GetOp2 pc1 = (ok, opcode, vch, pc')" by (cases "GetOp2 pc1") auto
  have "length pc1 \<le> length pc" unfolding pc1_def by (rule length_dropWhile_le)
  with g less [of pc'] GetOp2_shorter [of pc1 opcode vch pc'] show ?case
    unfolding FindAndDelete_unfold [of pc] pc1_def [symmetric] Let_def by (cases ok) auto
qed

lemma delete_separators_unfold:
  "delete_separators pc =
    (let pc1 = dropWhile (\<lambda>b. b = OP_CODESEPARATOR) pc
     in case GetOp2 pc1 of
          (True, opcode, vch, pc') \<Rightarrow> take (length pc1 - length pc') pc1 @ delete_separators pc'
        | (False, opcode, vch, pc') \<Rightarrow> pc1)"
proof -
  define pc1 where "pc1 = dropWhile (\<lambda>b. b = OP_CODESEPARATOR) pc"
  have d: "delete_separators s = fst (FindAndDelete_loop [OP_CODESEPARATOR] s n)" for s n
    using FindAndDelete_count [of s 0 n] by (simp add: delete_separators_def FindAndDelete_def)
  obtain ok opcode vch pc' where "GetOp2 pc1 = (ok, opcode, vch, pc')" by (cases "GetOp2 pc1") auto
  then show ?thesis
    unfolding d [of pc 0] FindAndDelete_unfold [of pc 0] Let_def pc1_def [symmetric] by (cases ok) (simp_all flip: d)
qed

lemma delete_separator: "delete_separators (OP_CODESEPARATOR # pc) = delete_separators pc"
  by (subst (1 2) delete_separators_unfold) simp

lemma delete_other:
  assumes "GetOp2 pc = (True, opcode, vch, pc')" "opcode \<noteq> OP_CODESEPARATOR"
  shows "delete_separators pc = take (length pc - length pc') pc @ delete_separators pc'"
proof -
  have "dropWhile (\<lambda>b. b = OP_CODESEPARATOR) pc = pc"
  proof (cases pc)
    case (Cons b bs)
    then have "b \<noteq> OP_CODESEPARATOR" using assms by (auto simp: GetOp2_def split: if_splits option.splits)
    with Cons show ?thesis by simp
  qed simp
  with assms(1) show ?thesis by (subst delete_separators_unfold) simp
qed

lemma GetOp2_opcode_head:
  "GetOp2 pc = (True, opcode, vch, pc') \<Longrightarrow> OP_PUSHDATA4 < opcode \<Longrightarrow> pc = opcode # pc'"
  by (auto simp: GetOp2_def split: list.splits if_splits option.splits)

lemma write_segments_delete:
  "snd (script_ops it) \<Longrightarrow> write_segments (pre @ it) it = pre @ delete_separators it"
proof (induction it arbitrary: pre rule: script_ops_induct)
  case Nil
  show ?case by (subst write_segments.simps) (simp add: delete_separators_def FindAndDelete_def FindAndDelete_loop.simps strip_prefix.simps)
next
  case (Fail pc opcode vch pc')
  then show ?case by (simp add: script_ops_fail [OF Fail(1,2)])
next
  case (Step pc opcode vch pc')
  then have ok: "snd (script_ops pc')" by (simp add: script_ops_step [OF Step(2)])
  show ?case
  proof (cases "opcode = OP_CODESEPARATOR")
    case True
    then have pc: "pc = OP_CODESEPARATOR # pc'" using GetOp2_opcode_head [OF Step(2)] by simp
    show ?thesis using Step(3) [OF ok, of "[]"] Step(2) True
      by (subst write_segments.simps) (simp add: pc delete_separator)
  next
    case False
    obtain m where m: "pc = m @ pc'" using GetOp2_suffix [OF Step(2)] by blast
    show ?thesis using Step(3) [OF ok, of "pre @ m"] Step(2) False delete_other [OF Step(2) False]
      by (subst write_segments.simps) (simp add: m)
  qed
qed

lemma count_separators_length:
  "snd (script_ops it) \<Longrightarrow> length it < 2 ^ 32 \<Longrightarrow>
    \<exists>k. count_separators it n = n + of_nat k \<and> length it = length (delete_separators it) + k"
proof (induction it arbitrary: n rule: script_ops_induct)
  case Nil
  show ?case by (subst count_separators.simps) (simp add: delete_separators_def FindAndDelete_def FindAndDelete_loop.simps strip_prefix.simps)
next
  case (Fail pc opcode vch pc')
  then show ?case by (simp add: script_ops_fail [OF Fail(1,2)])
next
  case (Step pc opcode vch pc')
  then have ok: "snd (script_ops pc')" by (simp add: script_ops_step [OF Step(2)])
  have l: "length pc' < 2 ^ 32" using GetOp2_shorter [OF Step(2)] Step(5) by simp
  show ?case
  proof (cases "opcode = OP_CODESEPARATOR")
    case True
    then have pc: "pc = OP_CODESEPARATOR # pc'" using GetOp2_opcode_head [OF Step(2)] by simp
    from Step(3) [OF ok l, of "n + 1"] obtain k where
      "count_separators pc' (n + 1) = n + 1 + of_nat k" "length pc' = length (delete_separators pc') + k" by blast
    then show ?thesis using Step(2) True
      by (subst count_separators.simps) (auto simp: pc delete_separator intro!: exI [of _ "Suc k"])
  next
    case False
    from Step(3) [OF ok l, of n] obtain k where
      k: "count_separators pc' n = n + of_nat k" "length pc' = length (delete_separators pc') + k" by blast
    then show ?thesis using Step(2) False delete_other [OF Step(2) False] GetOp2_shorter [OF Step(2)]
      by (subst count_separators.simps) (auto intro!: exI [of _ k])
  qed
qed

lemma SerializeScriptCode_delete:
  assumes "snd (script_ops (ss_scriptCode ss))" "length (ss_scriptCode ss) < 2 ^ 32"
  shows "SerializeScriptCode ss = Serialize_bytes (delete_separators (ss_scriptCode ss))"
proof -
  obtain k where k: "count_separators (ss_scriptCode ss) 0 = of_nat k"
    "length (ss_scriptCode ss) = length (delete_separators (ss_scriptCode ss)) + k"
    using count_separators_length [OF assms, of 0] by auto
  have "(ucast (of_nat k :: u32) :: u64) = of_nat k" using k(2) assms(2)
    by (simp add: word_unat_eq_iff unat_ucast_up unat_of_nat)
  then show ?thesis using k write_segments_delete [OF assms(1), of "[]"]
    by (simp add: SerializeScriptCode_def Serialize_bytes_def Let_def)
qed

definition sighash_vin :: "script \<Rightarrow> bool \<Rightarrow> nat \<Rightarrow> nat \<Rightarrow> CTxIn \<Rightarrow> CTxIn" where
  "sighash_vin scriptCode partial nIn i txin =
     (if i = nIn then txin\<lparr>ti_scriptSig := delete_separators scriptCode\<rparr>
      else if partial then txin\<lparr>ti_scriptSig := [], ti_nSequence := 0\<rparr>
      else txin\<lparr>ti_scriptSig := []\<rparr>)"

text \<open>
  The reference: the transaction with the scripts of the other inputs emptied, and outputs, sequence
  numbers and inputs left out as the hash type says.
\<close>

definition sighash_tx :: "script \<Rightarrow> CTransaction \<Rightarrow> nat \<Rightarrow> u32 \<Rightarrow> CTransaction" where
  "sighash_tx scriptCode tx nIn nHashType =
     (let none = (nHashType AND 0x1f = SIGHASH_NONE); single = (nHashType AND 0x1f = SIGHASH_SINGLE);
          vin = map (\<lambda>i. sighash_vin scriptCode (single \<or> none) nIn i (tx_vin tx ! i)) [0..<length (tx_vin tx)]
      in tx\<lparr>tx_vin := if nHashType AND SIGHASH_ANYONECANPAY \<noteq> 0 then [vin ! nIn] else vin,
            tx_vout := if none then []
                       else if single then replicate nIn \<lparr>to_nValue = - 1, to_scriptPubKey = []\<rparr> @ [tx_vout tx ! nIn]
                       else tx_vout tx\<rparr>)"

lemma concat_map_nth: "concat (map (\<lambda>i. f (xs ! i)) [0..<length xs]) = concat (map f xs)"
  by (rule arg_cong [where f = concat]) (rule nth_equalityI, simp_all)

lemma of_nat_u32_eq: "i < 2 ^ 32 \<Longrightarrow> of_nat i = (w :: u32) \<longleftrightarrow> i = unat w"
  by (auto simp: word_unat_eq_iff unat_of_nat)

lemma ucast_of_nat_u32: "n < 2 ^ 32 \<Longrightarrow> (ucast (of_nat n :: u32) :: u64) = of_nat n"
  by (simp add: word_unat_eq_iff unat_ucast_up unat_of_nat)

lemma SerializeInput_reference:
  assumes "snd (script_ops code)" "length code < 2 ^ 32" "i < 2 ^ 32" "\<not> ss_fAnyoneCanPay ss \<or> i = unat (ss_nIn ss)"
    "ss_scriptCode ss = code"
  shows "SerializeInput ss (of_nat i) =
    txin_Serialize (sighash_vin code (ss_fHashSingle ss \<or> ss_fHashNone ss) (unat (ss_nIn ss)) i (tx_vin (ss_txTo ss) ! i))"
proof -
  have i: "unat (of_nat i :: u32) = i" using assms(3) by (simp add: unat_of_nat)
  have e: "(of_nat i = ss_nIn ss) = (i = unat (ss_nIn ss))" by (rule of_nat_u32_eq [OF assms(3)])
  show ?thesis
  proof (cases "i = unat (ss_nIn ss)")
    case True
    then have n: "(if ss_fAnyoneCanPay ss then ss_nIn ss else of_nat i) = ss_nIn ss" using e by simp
    show ?thesis using True SerializeScriptCode_delete [of ss] assms(1,2,5)
      unfolding SerializeInput_def n Let_def sighash_vin_def txin_Serialize_def by simp
  next
    case False
    then have n: "(if ss_fAnyoneCanPay ss then ss_nIn ss else of_nat i) = of_nat i" "of_nat i \<noteq> ss_nIn ss"
      using e assms(4) by simp_all
    show ?thesis using False n(2)
      unfolding SerializeInput_def n(1) Let_def sighash_vin_def txin_Serialize_def i by simp
  qed
qed

lemma ss_new_fields:
  fixes tx scriptCode nIn nHashType
  defines "ss \<equiv> ss_new tx scriptCode nIn nHashType"
  shows "ss_txTo ss = tx" "ss_scriptCode ss = scriptCode" "ss_nIn ss = nIn"
    "ss_fAnyoneCanPay ss = (nHashType AND SIGHASH_ANYONECANPAY \<noteq> 0)"
    "ss_fHashSingle ss = (nHashType AND 0x1f = SIGHASH_SINGLE)" "ss_fHashNone ss = (nHashType AND 0x1f = SIGHASH_NONE)"
  by (simp_all add: ss_def ss_new_def)

text \<open>The inputs and the outputs that are serialized are those of the modified transaction.\<close>

lemma inputs_reference:
  fixes tx scriptCode nIn nHashType
  assumes "snd (script_ops scriptCode)" "length scriptCode < 2 ^ 32"
    "unat nIn < length (tx_vin tx)" "length (tx_vin tx) < 2 ^ 32"
  defines "ss \<equiv> ss_new tx scriptCode nIn nHashType"
  shows "WriteCompactSize (ucast (if ss_fAnyoneCanPay ss then 1 else of_nat (length (tx_vin tx)) :: u32)) @
      concat (map (\<lambda>i. SerializeInput ss (of_nat i)) [0..<unat (if ss_fAnyoneCanPay ss then 1 else of_nat (length (tx_vin tx)) :: u32)])
     
      = Serialize_vector txin_Serialize (tx_vin (sighash_tx scriptCode tx (unat nIn) nHashType))" (is "?lhs = _")
proof -
  note ss = ss_new_fields [of tx scriptCode nIn nHashType, folded ss_def]
  define vin where "vin = tx_vin (sighash_tx scriptCode tx (unat nIn) nHashType)"
  have inp: "SerializeInput ss (of_nat i) =
      txin_Serialize (sighash_vin scriptCode (ss_fHashSingle ss \<or> ss_fHashNone ss) (unat nIn) i (tx_vin tx ! i))"
    if "i < length (tx_vin tx)" "\<not> ss_fAnyoneCanPay ss \<or> i = unat nIn" for i
    using SerializeInput_reference [OF assms(1,2), of i ss] that assms(4) by (simp add: ss(1-3))
  have "?lhs = Serialize_vector txin_Serialize vin"
  proof (cases "ss_fAnyoneCanPay ss")
    case True
    then have v: "vin = [sighash_vin scriptCode (ss_fHashSingle ss \<or> ss_fHashNone ss) (unat nIn) (unat nIn) (tx_vin tx ! unat nIn)]"
      using assms(3) by (auto simp: vin_def sighash_tx_def ss Let_def)
    have "SerializeInput ss (of_nat 0) = SerializeInput ss nIn" using True by (simp add: SerializeInput_def ss)
    then show "?lhs = Serialize_vector txin_Serialize vin" using True inp [of "unat nIn"] assms(3) by (simp add: v Serialize_vector_def)
  next
    case False
    then have v: "vin = map (\<lambda>i. sighash_vin scriptCode (ss_fHashSingle ss \<or> ss_fHashNone ss) (unat nIn) i (tx_vin tx ! i)) [0..<length (tx_vin tx)]"
      by (auto simp: vin_def sighash_tx_def ss Let_def)
    have u: "unat (of_nat (length (tx_vin tx)) :: u32) = length (tx_vin tx)" using assms(4) by (simp add: unat_of_nat)
    have "map (\<lambda>i. SerializeInput ss (of_nat i)) [0..<length (tx_vin tx)] = map txin_Serialize vin"
      using inp False by (simp add: v)
    then show "?lhs = Serialize_vector txin_Serialize vin" using False by (simp add: Serialize_vector_def u ucast_of_nat_u32 [OF assms(4)]) (simp add: v)
  qed
  then show ?thesis by (simp add: vin_def)
qed

lemma single_outputs_reference:
  assumes ss: "ss_fHashSingle ss" "\<not> ss_fHashNone ss" "ss_nIn ss = nIn" "ss_txTo ss = tx"
    and n: "unat nIn < length (tx_vout tx)" and l: "length (tx_vout tx) < 2 ^ 32"
    and v: "vout = replicate (unat nIn) \<lparr>to_nValue = - 1, to_scriptPubKey = []\<rparr> @ [tx_vout tx ! unat nIn]"
  shows "WriteCompactSize (ucast (nIn + 1)) @ concat (map (\<lambda>i. SerializeOutput ss (of_nat i)) [0..<unat (nIn + 1)]) =
    Serialize_vector txout_Serialize vout"
proof -
  have u: "unat (nIn + 1) = Suc (unat nIn)" using n l by (intro unat_Suc_word') simp
  have lv: "length vout = Suc (unat nIn)" by (simp add: v)
  have elem: "SerializeOutput ss (of_nat i) = txout_Serialize (vout ! i)" if "i < Suc (unat nIn)" for i
  proof -
    have i: "i < 2 ^ 32" using that n l by linarith
    then have "unat (of_nat i :: u32) = i" by (simp add: unat_of_nat)
    with of_nat_u32_eq [OF i, of nIn] ss(1) that show ?thesis
      by (auto simp: SerializeOutput_def ss v nth_append less_Suc_eq)
  qed
  have outs: "map (\<lambda>i. SerializeOutput ss (of_nat i)) [0..<Suc (unat nIn)] = map (\<lambda>i. txout_Serialize (vout ! i)) [0..<length vout]"
    unfolding lv by (intro map_cong refl elem) (simp only: set_upt atLeastLessThan_iff)
  have "unat (ucast (nIn + 1) :: u64) = Suc (unat nIn)"
    using u by (subst unat_ucast_up) simp_all
  moreover have "unat (of_nat (Suc (unat nIn)) :: u64) = Suc (unat nIn)"
    using unat_less_32 [of nIn] by (subst unat_of_nat) simp
  ultimately have "ucast (nIn + 1) = (of_nat (length vout) :: u64)"
    unfolding lv word_unat_eq_iff by (simp only:)
  with outs show ?thesis by (simp only: Serialize_vector_def u concat_map_nth)
qed

lemma outputs_reference:
  fixes tx scriptCode nIn nHashType
  assumes l: "length (tx_vout tx) < 2 ^ 32"
    and n: "nHashType AND 0x1f = SIGHASH_SINGLE \<longrightarrow> unat nIn < length (tx_vout tx)"
  defines "ss \<equiv> ss_new tx scriptCode nIn nHashType"
  shows "WriteCompactSize (ucast (if ss_fHashNone ss then 0 else if ss_fHashSingle ss then nIn + 1 else of_nat (length (tx_vout tx)) :: u32)) @
      concat (map (\<lambda>i. SerializeOutput ss (of_nat i)) [0..<unat (if ss_fHashNone ss then 0 else if ss_fHashSingle ss then nIn + 1 else of_nat (length (tx_vout tx)) :: u32)])
      = Serialize_vector txout_Serialize (tx_vout (sighash_tx scriptCode tx (unat nIn) nHashType))" (is "?lhs = _")
proof -
  note ss = ss_new_fields [of tx scriptCode nIn nHashType, folded ss_def]
  define vout where "vout = tx_vout (sighash_tx scriptCode tx (unat nIn) nHashType)"
  consider "ss_fHashNone ss" | "\<not> ss_fHashNone ss" "ss_fHashSingle ss" | "\<not> ss_fHashNone ss" "\<not> ss_fHashSingle ss" by blast
  then have "?lhs = Serialize_vector txout_Serialize vout"
  proof cases
    case 1
    then have "vout = []" by (simp add: vout_def sighash_tx_def ss Let_def)
    then show "?lhs = Serialize_vector txout_Serialize vout" using 1 by (simp add: Serialize_vector_def)
  next
    case 2
    then have v: "vout = replicate (unat nIn) \<lparr>to_nValue = - 1, to_scriptPubKey = []\<rparr> @ [tx_vout tx ! unat nIn]"
      by (simp add: vout_def sighash_tx_def ss Let_def)
    have "unat nIn < length (tx_vout tx)" using n 2(2) ss(5) by simp
    from single_outputs_reference [OF 2(2,1) ss(3,1) this l v] show "?lhs = Serialize_vector txout_Serialize vout" using 2 by (simp only: if_False if_True)
  next
    case 3
    then have v: "vout = tx_vout tx" by (simp add: vout_def sighash_tx_def ss Let_def)
    have u: "unat (of_nat (length (tx_vout tx)) :: u32) = length (tx_vout tx)" using l by (simp add: unat_of_nat)
    have "map (\<lambda>i. SerializeOutput ss (of_nat i)) [0..<length vout] = map (\<lambda>i. txout_Serialize (vout ! i)) [0..<length vout]"
      using 3 l by (simp add: SerializeOutput_def ss v unat_of_nat)
    then show "?lhs = Serialize_vector txout_Serialize vout" using 3 by (simp only: if_False Serialize_vector_def u ucast_of_nat_u32 [OF l] v concat_map_nth)
  qed
  then show ?thesis by (simp add: vout_def)
qed

text \<open>C15: SignatureHash, which serializes what is signed in one pass, is the double SHA-256 of the transaction
  modified as the hash type says (other scripts emptied, OP_CODESEPARATORs deleted from the script being
  satisfied; no outputs for NONE, only the output of the same index for SINGLE with the earlier ones
  null; only the signed input for ANYONECANPAY), serialized like any transaction, followed by the hash
  type. The script must consist of complete instructions.\<close>

theorem signature_hash_reference:
  assumes "snd (script_ops scriptCode)" "length scriptCode < 2 ^ 32"
    "unat nIn < length (tx_vin tx)" "length (tx_vin tx) < 2 ^ 32" "length (tx_vout tx) < 2 ^ 32"
    "nHashType AND 0x1f = SIGHASH_SINGLE \<longrightarrow> unat nIn < length (tx_vout tx)"
  shows "SignatureHash ssl scriptCode tx nIn nHashType =
    Hash ssl (tx_Serialize (sighash_tx scriptCode tx (unat nIn) nHashType) @ le_bytes 4 nHashType)"
proof -
  let ?ss = "ss_new tx scriptCode nIn nHashType" and ?tx = "sighash_tx scriptCode tx (unat nIn) nHashType"
  have "tx_nVersion ?tx = tx_nVersion tx" "tx_nLockTime ?tx = tx_nLockTime tx"
    by (simp_all add: sighash_tx_def Let_def)
  then have "ss_Serialize ?ss = tx_Serialize ?tx"
    by (simp only: ss_Serialize_def tx_Serialize_def Let_def ss_new_fields(1,3) inputs_reference [OF assms(1-4), symmetric]
        outputs_reference [OF assms(5,6), symmetric] append_assoc)
  moreover have "\<not> (nHashType AND 0x1f = SIGHASH_SINGLE \<and> unat nIn \<ge> length (tx_vout tx))" using assms(6) by auto
  ultimately show ?thesis using assms(3)
    by (cases "nHashType AND 0x1f = SIGHASH_SINGLE") (simp_all add: SignatureHash_def Let_def hw_new_def hw_write_def hw_GetHash_def Hash_def)
qed

theorem signature_hash_reference_witness:
  "SignatureHash sample_ssl [OP_DUP, OP_CODESEPARATOR, OP_CHECKSIG] sample_tx 0 3 =
    Hash sample_ssl (tx_Serialize (sighash_tx [OP_DUP, OP_CODESEPARATOR, OP_CHECKSIG] sample_tx 0 3) @ le_bytes 4 (3 :: u32))"
proof -
  have "snd (script_ops [OP_DUP, OP_CODESEPARATOR, OP_CHECKSIG])" by (simp add: script_ops_step)
  from signature_hash_reference [OF this, of 0 sample_tx 3 sample_ssl] show ?thesis by (simp add: sample_tx_def)
qed

text \<open>With SIGHASH_SINGLE and no output at the index of the input, SignatureHash is the number one whatever
  the transaction and the script are: such a signature does not commit to anything.\<close>

theorem sighash_single_without_output:
  assumes "nHashType AND 0x1f = SIGHASH_SINGLE" "length (tx_vout tx) \<le> unat nIn"
  shows "SignatureHash ssl scriptCode tx nIn nHashType = bu_of_u64 8 1"
  using assms by (simp add: SignatureHash_def)

theorem sighash_single_without_output_witness:
  "SignatureHash sample_ssl [] (sample_tx\<lparr>tx_vin := replicate 3 empty_txin\<rparr>) 2 0x83 = bu_of_u64 8 1"
proof -
  have "(0x83 :: u32) AND 0x1f = SIGHASH_SINGLE" unfolding SIGHASH_SINGLE_def by simp
  from sighash_single_without_output [OF this, of "sample_tx\<lparr>tx_vin := replicate 3 empty_txin\<rparr>" 2] show ?thesis
    by (simp add: sample_tx_def)
qed

section \<open>The cache does not change the answer\<close>

text \<open>Signature checking without a cache.\<close>

definition checksig_spec :: "openssl \<Rightarrow> data \<Rightarrow> data \<Rightarrow> script \<Rightarrow> CTransaction \<Rightarrow> u32 \<Rightarrow> u32 \<Rightarrow> bool" where
  "checksig_spec ssl vchSig vchPubKey scriptCode txTo nIn nHashType \<longleftrightarrow>
     vchSig \<noteq> [] \<and> (nHashType = 0 \<or> nHashType = ucast (last vchSig)) \<and>
     pk_Verify ssl (mk_pubkey vchPubKey) (SignatureHash ssl scriptCode txTo nIn (ucast (last vchSig))) (butlast vchSig)"

fun entry_ok :: "openssl \<Rightarrow> sigdata \<Rightarrow> bool" where
  "entry_ok ssl (h, s, k) \<longleftrightarrow> length h = 8 \<and> pk_Verify ssl k h s"

definition cache_ok :: "openssl \<Rightarrow> CSignatureCache \<Rightarrow> bool" where
  "cache_ok ssl c \<longleftrightarrow> (\<forall>e \<in> set (sc_setValid c). entry_ok ssl e)"

lemma bytes_less_total: "\<not> bytes_less a b \<Longrightarrow> \<not> bytes_less b a \<Longrightarrow> a = b"
  by (induction a b rule: bytes_less.induct) auto

lemma length_SignatureHash: "digests_ok ssl \<Longrightarrow> length (SignatureHash ssl code tx n t) = 8"
  using length_Hash [of ssl] by (simp add: SignatureHash_def Let_def hw_new_def hw_write_def hw_GetHash_def Hash_def bu_of_u64_def)

lemma equiv_verified:
  assumes "sig_equiv (h, s, k) e" "entry_ok ssl e" "length h = 8" 
  shows "pk_Verify ssl k h s"
proof -
  obtain h' s' k' where e: "e = (h', s', k')" by (cases e) auto
  with assms have l: "length h = length h'" and v: "pk_Verify ssl k' h' s'"
    and q: "\<not> bu_less h h'" "\<not> bu_less h' h" "\<not> bytes_less s s'" "\<not> bytes_less s' s" "\<not> pk_less k k'" "\<not> pk_less k' k"
    by (auto simp: sig_equiv_def)
  have "h = h'" using q(1,2) by (intro uvalue_inj [OF l] antisym) (simp_all add: bu_compare(1) [OF l] bu_compare(1) [OF l [symmetric]])
  moreover have "s = s'" using q(3,4) by (rule bytes_less_total)
  moreover have hd: "hd (pk_vch k) = hd (pk_vch k')" using q(5,6) by (auto simp: pk_less_def not_less intro: antisym)
  moreover have "pk_bytes k = pk_bytes k'"
    unfolding pk_bytes_def using q(5,6) hd by (intro bytes_less_total) (auto simp: pk_less_def pk_size_def)
  ultimately show ?thesis using v by (simp add: pk_Verify_def pk_IsValid_def pk_size_def)
qed

lemma set_evict_one: "set (evict_one h es) \<subseteq> set es"
  by (cases es) (auto simp: evict_one_def Let_def dest: set_takeWhileD in_set_dropD split: if_splits)

lemma evict_ok: "cache_ok ssl c \<Longrightarrow> cache_ok ssl (sc_evict r m c)"
proof (induction r m c rule: sc_evict.induct)
  case (1 r m c)
  then show ?case using set_evict_one by (subst sc_evict.simps) (auto simp: cache_ok_def)
qed

lemma set_sig_insert: "set (sig_insert k es) \<subseteq> insert k (set es)"
  by (induction es) auto

lemma sc_Set_ok: "cache_ok ssl c \<Longrightarrow> entry_ok ssl (h, s, k) \<Longrightarrow> cache_ok ssl (sc_Set r m h s k c)"
  using evict_ok [of ssl c r m] set_sig_insert by (fastforce simp: sc_Set_def cache_ok_def Let_def)

lemma CheckSig_spec:
  assumes "digests_ok (se_ssl env)" "cache_ok (se_ssl env) c"
  shows "fst (CheckSig env sig pk code tx nIn t flags c) = checksig_spec (se_ssl env) sig pk code tx nIn t \<and>
    cache_ok (se_ssl env) (snd (CheckSig env sig pk code tx nIn t flags c))"
proof -
  let ?h = "SignatureHash (se_ssl env) code tx nIn (ucast (last sig))"
  have get: "pk_Verify (se_ssl env) (mk_pubkey pk) ?h (butlast sig)" if "sc_Get ?h (butlast sig) (mk_pubkey pk) c"
    using that equiv_verified assms length_SignatureHash by (fastforce simp: sc_Get_def list_ex_iff cache_ok_def)
  have set: "cache_ok (se_ssl env) (sc_Set r m ?h (butlast sig) (mk_pubkey pk) c)"
    if "pk_Verify (se_ssl env) (mk_pubkey pk) ?h (butlast sig)" for r m
    using assms that by (intro sc_Set_ok) (simp_all add: length_SignatureHash)
  show ?thesis using get set assms(2)
    by (auto simp: CheckSig_def checksig_spec_def Let_def pk_Verify_def)
qed

text \<open>The cache of valid signatures holds only signatures that were verified, CheckSig keeps it so, and with
  such a cache (whatever was evicted) CheckSig accepts exactly the signatures that verification accepts.\<close>

theorem signature_cache_transparent:
  assumes "digests_ok (se_ssl env)" "cache_ok (se_ssl env) c"
  shows "fst (CheckSig env sig pk code tx nIn t flags c) = checksig_spec (se_ssl env) sig pk code tx nIn t \<and>
    cache_ok (se_ssl env) (snd (CheckSig env sig pk code tx nIn t flags c))"
  using assms by (rule CheckSig_spec)

lemma length_sig_insert: "length (sig_insert k es) \<le> Suc (length es)"
  by (induction es) auto

lemma length_evict: "0 \<le> m \<Longrightarrow> int (length (sc_setValid (sc_evict r m c))) \<le> m"
proof (induction r m c rule: sc_evict.induct)
  case (1 r m c)
  then show ?case by (subst sc_evict.simps) (auto simp: not_less)
qed

text \<open>C38: After an insertion the cache has at most one entry more than -maxsigcachesize, whatever its size was
  before; with a size that is not positive nothing is stored.\<close>

theorem signature_cache_bounded:
  "int (length (sc_setValid (sc_Set r m h s k c))) \<le> max (m + 1) (int (length (sc_setValid c))) \<and>
   (0 < m \<longrightarrow> int (length (sc_setValid (sc_Set r m h s k c))) \<le> m + 1) \<and>
   (m \<le> 0 \<longrightarrow> sc_Set r m h s k c = c)"
proof -
  have "int (length (sig_insert (h, s, k) (sc_setValid (sc_evict r m c)))) \<le> m + 1" if "0 < m"
    using length_sig_insert [of "(h, s, k)" "sc_setValid (sc_evict r m c)"] length_evict [of m r c] that by linarith
  then show ?thesis by (auto simp: sc_Set_def Let_def)
qed

theorem signature_cache_bounded_witness:
  "int (length (sc_setValid (sc_Set (\<lambda>i. [1]) 1 [5] [] (mk_pubkey []) \<lparr>sc_setValid = [([3], [], mk_pubkey []), ([4], [], mk_pubkey [])], sc_draws = 0\<rparr>))) \<le> 2"
  using signature_cache_bounded [of "\<lambda>i. [1]" 1 "[5]" "[]" "mk_pubkey []"] by force

definition sample_key :: data where
  "sample_key = 2 # replicate 31 0 @ [7]"

definition sample_sig :: data where
  "sample_sig = [0x30, 6, 2, 1, 1, 2, 1, 1]"

definition sample_env :: sig_env where
  "sample_env = \<lparr>se_ssl = sample_ssl, se_GetRandHash = \<lambda>i. replicate 8 0, se_maxsigcachesize = 50000\<rparr>"

lemma sample_verify: "pk_Verify sample_ssl (mk_pubkey sample_key) h sample_sig"
proof -
  have "pk_bytes (mk_pubkey sample_key) = sample_key" "pk_size (mk_pubkey sample_key) = 33"
    using pk_Set_bytes [of 2 "replicate 31 0 @ [7]" "\<lparr>pk_vch = []\<rparr>"]
    by (simp_all add: mk_pubkey_def sample_key_def GetLen_def pk_size_def)
  moreover have "sample_o2i sample_key = Some (Some (7, 0))"
    by (simp add: sample_o2i_def sample_key_def Let_def be_value_replicate_0 secp256k1_order_def)
  ultimately show ?thesis
    by (simp add: pk_Verify_def pk_IsValid_def sample_ssl_def sample_sig_def)
qed

theorem signature_cache_transparent_witness:
  "\<exists>c. sc_setValid c \<noteq> [] \<and> cache_ok sample_ssl c \<and>
     fst (CheckSig sample_env (sample_sig @ [1]) sample_key [OP_CHECKSIG] sample_tx 0 0 0 c) =
       checksig_spec sample_ssl (sample_sig @ [1]) sample_key [OP_CHECKSIG] sample_tx 0 0"
proof -
  define c where "c = \<lparr>sc_setValid = [(replicate 8 0, sample_sig, mk_pubkey sample_key)], sc_draws = 0\<rparr>"
  have "cache_ok sample_ssl c" using sample_verify by (simp add: cache_ok_def c_def)
  moreover have "se_ssl sample_env = sample_ssl" by (simp add: sample_env_def)
  ultimately show ?thesis
    using signature_cache_transparent [of sample_env c] sample_digests_ok
    by (intro exI [of _ c]) (simp add: c_def)
qed

end
