(* ===== verification/Interpreter.thy ===== *)
theory Interpreter
  imports Sighash
begin

text \<open>
  The script interpreter of \<open>src/src/lib/core/script.cpp\<close>: \<open>EvalScript\<close>, one definition per group of
  opcodes, and \<open>VerifyScript\<close>. A stack is the vector from its back to its front, so \<open>stacktop(-1)\<close> is
  the first element. A step gives whether evaluation goes on and the state, also when it stops, since
  the caller sees the stack it leaves; an exception stops it like a returned \<open>false\<close>. The check of a
  signature is a parameter of the steps, which \<open>EvalScript\<close> fills with \<open>CheckSig\<close>.
\<close>

section \<open>Numbers and booleans on the stack\<close>

definition vchFalse :: valtype where "vchFalse = []"
definition vchTrue :: valtype where "vchTrue = [1]"

definition nMaxNumSize :: nat where
  "nMaxNumSize = 4"

definition CastToBigNum :: "openssl \<Rightarrow> valtype \<Rightarrow> bignum result" where
  "CastToBigNum ssl vch =
     (if length vch > nMaxNumSize then Inl (Thrown ''CastToBigNum() : overflow'')
      else Inr (setvch ssl (getvch ssl (setvch ssl vch))))"

fun CastToBool :: "valtype \<Rightarrow> bool" where
  "CastToBool [] = False"
| "CastToBool (b # bs) = (if b \<noteq> 0 then (if bs = [] \<and> b = 0x80 then False else True) else CastToBool bs)"

section \<open>Canonical keys and signatures\<close>

definition IsCanonicalPubKey :: "valtype \<Rightarrow> u32 \<Rightarrow> bool" where
  "IsCanonicalPubKey vchPubKey flags =
     (if flags AND SCRIPT_VERIFY_STRICTENC = 0 then True
      else if length vchPubKey < 33 then False
      else if vchPubKey ! 0 = 0x04 then length vchPubKey = 65
      else if vchPubKey ! 0 = 0x02 \<or> vchPubKey ! 0 = 0x03 then length vchPubKey = 33
      else False)"

definition IsCanonicalSignature :: "valtype \<Rightarrow> u32 \<Rightarrow> bool" where
  "IsCanonicalSignature vchSig flags =
     (if flags AND SCRIPT_VERIFY_STRICTENC = 0 then True
      else if length vchSig < 9 then False
      else if length vchSig > 73 then False
      else let nHashType = last vchSig AND NOT (ucast SIGHASH_ANYONECANPAY)
      in if nHashType < ucast SIGHASH_ALL \<or> nHashType > ucast SIGHASH_SINGLE then False
      else if vchSig ! 0 \<noteq> 0x30 then False
      else if unat (vchSig ! 1) \<noteq> length vchSig - 3 then False
      else let nLenR = unat (vchSig ! 3)
      in if 5 + nLenR \<ge> length vchSig then False
      else let nLenS = unat (vchSig ! (5 + nLenR))
      in if nLenR + nLenS + 7 \<noteq> length vchSig then False
      else let R = drop 4 vchSig
      in if vchSig ! 2 \<noteq> 0x02 then False
      else if nLenR = 0 then False
      else if R ! 0 AND 0x80 \<noteq> 0 then False
      else if nLenR > 1 \<and> R ! 0 = 0 \<and> \<not> R ! 1 AND 0x80 \<noteq> 0 then False
      else let S = drop (6 + nLenR) vchSig
      in if vchSig ! (4 + nLenR) \<noteq> 0x02 then False
      else if nLenS = 0 then False
      else if S ! 0 AND 0x80 \<noteq> 0 then False
      else if nLenS > 1 \<and> S ! 0 = 0 \<and> \<not> S ! 1 AND 0x80 \<noteq> 0 then False
      else if flags AND SCRIPT_VERIFY_EVEN_S \<noteq> 0 \<and> S ! (nLenS - 1) AND 1 \<noteq> 0 then False
      else True)"

section \<open>The state\<close>

record interp =
  i_stack :: "valtype list"
  i_altstack :: "valtype list"
  i_vfExec :: "bool list"
  i_nOpCount :: int
  i_codehash :: script
  i_cache :: CSignatureCache

type_synonym step_result = "bool \<times> interp"

type_synonym checker = "data \<Rightarrow> data \<Rightarrow> script \<Rightarrow> CSignatureCache \<Rightarrow> bool \<times> CSignatureCache"

definition go_on :: "interp \<Rightarrow> step_result" where
  "go_on s = (True, s)"

definition stop :: "interp \<Rightarrow> step_result" where
  "stop s = (False, s)"

definition set_stack :: "valtype list \<Rightarrow> interp \<Rightarrow> step_result" where
  "set_stack st s = go_on (s\<lparr>i_stack := st\<rparr>)"

text \<open>An exception while the numbers are read stops the evaluation.\<close>

definition with_num :: "openssl \<Rightarrow> valtype \<Rightarrow> interp \<Rightarrow> (bignum \<Rightarrow> step_result) \<Rightarrow> step_result" where
  "with_num ssl vch s f = (case CastToBigNum ssl vch of Inl e \<Rightarrow> stop s | Inr bn \<Rightarrow> f bn)"

definition bn_bool :: "bool \<Rightarrow> bignum" where
  "bn_bool b = (if b then 1 else 0)"

definition vch_bool :: "bool \<Rightarrow> valtype" where
  "vch_bool b = (if b then vchTrue else vchFalse)"

text \<open>The end of a check: the result is pushed; a \<open>VERIFY\<close> opcode pops it again or stops.\<close>

definition push_check :: "bool \<Rightarrow> bool \<Rightarrow> valtype list \<Rightarrow> interp \<Rightarrow> step_result" where
  "push_check verify fSuccess st s =
     (if verify then (if fSuccess then set_stack st s else stop (s\<lparr>i_stack := vch_bool fSuccess # st\<rparr>))
      else set_stack (vch_bool fSuccess # st) s)"

section \<open>The opcodes\<close>

definition op_number :: "openssl \<Rightarrow> opcodetype \<Rightarrow> interp \<Rightarrow> step_result" where
  "op_number ssl opcode s =
     set_stack (getvch ssl (CBigNum_of_long ssl (of_int (uint opcode - uint (OP_1 - 1)))) # i_stack s) s"

definition op_if :: "opcodetype \<Rightarrow> bool \<Rightarrow> interp \<Rightarrow> step_result" where
  "op_if opcode fExec s =
     (if fExec then
        (case i_stack s of
           [] \<Rightarrow> stop s
         | vch # st \<Rightarrow>
             let fValue = (if opcode = OP_NOTIF then \<not> CastToBool vch else CastToBool vch)
             in go_on (s\<lparr>i_stack := st, i_vfExec := fValue # i_vfExec s\<rparr>))
      else go_on (s\<lparr>i_vfExec := False # i_vfExec s\<rparr>))"

definition op_else :: "interp \<Rightarrow> step_result" where
  "op_else s = (case i_vfExec s of [] \<Rightarrow> stop s | f # fs \<Rightarrow> go_on (s\<lparr>i_vfExec := (\<not> f) # fs\<rparr>))"

definition op_endif :: "interp \<Rightarrow> step_result" where
  "op_endif s = (case i_vfExec s of [] \<Rightarrow> stop s | f # fs \<Rightarrow> go_on (s\<lparr>i_vfExec := fs\<rparr>))"

definition op_verify :: "interp \<Rightarrow> step_result" where
  "op_verify s =
     (case i_stack s of [] \<Rightarrow> stop s | vch # st \<Rightarrow> if CastToBool vch then set_stack st s else stop s)"

definition op_toaltstack :: "interp \<Rightarrow> step_result" where
  "op_toaltstack s =
     (case i_stack s of [] \<Rightarrow> stop s
      | vch # st \<Rightarrow> go_on (s\<lparr>i_stack := st, i_altstack := vch # i_altstack s\<rparr>))"

definition op_fromaltstack :: "interp \<Rightarrow> step_result" where
  "op_fromaltstack s =
     (case i_altstack s of [] \<Rightarrow> stop s
      | vch # alt \<Rightarrow> go_on (s\<lparr>i_stack := vch # i_stack s, i_altstack := alt\<rparr>))"

definition op_2drop :: "interp \<Rightarrow> step_result" where
  "op_2drop s = (case i_stack s of x2 # x1 # st \<Rightarrow> set_stack st s | _ \<Rightarrow> stop s)"

definition op_2dup :: "interp \<Rightarrow> step_result" where
  "op_2dup s = (case i_stack s of x2 # x1 # st \<Rightarrow> set_stack (x2 # x1 # x2 # x1 # st) s | _ \<Rightarrow> stop s)"

definition op_3dup :: "interp \<Rightarrow> step_result" where
  "op_3dup s =
     (case i_stack s of x3 # x2 # x1 # st \<Rightarrow> set_stack (x3 # x2 # x1 # x3 # x2 # x1 # st) s | _ \<Rightarrow> stop s)"

definition op_2over :: "interp \<Rightarrow> step_result" where
  "op_2over s =
     (case i_stack s of x4 # x3 # x2 # x1 # st \<Rightarrow> set_stack (x2 # x1 # x4 # x3 # x2 # x1 # st) s | _ \<Rightarrow> stop s)"

definition op_2rot :: "interp \<Rightarrow> step_result" where
  "op_2rot s =
     (case i_stack s of
        x6 # x5 # x4 # x3 # x2 # x1 # st \<Rightarrow> set_stack (x2 # x1 # x6 # x5 # x4 # x3 # st) s
      | _ \<Rightarrow> stop s)"

definition op_2swap :: "interp \<Rightarrow> step_result" where
  "op_2swap s =
     (case i_stack s of x4 # x3 # x2 # x1 # st \<Rightarrow> set_stack (x2 # x1 # x4 # x3 # st) s | _ \<Rightarrow> stop s)"

definition op_ifdup :: "interp \<Rightarrow> step_result" where
  "op_ifdup s =
     (case i_stack s of [] \<Rightarrow> stop s
      | vch # st \<Rightarrow> if CastToBool vch then set_stack (vch # vch # st) s else go_on s)"

definition op_depth :: "openssl \<Rightarrow> interp \<Rightarrow> step_result" where
  "op_depth ssl s = set_stack (getvch ssl (setulong (of_nat (length (i_stack s)))) # i_stack s) s"

definition op_drop :: "interp \<Rightarrow> step_result" where
  "op_drop s = (case i_stack s of [] \<Rightarrow> stop s | vch # st \<Rightarrow> set_stack st s)"

definition op_dup :: "interp \<Rightarrow> step_result" where
  "op_dup s = (case i_stack s of [] \<Rightarrow> stop s | vch # st \<Rightarrow> set_stack (vch # vch # st) s)"

definition op_nip :: "interp \<Rightarrow> step_result" where
  "op_nip s = (case i_stack s of x2 # x1 # st \<Rightarrow> set_stack (x2 # st) s | _ \<Rightarrow> stop s)"

definition op_over :: "interp \<Rightarrow> step_result" where
  "op_over s = (case i_stack s of x2 # x1 # st \<Rightarrow> set_stack (x1 # x2 # x1 # st) s | _ \<Rightarrow> stop s)"

definition op_pick_roll :: "openssl \<Rightarrow> opcodetype \<Rightarrow> interp \<Rightarrow> step_result" where
  "op_pick_roll ssl opcode s =
     (if length (i_stack s) < 2 then stop s
      else with_num ssl (hd (i_stack s)) s (\<lambda>bn.
        let n = getint bn; st = tl (i_stack s); s = s\<lparr>i_stack := st\<rparr>
        in if n < 0 \<or> n \<ge> int_of_size (length st) then stop s
           else let vch = st ! nat n;
                    st = (if opcode = OP_ROLL then take (nat n) st @ drop (Suc (nat n)) st else st)
                in set_stack (vch # st) s))"

definition op_rot :: "interp \<Rightarrow> step_result" where
  "op_rot s = (case i_stack s of x3 # x2 # x1 # st \<Rightarrow> set_stack (x1 # x3 # x2 # st) s | _ \<Rightarrow> stop s)"

definition op_swap :: "interp \<Rightarrow> step_result" where
  "op_swap s = (case i_stack s of x2 # x1 # st \<Rightarrow> set_stack (x1 # x2 # st) s | _ \<Rightarrow> stop s)"

definition op_tuck :: "interp \<Rightarrow> step_result" where
  "op_tuck s = (case i_stack s of x2 # x1 # st \<Rightarrow> set_stack (x2 # x1 # x2 # st) s | _ \<Rightarrow> stop s)"

definition op_size :: "openssl \<Rightarrow> interp \<Rightarrow> step_result" where
  "op_size ssl s =
     (case i_stack s of [] \<Rightarrow> stop s
      | vch # st \<Rightarrow> set_stack (getvch ssl (setulong (of_nat (length vch))) # vch # st) s)"

definition op_equal :: "opcodetype \<Rightarrow> interp \<Rightarrow> step_result" where
  "op_equal opcode s =
     (case i_stack s of
        vch2 # vch1 # st \<Rightarrow>
          let fEqual = (vch1 = vch2) in push_check (opcode = OP_EQUALVERIFY) fEqual st s
      | _ \<Rightarrow> stop s)"

definition unary_num :: "opcodetype \<Rightarrow> bignum \<Rightarrow> bignum" where
  "unary_num opcode bn =
     (if opcode = OP_1ADD then bn + 1
      else if opcode = OP_1SUB then bn - 1
      else if opcode = OP_NEGATE then - bn
      else if opcode = OP_ABS then (if bn < 0 then - bn else bn)
      else if opcode = OP_NOT then bn_bool (bn = 0)
      else bn_bool (bn \<noteq> 0))"

definition op_unary :: "openssl \<Rightarrow> opcodetype \<Rightarrow> interp \<Rightarrow> step_result" where
  "op_unary ssl opcode s =
     (case i_stack s of [] \<Rightarrow> stop s
      | vch # st \<Rightarrow> with_num ssl vch s (\<lambda>bn. set_stack (getvch ssl (unary_num opcode bn) # st) s))"

definition binary_num :: "opcodetype \<Rightarrow> bignum \<Rightarrow> bignum \<Rightarrow> bignum" where
  "binary_num opcode bn1 bn2 =
     (if opcode = OP_ADD then bn1 + bn2
      else if opcode = OP_SUB then bn1 - bn2
      else if opcode = OP_BOOLAND then bn_bool (bn1 \<noteq> 0 \<and> bn2 \<noteq> 0)
      else if opcode = OP_BOOLOR then bn_bool (bn1 \<noteq> 0 \<or> bn2 \<noteq> 0)
      else if opcode = OP_NUMEQUAL then bn_bool (bn1 = bn2)
      else if opcode = OP_NUMEQUALVERIFY then bn_bool (bn1 = bn2)
      else if opcode = OP_NUMNOTEQUAL then bn_bool (bn1 \<noteq> bn2)
      else if opcode = OP_LESSTHAN then bn_bool (bn1 < bn2)
      else if opcode = OP_GREATERTHAN then bn_bool (bn1 > bn2)
      else if opcode = OP_LESSTHANOREQUAL then bn_bool (bn1 \<le> bn2)
      else if opcode = OP_GREATERTHANOREQUAL then bn_bool (bn1 \<ge> bn2)
      else if opcode = OP_MIN then (if bn1 < bn2 then bn1 else bn2)
      else (if bn1 > bn2 then bn1 else bn2))"

definition op_binary :: "openssl \<Rightarrow> opcodetype \<Rightarrow> interp \<Rightarrow> step_result" where
  "op_binary ssl opcode s =
     (case i_stack s of
        vch2 # vch1 # st \<Rightarrow>
          with_num ssl vch1 s (\<lambda>bn1. with_num ssl vch2 s (\<lambda>bn2.
            let vch = getvch ssl (binary_num opcode bn1 bn2)
            in if opcode = OP_NUMEQUALVERIFY then
                 (if CastToBool vch then set_stack st s else stop (s\<lparr>i_stack := vch # st\<rparr>))
               else set_stack (vch # st) s))
      | _ \<Rightarrow> stop s)"

definition op_within :: "openssl \<Rightarrow> interp \<Rightarrow> step_result" where
  "op_within ssl s =
     (case i_stack s of
        vch3 # vch2 # vch1 # st \<Rightarrow>
          with_num ssl vch1 s (\<lambda>bn1. with_num ssl vch2 s (\<lambda>bn2. with_num ssl vch3 s (\<lambda>bn3.
            set_stack (vch_bool (bn2 \<le> bn1 \<and> bn1 < bn3) # st) s)))
      | _ \<Rightarrow> stop s)"

definition op_hash :: "openssl \<Rightarrow> opcodetype \<Rightarrow> interp \<Rightarrow> step_result" where
  "op_hash ssl opcode s =
     (case i_stack s of [] \<Rightarrow> stop s
      | vch # st \<Rightarrow>
          let vchHash =
            (if opcode = OP_RIPEMD160 then RIPEMD160 ssl vch
             else if opcode = OP_SHA1 then SHA1 ssl vch
             else if opcode = OP_SHA256 then SHA256 ssl vch
             else if opcode = OP_HASH160 then bu_bytes (Hash160 ssl vch)
             else bu_bytes (Hash ssl vch))
          in set_stack (vchHash # st) s)"

definition check_canonical :: "checker \<Rightarrow> u32 \<Rightarrow> checker" where
  "check_canonical chk flags vchSig vchPubKey scriptCode c =
     (if IsCanonicalSignature vchSig flags \<and> IsCanonicalPubKey vchPubKey flags
      then chk vchSig vchPubKey scriptCode c else (False, c))"

definition op_checksig :: "checker \<Rightarrow> u32 \<Rightarrow> opcodetype \<Rightarrow> interp \<Rightarrow> step_result" where
  "op_checksig chk flags opcode s =
     (case i_stack s of
        vchPubKey # vchSig # st \<Rightarrow>
          let scriptCode = fst (FindAndDelete (i_codehash s) (push_data [] vchSig));
              (fSuccess, c) = check_canonical chk flags vchSig vchPubKey scriptCode (i_cache s)
          in push_check (opcode = OP_CHECKSIGVERIFY) fSuccess st (s\<lparr>i_cache := c\<rparr>)
      | _ \<Rightarrow> stop s)"

fun multisig_loop :: "checker \<Rightarrow> script \<Rightarrow> valtype list \<Rightarrow> valtype list \<Rightarrow> CSignatureCache \<Rightarrow> bool \<times> CSignatureCache" where
  "multisig_loop chk scriptCode [] keys c = (True, c)"
| "multisig_loop chk scriptCode (vchSig # sigs) [] c = (False, c)"
| "multisig_loop chk scriptCode (vchSig # sigs) (vchPubKey # keys) c =
     (let (fOk, c) = chk vchSig vchPubKey scriptCode c;
          sigs' = (if fOk then sigs else vchSig # sigs)
      in if length sigs' > length keys then (False, c)
         else multisig_loop chk scriptCode sigs' keys c)"

text \<open>The element below the signatures is popped without being used.\<close>

definition op_checkmultisig :: "openssl \<Rightarrow> checker \<Rightarrow> u32 \<Rightarrow> opcodetype \<Rightarrow> interp \<Rightarrow> step_result" where
  "op_checkmultisig ssl chk flags opcode s =
     (let st = i_stack s
      in if length st < 1 then stop s
      else with_num ssl (st ! 0) s (\<lambda>bn. let nKeysCount = getint bn
      in if nKeysCount < 0 \<or> nKeysCount > 20 then stop s
      else let s = s\<lparr>i_nOpCount := i_nOpCount s + nKeysCount\<rparr>; k = nat nKeysCount
      in if i_nOpCount s > 201 then stop s
      else if length st < 2 + k then stop s
      else with_num ssl (st ! (1 + k)) s (\<lambda>bn. let nSigsCount = getint bn; m = nat nSigsCount
      in if nSigsCount < 0 \<or> nSigsCount > nKeysCount then stop s
      else if length st < 3 + k + m then stop s
      else let keys = take k (drop 1 st); sigs = take m (drop (2 + k) st);
               scriptCode = foldl (\<lambda>code vchSig. fst (FindAndDelete code (push_data [] vchSig))) (i_codehash s) sigs;
               (fSuccess, c) = multisig_loop (check_canonical chk flags) scriptCode sigs keys (i_cache s)
      in push_check (opcode = OP_CHECKMULTISIGVERIFY) fSuccess (drop (3 + k + m) st) (s\<lparr>i_cache := c\<rparr>))))"

section \<open>One instruction\<close>

definition disabled_op :: "opcodetype \<Rightarrow> bool" where
  "disabled_op opcode \<longleftrightarrow>
     opcode \<in> {OP_CAT, OP_SUBSTR, OP_LEFT, OP_RIGHT, OP_INVERT, OP_AND, OP_OR, OP_XOR,
       OP_2MUL, OP_2DIV, OP_MUL, OP_DIV, OP_MOD, OP_LSHIFT, OP_RSHIFT}"

text \<open>The \<open>switch\<close>; \<open>pc\<close> is the script after the instruction.\<close>

definition exec_op :: "openssl \<Rightarrow> checker \<Rightarrow> u32 \<Rightarrow> bool \<Rightarrow> opcodetype \<Rightarrow> script \<Rightarrow> interp \<Rightarrow> step_result" where
  "exec_op ssl chk flags fExec opcode pc s =
     (if opcode = OP_1NEGATE \<or> OP_1 \<le> opcode \<and> opcode \<le> OP_16 then op_number ssl opcode s
      else if opcode = OP_NOP \<or> OP_NOP1 \<le> opcode \<and> opcode \<le> OP_NOP10 then go_on s
      else if opcode = OP_IF \<or> opcode = OP_NOTIF then op_if opcode fExec s
      else if opcode = OP_ELSE then op_else s
      else if opcode = OP_ENDIF then op_endif s
      else if opcode = OP_VERIFY then op_verify s
      else if opcode = OP_RETURN then stop s
      else if opcode = OP_TOALTSTACK then op_toaltstack s
      else if opcode = OP_FROMALTSTACK then op_fromaltstack s
      else if opcode = OP_2DROP then op_2drop s
      else if opcode = OP_2DUP then op_2dup s
      else if opcode = OP_3DUP then op_3dup s
      else if opcode = OP_2OVER then op_2over s
      else if opcode = OP_2ROT then op_2rot s
      else if opcode = OP_2SWAP then op_2swap s
      else if opcode = OP_IFDUP then op_ifdup s
      else if opcode = OP_DEPTH then op_depth ssl s
      else if opcode = OP_DROP then op_drop s
      else if opcode = OP_DUP then op_dup s
      else if opcode = OP_NIP then op_nip s
      else if opcode = OP_OVER then op_over s
      else if opcode = OP_PICK \<or> opcode = OP_ROLL then op_pick_roll ssl opcode s
      else if opcode = OP_ROT then op_rot s
      else if opcode = OP_SWAP then op_swap s
      else if opcode = OP_TUCK then op_tuck s
      else if opcode = OP_SIZE then op_size ssl s
      else if opcode = OP_EQUAL \<or> opcode = OP_EQUALVERIFY then op_equal opcode s
      else if opcode \<in> {OP_1ADD, OP_1SUB, OP_NEGATE, OP_ABS, OP_NOT, OP_0NOTEQUAL} then op_unary ssl opcode s
      else if opcode \<in> {OP_ADD, OP_SUB, OP_BOOLAND, OP_BOOLOR, OP_NUMEQUAL, OP_NUMEQUALVERIFY, OP_NUMNOTEQUAL,
                OP_LESSTHAN, OP_GREATERTHAN, OP_LESSTHANOREQUAL, OP_GREATERTHANOREQUAL, OP_MIN, OP_MAX}
           then op_binary ssl opcode s
      else if opcode = OP_WITHIN then op_within ssl s
      else if opcode \<in> {OP_RIPEMD160, OP_SHA1, OP_SHA256, OP_HASH160, OP_HASH256} then op_hash ssl opcode s
      else if opcode = OP_CODESEPARATOR then go_on (s\<lparr>i_codehash := pc\<rparr>)
      else if opcode = OP_CHECKSIG \<or> opcode = OP_CHECKSIGVERIFY then op_checksig chk flags opcode s
      else if opcode = OP_CHECKMULTISIG \<or> opcode = OP_CHECKMULTISIGVERIFY
           then op_checkmultisig ssl chk flags opcode s
      else stop s)"

definition dispatch ::
  "openssl \<Rightarrow> checker \<Rightarrow> u32 \<Rightarrow> opcodetype \<Rightarrow> valtype \<Rightarrow> script \<Rightarrow> interp \<Rightarrow> step_result" where
  "dispatch ssl chk flags opcode vchPushValue pc s =
     (let fExec = list_all (\<lambda>f. f) (i_vfExec s)
      in if fExec \<and> opcode \<le> OP_PUSHDATA4 then set_stack (vchPushValue # i_stack s) s
         else if fExec \<or> OP_IF \<le> opcode \<and> opcode \<le> OP_ENDIF then exec_op ssl chk flags fExec opcode pc s
         else go_on s)"

text \<open>The body of the loop: limits, disabled opcodes, pushes, the \<open>switch\<close> and the size of the stacks.\<close>

definition count_op :: "opcodetype \<Rightarrow> interp \<Rightarrow> interp" where
  "count_op opcode s = (if opcode > OP_16 then s\<lparr>i_nOpCount := i_nOpCount s + 1\<rparr> else s)"

definition eval_instr ::
  "openssl \<Rightarrow> checker \<Rightarrow> u32 \<Rightarrow> opcodetype \<Rightarrow> valtype \<Rightarrow> script \<Rightarrow> interp \<Rightarrow> step_result" where
  "eval_instr ssl chk flags opcode vchPushValue pc s =
     (if length vchPushValue > MAX_SCRIPT_ELEMENT_SIZE then stop s
      else let s = count_op opcode s
      in if opcode > OP_16 \<and> i_nOpCount s > 201 then stop s
      else if disabled_op opcode then stop s
      else let (on, s) = dispatch ssl chk flags opcode vchPushValue pc s
      in if \<not> on then stop s
         else if length (i_stack s) + length (i_altstack s) > 1000 then stop s
         else go_on s)"

function eval_loop :: "openssl \<Rightarrow> checker \<Rightarrow> u32 \<Rightarrow> script \<Rightarrow> interp \<Rightarrow> step_result" where
  "eval_loop ssl chk flags pc s =
     (if pc = [] then (if i_vfExec s \<noteq> [] then stop s else go_on s)
      else case GetOp2 pc of
             (False, opcode, vch, pc') \<Rightarrow> stop s
           | (True, opcode, vch, pc') \<Rightarrow>
               (case eval_instr ssl chk flags opcode vch pc' s of
                  (False, s) \<Rightarrow> stop s
                | (True, s) \<Rightarrow> eval_loop ssl chk flags pc' s))"
  by pat_completeness auto
termination by (relation "measure (\<lambda>(ssl, chk, flags, pc, s). length pc)") (auto dest: GetOp2_shorter')

declare eval_loop.simps [simp del]

definition start :: "script \<Rightarrow> valtype list \<Rightarrow> CSignatureCache \<Rightarrow> interp" where
  "start script stack c =
     \<lparr>i_stack = stack, i_altstack = [], i_vfExec = [], i_nOpCount = 0, i_codehash = script, i_cache = c\<rparr>"

definition eval_script ::
  "openssl \<Rightarrow> checker \<Rightarrow> u32 \<Rightarrow> valtype list \<Rightarrow> script \<Rightarrow> CSignatureCache \<Rightarrow> step_result" where
  "eval_script ssl chk flags stack script c =
     (if length script > 10000 then stop (start script stack c)
      else eval_loop ssl chk flags script (start script stack c))"

section \<open>Running and verifying scripts\<close>

definition EvalScript ::
  "sig_env \<Rightarrow> valtype list \<Rightarrow> script \<Rightarrow> CTransaction \<Rightarrow> u32 \<Rightarrow> u32 \<Rightarrow> u32 \<Rightarrow> CSignatureCache
     \<Rightarrow> bool \<times> valtype list \<times> CSignatureCache" where
  "EvalScript env stack script txTo nIn flags nHashType c =
     (let (r, s) = eval_script (se_ssl env)
            (\<lambda>vchSig vchPubKey scriptCode c. CheckSig env vchSig vchPubKey scriptCode txTo nIn nHashType flags c)
            flags stack script c
      in (r, i_stack s, i_cache s))"

definition VerifyScript ::
  "sig_env \<Rightarrow> script \<Rightarrow> script \<Rightarrow> CTransaction \<Rightarrow> u32 \<Rightarrow> u32 \<Rightarrow> u32 \<Rightarrow> CSignatureCache
     \<Rightarrow> bool result \<times> CSignatureCache" where
  "VerifyScript env scriptSig scriptPubKey txTo nIn flags nHashType c =
     (let (r, stack, c) = EvalScript env [] scriptSig txTo nIn flags nHashType c
      in if \<not> r then (Inr False, c)
      else let stackCopy = stack;
               (r, stack, c) = EvalScript env stack scriptPubKey txTo nIn flags nHashType c
      in if \<not> r then (Inr False, c)
      else if stack = [] then (Inr False, c)
      else if \<not> CastToBool (hd stack) then (Inr False, c)
      else if flags AND SCRIPT_VERIFY_P2SH \<noteq> 0 \<and> IsPayToScriptHash scriptPubKey then
        (if \<not> IsPushOnly scriptSig then (Inr False, c)
         else if stackCopy = [] then (Inl AssertFailed, c)
         else let (r, stack, c) = EvalScript env (tl stackCopy) (hd stackCopy) txTo nIn flags nHashType c
         in if \<not> r then (Inr False, c)
            else if stack = [] then (Inr False, c)
            else (Inr (CastToBool (hd stack)), c))
      else (Inr True, c))"

end
