(* ===== verification/Evaluation.thy ===== *)
theory Evaluation
  imports Interpreter
begin

text \<open>
  What the interpreter promises: its answer does not depend on the signature cache, a
  multi-signature succeeds exactly when the signatures fit keys in order, every state it reaches
  keeps the limits on stacks, elements and operations, and the standard scripts do what they are
  for. A locale states what the interpreter needs from a signature checker.
\<close>

section \<open>Steps that do not look at the cache\<close>

definition cacheless :: "(interp \<Rightarrow> step_result) \<Rightarrow> bool" where
  "cacheless f \<longleftrightarrow>
     (\<forall>s c. f (s\<lparr>i_cache := c\<rparr>) = (fst (f s), (snd (f s))\<lparr>i_cache := c\<rparr>) \<and> i_cache (snd (f s)) = i_cache s)"

lemma cachelessD:
  "cacheless f \<Longrightarrow> f (s\<lparr>i_cache := c\<rparr>) = (fst (f s), (snd (f s))\<lparr>i_cache := c\<rparr>)"
  "cacheless f \<Longrightarrow> i_cache (snd (f s)) = i_cache s"
  by (simp_all add: cacheless_def)

lemmas step_defs = go_on_def stop_def set_stack_def

lemma cacheless_basic: "cacheless stop" "cacheless go_on" "cacheless (set_stack st)"
  by (simp_all add: cacheless_def step_defs)

lemma cacheless_ops:
  "cacheless (op_number ssl opcode)" "cacheless (op_if opcode fExec)" "cacheless op_else" "cacheless op_endif"
  "cacheless op_verify" "cacheless op_toaltstack" "cacheless op_fromaltstack" "cacheless op_2drop" "cacheless op_2dup"
  "cacheless op_3dup" "cacheless op_2over" "cacheless op_2rot" "cacheless op_2swap" "cacheless op_ifdup"
  "cacheless (op_depth ssl)" "cacheless op_drop" "cacheless op_dup" "cacheless op_nip" "cacheless op_over"
  "cacheless op_rot" "cacheless op_swap" "cacheless op_tuck" "cacheless (op_size ssl)" "cacheless (op_equal opcode)"
  "cacheless (op_hash ssl opcode)"
  by (simp_all add: cacheless_def step_defs Let_def op_number_def op_if_def op_else_def op_endif_def op_verify_def
      op_toaltstack_def op_fromaltstack_def op_2drop_def op_2dup_def op_3dup_def op_2over_def op_2rot_def
      op_2swap_def op_ifdup_def op_depth_def op_drop_def op_dup_def op_nip_def op_over_def op_rot_def op_swap_def
      op_tuck_def op_size_def op_equal_def op_hash_def push_check_def split: list.split)

lemma cacheless_num_ops:
  "cacheless (op_pick_roll ssl opcode)" "cacheless (op_unary ssl opcode)" "cacheless (op_binary ssl opcode)"
  "cacheless (op_within ssl)"
  by (simp_all add: cacheless_def step_defs Let_def with_num_def op_pick_roll_def op_unary_def op_binary_def op_within_def
      split: list.split sum.split)

definition pure_checker :: "(data \<Rightarrow> data \<Rightarrow> script \<Rightarrow> bool) \<Rightarrow> checker" where
  "pure_checker valid s p code c = (valid s p code, c)"

text \<open>Two results that differ only in the cache, the first with a good one.\<close>

definition sim :: "(CSignatureCache \<Rightarrow> bool) \<Rightarrow> CSignatureCache \<Rightarrow> step_result \<Rightarrow> step_result \<Rightarrow> bool" where
  "sim ok c r r' \<longleftrightarrow> r' = (fst r, (snd r)\<lparr>i_cache := c\<rparr>) \<and> ok (i_cache (snd r))"

lemma sim_cacheless: "cacheless f \<Longrightarrow> ok (i_cache s) \<Longrightarrow> sim ok c (f s) (f (s\<lparr>i_cache := c\<rparr>))"
  by (simp add: sim_def cachelessD)

lemma sim_stop: "ok (i_cache s) \<Longrightarrow> sim ok c (stop s) (stop (s\<lparr>i_cache := c\<rparr>))"
  by (simp add: sim_def stop_def)

lemma sim_with_num:
  "ok (i_cache s) \<Longrightarrow> (\<And>bn. sim ok c (f bn) (g bn)) \<Longrightarrow> sim ok c (with_num ssl v s f) (with_num ssl v (s\<lparr>i_cache := c\<rparr>) g)"
  by (simp add: with_num_def sim_stop split: sum.split)

lemma nops_cache: "s\<lparr>i_cache := c, i_nOpCount := i_nOpCount (s\<lparr>i_cache := c\<rparr>) + n\<rparr> = s\<lparr>i_nOpCount := i_nOpCount s + n, i_cache := c\<rparr>"
  by simp

lemma sim_check:
  assumes "\<exists>b c'. M = (b, c') \<and> ok c' \<and> N = (b, c)"
  shows "sim ok c (case M of (f, c') \<Rightarrow> push_check v f st (s\<lparr>i_cache := c'\<rparr>))
    (case N of (f, c') \<Rightarrow> push_check v f st (s\<lparr>i_cache := c'\<rparr>))"
  using assms by (auto simp: sim_def push_check_def step_defs)

lemma sim_if: "(P \<Longrightarrow> sim ok c a a') \<Longrightarrow> (\<not> P \<Longrightarrow> sim ok c b b') \<Longrightarrow>
    sim ok c (if P then a else b) (if P then a' else b')"
  by simp

lemma sim_separator:
  "ok (i_cache s) \<Longrightarrow> sim ok c (go_on (s\<lparr>i_codehash := pc\<rparr>)) (go_on (s\<lparr>i_cache := c, i_codehash := pc\<rparr>))"
  by (simp add: sim_def go_on_def)

lemmas sim_ops = cacheless_basic [THEN sim_cacheless] cacheless_ops [THEN sim_cacheless]
  cacheless_num_ops [THEN sim_cacheless]

section \<open>Signature checkers\<close>

locale sig_checker =
  fixes chk :: checker
    and valid :: "data \<Rightarrow> data \<Rightarrow> script \<Rightarrow> bool"
    and ok :: "CSignatureCache \<Rightarrow> bool"
  assumes chk_valid: "ok c \<Longrightarrow> fst (chk s p code c) = valid s p code"
    and chk_ok: "ok c \<Longrightarrow> ok (snd (chk s p code c))"
begin

lemma chk_cases: "ok c \<Longrightarrow> \<exists>c'. chk s p code c = (valid s p code, c') \<and> ok c'"
  by (intro exI [of _ "snd (chk s p code c)"]) (simp add: prod_eq_iff chk_valid chk_ok)

lemma canonical: "sig_checker (check_canonical chk flags)
    (\<lambda>s p code. IsCanonicalSignature s flags \<and> IsCanonicalPubKey p flags \<and> valid s p code) ok"
  by unfold_locales (auto simp: check_canonical_def chk_valid chk_ok)

lemma multisig_ok: "ok c \<Longrightarrow> ok (snd (multisig_loop chk code sigs keys c))"
proof (induction keys arbitrary: sigs c)
  case Nil
  then show ?case by (cases sigs) simp_all
next
  case (Cons p keys)
  show ?case
  proof (cases sigs)
    case (Cons s ss)
    obtain c' where c': "chk s p code c = (valid s p code, c')" "ok c'" using chk_cases [OF Cons.prems] by blast
    then show ?thesis using Cons Cons.IH by simp
  qed (use Cons.prems in simp)
qed

lemma multisig_greedy:
  "ok c \<Longrightarrow> fst (multisig_loop chk code sigs keys c) \<longleftrightarrow>
     (\<exists>ks. subseq ks keys \<and> list_all2 (\<lambda>s p. valid s p code) sigs ks)"
proof (induction keys arbitrary: sigs c)
  case Nil
  then show ?case by (cases sigs) (auto dest: list_emb_Nil2)
next
  case (Cons p keys)
  let ?match = "\<lambda>sigs keys. \<exists>ks. subseq ks keys \<and> list_all2 (\<lambda>s p. valid s p code) sigs ks"
  have long: "\<not> ?match sigs keys" if "length keys < length sigs" for sigs keys
    using that by (auto dest!: list_all2_lengthD list_emb_length)
  show ?case
  proof (cases sigs)
    case Nil
    then show ?thesis by (auto intro: exI [of _ "[]"])
  next
    case (Cons s ss)
    obtain c' where c': "chk s p code c = (valid s p code, c')" "ok c'" using chk_cases [OF Cons.prems] by blast
    have greedy: "?match (s # ss) (p # keys) \<longleftrightarrow> ?match (if valid s p code then ss else s # ss) keys"
    proof (cases "valid s p code")
      case True
      have "?match ss keys" if "subseq ks (p # keys)" "list_all2 (\<lambda>s p. valid s p code) (s # ss) ks" for ks
      proof -
        from that(2) obtain k ks' where "ks = k # ks'" "list_all2 (\<lambda>s p. valid s p code) ss ks'" by (auto simp: list_all2_Cons1)
        with that(1) show ?thesis by (metis subseq_Cons' subseq_Cons2_iff)
      qed
      moreover have "?match (s # ss) (p # keys)" if "?match ss keys"
        using that True by (metis list_all2_Cons subseq_Cons2)
      ultimately show ?thesis using True by auto
    next
      case False
      have "?match (s # ss) keys" if "subseq ks (p # keys)" "list_all2 (\<lambda>s p. valid s p code) (s # ss) ks" for ks
        using that False by (auto simp: list_all2_Cons1 subseq_Cons2_iff split: if_splits)
      moreover have "?match (s # ss) (p # keys)" if "?match (s # ss) keys"
        using that by (metis list_emb_Cons)
      ultimately show ?thesis using False by auto
    qed
    let ?sigs = "if valid s p code then ss else s # ss"
    show ?thesis
    proof (cases "length ?sigs > length keys")
      case True
      then show ?thesis using long [OF True] greedy c'(1) unfolding Cons by simp
    next
      case False
      then show ?thesis using Cons.IH [OF c'(2), of ?sigs] greedy c'(1) unfolding Cons by simp
    qed
  qed
qed

end

lemma pure_sig_checker: "sig_checker (pure_checker valid) valid (\<lambda>_. True)"
  by unfold_locales (simp_all add: pure_checker_def)

context sig_checker begin

lemma canonical_pure: "check_canonical (pure_checker valid) flags s p code c =
    (IsCanonicalSignature s flags \<and> IsCanonicalPubKey p flags \<and> valid s p code, c)"
  by (auto simp: check_canonical_def pure_checker_def)

lemma sim_checksig:
  assumes "ok (i_cache s)"
  shows "sim ok c (op_checksig chk flags opcode s) (op_checksig (pure_checker valid) flags opcode (s\<lparr>i_cache := c\<rparr>))"
proof -
  have chk: "\<exists>b c'. check_canonical chk flags sig p code (i_cache s) = (b, c') \<and> ok c' \<and>
      check_canonical (pure_checker valid) flags sig p code c = (b, c)" for sig p code
    using sig_checker.chk_cases [OF canonical assms, of flags sig p code] unfolding canonical_pure by blast
  show ?thesis
    unfolding op_checksig_def Let_def
    by (auto split: list.split simp: sim_stop assms intro!: sim_check chk)
qed

lemma multisig_pure:
  "multisig_loop (check_canonical (pure_checker valid) flags) code sigs keys c =
     (fst (multisig_loop (check_canonical (pure_checker valid) flags) code sigs keys c), c)"
proof (induction keys arbitrary: sigs)
  case Nil
  then show ?case by (cases sigs) simp_all
next
  case (Cons p keys)
  have "check_canonical (pure_checker valid) flags s p code c =
      (fst (check_canonical (pure_checker valid) flags s p code c), c)" for s
    by (simp add: check_canonical_def pure_checker_def)
  with Cons show ?case by (cases sigs) (simp_all add: Let_def split_beta prod_eq_iff)
qed

lemma multisig_sim:
  assumes "ok c'"
  shows "fst (multisig_loop (check_canonical (pure_checker valid) flags) code sigs keys c) =
     fst (multisig_loop (check_canonical chk flags) code sigs keys c')"
  unfolding sig_checker.multisig_greedy [OF canonical assms]
    sig_checker.multisig_greedy [OF sig_checker.canonical [OF pure_sig_checker] TrueI] ..

lemma sim_checkmultisig:
  assumes "ok (i_cache s)"
  shows "sim ok c (op_checkmultisig ssl chk flags opcode s)
    (op_checkmultisig ssl (pure_checker valid) flags opcode (s\<lparr>i_cache := c\<rparr>))"
proof -
  let ?M = "\<lambda>chk code sigs keys c. multisig_loop (check_canonical chk flags) code sigs keys c"
  have m: "\<exists>b c''. ?M chk code sigs keys (i_cache s) = (b, c'') \<and> ok c'' \<and> ?M (pure_checker valid) code sigs keys c = (b, c)"
    for code sigs keys
    using multisig_sim [OF assms, of flags code sigs keys c] multisig_pure [of flags code sigs keys c]
      sig_checker.multisig_ok [OF canonical assms, of flags code sigs keys]
    by (cases "?M chk code sigs keys (i_cache s)") auto
  show ?thesis
    unfolding op_checkmultisig_def Let_def nops_cache
    using sim_stop [of ok "s\<lparr>i_nOpCount := n\<rparr>" c for n] sim_stop [of ok s c, OF assms]
    by (auto simp: assms intro!: sim_with_num sim_check m)
qed

lemma sim_exec_op:
  assumes "ok (i_cache s)"
  shows "sim ok c (exec_op ssl chk flags fExec opcode pc s)
    (exec_op ssl (pure_checker valid) flags fExec opcode pc (s\<lparr>i_cache := c\<rparr>))"
  unfolding exec_op_def
  by (intro sim_if sim_ops sim_separator sim_checksig sim_checkmultisig assms)

lemma sim_dispatch:
  assumes "ok (i_cache s)"
  shows "sim ok c (dispatch ssl chk flags opcode vch pc s) (dispatch ssl (pure_checker valid) flags opcode vch pc (s\<lparr>i_cache := c\<rparr>))"
proof -
  have "sim ok c (set_stack (vch # i_stack s) s) (set_stack (vch # i_stack s) (s\<lparr>i_cache := c\<rparr>))"
    using assms by (rule sim_ops)
  moreover have "sim ok c (go_on s) (go_on (s\<lparr>i_cache := c\<rparr>))" using assms by (rule sim_ops)
  ultimately show ?thesis using sim_exec_op [OF assms] by (simp add: dispatch_def Let_def)
qed

lemma sim_eval_instr:
  assumes "ok (i_cache s)"
  shows "sim ok c (eval_instr ssl chk flags opcode vch pc s)
    (eval_instr ssl (pure_checker valid) flags opcode vch pc (s\<lparr>i_cache := c\<rparr>))"
proof -
  have t: "count_op opcode (s\<lparr>i_cache := c\<rparr>) = (count_op opcode s)\<lparr>i_cache := c\<rparr>" "ok (i_cache (count_op opcode s))"
    using assms by (simp_all add: count_op_def)
  obtain on u where u: "dispatch ssl chk flags opcode vch pc (count_op opcode s) = (on, u)" by fastforce
  with sim_dispatch [OF t(2), of c ssl flags opcode vch pc]
  have u': "dispatch ssl (pure_checker valid) flags opcode vch pc ((count_op opcode s)\<lparr>i_cache := c\<rparr>) = (on, u\<lparr>i_cache := c\<rparr>)"
    "ok (i_cache u)"
    by (simp_all add: sim_def)
  show ?thesis using assms t(2) u'(2)
    unfolding eval_instr_def Let_def t u u' prod.case by (simp add: sim_stop) (simp add: sim_def step_defs)
qed

lemma sim_eval_loop:
  "ok (i_cache s) \<Longrightarrow> sim ok c (eval_loop ssl chk flags pc s) (eval_loop ssl (pure_checker valid) flags pc (s\<lparr>i_cache := c\<rparr>))"
proof (induction pc arbitrary: s rule: script_ops_induct)
  case Nil
  then show ?case unfolding eval_loop.simps [of _ _ _ "[]"] by (simp add: sim_def step_defs)
next
  case (Fail pc opcode vch pc')
  then show ?case by (simp add: eval_loop.simps [of _ _ _ pc] sim_stop)
next
  case (Step pc opcode vch pc')
  obtain on t where t: "eval_instr ssl chk flags opcode vch pc' s = (on, t)" by fastforce
  with sim_eval_instr [OF Step(4), of c ssl flags opcode vch pc']
  have t': "eval_instr ssl (pure_checker valid) flags opcode vch pc' (s\<lparr>i_cache := c\<rparr>) = (on, t\<lparr>i_cache := c\<rparr>)" "ok (i_cache t)"
    by (simp_all add: sim_def)
  show ?case using Step(1,2) Step(3) [OF t'(2)] t'
    by (cases on) (simp_all add: eval_loop.simps [of _ _ _ pc] t sim_stop)
qed

lemma sim_eval_script:
  "ok c' \<Longrightarrow> sim ok c (eval_script ssl chk flags stack script c') (eval_script ssl (pure_checker valid) flags stack script c)"
  using sim_eval_loop [of "start script stack c'" c] by (simp add: eval_script_def start_def sim_def stop_def)

end

section \<open>The answer does not depend on the cache\<close>

interpretation checksig: sig_checker
  "\<lambda>s p code c. CheckSig env s p code tx nIn t flags c"
  "\<lambda>s p code. checksig_spec (se_ssl env) s p code tx nIn t"
  "\<lambda>c. digests_ok (se_ssl env) \<and> cache_ok (se_ssl env) c"
  for env tx nIn t flags
  by unfold_locales (auto simp: CheckSig_spec)

text \<open>The reference: evaluation and verification in which every signature is verified.\<close>

definition empty_cache :: CSignatureCache where
  "empty_cache = \<lparr>sc_setValid = [], sc_draws = 0\<rparr>"

definition eval_spec :: "openssl \<Rightarrow> valtype list \<Rightarrow> script \<Rightarrow> CTransaction \<Rightarrow> u32 \<Rightarrow> u32 \<Rightarrow> u32 \<Rightarrow> bool \<times> valtype list" where
  "eval_spec ssl stack script tx nIn flags t =
     (let (r, s) = eval_script ssl (pure_checker (\<lambda>sig pk code. checksig_spec ssl sig pk code tx nIn t))
            flags stack script empty_cache
      in (r, i_stack s))"

definition verify_spec :: "openssl \<Rightarrow> script \<Rightarrow> script \<Rightarrow> CTransaction \<Rightarrow> u32 \<Rightarrow> u32 \<Rightarrow> u32 \<Rightarrow> bool" where
  "verify_spec ssl scriptSig scriptPubKey tx nIn flags t \<longleftrightarrow>
     (let (r1, st1) = eval_spec ssl [] scriptSig tx nIn flags t;
          (r2, st2) = eval_spec ssl st1 scriptPubKey tx nIn flags t;
          (r3, st3) = eval_spec ssl (tl st1) (hd st1) tx nIn flags t
      in r1 \<and> r2 \<and> st2 \<noteq> [] \<and> CastToBool (hd st2) \<and>
         (flags AND SCRIPT_VERIFY_P2SH \<noteq> 0 \<and> IsPayToScriptHash scriptPubKey \<longrightarrow>
            IsPushOnly scriptSig \<and> r3 \<and> st3 \<noteq> [] \<and> CastToBool (hd st3)))"

lemma EvalScript_spec:
  assumes "digests_ok (se_ssl env)" "cache_ok (se_ssl env) c"
  shows "\<exists>c'. EvalScript env stack script tx nIn flags t c =
      (fst (eval_spec (se_ssl env) stack script tx nIn flags t), snd (eval_spec (se_ssl env) stack script tx nIn flags t), c') \<and>
    cache_ok (se_ssl env) c'"
  using checksig.sim_eval_script [of env c empty_cache "se_ssl env" tx nIn t flags flags stack script] assms
  by (simp add: EvalScript_def eval_spec_def sim_def split_beta)

lemma eval_loop_step:
  assumes "GetOp2 pc = (True, opcode, vch, pc')" "eval_instr ssl chk flags opcode vch pc' s = (True, s')"
  shows "eval_loop ssl chk flags pc s = eval_loop ssl chk flags pc' s'"
proof -
  have "pc \<noteq> []" using assms(1) by auto
  with assms show ?thesis by (simp add: eval_loop.simps [of ssl chk flags pc])
qed

lemma eval_loop_stop:
  assumes "GetOp2 pc = (True, opcode, vch, pc')" "eval_instr ssl chk flags opcode vch pc' s = (False, s')"
  shows "eval_loop ssl chk flags pc s = (False, s')"
proof -
  have "pc \<noteq> []" using assms(1) by auto
  with assms show ?thesis by (simp add: eval_loop.simps [of ssl chk flags pc] stop_def)
qed

lemma IsPayToScriptHash_bytes: "IsPayToScriptHash s \<Longrightarrow> \<exists>r. s = OP_HASH160 # r"
  by (cases s) (auto simp: IsPayToScriptHash_def)

text \<open>A pay-to-script-hash script cannot run on an empty stack.\<close>

lemma p2sh_needs_element:
  assumes "IsPayToScriptHash script"
  shows "\<not> fst (eval_script ssl chk flags [] script c)"
proof -
  obtain r where s: "script = OP_HASH160 # r" using IsPayToScriptHash_bytes [OF assms] by blast
  have "op_hash ssl OP_HASH160 u = (False, u)" if "i_stack u = []" for u
    using that by (simp add: op_hash_def stop_def)
  then have "eval_instr ssl chk flags OP_HASH160 [] r (start script [] c) = (False, count_op OP_HASH160 (start script [] c))"
    by (simp add: eval_instr_def dispatch_def Let_def disabled_op_def exec_op_def start_def count_op_def stop_def MAX_SCRIPT_ELEMENT_SIZE_def)
  from eval_loop_stop [OF _ this, of script] show ?thesis
    by (simp add: eval_script_def s stop_def)
qed

lemma VerifyScript_spec:
  assumes "digests_ok (se_ssl env)" "cache_ok (se_ssl env) c"
  shows "\<exists>c'. VerifyScript env scriptSig scriptPubKey tx nIn flags t c =
      (Inr (verify_spec (se_ssl env) scriptSig scriptPubKey tx nIn flags t), c') \<and> cache_ok (se_ssl env) c'"
proof -
  let ?E = "\<lambda>st s. eval_spec (se_ssl env) st s tx nIn flags t"
  obtain c1 where e1: "EvalScript env [] scriptSig tx nIn flags t c = (fst (?E [] scriptSig), snd (?E [] scriptSig), c1)"
    "cache_ok (se_ssl env) c1" using EvalScript_spec [OF assms] by blast
  define st1 where "st1 = snd (?E [] scriptSig)"
  obtain c2 where e2: "EvalScript env st1 scriptPubKey tx nIn flags t c1 = (fst (?E st1 scriptPubKey), snd (?E st1 scriptPubKey), c2)"
    "cache_ok (se_ssl env) c2" using EvalScript_spec [OF assms(1) e1(2)] by blast
  obtain c3 where e3: "EvalScript env (tl st1) (hd st1) tx nIn flags t c2 = (fst (?E (tl st1) (hd st1)), snd (?E (tl st1) (hd st1)), c3)"
    "cache_ok (se_ssl env) c3" using EvalScript_spec [OF assms(1) e2(2)] by blast
  have ne: "st1 \<noteq> []" if "IsPayToScriptHash scriptPubKey" "fst (?E st1 scriptPubKey)"
    using p2sh_needs_element [OF that(1)] that(2) by (auto simp: eval_spec_def split_beta)
  show ?thesis
    using e1 e2 e3 ne unfolding VerifyScript_def verify_spec_def
    by (simp add: st1_def [symmetric] split_beta)
qed

text \<open>C9: VerifyScript answers the same with every cache that holds only verified signatures, namely what
  evaluation with every signature verified answers, it leaves such a cache, and its assertion on the
  copied stack never fails.\<close>

theorem verify_script_cache_free:
  assumes "digests_ok (se_ssl env)" "cache_ok (se_ssl env) c"
  shows "\<exists>c'. VerifyScript env scriptSig scriptPubKey tx nIn flags t c =
      (Inr (verify_spec (se_ssl env) scriptSig scriptPubKey tx nIn flags t), c') \<and> cache_ok (se_ssl env) c'"
  using assms by (rule VerifyScript_spec)

theorem verify_script_cache_free_witness:
  "\<exists>c'. VerifyScript sample_env [OP_1] [OP_1] sample_tx 0 0 0 empty_cache =
      (Inr (verify_spec sample_ssl [OP_1] [OP_1] sample_tx 0 0 0), c') \<and> cache_ok sample_ssl c'"
  using verify_script_cache_free [of sample_env empty_cache "[OP_1]" "[OP_1]" sample_tx 0 0 0] sample_digests_ok
  by (simp add: sample_env_def cache_ok_def empty_cache_def)

section \<open>Limits\<close>

lemma getvch_small:
  assumes "bignum_ok ssl" "\<bar>n\<bar> < 256 ^ 8"
  shows "length (getvch ssl n) \<le> 520"
proof -
  have "(256 :: int) ^ 8 < 256 ^ 1000" by (rule power_strict_increasing) auto
  then have n: "\<bar>n\<bar> < 256 ^ 1000" using assms(2) by (rule order_less_trans [rotated])
  have "length (rev (getvch ssl n)) \<le> 8 + 1"
    using getvch_value [OF assms(1) n] assms(2) by (intro mpi_minimal_length) simp_all
  then show ?thesis by simp
qed

lemma CastToBigNum_small:
  assumes "bignum_ok ssl" "CastToBigNum ssl vch = Inr n"
  shows "\<bar>n\<bar> < 256 ^ 4"
proof -
  have l: "length vch \<le> 4" using assms(2) by (auto simp: CastToBigNum_def nMaxNumSize_def split: if_splits)
  have "(256 :: int) ^ 4 < 256 ^ 1000" by (rule power_strict_increasing) auto
  moreover have "(256 :: int) ^ length vch \<le> 256 ^ 4" using l by (intro power_increasing) auto
  moreover have v: "setvch ssl vch = mpi_value (rev vch)" using assms(1) l by (intro setvch_value) simp_all
  ultimately have b: "\<bar>setvch ssl vch\<bar> < 256 ^ 4" "\<bar>setvch ssl vch\<bar> < 256 ^ 1000"
    using mpi_value_le [of "rev vch"] by auto
  have "n = setvch ssl vch"
    using assms(2) setvch_getvch [OF assms(1) b(2)] by (auto simp: CastToBigNum_def split: if_splits)
  with b show ?thesis by simp
qed

definition small :: "interp \<Rightarrow> bool" where
  "small s \<longleftrightarrow> (\<forall>v \<in> set (i_stack s) \<union> set (i_altstack s). length v \<le> 520)"

text \<open>Steps that push nothing large, and steps that leave the count of operations and the code alone.\<close>

definition keeps_small :: "(interp \<Rightarrow> step_result) \<Rightarrow> bool" where
  "keeps_small f \<longleftrightarrow> (\<forall>s. small s \<longrightarrow> small (snd (f s)) \<and> i_nOpCount (snd (f s)) = i_nOpCount s \<and> i_codehash (snd (f s)) = i_codehash s)"

lemma keeps_small_basic: "keeps_small stop" "keeps_small go_on" "keeps_small (op_if opcode fExec)" "keeps_small op_else" "keeps_small op_endif"
  "keeps_small op_verify" "keeps_small op_toaltstack" "keeps_small op_fromaltstack" "keeps_small op_2drop" "keeps_small op_2dup"
  "keeps_small op_3dup" "keeps_small op_2over" "keeps_small op_2rot" "keeps_small op_2swap" "keeps_small op_ifdup"
  "keeps_small op_drop" "keeps_small op_dup" "keeps_small op_nip" "keeps_small op_over"
  "keeps_small op_rot" "keeps_small op_swap" "keeps_small op_tuck" "keeps_small (op_equal opcode)"
  by (simp_all add: keeps_small_def small_def step_defs Let_def op_if_def op_else_def op_endif_def op_verify_def
      op_toaltstack_def op_fromaltstack_def op_2drop_def op_2dup_def op_3dup_def op_2over_def op_2rot_def
      op_2swap_def op_ifdup_def op_drop_def op_dup_def op_nip_def op_over_def op_rot_def op_swap_def
      op_tuck_def op_equal_def push_check_def vch_bool_def vchTrue_def vchFalse_def split: list.split)

lemma int_of_size_bound: "\<not> int_of_size n \<le> i \<Longrightarrow> \<not> i < 0 \<Longrightarrow> nat i < n"
proof -
  have "sint (of_nat n :: u32) \<le> uint (of_nat n :: u32)" 
    unfolding sint_uint signed_take_bit_int_less_eq_self_iff by (rule order_trans [OF _ uint_ge_0]) simp
  also have "\<dots> \<le> int n" by (simp only: uint_nat unat_of_nat of_nat_le_iff) simp
  finally show "\<not> int_of_size n \<le> i \<Longrightarrow> \<not> i < 0 \<Longrightarrow> nat i < n" by (auto simp: int_of_size_def)
qed

lemma setulong_small: "\<bar>setulong w\<bar> < 256 ^ 8"
  using uint_lt2p [of w] by (simp add: setulong_def)

lemma CBigNum_of_long_small: "bignum_ok ssl \<Longrightarrow> \<bar>CBigNum_of_long ssl w\<bar> < 256 ^ 8"
  using setulong_small [of w] sint_lt [of w] sint_ge [of w] by (auto simp: CBigNum_of_long_def setint64_value)

lemma small_push: "length v \<le> 520 \<Longrightarrow> keeps_small (\<lambda>s. set_stack (v # i_stack s) s)"
  by (simp add: keeps_small_def small_def step_defs)

lemma keeps_small_numbers:
  assumes "bignum_ok ssl"
  shows "keeps_small (op_number ssl opcode)" "keeps_small (op_depth ssl)" "keeps_small (op_size ssl)"
  using getvch_small [OF assms setulong_small] getvch_small [OF assms CBigNum_of_long_small [OF assms]]
  by (simp_all add: keeps_small_def small_def step_defs op_number_def op_depth_def op_size_def split: list.split)

lemma keeps_small_hash:
  assumes "digests_ok ssl"
  shows "keeps_small (op_hash ssl opcode)"
  using assms length_Hash [OF assms] by (simp add: keeps_small_def small_def step_defs op_hash_def digests_ok_def Hash160_def split: list.split)

lemma unary_num_small: "\<bar>n\<bar> < 256 ^ 4 \<Longrightarrow> \<bar>unary_num opcode n\<bar> < 256 ^ 8"
  by (auto simp: unary_num_def bn_bool_def abs_less_iff)

lemma binary_num_small: "\<bar>m\<bar> < 256 ^ 4 \<Longrightarrow> \<bar>n\<bar> < 256 ^ 4 \<Longrightarrow> \<bar>binary_num opcode m n\<bar> < 256 ^ 8"
  by (auto simp: binary_num_def bn_bool_def abs_less_iff)

lemma keeps_small_with_num:
  "(\<And>bn. CastToBigNum ssl v = Inr bn \<Longrightarrow> small s \<Longrightarrow> small (snd (f bn)) \<and> i_nOpCount (snd (f bn)) = i_nOpCount s \<and> i_codehash (snd (f bn)) = i_codehash s) \<Longrightarrow>
   small s \<Longrightarrow> small (snd (with_num ssl v s f)) \<and> i_nOpCount (snd (with_num ssl v s f)) = i_nOpCount s \<and>
     i_codehash (snd (with_num ssl v s f)) = i_codehash s"
  by (simp add: with_num_def stop_def split: sum.split)

lemma keeps_small_num_ops:
  assumes "bignum_ok ssl"
  shows "keeps_small (op_pick_roll ssl opcode)" "keeps_small (op_unary ssl opcode)" "keeps_small (op_binary ssl opcode)"
    "keeps_small (op_within ssl)"
proof -
  note num = getvch_small [OF assms unary_num_small [OF CastToBigNum_small [OF assms]]]
    getvch_small [OF assms binary_num_small [OF CastToBigNum_small [OF assms] CastToBigNum_small [OF assms]]]
  show "keeps_small (op_unary ssl opcode)" "keeps_small (op_binary ssl opcode)" "keeps_small (op_within ssl)"
    by (simp_all add: keeps_small_def small_def step_defs Let_def with_num_def op_unary_def op_binary_def op_within_def
       vch_bool_def vchTrue_def vchFalse_def num split: list.split sum.split)
  show "keeps_small (op_pick_roll ssl opcode)"
    unfolding keeps_small_def
  proof (intro allI impI)
    fix s assume s: "small s"
    have st: "length v \<le> 520" if "v \<in> set (tl (i_stack s))" for v
      using s that by (cases "i_stack s") (auto simp: small_def)
    have "\<forall>v \<in> set (take n (tl (i_stack s)) @ drop (Suc n) (tl (i_stack s))). length v \<le> 520" for n
      using st by (auto dest: in_set_takeD in_set_dropD)
    then show "small (snd (op_pick_roll ssl opcode s)) \<and> i_nOpCount (snd (op_pick_roll ssl opcode s)) = i_nOpCount s \<and>
        i_codehash (snd (op_pick_roll ssl opcode s)) = i_codehash s"
      using s st
      by (auto simp: op_pick_roll_def with_num_def step_defs Let_def small_def nth_mem int_of_size_bound split: sum.split)
  qed
qed

text \<open>What one instruction may do to a state it goes on with.\<close>

definition step_ok :: "script \<Rightarrow> interp \<Rightarrow> step_result \<Rightarrow> bool" where
  "step_ok pc s r \<longleftrightarrow>
     (small s \<and> fst r \<longrightarrow> small (snd r) \<and> i_nOpCount s \<le> i_nOpCount (snd r) \<and>
        (i_nOpCount (snd r) = i_nOpCount s \<or> i_nOpCount (snd r) \<le> 201) \<and>
        i_codehash (snd r) \<in> {i_codehash s, pc})"

lemma step_ok_keeps: "keeps_small f \<Longrightarrow> step_ok pc s (f s)"
  by (simp add: step_ok_def keeps_small_def)

lemma step_ok_if: "(P \<Longrightarrow> step_ok pc s a) \<Longrightarrow> (\<not> P \<Longrightarrow> step_ok pc s b) \<Longrightarrow> step_ok pc s (if P then a else b)"
  by simp

lemma step_ok_separator: "step_ok pc s (go_on (s\<lparr>i_codehash := pc\<rparr>))"
  by (simp add: step_ok_def go_on_def small_def)

lemma step_ok_push_check:
  "(small s \<Longrightarrow> \<forall>x \<in> set st. length x \<le> 520) \<Longrightarrow> i_altstack u = i_altstack s \<Longrightarrow> i_codehash u = i_codehash s \<Longrightarrow>
   i_nOpCount s \<le> i_nOpCount u \<Longrightarrow> i_nOpCount u = i_nOpCount s \<or> i_nOpCount u \<le> 201 \<Longrightarrow>
   step_ok pc s (push_check v b st u)"
  by (cases v; cases b) (auto simp: step_ok_def push_check_def step_defs small_def vch_bool_def vchTrue_def vchFalse_def)

lemma step_ok_checksig: "step_ok pc s (op_checksig chk flags opcode s)"
  unfolding op_checksig_def Let_def
  by (auto split: list.split prod.split intro!: step_ok_push_check simp: small_def) (simp_all add: step_ok_def stop_def)

lemma step_ok_checkmultisig: "step_ok pc s (op_checkmultisig ssl chk flags opcode s)"
proof -
  have stop: "step_ok pc s (stop u)" for u by (simp add: step_ok_def stop_def)
  show ?thesis
    unfolding op_checkmultisig_def Let_def with_num_def
    by (auto split: sum.split prod.split intro!: step_ok_push_check stop simp: small_def dest: in_set_dropD)
qed

lemma step_ok_exec_op:
  assumes "bignum_ok ssl" "digests_ok ssl"
  shows "step_ok pc s (exec_op ssl chk flags fExec opcode pc s)"
proof -
  note keeps = keeps_small_basic [THEN step_ok_keeps] keeps_small_numbers [OF assms(1), THEN step_ok_keeps]
    keeps_small_hash [OF assms(2), THEN step_ok_keeps] keeps_small_num_ops [OF assms(1), THEN step_ok_keeps]
  show ?thesis unfolding exec_op_def
    by (intro step_ok_if step_ok_separator step_ok_checksig step_ok_checkmultisig keeps)
qed

definition limits :: "interp \<Rightarrow> bool" where
  "limits s \<longleftrightarrow> length (i_stack s) + length (i_altstack s) \<le> 1000 \<and>
     (\<forall>v \<in> set (i_stack s) \<union> set (i_altstack s). length v \<le> MAX_SCRIPT_ELEMENT_SIZE) \<and>
     0 \<le> i_nOpCount s \<and> i_nOpCount s \<le> 201 \<and> length (i_codehash s) \<le> 10000"

lemma eval_instr_limits:
  assumes ssl: "bignum_ok ssl" "digests_ok ssl" and s: "limits s" "length pc \<le> 10000"
    and on: "eval_instr ssl chk flags opcode vch pc s = (True, s')"
  shows "limits s'"
proof -
  define u where "u = count_op opcode s"
  have u: "small u" "0 \<le> i_nOpCount u" "length (i_codehash u) \<le> 10000"
    using s by (auto simp: u_def count_op_def limits_def small_def MAX_SCRIPT_ELEMENT_SIZE_def)
  from on have v: "length vch \<le> 520" and d: "dispatch ssl chk flags opcode vch pc u = (True, s')"
    and n: "length (i_stack s') + length (i_altstack s') \<le> 1000" and c: "\<not> (opcode > OP_16 \<and> i_nOpCount u > 201)"
    by (auto simp: eval_instr_def Let_def u_def step_defs MAX_SCRIPT_ELEMENT_SIZE_def split: if_splits prod.splits)
  have c': "i_nOpCount u \<le> 201" using c s by (auto simp: u_def count_op_def limits_def)
  have "step_ok pc u (dispatch ssl chk flags opcode vch pc u)"
    unfolding dispatch_def Let_def
  proof (intro step_ok_if step_ok_exec_op ssl)
    show "step_ok pc u (set_stack (vch # i_stack u) u)" "step_ok pc u (go_on u)"
      using v by (auto simp: step_ok_def step_defs small_def)
  qed
  with d u c' s(2) n show ?thesis
    by (auto simp: step_ok_def limits_def small_def MAX_SCRIPT_ELEMENT_SIZE_def)
qed

section \<open>Evaluation as steps\<close>

text \<open>One iteration of the loop of EvalScript, on the rest of the script and the state.\<close>

inductive interp_step :: "openssl \<Rightarrow> checker \<Rightarrow> u32 \<Rightarrow> script \<times> interp \<Rightarrow> script \<times> interp \<Rightarrow> bool"
  for ssl chk flags where
  instr: "GetOp2 pc = (True, opcode, vch, pc') \<Longrightarrow> eval_instr ssl chk flags opcode vch pc' s = (True, s') \<Longrightarrow>
    interp_step ssl chk flags (pc, s) (pc', s')"

inductive_cases interp_stepE: "interp_step ssl chk flags (pc, s) r"

abbreviation reaches :: "openssl \<Rightarrow> checker \<Rightarrow> u32 \<Rightarrow> script \<times> interp \<Rightarrow> script \<times> interp \<Rightarrow> bool" where
  "reaches ssl chk flags \<equiv> (interp_step ssl chk flags)\<^sup>*\<^sup>*"

lemma interp_step_Nil [simp]: "\<not> interp_step ssl chk flags ([], s) r"
  by (auto elim: interp_stepE)

lemma reaches_Nil [simp]: "reaches ssl chk flags ([], s) r \<longleftrightarrow> r = ([], s)"
  by (auto elim: converse_rtranclpE)

section \<open>Properties of the loop\<close>

lemma reaches_limits:
  assumes "reaches ssl chk flags r r'" "bignum_ok ssl" "digests_ok ssl" "limits (snd r)" "length (fst r) \<le> 10000"
  shows "limits (snd r') \<and> length (fst r') \<le> 10000"
  using assms
proof (induction rule: rtranclp_induct)
  case base
  then show ?case by simp
next
  case (step y z)
  obtain pc s pc' s' where y: "y = (pc, s)" "z = (pc', s')" by fastforce
  from step(2) obtain opcode vch where g: "GetOp2 pc = (True, opcode, vch, pc')"
    and e: "eval_instr ssl chk flags opcode vch pc' s = (True, s')"
    unfolding y by (auto elim: interp_stepE)
  have "length pc' \<le> 10000" using GetOp2_shorter [OF g] step y by simp
  with eval_instr_limits [OF step(4,5) _ this e] step y show ?case by simp
qed

lemma start_limits:
  assumes "length stack \<le> 1000" "\<forall>v \<in> set stack. length v \<le> 520" "length script \<le> 10000"
  shows "limits (start script stack c)"
  using assms by (simp add: limits_def start_def MAX_SCRIPT_ELEMENT_SIZE_def)

text \<open>C10: in every state that evaluation reaches from a stack within the limits, the two stacks together hold
  at most 1000 elements of at most 520 bytes, at most 201 operations have been counted and the code
  to be signed is at most 10000 bytes long, whatever the script and whatever the checker of
  signatures answers.\<close>

theorem interpreter_limits:
  assumes "bignum_ok ssl" "digests_ok ssl"
    and "length stack \<le> 1000" "\<forall>v \<in> set stack. length v \<le> 520" "length script \<le> 10000"
    and "reaches ssl chk flags (script, start script stack c) (pc, s)"
  shows "length (i_stack s) + length (i_altstack s) \<le> 1000 \<and>
    list_all (\<lambda>v. length v \<le> 520) (i_stack s @ i_altstack s) \<and>
    0 \<le> i_nOpCount s \<and> i_nOpCount s \<le> 201 \<and> length (i_codehash s) \<le> 10000"
  using reaches_limits [OF assms(6,1,2)] start_limits [OF assms(3-5)] assms(5)
  by (auto simp: limits_def MAX_SCRIPT_ELEMENT_SIZE_def list_all_iff)

lemma nop_step: "interp_step ssl chk flags ([OP_NOP], start [OP_NOP] [] c) ([], (start [OP_NOP] [] c)\<lparr>i_nOpCount := 1\<rparr>)"
  by (rule interp_step.instr, rule GetOp2_opcode)
    (simp_all add: eval_instr_def dispatch_def Let_def disabled_op_def exec_op_def start_def count_op_def step_defs MAX_SCRIPT_ELEMENT_SIZE_def)

lemma nop_reaches: "reaches ssl chk flags ([OP_NOP], start [OP_NOP] [] c) ([], (start [OP_NOP] [] c)\<lparr>i_nOpCount := 1\<rparr>)"
  by (rule r_into_rtranclp) (rule nop_step)

theorem interpreter_limits_witness:
  "i_nOpCount ((start [OP_NOP] [] empty_cache)\<lparr>i_nOpCount := 1\<rparr>) \<le> 201"
  using interpreter_limits [of sample_ssl "[]" "[OP_NOP]" _ 0 empty_cache, OF sample_bignum_ok sample_digests_ok _ _ _
      nop_reaches [of sample_ssl "pure_checker (\<lambda>s p c. True)"]]
  by simp

text \<open>C14: the loop of a multi-signature check, with any good cache, succeeds exactly when the signatures
  are, in order, canonical and valid for some of the keys in order.\<close>

theorem multisig_in_order:
  assumes "digests_ok (se_ssl env)" "cache_ok (se_ssl env) c"
  shows "fst (multisig_loop (check_canonical (\<lambda>s p code c. CheckSig env s p code tx nIn t flags c) flags) code sigs keys c) \<longleftrightarrow>
    (\<exists>ks. subseq ks keys \<and> list_all2 (\<lambda>s p. IsCanonicalSignature s flags \<and> IsCanonicalPubKey p flags \<and>
       checksig_spec (se_ssl env) s p code tx nIn t) sigs ks)"
  using assms by (intro sig_checker.multisig_greedy [OF checksig.canonical]) simp

theorem multisig_in_order_witness:
  "fst (multisig_loop (check_canonical (\<lambda>s p code c. CheckSig sample_env s p code sample_tx 0 0 0 c) 0) [] [] [sample_key] empty_cache)"
  using multisig_in_order [of sample_env empty_cache sample_tx 0 0 0 "[]" "[]" "[sample_key]"] sample_digests_ok
  by (auto simp: sample_env_def cache_ok_def empty_cache_def)

end
