(* ===== verification/Spending.thy ===== *)
theory Spending
  imports Evaluation
begin

text \<open>
  What the standard scripts do when the interpreter runs them: a pay-to-key-hash output is spent by a
  signature and a key with its hash, and a pay-to-script-hash output only by pushes that carry a
  script with its hash which then succeeds.
\<close>

section \<open>Runs of single instructions\<close>

lemma eval_instr_op:
  assumes "list_all (\<lambda>f. f) (i_vfExec s)" "OP_PUSHDATA4 < opcode" "\<not> disabled_op opcode" "i_nOpCount s < 201"
    and "exec_op ssl chk flags True opcode pc (count_op opcode s) = (True, s')"
    and "length (i_stack s') + length (i_altstack s') \<le> 1000"
  shows "eval_instr ssl chk flags opcode [] pc s = (True, s')"
  using assms
  by (auto simp: eval_instr_def Let_def dispatch_def count_op_def step_defs MAX_SCRIPT_ELEMENT_SIZE_def split: if_splits)

lemma eval_op:
  assumes "i_vfExec s = []" "OP_PUSHDATA4 < opcode" "\<not> disabled_op opcode" "i_nOpCount s < 201"
    and "exec_op ssl chk flags True opcode pc (count_op opcode s) = (True, s')"
    and "length (i_stack s') + length (i_altstack s') \<le> 1000"
  shows "eval_loop ssl chk flags (opcode # pc) s = eval_loop ssl chk flags pc s'"
  using assms by (intro eval_loop_step [OF GetOp2_opcode] eval_instr_op) simp_all

lemma eval_op_stop:
  assumes "i_vfExec s = []" "OP_PUSHDATA4 < opcode"
    and "\<And>u. i_stack u = i_stack s \<Longrightarrow> \<not> fst (exec_op ssl chk flags True opcode pc u)"
  shows "\<not> fst (eval_loop ssl chk flags (opcode # pc) s)"
proof -
  have "\<not> fst (dispatch ssl chk flags opcode [] pc (count_op opcode s))"
    using assms by (auto simp: dispatch_def count_op_def)
  then have "\<not> fst (eval_instr ssl chk flags opcode [] pc s)"
    by (auto simp: eval_instr_def Let_def step_defs split_beta)
  then show ?thesis
    using eval_loop_stop [OF GetOp2_opcode [OF assms(2)], of ssl chk flags _ s]
    by (cases "eval_instr ssl chk flags opcode [] pc s") simp
qed

lemma push_op_push: "push_op v \<le> OP_PUSHDATA4"
proof -
  have "length v < 76 \<Longrightarrow> (of_nat (length v) :: byte) \<le> OP_PUSHDATA4" by (simp add: word_le_nat_alt unat_of_nat)
  then show ?thesis by (simp add: push_op_def)
qed

lemma eval_push:
  assumes "length v \<le> 520" "i_vfExec s = []" "length (i_stack s) + length (i_altstack s) < 1000" "length (v @ pc) < 2 ^ 32"
  shows "eval_loop ssl chk flags (push_data [] v @ pc) s = eval_loop ssl chk flags pc (s\<lparr>i_stack := v # i_stack s\<rparr>)"
proof (rule eval_loop_step [OF GetOp2_push [OF assms(4)]])
  have "\<not> push_op v > OP_16" "\<not> disabled_op (push_op v)" "push_op v \<le> OP_PUSHDATA4"
    using push_op_push [of v] push_op_le [of v] by (auto simp: disabled_op_def)
  then show "eval_instr ssl chk flags (push_op v) v pc s = (True, s\<lparr>i_stack := v # i_stack s\<rparr>)"
    using assms by (simp add: eval_instr_def Let_def dispatch_def count_op_def step_defs MAX_SCRIPT_ELEMENT_SIZE_def)
qed

section \<open>Spending from the hash of a key\<close>

lemma CastToBool_vch [simp]: "CastToBool (vch_bool b) = b"
  by (simp add: vch_bool_def vchTrue_def vchFalse_def)

lemma eval_push_two:
  assumes "length sig \<le> 520" "length pk \<le> 520"
  shows "eval_script ssl chk flags [] (PushAll [sig, pk]) c =
    (True, (start (PushAll [sig, pk]) [] c)\<lparr>i_stack := [pk, sig]\<rparr>)"
proof -
  have p: "length (push_data [] v) \<le> length v + 5" for v
    by (simp add: push_data_def)
  have s: "PushAll [sig, pk] = push_data [] sig @ push_data [] pk @ []"
    by (simp add: PushAll_def push_data_append [of "push_data [] sig"])
  have "eval_loop ssl chk flags (PushAll [sig, pk]) (start (PushAll [sig, pk]) [] c) =
      eval_loop ssl chk flags [] ((start (PushAll [sig, pk]) [] c)\<lparr>i_stack := [pk, sig]\<rparr>)"
    unfolding s using assms p [of pk] eval_push [of pk _ "[]"]
    by (simp add: eval_push start_def)
  then show ?thesis
    using assms p [of sig] p [of pk] by (simp add: eval_script_def s eval_loop.simps [of _ _ _ "[]"] start_def go_on_def)
qed

lemma length_Hash160: "digests_ok ssl \<Longrightarrow> length (Hash160 ssl v) = 5"
  by (simp add: Hash160_def digests_ok_def length_bu_of_bytes)

lemma bu_bytes_eq: "length a = n \<Longrightarrow> length b = n \<Longrightarrow> bu_bytes a = bu_bytes b \<longleftrightarrow> a = b"
  by (metis bu_of_vch_bytes)

lemma eval_key_hash:
  fixes valid pk sig c flags
  assumes ssl: "digests_ok ssl" and h: "length h = 5"
  defines "code \<equiv> SetDestination (CKeyID h)"
  defines "r \<equiv> eval_script ssl (pure_checker valid) flags [pk, sig] code c"
  shows "(fst r \<and> i_stack (snd r) \<noteq> [] \<and> CastToBool (hd (i_stack (snd r)))) \<longleftrightarrow>
    Hash160 ssl pk = h \<and> IsCanonicalSignature sig flags \<and> IsCanonicalPubKey pk flags \<and>
      valid sig pk (fst (FindAndDelete code (push_data [] sig)))"
proof -
  define s where "s st n = (start code [] c)\<lparr>i_stack := st, i_nOpCount := n\<rparr>" for st n
  have s [simp]: "i_vfExec (s st n) = []" "i_nOpCount (s st n) = n" "i_stack (s st n) = st" "i_altstack (s st n) = []"
    "i_codehash (s st n) = code" "count_op OP_DUP (s st n) = s st (n + 1)" "count_op OP_HASH160 (s st n) = s st (n + 1)"
    "count_op OP_EQUALVERIFY (s st n) = s st (n + 1)" "count_op OP_CHECKSIG (s st n) = s st (n + 1)"
    "(s st n)\<lparr>i_stack := st'\<rparr> = s st' n" "(s st n)\<lparr>i_cache := c\<rparr> = s st n" "i_cache (s st n) = c" for st st' n
    by (simp_all add: s_def start_def count_op_def)
  define rest where "rest = [OP_EQUALVERIFY, OP_CHECKSIG]"
  have code: "code = OP_DUP # OP_HASH160 # push_data [] (bu_bytes h) @ rest" "length code = 25"
    using h by (simp_all add: code_def rest_def push_opcode_def push_uint160_def push_data_def)
  have "r = eval_loop ssl (pure_checker valid) flags code (s [pk, sig] 0)"
    unfolding r_def eval_script_def using code(2) by (simp add: s_def start_def)
  also have "\<dots> = eval_loop ssl (pure_checker valid) flags (OP_HASH160 # push_data [] (bu_bytes h) @ rest) (s [pk, pk, sig] 1)"
    unfolding code by (rule eval_op) (simp_all add: disabled_op_def exec_op_def op_dup_def step_defs)
  also have "\<dots> = eval_loop ssl (pure_checker valid) flags (push_data [] (bu_bytes h) @ rest) (s [bu_bytes (Hash160 ssl pk), pk, sig] 2)"
    by (rule eval_op) (simp_all add: disabled_op_def exec_op_def op_hash_def step_defs)
  also have "\<dots> = eval_loop ssl (pure_checker valid) flags rest (s [bu_bytes h, bu_bytes (Hash160 ssl pk), pk, sig] 2)"
    using h by (subst eval_push) (simp_all add: rest_def)
  finally have r: "r = eval_loop ssl (pure_checker valid) flags rest (s [bu_bytes h, bu_bytes (Hash160 ssl pk), pk, sig] 2)" .
  show ?thesis
  proof (cases "Hash160 ssl pk = h")
    case False
    then have "bu_bytes (Hash160 ssl pk) \<noteq> bu_bytes h"
      using h length_Hash160 [OF ssl] by (simp add: bu_bytes_eq)
    then have "\<not> fst r" unfolding r rest_def
      by (intro eval_op_stop) (simp_all add: exec_op_def op_equal_def push_check_def stop_def)
    with False show ?thesis by simp
  next
    case True
    let ?ok = "IsCanonicalSignature sig flags \<and> IsCanonicalPubKey pk flags \<and> valid sig pk (fst (FindAndDelete code (push_data [] sig)))"
    have "r = eval_loop ssl (pure_checker valid) flags [OP_CHECKSIG] (s [pk, sig] 3)"
      unfolding r rest_def by (rule eval_op) (simp_all add: True disabled_op_def exec_op_def op_equal_def push_check_def step_defs)
    also have "\<dots> = eval_loop ssl (pure_checker valid) flags [] (s [vch_bool ?ok] 4)"
      by (rule eval_op) (auto simp: disabled_op_def exec_op_def op_checksig_def check_canonical_def pure_checker_def push_check_def step_defs)
    finally have "r = (True, s [vch_bool ?ok] 4)" by (simp add: eval_loop.simps [of _ _ _ "[]"] go_on_def)
    with True show ?thesis by simp
  qed
qed

text \<open>C11: pushing a signature and a key spends the output to the hash of a key exactly when the key has
  that hash, both are canonical and the signature is valid for the output script, from which its own
  push is deleted.\<close>

theorem spend_key_hash:
  assumes "digests_ok (se_ssl env)" "cache_ok (se_ssl env) c" "length h = 5" "length sig \<le> 520" "length pk \<le> 520"
  shows "\<exists>c'. VerifyScript env (PushAll [sig, pk]) (SetDestination (CKeyID h)) tx nIn flags t c =
    (Inr (Hash160 (se_ssl env) pk = h \<and> IsCanonicalSignature sig flags \<and> IsCanonicalPubKey pk flags \<and>
       checksig_spec (se_ssl env) sig pk (fst (FindAndDelete (SetDestination (CKeyID h)) (push_data [] sig))) tx nIn t), c') \<and>
    cache_ok (se_ssl env) c'"
proof -
  have "\<not> IsPayToScriptHash (SetDestination (CKeyID h))"
    by (simp add: IsPayToScriptHash_def push_opcode_def push_uint160_def)
  then have "verify_spec (se_ssl env) (PushAll [sig, pk]) (SetDestination (CKeyID h)) tx nIn flags t \<longleftrightarrow>
     Hash160 (se_ssl env) pk = h \<and> IsCanonicalSignature sig flags \<and> IsCanonicalPubKey pk flags \<and>
       checksig_spec (se_ssl env) sig pk (fst (FindAndDelete (SetDestination (CKeyID h)) (push_data [] sig))) tx nIn t"
    using eval_push_two [OF assms(4,5)] eval_key_hash [OF assms(1,3), symmetric]
    by (simp add: verify_spec_def eval_spec_def split_beta del: SetDestination.simps)
  with VerifyScript_spec [OF assms(1,2), of "PushAll [sig, pk]" "SetDestination (CKeyID h)" tx nIn flags t]
  show ?thesis by simp
qed

text \<open>With a key of another hash the output cannot be spent.\<close>

theorem spend_key_hash_witness:
  "fst (VerifyScript sample_env (PushAll [sample_sig, sample_key]) (SetDestination (CKeyID [1, 2, 3, 4, 5])) sample_tx 0 0 0 empty_cache) =
     Inr (Hash160 sample_ssl sample_key = [1, 2, 3, 4, 5] \<and> checksig_spec sample_ssl sample_sig sample_key
       (fst (FindAndDelete (SetDestination (CKeyID [1, 2, 3, 4, 5])) (push_data [] sample_sig))) sample_tx 0 0)"
  using spend_key_hash [of sample_env empty_cache "[1, 2, 3, 4, 5]" sample_sig sample_key sample_tx 0 0 0] sample_digests_ok
  by (auto simp: sample_env_def cache_ok_def empty_cache_def sample_sig_def sample_key_def IsCanonicalSignature_def IsCanonicalPubKey_def simp del: SetDestination.simps)

section \<open>Spending from the hash of a script\<close>

lemma p2sh_eval:
  assumes "digests_ok ssl" "length h = 5" "i_stack s = v # st" "length st < 999"
    "i_vfExec s = []" "i_altstack s = []" "i_nOpCount s = 0"
  shows "eval_loop ssl chk flags (SetDestination (CScriptID h)) s =
    (True, s\<lparr>i_stack := vch_bool (Hash160 ssl v = h) # st, i_nOpCount := 2\<rparr>)"
proof -
  have code: "SetDestination (CScriptID h) = OP_HASH160 # push_data [] (bu_bytes h) @ [OP_EQUAL]"
    using assms(2) by (simp add: push_opcode_def push_uint160_def push_data_def)
  have "eval_loop ssl chk flags (SetDestination (CScriptID h)) s =
      eval_loop ssl chk flags (push_data [] (bu_bytes h) @ [OP_EQUAL]) (s\<lparr>i_stack := bu_bytes (Hash160 ssl v) # st, i_nOpCount := 1\<rparr>)"
    unfolding code using assms
    by (intro eval_op) (simp_all add: disabled_op_def exec_op_def op_hash_def step_defs count_op_def)
  also have "\<dots> = eval_loop ssl chk flags [OP_EQUAL] (s\<lparr>i_stack := bu_bytes h # bu_bytes (Hash160 ssl v) # st, i_nOpCount := 1\<rparr>)"
    using assms by (cases s, subst eval_push) simp_all
  also have "\<dots> = eval_loop ssl chk flags [] (s\<lparr>i_stack := vch_bool (Hash160 ssl v = h) # st, i_nOpCount := 2\<rparr>)"
    using assms bu_bytes_eq [OF length_Hash160 [OF assms(1)] assms(2)]
    by (intro eval_op) (simp_all add: disabled_op_def exec_op_def op_equal_def push_check_def step_defs count_op_def)
  finally show ?thesis using assms by (simp add: eval_loop.simps [of _ _ _ "[]"] go_on_def)
qed

lemma p2sh_eval_full:
  assumes "digests_ok ssl" "length h = 5" "i_stack s = v # st" "\<not> length st < 999" "i_vfExec s = []" "i_altstack s = []" "i_nOpCount s = 0"
  shows "\<not> fst (eval_loop ssl chk flags (SetDestination (CScriptID h)) s)"
proof -
  have code: "SetDestination (CScriptID h) = OP_HASH160 # push_data [] (bu_bytes h) @ [OP_EQUAL]"
    using assms(2) by (simp add: push_opcode_def push_uint160_def push_data_def)
  let ?t = "s\<lparr>i_stack := bu_bytes (Hash160 ssl v) # st, i_nOpCount := 1\<rparr>"
  show ?thesis
  proof (cases "length st = 999")
    case True
    have "eval_loop ssl chk flags (SetDestination (CScriptID h)) s = eval_loop ssl chk flags (push_data [] (bu_bytes h) @ [OP_EQUAL]) ?t"
      unfolding code using assms True
      by (intro eval_op) (simp_all add: disabled_op_def exec_op_def op_hash_def step_defs count_op_def)
    moreover have "length (bu_bytes h @ [OP_EQUAL]) < 2 ^ 32" using assms(2) by simp
    note g = GetOp2_push [OF this]
    have "\<not> fst (eval_instr ssl chk flags (push_op (bu_bytes h)) (bu_bytes h) [OP_EQUAL] ?t)"
    proof -
      have "push_op (bu_bytes h) \<le> OP_PUSHDATA4" "\<not> push_op (bu_bytes h) > OP_16" using push_op_push push_op_le [of "bu_bytes h"] by auto
      then show ?thesis using assms True by (simp add: eval_instr_def Let_def dispatch_def count_op_def step_defs)
    qed
    then have "\<not> fst (eval_loop ssl chk flags (push_data [] (bu_bytes h) @ [OP_EQUAL]) ?t)"
      using eval_loop_stop [OF g] by (cases "eval_instr ssl chk flags (push_op (bu_bytes h)) (bu_bytes h) [OP_EQUAL] ?t") auto
    ultimately show ?thesis by simp
  next
    case False
    have "\<not> fst (eval_instr ssl chk flags OP_HASH160 [] (push_data [] (bu_bytes h) @ [OP_EQUAL]) s)"
      using assms False by (simp add: eval_instr_def Let_def dispatch_def count_op_def step_defs disabled_op_def exec_op_def op_hash_def MAX_SCRIPT_ELEMENT_SIZE_def)
    then show ?thesis unfolding code
      using eval_loop_stop [OF GetOp2_opcode [of OP_HASH160 "push_data [] (bu_bytes h) @ [OP_EQUAL]"]]
      by (cases "eval_instr ssl chk flags OP_HASH160 [] (push_data [] (bu_bytes h) @ [OP_EQUAL]) s") auto
  qed
qed

text \<open>The reference: what an unlocking script must do to spend an output to the hash of a script.\<close>

definition unlocks_script_hash :: "openssl \<Rightarrow> script \<Rightarrow> base_uint \<Rightarrow> CTransaction \<Rightarrow> u32 \<Rightarrow> u32 \<Rightarrow> u32 \<Rightarrow> bool" where
  "unlocks_script_hash ssl scriptSig h tx nIn flags t \<longleftrightarrow>
     (case eval_spec ssl [] scriptSig tx nIn flags t of
        (True, redeem # st) \<Rightarrow>
          IsPushOnly scriptSig \<and> Hash160 ssl redeem = h \<and> length st < 999 \<and>
          (case eval_spec ssl st redeem tx nIn flags t of (True, w # _) \<Rightarrow> CastToBool w | _ \<Rightarrow> False)
      | _ \<Rightarrow> False)"

lemma verify_spec_script_hash:
  assumes "digests_ok ssl" "length h = 5" "flags AND SCRIPT_VERIFY_P2SH \<noteq> 0"
  shows "verify_spec ssl scriptSig (SetDestination (CScriptID h)) tx nIn flags t \<longleftrightarrow> unlocks_script_hash ssl scriptSig h tx nIn flags t"
proof -
  have p: "IsPayToScriptHash (SetDestination (CScriptID h))" "length (SetDestination (CScriptID h)) = 23"
    using assms(2) by (simp_all add: IsPayToScriptHash_def push_opcode_def push_uint160_def nth_append)
  obtain r st1 where e1: "eval_spec ssl [] scriptSig tx nIn flags t = (r, st1)" by fastforce
  show ?thesis
  proof (cases st1)
    case Nil
    have "\<not> fst (eval_spec ssl [] (SetDestination (CScriptID h)) tx nIn flags t)"
      using p2sh_needs_element [OF p(1)] by (simp add: eval_spec_def split_beta)
    then show ?thesis by (simp add: verify_spec_def unlocks_script_hash_def e1 Nil split_beta split: bool.splits)
  next
    case (Cons v st)
    have e: "fst (eval_spec ssl (v # st) (SetDestination (CScriptID h)) tx nIn flags t) = False" if "\<not> length st < 999"
      using p2sh_eval_full [OF assms(1,2) _ that] p(2)
      by (simp add: eval_spec_def eval_script_def start_def split_beta del: SetDestination.simps)
    have e': "eval_spec ssl (v # st) (SetDestination (CScriptID h)) tx nIn flags t = (True, vch_bool (Hash160 ssl v = h) # st)"
      if "length st < 999"
      using p2sh_eval [OF assms(1,2) _ that] p(2)
      by (simp add: eval_spec_def eval_script_def start_def del: SetDestination.simps)
    show ?thesis
    proof (cases "length st < 999")
      case True
      then show ?thesis using assms(3) p(1)
        by (cases r) (auto simp: verify_spec_def unlocks_script_hash_def e1 Cons e' split_beta split: list.split bool.split prod.split simp del: SetDestination.simps)
    next
      case False
      then show ?thesis using e [OF False] by (cases r) (simp_all add: verify_spec_def unlocks_script_hash_def e1 Cons split_beta del: SetDestination.simps)
    qed
  qed
qed

lemma VerifyScript_script_hash:
  assumes "digests_ok (se_ssl env)" "cache_ok (se_ssl env) c" "length h = 5" "flags AND SCRIPT_VERIFY_P2SH \<noteq> 0"
    and "eval_spec (se_ssl env) [] scriptSig tx nIn flags t = (True, v # st)" "length st < 999"
  shows "\<exists>c'. VerifyScript env scriptSig (SetDestination (CScriptID h)) tx nIn flags t c =
    (Inr (Hash160 (se_ssl env) v = h \<and> IsPushOnly scriptSig \<and>
       (case eval_spec (se_ssl env) st v tx nIn flags t of (r, []) \<Rightarrow> False | (r, w # _) \<Rightarrow> r \<and> CastToBool w)), c') \<and>
    cache_ok (se_ssl env) c'"
  using VerifyScript_spec [OF assms(1,2), of scriptSig "SetDestination (CScriptID h)" tx nIn flags t]
    verify_spec_script_hash [OF assms(1,3,4)] assms(5,6)
  by (auto simp: unlocks_script_hash_def split: list.splits bool.splits prod.splits)

text \<open>C12: with the pay-to-script-hash rule on, an output to the hash of a script is spent by an unlocking script
  exactly when this script runs to its end, consists of pushes only, and leaves on top a script with this hash which
  then runs to its end on the rest of the stack and leaves a true value on top; there are no assumptions on
  the unlocking script. The stack below the redeem script may hold at most 998 elements.\<close>

theorem spend_script_hash:
  assumes "digests_ok (se_ssl env)" "cache_ok (se_ssl env) c" "length h = 5" "flags AND SCRIPT_VERIFY_P2SH \<noteq> 0"
  shows "\<exists>c'. VerifyScript env scriptSig (SetDestination (CScriptID h)) tx nIn flags t c =
    (Inr (unlocks_script_hash (se_ssl env) scriptSig h tx nIn flags t), c') \<and> cache_ok (se_ssl env) c'"
  using VerifyScript_spec [OF assms(1,2), of scriptSig "SetDestination (CScriptID h)" tx nIn flags t]
    verify_spec_script_hash [OF assms(1,3,4)] by simp

text \<open>A reserved opcode in front of the redeem script counts as a push but stops the evaluation.\<close>

theorem spend_script_hash_witness:
  "fst (VerifyScript sample_env (PushAll [[7], [OP_1]]) (SetDestination (CScriptID (Hash160 sample_ssl [OP_1]))) sample_tx 0 1 0 empty_cache) = Inr True \<and>
   fst (VerifyScript sample_env (PushAll [[OP_1]] @ [OP_RESERVED]) (SetDestination (CScriptID (Hash160 sample_ssl [OP_1]))) sample_tx 0 1 0 empty_cache) = Inr False"
proof -
  have p: "digests_ok (se_ssl sample_env)" "cache_ok (se_ssl sample_env) empty_cache" "length (Hash160 sample_ssl [OP_1]) = 5" "1 AND SCRIPT_VERIFY_P2SH \<noteq> 0"
    using sample_digests_ok length_Hash160 [OF sample_digests_ok]
    by (simp_all add: sample_env_def cache_ok_def empty_cache_def SCRIPT_VERIFY_P2SH_def)
  have "unlocks_script_hash sample_ssl (PushAll [[7], [OP_1]]) (Hash160 sample_ssl [OP_1]) sample_tx 0 1 0"
    "\<not> unlocks_script_hash sample_ssl (PushAll [[OP_1]] @ [OP_RESERVED]) (Hash160 sample_ssl [OP_1]) sample_tx 0 1 0"
    by code_simp+
  then show ?thesis
    using spend_script_hash [OF p, of "PushAll [[7], [OP_1]]" sample_tx 0 0]
      spend_script_hash [OF p, of "PushAll [[OP_1]] @ [OP_RESERVED]" sample_tx 0 0]
    by (auto simp: sample_env_def)
qed

end
