(* ===== verification/Signing.thy ===== *)
theory Signing
  imports Spending Keystore
begin

text \<open>
  Signing in \<open>src/src/lib/core/script.cpp\<close>: \<open>Sign1\<close>, \<open>SignN\<close>, the \<open>Solver\<close> that satisfies a
  script with keys of a key store, \<open>SignSignature\<close> and the combination of partial signatures. The
  lemmas show that what is signed with the right keys passes \<open>VerifyScript\<close>.
\<close>

section \<open>Signing\<close>

definition Sign1 :: "openssl \<Rightarrow> base_uint \<Rightarrow> CBasicKeyStore \<Rightarrow> base_uint \<Rightarrow> u32 \<Rightarrow> script \<Rightarrow> bool \<times> script" where
  "Sign1 ssl address keystore hash nHashType scriptSigRet =
     (case GetKey keystore address of
        None \<Rightarrow> (False, scriptSigRet)
      | Some key \<Rightarrow>
          (case key_Sign ssl key hash of
             None \<Rightarrow> (False, scriptSigRet)
           | Some vchSig \<Rightarrow> (True, push_data scriptSigRet (vchSig @ [ucast nHashType]))))"

fun SignN_loop :: "openssl \<Rightarrow> CBasicKeyStore \<Rightarrow> base_uint \<Rightarrow> u32 \<Rightarrow> nat \<Rightarrow> valtype list \<Rightarrow> nat \<Rightarrow> script \<Rightarrow> nat \<times> script" where
  "SignN_loop ssl keystore hash nHashType nRequired [] nSigned scriptSigRet = (nSigned, scriptSigRet)"
| "SignN_loop ssl keystore hash nHashType nRequired (pubkey # pubkeys) nSigned scriptSigRet =
     (if nSigned < nRequired then
        let (ok, scriptSigRet) = Sign1 ssl (pk_GetID ssl (mk_pubkey pubkey)) keystore hash nHashType scriptSigRet
        in SignN_loop ssl keystore hash nHashType nRequired pubkeys (if ok then nSigned + 1 else nSigned) scriptSigRet
      else (nSigned, scriptSigRet))"

definition SignN :: "openssl \<Rightarrow> valtype list \<Rightarrow> CBasicKeyStore \<Rightarrow> base_uint \<Rightarrow> u32 \<Rightarrow> script \<Rightarrow> bool \<times> script" where
  "SignN ssl multisigdata keystore hash nHashType scriptSigRet =
     (let nRequired = unat (hd (hd multisigdata));
          (nSigned, scriptSigRet) =
            SignN_loop ssl keystore hash nHashType nRequired (butlast (tl multisigdata)) 0 scriptSigRet
      in (nSigned = nRequired, scriptSigRet))"

definition Solver_sign ::
  "openssl \<Rightarrow> CBasicKeyStore \<Rightarrow> script \<Rightarrow> base_uint \<Rightarrow> u32 \<Rightarrow> (bool \<times> txnouttype \<times> script) result" where
  "Solver_sign ssl keystore scriptPubKey hash nHashType =
     (let (solved, whichType, vSolutions) = Solver scriptPubKey
      in if \<not> solved then Inr (False, whichType, [])
      else case whichType of
        TX_NONSTANDARD \<Rightarrow> Inr (False, whichType, [])
      | TX_NULL_DATA \<Rightarrow> Inr (False, whichType, [])
      | TX_PUBKEY \<Rightarrow>
          let (ok, sig) = Sign1 ssl (pk_GetID ssl (mk_pubkey (vSolutions ! 0))) keystore hash nHashType []
          in Inr (ok, whichType, sig)
      | TX_PUBKEYHASH \<Rightarrow>
          let keyID = bu_of_vch 5 (vSolutions ! 0);
              (ok, sig) = Sign1 ssl keyID keystore hash nHashType []
          in if \<not> ok then Inr (False, whichType, sig)
             else rbind (GetPubKey ssl keystore keyID) (\<lambda>vch.
                  rbind (push_pubkey sig (case vch of None \<Rightarrow> invalid_pubkey | Some vch \<Rightarrow> vch)) (\<lambda>sig.
                    Inr (True, whichType, sig)))
      | TX_SCRIPTHASH \<Rightarrow>
          (case GetCScript keystore (bu_of_vch 5 (vSolutions ! 0)) of
             None \<Rightarrow> Inr (False, whichType, [])
           | Some subscript \<Rightarrow> Inr (True, whichType, subscript))
      | TX_MULTISIG \<Rightarrow>
          let (ok, sig) = SignN ssl vSolutions keystore hash nHashType (push_opcode [] OP_0)
          in Inr (ok, whichType, sig))"

definition set_scriptSig :: "nat \<Rightarrow> script \<Rightarrow> CTransaction \<Rightarrow> CTransaction" where
  "set_scriptSig i s tx = tx\<lparr>tx_vin := (tx_vin tx)[i := (tx_vin tx ! i)\<lparr>ti_scriptSig := s\<rparr>]\<rparr>"

text \<open>The answer comes with the transaction, in which the script of the input is set even on failure.\<close>

definition SignSignature ::
  "sig_env \<Rightarrow> CBasicKeyStore \<Rightarrow> script \<Rightarrow> CTransaction \<Rightarrow> u32 \<Rightarrow> u32 \<Rightarrow> CSignatureCache
     \<Rightarrow> (bool \<times> CTransaction) result \<times> CSignatureCache" where
  "SignSignature env keystore fromPubKey txTo nIn nHashType c =
     (let ssl = se_ssl env; i = unat nIn;
          verify = (\<lambda>scriptSig txTo.
            let (r, c) = VerifyScript env scriptSig fromPubKey txTo nIn (SCRIPT_VERIFY_P2SH OR SCRIPT_VERIFY_STRICTENC) 0 c
            in (rbind r (\<lambda>ok. Inr (ok, txTo)), c))
      in if \<not> i < length (tx_vin txTo) then (Inl AssertFailed, c)
      else case Solver_sign ssl keystore fromPubKey (SignatureHash ssl fromPubKey txTo nIn nHashType) nHashType of
        Inl e \<Rightarrow> (Inl e, c)
      | Inr (solved, whichType, scriptSig) \<Rightarrow>
          let txTo = set_scriptSig i scriptSig txTo
          in if \<not> solved then (Inr (False, txTo), c)
          else if whichType = TX_SCRIPTHASH then
            let subscript = scriptSig
            in (case Solver_sign ssl keystore subscript (SignatureHash ssl subscript txTo nIn nHashType) nHashType of
                  Inl e \<Rightarrow> (Inl e, c)
                | Inr (solved, subType, scriptSig) \<Rightarrow>
                    let fSolved = (solved \<and> subType \<noteq> TX_SCRIPTHASH);
                        scriptSig = push_data scriptSig subscript;
                        txTo = set_scriptSig i scriptSig txTo
                    in if \<not> fSolved then (Inr (False, txTo), c) else verify scriptSig txTo)
          else verify scriptSig txTo)"

definition SignSignature_from ::
  "sig_env \<Rightarrow> CBasicKeyStore \<Rightarrow> CTransaction \<Rightarrow> CTransaction \<Rightarrow> u32 \<Rightarrow> u32 \<Rightarrow> CSignatureCache
     \<Rightarrow> (bool \<times> CTransaction) result \<times> CSignatureCache" where
  "SignSignature_from env keystore txFrom txTo nIn nHashType c =
     (if \<not> unat nIn < length (tx_vin txTo) then (Inl AssertFailed, c)
      else let n = unat (op_n (ti_prevout (tx_vin txTo ! unat nIn)))
      in if \<not> n < length (tx_vout txFrom) then (Inl AssertFailed, c)
      else SignSignature env keystore (to_scriptPubKey (tx_vout txFrom ! n)) txTo nIn nHashType c)"

section \<open>Combining partial signatures\<close>

text \<open>\<open>std::set<valtype>\<close>, in the order of its elements.\<close>

fun vch_insert :: "valtype \<Rightarrow> valtype list \<Rightarrow> valtype list" where
  "vch_insert v [] = [v]"
| "vch_insert v (w # ws) =
     (if bytes_less v w then v # w # ws else if bytes_less w v then w # vch_insert v ws else w # ws)"

text \<open>The first key without a signature that the signature fits.\<close>

fun match_sig :: "checker \<Rightarrow> script \<Rightarrow> valtype \<Rightarrow> valtype list \<Rightarrow> (valtype \<rightharpoonup> valtype) \<Rightarrow> CSignatureCache
     \<Rightarrow> (valtype \<rightharpoonup> valtype) \<times> CSignatureCache" where
  "match_sig chk scriptPubKey sig [] sigs c = (sigs, c)"
| "match_sig chk scriptPubKey sig (pubkey # pubkeys) sigs c =
     (if sigs pubkey \<noteq> None then match_sig chk scriptPubKey sig pubkeys sigs c
      else let (ok, c) = chk sig pubkey scriptPubKey c
           in if ok then (sigs(pubkey \<mapsto> sig), c) else match_sig chk scriptPubKey sig pubkeys sigs c)"

fun match_sigs :: "checker \<Rightarrow> script \<Rightarrow> valtype list \<Rightarrow> valtype list \<Rightarrow> (valtype \<rightharpoonup> valtype) \<Rightarrow> CSignatureCache
     \<Rightarrow> (valtype \<rightharpoonup> valtype) \<times> CSignatureCache" where
  "match_sigs chk scriptPubKey [] pubkeys sigs c = (sigs, c)"
| "match_sigs chk scriptPubKey (sig # allsigs) pubkeys sigs c =
     (let (sigs, c) = match_sig chk scriptPubKey sig pubkeys sigs c
      in match_sigs chk scriptPubKey allsigs pubkeys sigs c)"

fun merge_sigs :: "(valtype \<rightharpoonup> valtype) \<Rightarrow> nat \<Rightarrow> valtype list \<Rightarrow> nat \<Rightarrow> script \<Rightarrow> nat \<times> script" where
  "merge_sigs sigs nSigsRequired [] nSigsHave result = (nSigsHave, result)"
| "merge_sigs sigs nSigsRequired (pubkey # pubkeys) nSigsHave result =
     (if nSigsHave < nSigsRequired then
        (case sigs pubkey of
           None \<Rightarrow> merge_sigs sigs nSigsRequired pubkeys nSigsHave result
         | Some sig \<Rightarrow> merge_sigs sigs nSigsRequired pubkeys (nSigsHave + 1) (push_data result sig))
      else (nSigsHave, result))"

definition CombineMultisig ::
  "sig_env \<Rightarrow> script \<Rightarrow> CTransaction \<Rightarrow> u32 \<Rightarrow> valtype list \<Rightarrow> valtype list \<Rightarrow> valtype list \<Rightarrow> CSignatureCache
     \<Rightarrow> script result \<times> CSignatureCache" where
  "CombineMultisig env scriptPubKey txTo nIn vSolutions sigs1 sigs2 c =
     (let allsigs = fold vch_insert (filter (\<lambda>v. v \<noteq> []) sigs2) (fold vch_insert (filter (\<lambda>v. v \<noteq> []) sigs1) [])
      in if \<not> length vSolutions > 1 then (Inl AssertFailed, c)
      else let nSigsRequired = unat (hd (hd vSolutions)); pubkeys = butlast (tl vSolutions);
               (sigs, c) = match_sigs (\<lambda>sig pk code c. CheckSig env sig pk code txTo nIn 0 0 c) scriptPubKey
                 allsigs pubkeys (\<lambda>_. None) c;
               (nSigsHave, result) = merge_sigs sigs nSigsRequired pubkeys 0 (push_opcode [] OP_0)
           in (Inr (result @ replicate (nSigsRequired - nSigsHave) OP_0), c))"

text \<open>The vectors are in the order of the code: their back is the top of the stack.\<close>

function CombineSignatures_typ ::
  "sig_env \<Rightarrow> script \<Rightarrow> CTransaction \<Rightarrow> u32 \<Rightarrow> txnouttype \<Rightarrow> valtype list \<Rightarrow> valtype list \<Rightarrow> valtype list \<Rightarrow> CSignatureCache
     \<Rightarrow> script result \<times> CSignatureCache" where
  "CombineSignatures_typ env scriptPubKey txTo nIn txType vSolutions sigs1 sigs2 c =
     (case txType of
        TX_NONSTANDARD \<Rightarrow> (Inr (if length sigs1 \<ge> length sigs2 then PushAll sigs1 else PushAll sigs2), c)
      | TX_NULL_DATA \<Rightarrow> (Inr (if length sigs1 \<ge> length sigs2 then PushAll sigs1 else PushAll sigs2), c)
      | TX_PUBKEY \<Rightarrow> (Inr (if sigs1 = [] \<or> hd sigs1 = [] then PushAll sigs2 else PushAll sigs1), c)
      | TX_PUBKEYHASH \<Rightarrow> (Inr (if sigs1 = [] \<or> hd sigs1 = [] then PushAll sigs2 else PushAll sigs1), c)
      | TX_SCRIPTHASH \<Rightarrow>
          if sigs1 = [] \<or> last sigs1 = [] then (Inr (PushAll sigs2), c)
          else if sigs2 = [] \<or> last sigs2 = [] then (Inr (PushAll sigs1), c)
          else let spk = last sigs1; (solved, txType2, vSolutions2) = Solver spk;
                   (r, c) = CombineSignatures_typ env spk txTo nIn txType2 vSolutions2 (butlast sigs1) (butlast sigs2) c
               in (rbind r (\<lambda>result. Inr (push_data result spk)), c)
      | TX_MULTISIG \<Rightarrow> CombineMultisig env scriptPubKey txTo nIn vSolutions sigs1 sigs2 c)"
  by pat_completeness auto
termination by (relation "measure (\<lambda>(env, s, tx, n, t, v, sigs1, sigs2, c). length sigs1)") auto

declare CombineSignatures_typ.simps [simp del]

definition CombineSignatures ::
  "sig_env \<Rightarrow> script \<Rightarrow> CTransaction \<Rightarrow> u32 \<Rightarrow> script \<Rightarrow> script \<Rightarrow> CSignatureCache \<Rightarrow> script result \<times> CSignatureCache" where
  "CombineSignatures env scriptPubKey txTo nIn scriptSig1 scriptSig2 c =
     (let (solved, txType, vSolutions) = Solver scriptPubKey;
          (r1, stack1, c) = EvalScript env [] scriptSig1 null_tx 0 SCRIPT_VERIFY_STRICTENC 0 c;
          (r2, stack2, c) = EvalScript env [] scriptSig2 null_tx 0 SCRIPT_VERIFY_STRICTENC 0 c
      in CombineSignatures_typ env scriptPubKey txTo nIn txType vSolutions (rev stack1) (rev stack2) c)"

section \<open>Signatures are canonical\<close>

lemma mpi_positive:
  assumes "mpi_minimal R" "0 < mpi_value R" "mpi_value R < secp256k1_order"
  shows "R \<noteq> []" "length R \<le> 33" "R ! 0 AND 0x80 = 0" "length R > 1 \<longrightarrow> R ! 0 = 0 \<longrightarrow> R ! 1 AND 0x80 \<noteq> 0"
proof -
  show ne: "R \<noteq> []" using assms(2) by (auto simp: mpi_value_def)
  have "\<bar>mpi_value R\<bar> < 256 ^ 32" using assms(2,3) by (simp add: secp256k1_order_def)
  from mpi_minimal_length [OF assms(1) this] show "length R \<le> 33" by simp
  obtain b bs where R: "R = b # bs" using ne by (cases R) auto
  have "\<not> bit b 7"
  proof
    assume "bit b 7"
    then have "mpi_value R = - int (unat b mod 128 * 256 ^ length bs + be_value bs)" by (simp add: R del: of_nat_add of_nat_mult)
    then show False using assms(2) by linarith
  qed
  then show "R ! 0 AND 0x80 = 0" using byte_sign [of b] by (simp add: R)
  show "length R > 1 \<longrightarrow> R ! 0 = 0 \<longrightarrow> R ! 1 AND 0x80 \<noteq> 0"
  proof (intro impI)
    assume "length R > 1" "R ! 0 = 0"
    then obtain c cs where "R = 0 # c # cs" using R by (cases bs) auto
    then show "R ! 1 AND 0x80 \<noteq> 0" using assms(1) byte_sign [of c] by simp
  qed
qed

lemma canonical_signature:
  assumes "mpi_minimal R" "0 < mpi_value R" "mpi_value R < secp256k1_order"
    and "mpi_minimal S" "0 < mpi_value S" "mpi_value S < secp256k1_order"
    and "t AND NOT (ucast SIGHASH_ANYONECANPAY) \<in> {1, 2, 3}" "flags AND SCRIPT_VERIFY_EVEN_S = 0"
  shows "IsCanonicalSignature (der_of R S @ [t]) flags"
proof -
  note R = mpi_positive [OF assms(1-3)] and S = mpi_positive [OF assms(4-6)]
  have l: "0 < length R" "0 < length S" using R(1) S(1) by auto
  have l': "unat (of_nat (length R) :: byte) = length R" "unat (of_nat (length S) :: byte) = length S"
    "unat (of_nat (length R + length S + 4) :: byte) = length R + length S + 4"
    using R(2) S(2) by (simp_all add: unat_of_nat del: of_nat_add)
  have nth: "(der_of R S @ [t]) ! 0 = 0x30" "(der_of R S @ [t]) ! 1 = of_nat (length R + length S + 4)"
    "(der_of R S @ [t]) ! 2 = 2" "(der_of R S @ [t]) ! 3 = of_nat (length R)"
    "(der_of R S @ [t]) ! (4 + length R) = 2" "(der_of R S @ [t]) ! (5 + length R) = of_nat (length S)"
    "drop 4 (der_of R S @ [t]) ! 0 = R ! 0" "length R > 1 \<Longrightarrow> drop 4 (der_of R S @ [t]) ! 1 = R ! 1"
    "drop (6 + length R) (der_of R S @ [t]) ! 0 = S ! 0"
    "length S > 1 \<Longrightarrow> drop (6 + length R) (der_of R S @ [t]) ! 1 = S ! 1"
    using l by (simp_all add: der_of_def nth_append del: of_nat_add)
  define u where "u = t AND NOT (ucast SIGHASH_ANYONECANPAY)"
  have len: "length (der_of R S @ [t]) = length R + length S + 7" "last (der_of R S @ [t]) = t"
    by (simp_all add: der_of_def)
  have ht: "\<not> u < ucast SIGHASH_ALL" "\<not> u > ucast SIGHASH_SINGLE"
    using assms(7) by (auto simp: u_def SIGHASH_ALL_def SIGHASH_SINGLE_def)
  have small: "(length R + length S < 2) = False" using l by (cases R; cases S) simp_all
  show ?thesis
    unfolding IsCanonicalSignature_def Let_def len u_def [symmetric] l'(1,2) nth(1-6) l'(3)
    using l R(2-4) S(2-4) assms(8) ht nth(7-10) l'(1,2) by (auto simp: small)
qed

section \<open>Signatures made by a key verify\<close>

lemma key_Check_range:
  assumes "length v = 32"
  shows "key_Check v \<longleftrightarrow> 0 < int (be_value v) \<and> int (be_value v) < secp256k1_order"
  using key_Check_value [OF assms] by (simp add: secp256k1_order_def)

lemma key_Sign_verifies:
  assumes ssl: "ecdsa_ok ssl" "openssl_ok ssl" and k: "k_fValid k" "key_Check (k_vch k)" "length (k_vch k) = 32"
    and pk: "key_GetPubKey ssl k = Inr pk"
  shows "\<exists>sig. key_Sign ssl k hash = Some sig \<and> pk_Verify ssl (mk_pubkey (pk_bytes pk)) hash sig \<and>
    (\<forall>t flags. t AND NOT (ucast SIGHASH_ANYONECANPAY) \<in> {1, 2, 3} \<longrightarrow> flags AND SCRIPT_VERIFY_EVEN_S = 0 \<longrightarrow>
      IsCanonicalSignature (sig @ [t]) flags) \<and>
    9 \<le> length sig + 1 \<and> length sig \<le> 72 \<and> hd sig = 0x30"
proof -
  define d where "d = int (be_value (k_vch k))"
  have d: "0 < d" "d < secp256k1_order" using k(2) key_Check_range [OF k(3)] by (simp_all add: d_def)
  have bn: "BN_bin2bn ssl (k_vch k) = d" using ssl(2) by (simp add: openssl_ok_def bignum_ok_def d_def)
  obtain r s where rs: "ECDSA_do_sign ssl (bu_bytes hash) d = Some (r, s)"
    "0 < r" "r < secp256k1_order" "0 < s" "s < secp256k1_order"
    and ver: "\<And>s'. s' \<in> {s, secp256k1_order - s} \<Longrightarrow>
        ECDSA_verify ssl (bu_bytes hash) (i2d_ECDSA_SIG ssl (r, s')) (EC_POINT_mul ssl (Some d) None)"
    using ssl(1) d unfolding ecdsa_ok_def by metis
  define s' where "s' = (if s > EC_order ssl div 2 then EC_order ssl - s else s)"
  have ord: "EC_order ssl = secp256k1_order" using ssl(1) by (simp add: ecdsa_ok_def)
  have s': "s' \<in> {s, secp256k1_order - s}" "0 < s'" "s' < secp256k1_order"
    using rs by (auto simp: s'_def ord)
  have sig: "key_Sign ssl k hash = Some (i2d_ECDSA_SIG ssl (r, s'))"
    using k(1) rs(1) by (simp add: key_Sign_def bn Let_def s'_def)
  obtain R S where RS: "i2d_ECDSA_SIG ssl (r, s') = der_of R S" "mpi_minimal R" "mpi_value R = r" "mpi_minimal S" "mpi_value S = s'"
    using ssl(1) rs(2,3) s'(2,3) unfolding ecdsa_ok_def by metis
  have pos: "R \<noteq> []" "S \<noteq> []" "length R \<le> 33" "length S \<le> 33"
    using mpi_positive [of R] mpi_positive [of S] RS rs s' by simp_all
  define b where "b = i2o_ECPublicKey ssl (regenerate_key ssl (k_vch k)) (k_fCompressed k)"
  have b: "b \<noteq> []" "length b = (if k_fCompressed k then 33 else 65)" "hd b \<in> (if k_fCompressed k then {2, 3} else {4})"
    using ssl(2) k bn unfolding openssl_ok_def regenerate_key_def b_def d_def Let_def by metis+
  have g: "GetLen (hd b) = length b" using b by (auto simp: GetLen_def split: if_splits)
  have pkb: "pk_bytes pk = b"
    using pk pk_Set_invalid [OF b(1) g, of invalid_pubkey] k(1) b
    by (auto simp: key_GetPubKey_def eckey_GetPubKey_def b_def Let_def result_simps split: if_splits)
  have o2i: "o2i_ECPublicKey ssl b = Some (EC_POINT_mul ssl (Some d) None)"
    using ssl(1) d unfolding ecdsa_ok_def b_def regenerate_key_def bn by blast
  have "pk_Verify ssl (mk_pubkey b) hash (i2d_ECDSA_SIG ssl (r, s'))"
    using pk_bytes_mk_pubkey [OF b(1) g] pk_size_mk_pubkey [OF b(1) g] b(1) o2i ver [OF s'(1)]
    by (simp add: pk_Verify_def pk_IsValid_def)
  moreover have "IsCanonicalSignature (der_of R S @ [t]) flags" if "t AND NOT (ucast SIGHASH_ANYONECANPAY) \<in> {1, 2, 3}" "flags AND SCRIPT_VERIFY_EVEN_S = 0" for t flags
    using RS rs s' that by (intro canonical_signature) simp_all
  moreover have "8 \<le> length (der_of R S)" "length (der_of R S) \<le> 72" "hd (der_of R S) = 0x30"
    using pos by (simp_all add: der_of_def Suc_le_eq [symmetric] flip: length_greater_0_conv)
  ultimately show ?thesis using sig RS(1) pkb by auto
qed

text \<open>The hash types, as they are appended to a signature.\<close>

definition hash_types :: "u32 set" where
  "hash_types = {1, 2, 3, 0x81, 0x82, 0x83}"

lemma hash_type_byte:
  assumes "t \<in> hash_types"
  shows "(ucast t :: byte) AND NOT (ucast SIGHASH_ANYONECANPAY) \<in> {1, 2, 3}" "ucast (ucast t :: byte) = t"
  using assms by (auto simp: hash_types_def SIGHASH_ANYONECANPAY_def)

section \<open>Deleting a signature from a script without signatures\<close>

lemma FindAndDelete_loop_Nil: "b \<noteq> [] \<Longrightarrow> FindAndDelete_loop b [] n = ([], n)"
  by (simp add: FindAndDelete_loop.simps [of b "[]"] strip_prefix.simps [of b "[]"])

lemma FindAndDelete_skip:
  assumes "b \<noteq> []" "take (length b) (pre @ pc) \<noteq> b" "GetOp2 (pre @ pc) = (True, opcode, vch, pc)"
    and "FindAndDelete_loop b pc n = (pc, n)"
  shows "FindAndDelete_loop b (pre @ pc) n = (pre @ pc, n)"
  using assms by (subst FindAndDelete_loop.simps) (simp add: strip_prefix.simps [of b "pre @ pc"])

text \<open>The script of a multi-signature.\<close>

definition multisig_code :: "nat \<Rightarrow> valtype list \<Rightarrow> script" where
  "multisig_code m vs = of_nat (80 + m) # concat (map (\<lambda>v. of_nat (length v) # v) vs) @ [of_nat (80 + length vs), OP_CHECKMULTISIG]"

lemma small_op_big: "1 \<le> n \<Longrightarrow> n \<le> 16 \<Longrightarrow> OP_PUSHDATA4 < (of_nat (80 + n) :: byte)" for n
  by (simp add: word_less_nat_alt unat_of_nat unat_word_ariths del: of_nat_add)

lemma multisig_code_absent:
  assumes m: "1 \<le> m" "m \<le> 16" and vs: "1 \<le> length vs" "length vs \<le> 16"
    and keys: "\<forall>v \<in> set vs. (length v = 33 \<or> length v = 65) \<and> hd v \<noteq> x"
    and b: "b = of_nat L # x # b'" "L < 76"
  shows "FindAndDelete_loop b (multisig_code m vs) n = (multisig_code m vs, n)"
proof -
  note of_nat_add [simp del]
  have ne: "of_nat (80 + k) \<noteq> (of_nat L :: byte)" if "k \<le> 16" for k
    using that b(2) by (simp add: word_unat_eq_iff unat_of_nat)
  have cm: "OP_CHECKMULTISIG \<noteq> (of_nat L :: byte)"
    using b(2) by (simp add: word_unat_eq_iff unat_of_nat)
  have bne: "b \<noteq> []" using b(1) by simp
  have b0: "take (length b) (y # z) \<noteq> b" if "y \<noteq> of_nat L" for y z using that b(1) by auto
  have e: "FindAndDelete_loop b [OP_CHECKMULTISIG] n = ([OP_CHECKMULTISIG], n)"
    using FindAndDelete_skip [of b "[OP_CHECKMULTISIG]" "[]" OP_CHECKMULTISIG "[]" n] bne b0 cm FindAndDelete_loop_Nil [of b n] by simp
  have last: "FindAndDelete_loop b [of_nat (80 + length vs), OP_CHECKMULTISIG] n = ([of_nat (80 + length vs), OP_CHECKMULTISIG], n)"
    using FindAndDelete_skip [of b "[of_nat (80 + length vs)]" "[OP_CHECKMULTISIG]" "of_nat (80 + length vs)" "[]" n] bne b0 ne vs e
      GetOp2_opcode [OF small_op_big [of "length vs"], of "[OP_CHECKMULTISIG]"] by simp
  have "FindAndDelete_loop b (concat (map (\<lambda>v. of_nat (length v) # v) ws) @ [of_nat (80 + length vs), OP_CHECKMULTISIG]) n
      = (concat (map (\<lambda>v. of_nat (length v) # v) ws) @ [of_nat (80 + length vs), OP_CHECKMULTISIG], n)"
    if "set ws \<subseteq> set vs" "length ws \<le> 16" for ws
    using that
  proof (induction ws)
    case (Cons v ws)
    let ?rest = "concat (map (\<lambda>v. of_nat (length v) # v) ws) @ [of_nat (80 + length vs), OP_CHECKMULTISIG]"
    have v: "length v = 33 \<or> length v = 65" "hd v \<noteq> x" using Cons(2) keys by auto
    have "length ?rest < 16 * 66 + 10"
    proof -
      have "(\<Sum>w\<leftarrow>ws. Suc (length w)) \<le> (\<Sum>w\<leftarrow>ws. 66)"
        using Cons(2) keys by (intro sum_list_mono) fastforce
      then show ?thesis using Cons(3) by (simp add: length_concat comp_def sum_list_triv)
    qed
    then have g: "GetOp2 ((of_nat (length v) # v) @ ?rest) = (True, of_nat (length v), v, ?rest)"
      using GetOp2_direct [of v "length v" ?rest] v(1) by auto
    obtain y ys where y: "v = y # ys" using v(1) by (cases v) auto
    then have "y \<noteq> x" using v(2) by simp
    then have "take (length b) ((of_nat (length v) # v) @ ?rest) \<noteq> b" using b(1) by (auto simp: y)
    from FindAndDelete_skip [OF _ this g] Cons b(1) show ?case by simp
  qed (use last in simp)
  from this [of vs] have "FindAndDelete_loop b (concat (map (\<lambda>v. of_nat (length v) # v) vs) @ [of_nat (80 + length vs), OP_CHECKMULTISIG]) n
      = (concat (map (\<lambda>v. of_nat (length v) # v) vs) @ [of_nat (80 + length vs), OP_CHECKMULTISIG], n)" using vs by simp
  with FindAndDelete_skip [of b "[of_nat (80 + m)]" _ "of_nat (80 + m)" "[]" n] bne b0 ne m GetOp2_opcode [OF small_op_big [of m]] show ?thesis
    by (simp add: multisig_code_def)
qed

section \<open>Running a multi-signature script\<close>

lemma small_number:
  assumes "bignum_ok ssl" "n \<le> 16"
  shows "length (getvch ssl (int n)) \<le> 2" "CastToBigNum ssl (getvch ssl (int n)) = Inr (int n)" "getint (int n) = int n"
proof -
  have "(256 :: int) ^ 1 < 256 ^ 1000" by (rule power_strict_increasing) auto
  moreover have "\<bar>int n\<bar> < 256 ^ 1" using assms(2) by simp
  ultimately have n: "\<bar>int n\<bar> < 256 ^ 1000" by (rule order_less_trans [rotated])
  have "length (rev (getvch ssl (int n))) \<le> 1 + 1"
    using getvch_value [OF assms(1) n] assms(2) by (intro mpi_minimal_length) simp_all
  then show l: "length (getvch ssl (int n)) \<le> 2" by simp
  show "CastToBigNum ssl (getvch ssl (int n)) = Inr (int n)"
    using l setvch_getvch [OF assms(1) n] by (simp add: CastToBigNum_def nMaxNumSize_def)
  show "getint (int n) = int n" using assms(2) by (simp add: getint_value INT_MAX_def)
qed

lemma op_number_small:
  assumes "bignum_ok ssl" "1 \<le> n" "n \<le> 16"
  shows "op_number ssl (of_nat (80 + n)) s = set_stack (getvch ssl (int n) # i_stack s) s"
proof -
  have "uint (of_nat (80 + n) :: byte) = 80 + int n" using assms(2,3) by (simp add: uint_nat unat_of_nat del: of_nat_add)
  then have "of_int (uint (of_nat (80 + n) :: byte) - uint (OP_1 - 1)) = (of_nat n :: u64)" by simp
  moreover have "CBigNum_of_long ssl (of_nat n) = int n"
  proof -
    have "sint (of_nat n :: u64) = int n" using assms(3) by (simp add: sint_uint uint_nat unat_of_nat signed_take_bit_int_eq_self)
    then show ?thesis using assms by (simp add: CBigNum_of_long_def setint64_value setulong_def uint_nat unat_of_nat)
  qed
  ultimately show ?thesis by (simp add: op_number_def del: of_nat_add)
qed

lemma eval_number:
  assumes "bignum_ok ssl" "1 \<le> n" "n \<le> 16" "i_vfExec s = []" "length (i_stack s) + length (i_altstack s) < 1000"
  shows "eval_loop ssl chk flags (of_nat (80 + n) # pc) s = eval_loop ssl chk flags pc (s\<lparr>i_stack := getvch ssl (int n) # i_stack s\<rparr>)"
proof (rule eval_loop_step [OF GetOp2_opcode [OF small_op_big [OF assms(2,3)]]])
  have u: "unat (of_nat (80 + n) :: byte) = 80 + n" using assms(3) by (simp add: unat_of_nat del: of_nat_add)
  have op: "\<not> of_nat (80 + n) > OP_16" "OP_1 \<le> of_nat (80 + n)" "of_nat (80 + n) \<le> OP_16" "\<not> of_nat (80 + n) \<le> OP_PUSHDATA4"
    using assms(2,3) u by (simp_all add: word_less_nat_alt word_le_nat_alt del: of_nat_add)
  then have "\<not> disabled_op (of_nat (80 + n))" by (auto simp: disabled_op_def simp del: of_nat_add)
  with op assms(4,5) show "eval_instr ssl chk flags (of_nat (80 + n)) [] pc s = (True, s\<lparr>i_stack := getvch ssl (int n) # i_stack s\<rparr>)"
    by (simp add: eval_instr_def Let_def dispatch_def count_op_def exec_op_def op_number_small [OF assms(1-3)] step_defs
        MAX_SCRIPT_ELEMENT_SIZE_def del: of_nat_add)
qed

lemma eval_keys:
  assumes "\<forall>v \<in> set vs. length v \<le> 75" "i_vfExec s = []" "length (i_stack s) + length (i_altstack s) + length vs \<le> 1000"
    and "length (concat vs @ pc) < 2 ^ 32 - length vs"
  shows "eval_loop ssl chk flags (concat (map (\<lambda>v. of_nat (length v) # v) vs) @ pc) s =
    eval_loop ssl chk flags pc (s\<lparr>i_stack := rev vs @ i_stack s\<rparr>)"
  using assms
proof (induction vs arbitrary: s)
  case (Cons v vs)
  let ?rest = "concat (map (\<lambda>v. of_nat (length v) # v) vs) @ pc"
  have d: "push_data [] v @ ?rest = of_nat (length v) # v @ ?rest" using Cons(2) by (simp add: push_data_def)
  have "length ?rest = length (concat vs) + length vs + length pc" by (induction vs) simp_all
  then have "eval_loop ssl chk flags (push_data [] v @ ?rest) s = eval_loop ssl chk flags ?rest (s\<lparr>i_stack := v # i_stack s\<rparr>)"
    using Cons by (intro eval_push) simp_all
  also have "\<dots> = eval_loop ssl chk flags pc (s\<lparr>i_stack := rev vs @ v # i_stack s\<rparr>)"
    using Cons by (subst Cons.IH) simp_all
  finally show ?case by (simp add: d)
qed simp

text \<open>The signatures of a list that fit keys in order, with their script code.\<close>

definition fits :: "(data \<Rightarrow> data \<Rightarrow> script \<Rightarrow> bool) \<Rightarrow> u32 \<Rightarrow> script \<Rightarrow> valtype list \<Rightarrow> valtype list \<Rightarrow> bool" where
  "fits valid flags code sigs keys \<longleftrightarrow>
     (\<exists>ks. subseq ks keys \<and>
        list_all2 (\<lambda>s p. IsCanonicalSignature s flags \<and> IsCanonicalPubKey p flags \<and> valid s p code) sigs ks)"

lemma subseq_rev: "subseq ks keys \<Longrightarrow> subseq (rev ks) (rev keys)"
proof (induction rule: list_emb.induct)
  case (list_emb_Cons xs ys y)
  then show ?case by (simp add: subseq_rev_drop_many)
next
  case (list_emb_Cons2 x y xs ys)
  then show ?case by (simp add: list_emb_append_mono)
qed simp

lemma fits_rev: "fits valid flags code sigs keys \<Longrightarrow> fits valid flags code (rev sigs) (rev keys)"
proof -
  assume "fits valid flags code sigs keys"
  then obtain ks where "subseq ks keys"
    "list_all2 (\<lambda>s p. IsCanonicalSignature s flags \<and> IsCanonicalPubKey p flags \<and> valid s p code) sigs ks"
    by (auto simp: fits_def)
  then show ?thesis unfolding fits_def by (intro exI [of _ "rev ks"]) (simp add: subseq_rev)
qed

lemma multisig_loop_fits:
  "fst (multisig_loop (check_canonical (pure_checker valid) flags) code sigs keys c) \<longleftrightarrow> fits valid flags code sigs keys"
  unfolding sig_checker.multisig_greedy [OF sig_checker.canonical [OF pure_sig_checker] TrueI] fits_def ..

text \<open>The stack of a multi-signature check: keys and signatures, the last ones on top, above the dummy.\<close>

lemma op_checkmultisig_many:
  assumes "bignum_ok ssl" "1 \<le> length sigs" "length sigs \<le> length vs" "length vs \<le> 16" "0 \<le> i_nOpCount s" "i_nOpCount s \<le> 100"
    and "i_stack s = getvch ssl (int (length vs)) # rev vs @ getvch ssl (int (length sigs)) # rev sigs @ x # st"
    and code: "\<forall>sig \<in> set sigs. fst (FindAndDelete (i_codehash s) (push_data [] sig)) = i_codehash s"
  shows "\<exists>s'. op_checkmultisig ssl (pure_checker valid) flags OP_CHECKMULTISIG s = (True, s') \<and> i_vfExec s' = i_vfExec s \<and>
    i_altstack s' = i_altstack s \<and> i_stack s' = vch_bool (fits valid flags (i_codehash s) (rev sigs) (rev vs)) # st"
proof -
  let ?st = "i_stack s" and ?n = "length vs" and ?m = "length sigs"
  have st: "?st ! 0 = getvch ssl (int ?n)" "?st ! (1 + ?n) = getvch ssl (int ?m)" "take ?n (drop 1 ?st) = rev vs"
    "take ?m (drop (2 + ?n) ?st) = rev sigs" "drop (3 + ?n + ?m) ?st = st" "length ?st = ?n + ?m + 3 + length st"
    using assms(7) by (simp_all add: nth_append numeral_eq_Suc)
  have num: "CastToBigNum ssl (getvch ssl (int ?n)) = Inr (int ?n)" "getint (int ?n) = int ?n"
    "CastToBigNum ssl (getvch ssl (int ?m)) = Inr (int ?m)" "getint (int ?m) = int ?m"
    using small_number [OF assms(1), of ?n] small_number [OF assms(1), of ?m] assms(3,4) by simp_all
  have fold: "foldl (\<lambda>code vchSig. fst (FindAndDelete code (push_data [] vchSig))) (i_codehash s) ss = i_codehash s"
    if "set ss \<subseteq> set sigs" for ss
    using that code by (induction ss) simp_all
  obtain b c where m: "multisig_loop (check_canonical (pure_checker valid) flags) (i_codehash s) (rev sigs) (rev vs) (i_cache s) = (b, c)"
    by fastforce
  then have b: "b \<longleftrightarrow> fits valid flags (i_codehash s) (rev sigs) (rev vs)"
    using multisig_loop_fits [of valid flags "i_codehash s" "rev sigs" "rev vs" "i_cache s"] by simp
  have "\<not> length ?st < 1" "\<not> length ?st < 2 + ?n" "\<not> length ?st < 3 + ?n + ?m" using st(6) assms(2) by auto
  then have "op_checkmultisig ssl (pure_checker valid) flags OP_CHECKMULTISIG s =
      set_stack (vch_bool b # st) (s\<lparr>i_nOpCount := i_nOpCount s + int ?n, i_cache := c\<rparr>)"
    using assms(2-6) m st(3-5) fold [of "rev sigs"]
    by (simp add: op_checkmultisig_def with_num_def Let_def st(1) st(2) [simplified] num push_check_def)
  then show ?thesis by (simp add: step_defs b)
qed

lemma multisig_code_length: "length (concat (map (\<lambda>v. of_nat (length v) # v) vs)) = length (concat vs) + length vs"
  by (induction vs) simp_all

lemma eval_multisig_many:
  assumes "bignum_ok ssl" "1 \<le> length sigs" "length sigs \<le> length vs" "length vs \<le> 16" "\<forall>v \<in> set vs. length v = 33 \<or> length v = 65"
  defines "code \<equiv> multisig_code (length sigs) vs"
  assumes "\<forall>sig \<in> set sigs. fst (FindAndDelete code (push_data [] sig)) = code"
  shows "\<exists>s'. eval_script ssl (pure_checker valid) flags (rev sigs @ [x]) code c = (True, s') \<and>
    i_stack s' = [vch_bool (fits valid flags code (rev sigs) (rev vs))]"
proof -
  let ?n = "length vs" and ?m = "length sigs" and ?chk = "pure_checker valid" and ?keys = "concat (map (\<lambda>v. of_nat (length v) # v) vs)"
  define s0 where "s0 = start code (rev sigs @ [x]) c"
  have lc: "length (concat vs) \<le> 65 * ?n" using assms(5) by (induction vs) auto
  then have len: "length code \<le> 10000" using assms(4) by (simp add: code_def multisig_code_def multisig_code_length)
  have code: "code = of_nat (80 + ?m) # ?keys @ of_nat (80 + ?n) # [OP_CHECKMULTISIG]"
    by (simp add: code_def multisig_code_def)
  have "eval_loop ssl ?chk flags code s0 =
      eval_loop ssl ?chk flags (?keys @ of_nat (80 + ?n) # [OP_CHECKMULTISIG]) (s0\<lparr>i_stack := getvch ssl (int ?m) # rev sigs @ [x]\<rparr>)"
    using assms(2-4) unfolding code by (subst eval_number [OF assms(1)]) (simp_all add: s0_def start_def)
  also have "\<dots> = eval_loop ssl ?chk flags (of_nat (80 + ?n) # [OP_CHECKMULTISIG]) (s0\<lparr>i_stack := rev vs @ getvch ssl (int ?m) # rev sigs @ [x]\<rparr>)"
    using assms(3-5) lc by (subst eval_keys) (auto simp: s0_def start_def)
  also have "\<dots> = eval_loop ssl ?chk flags [OP_CHECKMULTISIG]
      (s0\<lparr>i_stack := getvch ssl (int ?n) # rev vs @ getvch ssl (int ?m) # rev sigs @ [x]\<rparr>)"
    using assms(2-4) by (subst eval_number [OF assms(1)]) (simp_all add: s0_def start_def)
  finally have e: "eval_loop ssl ?chk flags code s0 =
      eval_loop ssl ?chk flags [OP_CHECKMULTISIG] (s0\<lparr>i_stack := getvch ssl (int ?n) # rev vs @ getvch ssl (int ?m) # rev sigs @ [x]\<rparr>)" .
  define s1 where "s1 = count_op OP_CHECKMULTISIG (s0\<lparr>i_stack := getvch ssl (int ?n) # rev vs @ getvch ssl (int ?m) # rev sigs @ [x]\<rparr>)"
  have s1: "i_nOpCount s1 = 1" "i_codehash s1 = code" "i_vfExec s1 = []" "i_altstack s1 = []"
    "i_stack s1 = getvch ssl (int ?n) # rev vs @ getvch ssl (int ?m) # rev sigs @ x # []"
    by (simp_all add: s1_def count_op_def s0_def start_def)
  obtain s' where s': "op_checkmultisig ssl ?chk flags OP_CHECKMULTISIG s1 = (True, s')" "i_vfExec s' = []" "i_altstack s' = []"
    "i_stack s' = [vch_bool (fits valid flags code (rev sigs) (rev vs))]"
    using op_checkmultisig_many [OF assms(1-4) _ _ s1(5), of valid flags] s1(1-4) assms(7) by auto
  have "eval_loop ssl ?chk flags [OP_CHECKMULTISIG] (s0\<lparr>i_stack := getvch ssl (int ?n) # rev vs @ getvch ssl (int ?m) # rev sigs @ [x]\<rparr>) =
      eval_loop ssl ?chk flags [] s'"
    using s'(1,3,4)
    by (intro eval_op) (simp_all add: disabled_op_def exec_op_def s1_def [symmetric], simp_all add: s0_def start_def)
  also have "\<dots> = (True, s')" using s'(2) by (simp add: eval_loop.simps [of _ _ _ "[]"] go_on_def)
  finally show ?thesis using e s'(4) len by (simp add: eval_script_def s0_def)
qed

section \<open>Signing succeeds\<close>

text \<open>The hash that is signed does not depend on the scripts of the inputs.\<close>

lemma SignatureHash_scriptSig:
  assumes "unat nIn < length (tx_vin tx)"
  shows "SignatureHash ssl code (set_scriptSig i s tx) nIn t = SignatureHash ssl code tx nIn t"
proof -
  let ?a = "ss_new (set_scriptSig i s tx) code nIn t" and ?b = "ss_new tx code nIn t"
  have f: "tx_vout (set_scriptSig i s tx) = tx_vout tx" "length (tx_vin (set_scriptSig i s tx)) = length (tx_vin tx)"
    "tx_nVersion (set_scriptSig i s tx) = tx_nVersion tx" "tx_nLockTime (set_scriptSig i s tx) = tx_nLockTime tx"
    by (simp_all add: set_scriptSig_def)
  have inp: "ti_prevout (tx_vin (set_scriptSig i s tx) ! j) = ti_prevout (tx_vin tx ! j)"
    "ti_nSequence (tx_vin (set_scriptSig i s tx) ! j) = ti_nSequence (tx_vin tx ! j)" for j
    by (cases "i < length (tx_vin tx)", simp_all add: set_scriptSig_def nth_list_update list_update_beyond)+
  have code: "SerializeScriptCode ?a = SerializeScriptCode ?b" by (simp add: SerializeScriptCode_def ss_new_def)
  have "SerializeInput ?a n = SerializeInput ?b n" for n
    by (simp add: SerializeInput_def Let_def ss_new_fields code inp)
  moreover have "SerializeOutput ?a n = SerializeOutput ?b n" for n
    by (simp add: SerializeOutput_def ss_new_fields f)
  ultimately have "ss_Serialize ?a = ss_Serialize ?b"
    by (simp add: ss_Serialize_def Let_def ss_new_fields f)
  then show ?thesis using assms by (simp add: SignatureHash_def f)
qed

lemma set_scriptSig_twice: "set_scriptSig i s (set_scriptSig i s' tx) = set_scriptSig i s tx"
  by (cases "i < length (tx_vin tx)") (simp_all add: set_scriptSig_def list_update_beyond)

text \<open>What a store knows of a key: the key is valid and stored under the identifier of its public key.\<close>

definition signs_with :: "openssl \<Rightarrow> CBasicKeyStore \<Rightarrow> CKey \<Rightarrow> CPubKey \<Rightarrow> bool" where
  "signs_with ssl ks k pk \<longleftrightarrow>
     k_fValid k \<and> key_Check (k_vch k) \<and> length (k_vch k) = 32 \<and>
     key_GetPubKey ssl k = Inr pk \<and> GetKey ks (pk_GetID ssl pk) = Some k"

lemma mk_pubkey_GetID:
  assumes "openssl_ok ssl" "signs_with ssl ks k pk"
  shows "pk_GetID ssl (mk_pubkey (pk_bytes pk)) = pk_GetID ssl pk"
    "length (pk_bytes pk) = (if k_fCompressed k then 33 else 65)" "length (pk_bytes pk) = pk_size pk"
    "hd (pk_bytes pk) \<in> (if k_fCompressed k then {2, 3} else {4})"
proof -
  define b where "b = i2o_ECPublicKey ssl (regenerate_key ssl (k_vch k)) (k_fCompressed k)"
  have bn: "BN_bin2bn ssl (k_vch k) = int (be_value (k_vch k))" using assms(1) by (simp add: openssl_ok_def bignum_ok_def)
  have k: "key_Check (k_vch k)" "length (k_vch k) = 32" "k_fValid k" "key_GetPubKey ssl k = Inr pk"
    using assms(2) by (simp_all add: signs_with_def)
  have b: "b \<noteq> []" "length b = (if k_fCompressed k then 33 else 65)" "hd b \<in> (if k_fCompressed k then {2, 3} else {4})"
    using assms(1) k unfolding openssl_ok_def regenerate_key_def b_def bn Let_def by metis+
  have g: "GetLen (hd b) = length b" using b by (auto simp: GetLen_def split: if_splits)
  have "pk = pk_Set b invalid_pubkey"
    using k b by (auto simp: key_GetPubKey_def eckey_GetPubKey_def b_def Let_def result_simps split: if_splits)
  with pk_Set_invalid [OF b(1) g, of invalid_pubkey] have pk: "pk_bytes pk = b" "pk_size pk = length b" by simp_all
  show "length (pk_bytes pk) = (if k_fCompressed k then 33 else 65)" "length (pk_bytes pk) = pk_size pk"
    "hd (pk_bytes pk) \<in> (if k_fCompressed k then {2, 3} else {4})" using pk b by simp_all
  show "pk_GetID ssl (mk_pubkey (pk_bytes pk)) = pk_GetID ssl pk"
    using pk_bytes_mk_pubkey [OF b(1) g] by (simp add: pk_GetID_def pk)
qed

lemma Solver_multisig_code:
  assumes "1 \<le> m" "m \<le> length vs" "length vs \<le> 16" "\<forall>v \<in> set vs. length v = 33 \<or> length v = 65"
  shows "Solver (multisig_code m vs) = (True, TX_MULTISIG, [of_nat m] # vs @ [[of_nat (length vs)]])"
  using Solver_multisig [OF assms] by (simp add: multisig_code_def)

text \<open>The private key of a public key is in the store, under the identifier of the public key.\<close>

definition holds_key :: "openssl \<Rightarrow> CBasicKeyStore \<Rightarrow> valtype \<Rightarrow> bool" where
  "holds_key ssl ks v \<longleftrightarrow> (\<exists>k pk. signs_with ssl ks k pk \<and> pk_bytes pk = v)"

abbreviation stored :: "openssl \<Rightarrow> CBasicKeyStore \<Rightarrow> valtype \<Rightarrow> CKey option" where
  "stored ssl ks v \<equiv> GetKey ks (pk_GetID ssl (mk_pubkey v))"

definition stored_sig :: "openssl \<Rightarrow> CBasicKeyStore \<Rightarrow> base_uint \<Rightarrow> valtype \<Rightarrow> data" where
  "stored_sig ssl ks hash v = the (key_Sign ssl (the (stored ssl ks v)) hash)"

lemma holds_key_stored:
  assumes "openssl_ok ssl" "ecdsa_ok ssl" "holds_key ssl ks v"
  obtains k pk where "signs_with ssl ks k pk" "pk_bytes pk = v" "stored ssl ks v = Some k"
    "key_Sign ssl k hash = Some (stored_sig ssl ks hash v)"
proof -
  obtain k pk where k: "signs_with ssl ks k pk" "pk_bytes pk = v" using assms(3) by (auto simp: holds_key_def)
  then have g: "stored ssl ks v = Some k" using mk_pubkey_GetID(1) [OF assms(1) k(1)] by (simp add: signs_with_def)
  moreover have "key_Sign ssl k hash = Some (stored_sig ssl ks hash v)"
    using key_Sign_verifies [OF assms(2,1), of k pk hash] k(1) g by (auto simp: signs_with_def stored_sig_def)
  ultimately show ?thesis using k that by blast
qed

lemma SignN_loop_stored:
  assumes ssl: "openssl_ok ssl" "ecdsa_ok ssl"
  shows "\<forall>v \<in> set (take r (filter (\<lambda>v. stored ssl ks v \<noteq> None) vs)). holds_key ssl ks v \<Longrightarrow>
    SignN_loop ssl ks hash t (n + r) vs n s =
      (n + min r (length (filter (\<lambda>v. stored ssl ks v \<noteq> None) vs)),
       s @ concat (map (\<lambda>v. push_data [] (stored_sig ssl ks hash v @ [ucast t])) (take r (filter (\<lambda>v. stored ssl ks v \<noteq> None) vs))))"
proof (induction vs arbitrary: r n s)
  case (Cons v vs)
  show ?case
  proof (cases r)
    case (Suc r')
    show ?thesis
    proof (cases "stored ssl ks v")
      case None
      then show ?thesis using Cons.IH [of r n s] Cons.prems Suc by (simp add: Sign1_def)
    next
      case (Some k)
      then have "holds_key ssl ks v" using Cons.prems Suc by simp
      then obtain k' where k: "stored ssl ks v = Some k'" "key_Sign ssl k' hash = Some (stored_sig ssl ks hash v)"
        using holds_key_stored [OF ssl] by metis
      then have "Sign1 ssl (pk_GetID ssl (mk_pubkey v)) ks hash t s = (True, s @ push_data [] (stored_sig ssl ks hash v @ [ucast t]))"
        by (simp add: Sign1_def push_data_append [of s])
      then show ?thesis using Cons.IH [of r' "n + 1"] Cons.prems Suc k(1) by simp
    qed
  qed simp
qed simp

lemma SignN_stored:
  assumes "openssl_ok ssl" "ecdsa_ok ssl" "m \<le> 16"
    and "\<forall>v \<in> set (take m (filter (\<lambda>v. stored ssl ks v \<noteq> None) vs)). holds_key ssl ks v"
  shows "SignN ssl ([of_nat m] # vs @ [x]) ks hash t [OP_0] =
    (m \<le> length (filter (\<lambda>v. stored ssl ks v \<noteq> None) vs),
     PushAll ([] # map (\<lambda>v. stored_sig ssl ks hash v @ [ucast t]) (take m (filter (\<lambda>v. stored ssl ks v \<noteq> None) vs))))"
proof -
  have "unat (of_nat m :: byte) = m" using assms(3) by (simp add: unat_of_nat)
  moreover have "[OP_0] = push_data [] []" by (simp add: push_data_def)
  ultimately show ?thesis
    using SignN_loop_stored [OF assms(1,2,4), of hash t 0 "[OP_0]"] PushAll_append [of "push_data [] []"]
    by (auto simp: SignN_def PushAll_def comp_def min_def)
qed

lemma eval_pushes:
  assumes "\<forall>v \<in> set vs. length v \<le> 520" "length (i_stack s) + length (i_altstack s) + length vs \<le> 1000" "i_vfExec s = []" "length vs \<le> 1000"
  shows "eval_loop ssl chk flags (concat (map (push_data []) vs)) s = (True, s\<lparr>i_stack := rev vs @ i_stack s\<rparr>)"
  using assms
proof (induction vs arbitrary: s)
  case Nil
  then show ?case by (simp add: eval_loop.simps [of _ _ _ "[]"] go_on_def)
next
  case (Cons v vs)
  have p: "length (push_data [] v) \<le> length v + 5" for v by (simp add: push_data_def)
  have "length (concat (map (push_data []) vs)) \<le> length vs * 525"
  proof -
    have "(\<Sum>w\<leftarrow>vs. length (push_data [] w)) \<le> (\<Sum>w\<leftarrow>vs. 525)"
      using Cons(2) p by (intro sum_list_mono) (fastforce intro: order_trans)
    then show ?thesis by (simp add: length_concat comp_def sum_list_triv)
  qed
  then have "length (v @ concat (map (push_data []) vs)) < 2 ^ 32" using Cons(2,5) by simp
  then have "eval_loop ssl chk flags (push_data [] v @ concat (map (push_data []) vs)) s =
      eval_loop ssl chk flags (concat (map (push_data []) vs)) (s\<lparr>i_stack := v # i_stack s\<rparr>)"
    using Cons by (intro eval_push) simp_all
  then show ?case using Cons by simp
qed

lemma eval_spec_pushes:
  assumes "\<forall>v \<in> set vs. length v \<le> 520" "length vs \<le> 1000" "length (PushAll vs) \<le> 10000"
  shows "eval_spec ssl [] (PushAll vs) tx nIn flags t = (True, rev vs)"
proof -
  have "PushAll vs = concat (map (push_data []) vs)" using PushAll_append [of "[]" vs] by (simp add: PushAll_def)
  then show ?thesis using assms eval_pushes [OF assms(1), of "start (PushAll vs) [] empty_cache"]
    by (simp add: eval_spec_def eval_script_def start_def)
qed

lemma checksig_signed:
  assumes "openssl_ok ssl" "ecdsa_ok ssl" "signs_with ssl ks k pk" "key_Sign ssl k (SignatureHash ssl code tx nIn t) = Some sig"
    and "t \<in> hash_types"
  shows "checksig_spec ssl (sig @ [ucast t]) (pk_bytes pk) code tx nIn 0"
proof -
  have "pk_Verify ssl (mk_pubkey (pk_bytes pk)) (SignatureHash ssl code tx nIn t) sig"
    using key_Sign_verifies [OF assms(2,1), of k pk "SignatureHash ssl code tx nIn t"] assms(3,4) by (auto simp: signs_with_def)
  then show ?thesis using hash_type_byte(2) [OF assms(5)] by (simp add: checksig_spec_def)
qed

text \<open>The signatures of the keys of a store satisfy the script that asks for them.\<close>

definition key_bytes :: "valtype \<Rightarrow> bool" where
  "key_bytes v \<longleftrightarrow> length v = 33 \<and> hd v \<in> {2, 3} \<or> length v = 65 \<and> hd v = 4"

lemma stored_sig_shape:
  assumes "openssl_ok ssl" "ecdsa_ok ssl" "holds_key ssl ks v" "t \<in> hash_types" "flags AND SCRIPT_VERIFY_EVEN_S = 0"
  shows "length (stored_sig ssl ks hash v) \<le> 72" "IsCanonicalSignature (stored_sig ssl ks hash v @ [ucast t]) flags"
    "\<exists>r. push_data [] (stored_sig ssl ks hash v @ [ucast t]) = of_nat (length (stored_sig ssl ks hash v @ [ucast t])) # 0x30 # r"
proof -
  obtain k pk where k: "signs_with ssl ks k pk" "pk_bytes pk = v" "key_Sign ssl k hash = Some (stored_sig ssl ks hash v)"
    by (rule holds_key_stored [OF assms(1-3)])
  then have p: "8 \<le> length (stored_sig ssl ks hash v)" "length (stored_sig ssl ks hash v) \<le> 72" "hd (stored_sig ssl ks hash v) = 0x30"
    "IsCanonicalSignature (stored_sig ssl ks hash v @ [ucast t]) flags"
    using key_Sign_verifies [OF assms(2,1), of k pk hash] hash_type_byte(1) [OF assms(4)] assms(5) by (auto simp: signs_with_def)
  show "length (stored_sig ssl ks hash v) \<le> 72" "IsCanonicalSignature (stored_sig ssl ks hash v @ [ucast t]) flags" by (fact p)+
  obtain r where "stored_sig ssl ks hash v = 0x30 # r" using p(1,3) by (cases "stored_sig ssl ks hash v") auto
  then show "\<exists>r. push_data [] (stored_sig ssl ks hash v @ [ucast t]) = of_nat (length (stored_sig ssl ks hash v @ [ucast t])) # 0x30 # r"
    using p(2) by (simp add: push_data_def)
qed

lemma eval_signed_multisig:
  fixes tx :: CTransaction and nIn :: u32
  assumes ssl: "openssl_ok ssl" "ecdsa_ok ssl" and vs: "1 \<le> m" "length vs \<le> 16" "\<forall>v \<in> set vs. key_bytes v"
    and held: "subseq held vs" "length held = m" "\<forall>v \<in> set held. holds_key ssl ks v" and t: "t \<in> hash_types"
    and flags: "flags AND SCRIPT_VERIFY_EVEN_S = 0"
  defines "sigs \<equiv> map (\<lambda>v. stored_sig ssl ks (SignatureHash ssl (multisig_code m vs) tx nIn t) v @ [ucast t]) held"
  shows "eval_spec ssl (rev sigs @ [[]]) (multisig_code m vs) tx nIn flags 0 = (True, [vchTrue])"
proof -
  let ?code = "multisig_code m vs" and ?valid = "\<lambda>sig pk code. checksig_spec ssl sig pk code tx nIn 0"
  let ?hash = "SignatureHash ssl ?code tx nIn t"
  have m: "length sigs = m" "m \<le> length vs" using held(2) list_emb_length [OF held(1)] by (simp_all add: sigs_def)
  have heads: "\<forall>v \<in> set vs. (length v = 33 \<or> length v = 65) \<and> hd v \<noteq> 0x30" using vs(3) by (auto simp: key_bytes_def)
  have fad: "\<forall>sig \<in> set sigs. fst (FindAndDelete ?code (push_data [] sig)) = ?code"
  proof
    fix sig assume "sig \<in> set sigs"
    then obtain v where v: "v \<in> set held" "sig = stored_sig ssl ks ?hash v @ [ucast t]" by (auto simp: sigs_def)
    obtain r where r: "push_data [] sig = of_nat (length sig) # 0x30 # r" "length sig \<le> 73"
      using stored_sig_shape [OF ssl held(3) [rule_format, OF v(1)] t flags, of ?hash] v(2) by auto
    have "FindAndDelete_loop (push_data [] sig) ?code 0 = (?code, 0)"
      using heads vs(1,2) m r(2) by (intro multisig_code_absent [OF _ _ _ _ _ r(1)]) auto
    then show "fst (FindAndDelete ?code (push_data [] sig)) = ?code" by (simp add: FindAndDelete_def)
  qed
  have "fits ?valid flags ?code sigs vs"
    unfolding fits_def
  proof (intro exI conjI)
    show "subseq held vs" by (fact held(1))
    show "list_all2 (\<lambda>s p. IsCanonicalSignature s flags \<and> IsCanonicalPubKey p flags \<and> ?valid s p ?code) sigs held"
      unfolding sigs_def list_all2_map1
    proof (rule list_all2_same [THEN iffD2], intro ballI conjI)
      fix v assume v: "v \<in> set held"
      show "IsCanonicalSignature (stored_sig ssl ks ?hash v @ [ucast t]) flags"
        by (rule stored_sig_shape(2) [OF ssl held(3) [rule_format, OF v] t flags])
      have "key_bytes v" using v held(1) vs(3) by (auto dest: list_emb_set)
      then show "IsCanonicalPubKey v flags" by (cases v) (auto simp: key_bytes_def IsCanonicalPubKey_def)
      obtain k pk where "signs_with ssl ks k pk" "pk_bytes pk = v" "key_Sign ssl k ?hash = Some (stored_sig ssl ks ?hash v)"
        by (rule holds_key_stored [OF ssl held(3) [rule_format, OF v]])
      then show "?valid (stored_sig ssl ks ?hash v @ [ucast t]) v ?code" using checksig_signed [OF ssl _ _ t] by auto
    qed
  qed
  then have "fits ?valid flags ?code (rev sigs) (rev vs)" by (rule fits_rev)
  then show ?thesis
    using eval_multisig_many [of ssl sigs vs ?valid flags "[]" empty_cache] ssl(1) vs m fad heads
    by (auto simp: eval_spec_def openssl_ok_def vch_bool_def)
qed

lemma SignSignature_multisig:
  assumes ssl: "openssl_ok (se_ssl env)" "ecdsa_ok (se_ssl env)" and c: "cache_ok (se_ssl env) c"
    and vs: "1 \<le> m" "m \<le> length vs" "length vs \<le> 16" "\<forall>v \<in> set vs. key_bytes v" and t: "t \<in> hash_types"
    and code: "code = multisig_code m vs" "length code \<le> 520"
    and store: "GetCScript ks (script_GetID (se_ssl env) code) = Some code" and n: "unat nIn < length (tx_vin tx)"
    and held: "held = filter (\<lambda>v. stored (se_ssl env) ks v \<noteq> None) vs" "\<forall>v \<in> set (take m held). holds_key (se_ssl env) ks v"
  shows "\<exists>c'. SignSignature env ks (SetDestination (CScriptID (script_GetID (se_ssl env) code))) tx nIn t c =
      (Inr (m \<le> length held, set_scriptSig (unat nIn)
        (PushAll ([] # map (\<lambda>v. stored_sig (se_ssl env) ks (SignatureHash (se_ssl env) code tx nIn t) v @ [ucast t]) (take m held) @ [code])) tx), c') \<and>
    cache_ok (se_ssl env) c'"
proof -
  let ?ssl = "se_ssl env" and ?flags = "SCRIPT_VERIFY_P2SH OR SCRIPT_VERIFY_STRICTENC"
  let ?h = "script_GetID ?ssl code" and ?hash = "SignatureHash ?ssl code tx nIn t"
  define sigs where "sigs = map (\<lambda>v. stored_sig ?ssl ks ?hash v @ [ucast t]) (take m held)"
  let ?s = "PushAll ([] # sigs @ [code])" let ?tx = "set_scriptSig (unat nIn) ?s tx"
  have dig: "digests_ok ?ssl" using ssl(1) by (simp add: openssl_ok_def)
  have h: "length ?h = 5" using length_Hash160 [OF dig] by (simp add: script_GetID_def)
  have S: "Solver code = (True, TX_MULTISIG, [of_nat m] # vs @ [[of_nat (length vs)]])"
    using Solver_multisig_code [of m vs] vs by (auto simp: code key_bytes_def)
  have N: "SignN ?ssl ([of_nat m] # vs @ [[of_nat (length vs)]]) ks ?hash t [OP_0] = (m \<le> length held, PushAll ([] # sigs))"
    using SignN_stored [OF ssl, of m ks vs "[of_nat (length vs)]" ?hash t] vs(2,3) held by (simp add: sigs_def)
  have s: "push_data (PushAll ([] # sigs)) code = ?s" by (simp add: PushAll_def)
  have h1: "SignatureHash ?ssl code (set_scriptSig (unat nIn) x tx) nIn t = ?hash" for x by (rule SignatureHash_scriptSig [OF n])
  have flags: "?flags AND SCRIPT_VERIFY_EVEN_S = 0" "?flags AND SCRIPT_VERIFY_P2SH \<noteq> 0"
    by (simp_all add: SCRIPT_VERIFY_P2SH_def SCRIPT_VERIFY_STRICTENC_def SCRIPT_VERIFY_EVEN_S_def)
  have solver: "Solver (SetDestination (CScriptID ?h)) = (True, TX_SCRIPTHASH, [bu_bytes ?h])" by (rule Solver_SetDestination [OF h])
  have sign: "SignSignature env ks (SetDestination (CScriptID ?h)) tx nIn t c =
    (if m \<le> length held then
       let (r, c) = VerifyScript env ?s (SetDestination (CScriptID ?h)) ?tx nIn ?flags 0 c in (rbind r (\<lambda>ok. Inr (ok, ?tx)), c)
     else (Inr (False, ?tx), c))"
    using solver n store h S N
    by (simp add: SignSignature_def Let_def Solver_sign_def h1 set_scriptSig_twice s push_opcode_def del: SetDestination.simps)
  have "\<exists>c'. VerifyScript env ?s (SetDestination (CScriptID ?h)) ?tx nIn ?flags 0 c = (Inr True, c') \<and> cache_ok ?ssl c'" if m: "m \<le> length held"
  proof -
    have "subseq (take m held) vs" using held(1) by (metis subseq_filter_left prefix_imp_subseq subseq_order.order_trans take_is_prefix)
    from eval_signed_multisig [OF ssl vs(1,3,4) this _ held(2) t flags(1), of ?tx nIn] m
    have r: "eval_spec ?ssl (rev sigs @ [[]]) code ?tx nIn ?flags 0 = (True, [vchTrue])"
      by (simp add: sigs_def code(1) [symmetric] h1)
    have l: "\<forall>v \<in> set ([] # sigs @ [code]). length v \<le> 520"
    proof -
      have "length sig \<le> 520" if "sig \<in> set sigs" for sig
      proof -
        from that obtain v where v: "v \<in> set (take m held)" "sig = stored_sig ?ssl ks ?hash v @ [ucast t]" by (auto simp: sigs_def)
        show ?thesis using stored_sig_shape(1) [OF ssl held(2) [rule_format, OF v(1)] t flags(1), of ?hash] v(2) by simp
      qed
      then show ?thesis using code(2) by auto
    qed
    have k: "length sigs \<le> 16" using vs(2,3) by (simp add: sigs_def)
    have "?s = concat (map (push_data []) ([] # sigs @ [code]))" using PushAll_append [of "[]" "[] # sigs @ [code]"] by (simp add: PushAll_def)
    moreover have "length (concat (map (push_data []) ws)) \<le> length ws * 525" if "\<forall>v \<in> set ws. length v \<le> 520" for ws
      using that by (induction ws) (auto simp: push_data_def)
    from this [OF l] have "length (concat (map (push_data []) ([] # sigs @ [code]))) \<le> 18 * 525" using k by (rule_tac order_trans) auto
    ultimately have len: "length ?s \<le> 10000" by simp
    then have e: "eval_spec ?ssl [] ?s ?tx nIn ?flags 0 = (True, code # rev sigs @ [[]])"
      using l k by (subst eval_spec_pushes) auto
    have po: "IsPushOnly ?s" using script_ops_PushAll [of "[] # sigs @ [code]"] len push_op_le by (auto simp: IsPushOnly_ops)
    show ?thesis
      using VerifyScript_script_hash [OF dig c h flags(2) e] po r k by (simp add: script_GetID_def vchTrue_def)
  qed
  then show ?thesis using sign c by (auto simp: sigs_def)
qed

text \<open>The special case of the program: one signature is asked for, by the first key.\<close>

lemma SignSignature_script_hash:
  assumes ssl: "openssl_ok (se_ssl env)" "ecdsa_ok (se_ssl env)" and c: "cache_ok (se_ssl env) c"
    and k: "signs_with (se_ssl env) ks k pk" "k_fCompressed k"
    and vs: "length vs \<le> 14" "\<forall>v \<in> set vs. length v = 33 \<and> hd v \<in> {2, 3}" and t: "t \<in> {1, 2, 3}"
    and code: "code = multisig_code 1 (pk_bytes pk # vs)"
    and store: "GetCScript ks (script_GetID (se_ssl env) code) = Some code" and n: "unat nIn < length (tx_vin tx)"
  shows "\<exists>sig c'. key_Sign (se_ssl env) k (SignatureHash (se_ssl env) code tx nIn t) = Some sig \<and>
    SignSignature env ks (SetDestination (CScriptID (script_GetID (se_ssl env) code))) tx nIn t c =
      (Inr (True, set_scriptSig (unat nIn) (PushAll [[], sig @ [ucast t], code]) tx), c') \<and> cache_ok (se_ssl env) c'"
proof -
  let ?ssl = "se_ssl env" and ?v = "pk_bytes pk"
  have pk: "length ?v = 33" "hd ?v \<in> {2, 3}" "stored ?ssl ks ?v = Some k"
    using mk_pubkey_GetID [OF ssl(1) k(1)] k by (simp_all add: signs_with_def)
  have "length (concat (?v # vs)) = 33 * length (?v # vs)" using vs(2) pk(1) by (induction vs) auto
  then have len: "length code \<le> 520" using vs(1) by (simp add: code multisig_code_def multisig_code_length)
  have "\<forall>v \<in> set (?v # vs). key_bytes v" using pk vs(2) by (auto simp: key_bytes_def)
  moreover have "holds_key ?ssl ks ?v" using k(1) by (auto simp: holds_key_def)
  moreover have "t \<in> hash_types" using t by (auto simp: hash_types_def)
  moreover have "key_Sign ?ssl k (SignatureHash ?ssl code tx nIn t) = Some (stored_sig ?ssl ks (SignatureHash ?ssl code tx nIn t) ?v)"
    using key_Sign_verifies [OF ssl(2,1), of k pk "SignatureHash ?ssl code tx nIn t"] k(1) pk(3)
    by (auto simp: signs_with_def stored_sig_def)
  ultimately show ?thesis
    using SignSignature_multisig [OF ssl c, of 1 "?v # vs" t code ks nIn tx, OF _ _ _ _ _ code len store n refl] vs(1) pk(3) by auto
qed

section \<open>Properties\<close>

lemma be_value_be_bytes_at: "0 \<le> n \<Longrightarrow> int (be_value (be_bytes_at k n)) = n mod 256 ^ k"
proof (induction k arbitrary: n)
  case (Suc k)
  have u: "int (unat (of_int n :: byte)) = n mod 256" by (simp add: uint_word_of_int)
  have "int (be_value (be_bytes_at (Suc k) n)) = 256 * (n div 256 mod 256 ^ k) + n mod 256"
    using Suc.IH [of "n div 256"] Suc.prems u by (simp add: be_bytes_at_Suc be_value_append pos_imp_zdiv_nonneg_iff)
  also have "\<dots> = n mod (256 * 256 ^ k)" by (simp add: zmod_zmult2_eq)
  finally show ?case by simp
qed (simp add: be_bytes_at_def)

lemma sample_mul: "0 < d \<Longrightarrow> d < secp256k1_order \<Longrightarrow> EC_POINT_mul sample_ssl (Some d) None = Some (d, 0)"
  by (simp add: sample_ssl_def sample_point_def)

lemma sample_openssl_ok: "openssl_ok sample_ssl"
proof -
  have "let p = i2o_ECPublicKey sample_ssl (EC_POINT_mul sample_ssl (Some (int (be_value s))) None) c
      in p \<noteq> [] \<and> length p = (if c then 33 else 65) \<and> hd p \<in> (if c then {2, 3} else {4})"
    if "key_Check s" "length s = 32" for s c
    using that key_Check_range [OF that(2)] sample_mul [of "int (be_value s)"] by (simp add: sample_ssl_def sample_i2o_def Let_def)
  then show ?thesis using sample_digests_ok sample_bignum_ok unfolding openssl_ok_def by blast
qed

lemma sample_ecdsa_ok: "ecdsa_ok sample_ssl"
  unfolding ecdsa_ok_def
proof (intro conjI allI impI)
  show "EC_order sample_ssl = secp256k1_order" by (simp add: sample_ssl_def)
next
  fix h :: data and d :: int assume d: "0 < d \<and> d < secp256k1_order"
  have "sample_der 1 1 = [0x30, 6, 2, 1, 1, 2, 1, 1]"
    by (simp add: sample_der_def der_of_def mpi_digits_def be_bytes.simps)
  then show "\<exists>r s. ECDSA_do_sign sample_ssl h d = Some (r, s) \<and> 0 < r \<and> r < secp256k1_order \<and> 0 < s \<and> s < secp256k1_order \<and>
      (\<forall>s' \<in> {s, secp256k1_order - s}. ECDSA_verify sample_ssl h (i2d_ECDSA_SIG sample_ssl (r, s')) (EC_POINT_mul sample_ssl (Some d) None))"
    by (intro exI [of _ 1]) (simp add: sample_ssl_def secp256k1_order_def)
next
  fix r s :: int assume rs: "0 < r \<and> r < secp256k1_order \<and> 0 < s \<and> s < secp256k1_order"
  show "\<exists>R S. i2d_ECDSA_SIG sample_ssl (r, s) = der_of R S \<and> mpi_minimal R \<and> mpi_value R = r \<and> mpi_minimal S \<and> mpi_value S = s"
    using rs by (intro exI [of _ "mpi_digits False (be_bytes (nat r))"] exI [of _ "mpi_digits False (be_bytes (nat s))"])
      (simp add: sample_ssl_def sample_der_def mpi_digits_minimal mpi_digits_value be_bytes_value)
next
  fix d :: int and c assume d: "0 < d \<and> d < secp256k1_order"
  then have "int (be_value (be_bytes_at 32 d)) = d" by (subst be_value_be_bytes_at) (simp_all add: secp256k1_order_def)
  then show "o2i_ECPublicKey sample_ssl (i2o_ECPublicKey sample_ssl (EC_POINT_mul sample_ssl (Some d) None) c) = Some (EC_POINT_mul sample_ssl (Some d) None)"
    using d unfolding sample_mul [OF conjunct1 [OF d] conjunct2 [OF d]]
    by (simp add: sample_ssl_def sample_i2o_def sample_o2i_def Let_def)
qed

text \<open>C13: signing an input that pays to the hash of a multi-signature script, with any number of its keys in the
  store and any hash type: the script of the input becomes the dummy, the signatures of the first keys that the
  store holds, in the order of the script and no more than the script asks for, and the redeem script, and nothing else of
  the transaction changes; the answer, which is that of VerifyScript, is true exactly when the store holds as many keys as the
  script asks for. The other keys need not be points of the curve; the redeem script must fit into one push.\<close>

theorem sign_script_hash:
  assumes "openssl_ok (se_ssl env)" "ecdsa_ok (se_ssl env)" "cache_ok (se_ssl env) c"
    and "1 \<le> m" "m \<le> length vs" "length vs \<le> 16" "\<forall>v \<in> set vs. key_bytes v" "t \<in> hash_types"
    and "code = multisig_code m vs" "length code \<le> 520" "GetCScript ks (script_GetID (se_ssl env) code) = Some code"
    and "unat nIn < length (tx_vin tx)"
    and "held = filter (\<lambda>v. stored (se_ssl env) ks v \<noteq> None) vs" "\<forall>v \<in> set held. holds_key (se_ssl env) ks v"
  shows "\<exists>sigs c'. list_all2 (\<lambda>v sig. \<exists>k. stored (se_ssl env) ks v = Some k \<and>
      key_Sign (se_ssl env) k (SignatureHash (se_ssl env) code tx nIn t) = Some sig) (take m held) sigs \<and>
    SignSignature env ks (SetDestination (CScriptID (script_GetID (se_ssl env) code))) tx nIn t c =
      (Inr (m \<le> length held, set_scriptSig (unat nIn) (PushAll ([] # map (\<lambda>sig. sig @ [ucast t]) sigs @ [code])) tx), c') \<and>
    cache_ok (se_ssl env) c'"
proof -
  let ?hash = "SignatureHash (se_ssl env) code tx nIn t"
  let ?sigs = "map (stored_sig (se_ssl env) ks ?hash) (take m held)"
  have "\<exists>k. stored (se_ssl env) ks v = Some k \<and> key_Sign (se_ssl env) k ?hash = Some (stored_sig (se_ssl env) ks ?hash v)"
    if "v \<in> set held" for v
    using holds_key_stored [OF assms(1,2) assms(14) [rule_format, OF that]] by metis
  then have "list_all2 (\<lambda>v sig. \<exists>k. stored (se_ssl env) ks v = Some k \<and> key_Sign (se_ssl env) k ?hash = Some sig) (take m held) ?sigs"
    by (auto simp: list_all2_map2 list_all2_same dest: in_set_takeD)
  moreover have "\<forall>v \<in> set (take m held). holds_key (se_ssl env) ks v" using assms(14) by (auto dest: in_set_takeD)
  from SignSignature_multisig [OF assms(1-13) this] obtain c' where
    "SignSignature env ks (SetDestination (CScriptID (script_GetID (se_ssl env) code))) tx nIn t c =
      (Inr (m \<le> length held, set_scriptSig (unat nIn) (PushAll ([] # map (\<lambda>sig. sig @ [ucast t]) ?sigs @ [code])) tx), c')"
    "cache_ok (se_ssl env) c'"
    by (auto simp: comp_def)
  ultimately show ?thesis by blast
qed

definition sample_secret :: CKey where
  "sample_secret = \<lparr>k_fValid = True, k_fCompressed = True, k_vch = replicate 31 0 @ [7]\<rparr>"

lemma sample_GetPubKey: "key_GetPubKey sample_ssl sample_secret = Inr (pk_Set sample_key invalid_pubkey)"
  "pk_bytes (pk_Set sample_key invalid_pubkey) = sample_key" "key_Check (k_vch sample_secret)"
proof -
  have v: "be_value (replicate 31 0 @ [7]) = 7" using be_value_replicate_0 [of 31 "[7]"] by simp
  have l: "length (replicate 31 (0 :: byte) @ [7]) = 32" by simp
  show "key_Check (k_vch sample_secret)" using key_Check_range [OF l] v by (simp add: sample_secret_def secp256k1_order_def)
  have "BN_bin2bn sample_ssl (replicate 31 0 @ [7]) = 7" using v by (simp add: sample_ssl_def)
  then have "regenerate_key sample_ssl (replicate 31 0 @ [7]) = Some (7, 0)"
    using sample_mul [of 7] by (simp add: regenerate_key_def secp256k1_order_def)
  moreover have "be_bytes_at 32 7 = replicate 31 0 @ [7]" using be_bytes_at_value [of "replicate 31 0 @ [7]"] v l by simp
  ultimately have e: "i2o_ECPublicKey sample_ssl (regenerate_key sample_ssl (replicate 31 0 @ [7])) True = sample_key"
    by (simp add: sample_ssl_def sample_i2o_def sample_key_def)
  then show "key_GetPubKey sample_ssl sample_secret = Inr (pk_Set sample_key invalid_pubkey)"
    by (simp add: key_GetPubKey_def eckey_GetPubKey_def sample_secret_def Let_def) (simp add: sample_key_def)
  show "pk_bytes (pk_Set sample_key invalid_pubkey) = sample_key"
    using pk_Set_invalid [of sample_key invalid_pubkey] by (simp add: sample_key_def GetLen_def)
qed

definition sample_other :: data where
  "sample_other = 3 # replicate 32 9"

definition sample_store :: CBasicKeyStore where
  "sample_store = AddCScript sample_ssl (multisig_code 1 [sample_other, sample_key])
     (AddCScript sample_ssl (multisig_code 2 [sample_key, sample_other])
       (AddKeyPubKey sample_ssl sample_secret (pk_Set sample_key invalid_pubkey) empty_keystore))"

lemma sample_store:
  "holds_key sample_ssl sample_store sample_key" "stored sample_ssl sample_store sample_key \<noteq> None"
  "stored sample_ssl sample_store sample_other = None"
  "GetCScript sample_store (script_GetID sample_ssl (multisig_code 1 [sample_other, sample_key])) = Some (multisig_code 1 [sample_other, sample_key])"
  "GetCScript sample_store (script_GetID sample_ssl (multisig_code 2 [sample_key, sample_other])) = Some (multisig_code 2 [sample_key, sample_other])"
proof -
  have s: "signs_with sample_ssl sample_store sample_secret (pk_Set sample_key invalid_pubkey)"
    using sample_GetPubKey by (simp add: signs_with_def sample_store_def GetKey_def AddKeyPubKey_def AddCScript_def empty_keystore_def
        lookup_update) (simp add: sample_secret_def)
  then show "holds_key sample_ssl sample_store sample_key" using sample_GetPubKey(2) by (auto simp: holds_key_def)
  show "stored sample_ssl sample_store sample_key \<noteq> None"
    using s mk_pubkey_GetID(1) [OF sample_openssl_ok s] sample_GetPubKey(2) by (simp add: signs_with_def)
  have "pk_GetID sample_ssl (mk_pubkey sample_other) \<noteq> pk_GetID sample_ssl (pk_Set sample_key invalid_pubkey)" by code_simp
  then show "stored sample_ssl sample_store sample_other = None"
    by (simp add: sample_store_def GetKey_def AddKeyPubKey_def AddCScript_def empty_keystore_def lookup_update)
  have "script_GetID sample_ssl (multisig_code 1 [sample_other, sample_key]) \<noteq> script_GetID sample_ssl (multisig_code 2 [sample_key, sample_other])"
    by code_simp
  then show "GetCScript sample_store (script_GetID sample_ssl (multisig_code 1 [sample_other, sample_key])) = Some (multisig_code 1 [sample_other, sample_key])"
    "GetCScript sample_store (script_GetID sample_ssl (multisig_code 2 [sample_key, sample_other])) = Some (multisig_code 2 [sample_key, sample_other])"
    by (simp_all add: GetCScript_def sample_store_def AddCScript_def lookup_update)
qed

text \<open>With one key of two in the store, the second of a script that asks for one signature, and the first of a script that asks for two.\<close>

theorem sign_script_hash_witness:
  "(\<exists>tx' c'. SignSignature sample_env sample_store
      (SetDestination (CScriptID (script_GetID sample_ssl (multisig_code 1 [sample_other, sample_key])))) sample_tx 0 0x81 empty_cache =
    (Inr (True, tx'), c')) \<and>
   (\<exists>tx' c'. SignSignature sample_env sample_store
      (SetDestination (CScriptID (script_GetID sample_ssl (multisig_code 2 [sample_key, sample_other])))) sample_tx 0 1 empty_cache =
    (Inr (False, tx'), c'))"
proof -
  have env: "se_ssl sample_env = sample_ssl" "cache_ok sample_ssl empty_cache" "unat (0 :: u32) < length (tx_vin sample_tx)"
    by (simp_all add: sample_env_def cache_ok_def empty_cache_def sample_tx_def)
  have keys: "\<forall>v \<in> set [sample_other, sample_key]. key_bytes v" "\<forall>v \<in> set [sample_key, sample_other]. key_bytes v"
    "length (multisig_code 1 [sample_other, sample_key]) \<le> 520" "length (multisig_code 2 [sample_key, sample_other]) \<le> 520"
    by (simp_all add: key_bytes_def sample_other_def sample_key_def multisig_code_def)
  have t: "0x81 \<in> hash_types" "1 \<in> hash_types" by (simp_all add: hash_types_def)
  note sign = sign_script_hash [of sample_env, unfolded env(1), OF sample_openssl_ok sample_ecdsa_ok env(2)]
  have one: "\<exists>tx' c'. SignSignature sample_env sample_store (SetDestination (CScriptID (script_GetID sample_ssl code))) sample_tx 0 t empty_cache =
      (Inr (m \<le> 1, tx'), c')"
    if "1 \<le> m" "m \<le> length vs" "length vs \<le> 16" "\<forall>v \<in> set vs. key_bytes v" "t \<in> hash_types" "code = multisig_code m vs" "length code \<le> 520"
      "GetCScript sample_store (script_GetID sample_ssl code) = Some code" "[sample_key] = filter (\<lambda>v. stored sample_ssl sample_store v \<noteq> None) vs"
    for m vs t code
    using sign [OF that(1-8) env(3) that(9)] sample_store(1) by (auto simp del: SetDestination.simps)
  have f: "[sample_key] = filter (\<lambda>v. stored sample_ssl sample_store v \<noteq> None) [sample_other, sample_key]"
    "[sample_key] = filter (\<lambda>v. stored sample_ssl sample_store v \<noteq> None) [sample_key, sample_other]"
    using sample_store(2,3) by simp_all
  show ?thesis
    using one [OF _ _ _ keys(1) t(1) refl keys(3) sample_store(4) f(1)] one [OF _ _ _ keys(2) t(2) refl keys(4) sample_store(5) f(2)]
    by (simp del: SetDestination.simps)
qed

end
