(* ===== verification/Conditionals.thy ===== *)
theory Conditionals
  imports Evaluation
begin

text \<open>
  The reference for \<open>EvalScript\<close>: scripts as nested conditionals. The interpreter keeps a stack of flags and
  looks at it before every instruction; here a script is read as a tree whose branches are run or skipped as a
  whole. What is skipped is still counted and checked, and the limits of the interpreter are stated where they apply.
\<close>

section \<open>Scripts as trees\<close>

text \<open>An instruction carries its opcode, its value and the script that follows; a conditional is \<open>OP_IF\<close> or \<open>OP_NOTIF\<close>.\<close>

datatype token = Plain opcodetype valtype script | If_Op bool | Else_Op | Endif_Op

definition token_of :: "opcodetype \<Rightarrow> valtype \<Rightarrow> script \<Rightarrow> token" where
  "token_of opcode vch pc =
     (if opcode = OP_IF then If_Op False else if opcode = OP_NOTIF then If_Op True
      else if opcode = OP_ELSE then Else_Op else if opcode = OP_ENDIF then Endif_Op else Plain opcode vch pc)"

text \<open>The instructions of a script, when it can be read to its end.\<close>

function tokens :: "script \<Rightarrow> token list option" where
  "tokens pc =
     (if pc = [] then Some []
      else case GetOp2 pc of
             (False, opcode, vch, pc') \<Rightarrow> None
           | (True, opcode, vch, pc') \<Rightarrow> map_option (Cons (token_of opcode vch pc')) (tokens pc'))"
  by pat_completeness auto
termination by (relation "measure length") (auto dest: GetOp2_shorter')

declare tokens.simps [simp del]

text \<open>The branches of a conditional alternate; there may be any number of \<open>OP_ELSE\<close>.\<close>

datatype block =
    Done
  | Instr opcodetype valtype script block
  | Cond bool block branches block
and branches =
    Fi
  | Else block branches

primrec flat :: "block \<Rightarrow> token list" and flat_branches :: "branches \<Rightarrow> token list" where
  "flat Done = []"
| "flat (Instr opcode vch pc b) = Plain opcode vch pc # flat b"
| "flat (Cond neg b bs rest) = If_Op neg # flat b @ flat_branches bs @ flat rest"
| "flat_branches Fi = [Endif_Op]"
| "flat_branches (Else b bs) = Else_Op # flat b @ flat_branches bs"

section \<open>The reference\<close>

text \<open>Every opcode above \<open>OP_16\<close> counts, whether it is run or skipped.\<close>

definition charge :: "interp \<Rightarrow> interp option" where
  "charge s = (if i_nOpCount s < 201 then Some (s\<lparr>i_nOpCount := i_nOpCount s + 1\<rparr>) else None)"

definition fits_stack :: "interp \<Rightarrow> interp option" where
  "fits_stack s = (if length (i_stack s) + length (i_altstack s) \<le> 1000 then Some s else None)"

definition run_plain :: "openssl \<Rightarrow> checker \<Rightarrow> u32 \<Rightarrow> bool \<Rightarrow> opcodetype \<Rightarrow> valtype \<Rightarrow> script \<Rightarrow> interp \<Rightarrow> interp option" where
  "run_plain ssl chk flags on opcode vch pc s =
     (if length vch > 520 \<or> disabled_op opcode then None
      else Option.bind (if opcode > OP_16 then charge s else Some s) (\<lambda>s.
        if \<not> on then (if opcode = OP_VERIF \<or> opcode = OP_VERNOTIF then None else fits_stack s)
        else if opcode \<le> OP_PUSHDATA4 then fits_stack (s\<lparr>i_stack := vch # i_stack s\<rparr>)
        else case exec_op ssl chk flags True opcode pc s of (False, s) \<Rightarrow> None | (True, s) \<Rightarrow> fits_stack s))"

text \<open>The condition is taken from the stack only when the conditional is run.\<close>

definition run_condition :: "bool \<Rightarrow> bool \<Rightarrow> interp \<Rightarrow> (bool \<times> interp) option" where
  "run_condition on neg s =
     Option.bind (charge s) (\<lambda>s.
       if \<not> on then map_option (Pair False) (fits_stack s)
       else case i_stack s of
              [] \<Rightarrow> None
            | vch # st \<Rightarrow> map_option (Pair (CastToBool vch \<noteq> neg)) (fits_stack (s\<lparr>i_stack := st\<rparr>)))"

definition run_mark :: "interp \<Rightarrow> interp option" where
  "run_mark s = Option.bind (charge s) fits_stack"

primrec run :: "openssl \<Rightarrow> checker \<Rightarrow> u32 \<Rightarrow> bool \<Rightarrow> block \<Rightarrow> interp \<Rightarrow> interp option"
    and run_branches :: "openssl \<Rightarrow> checker \<Rightarrow> u32 \<Rightarrow> bool \<Rightarrow> bool \<Rightarrow> branches \<Rightarrow> interp \<Rightarrow> interp option" where
  "run ssl chk flags on Done s = Some s"
| "run ssl chk flags on (Instr opcode vch pc b) s =
     Option.bind (run_plain ssl chk flags on opcode vch pc s) (run ssl chk flags on b)"
| "run ssl chk flags on (Cond neg b bs rest) s =
     Option.bind (run_condition on neg s) (\<lambda>(f, s).
     Option.bind (run ssl chk flags (on \<and> f) b s) (\<lambda>s.
     Option.bind (run_branches ssl chk flags on (\<not> f) bs s) (run ssl chk flags on rest)))"
| "run_branches ssl chk flags on f Fi s = run_mark s"
| "run_branches ssl chk flags on f (Else b bs) s =
     Option.bind (run_mark s) (\<lambda>s.
     Option.bind (run ssl chk flags (on \<and> f) b s) (run_branches ssl chk flags on (\<not> f) bs))"

section \<open>The interpreter on lists of tokens\<close>

text \<open>The interpreter on a token, and the flags it keeps.\<close>

definition token_op :: "token \<Rightarrow> opcodetype \<times> valtype \<times> script" where
  "token_op t = (case t of Plain opcode vch pc \<Rightarrow> (opcode, vch, pc) | If_Op neg \<Rightarrow> (if neg then OP_NOTIF else OP_IF, [], [])
     | Else_Op \<Rightarrow> (OP_ELSE, [], []) | Endif_Op \<Rightarrow> (OP_ENDIF, [], []))"

fun eval_tokens :: "openssl \<Rightarrow> checker \<Rightarrow> u32 \<Rightarrow> token list \<Rightarrow> interp \<Rightarrow> interp option" where
  "eval_tokens ssl chk flags [] s = Some s"
| "eval_tokens ssl chk flags (t # ts) s =
     (let (opcode, vch, pc) = token_op t
      in case eval_instr ssl chk flags opcode vch pc s of (False, s) \<Rightarrow> None | (True, s) \<Rightarrow> eval_tokens ssl chk flags ts s)"

text \<open>Marks of conditionals are not plain instructions.\<close>

definition proper :: "token list \<Rightarrow> bool" where
  "proper ts \<longleftrightarrow>
     list_all (\<lambda>t. case t of Plain opcode vch pc \<Rightarrow> opcode \<notin> {OP_IF, OP_NOTIF, OP_ELSE, OP_ENDIF} | _ \<Rightarrow> True) ts"

lemma proper_simps [simp]:
  "proper []" "proper (Plain opcode vch pc # ts) \<longleftrightarrow> opcode \<notin> {OP_IF, OP_NOTIF, OP_ELSE, OP_ENDIF} \<and> proper ts"
  "proper (If_Op neg # ts) \<longleftrightarrow> proper ts" "proper (Else_Op # ts) \<longleftrightarrow> proper ts" "proper (Endif_Op # ts) \<longleftrightarrow> proper ts"
  "proper (ts @ us) \<longleftrightarrow> proper ts \<and> proper us"
  by (simp_all add: proper_def)

lemma tokens_proper: "tokens pc = Some ts \<Longrightarrow> proper ts"
proof (induction pc arbitrary: ts rule: script_ops_induct)
  case (Step pc opcode vch pc')
  then show ?case by (auto simp: tokens.simps [of pc] token_of_def)
qed (simp_all add: tokens.simps)

lemma GetOp2_no_value: "GetOp2 pc = (True, opcode, vch, pc') \<Longrightarrow> OP_PUSHDATA4 < opcode \<Longrightarrow> vch = []"
  by (auto simp: GetOp2_def split: list.splits if_splits option.splits)

lemma eval_instr_mark:
  assumes "opcode \<in> {OP_IF, OP_NOTIF, OP_ELSE, OP_ENDIF}"
  shows "eval_instr ssl chk flags opcode vch pc s = eval_instr ssl chk flags opcode vch pc' s"
proof -
  have "exec_op ssl chk flags f opcode pc = exec_op ssl chk flags f opcode pc'" for f using assms by (auto simp: exec_op_def fun_eq_iff)
  then show ?thesis unfolding eval_instr_def dispatch_def by (simp only:)
qed

lemma eval_instr_token:
  assumes "GetOp2 pc = (True, opcode, vch, pc')"
  shows "(case token_op (token_of opcode vch pc') of (opcode, vch, pc) \<Rightarrow> eval_instr ssl chk flags opcode vch pc s) =
    eval_instr ssl chk flags opcode vch pc' s"
proof (cases "opcode \<in> {OP_IF, OP_NOTIF, OP_ELSE, OP_ENDIF}")
  case True
  then have "vch = []" using GetOp2_no_value [OF assms] by auto
  moreover have "token_op (token_of opcode [] pc') = (opcode, [], [])" using True by (auto simp: token_of_def token_op_def)
  ultimately show ?thesis using eval_instr_mark [OF True] by simp
next
  case False
  then show ?thesis by (simp add: token_of_def token_op_def)
qed

lemma eval_loop_tokens:
  "eval_loop ssl chk flags pc s = (True, s') \<longleftrightarrow>
     i_vfExec s' = [] \<and> (\<exists>ts. tokens pc = Some ts \<and> eval_tokens ssl chk flags ts s = Some s')"
proof (induction pc arbitrary: s rule: script_ops_induct)
  case Nil
  then show ?case by (auto simp: eval_loop.simps [of _ _ _ "[]"] tokens.simps step_defs)
next
  case (Fail pc opcode vch pc')
  then show ?case by (auto simp: eval_loop.simps [of _ _ _ pc] tokens.simps [of pc] step_defs)
next
  case (Step pc opcode vch pc')
  obtain on t where t: "eval_instr ssl chk flags opcode vch pc' s = (on, t)" by fastforce
  have "eval_tokens ssl chk flags (token_of opcode vch pc' # ts) s = (if on then eval_tokens ssl chk flags ts t else None)" for ts
    using eval_instr_token [OF Step(2), of ssl chk flags s] t by (simp add: split_beta)
  then show ?case using Step(1,2) Step(3) [of t] t
    by (cases on) (auto simp: eval_loop.simps [of _ _ _ pc] tokens.simps [of pc] step_defs)
qed

section \<open>Instructions that leave the flags alone\<close>

definition flagless :: "(interp \<Rightarrow> step_result) \<Rightarrow> bool" where
  "flagless f \<longleftrightarrow>
     (\<forall>s fs. f (s\<lparr>i_vfExec := fs\<rparr>) = (fst (f s), (snd (f s))\<lparr>i_vfExec := fs\<rparr>) \<and> i_vfExec (snd (f s)) = i_vfExec s)"

lemma flagless_ops:
  "flagless stop" "flagless go_on" "flagless (\<lambda>s. go_on (s\<lparr>i_codehash := pc\<rparr>))" "flagless (op_number ssl opcode)"
  "flagless op_verify" "flagless op_toaltstack" "flagless op_fromaltstack" "flagless op_2drop" "flagless op_2dup"
  "flagless op_3dup" "flagless op_2over" "flagless op_2rot" "flagless op_2swap" "flagless op_ifdup"
  "flagless (op_depth ssl)" "flagless op_drop" "flagless op_dup" "flagless op_nip" "flagless op_over"
  "flagless op_rot" "flagless op_swap" "flagless op_tuck" "flagless (op_size ssl)" "flagless (op_equal opcode)"
  "flagless (op_hash ssl opcode)"
  by (simp_all add: flagless_def step_defs Let_def op_number_def op_verify_def
      op_toaltstack_def op_fromaltstack_def op_2drop_def op_2dup_def op_3dup_def op_2over_def op_2rot_def
      op_2swap_def op_ifdup_def op_depth_def op_drop_def op_dup_def op_nip_def op_over_def op_rot_def op_swap_def
      op_tuck_def op_size_def op_equal_def op_hash_def push_check_def split: list.split)

lemma flagless_num_ops:
  "flagless (op_pick_roll ssl opcode)" "flagless (op_unary ssl opcode)" "flagless (op_binary ssl opcode)" "flagless (op_within ssl)"
  by (simp_all add: flagless_def step_defs Let_def with_num_def op_pick_roll_def op_unary_def op_binary_def op_within_def
      split: list.split sum.split)

lemma flagless_checksig: "flagless (op_checksig chk flags opcode)"
  by (simp add: flagless_def step_defs Let_def op_checksig_def push_check_def split_beta split: list.split)

lemma flagless_checkmultisig: "flagless (op_checkmultisig ssl chk flags opcode)"
  by (simp add: flagless_def step_defs Let_def op_checkmultisig_def with_num_def push_check_def split_beta split: sum.split)

lemma flagless_if: "flagless f \<Longrightarrow> flagless g \<Longrightarrow> flagless (\<lambda>s. if P then f s else g s)"
  by (simp add: flagless_def)

lemma flagless_exec_op:
  assumes "opcode \<notin> {OP_IF, OP_NOTIF, OP_ELSE, OP_ENDIF}"
  shows "flagless (exec_op ssl chk flags fExec opcode pc)"
proof -
  have "opcode \<noteq> OP_IF" "opcode \<noteq> OP_NOTIF" "opcode \<noteq> OP_ELSE" "opcode \<noteq> OP_ENDIF" using assms by simp_all
  then show ?thesis unfolding exec_op_def
    by (simp only: if_False simp_thms)
      (intro flagless_if flagless_ops flagless_num_ops flagless_checksig flagless_checkmultisig)
qed

section \<open>Running trees and running tokens\<close>

text \<open>A step of the interpreter with flags \<open>fs\<close> does what the reference does without flags.\<close>

definition agrees :: "bool list \<Rightarrow> interp option \<Rightarrow> step_result \<Rightarrow> bool" where
  "agrees fs r e \<longleftrightarrow> (case r of None \<Rightarrow> \<not> fst e | Some s \<Rightarrow> e = (True, s\<lparr>i_vfExec := fs\<rparr>) \<and> i_vfExec s = [])"

lemma OP_IF_range: "OP_IF \<le> opcode \<Longrightarrow> opcode \<le> OP_ENDIF \<Longrightarrow>
    opcode \<in> {OP_IF, OP_NOTIF, OP_ELSE, OP_ENDIF, OP_VERIF, OP_VERNOTIF}" for opcode :: byte
  by (simp add: word_le_nat_alt word_unat_eq_iff) linarith

lemma agrees_plain:
  assumes op: "opcode \<notin> {OP_IF, OP_NOTIF, OP_ELSE, OP_ENDIF}" and s: "i_vfExec s = []"
  shows "agrees fs (run_plain ssl chk flags (list_all (\<lambda>f. f) fs) opcode vch pc s)
    (eval_instr ssl chk flags opcode vch pc (s\<lparr>i_vfExec := fs\<rparr>))"
proof -
  define u where "u = count_op opcode s"
  have u: "count_op opcode (s\<lparr>i_vfExec := fs\<rparr>) = u\<lparr>i_vfExec := fs\<rparr>" "i_vfExec u = []"
    using s by (simp_all add: u_def count_op_def)
  have charge: "(if opcode > OP_16 then charge s else Some s) = (if opcode > OP_16 \<and> i_nOpCount u > 201 then None else Some u)"
    by (auto simp: u_def charge_def count_op_def)
  let ?on = "list_all (\<lambda>f. f) fs"
  have exec: "exec_op ssl chk flags ?on opcode pc (u\<lparr>i_vfExec := fs\<rparr>) =
      (fst (exec_op ssl chk flags ?on opcode pc u), (snd (exec_op ssl chk flags ?on opcode pc u))\<lparr>i_vfExec := fs\<rparr>)"
    "i_vfExec (snd (exec_op ssl chk flags ?on opcode pc u)) = []"
    using flagless_exec_op [OF op, of ssl chk flags ?on pc] u(2) by (simp_all add: flagless_def)
  have stop: "\<not> fst (exec_op ssl chk flags False opcode pc v)" if "\<not> (opcode \<noteq> OP_VERIF \<and> opcode \<noteq> OP_VERNOTIF)" for v
    using that by (auto simp: exec_op_def stop_def)
  have skip: "opcode = OP_VERIF \<or> opcode = OP_VERNOTIF" if "OP_IF \<le> opcode" "opcode \<le> OP_ENDIF"
    using OP_IF_range [OF that] op by auto
  show ?thesis
  proof (cases "length vch > 520 \<or> disabled_op opcode \<or> opcode > OP_16 \<and> i_nOpCount u > 201")
    case True
    then show ?thesis by (auto simp: agrees_def run_plain_def charge eval_instr_def Let_def u(1) stop_def MAX_SCRIPT_ELEMENT_SIZE_def)
  next
    case False
    then have run: "run_plain ssl chk flags ?on opcode vch pc s =
        (if \<not> ?on then (if opcode = OP_VERIF \<or> opcode = OP_VERNOTIF then None else fits_stack u)
         else if opcode \<le> OP_PUSHDATA4 then fits_stack (u\<lparr>i_stack := vch # i_stack u\<rparr>)
         else case exec_op ssl chk flags True opcode pc u of (False, s) \<Rightarrow> None | (True, s) \<Rightarrow> fits_stack s)"
      unfolding run_plain_def charge by auto
    have eval: "eval_instr ssl chk flags opcode vch pc (s\<lparr>i_vfExec := fs\<rparr>) =
        (let (on, s) = dispatch ssl chk flags opcode vch pc (u\<lparr>i_vfExec := fs\<rparr>)
         in if \<not> on then stop s else if length (i_stack s) + length (i_altstack s) > 1000 then stop s else go_on s)"
      using False by (auto simp: eval_instr_def Let_def u(1) MAX_SCRIPT_ELEMENT_SIZE_def)
    have verif: "OP_IF \<le> opcode \<and> opcode \<le> OP_ENDIF" if "opcode = OP_VERIF \<or> opcode = OP_VERNOTIF" using that by auto
    show ?thesis
    proof (cases ?on)
      case True
      then show ?thesis unfolding run eval using exec u(2)
        by (auto simp: agrees_def dispatch_def fits_stack_def step_defs split_beta split: prod.split bool.split)
    next
      case False
      then show ?thesis unfolding run eval using u(2) stop skip verif
        by (auto simp: agrees_def dispatch_def fits_stack_def step_defs split_beta split: prod.split bool.split)
    qed
  qed
qed

lemma eval_if:
  assumes "i_vfExec s = []"
  shows "case run_condition (list_all (\<lambda>f. f) fs) neg s of
      None \<Rightarrow> \<not> fst (eval_instr ssl chk flags (if neg then OP_NOTIF else OP_IF) [] pc (s\<lparr>i_vfExec := fs\<rparr>))
    | Some (f, s') \<Rightarrow> eval_instr ssl chk flags (if neg then OP_NOTIF else OP_IF) [] pc (s\<lparr>i_vfExec := fs\<rparr>) = (True, s'\<lparr>i_vfExec := f # fs\<rparr>) \<and>
        i_vfExec s' = []"
  using assms
  by (cases "list_all (\<lambda>f. f) fs"; cases neg)
    (auto simp: run_condition_def charge_def fits_stack_def eval_instr_def Let_def dispatch_def count_op_def exec_op_def op_if_def
      step_defs disabled_op_def MAX_SCRIPT_ELEMENT_SIZE_def split: list.splits)

lemma eval_mark:
  assumes "i_vfExec s = []"
  shows "case run_mark s of
      None \<Rightarrow> \<not> fst (eval_instr ssl chk flags OP_ELSE [] pc (s\<lparr>i_vfExec := f # fs\<rparr>)) \<and>
        \<not> fst (eval_instr ssl chk flags OP_ENDIF [] pc (s\<lparr>i_vfExec := f # fs\<rparr>))
    | Some s' \<Rightarrow> eval_instr ssl chk flags OP_ELSE [] pc (s\<lparr>i_vfExec := f # fs\<rparr>) = (True, s'\<lparr>i_vfExec := (\<not> f) # fs\<rparr>) \<and>
        eval_instr ssl chk flags OP_ENDIF [] pc (s\<lparr>i_vfExec := f # fs\<rparr>) = (True, s'\<lparr>i_vfExec := fs\<rparr>) \<and> i_vfExec s' = []"
  using assms
  by (auto simp: run_mark_def charge_def fits_stack_def eval_instr_def Let_def dispatch_def count_op_def exec_op_def op_else_def op_endif_def
      step_defs disabled_op_def MAX_SCRIPT_ELEMENT_SIZE_def)

lemma eval_token_mark:
  "i_vfExec s = [] \<Longrightarrow> eval_tokens ssl chk flags (Else_Op # ts) (s\<lparr>i_vfExec := f # fs\<rparr>) =
     Option.bind (run_mark s) (\<lambda>s'. eval_tokens ssl chk flags ts (s'\<lparr>i_vfExec := (\<not> f) # fs\<rparr>))"
  "i_vfExec s = [] \<Longrightarrow> eval_tokens ssl chk flags (Endif_Op # ts) (s\<lparr>i_vfExec := f # fs\<rparr>) =
     Option.bind (run_mark s) (\<lambda>s'. eval_tokens ssl chk flags ts (s'\<lparr>i_vfExec := fs\<rparr>))"
  "i_vfExec s = [] \<Longrightarrow> run_mark s = Some s' \<Longrightarrow> i_vfExec s' = []"
  using eval_mark [where s = s and ssl = ssl and chk = chk and flags = flags and pc = "[]" and f = f and fs = fs]
  by (cases "run_mark s"; auto simp: token_op_def split_beta split: prod.split bool.split)+

lemma eval_token_if:
  "i_vfExec s = [] \<Longrightarrow> eval_tokens ssl chk flags (If_Op neg # ts) (s\<lparr>i_vfExec := fs\<rparr>) =
     Option.bind (run_condition (list_all (\<lambda>f. f) fs) neg s) (\<lambda>(f, s'). eval_tokens ssl chk flags ts (s'\<lparr>i_vfExec := f # fs\<rparr>))"
  "i_vfExec s = [] \<Longrightarrow> run_condition (list_all (\<lambda>f. f) fs) neg s = Some (f, s') \<Longrightarrow> i_vfExec s' = []"
  using eval_if [where s = s and ssl = ssl and chk = chk and flags = flags and pc = "[]" and neg = neg and fs = fs]
  by (cases "run_condition (list_all (\<lambda>f. f) fs) neg s"; auto simp: token_op_def split_beta split: prod.split bool.split)+

lemma eval_token_plain:
  assumes "opcode \<notin> {OP_IF, OP_NOTIF, OP_ELSE, OP_ENDIF}" "i_vfExec s = []"
  shows "eval_tokens ssl chk flags (Plain opcode vch pc # ts) (s\<lparr>i_vfExec := fs\<rparr>) =
     Option.bind (run_plain ssl chk flags (list_all (\<lambda>f. f) fs) opcode vch pc s) (\<lambda>s'. eval_tokens ssl chk flags ts (s'\<lparr>i_vfExec := fs\<rparr>))"
    and "run_plain ssl chk flags (list_all (\<lambda>f. f) fs) opcode vch pc s = Some s' \<Longrightarrow> i_vfExec s' = []"
  using agrees_plain [OF assms, where fs = fs and ssl = ssl and chk = chk and flags = flags and vch = vch and pc = pc]
  by (cases "run_plain ssl chk flags (list_all (\<lambda>f. f) fs) opcode vch pc s";
      auto simp: agrees_def token_op_def split_beta split: prod.split bool.split)+

lemma all_flags_Cons: "list_all (\<lambda>f. f) (f # fs) \<longleftrightarrow> list_all (\<lambda>f. f) fs \<and> f"
  by auto

lemma eval_flat:
  "proper (flat b) \<Longrightarrow> i_vfExec s = [] \<Longrightarrow>
     eval_tokens ssl chk flags (flat b @ ts) (s\<lparr>i_vfExec := fs\<rparr>) =
       Option.bind (run ssl chk flags (list_all (\<lambda>f. f) fs) b s) (\<lambda>s'. eval_tokens ssl chk flags ts (s'\<lparr>i_vfExec := fs\<rparr>)) \<and>
     (\<forall>s'. run ssl chk flags (list_all (\<lambda>f. f) fs) b s = Some s' \<longrightarrow> i_vfExec s' = [])"
  "proper (flat_branches bs) \<Longrightarrow> i_vfExec s = [] \<Longrightarrow>
     eval_tokens ssl chk flags (flat_branches bs @ ts) (s\<lparr>i_vfExec := f # fs\<rparr>) =
       Option.bind (run_branches ssl chk flags (list_all (\<lambda>f. f) fs) (\<not> f) bs s) (\<lambda>s'. eval_tokens ssl chk flags ts (s'\<lparr>i_vfExec := fs\<rparr>)) \<and>
     (\<forall>s'. run_branches ssl chk flags (list_all (\<lambda>f. f) fs) (\<not> f) bs s = Some s' \<longrightarrow> i_vfExec s' = [])"
proof (induction b and bs arbitrary: s fs ts and s f fs ts)
  case (Instr opcode vch pc b)
  from Instr.prems(1) have op: "opcode \<notin> {OP_IF, OP_NOTIF, OP_ELSE, OP_ENDIF}" and pr: "proper (flat b)" by simp_all
  note p = eval_token_plain [OF op Instr.prems(2)]
  show ?case
  proof (cases "run_plain ssl chk flags (list_all (\<lambda>f. f) fs) opcode vch pc s")
    case None
    show ?thesis unfolding flat.simps append_Cons p(1) run.simps None by simp
  next
    case (Some s')
    show ?thesis unfolding flat.simps append_Cons p(1) run.simps Some Option.bind.simps by (rule Instr.IH [OF pr p(2) [OF Some]])
  qed
next
  case (Cond neg b bs rest)
  note pr = Cond.prems(1) [simplified]
  show ?case
  proof (cases "run_condition (list_all (\<lambda>f. f) fs) neg s")
    case None
    then show ?thesis using eval_token_if(1) [OF Cond.prems(2)] by simp
  next
    case (Some r)
    obtain f t where r: "r = (f, t)" by (cases r)
    have t: "i_vfExec t = []" using eval_token_if(2) [OF Cond.prems(2)] Some r by blast
    note b = Cond.IH(1) [of t _ "f # fs", unfolded all_flags_Cons, OF _ t]
    show ?thesis
    proof (cases "run ssl chk flags (list_all (\<lambda>f. f) fs \<and> f) b t")
      case None
      then show ?thesis using eval_token_if(1) [OF Cond.prems(2)] Some r b pr by simp
    next
      case S2: (Some t2)
      then have t2: "i_vfExec t2 = []" using b pr by blast
      show ?thesis
      proof (cases "run_branches ssl chk flags (list_all (\<lambda>f. f) fs) (\<not> f) bs t2")
        case None
        then show ?thesis using eval_token_if(1) [OF Cond.prems(2)] Some r b pr S2 Cond.IH(2) [OF _ t2, of _ f fs] by simp
      next
        case S3: (Some t3)
        then have t3: "i_vfExec t3 = []" using Cond.IH(2) [OF _ t2, of _ f fs] pr by blast
        show ?thesis
          using eval_token_if(1) [OF Cond.prems(2)] Some r b pr S2 S3 Cond.IH(2) [OF _ t2, of _ f fs] Cond.IH(3) [OF _ t3, of _ fs] by simp
      qed
    qed
  qed
next
  case (Else b bs)
  note pr = Else.prems(1) [simplified]
  show ?case
  proof (cases "run_mark s")
    case None
    then show ?thesis using eval_token_mark(1) [OF Else.prems(2)] by simp
  next
    case (Some t)
    then have t: "i_vfExec t = []" using eval_token_mark(3) [OF Else.prems(2)] by blast
    note b = Else.IH(1) [of t _ "(\<not> f) # fs", unfolded all_flags_Cons, OF _ t]
    show ?thesis
    proof (cases "run ssl chk flags (list_all (\<lambda>f. f) fs \<and> \<not> f) b t")
      case None
      then show ?thesis using eval_token_mark(1) [OF Else.prems(2)] Some b pr by simp
    next
      case S2: (Some t2)
      then have t2: "i_vfExec t2 = []" using b pr by blast
      show ?thesis using eval_token_mark(1) [OF Else.prems(2)] Some b pr S2 Else.IH(2) [OF _ t2, of _ "\<not> f" fs] by simp
    qed
  qed
next
  case Fi
  then show ?case using eval_token_mark(2,3) [OF Fi(2)] by auto
qed simp_all

section \<open>What the interpreter accepts is nested\<close>

text \<open>The number of conditionals that are open after a list of tokens, if none is closed that is not open.\<close>

fun nesting :: "nat \<Rightarrow> token list \<Rightarrow> nat option" where
  "nesting n [] = Some n"
| "nesting n (Plain opcode vch pc # ts) = nesting n ts"
| "nesting n (If_Op neg # ts) = nesting (Suc n) ts"
| "nesting n (Else_Op # ts) = (if n = 0 then None else nesting n ts)"
| "nesting n (Endif_Op # ts) = (if n = 0 then None else nesting (n - 1) ts)"

lemma nested_tree:
  "nesting n ts = Some 0 \<Longrightarrow>
     \<exists>b rest. length rest = n \<and> ts = flat b @ concat (map (\<lambda>(bs, r). flat_branches bs @ flat r) rest)"
proof (induction n ts rule: nesting.induct)
  case (1 n)
  then show ?case by (intro exI [of _ Done] exI [of _ "[]"]) simp
next
  case (2 n opcode vch pc ts)
  then obtain b rest where "length rest = n" "ts = flat b @ concat (map (\<lambda>(bs, r). flat_branches bs @ flat r) rest)" by auto
  then show ?case by (intro exI [of _ "Instr opcode vch pc b"] exI [of _ rest]) simp
next
  case (3 n neg ts)
  then obtain b rest where r: "length rest = Suc n" "ts = flat b @ concat (map (\<lambda>(bs, r). flat_branches bs @ flat r) rest)" by auto
  then obtain bs r rest' where "rest = (bs, r) # rest'" by (cases rest) auto
  with r show ?case by (intro exI [of _ "Cond neg b bs r"] exI [of _ rest']) simp
next
  case (4 n ts)
  then obtain b rest where r: "n \<noteq> 0" "length rest = n" "ts = flat b @ concat (map (\<lambda>(bs, r). flat_branches bs @ flat r) rest)"
    by (auto split: if_splits)
  then obtain bs r' rest' where "rest = (bs, r') # rest'" by (cases rest) auto
  with r show ?case by (intro exI [of _ Done] exI [of _ "(Else b bs, r') # rest'"]) simp
next
  case (5 n ts)
  then obtain b rest where r: "n \<noteq> 0" "length rest = n - 1" "ts = flat b @ concat (map (\<lambda>(bs, r). flat_branches bs @ flat r) rest)"
    by (auto split: if_splits)
  then show ?case by (intro exI [of _ Done] exI [of _ "(Fi, b) # rest"]) simp
qed

lemma eval_instr_flags:
  assumes "eval_instr ssl chk flags opcode vch pc s = (True, s')" "opcode \<notin> {OP_IF, OP_NOTIF, OP_ELSE, OP_ENDIF}"
  shows "length (i_vfExec s') = length (i_vfExec s)"
proof -
  have "i_vfExec (snd (exec_op ssl chk flags f opcode pc u)) = i_vfExec u" for f u
    using flagless_exec_op [OF assms(2), of ssl chk flags f pc] by (simp add: flagless_def)
  then have "i_vfExec (snd (dispatch ssl chk flags opcode vch pc u)) = i_vfExec u" for u
    by (simp add: dispatch_def Let_def step_defs)
  then show ?thesis using assms(1) unfolding eval_instr_def Let_def
    by (auto simp: step_defs split_beta count_op_def split: if_splits)
qed

lemma eval_instr_marks:
  "eval_instr ssl chk flags (if neg then OP_NOTIF else OP_IF) vch pc s = (True, s') \<Longrightarrow> length (i_vfExec s') = Suc (length (i_vfExec s))"
  "eval_instr ssl chk flags OP_ELSE vch pc s = (True, s') \<Longrightarrow> i_vfExec s \<noteq> [] \<and> length (i_vfExec s') = length (i_vfExec s)"
  "eval_instr ssl chk flags OP_ENDIF vch pc s = (True, s') \<Longrightarrow> i_vfExec s \<noteq> [] \<and> length (i_vfExec s') = length (i_vfExec s) - 1"
  by (auto simp: eval_instr_def Let_def dispatch_def count_op_def exec_op_def op_if_def op_else_def op_endif_def step_defs
      split: if_splits list.splits)

lemma eval_tokens_nesting:
  "eval_tokens ssl chk flags ts s = Some s' \<Longrightarrow> proper ts \<Longrightarrow> nesting (length (i_vfExec s)) ts = Some (length (i_vfExec s'))"
proof (induction ts arbitrary: s)
  case (Cons t ts)
  obtain opcode vch pc where op: "token_op t = (opcode, vch, pc)" by (cases "token_op t")
  with Cons.prems(1) obtain u where u: "eval_instr ssl chk flags opcode vch pc s = (True, u)" "eval_tokens ssl chk flags ts u = Some s'"
    by (auto simp: Let_def split: prod.splits bool.splits)
  show ?case
  proof (cases t)
    case (Plain opcode' vch' pc')
    then have "opcode \<notin> {OP_IF, OP_NOTIF, OP_ELSE, OP_ENDIF}" "proper ts" using op Cons.prems(2) by (auto simp: token_op_def)
    then show ?thesis using Cons.IH [OF u(2)] eval_instr_flags [OF u(1)] Plain by simp
  next
    case (If_Op neg)
    then have "length (i_vfExec u) = Suc (length (i_vfExec s))" using eval_instr_marks(1) [of ssl chk flags neg vch pc s u] op u(1)
      by (auto simp: token_op_def split: if_splits)
    then show ?thesis using Cons.IH [OF u(2)] Cons.prems(2) If_Op by simp
  next
    case Else_Op
    then have "i_vfExec s \<noteq> [] \<and> length (i_vfExec u) = length (i_vfExec s)" using eval_instr_marks(2) op u(1) by (auto simp: token_op_def)
    then show ?thesis using Cons.IH [OF u(2)] Cons.prems(2) Else_Op by simp
  next
    case Endif_Op
    then have "i_vfExec s \<noteq> [] \<and> length (i_vfExec u) = length (i_vfExec s) - 1" using eval_instr_marks(3) op u(1) by (auto simp: token_op_def)
    then show ?thesis using Cons.IH [OF u(2)] Cons.prems(2) Endif_Op by simp
  qed
qed simp

section \<open>Properties\<close>

lemma eval_script_tree:
  "eval_script ssl chk flags stack script c = (True, s') \<longleftrightarrow>
     length script \<le> 10000 \<and> (\<exists>b. tokens script = Some (flat b) \<and> run ssl chk flags True b (start script stack c) = Some s')"
proof (cases "length script \<le> 10000")
  case True
  let ?s = "start script stack c"
  have s: "?s\<lparr>i_vfExec := []\<rparr> = ?s" "i_vfExec ?s = []" by (simp_all add: start_def)
  have flat: "eval_tokens ssl chk flags (flat b) ?s = map_option (\<lambda>s'. s'\<lparr>i_vfExec := []\<rparr>) (run ssl chk flags True b ?s) \<and>
      (\<forall>s'. run ssl chk flags True b ?s = Some s' \<longrightarrow> i_vfExec s' = [])" if "tokens script = Some (flat b)" for b
    using eval_flat(1) [OF tokens_proper [OF that] s(2), of ssl chk flags "[]" "[]"] s(1)
    by (cases "run ssl chk flags True b ?s") simp_all
  have same: "(s'\<lparr>i_vfExec := []\<rparr> = t \<and> i_vfExec t = []) \<longleftrightarrow> s' = t" if "i_vfExec s' = []" for s' t :: interp
    using that by (cases s') auto
  have "eval_loop ssl chk flags script ?s = (True, s') \<longleftrightarrow>
      (\<exists>b. tokens script = Some (flat b) \<and> run ssl chk flags True b ?s = Some s')"
  proof
    assume "eval_loop ssl chk flags script ?s = (True, s')"
    then obtain ts where ts: "tokens script = Some ts" "eval_tokens ssl chk flags ts ?s = Some s'" "i_vfExec s' = []"
      by (auto simp: eval_loop_tokens)
    then have "nesting 0 ts = Some 0" using eval_tokens_nesting [OF ts(2) tokens_proper [OF ts(1)]] s(2) by simp
    then obtain b where b: "ts = flat b" using nested_tree [of 0 ts] by auto
    then show "\<exists>b. tokens script = Some (flat b) \<and> run ssl chk flags True b ?s = Some s'"
      using flat [of b] ts same by (intro exI [of _ b]) auto
  next
    assume "\<exists>b. tokens script = Some (flat b) \<and> run ssl chk flags True b ?s = Some s'"
    then obtain b where b: "tokens script = Some (flat b)" "run ssl chk flags True b ?s = Some s'" by blast
    then show "eval_loop ssl chk flags script ?s = (True, s')" using flat [OF b(1)] same [of s' s'] by (auto simp: eval_loop_tokens)
  qed
  then show ?thesis using True by (simp add: eval_script_def)
qed (simp add: eval_script_def stop_def)

text \<open>C25: EvalScript is the interpreter of nested conditionals: it answers true exactly for the scripts of at most
  10000 bytes that can be read to their end, whose conditionals are nested and closed, and whose tree runs to its end; the stack and the cache
  are then what the tree leaves. The tree runs a branch or skips it as a whole, charges every opcode above \<open>OP_16\<close>, also
  skipped ones, against the limit of 201, refuses values above 520 bytes and disabled opcodes wherever they stand, and keeps the two
  stacks within 1000 elements.\<close>

theorem evaluation_of_trees:
  "EvalScript env stack script tx nIn flags t c = (True, st, c') \<longleftrightarrow>
     length script \<le> 10000 \<and>
     (\<exists>b s. tokens script = Some (flat b) \<and>
        run (se_ssl env) (\<lambda>vchSig vchPubKey scriptCode c. CheckSig env vchSig vchPubKey scriptCode tx nIn t flags c) flags True b
          (start script stack c) = Some s \<and> st = i_stack s \<and> c' = i_cache s)"
proof -
  let ?chk = "\<lambda>vchSig vchPubKey scriptCode c. CheckSig env vchSig vchPubKey scriptCode tx nIn t flags c"
  have "EvalScript env stack script tx nIn flags t c = (True, st, c') \<longleftrightarrow>
      (\<exists>s. eval_script (se_ssl env) ?chk flags stack script c = (True, s) \<and> st = i_stack s \<and> c' = i_cache s)"
    by (cases "eval_script (se_ssl env) ?chk flags stack script c") (auto simp: EvalScript_def)
  then show ?thesis unfolding eval_script_tree by blast
qed

end
