(* ===== verification/Util.thy ===== *)
theory Util
  imports Transactions
begin

text \<open>
  The pure functions of \<open>src/src/lib/core/util.cpp\<close> and \<open>util.h\<close>: hex and decimal text, amounts of
  money, splitting and matching of strings, uniform random numbers, the median filter. A C string is
  a list of characters that stops at the first zero byte.
\<close>

section \<open>C strings and numbers\<close>

definition c_str :: "string \<Rightarrow> string" where
  "c_str s = takeWhile (\<lambda>c. c \<noteq> CHR 0x00) s"

definition isdigit :: "char \<Rightarrow> bool" where
  "isdigit c = (of_char c \<in> {48 :: nat..57})"

definition digit_value :: "char \<Rightarrow> nat" where
  "digit_value c = of_char c - 48"

definition dec_value :: "string \<Rightarrow> nat" where
  "dec_value s = foldl (\<lambda>v c. 10 * v + digit_value c) 0 s"

text \<open>What \<open>strtol\<close> and its relatives read: white space, a sign, digits.\<close>

definition strto_int :: "string \<Rightarrow> int option" where
  "strto_int s =
     (let s = dropWhile isspace s;
          neg = (s \<noteq> [] \<and> hd s = CHR ''-'');
          s = (if s \<noteq> [] \<and> hd s \<in> {CHR ''-'', CHR ''+''} then tl s else s);
          ds = takeWhile isdigit s
      in if ds = [] then None else Some (if neg then - int (dec_value ds) else int (dec_value ds)))"

definition strtoll :: "string \<Rightarrow> int" where
  "strtoll s = (case strto_int (c_str s) of None \<Rightarrow> 0 | Some v \<Rightarrow> max (- (2 ^ 63)) (min (2 ^ 63 - 1) v))"

definition atoi64 :: "string \<Rightarrow> 64 word" where
  "atoi64 s = of_int (strtoll s)"

text \<open>\<open>atoi\<close> cuts the \<open>long\<close> to an \<open>int\<close>, as the C library of the target does.\<close>

definition atoi :: "string \<Rightarrow> int" where
  "atoi s = sint (of_int (strtoll s) :: u32)"

text \<open>\<open>std::stoi\<close> and \<open>std::stoul\<close>.\<close>

definition stoi :: "string \<Rightarrow> int result" where
  "stoi s =
     (case strto_int (c_str s) of
        None \<Rightarrow> Inl (Thrown ''std::invalid_argument'')
      | Some v \<Rightarrow> if - (2 ^ 31) \<le> v \<and> v < 2 ^ 31 then Inr v else Inl OutOfRange)"

definition stoul :: "string \<Rightarrow> u64 result" where
  "stoul s =
     (case strto_int (c_str s) of
        None \<Rightarrow> Inl (Thrown ''std::invalid_argument'')
      | Some v \<Rightarrow> if \<bar>v\<bar> < 2 ^ 64 then Inr (of_int v) else Inl OutOfRange)"

section \<open>Hex\<close>

definition IsHex :: "string \<Rightarrow> bool" where
  "IsHex str =
     (if \<exists>c \<in> set str. HexDigit c < 0 then False
      else length str > 0 \<and> length str mod 2 = 0)"

function ParseHex_loop :: "string \<Rightarrow> data \<Rightarrow> data" where
  "ParseHex_loop psz vch =
     (case dropWhile isspace psz of
        [] \<Rightarrow> vch
      | c # psz \<Rightarrow>
          if HexDigit c = -1 then vch
          else case psz of
                 [] \<Rightarrow> vch
               | d # psz \<Rightarrow>
                   if HexDigit d = -1 then vch
                   else ParseHex_loop psz
                     (vch @ [push_bit 4 (word_of_int (HexDigit c)) OR word_of_int (HexDigit d)]))"
  by pat_completeness auto
termination
proof (relation "measure (\<lambda>(psz, vch). length psz)")
  fix psz c psz' d psz'' and vch :: data
  assume "dropWhile isspace psz = c # psz'" "psz' = d # psz''"
  then have "length (c # d # psz'') \<le> length psz" using length_dropWhile_le [of isspace psz] by metis
  then show "((psz'', vch @ [push_bit 4 (word_of_int (HexDigit c)) OR word_of_int (HexDigit d)]), psz, vch)
      \<in> measure (\<lambda>(psz, vch). length psz)" by simp
qed simp

declare ParseHex_loop.simps [simp del]

definition ParseHex :: "string \<Rightarrow> data" where
  "ParseHex str = ParseHex_loop (c_str str) []"

section \<open>Money\<close>

text \<open>\<open>%08d\<close> and the loop that trims zeros, on the reversed text.\<close>

definition dec_padded :: "nat \<Rightarrow> nat \<Rightarrow> string" where
  "dec_padded w n = replicate (w - length (dec_nat n)) CHR ''0'' @ dec_nat n"

fun trim_zeros :: "string \<Rightarrow> string" where
  "trim_zeros (a # b # c # s) = (if a = CHR ''0'' \<and> isdigit c then trim_zeros (b # c # s) else a # b # c # s)"
| "trim_zeros s = s"

definition FormatMoney :: "64 word \<Rightarrow> bool \<Rightarrow> string" where
  "FormatMoney n fPlus =
     (let n_abs = (if 0 <s n then n else - n);
          quotient = unat n_abs div 100000000;
          remainder = unat n_abs mod 100000000;
          str = dec_nat quotient @ ''.'' @ dec_padded 8 remainder;
          str = rev (trim_zeros (rev str))
      in if n <s 0 then CHR ''-'' # str
         else if fPlus \<and> 0 <s n then CHR ''+'' # str
         else str)"

text \<open>The digits after the point, and the loop over the text; the last component is the rest.\<close>

fun ParseMoney_units :: "string \<Rightarrow> 64 word \<Rightarrow> 64 word \<Rightarrow> 64 word \<times> string" where
  "ParseMoney_units [] nMult nUnits = (nUnits, [])"
| "ParseMoney_units (c # p) nMult nUnits =
     (if isdigit c \<and> 0 <s nMult then
        ParseMoney_units p (of_int (sint nMult div 10)) (nUnits + nMult * of_nat (digit_value c))
      else (nUnits, c # p))"

fun ParseMoney_loop :: "string \<Rightarrow> string \<Rightarrow> (string \<times> 64 word \<times> string) option" where
  "ParseMoney_loop [] strWhole = Some (strWhole, 0, [])"
| "ParseMoney_loop (c # p) strWhole =
     (if c = CHR ''.'' then
        let (nUnits, p) = ParseMoney_units p (1000000 * 10) 0 in Some (strWhole, nUnits, p)
      else if isspace c then Some (strWhole, 0, c # p)
      else if \<not> isdigit c then None
      else ParseMoney_loop p (strWhole @ [c]))"

definition ParseMoney :: "string \<Rightarrow> 64 word option" where
  "ParseMoney str =
     (case ParseMoney_loop (dropWhile isspace (c_str str)) [] of
        None \<Rightarrow> None
      | Some (strWhole, nUnits, p) \<Rightarrow>
          if \<exists>c \<in> set p. \<not> isspace c then None
          else if length strWhole > 10 then None
          else if nUnits <s 0 \<or> 100000000 <s nUnits then None
          else let nWhole = atoi64 strWhole
               in Some (nWhole * 100000000 + nUnits))"

section \<open>Strings\<close>

function ParseString_loop :: "string \<Rightarrow> char \<Rightarrow> string list \<Rightarrow> string list" where
  "ParseString_loop str c v =
     (if c \<notin> set str then v @ [str]
      else ParseString_loop (tl (dropWhile (\<lambda>d. d \<noteq> c) str)) c (v @ [takeWhile (\<lambda>d. d \<noteq> c) str]))"
  by pat_completeness auto
termination
proof (relation "measure (\<lambda>(str, c, v). length str)")
  fix str :: string and c and v :: "string list"
  assume "\<not> c \<notin> set str"
  then have "dropWhile (\<lambda>d. d \<noteq> c) str \<noteq> []" by (auto simp: dropWhile_eq_Nil_conv)
  moreover have "length (dropWhile (\<lambda>d. d \<noteq> c) str) \<le> length str" by (rule length_dropWhile_le)
  ultimately have "length (tl (dropWhile (\<lambda>d. d \<noteq> c) str)) < length str"
    by (cases "dropWhile (\<lambda>d. d \<noteq> c) str") auto
  then show "((tl (dropWhile (\<lambda>d. d \<noteq> c) str), c, v @ [takeWhile (\<lambda>d. d \<noteq> c) str]), str, c, v)
      \<in> measure (\<lambda>(str, c, v). length str)" by simp
qed simp

declare ParseString_loop.simps [simp del]

definition ParseString :: "string \<Rightarrow> char \<Rightarrow> string list \<Rightarrow> string list" where
  "ParseString str c v = (if str = [] then v else ParseString_loop str c v)"

definition safeChars :: string where
  "safeChars = ''abcdefghijklmnopqrstuvwxyzABCDEFGHIJKLMNOPQRSTUVWXYZ01234567890 .,;_/:?@''"

definition SanitizeString :: "string \<Rightarrow> string" where
  "SanitizeString str = filter (\<lambda>c. c \<in> set safeChars) str"

function WildcardMatch :: "string \<Rightarrow> string \<Rightarrow> bool" where
  "WildcardMatch psz pat =
     (case pat of
        [] \<Rightarrow> psz = []
      | m # ms \<Rightarrow>
          if m = CHR ''*'' then WildcardMatch psz ms \<or> (if psz = [] then False else WildcardMatch (tl psz) pat)
          else if psz = [] then False
          else if m \<noteq> CHR ''?'' \<and> hd psz \<noteq> m then False
          else WildcardMatch (tl psz) ms)"
  by pat_completeness auto
termination by (relation "measure (\<lambda>(psz, pat). length psz + length pat)") auto

declare WildcardMatch.simps [simp del]

section \<open>Words and comparison\<close>

definition ByteReverse :: "u32 \<Rightarrow> u32" where
  "ByteReverse value =
     (let value = drop_bit 8 (value AND 0xFF00FF00) OR push_bit 8 (value AND 0x00FF00FF)
      in push_bit 16 value OR drop_bit 16 value)"

definition TimingResistantEqual :: "data \<Rightarrow> data \<Rightarrow> bool" where
  "TimingResistantEqual a b =
     (if length b = 0 then length a = 0
      else fold (\<lambda>i accumulator. accumulator OR ucast (a ! i XOR b ! (i mod length b))) [0..<length a]
             ((of_nat (length a) XOR of_nat (length b)) :: u64) = 0)"

section \<open>Random numbers\<close>

text \<open>Draws until the number is below the largest multiple of the bound.\<close>

fun GetRand_loop :: "u64 \<Rightarrow> u64 list \<Rightarrow> (u64 \<times> u64 list) result" where
  "GetRand_loop nRange [] = Inl NoMoreInput"
| "GetRand_loop nRange (nRand # draws) = (if nRand \<ge> nRange then GetRand_loop nRange draws else Inr (nRand, draws))"

definition GetRand :: "u64 \<Rightarrow> u64 list \<Rightarrow> (u64 \<times> u64 list) result" where
  "GetRand nMax draws =
     (if nMax = 0 then Inr (0, draws)
      else let nRange = ((- 1) div nMax) * nMax
           in rbind (GetRand_loop nRange draws) (\<lambda>(nRand, draws). Inr (nRand mod nMax, draws)))"

text \<open>The generator behind \<open>insecure_rand\<close> and its two words of state.\<close>

definition insecure_rand :: "u32 \<times> u32 \<Rightarrow> u32 \<times> (u32 \<times> u32)" where
  "insecure_rand st =
     (let (Rz, Rw) = st;
          Rz = 36969 * (Rz AND 65535) + drop_bit 16 Rz;
          Rw = 18000 * (Rw AND 65535) + drop_bit 16 Rw
      in (push_bit 16 Rw + Rz, (Rz, Rw)))"

section \<open>Median filter\<close>

record CMedianFilter =
  vValues :: "int list"
  vSorted :: "int list"
  mf_nSize :: nat

definition new_median_filter :: "nat \<Rightarrow> int \<Rightarrow> CMedianFilter" where
  "new_median_filter n initial_value = \<lparr>vValues = [initial_value], vSorted = [initial_value], mf_nSize = n\<rparr>"

definition mf_input :: "int \<Rightarrow> CMedianFilter \<Rightarrow> CMedianFilter" where
  "mf_input value f =
     (let vs = (if length (vValues f) = mf_nSize f then tl (vValues f) else vValues f) @ [value]
      in f\<lparr>vValues := vs, vSorted := sort vs\<rparr>)"

definition mf_median :: "CMedianFilter \<Rightarrow> int result" where
  "mf_median f =
     (let sz = length (vSorted f)
      in rbind (rassert (sz > 0)) (\<lambda>_.
           Inr (if odd sz then vSorted f ! (sz div 2)
                else trunc_div (vSorted f ! (sz div 2 - 1) + vSorted f ! (sz div 2)) 2)))"

section \<open>Hex text is read back\<close>

lemma hex_digit_signed: "n < 16 \<Longrightarrow> HexDigit (hex_digit n) \<noteq> -1 \<and> \<not> isspace (hex_digit n)"
  by (simp add: HexDigit_hex_digit hex_digit_chars)

lemma ParseHex_loop_hex_byte: "ParseHex_loop (hex_byte b @ s) vch = ParseHex_loop s (vch @ [b])"
proof -
  have n: "unat (drop_bit 4 b) < 16" "unat (b AND 15) < 16" by simp_all
  have "push_bit 4 (drop_bit 4 b) OR (b AND 15) = b" using nibbles [OF refl refl, of b] by (simp add: or.commute)
  then have "push_bit 4 (word_of_int (int (unat (drop_bit 4 b)))) OR word_of_int (int (unat (b AND 15))) = b" by simp
  moreover have "uint (w :: byte) \<noteq> -1" for w using uint_ge_0 [of w] by linarith
  ultimately show ?thesis using n
    by (subst ParseHex_loop.simps) (simp add: hex_byte_def hex_digit_signed HexDigit_hex_digit)
qed

lemma ParseHex_loop_space: "isspace c \<Longrightarrow> ParseHex_loop (c # s) vch = ParseHex_loop s vch"
  by (subst (1 2) ParseHex_loop.simps) simp

lemma ParseHex_loop_hex:
  "ParseHex_loop (concat (map (\<lambda>b. (if f then '' '' else []) @ hex_byte b) bs)) vch = vch @ bs"
proof (induction bs arbitrary: vch)
  case (Cons b bs)
  have "isspace CHR '' ''" by (simp add: isspace_def)
  then have "ParseHex_loop ((if f then '' '' else []) @ t) vch = ParseHex_loop t vch" for t
    by (simp add: ParseHex_loop_space)
  then show ?case using Cons by (simp add: ParseHex_loop_hex_byte)
qed (simp add: ParseHex_loop.simps)

lemma hex_digit_nonzero: "n < 16 \<Longrightarrow> hex_digit n \<noteq> CHR 0x00"
proof -
  assume "n < 16"
  then have "n \<in> set [0..<16]" by simp
  moreover have "list_all (\<lambda>n. hex_digit n \<noteq> CHR 0x00) [0..<16]" by code_simp
  ultimately show ?thesis by (simp add: list_all_iff)
qed

lemma c_str_id: "CHR 0x00 \<notin> set s \<Longrightarrow> c_str s = s"
  unfolding c_str_def takeWhile_eq_all_conv by metis

lemma hex_byte_nonzero: "CHR 0x00 \<notin> set (hex_byte b)"
  using hex_digit_nonzero [of "unat (drop_bit 4 b)"] hex_digit_nonzero [of "unat (b AND 15)"] by (simp add: hex_byte_def)

lemma ParseHex_HexStr: "ParseHex (HexStr bs f) = bs"
proof (cases bs)
  case (Cons b bs')
  have "HexStr bs f = hex_byte b @ concat (map (\<lambda>b. (if f then '' '' else []) @ hex_byte b) bs')"
    by (simp add: Cons)
  moreover have "c_str (HexStr bs f) = HexStr bs f"
    using hex_byte_nonzero by (intro c_str_id) (auto simp: Cons)
  ultimately show ?thesis by (simp add: ParseHex_def ParseHex_loop_hex_byte ParseHex_loop_hex Cons)
qed (simp add: ParseHex_def c_str_def ParseHex_loop.simps)

end
