(* ===== verification/ChainParams.thy ===== *)
theory ChainParams
  imports Blocks Util Bignum
begin

text \<open>
  \<open>src/src/lib/core/chainparams.h\<close> and \<open>chainparams.cpp\<close>: the parameters of the main, test and
  regression networks, with their genesis blocks. The constructors assert the hash of the genesis
  block, so they are results. The fixed seed addresses, which carry random times, are left out.
\<close>

datatype Network = MAIN | TESTNET | REGTEST | MAX_NETWORK_TYPES

datatype Base58Type =
  PUBKEY_ADDRESS | SCRIPT_ADDRESS | SECRET_KEY | EXT_PUBLIC_KEY | EXT_SECRET_KEY | MAX_BASE58_TYPES

record CChainParams =
  hashGenesisBlock :: base_uint
  pchMessageStart :: data
  vAlertPubKey :: data
  nDefaultPort :: int
  nRPCPort :: int
  bnProofOfWorkLimit :: bignum
  nSubsidyHalvingInterval :: int
  strDataDir :: string
  vSeeds :: "(string \<times> string) list"
  base58Prefixes :: "Base58Type \<Rightarrow> data"
  genesis :: CBlock
  NetworkID :: Network
  RequireRPCPassword :: bool

definition Base58Prefix :: "CChainParams \<Rightarrow> Base58Type \<Rightarrow> data" where
  "Base58Prefix params typ = base58Prefixes params typ"

text \<open>The single transaction of the genesis block.\<close>

definition pszTimestamp :: string where
  "pszTimestamp = ''The Times 03/Jan/2009 Chancellor on brink of second bailout for banks''"

definition genesis_tx :: "openssl \<Rightarrow> CTransaction" where
  "genesis_tx ssl =
     null_tx\<lparr>tx_vin := [empty_txin\<lparr>ti_scriptSig :=
         push_data (push_bignum ssl (push_int64 ssl [] 486604799) 4) (map of_char pszTimestamp)\<rparr>],
       tx_vout := [\<lparr>to_nValue = 50 * 100000000,
         to_scriptPubKey = push_opcode (push_data [] (ParseHex ''04678afdb0fe5548271967f1a67130b7105cd6a828e03909a67962e0ea1f61deb649f6bc3f4cef38c4f35504e51ec112de5c384df7ba0b8d578a4c702b6bf11d5f'')) OP_CHECKSIG\<rparr>]\<rparr>"

definition genesis_block :: "openssl \<Rightarrow> CBlock" where
  "genesis_block ssl =
     (let b = \<lparr>bh_nVersion = 2, bh_hashPrevBlock = bu_of_u64 8 0, bh_hashMerkleRoot = bu_of_u64 8 0,
            bh_nTime = 0, bh_nBits = 0, bh_nNonce = 0, b_vtx = [genesis_tx ssl], b_vMerkleTree = []\<rparr>;
          b = b\<lparr>bh_hashPrevBlock := bu_of_u64 8 0\<rparr>;
          (root, b) = BuildMerkleTree ssl b
      in b\<lparr>bh_hashMerkleRoot := root, bh_nVersion := 1, bh_nTime := 1231006505, bh_nBits := 0x1d00ffff,
           bh_nNonce := 2083236893\<rparr>)"

definition CMainParams :: "openssl \<Rightarrow> CChainParams result" where
  "CMainParams ssl =
     (let gen = genesis_block ssl;
          params = \<lparr>hashGenesisBlock = bh_GetHash ssl gen,
            pchMessageStart = [0xf9, 0xbe, 0xb4, 0xd9],
            vAlertPubKey = ParseHex ''04fc9702847840aaf195de8442ebecedf5b095cdbb9bc716bda9110971b28a49e0ead8564ff0db22209e0374782c093bb899692d524e9d6a6956e7c5ecbcd68284'',
            nDefaultPort = 8333, nRPCPort = 8332,
            bnProofOfWorkLimit = setuint256 ssl (bu_shr (bu_compl (bu_of_u64 8 0)) 32),
            nSubsidyHalvingInterval = 210000, strDataDir = '''',
            vSeeds = [(''bitcoin.sipa.be'', ''seed.bitcoin.sipa.be''), (''bluematt.me'', ''dnsseed.bluematt.me''),
              (''dashjr.org'', ''dnsseed.bitcoin.dashjr.org''), (''bitcoinstats.com'', ''seed.bitcoinstats.com''),
              (''xf2.org'', ''bitseed.xf2.org'')],
            base58Prefixes = (\<lambda>_. [])(PUBKEY_ADDRESS := [0], SCRIPT_ADDRESS := [5], SECRET_KEY := [128],
              EXT_PUBLIC_KEY := [0x04, 0x88, 0xB2, 0x1E], EXT_SECRET_KEY := [0x04, 0x88, 0xAD, 0xE4]),
            genesis = gen, NetworkID = MAIN, RequireRPCPassword = True\<rparr>
      in rbind (rassert (hashGenesisBlock params =
             SetHex 8 ''0x000000000019d6689c085ae165831e934ff763ae46a2a6c172b3f1b60a8ce26f'')) (\<lambda>_.
         rbind (rassert (bh_hashMerkleRoot gen =
             SetHex 8 ''0x4a5e1e4baab89f3a32518a88c31bc87f618f76673e2cc77ab2127b7afdeda33b'')) (\<lambda>_.
           Inr params)))"

text \<open>Each derived constructor starts from the parameters of its base class.\<close>

definition CTestNetParams :: "openssl \<Rightarrow> CChainParams result" where
  "CTestNetParams ssl =
     rbind (CMainParams ssl) (\<lambda>params.
       let gen = (genesis params)\<lparr>bh_nTime := 1296688602, bh_nNonce := 414098458\<rparr>;
           params = params\<lparr>pchMessageStart := [0x0b, 0x11, 0x09, 0x07],
             vAlertPubKey := ParseHex ''04302390343f91cc401d56d68b123028bf52e5fca1939df127f63c6467cdf9c8e2c14b61104cf817d0b780da337893ecc4aaff1309e536162dabbdb45200ca2b0a'',
             nDefaultPort := 18333, nRPCPort := 18332, strDataDir := ''testnet3'',
             genesis := gen, hashGenesisBlock := bh_GetHash ssl gen\<rparr>
       in rbind (rassert (hashGenesisBlock params =
              SetHex 8 ''0x000000000933ea01ad0ee984209779baaec3ced90fa3f408719526f8d77f4943'')) (\<lambda>_.
            Inr (params\<lparr>
              vSeeds := [(''bitcoin.petertodd.org'', ''testnet-seed.bitcoin.petertodd.org''),
                (''bluematt.me'', ''testnet-seed.bluematt.me'')],
              base58Prefixes := (base58Prefixes params)(PUBKEY_ADDRESS := [111], SCRIPT_ADDRESS := [196],
                SECRET_KEY := [239], EXT_PUBLIC_KEY := [0x04, 0x35, 0x87, 0xCF],
                EXT_SECRET_KEY := [0x04, 0x35, 0x83, 0x94]),
              NetworkID := TESTNET\<rparr>)))"

definition CRegTestParams :: "openssl \<Rightarrow> CChainParams result" where
  "CRegTestParams ssl =
     rbind (CTestNetParams ssl) (\<lambda>params.
       let gen = (genesis params)\<lparr>bh_nTime := 1296688602, bh_nBits := 0x207fffff, bh_nNonce := 2\<rparr>;
           params = params\<lparr>pchMessageStart := [0xfa, 0xbf, 0xb5, 0xda],
             nSubsidyHalvingInterval := 150,
             bnProofOfWorkLimit := setuint256 ssl (bu_shr (bu_compl (bu_of_u64 8 0)) 1),
             genesis := gen, hashGenesisBlock := bh_GetHash ssl gen,
             nDefaultPort := 18444, strDataDir := ''regtest''\<rparr>
       in rbind (rassert (hashGenesisBlock params =
              SetHex 8 ''0x0f9188f13cb7b2c71f2a335e3a4fc328bf5beb436012afca590b1a11466e2206'')) (\<lambda>_.
            Inr (params\<lparr>vSeeds := [], NetworkID := REGTEST, RequireRPCPassword := False\<rparr>)))"

fun SelectParams :: "openssl \<Rightarrow> Network \<Rightarrow> CChainParams result" where
  "SelectParams ssl MAIN = CMainParams ssl"
| "SelectParams ssl TESTNET = CTestNetParams ssl"
| "SelectParams ssl REGTEST = CRegTestParams ssl"
| "SelectParams ssl MAX_NETWORK_TYPES = Inl AssertFailed"

definition TestNet :: "CChainParams \<Rightarrow> bool" where
  "TestNet params \<longleftrightarrow> NetworkID params = TESTNET"

definition RegTest :: "CChainParams \<Rightarrow> bool" where
  "RegTest params \<longleftrightarrow> NetworkID params = REGTEST"

section \<open>Prefixes\<close>

text \<open>What the addresses and secret keys need of the prefixes, and every network has.\<close>

definition prefixes_ok :: "CChainParams \<Rightarrow> bool" where
  "prefixes_ok params \<longleftrightarrow>
     length (Base58Prefix params PUBKEY_ADDRESS) = 1 \<and> length (Base58Prefix params SCRIPT_ADDRESS) = 1 \<and>
     length (Base58Prefix params SECRET_KEY) = 1 \<and>
     Base58Prefix params PUBKEY_ADDRESS \<noteq> Base58Prefix params SCRIPT_ADDRESS"

lemma SelectParams_prefixes: "SelectParams ssl net = Inr params \<Longrightarrow> prefixes_ok params"
  by (cases net)
    (auto simp: prefixes_ok_def Base58Prefix_def CMainParams_def CTestNetParams_def CRegTestParams_def Let_def result_simps)

end
