(* ===== verification/Base58.thy ===== *)
theory Base58
  imports ChainParams Sighash
begin

text \<open>
  \<open>src/src/lib/core/base58.h\<close>: base 58, with and without a checksum, the addresses and the secret
  keys written in it. A function that fills a vector and answers whether it succeeded returns the
  pair of both; \<open>Params()\<close> is an argument.
\<close>

section \<open>Base 58\<close>

definition pszBase58 :: string where
  "pszBase58 = ''123456789ABCDEFGHJKLMNPQRSTUVWXYZabcdefghijkmnopqrstuvwxyz''"

function EncodeBase58_loop :: "bignum \<Rightarrow> string \<Rightarrow> string" where
  "EncodeBase58_loop bn str =
     (if bn > 0 then
        let dv = bn div 58; rem = bn mod 58;
            c = getulong rem
        in EncodeBase58_loop dv (str @ [pszBase58 ! unat c])
      else str)"
  by pat_completeness auto
termination by (relation "measure (\<lambda>(bn, str). nat bn)") auto

declare EncodeBase58_loop.simps [simp del]

definition EncodeBase58 :: "openssl \<Rightarrow> data \<Rightarrow> string" where
  "EncodeBase58 ssl vch =
     (let vchTmp = rev vch @ [0];
          bn = setvch ssl vchTmp;
          str = EncodeBase58_loop bn [];
          str = str @ map (\<lambda>_. pszBase58 ! 0) (takeWhile (\<lambda>p. p = 0) vch)
      in rev str)"

text \<open>\<open>strchr\<close> finds the position of a character.\<close>

fun strchr :: "string \<Rightarrow> char \<Rightarrow> nat option" where
  "strchr [] c = None"
| "strchr (d # s) c = (if d = c then Some 0 else map_option Suc (strchr s c))"

fun DecodeBase58_loop :: "string \<Rightarrow> bignum \<Rightarrow> bignum option" where
  "DecodeBase58_loop [] bn = Some bn"
| "DecodeBase58_loop (c # p) bn =
     (case strchr pszBase58 c of
        None \<Rightarrow> if dropWhile isspace (c # p) \<noteq> [] then None else Some bn
      | Some p1 \<Rightarrow> let bnChar = setulong (of_nat p1) in DecodeBase58_loop p (bn * 58 + bnChar))"

text \<open>The sign byte of a positive number is dropped.\<close>

definition trim_sign :: "data \<Rightarrow> data" where
  "trim_sign vchTmp =
     (if length vchTmp \<ge> 2 \<and> last vchTmp = 0 \<and> last (butlast vchTmp) \<ge> 0x80 then butlast vchTmp else vchTmp)"

definition DecodeBase58 :: "openssl \<Rightarrow> string \<Rightarrow> bool \<times> data" where
  "DecodeBase58 ssl psz =
     (let psz = dropWhile isspace (c_str psz)
      in case DecodeBase58_loop psz 0 of
           None \<Rightarrow> (False, [])
         | Some bn \<Rightarrow>
             let vchTmp = trim_sign (getvch ssl bn);
                 nLeadingZeros = length (takeWhile (\<lambda>p. p = pszBase58 ! 0) psz)
             in (True, replicate nLeadingZeros 0 @ rev vchTmp))"

definition EncodeBase58Check :: "openssl \<Rightarrow> data \<Rightarrow> string" where
  "EncodeBase58Check ssl vchIn =
     (let hash = Hash ssl vchIn
      in EncodeBase58 ssl (vchIn @ take 4 (bu_bytes hash)))"

definition DecodeBase58Check :: "openssl \<Rightarrow> string \<Rightarrow> bool \<times> data" where
  "DecodeBase58Check ssl psz =
     (let (ok, vchRet) = DecodeBase58 ssl psz
      in if \<not> ok then (False, vchRet)
         else if length vchRet < 4 then (False, [])
         else let n = length vchRet - 4;
                  hash = Hash ssl (take n vchRet)
              in if take 4 (bu_bytes hash) \<noteq> drop n vchRet then (False, [])
                 else (True, take n vchRet))"

section \<open>Base58 data\<close>

record CBase58Data =
  vchVersion :: data
  vchData :: data

definition empty_base58 :: CBase58Data where
  "empty_base58 = \<lparr>vchVersion = [], vchData = []\<rparr>"

definition SetData :: "data \<Rightarrow> data \<Rightarrow> CBase58Data \<Rightarrow> CBase58Data" where
  "SetData vchVersionIn pdata b = b\<lparr>vchVersion := vchVersionIn, vchData := pdata\<rparr>"

definition b58_SetString :: "openssl \<Rightarrow> string \<Rightarrow> nat \<Rightarrow> CBase58Data \<Rightarrow> bool \<times> CBase58Data" where
  "b58_SetString ssl psz nVersionBytes b =
     (let (_, vchTemp) = DecodeBase58Check ssl psz
      in if length vchTemp < nVersionBytes then (False, b\<lparr>vchData := [], vchVersion := []\<rparr>)
         else (True, b\<lparr>vchVersion := take nVersionBytes vchTemp, vchData := drop nVersionBytes vchTemp\<rparr>))"

definition b58_ToString :: "openssl \<Rightarrow> CBase58Data \<Rightarrow> string" where
  "b58_ToString ssl b = EncodeBase58Check ssl (vchVersion b @ vchData b)"

definition CompareTo :: "CBase58Data \<Rightarrow> CBase58Data \<Rightarrow> int" where
  "CompareTo a b58 =
     (if bytes_less (vchVersion a) (vchVersion b58) then -1
      else if bytes_less (vchVersion b58) (vchVersion a) then 1
      else if bytes_less (vchData a) (vchData b58) then -1
      else if bytes_less (vchData b58) (vchData a) then 1
      else 0)"

section \<open>Addresses\<close>

definition addr_Set_key :: "CChainParams \<Rightarrow> base_uint \<Rightarrow> CBase58Data \<Rightarrow> CBase58Data" where
  "addr_Set_key params keyID = SetData (Base58Prefix params PUBKEY_ADDRESS) (bu_bytes keyID)"

definition addr_Set_script :: "CChainParams \<Rightarrow> base_uint \<Rightarrow> CBase58Data \<Rightarrow> CBase58Data" where
  "addr_Set_script params scriptID = SetData (Base58Prefix params SCRIPT_ADDRESS) (bu_bytes scriptID)"

text \<open>The visitor \<open>CBitcoinAddressVisitor\<close> chooses between them.\<close>

fun addr_Set :: "CChainParams \<Rightarrow> CTxDestination \<Rightarrow> CBase58Data \<Rightarrow> bool \<times> CBase58Data" where
  "addr_Set params (CKeyID keyID) a = (True, addr_Set_key params keyID a)"
| "addr_Set params (CScriptID scriptID) a = (True, addr_Set_script params scriptID a)"
| "addr_Set params CNoDestination a = (False, a)"

definition addr_of_dest :: "CChainParams \<Rightarrow> CTxDestination \<Rightarrow> CBase58Data" where
  "addr_of_dest params dest = snd (addr_Set params dest empty_base58)"

definition addr_of_string :: "openssl \<Rightarrow> string \<Rightarrow> CBase58Data" where
  "addr_of_string ssl strAddress = snd (b58_SetString ssl strAddress 1 empty_base58)"

definition addr_IsValid :: "CChainParams \<Rightarrow> CBase58Data \<Rightarrow> bool" where
  "addr_IsValid params a =
     (let fCorrectSize = (length (vchData a) = 20);
          fKnownVersion = (vchVersion a = Base58Prefix params PUBKEY_ADDRESS \<or>
                           vchVersion a = Base58Prefix params SCRIPT_ADDRESS)
      in fCorrectSize \<and> fKnownVersion)"

definition addr_Get :: "CChainParams \<Rightarrow> CBase58Data \<Rightarrow> CTxDestination" where
  "addr_Get params a =
     (if \<not> addr_IsValid params a then CNoDestination
      else let idn = bu_of_bytes (vchData a)
           in if vchVersion a = Base58Prefix params PUBKEY_ADDRESS then CKeyID idn
              else if vchVersion a = Base58Prefix params SCRIPT_ADDRESS then CScriptID idn
              else CNoDestination)"

definition addr_GetKeyID :: "CChainParams \<Rightarrow> CBase58Data \<Rightarrow> base_uint option" where
  "addr_GetKeyID params a =
     (if \<not> addr_IsValid params a \<or> vchVersion a \<noteq> Base58Prefix params PUBKEY_ADDRESS then None
      else Some (bu_of_bytes (vchData a)))"

definition addr_IsScript :: "CChainParams \<Rightarrow> CBase58Data \<Rightarrow> bool" where
  "addr_IsScript params a \<longleftrightarrow> addr_IsValid params a \<and> vchVersion a = Base58Prefix params SCRIPT_ADDRESS"

section \<open>Secret keys\<close>

definition sec_SetKey :: "CChainParams \<Rightarrow> CKey \<Rightarrow> CBase58Data \<Rightarrow> CBase58Data result" where
  "sec_SetKey params vchSecret b =
     rbind (rassert (k_fValid vchSecret)) (\<lambda>_.
       let b = SetData (Base58Prefix params SECRET_KEY) (k_vch vchSecret) b
       in Inr (if k_fCompressed vchSecret then b\<lparr>vchData := vchData b @ [1]\<rparr> else b))"

text \<open>Fewer than 32 bytes of data are read past their end.\<close>

definition sec_GetKey :: "CBase58Data \<Rightarrow> CKey \<Rightarrow> CKey result" where
  "sec_GetKey b ret =
     (if length (vchData b) < 32 then Inl Undefined
      else Inr (key_Set (take 32 (vchData b)) (length (vchData b) > 32 \<and> vchData b ! 32 = 1) ret))"

definition sec_IsValid :: "CChainParams \<Rightarrow> CBase58Data \<Rightarrow> bool" where
  "sec_IsValid params b =
     (let fExpectedFormat = (length (vchData b) = 32 \<or> (length (vchData b) = 33 \<and> vchData b ! 32 = 1));
          fCorrectVersion = (vchVersion b = Base58Prefix params SECRET_KEY)
      in fExpectedFormat \<and> fCorrectVersion)"

definition sec_SetString :: "openssl \<Rightarrow> CChainParams \<Rightarrow> string \<Rightarrow> CBase58Data \<Rightarrow> bool \<times> CBase58Data" where
  "sec_SetString ssl params pszSecret b =
     (let (ok, b) = b58_SetString ssl pszSecret 1 b
      in (ok \<and> sec_IsValid params b, b))"

section \<open>The digits of a number\<close>

fun digits58 :: "nat \<Rightarrow> nat list" where
  "digits58 n = (if n = 0 then [] else n mod 58 # digits58 (n div 58))"

declare digits58.simps [simp del]

lemma digits58_0 [simp]: "digits58 0 = []"
  by (simp add: digits58.simps)

lemma digits58_pos: "0 < n \<Longrightarrow> digits58 n = n mod 58 # digits58 (n div 58)"
  by (simp add: digits58.simps [of n])

definition value58 :: "nat list \<Rightarrow> nat" where
  "value58 ds = foldl (\<lambda>v d. v * 58 + d) 0 ds"

definition char58 :: "nat \<Rightarrow> char" where
  "char58 d = pszBase58 ! d"

lemma foldl_value58: "foldl (\<lambda>v d. v * 58 + d) v ds = v * 58 ^ length ds + value58 ds"
proof (induction ds arbitrary: v)
  case (Cons d ds)
  show ?case using Cons [of "v * 58 + d"] Cons [of d] by (simp add: value58_def algebra_simps)
qed (simp add: value58_def)

lemma value58_simps [simp]: "value58 [] = 0" "value58 (d # ds) = d * 58 ^ length ds + value58 ds"
  using foldl_value58 [of d ds] by (simp_all add: value58_def)

lemma value58_append: "value58 (xs @ ys) = value58 xs * 58 ^ length ys + value58 ys"
  by (induction xs) (simp_all add: algebra_simps power_add)

lemma value58_zeros [simp]: "value58 (replicate z 0 @ ds) = value58 ds"
  by (induction z) simp_all

lemma value58_less: "\<forall>d \<in> set ds. d < 58 \<Longrightarrow> value58 ds < 58 ^ length ds"
proof (induction ds)
  case (Cons d ds)
  then have "(d + 1) * 58 ^ length ds \<le> 58 * 58 ^ length ds" by (intro mult_right_mono) auto
  moreover have "value58 ds < 58 ^ length ds" using Cons by simp
  ultimately show ?case unfolding value58_simps distrib_right mult_1 list.size(4) add_Suc_right power_Suc add_0_right by linarith
qed simp

lemma digits58_value: "value58 (rev (digits58 n)) = n"
proof (induction n rule: digits58.induct)
  case (1 n)
  then show ?case by (cases "n = 0") (simp_all add: digits58_pos value58_append)
qed

lemma digits58_bound: "d \<in> set (digits58 n) \<Longrightarrow> d < 58"
proof (induction n rule: digits58.induct)
  case (1 n)
  then show ?case by (cases "n = 0") (auto simp: digits58_pos)
qed

lemma digits58_last: "digits58 n \<noteq> [] \<Longrightarrow> last (digits58 n) \<noteq> 0"
proof (induction n rule: digits58.induct)
  case (1 n)
  have "n = 0 \<or> digits58 (n div 58) \<noteq> [] \<or> n mod 58 \<noteq> 0"
    by (cases "n < 58") (auto simp: digits58.simps [of "n div 58"] div_eq_0_iff)
  with 1 show ?case by (auto simp: digits58.simps [of n] split: if_splits)
qed

lemma digits58_unique:
  "\<forall>d \<in> set ds. d < 58 \<Longrightarrow> ds = [] \<or> hd ds \<noteq> 0 \<Longrightarrow> rev (digits58 (value58 ds)) = ds"
proof (induction ds rule: rev_induct)
  case (snoc d ds)
  have v: "value58 (ds @ [d]) = value58 ds * 58 + d" "d < 58" using snoc(2) by (simp_all add: value58_append)
  have "value58 (ds @ [d]) \<noteq> 0"
  proof (cases ds)
    case (Cons e es)
    then have "0 < e * 58 ^ length (es @ [d])" using snoc(3) by simp
    then show ?thesis by (simp add: Cons)
  qed (use snoc(3) in simp)
  moreover have "rev (digits58 (value58 ds)) = ds" using snoc by (cases ds) auto
  ultimately show ?case using v digits58_pos [of "value58 (ds @ [d])"] by simp
qed (simp add: digits58.simps)

section \<open>Base 58 is a bijection\<close>

lemma char58_props:
  assumes "d < 58"
  shows "strchr pszBase58 (char58 d) = Some d" "\<not> isspace (char58 d)" "char58 d \<noteq> CHR 0x00" "char58 d = pszBase58 ! 0 \<longleftrightarrow> d = 0"
proof -
  have d: "d \<in> set [0..<58]" using assms by simp
  have "list_all (\<lambda>d. strchr pszBase58 (char58 d) = Some d \<and> \<not> isspace (char58 d) \<and> char58 d \<noteq> CHR 0x00 \<and>
      (char58 d = pszBase58 ! 0 \<longleftrightarrow> d = 0)) [0..<58]" by code_simp
  with d show "strchr pszBase58 (char58 d) = Some d" "\<not> isspace (char58 d)" "char58 d \<noteq> CHR 0x00"
    "char58 d = pszBase58 ! 0 \<longleftrightarrow> d = 0" unfolding list_all_iff by blast+
qed

lemma char58_range: "c \<in> set pszBase58 \<Longrightarrow> \<exists>d < 58. c = char58 d"
proof -
  assume "c \<in> set pszBase58"
  then obtain d where "d < length pszBase58" "c = pszBase58 ! d" by (metis in_set_conv_nth)
  moreover have "length pszBase58 = 58" by code_simp
  ultimately show ?thesis by (auto simp: char58_def)
qed

lemma EncodeBase58_loop_digits: "EncodeBase58_loop (int n) str = str @ map char58 (digits58 n)"
proof (induction n arbitrary: str rule: digits58.induct)
  case (1 n)
  show ?case
  proof (cases "n = 0")
    case False
    have "getulong (int n mod 58) = of_nat (n mod 58)"
    proof -
      have "int n mod 58 = int (n mod 58)" by (simp add: zmod_int)
      moreover have "n mod 58 < 58" by simp
      ultimately show ?thesis by (simp add: getulong_def BN_get_word_def)
    qed
    moreover have "unat (of_nat (n mod 58) :: u64) = n mod 58" by (simp add: unat_of_nat)
    ultimately show ?thesis using 1 [of "str @ [char58 (n mod 58)]"] False
      by (simp add: EncodeBase58_loop.simps [of "int n"] digits58.simps [of n] char58_def zdiv_int Let_def)
  qed (simp add: EncodeBase58_loop.simps digits58.simps)
qed

lemma DecodeBase58_loop_digits:
  "\<forall>d \<in> set ds. d < 58 \<Longrightarrow> DecodeBase58_loop (map char58 ds) bn = Some (bn * 58 ^ length ds + int (value58 ds))"
proof (induction ds arbitrary: bn)
  case (Cons d ds)
  then have "setulong (of_nat d) = int d" by (simp add: setulong_def uint_nat unat_of_nat)
  with Cons show ?case by (simp add: char58_props(1) algebra_simps)
qed simp

lemma trim_sign_getvch:
  assumes "bignum_ok ssl" "0 \<le> n" "n < 256 ^ 1000"
  shows "int (be_value (rev (trim_sign (getvch ssl n)))) = n \<and>
    (rev (trim_sign (getvch ssl n)) = [] \<or> hd (rev (trim_sign (getvch ssl n))) \<noteq> 0)"
proof -
  obtain bs where bs: "n = int (be_value bs)" using be_bytes_value [of "nat n"] assms(2) by (metis int_nat_eq)
  define w where "w = dropWhile (\<lambda>b. b = 0) bs"
  have w: "n = int (be_value w)" "w = [] \<or> hd w \<noteq> 0"
    using bs hd_dropWhile [of "\<lambda>b. b = 0" bs] by (auto simp: w_def be_value_strip)
  have "mpi_value (mpi_digits False bs) = n" by (simp add: mpi_digits_value bs)
  then have "rev (getvch ssl n) = mpi_digits False bs"
    using getvch_value [OF assms(1), of n] assms(2,3) mpi_digits_minimal by (intro mpi_minimal_unique) auto
  then have g: "getvch ssl n = rev (mpi_digits False bs)" by (metis rev_rev_ident)
  have "trim_sign (getvch ssl n) = rev w"
  proof (cases w)
    case Nil
    then show ?thesis by (simp add: g mpi_digits_def w_def [symmetric] trim_sign_def)
  next
    case (Cons c cs)
    have c: "bit c 7 \<longleftrightarrow> c \<ge> 0x80"
    proof (cases "bit c 7")
      case False
      then have "unat c < 128" using byte_split7 [of c] by (metis add_0 mod_less_divisor zero_less_numeral)
      with False show ?thesis by (simp add: word_le_nat_alt)
    qed (use byte_split7 [of c] in \<open>simp add: word_le_nat_alt\<close>)
    show ?thesis using Cons w(2) c by (auto simp: g mpi_digits_def w_def [symmetric] trim_sign_def)
  qed
  with w show ?thesis by simp
qed

lemma be_value_lower: "x \<noteq> [] \<Longrightarrow> hd x \<noteq> 0 \<Longrightarrow> 256 ^ (length x - 1) \<le> be_value x"
proof (cases x)
  case (Cons b bs)
  assume "x \<noteq> []" "hd x \<noteq> 0"
  with Cons have "1 \<le> unat b" by (simp add: unat_gt_0 Suc_leI)
  then have "256 ^ length bs \<le> unat b * 256 ^ length bs" by simp
  then show ?thesis unfolding Cons be_value_simps list.size(4) add_0_right add_Suc_right diff_Suc_1 by (rule trans_le_add1)
qed simp

lemma be_value_canonical:
  assumes "be_value v = be_value w" "v = [] \<or> hd v \<noteq> 0" "w = [] \<or> hd w \<noteq> 0"
  shows "v = w"
proof -
  have le: "length x \<le> length y" if "be_value x = be_value y" "x = [] \<or> hd x \<noteq> 0" for x y
  proof (rule ccontr)
    assume n: "\<not> length x \<le> length y"
    then have "256 ^ length y \<le> (256 :: nat) ^ (length x - 1)" by (intro power_increasing) auto
    moreover have "256 ^ (length x - 1) \<le> be_value x" using n that(2) by (intro be_value_lower) auto
    ultimately show False using be_value_less [of y] that(1) by linarith
  qed
  have "length v = length w" using le [of v w] le [of w v] assms by simp
  then show ?thesis using assms(1) by (rule be_value_inj)
qed

text \<open>Leading zeros and minimal digits, of bytes and of base 58.\<close>

lemma split_zeros: "\<exists>z w. xs = replicate z 0 @ w \<and> (w = [] \<or> hd w \<noteq> (0 :: 'a :: zero)) \<and> takeWhile (\<lambda>x. x = 0) xs = replicate z 0"
proof (induction xs)
  case (Cons x xs)
  then obtain z w where *: "xs = replicate z 0 @ w" "w = [] \<or> hd w \<noteq> 0" "takeWhile (\<lambda>x. x = 0) xs = replicate z 0" by blast
  show ?case
  proof (cases "x = 0")
    case True
    with * show ?thesis by (intro exI [of _ "Suc z"] exI [of _ w]) simp
  next
    case False
    then show ?thesis by (intro exI [of _ 0] exI [of _ "x # xs"]) simp
  qed
qed simp

lemma EncodeBase58_form:
  assumes "bignum_ok ssl" "length v \<le> 1000"
  shows "EncodeBase58 ssl v =
    map char58 (replicate (length (takeWhile (\<lambda>b. b = 0) v)) 0 @ rev (digits58 (be_value v)))"
proof -
  have "setvch ssl (rev v @ [0]) = int (be_value v)"
    using assms by (subst setvch_value) simp_all
  moreover have "map (\<lambda>_. pszBase58 ! 0) xs = replicate (length xs) (pszBase58 ! 0)" for xs :: data
    by (simp add: map_replicate_const)
  ultimately show ?thesis
    by (simp add: EncodeBase58_def Let_def EncodeBase58_loop_digits char58_def rev_map)
qed

lemma DecodeBase58_form:
  assumes "bignum_ok ssl" "\<forall>d \<in> set ds. d < 58" "ds = replicate z 0 @ es" "es = [] \<or> hd es \<noteq> 0"
    and "value58 ds < 256 ^ 1000"
  shows "DecodeBase58 ssl (map char58 ds) = (True, replicate z 0 @ rev (trim_sign (getvch ssl (int (value58 ds)))))"
proof -
  have "c_str (map char58 ds) = map char58 ds" using assms(2) char58_props(3) by (intro c_str_id) fastforce
  moreover have "dropWhile isspace (map char58 ds) = map char58 ds"
    using assms(2) char58_props(2) by (cases ds) auto
  moreover have "takeWhile (\<lambda>p. p = pszBase58 ! 0) (map char58 ds) = replicate z (pszBase58 ! 0)"
  proof -
    have "takeWhile (\<lambda>p. p = pszBase58 ! 0) (map char58 es) = []"
      using assms(2-4) char58_props(4) by (cases es) auto
    moreover have "map char58 (replicate z 0) = replicate z (pszBase58 ! 0)" by (simp add: char58_def)
    ultimately show ?thesis unfolding assms(3) map_append by (subst takeWhile_append2) auto
  qed
  ultimately show ?thesis using DecodeBase58_loop_digits [OF assms(2), of 0]
    by (simp add: DecodeBase58_def)
qed

lemma DecodeBase58_Encode:
  assumes "bignum_ok ssl" "length v \<le> 900"
  shows "DecodeBase58 ssl (EncodeBase58 ssl v) = (True, v)"
proof -
  obtain z w where w: "v = replicate z 0 @ w" "w = [] \<or> hd w \<noteq> 0" "takeWhile (\<lambda>b. b = 0) v = replicate z 0"
    using split_zeros [of v] by blast
  define n where "n = be_value v"
  have n: "n = be_value w" using w(1) be_value_replicate_0 by (simp add: n_def)
  have "(256 :: nat) ^ length v \<le> 256 ^ 1000" using assms(2) by (intro power_increasing) auto
  then have b: "n < 256 ^ 1000" using be_value_less [of v] unfolding n_def by (rule order_less_le_trans [rotated])
  let ?ds = "replicate z 0 @ rev (digits58 n)"
  have e: "rev (digits58 n) = [] \<or> hd (rev (digits58 n)) \<noteq> 0" using digits58_last [of n] by (cases "digits58 n = []") (simp_all add: hd_rev)
  have "\<forall>d \<in> set ?ds. d < 58" using digits58_bound by auto
  from DecodeBase58_form [OF assms(1) this refl e] b
  have "DecodeBase58 ssl (map char58 ?ds) = (True, replicate z 0 @ rev (trim_sign (getvch ssl (int n))))"
    by (simp add: digits58_value)
  moreover have "EncodeBase58 ssl v = map char58 ?ds" using assms w(3) by (simp add: EncodeBase58_form n_def)
  moreover have "rev (trim_sign (getvch ssl (int n))) = w"
  proof -
    have "int n < 256 ^ 1000" using b by (metis of_nat_less_iff of_nat_numeral of_nat_power)
    from trim_sign_getvch [OF assms(1) _ this] have t: "be_value (rev (trim_sign (getvch ssl (int n)))) = n"
      "rev (trim_sign (getvch ssl (int n))) = [] \<or> hd (rev (trim_sign (getvch ssl (int n)))) \<noteq> 0" by simp_all
    show ?thesis using be_value_canonical [OF _ t(2) w(2)] t(1) n by simp
  qed
  ultimately show ?thesis using w(1) by simp
qed

lemma EncodeBase58_Decode:
  assumes "bignum_ok ssl" "set s \<subseteq> set pszBase58" "length s \<le> 900"
  shows "\<exists>v. DecodeBase58 ssl s = (True, v) \<and> EncodeBase58 ssl v = s"
proof -
  have "\<forall>c \<in> set s. \<exists>d < 58. c = char58 d" using assms(2) char58_range by blast
  then have "\<exists>ds. s = map char58 ds \<and> (\<forall>d \<in> set ds. d < 58)"
  proof (induction s)
    case (Cons c s)
    then obtain ds d where "s = map char58 ds" "\<forall>d \<in> set ds. d < 58" "c = char58 d" "d < 58" by auto
    then show ?case by (intro exI [of _ "d # ds"]) simp
  qed simp
  then obtain ds where ds: "s = map char58 ds" "\<forall>d \<in> set ds. d < 58" by blast
  obtain z es where es: "ds = replicate z 0 @ es" "es = [] \<or> hd es \<noteq> 0" using split_zeros [of ds] by blast
  define n where "n = value58 ds"
  have n: "n = value58 es" by (simp add: n_def es(1))
  have "(58 :: nat) ^ length es \<le> 256 ^ length es" by (rule power_mono) simp_all
  moreover have "value58 es < 58 ^ length es" using ds(2) es(1) by (intro value58_less) auto
  ultimately have nes: "n < 256 ^ length es" unfolding n by (rule order_less_le_trans [rotated])
  have "length es \<le> 900" using assms(3) ds(1) es(1) by simp
  then have "(256 :: nat) ^ length es \<le> 256 ^ 1000" by (intro power_increasing) simp_all
  with nes have n1000: "n < 256 ^ 1000" by (rule order_less_le_trans)
  define w where "w = rev (trim_sign (getvch ssl (int n)))"
  have dec: "DecodeBase58 ssl s = (True, replicate z 0 @ w)"
    using DecodeBase58_form [OF assms(1) ds(2) es] n1000 by (simp add: ds(1) n_def w_def)
  have "int n < 256 ^ 1000" using n1000 by (metis of_nat_less_iff of_nat_numeral of_nat_power)
  from trim_sign_getvch [OF assms(1) _ this] have w: "be_value w = n" "w = [] \<or> hd w \<noteq> 0" by (simp_all add: w_def)
  have wl: "length w \<le> length es"
  proof (rule ccontr)
    assume l: "\<not> length w \<le> length es"
    then have "256 ^ length es \<le> (256 :: nat) ^ (length w - 1)" by (intro power_increasing) auto
    moreover have "256 ^ (length w - 1) \<le> be_value w" using l w(2) by (intro be_value_lower) auto
    ultimately show False using nes w(1) by linarith
  qed
  have zl: "z + length es \<le> 900" using assms(3) ds(1) es(1) by simp
  have "takeWhile (\<lambda>b. b = 0) (replicate z 0 @ w) = replicate z 0"
  proof -
    have "takeWhile (\<lambda>b. b = 0) w = []" using w(2) by (cases w) auto
    then show ?thesis by (subst takeWhile_append2) simp_all
  qed
  then have "EncodeBase58 ssl (replicate z 0 @ w) = map char58 (replicate z 0 @ rev (digits58 n))"
    using EncodeBase58_form [OF assms(1), of "replicate z 0 @ w"] wl zl w(1) be_value_replicate_0 [of z w] by simp
  also have "rev (digits58 n) = es" unfolding n using ds(2) es by (intro digits58_unique) auto
  finally show ?thesis using dec ds(1) es(1) by simp
qed

lemma DecodeBase58Check_Encode:
  assumes "bignum_ok ssl" "digests_ok ssl" "length v \<le> 800"
  shows "DecodeBase58Check ssl (EncodeBase58Check ssl v) = (True, v)"
proof -
  have "length (bu_bytes (Hash ssl v)) = 32" using length_Hash [OF assms(2), of v] by simp
  then show ?thesis using assms(1,3)
    by (simp add: DecodeBase58Check_def EncodeBase58Check_def DecodeBase58_Encode Let_def)
qed

text \<open>Data with a version of one byte.\<close>

lemma SetString_ToString:
  assumes "bignum_ok ssl" "digests_ok ssl" "length (vchVersion b) = 1" "length (vchData b) \<le> 700"
  shows "b58_SetString ssl (b58_ToString ssl b) 1 b' = (True, b)"
proof -
  have "DecodeBase58Check ssl (b58_ToString ssl b) = (True, vchVersion b @ vchData b)"
    unfolding b58_ToString_def using assms by (intro DecodeBase58Check_Encode) simp_all
  then show ?thesis using assms(3) by (cases "vchVersion b") (simp_all add: b58_SetString_def)
qed

lemma addr_Get_Set:
  "prefixes_ok params \<Longrightarrow> length i = 5 \<Longrightarrow> d = CKeyID i \<or> d = CScriptID i \<Longrightarrow>
    addr_Get params (addr_of_dest params d) = d \<and> addr_IsValid params (addr_of_dest params d) \<and>
    length (vchVersion (addr_of_dest params d)) = 1 \<and> length (vchData (addr_of_dest params d)) = 20"
  by (auto simp: prefixes_ok_def addr_of_dest_def addr_Set_key_def addr_Set_script_def SetData_def addr_Get_def
      addr_IsValid_def Let_def)

section \<open>Properties\<close>

text \<open>C31: base 58 is a bijection: every byte string of up to 900 bytes is decoded from its encoding, leading
  zeros included, and every string over the alphabet of up to 900 characters is the encoding of what
  it decodes to.\<close>

theorem base58_bijection:
  assumes "bignum_ok ssl"
  shows "(length v \<le> 900 \<longrightarrow> DecodeBase58 ssl (EncodeBase58 ssl v) = (True, v)) \<and>
    (set s \<subseteq> set pszBase58 \<and> length s \<le> 900 \<longrightarrow>
       (\<exists>v. DecodeBase58 ssl s = (True, v) \<and> EncodeBase58 ssl v = s))"
  using assms DecodeBase58_Encode EncodeBase58_Decode by blast

theorem base58_bijection_witness:
  "DecodeBase58 sample_ssl (EncodeBase58 sample_ssl [0, 0, 7, 200]) = (True, [0, 0, 7, 200]) \<and>
   (\<exists>v. DecodeBase58 sample_ssl ''11zZ'' = (True, v) \<and> EncodeBase58 sample_ssl v = ''11zZ'')"
proof -
  have "set ''11zZ'' \<subseteq> set pszBase58" by code_simp
  with base58_bijection [OF sample_bignum_ok, of "[0, 0, 7, 200]" "''11zZ''"] show ?thesis by simp
qed

text \<open>C32: an address written as text with its checksum is read back as the key or the script hash it stands for,
  with the prefixes of any network; it is valid, and a key hash is never taken for a script hash.\<close>

theorem address_roundtrip:
  assumes "bignum_ok ssl" "digests_ok ssl" "prefixes_ok params" "length i = 5" "d = CKeyID i \<or> d = CScriptID i"
  defines "a \<equiv> addr_of_string ssl (b58_ToString ssl (addr_of_dest params d))"
  shows "a = addr_of_dest params d \<and> addr_Get params a = d \<and> addr_IsValid params a \<and>
    addr_GetKeyID params a = (if d = CKeyID i then Some i else None) \<and> (addr_IsScript params a \<longleftrightarrow> d = CScriptID i)"
proof -
  note g = addr_Get_Set [OF assms(3-5)]
  have a: "a = addr_of_dest params d"
    using SetString_ToString [OF assms(1,2), of "addr_of_dest params d"] g by (simp add: a_def addr_of_string_def)
  with g show ?thesis using assms(3-5)
    by (auto simp: addr_GetKeyID_def addr_IsScript_def prefixes_ok_def addr_of_dest_def addr_Set_key_def
        addr_Set_script_def SetData_def)
qed

text \<open>A secret key written as text is read back with its flag of compression.\<close>

theorem secret_roundtrip:
  assumes "bignum_ok ssl" "digests_ok ssl" "prefixes_ok params" "k_fValid k" "length (k_vch k) = 32" "key_Check (k_vch k)"
    and "sec_SetKey params k b = Inr s"
  shows "sec_SetString ssl params (b58_ToString ssl s) b' = (True, s) \<and> sec_GetKey s k' = Inr k"
proof -
  have "vchVersion s = Base58Prefix params SECRET_KEY" "vchData s = k_vch k @ (if k_fCompressed k then [1] else [])"
    using assms(4,7) by (auto simp: sec_SetKey_def SetData_def Let_def split: if_splits)
  moreover from this have "b58_SetString ssl (b58_ToString ssl s) 1 b' = (True, s)"
    using assms(3,5) by (intro SetString_ToString [OF assms(1,2)]) (simp_all add: prefixes_ok_def)
  ultimately show ?thesis using assms(4-6)
    by (cases k) (auto simp: sec_SetString_def sec_IsValid_def sec_GetKey_def key_Set_def nth_append)
qed

definition sample_params :: CChainParams where
  "sample_params = \<lparr>hashGenesisBlock = bu_of_u64 8 0, pchMessageStart = [0xf9, 0xbe, 0xb4, 0xd9], vAlertPubKey = [],
     nDefaultPort = 8333, nRPCPort = 8332, bnProofOfWorkLimit = 0, nSubsidyHalvingInterval = 210000, strDataDir = [],
     vSeeds = [], base58Prefixes = (\<lambda>_. [])(PUBKEY_ADDRESS := [0], SCRIPT_ADDRESS := [5], SECRET_KEY := [128]),
     genesis = genesis_block sample_ssl, NetworkID = MAIN, RequireRPCPassword = True\<rparr>"

lemma sample_prefixes: "prefixes_ok sample_params"
  by (simp add: prefixes_ok_def sample_params_def Base58Prefix_def)

theorem address_roundtrip_witness:
  "addr_Get sample_params (addr_of_string sample_ssl
     (b58_ToString sample_ssl (addr_of_dest sample_params (CScriptID [1, 2, 3, 4, 5])))) = CScriptID [1, 2, 3, 4, 5]"
  using address_roundtrip [OF sample_bignum_ok sample_digests_ok sample_prefixes, of "[1, 2, 3, 4, 5]" "CScriptID [1, 2, 3, 4, 5]"]
  by fastforce

theorem secret_roundtrip_witness:
  "\<exists>s. sec_SetKey sample_params \<lparr>k_fValid = True, k_fCompressed = True, k_vch = 1 # replicate 31 0\<rparr> empty_base58 = Inr s \<and>
     sec_GetKey s \<lparr>k_fValid = False, k_fCompressed = False, k_vch = []\<rparr> =
       Inr \<lparr>k_fValid = True, k_fCompressed = True, k_vch = 1 # replicate 31 0\<rparr>"
proof -
  have "\<exists>s. sec_SetKey sample_params \<lparr>k_fValid = True, k_fCompressed = True, k_vch = 1 # replicate 31 0\<rparr> empty_base58 = Inr s"
    by (simp add: sec_SetKey_def Let_def)
  moreover have "key_Check (1 # replicate 31 0)" by (simp add: key_Check_def vchMax_def)
  ultimately show ?thesis
    using secret_roundtrip [OF sample_bignum_ok sample_digests_ok sample_prefixes] by fastforce
qed

end
