(* ===== verification/BmsTypes.thy ===== *)
theory BmsTypes
  imports Prelude
begin

text \<open>
  \<open>src/src/lib/bms/Types.cpp\<close>: padding and slicing of binary vectors and the conversions
  between binary vectors, bytes and big integers. A vector that a C++ function changes in
  place is returned. The loop counters of the source are 32-bit; the vectors are taken to
  have fewer than \<open>2 ^ 31\<close> elements wherever a counter or a cast could wrap, and a lemma that
  needs the bound has it as a hypothesis.
\<close>

unbundle bit_operations_syntax

section \<open>Padding and slicing\<close>

definition PadBits :: "databits \<Rightarrow> u32 \<Rightarrow> databits" where
  "PadBits bits nBits = bits @ replicate (unat nBits) False"

text \<open>
  The result is the slice and what is left of the vector; iterators past the end of the
  vector are undefined behaviour.
\<close>

definition SliceBits :: "databits \<Rightarrow> u32 \<Rightarrow> (databits \<times> databits) result" where
  "SliceBits bits nBits =
     (if unat nBits \<le> length bits
      then Inr (take (unat nBits) bits, drop (unat nBits) bits)
      else Inl Undefined)"

lemma SliceBits_Inr [simp]:
  "unat n \<le> length bits \<Longrightarrow> SliceBits bits n = Inr (take (unat n) bits, drop (unat n) bits)"
  by (simp add: SliceBits_def)

lemma SliceBits_eq_Inr [result_simps]:
  "SliceBits bits n = Inr (piece, rest) \<longleftrightarrow>
     unat n \<le> length bits \<and> piece = take (unat n) bits \<and> rest = drop (unat n) bits"
  by (auto simp: SliceBits_def)

lemma length_PadBits [simp]: "length (PadBits bits n) = length bits + unat n"
  by (simp add: PadBits_def)

section \<open>Characters and bytes\<close>

text \<open>
  \<open>c += Vec[i] << (7 - i)\<close> adds in the 8 bits of a \<open>char\<close>; \<open>ch >> (7 - i)\<close> shifts the
  promoted (sign-extended) character arithmetically.
\<close>

definition BoolVecToChar :: "databits \<Rightarrow> byte result" where
  "BoolVecToChar v =
     rbind (rassert (length v = 8)) (\<lambda>_.
       Inr (fold (\<lambda>i c. c + push_bit (7 - i) (of_bool (v ! i))) [0..<8] 0))"

definition CharToBoolVec :: "byte \<Rightarrow> databits" where
  "CharToBoolVec ch =
     map (\<lambda>i. (signed_drop_bit (7 - i) (scast ch :: u32)) AND 1 \<noteq> 0) [0..<8]"

fun DataToBits :: "data \<Rightarrow> databits" where
  "DataToBits [] = []"
| "DataToBits (ch # data) = CharToBoolVec ch @ DataToBits data"

function BitsToData_loop :: "databits \<Rightarrow> data \<Rightarrow> data result" where
  "BitsToData_loop bits buf =
     (if bits = [] then Inr buf
      else rbind (BoolVecToChar (take 8 bits)) (\<lambda>tmp. BitsToData_loop (drop 8 bits) (buf @ [tmp])))"
  by pat_completeness auto
termination
  by (relation "measure (\<lambda>(bits, buf). length bits)") auto

definition BitsToData :: "databits \<Rightarrow> data result" where
  "BitsToData bits =
     rbind (rassert (length bits mod 8 = 0)) (\<lambda>_. BitsToData_loop bits [])"

text \<open>With no bits the loop bound \<open>data.size()-1\<close> wraps and the loop reads outside the vector.\<close>

fun DataBitsToInt_loop :: "databits \<Rightarrow> bigint \<Rightarrow> bigint" where
  "DataBitsToInt_loop [] num = num"
| "DataBitsToInt_loop [b] num = num + of_bool b"
| "DataBitsToInt_loop (b # bits) num = DataBitsToInt_loop bits ((num + of_bool b) * 2)"

definition DataBitsToInt :: "databits \<Rightarrow> bigint result" where
  "DataBitsToInt bits = (if bits = [] then Inl Undefined else Inr (DataBitsToInt_loop bits 0))"

function IntToDataBits_loop :: "bigint \<Rightarrow> databits \<Rightarrow> databits" where
  "IntToDataBits_loop num bits =
     (if num \<noteq> 0 then IntToDataBits_loop (trunc_div num 2) (odd num # bits) else bits)"
  by pat_completeness auto
termination
  by (relation "measure (\<lambda>(num, bits). nat \<bar>num\<bar>)") (auto simp: trunc_div_two_less)

definition IntToDataBits :: "bigint \<Rightarrow> databits" where
  "IntToDataBits num = IntToDataBits_loop num []"

declare BitsToData_loop.simps [simp del] IntToDataBits_loop.simps [simp del]

section \<open>Characters and bits\<close>

lemma upt_8: "[0..<8] = [0, 1, 2, 3, 4, 5, 6, 7]"
  by (simp add: upt_conv_Cons)

lemma CharToBoolVec_bits: "CharToBoolVec ch = map (\<lambda>i. bit ch (7 - i)) [0..<8]"
proof -
  have "((signed_drop_bit (7 - i) (scast ch :: u32)) AND 1 \<noteq> 0) = bit ch (7 - i)"
    if "i < 8" for i
    using that by (simp add: and_one_eq bit_signed_drop_bit_iff bit_signed_iff flip: odd_iff_mod_2_eq_one bit_0) arith
  then show ?thesis by (simp add: CharToBoolVec_def)
qed

lemma length_CharToBoolVec [simp]: "length (CharToBoolVec ch) = 8"
  by (simp add: CharToBoolVec_def)

lemma length_8E:
  assumes "length v = 8"
  obtains a b c d e f g h where "v = [a, b, c, d, e, f, g, h]"
  using assms by (auto simp: numeral_eq_Suc length_Suc_conv)

lemma BoolVecToChar_horner:
  "BoolVecToChar [a, b, c, d, e, f, g, h] = Inr (horner_sum of_bool 2 [h, g, f, e, d, c, b, a])"
  by (simp add: BoolVecToChar_def upt_8 push_bit_eq_mult numeral_eq_Suc)

lemma BoolVecToChar_Inr: "BoolVecToChar v = Inr c \<Longrightarrow> length v = 8"
  by (auto simp: BoolVecToChar_def result_simps)

lemma CharToBoolVec_BoolVecToChar:
  assumes "BoolVecToChar v = Inr c" shows "CharToBoolVec c = v"
proof -
  from assms have "length v = 8" by (rule BoolVecToChar_Inr)
  with assms show ?thesis
    by (auto elim!: length_8E simp: BoolVecToChar_horner CharToBoolVec_bits upt_8
        bit_horner_sum_bit_word_iff simp del: horner_sum_simps)
qed

lemma BoolVecToChar_CharToBoolVec: "BoolVecToChar (CharToBoolVec c) = Inr c"
proof -
  have "take_bit 8 c = c" by (simp add: take_bit_word_eq_self)
  then show ?thesis
    using horner_sum_bit_eq_take_bit [of c 8]
    by (simp add: CharToBoolVec_bits upt_8 BoolVecToChar_horner del: horner_sum_simps)
qed

lemma BoolVecToChar_total: "length v = 8 \<Longrightarrow> \<exists>c. BoolVecToChar v = Inr c"
  by (simp add: BoolVecToChar_def)

section \<open>Bytes and bits\<close>

lemma length_DataToBits [simp]: "length (DataToBits d) = 8 * length d"
  by (induction d) auto

lemma CharToBoolVec_not_Nil [simp]: "CharToBoolVec ch \<noteq> []"
  by (metis length_CharToBoolVec list.size(3) zero_neq_numeral)

lemma BitsToData_loop_DataToBits: "BitsToData_loop (DataToBits d) buf = Inr (buf @ d)"
  by (induction d arbitrary: buf) (auto simp: BitsToData_loop.simps BoolVecToChar_CharToBoolVec)

lemma BitsToData_DataToBits: "BitsToData (DataToBits d) = Inr d"
  by (simp add: BitsToData_def BitsToData_loop_DataToBits)

lemma BitsToData_loop_spec:
  "length bits mod 8 = 0 \<Longrightarrow> \<exists>d. BitsToData_loop bits buf = Inr (buf @ d) \<and> DataToBits d = bits"
proof (induction bits buf rule: BitsToData_loop.induct)
  case (1 bits buf)
  show ?case
  proof (cases "bits = []")
    case True
    then show ?thesis by (auto simp: BitsToData_loop.simps intro: exI [of _ "[]"])
  next
    case False
    with 1(2) have len: "8 \<le> length bits"
      by (metis length_0_conv mod_less not_less)
    then obtain c where c: "BoolVecToChar (take 8 bits) = Inr c"
      using BoolVecToChar_total by (metis length_take min.absorb2)
    from len 1(2) have "length (drop 8 bits) mod 8 = 0"
      by (simp add: mod_if)
    with 1(1) [OF False c] obtain d where
      "BitsToData_loop (drop 8 bits) (buf @ [c]) = Inr ((buf @ [c]) @ d)" "DataToBits d = drop 8 bits"
      by blast
    with c False CharToBoolVec_BoolVecToChar [OF c] show ?thesis
      by (subst BitsToData_loop.simps) (auto intro: exI [of _ "c # d"])
  qed
qed

lemma BitsToData_Inr_iff: "BitsToData bits = Inr d \<longleftrightarrow> DataToBits d = bits"
  using BitsToData_loop_spec [of bits "[]"]
  by (auto simp: BitsToData_def result_simps BitsToData_loop_DataToBits)

lemma BitsToData_total: "8 dvd length bits \<Longrightarrow> \<exists>d. BitsToData bits = Inr d"
  using BitsToData_loop_spec [of bits "[]"] by (auto simp: BitsToData_def dvd_eq_mod_eq_0)

section \<open>Numbers and bits\<close>

text \<open>Binary value, most significant bit first.\<close>

definition bits_value :: "databits \<Rightarrow> int" where
  "bits_value bits = foldl (\<lambda>v b. 2 * v + of_bool b) 0 bits"

lemma foldl_value: "foldl (\<lambda>v b. 2 * v + of_bool b) (v :: int) bits = v * 2 ^ length bits + bits_value bits"
proof (induction bits arbitrary: v)
  case Nil then show ?case by (simp add: bits_value_def)
next
  case (Cons b bits)
  show ?case using Cons [of "2 * v + of_bool b"] Cons [of "of_bool b"]
    by (simp add: bits_value_def algebra_simps)
qed

lemma bits_value_Nil [simp]: "bits_value [] = 0"
  by (simp add: bits_value_def)

lemma bits_value_Cons [simp]: "bits_value (b # bits) = of_bool b * 2 ^ length bits + bits_value bits"
  using foldl_value [of "of_bool b" bits] by (simp add: bits_value_def)

lemma bits_value_append: "bits_value (xs @ ys) = bits_value xs * 2 ^ length ys + bits_value ys"
  by (induction xs) (auto simp: power_add algebra_simps)

lemma bits_value_replicate [simp]: "bits_value (replicate n False @ bits) = bits_value bits"
  by (induction n) auto

lemma bits_value_bounds: "0 \<le> bits_value bits \<and> bits_value bits < 2 ^ length bits"
  by (induction bits) auto

lemma bits_value_inj: "length xs = length ys \<Longrightarrow> bits_value xs = bits_value ys \<Longrightarrow> xs = ys"
proof (induction xs ys rule: list_induct2)
  case (Cons x xs y ys)
  then show ?case using bits_value_bounds [of xs] bits_value_bounds [of ys]
    by (cases x; cases y) auto
qed simp

lemma DataBitsToInt_loop_value:
  "bits \<noteq> [] \<Longrightarrow> DataBitsToInt_loop bits num = num * 2 ^ (length bits - 1) + bits_value bits"
  by (induction bits num rule: DataBitsToInt_loop.induct) (auto simp: algebra_simps)

lemma DataBitsToInt_value: "bits \<noteq> [] \<Longrightarrow> DataBitsToInt bits = Inr (bits_value bits)"
  by (simp add: DataBitsToInt_def DataBitsToInt_loop_value)

lemma IntToDataBits_loop_value:
  "0 \<le> num \<Longrightarrow> bits_value (IntToDataBits_loop num bits) = num * 2 ^ length bits + bits_value bits"
proof (induction num bits rule: IntToDataBits_loop.induct)
  case (1 num bits)
  show ?case
  proof (cases "num = 0")
    case True then show ?thesis by (simp add: IntToDataBits_loop.simps)
  next
    case False
    have num: "num = num div 2 * 2 + of_bool (odd num)" by (auto elim: oddE)
    from False 1 have "bits_value (IntToDataBits_loop num bits) =
        (num div 2 * 2 + of_bool (odd num)) * 2 ^ length bits + bits_value bits"
      by (subst IntToDataBits_loop.simps) (simp add: algebra_simps)
    with num show ?thesis by simp
  qed
qed

lemma IntToDataBits_loop_length:
  "0 \<le> num \<Longrightarrow> num < 2 ^ m \<Longrightarrow> length (IntToDataBits_loop num bits) \<le> m + length bits"
proof (induction num bits arbitrary: m rule: IntToDataBits_loop.induct)
  case (1 num bits)
  show ?case
  proof (cases "num = 0")
    case True then show ?thesis by (simp add: IntToDataBits_loop.simps)
  next
    case False
    with 1(2,3) obtain m' where m: "m = Suc m'" by (cases m) auto
    with 1(2,3) have "num div 2 < 2 ^ m'" by simp
    with 1(1) [OF False, of m'] 1(2) show ?thesis
      by (subst IntToDataBits_loop.simps) (auto simp: m)
  qed
qed

lemma IntToDataBits_value: "0 \<le> num \<Longrightarrow> bits_value (IntToDataBits num) = num"
  by (simp add: IntToDataBits_def IntToDataBits_loop_value)

lemma IntToDataBits_length: "0 \<le> num \<Longrightarrow> num < 2 ^ m \<Longrightarrow> length (IntToDataBits num) \<le> m"
  using IntToDataBits_loop_length [of num m "[]"] by (simp add: IntToDataBits_def)

text \<open>The decoders put the leading zeros back that the number has lost.\<close>

lemma IntToDataBits_pad:
  "replicate (length bits - length (IntToDataBits (bits_value bits))) False
     @ IntToDataBits (bits_value bits) = bits"
  using IntToDataBits_length [of "bits_value bits" "length bits"] bits_value_bounds [of bits]
  by (intro bits_value_inj) (auto simp: IntToDataBits_value)

section \<open>Properties\<close>


text \<open>\<open>BitsToData\<close> and \<open>DataToBits\<close> are inverse to each other, and \<open>BitsToData\<close> succeeds exactly
  when the number of bits is a multiple of eight.\<close>

theorem bits_bytes_bijection:
  "(BitsToData bits = Inr d \<longleftrightarrow> DataToBits d = bits) \<and>
   ((\<exists>d. BitsToData bits = Inr d) \<longleftrightarrow> 8 dvd length bits)"
  using BitsToData_Inr_iff BitsToData_total by (metis dvd_triv_left length_DataToBits)

text \<open>A binary vector that is not empty is read as a number below \<open>2 ^ n\<close>, and the number written
  back, with the leading zeros it lost, is the vector.\<close>

theorem bits_int_roundtrip:
  assumes "bits \<noteq> []"
  shows "\<exists>num. DataBitsToInt bits = Inr num \<and> 0 \<le> num \<and> num < 2 ^ length bits \<and>
    replicate (length bits - length (IntToDataBits num)) False @ IntToDataBits num = bits"
  using DataBitsToInt_value [OF assms] bits_value_bounds [of bits] IntToDataBits_pad [of bits] by blast

theorem bits_int_roundtrip_witness:
  "\<exists>num. DataBitsToInt [False, True, True] = Inr num \<and> 0 \<le> num \<and> num < 2 ^ 3 \<and>
    replicate (3 - length (IntToDataBits num)) False @ IntToDataBits num = [False, True, True]"
  using bits_int_roundtrip [of "[False, True, True]"] by (simp add: eval_nat_numeral)

end
