(* ===== verification/Interfaces.thy ===== *)
theory Interfaces
  imports BmsTypes
begin

text \<open>
  The contracts between the components. A \<open>ranking\<close> numbers the objects that carry data
  (permutations of transaction inputs, compositions of a budget); its client turns binary vectors
  into such objects and back. The models of \<open>Maths.cpp\<close> interpret it.
\<close>

section \<open>Rankings\<close>

text \<open>
  For a parameter \<open>p\<close> that is \<open>ok\<close>, \<open>unrank p\<close> and \<open>rank p\<close> are inverse bijections between
  the numbers below \<open>size p\<close> and the objects that are \<open>valid\<close> for \<open>p\<close>.
\<close>

locale ranking =
  fixes rank :: "'p \<Rightarrow> 'a \<Rightarrow> bigint result"
    and unrank :: "'p \<Rightarrow> bigint \<Rightarrow> 'a result"
    and valid :: "'p \<Rightarrow> 'a \<Rightarrow> bool"
    and total :: "'p \<Rightarrow> nat"
    and ok :: "'p \<Rightarrow> bool"
  assumes unrank_rank:
    "ok p \<Longrightarrow> r < total p \<Longrightarrow> \<exists>x. unrank p (int r) = Inr x \<and> valid p x \<and> rank p x = Inr (int r)"
    and rank_unrank:
    "ok p \<Longrightarrow> valid p x \<Longrightarrow> \<exists>r < total p. rank p x = Inr (int r) \<and> unrank p (int r) = Inr x"
begin

lemma unrank_total: "ok p \<Longrightarrow> r < total p \<Longrightarrow> \<exists>x. unrank p (int r) = Inr x \<and> valid p x"
  using unrank_rank by blast

lemma rank_of_unrank:
  "ok p \<Longrightarrow> r < total p \<Longrightarrow> unrank p (int r) = Inr x \<Longrightarrow> rank p x = Inr (int r)"
  using unrank_rank by fastforce

lemma unrank_of_rank:
  "ok p \<Longrightarrow> valid p x \<Longrightarrow> rank p x = Inr i \<Longrightarrow> unrank p i = Inr x"
  using rank_unrank by fastforce

lemma rank_bounds: "ok p \<Longrightarrow> valid p x \<Longrightarrow> rank p x = Inr i \<Longrightarrow> 0 \<le> i \<and> i < int (total p)"
  using rank_unrank by fastforce

lemma rank_inj: "ok p \<Longrightarrow> valid p x \<Longrightarrow> valid p y \<Longrightarrow> rank p x = rank p y \<Longrightarrow> x = y"
  using rank_unrank by (metis sum.inject(2))

text \<open>The client: a binary vector is a number, the number an object, and back.\<close>

lemma encode_bits:
  assumes "ok p" "bits \<noteq> []" "2 ^ length bits \<le> total p"
  shows "\<exists>x. rbind (DataBitsToInt bits) (unrank p) = Inr x \<and> valid p x \<and>
    rank p x = Inr (bits_value bits)"
proof -
  have "0 \<le> bits_value bits" "bits_value bits < 2 ^ length bits"
    using bits_value_bounds by auto
  then obtain r where r: "bits_value bits = int r" "r < 2 ^ length bits"
    using zero_le_imp_eq_int by (metis of_nat_less_numeral_power_cancel_iff)
  with assms have "r < total p" by simp
  with unrank_rank [OF assms(1)] assms(2) r show ?thesis
    by (auto simp: DataBitsToInt_value)
qed

end

end
