(* ===== verification/Maths.thy ===== *)
theory Maths
  imports Interfaces
begin

text \<open>
  \<open>src/src/lib/bms/Maths.cpp\<close>: factorials, binomial coefficients, and the two enumerations the
  embedding rests on, permutations and weak compositions of an integer, each with its rank and
  its inverse. The definitions follow the loops of the source over 16-, 32- and 64-bit words; the
  lemmas relate them to ranks over the natural numbers, defined by recursion.
\<close>

section \<open>Factorials and binomial coefficients\<close>

text \<open>\<open>for (int i = 2; i <= n; i++) fac *= i;\<close>\<close>

definition Factorial :: "u16 \<Rightarrow> bigint" where
  "Factorial n = fold (\<lambda>i fac. fac * int i) [2..<Suc (unat n)] 1"

lemma Factorial_fact: "Factorial n = fact (unat n)"
proof -
  have "fold (\<lambda>i fac. fac * int i) [2..<Suc m] 1 = (fact m :: int)" for m
    by (induction m) (auto simp: numeral_2_eq_2 fact_reduce algebra_simps upt_conv_Nil)
  then show ?thesis by (simp add: Factorial_def)
qed

text \<open>
  The loop counter \<open>i\<close> has 32 bits and is compared with the 64-bit \<open>k + 1\<close>: from
  \<open>k = 2 ^ 32 - 1\<close> on it wraps to zero and the division throws.
\<close>

function BinomialCoefficient_loop :: "u64 \<Rightarrow> u64 \<Rightarrow> u32 \<Rightarrow> bigint \<Rightarrow> bigint result" where
  "BinomialCoefficient_loop n k i res =
     (if ucast i < k + 1
      then if i = 0 then Inl (Thrown ''Division by zero.'')
           else BinomialCoefficient_loop n k (i + 1)
                  (trunc_div (res * uint (n - k + ucast i)) (uint i))
      else Inr res)"
  by pat_completeness auto
termination
proof (relation "measure (\<lambda>(n, k, i, res). if i = 0 then 0 else 2 ^ 32 - unat i)", goal_cases)
  case (2 n k i res)
  have "unat i < 2 ^ 32" by (rule order_less_le_trans [OF unsigned_less]) simp
  moreover have "unat (i + 1) = Suc (unat i)" if "i + 1 \<noteq> 0"
    using that unatSuc [of i] by (simp add: add.commute)
  ultimately show ?case using 2 by (auto simp: unat_eq_0)
qed simp

definition BinomialCoefficient :: "u64 \<Rightarrow> u64 \<Rightarrow> bigint result" where
  "BinomialCoefficient n k =
     (if k > n then Inr 0
      else BinomialCoefficient_loop n (min k (n - k)) 1 1)"

definition NumberCompositions :: "u64 \<Rightarrow> u16 \<Rightarrow> bigint result" where
  "NumberCompositions n k = BinomialCoefficient (n + ucast k - 1) (word_of_int (uint k - 1))"

declare BinomialCoefficient_loop.simps [simp del]

lemma binomial_step: "1 \<le> j \<Longrightarrow> int ((N + j - 1) choose (j - 1)) * int (N + j) div int j = int ((N + j) choose j)"
proof -
  assume "1 \<le> j"
  then obtain i where j: "j = Suc i" by (cases j) auto
  have "Suc (N + i) * (N + i choose i) = (Suc (N + i) choose Suc i) * Suc i"
    by (rule Suc_times_binomial_eq)
  then have "int (N + i choose i) * int (Suc (N + i)) = int (Suc (N + i) choose Suc i) * int (Suc i)"
    by (metis mult.commute of_nat_mult)
  then show ?thesis using j by (simp only: j) (simp del: binomial_Suc_Suc of_nat_Suc)
qed

lemma BinomialCoefficient_loop_spec:
  assumes "unat k < 2 ^ 32 - 1" "unat k \<le> unat n" "1 \<le> unat i" "unat i \<le> unat k + 1"
    and "res = int ((unat n - unat k + unat i - 1) choose (unat i - 1))"
  shows "BinomialCoefficient_loop n k i res = Inr (int (unat n choose unat k))"
  using assms
proof (induction n k i res rule: BinomialCoefficient_loop.induct)
  case (1 n k i res)
  let ?N = "unat n - unat k"
  have k1: "unat (k + 1) = Suc (unat k)" using 1(2) by (subst unat_Suc_word') auto
  have i_u64: "unat (ucast i :: u64) = unat i"
    by (simp add: unat_ucast_up)
  show ?case
  proof (cases "unat i \<le> unat k")
    case True
    have i1: "unat (i + 1) = Suc (unat i)" using True 1(2) by (subst unat_Suc_word') auto
    have "unat (n - k) = ?N" using 1(3) by (simp add: unat_sub word_le_nat_alt)
    moreover have "?N + unat i < 2 ^ 64"
      using True 1(3) unat_less_64 [of n] by linarith
    ultimately have "unat (n - k + ucast i) = ?N + unat i"
      using i_u64 by (simp add: unat_word_ariths)
    then have "uint (n - k + ucast i) = int (?N + unat i)" "uint i = int (unat i)"
      by (simp_all only: uint_nat)
    moreover have "0 \<le> res" using 1(6) by simp
    ultimately have "trunc_div (res * uint (n - k + ucast i)) (uint i) =
        int ((?N + unat i - 1) choose (unat i - 1)) * int (?N + unat i) div int (unat i)"
      using 1(4,6) by (simp only: trunc_div_nonneg of_nat_0_le_iff mult_nonneg_nonneg of_nat_0_less_iff)
    then have res: "trunc_div (res * uint (n - k + ucast i)) (uint i) = int ((?N + unat i) choose unat i)"
      using binomial_step [of "unat i" ?N] 1(4) by simp
    have lt: "ucast i < k + 1" using True k1 i_u64 by (simp add: word_less_nat_alt)
    have nz: "i \<noteq> 0" using 1(4) by auto
    have "BinomialCoefficient_loop n k (i + 1) (trunc_div (res * uint (n - k + ucast i)) (uint i))
        = Inr (int (unat n choose unat k))"
      by (rule 1(1) [OF lt nz]) (use 1(2,3) True i1 res in auto)
    then show ?thesis
      using lt nz by (subst BinomialCoefficient_loop.simps) (simp only: if_True if_False)
  next
    case False
    with 1(5) have i: "unat i = unat k + 1" by simp
    then have "\<not> ucast i < k + 1" using k1 i_u64 by (simp add: word_less_nat_alt)
    with 1(3,6) i show ?thesis by (subst BinomialCoefficient_loop.simps) simp
  qed
qed

lemma BinomialCoefficient_choose:
  assumes "unat k \<le> unat n \<Longrightarrow> min (unat k) (unat n - unat k) < 2 ^ 32 - 1"
  shows "BinomialCoefficient n k = Inr (int (unat n choose unat k))"
proof (cases "k > n")
  case True
  then show ?thesis by (simp add: BinomialCoefficient_def word_less_nat_alt binomial_eq_0)
next
  case False
  then have le: "unat k \<le> unat n" by (simp add: word_le_nat_alt not_less)
  let ?k = "min k (n - k)"
  have sub: "unat (n - k) = unat n - unat k" using le by (simp add: unat_sub word_le_nat_alt)
  have k: "unat ?k = min (unat k) (unat n - unat k)"
    using sub by (auto simp: min_def word_le_nat_alt)
  have "BinomialCoefficient_loop n ?k 1 1 = Inr (int (unat n choose unat ?k))"
    by (rule BinomialCoefficient_loop_spec) (use assms le k in auto)
  moreover have "unat n choose unat ?k = unat n choose unat k"
    using le k binomial_symmetric [of "unat k" "unat n"] by (simp add: min_def)
  ultimately show ?thesis using False by (simp add: BinomialCoefficient_def)
qed

lemma NumberCompositions_choose:
  assumes "1 \<le> unat k" and "unat n + unat k - 1 < 2 ^ 64"
  shows "NumberCompositions n k = Inr (int ((unat n + unat k - 1) choose (unat k - 1)))"
proof -
  have k: "unat k < 2 ^ 16" by (rule order_less_le_trans [OF unsigned_less]) simp
  have "unat (ucast k :: u64) = unat k" by (simp add: unat_ucast_up)
  then have k1: "unat (ucast k - 1 :: u64) = unat k - 1"
    using assms(1) by (subst unat_sub) (auto simp: word_le_nat_alt)
  then have nk: "unat (n + (ucast k - 1)) = unat n + unat k - 1"
    using assms by (simp add: unat_word_ariths)
  have "unat (word_of_int (uint k - 1) :: u64) = unat k - 1"
    using k1 by simp
  with nk show ?thesis
    unfolding NumberCompositions_def add_diff_eq [symmetric] using k by (subst BinomialCoefficient_choose) auto
qed

section \<open>Permutations\<close>

text \<open>
  The outer loop runs to \<open>PermSize - 2\<close>, an unsigned difference: for an empty vector it reads
  outside the vector, for a single element its bound is the largest \<open>unsigned int\<close> and it
  never ends. The argument of \<open>Factorial\<close> is cut to 16 bits.
\<close>

definition PermutationToInteger :: "u16 list \<Rightarrow> bigint result" where
  "PermutationToInteger Permutation =
     (let PermSize = length Permutation
      in if PermSize = 0 then Inl Undefined
         else if PermSize = 1 then Inl Diverges
         else Inr (fold (\<lambda>i idx.
                let a = fold (\<lambda>j a. if Permutation ! i > Permutation ! j then a + 1 else a)
                          [i + 1..<PermSize] 0
                in idx + a * Factorial (of_nat (PermSize - i - 1)))
              [0..<PermSize - 1] 0))"

definition IntegerToPermutation :: "bigint \<Rightarrow> u16 \<Rightarrow> u16 list result" where
  "IntegerToPermutation idx k =
     rbind (rfold (\<lambda>i (perm, buf, idx).
              let x = trunc_div idx (Factorial (k - of_nat i - 1))
              in rbind (if 0 \<le> x then vec_at buf (nat x) else Inl Undefined) (\<lambda>e.
                   Inr (perm[i := e], filter (\<lambda>b. b \<noteq> e) buf,
                        idx - x * Factorial (k - of_nat i - 1))))
            [0..<unat k] (replicate (unat k) 0, map of_nat [0..<unat k], idx))
       (\<lambda>(perm, buf, idx). Inr perm)"

section \<open>Compositions\<close>

text \<open>\<open>std::accumulate\<close> with a 64-bit initial value; \<open>K = Composition.size()\<close> is cut to 16 bits.\<close>

definition CompositionToInteger :: "u64 list \<Rightarrow> bigint result" where
  "CompositionToInteger Composition =
     (let N = fold (\<lambda>c s. s + c) Composition 0;
          K = (of_nat (length Composition) :: u16)
      in rbind (rfold (\<lambda>i (idx, n, k).
                  rbind (vec_at Composition i) (\<lambda>c.
                  rbind (NumberCompositions n k) (\<lambda>a.
                  rbind (NumberCompositions (n - c) k) (\<lambda>b.
                    Inr (idx + (a - b), n - c, k - 1)))))
                [0..<unat K - 1] (0, N, K))
           (\<lambda>(idx, n, k). Inr idx))"

text \<open>\<open>while (!P(mu)) mu++\<close> and \<open>while (!P(mu)) mu--\<close>.\<close>

partial_function (option) search_up :: "(u64 \<Rightarrow> bool result) \<Rightarrow> u64 \<Rightarrow> u64 result option" where
  "search_up P mu =
     (case P mu of
        Inl e \<Rightarrow> Some (Inl e)
      | Inr b \<Rightarrow> if b then Some (Inr mu) else search_up P (mu + 1))"

partial_function (option) search_down :: "(u64 \<Rightarrow> bool result) \<Rightarrow> u64 \<Rightarrow> u64 result option" where
  "search_down P mu =
     (case P mu of
        Inl e \<Rightarrow> Some (Inl e)
      | Inr b \<Rightarrow> if b then Some (Inr mu) else search_down P (mu - 1))"

text \<open>
  One round of the loop: the part \<open>mu\<close> chosen for \<open>idx\<close>, \<open>n\<close> and \<open>k\<close>. \<open>root A k\<close> stands for
  the rounded real root, \<open>round(pow(A, 1.0 / (k - 1)))\<close>, of the multiprecision library.
\<close>

definition composition_part :: "(bigint \<Rightarrow> u16 \<Rightarrow> u64) \<Rightarrow> bigint \<Rightarrow> u64 \<Rightarrow> u16 \<Rightarrow> u64 result" where
  "composition_part root idx n k =
     rbind (NumberCompositions n k) (\<lambda>a.
       let A = (a - idx) * Factorial (k - 1);
           mu = n - root A k - word_of_int ((uint k - 1) div 2)
       in rbind (of_loop (search_up (\<lambda>mu.
                   rbind (NumberCompositions (n - mu - 1) k) (\<lambda>b. Inr (b < a - idx))) mu)) (\<lambda>mu.
          of_loop (search_down (\<lambda>mu.
                   rbind (NumberCompositions (n - mu) k) (\<lambda>b. Inr (a - idx \<le> b))) mu)))"

fun composition_loop ::
  "(bigint \<Rightarrow> u16 \<Rightarrow> u64) \<Rightarrow> nat list \<Rightarrow> u64 list \<Rightarrow> bigint \<Rightarrow> u64 \<Rightarrow> u16 \<Rightarrow> (u64 list \<times> u64) result"
where
  "composition_loop root [] composition idx n k = Inr (composition, n)"
| "composition_loop root (i # is) composition idx n k =
     (if n = 0 then Inr (composition, n)
      else rbind (composition_part root idx n k) (\<lambda>mu.
           rbind (NumberCompositions n k) (\<lambda>a.
           rbind (NumberCompositions (n - mu) k) (\<lambda>b.
             composition_loop root is (composition[i := mu]) (idx - (a - b)) (n - mu) (k - 1)))))"

definition IntegerToComposition ::
  "(bigint \<Rightarrow> u16 \<Rightarrow> u64) \<Rightarrow> bigint \<Rightarrow> u64 \<Rightarrow> u16 \<Rightarrow> u64 list result"
where
  "IntegerToComposition root idx n k =
     (let K = k
      in rbind (composition_loop root [0..<unat K - 1] (replicate (unat K) 0) idx n k)
           (\<lambda>(composition, n).
              if K = 0 then Inl Undefined else Inr (composition[unat K - 1 := n])))"

section \<open>Lexicographic rank of a permutation\<close>

fun perm_rank :: "'a :: linorder list \<Rightarrow> nat" where
  "perm_rank [] = 0"
| "perm_rank (x # xs) = length (filter (\<lambda>y. y < x) xs) * fact (length xs) + perm_rank xs"

fun perm_unrank :: "nat \<Rightarrow> nat \<Rightarrow> 'a list \<Rightarrow> 'a list" where
  "perm_unrank 0 r buf = []"
| "perm_unrank (Suc m) r buf =
     (let x = buf ! (r div fact m) in x # perm_unrank m (r mod fact m) (filter (\<lambda>b. b \<noteq> x) buf))"

lemma perm_rank_less: "perm_rank xs < fact (length xs)"
proof (induction xs)
  case (Cons x xs)
  have le: "length (filter (\<lambda>y. y < x) xs) * fact (length xs) \<le> length xs * fact (length xs)"
    by (simp add: mult_le_mono1)
  have "perm_rank (x # xs) < length xs * fact (length xs) + fact (length xs)"
    unfolding perm_rank.simps by (rule add_le_less_mono [OF le Cons])
  also have "\<dots> = fact (length (x # xs))" by (simp add: algebra_simps)
  finally show ?case .
qed simp

lemma filter_less_nth:
  assumes "sorted_wrt (<) (buf :: 'a :: linorder list)" "i < length buf"
  shows "length (filter (\<lambda>y. y < buf ! i) buf) = i"
proof -
  have "j < i" if "j < length buf" "buf ! j < buf ! i" for j
  proof (rule ccontr)
    assume "\<not> j < i"
    then have "i = j \<or> buf ! i < buf ! j"
      using assms that(1) by (auto simp: sorted_wrt_iff_nth_less not_less le_less)
    with that(2) show False using order_less_asym by auto
  qed
  then have "{j. j < length buf \<and> buf ! j < buf ! i} = {..<i}"
    using assms by (auto simp: sorted_wrt_iff_nth_less)
  then show ?thesis by (simp add: length_filter_conv_card)
qed

lemma length_remove_nth:
  assumes "distinct buf" "i < length buf"
  shows "length (filter (\<lambda>b. b \<noteq> buf ! i) buf) = length buf - 1"
proof -
  have "{j. j < length buf \<and> buf ! j \<noteq> buf ! i} = {..<length buf} - {i}"
    using assms by (auto simp: nth_eq_iff_index_eq)
  then show ?thesis using assms by (simp add: length_filter_conv_card)
qed

lemma sorted_distinct: "sorted_wrt (<) (xs :: 'a :: linorder list) \<Longrightarrow> distinct xs"
  by (simp add: strict_sorted_iff)

lemma perm_unrank_perm:
  "sorted_wrt (<) (buf :: 'a :: linorder list) \<Longrightarrow> length buf = m \<Longrightarrow> r < fact m \<Longrightarrow>
     set (perm_unrank m r buf) = set buf \<and> length (perm_unrank m r buf) = m"
proof (induction m r buf rule: perm_unrank.induct)
  case (2 m r buf)
  define x where "x = buf ! (r div fact m)"
  have i: "r div fact m < length buf"
    using 2(3,4) by (simp add: less_mult_imp_div_less mult.commute)
  have "set (perm_unrank m (r mod fact m) (filter (\<lambda>b. b \<noteq> x) buf)) = set (filter (\<lambda>b. b \<noteq> x) buf) \<and>
      length (perm_unrank m (r mod fact m) (filter (\<lambda>b. b \<noteq> x) buf)) = m"
    using 2(1) [OF x_def] 2(2,3) i length_remove_nth [OF sorted_distinct [OF 2(2)] i]
    by (simp add: sorted_wrt_filter x_def)
  moreover have "x \<in> set buf" using i x_def by simp
  ultimately show ?case by (auto simp: Let_def x_def [symmetric])
qed simp

lemma perm_rank_unrank:
  "sorted_wrt (<) (buf :: 'a :: linorder list) \<Longrightarrow> length buf = m \<Longrightarrow> r < fact m \<Longrightarrow>
     perm_rank (perm_unrank m r buf) = r"
proof (induction m r buf rule: perm_unrank.induct)
  case (2 m r buf)
  define x where "x = buf ! (r div fact m)"
  define rest where "rest = filter (\<lambda>b. b \<noteq> x) buf"
  have i: "r div fact m < length buf"
    using 2(3,4) by (simp add: less_mult_imp_div_less mult.commute)
  have rest: "sorted_wrt (<) rest" "length rest = m"
    using 2(2,3) i length_remove_nth [OF sorted_distinct [OF 2(2)] i]
    by (simp_all add: rest_def sorted_wrt_filter x_def)
  let ?ys = "perm_unrank m (r mod fact m) rest"
  have ys: "set ?ys = set rest" "length ?ys = m"
    using perm_unrank_perm [OF rest, of "r mod fact m"] by auto
  have "perm_rank ?ys = r mod fact m"
    using 2(1) [OF x_def] rest by (simp add: rest_def)
  moreover have "length (filter (\<lambda>y. y < x) ?ys) = r div fact m"
  proof -
    have "distinct ?ys" using ys rest sorted_distinct distinct_card
      by (metis card_distinct)
    then have "length (filter (\<lambda>y. y < x) ?ys) = card {y \<in> set rest. y < x}"
      using ys(1) by (simp add: distinct_length_filter Int_def conj_commute)
    also have "{y \<in> set rest. y < x} = {y \<in> set buf. y < x}" by (auto simp: rest_def)
    also have "card \<dots> = length (filter (\<lambda>y. y < x) buf)"
      using sorted_distinct [OF 2(2)] by (simp add: distinct_length_filter Int_def conj_commute)
    also have "\<dots> = r div fact m" using filter_less_nth [OF 2(2) i] by (simp add: x_def)
    finally show ?thesis .
  qed
  ultimately show ?case using ys by (simp add: Let_def x_def [symmetric] rest_def [symmetric])
qed simp

lemma perm_unrank_rank:
  "sorted_wrt (<) buf \<Longrightarrow> distinct p \<Longrightarrow> set p = set buf \<Longrightarrow>
     perm_unrank (length p) (perm_rank p) buf = p"
proof (induction p arbitrary: buf)
  case (Cons x xs)
  have x: "x \<in> set buf" using Cons.prems by auto
  then obtain i where i: "i < length buf" "buf ! i = x" by (auto simp: in_set_conv_nth)
  have "perm_rank (x # xs) div fact (length xs) = length (filter (\<lambda>y. y < x) xs)"
    using perm_rank_less [of xs] by simp
  also have "\<dots> = card {y \<in> set xs. y < x}"
    using Cons.prems by (simp add: distinct_length_filter Int_def conj_commute)
  also have "{y \<in> set xs. y < x} = {y \<in> set buf. y < x}" using Cons.prems(3) by auto
  also have "card \<dots> = length (filter (\<lambda>y. y < x) buf)"
    using sorted_distinct [OF Cons.prems(1)] by (simp add: distinct_length_filter Int_def conj_commute)
  also have "\<dots> = i" using filter_less_nth [OF Cons.prems(1) i(1)] i by simp
  finally have idx: "perm_rank (x # xs) div fact (length xs) = i" .
  have md: "perm_rank (x # xs) mod fact (length xs) = perm_rank xs"
    using perm_rank_less [of xs] by simp
  have "perm_unrank (length xs) (perm_rank xs) (filter (\<lambda>b. b \<noteq> x) buf) = xs"
    using Cons.prems by (intro Cons.IH) (auto simp: sorted_wrt_filter)
  with idx md i show ?case by (simp add: Let_def del: perm_rank.simps)
qed simp

lemma fold_count: "fold (\<lambda>j a. if P j then a + 1 else a) js (a0 :: int) = a0 + int (length (filter P js))"
  by (induction js arbitrary: a0) auto

lemma filter_upt_nth:
  "length (filter (\<lambda>j. P (xs ! j)) [i..<length xs]) = length (filter P (drop i xs))"
proof -
  have "map ((!) xs) [i..<length xs] = drop i xs"
    by (rule nth_equalityI) auto
  then have "length (filter P (drop i xs)) = length (filter P (map ((!) xs) [i..<length xs]))"
    by simp
  then show ?thesis by (simp add: filter_map o_def)
qed

lemma PermutationToInteger_rank:
  assumes "2 \<le> length p" "length p \<le> 2 ^ 16"
  shows "PermutationToInteger p = Inr (int (perm_rank p))"
proof -
  define F where "F = (\<lambda>i idx. idx + fold (\<lambda>j a. if p ! i > p ! j then a + 1 else a) [i + 1..<length p] 0
                 * Factorial (of_nat (length p - i - 1)))"
  have F: "F i idx = idx + int (length (filter (\<lambda>y. y < p ! i) (drop (Suc i) p)) * fact (length p - i - 1))"
    if "i < length p" for i idx
  proof -
    define m where "m = length p - i - 1"
    have "m < 2 ^ 16" using that assms by (simp add: m_def)
    then have "unat (of_nat m :: u16) = m" by (simp add: unat_of_nat)
    then show ?thesis
      unfolding F_def m_def [symmetric] by (simp add: fold_count Factorial_fact
          filter_upt_nth [where P = "\<lambda>y. y < p ! i"])
  qed
  have "fold F [0..<m] 0 + int (perm_rank (drop m p)) = int (perm_rank p)" if "m \<le> length p" for m
    using that
  proof (induction m)
    case (Suc m)
    then have "drop m p = p ! m # drop (Suc m) p" by (simp add: Cons_nth_drop_Suc)
    with Suc show ?case by (simp add: F)
  qed simp
  from this [of "length p - 1"] have "fold F [0..<length p - 1] 0 + int (perm_rank (drop (length p - 1) p)) = int (perm_rank p)"
    by simp
  moreover have "perm_rank (drop (length p - 1) p) = 0"
  proof -
    have "drop (length p - 1) p = [last p]"
      using assms by (cases p rule: rev_cases) auto
    then show ?thesis by simp
  qed
  moreover have "p \<noteq> []" using assms by auto
  ultimately show ?thesis using assms by (simp add: PermutationToInteger_def Let_def F_def)
qed

lemma IntegerToPermutation_unrank:
  assumes "r < fact (unat k)"
  shows "IntegerToPermutation (int r) k = Inr (perm_unrank (unat k) r (map of_nat [0..<unat k]))"
proof -
  let ?n = "unat k"
  let ?f = "\<lambda>i (perm, buf, idx).
              let x = trunc_div idx (Factorial (k - of_nat i - 1))
              in rbind (if 0 \<le> x then vec_at buf (nat x) else Inl Undefined) (\<lambda>e.
                   Inr (perm[i := e], filter (\<lambda>b. b \<noteq> e) buf,
                        idx - x * Factorial (k - of_nat i - 1)))"
  have step: "rfold ?f [i..<?n] (perm, buf, int r) =
      Inr (take i perm @ perm_unrank (?n - i) r buf, [], 0)"
    if "i \<le> ?n" "sorted_wrt (<) buf" "length buf = ?n - i" "length perm = ?n" "r < fact (?n - i)"
    for i and perm buf :: "u16 list" and r
    using that
  proof (induction "?n - i" arbitrary: i perm buf r)
    case 0
    then show ?case by simp
  next
    case (Suc m)
    then have i: "i < ?n" and m: "?n - i = Suc m" "m = ?n - Suc i" by simp_all
    have "unat k = i + Suc m" using i m(1) by simp
    then have "of_nat (unat k) = (of_nat (i + Suc m) :: u16)" by (simp only:)
    then have "k - of_nat i - 1 = of_nat m" by simp
    moreover have "m < 2 ^ 16" using m(1) unat_less_16 [of k] by linarith
    ultimately have "unat (k - of_nat i - 1) = m" by (simp add: unat_of_nat)
    then have F: "Factorial (k - of_nat i - 1) = int (fact m)" by (simp add: Factorial_fact)
    define x where "x = buf ! (r div fact m)"
    have lt: "r div fact m < length buf"
      using Suc.prems(3,5) m by (simp add: less_mult_imp_div_less mult.commute)
    have "trunc_div (int r) (int (fact m)) = int (r div fact m)"
      by (simp add: zdiv_int)
    moreover have "int r - int (r div fact m) * int (fact m) = int (r mod fact m)"
      by (simp add: minus_div_mult_eq_mod [symmetric] of_nat_diff)
    ultimately have "?f i (perm, buf, int r) = Inr (perm[i := x], filter (\<lambda>b. b \<noteq> x) buf, int (r mod fact m))"
      using lt by (simp add: F x_def Let_def)
    moreover have "rfold ?f [Suc i..<?n] (perm[i := x], filter (\<lambda>b. b \<noteq> x) buf, int (r mod fact m)) =
        Inr (take (Suc i) (perm[i := x]) @ perm_unrank (?n - Suc i) (r mod fact m) (filter (\<lambda>b. b \<noteq> x) buf), [], 0)"
      using Suc.prems i m lt length_remove_nth [OF sorted_distinct [OF Suc.prems(2)] lt]
      by (intro Suc.hyps(1)) (auto simp: sorted_wrt_filter x_def)
    moreover have "[i..<?n] = i # [Suc i..<?n]" using i by (simp add: upt_conv_Cons)
    ultimately show ?case
      using Suc.prems(4) i m by (simp add: take_Suc_conv_app_nth x_def Let_def)
  qed
  have "sorted_wrt (<) (map of_nat [0..<?n] :: u16 list)"
    unfolding sorted_wrt_map
  proof (rule sorted_wrt_mono_rel [OF _ sorted_wrt_upt])
    fix x y :: nat assume "x \<in> set [0..<?n]" "y \<in> set [0..<?n]" "x < y"
    moreover have "?n < 2 ^ 16" by (rule order_less_le_trans [OF unsigned_less]) simp
    ultimately show "(of_nat x :: u16) < of_nat y"
      by (simp add: word_less_nat_alt unat_of_nat)
  qed
  with step [of 0 "map of_nat [0..<?n]" "replicate ?n 0" r] assms show ?thesis
    by (simp add: IntegerToPermutation_def)
qed

section \<open>Lexicographic rank of a composition\<close>

text \<open>The number of compositions of \<open>n\<close> into \<open>k\<close> parts, none of them for \<open>k = 0\<close> and \<open>n > 0\<close>.\<close>

definition ncomp :: "nat \<Rightarrow> nat \<Rightarrow> nat" where
  "ncomp n k = (n + k - 1) choose (k - 1)"

lemma ncomp_1 [simp]: "ncomp n (Suc 0) = 1"
  by (simp add: ncomp_def)

lemma ncomp_0 [simp]: "ncomp 0 (Suc k) = 1"
  by (simp add: ncomp_def)

lemma ncomp_pos: "1 \<le> k \<Longrightarrow> 0 < ncomp n k"
  by (simp add: ncomp_def zero_less_binomial_iff)

lemma ncomp_Suc: "1 \<le> k \<Longrightarrow> ncomp (Suc n) (Suc k) = ncomp n (Suc k) + ncomp (Suc n) k"
  by (cases k) (simp_all add: ncomp_def)

lemma ncomp_mono: "m \<le> n \<Longrightarrow> 1 \<le> k \<Longrightarrow> ncomp m k \<le> ncomp n k"
  by (auto simp: ncomp_def intro!: binomial_right_mono)

lemma ncomp_less: "m < n \<Longrightarrow> 2 \<le> k \<Longrightarrow> ncomp m k < ncomp n k"
proof -
  assume "m < n" "2 \<le> k"
  then obtain n' k' where n: "n = Suc n'" and k: "k = Suc k'" "1 \<le> k'" by (cases n; cases k) auto
  have "ncomp m k \<le> ncomp n' k" using \<open>m < n\<close> n k by (intro ncomp_mono) auto
  also have "\<dots> < ncomp n k" using n k ncomp_Suc [of k' n'] ncomp_pos [of k' "Suc n'"] by simp
  finally show ?thesis .
qed

fun comp_rank :: "nat list \<Rightarrow> nat" where
  "comp_rank [] = 0"
| "comp_rank [x] = 0"
| "comp_rank (x # xs) =
     ncomp (x + sum_list xs) (Suc (length xs)) - ncomp (sum_list xs) (Suc (length xs)) + comp_rank xs"

text \<open>The first part of the composition of rank \<open>r\<close>.\<close>

definition first_part :: "nat \<Rightarrow> nat \<Rightarrow> nat \<Rightarrow> nat \<Rightarrow> bool" where
  "first_part r n k x \<longleftrightarrow> x \<le> n \<and> ncomp n k - r \<le> ncomp (n - x) k \<and>
     (x < n \<longrightarrow> ncomp (n - x - 1) k < ncomp n k - r)"

lemma first_part_unique: "first_part r n k x \<Longrightarrow> first_part r n k y \<Longrightarrow> 1 \<le> k \<Longrightarrow> x = y"
proof (induction x y rule: linorder_wlog)
  case (le x y)
  show ?case
  proof (rule ccontr)
    assume "x \<noteq> y"
    with le have "ncomp (n - y) k \<le> ncomp (n - x - 1) k"
      by (intro ncomp_mono) (auto simp: first_part_def)
    with le \<open>x \<noteq> y\<close> show False by (auto simp: first_part_def)
  qed
qed (simp add: eq_commute)


lemma ncomp_parts_mono: "1 \<le> k \<Longrightarrow> ncomp n k \<le> ncomp n (Suc k)"
  using ncomp_Suc [of k "n - 1"] by (cases n; cases k) auto

lemma ncomp_diff: "1 \<le> k \<Longrightarrow> 1 \<le> n \<Longrightarrow> ncomp n (Suc k) - ncomp (n - 1) (Suc k) = ncomp n k"
  using ncomp_Suc [of k "n - 1"] by simp

lemma comp_rank_less: "xs \<noteq> [] \<Longrightarrow> comp_rank xs < ncomp (sum_list xs) (length xs)"
proof (induction xs rule: comp_rank.induct)
  case (3 x y xs)
  let ?s = "sum_list (y # xs)" and ?k = "length (y # xs)"
  have "comp_rank (y # xs) < ncomp ?s (Suc ?k)"
    using 3 ncomp_parts_mono [of ?k ?s] by (simp del: comp_rank.simps)
  moreover have "ncomp ?s (Suc ?k) \<le> ncomp (x + ?s) (Suc ?k)"
    by (intro ncomp_mono) auto
  ultimately show ?case by simp
qed simp_all

lemma first_part_rank:
  assumes "xs \<noteq> []"
  shows "first_part (comp_rank (x # xs)) (x + sum_list xs) (Suc (length xs)) x"
proof -
  let ?s = "sum_list xs" and ?k = "length xs"
  from assms obtain y ys where xs: "xs = y # ys" by (cases xs) auto
  have k: "1 \<le> ?k" using xs by simp
  have lt: "comp_rank xs < ncomp ?s ?k" using comp_rank_less assms by blast
  have le: "ncomp ?s (Suc ?k) \<le> ncomp (x + ?s) (Suc ?k)" by (intro ncomp_mono) auto
  have r: "comp_rank (x # xs) = ncomp (x + ?s) (Suc ?k) - ncomp ?s (Suc ?k) + comp_rank xs"
    by (simp add: xs)
  have "ncomp (?s - 1) (Suc ?k) < ncomp (x + ?s) (Suc ?k) - comp_rank (x # xs)" if "1 \<le> ?s"
    using lt le ncomp_Suc [OF k, of "?s - 1"] that by (simp add: r)
  then show ?thesis
    using le by (auto simp: first_part_def r)
qed

lemma comp_rank_inj:
  "length xs = length ys \<Longrightarrow> sum_list xs = sum_list ys \<Longrightarrow> comp_rank xs = comp_rank ys \<Longrightarrow> xs = ys"
proof (induction xs ys rule: list_induct2)
  case (Cons x xs y ys)
  show ?case
  proof (cases "xs = []")
    case True
    with Cons show ?thesis by simp
  next
    case False
    with Cons have ne: "ys \<noteq> []" by auto
    have "first_part (comp_rank (x # xs)) (x + sum_list xs) (Suc (length xs)) x"
      by (rule first_part_rank [OF False])
    moreover have "first_part (comp_rank (x # xs)) (x + sum_list xs) (Suc (length xs)) y"
      using first_part_rank [OF ne, of y] Cons.hyps Cons.prems
      by (simp del: comp_rank.simps)
    ultimately have "x = y" by (rule first_part_unique) simp
    with Cons False ne show ?thesis
      by (cases xs; cases ys) (auto simp del: comp_rank.simps(3) simp: comp_rank.simps(3) [of y])
  qed
qed simp

lemma comp_rank_replicate_0 [simp]: "comp_rank (replicate m 0) = 0"
proof (induction m)
  case (Suc m)
  then show ?case by (cases m) (auto simp: sum_list_replicate)
qed simp

section \<open>The search loops\<close>

lemma search_up_stops:
  fixes n :: u64
  assumes "\<And>m'. m' \<le> m \<Longrightarrow> P (n - of_nat m') = Inr (Q m')" and "Q 0"
  shows "\<exists>m1 \<le> m. search_up P (n - of_nat m) = Some (Inr (n - of_nat m1)) \<and> Q m1 \<and>
    (\<forall>m'. m1 < m' \<and> m' \<le> m \<longrightarrow> \<not> Q m')"
  using assms
proof (induction m)
  case 0
  then show ?case by (subst search_up.simps) simp
next
  case (Suc m)
  show ?case
  proof (cases "Q (Suc m)")
    case True
    with Suc.prems(1) [of "Suc m"] show ?thesis
      by (intro exI [of _ "Suc m"]) (subst search_up.simps, auto)
  next
    case False
    with Suc.prems(1) [of "Suc m"]
    have "search_up P (n - of_nat (Suc m)) = search_up P (n - of_nat m)"
      by (subst search_up.simps) (simp add: algebra_simps)
    moreover obtain m1 where "m1 \<le> m" "search_up P (n - of_nat m) = Some (Inr (n - of_nat m1))" "Q m1"
        "\<forall>m'. m1 < m' \<and> m' \<le> m \<longrightarrow> \<not> Q m'"
      using Suc by (meson le_SucI)
    ultimately show ?thesis using False by (intro exI [of _ m1]) (auto simp: le_Suc_eq)
  qed
qed

lemma search_down_stops:
  fixes n :: u64
  assumes "\<And>m'. m \<le> m' \<Longrightarrow> m' \<le> M \<Longrightarrow> P (n - of_nat m') = Inr (Q m')" and "Q M" and "m \<le> M"
  shows "\<exists>m1. m \<le> m1 \<and> m1 \<le> M \<and> search_down P (n - of_nat m) = Some (Inr (n - of_nat m1)) \<and> Q m1 \<and>
    (\<forall>m'. m \<le> m' \<and> m' < m1 \<longrightarrow> \<not> Q m')"
  using assms
proof (induction "M - m" arbitrary: m)
  case 0
  then have "m = M" by simp
  with 0 show ?case by (subst search_down.simps) auto
next
  case (Suc d)
  show ?case
  proof (cases "Q m")
    case True
    with Suc.prems(1) [of m] Suc.prems(3) show ?thesis
      by (intro exI [of _ m]) (subst search_down.simps, auto)
  next
    case False
    then have "Suc m \<le> M" using Suc.prems(2,3) by (metis le_neq_implies_less Suc_leI)
    with Suc have "\<exists>m1. Suc m \<le> m1 \<and> m1 \<le> M \<and>
       search_down P (n - of_nat (Suc m)) = Some (Inr (n - of_nat m1)) \<and> Q m1 \<and>
       (\<forall>m'. Suc m \<le> m' \<and> m' < m1 \<longrightarrow> \<not> Q m')"
      by (intro Suc.hyps(1)) auto
    moreover have "search_down P (n - of_nat m) = search_down P (n - of_nat (Suc m))"
      using False Suc.prems(1) [of m] Suc.prems(3) by (subst search_down.simps) (simp add: algebra_simps)
    ultimately obtain m1 where "Suc m \<le> m1" "m1 \<le> M"
       "search_down P (n - of_nat m) = Some (Inr (n - of_nat m1))" "Q m1"
       "\<forall>m'. Suc m \<le> m' \<and> m' < m1 \<longrightarrow> \<not> Q m'" by auto
    moreover have "\<not> Q m'" if "m \<le> m'" "m' < m1" for m'
      using that False \<open>\<forall>m'. Suc m \<le> m' \<and> m' < m1 \<longrightarrow> \<not> Q m'\<close> by (cases "m' = m") auto
    ultimately show ?thesis by (intro exI [of _ m1]) auto
  qed
qed

definition root_ok :: "(bigint \<Rightarrow> u16 \<Rightarrow> u64) \<Rightarrow> bool" where
  "root_ok root \<longleftrightarrow> (\<forall>A k m. 2 \<le> unat k \<longrightarrow> 0 \<le> A \<longrightarrow> A \<le> int m ^ (unat k - 1) \<longrightarrow> unat (root A k) \<le> 2 * m)"

lemma NumberCompositions_ncomp:
  "1 \<le> unat k \<Longrightarrow> unat n + unat k - 1 < 2 ^ 64 \<Longrightarrow> NumberCompositions n k = Inr (int (ncomp (unat n) (unat k)))"
  by (simp add: NumberCompositions_choose ncomp_def)

lemma NumberCompositions_of_nat:
  assumes "1 \<le> unat k" "m + unat k - 1 < 2 ^ 64"
  shows "NumberCompositions (of_nat m) k = Inr (int (ncomp m (unat k)))"
proof -
  from assms have "m < 2 ^ 64" by simp
  then have "unat (of_nat m :: u64) = m" by (simp add: unat_of_nat)
  with assms show ?thesis by (simp add: NumberCompositions_ncomp)
qed

text \<open>The wrapped argument \<open>-1\<close> counts as no compositions at all.\<close>

lemma NumberCompositions_minus_1: "2 \<le> unat k \<Longrightarrow> NumberCompositions (- 1) k = Inr 0"
proof -
  assume k: "2 \<le> unat k"
  have "unat (ucast k :: u64) = unat k" by (simp add: unat_ucast_up)
  then have "unat (ucast k - 2 :: u64) = unat k - 2" "unat (ucast k - 1 :: u64) = unat k - 1"
    using k by (subst unat_sub; simp add: word_le_nat_alt)+
  then have "(ucast k - 2 :: u64) < ucast k - 1" using k by (simp add: word_less_nat_alt)
  then show ?thesis by (simp add: NumberCompositions_def BinomialCoefficient_def)
qed

lemma composition_part_first:
  assumes root: "root_ok root" and k: "2 \<le> unat k" and n: "unat n < 2 ^ 62"
    and r: "r < ncomp (unat n) (unat k)"
  shows "\<exists>x. composition_part root (int r) n k = Inr (of_nat x) \<and> first_part r (unat n) (unat k) x"
proof -
  let ?N = "unat n" and ?K = "unat k"
  define T where "T = ncomp ?N ?K - r"
  define Q where "Q m \<longleftrightarrow> m = 0 \<or> ncomp (m - 1) ?K < T" for m
  define A where "A = int T * Factorial (k - 1)"
  define m0 where "m0 = unat (root A k) + (?K - 1) div 2"
  have K16: "?K < 2 ^ 16" by (rule unat_less_16)
  have NC: "NumberCompositions n k = Inr (int (ncomp ?N ?K))"
    using k n K16 by (intro NumberCompositions_ncomp) auto
  have T: "int (ncomp ?N ?K) - int r = int T" using r by (simp add: T_def)
  have k1: "unat (k - 1) = ?K - 1" using k by (subst unat_sub) (auto simp: word_le_nat_alt)
  have "T * fact (?K - 1) \<le> ncomp ?N ?K * fact (?K - 1)"
    by (intro mult_le_mono1) (simp add: T_def)
  also have "\<dots> \<le> (?N + ?K - 1) ^ (?K - 1)"
    unfolding ncomp_def by (rule binomial_fact_pow)
  finally have "int (T * fact (?K - 1)) \<le> int ((?N + ?K - 1) ^ (?K - 1))"
    by (simp only: of_nat_le_iff)
  then have "0 \<le> A" "A \<le> int (?N + ?K - 1) ^ (?K - 1)"
    by (simp_all add: A_def Factorial_fact k1)
  with root k have "unat (root A k) \<le> 2 * (?N + ?K - 1)" by (auto simp: root_ok_def)
  with n K16 have m0: "m0 + ?K - 1 < 2 ^ 64" by (simp add: m0_def)
  have mu0: "n - root A k - word_of_int ((uint k - 1) div 2) = n - of_nat m0"
  proof -
    have "(uint k - 1) div 2 = int ((?K - 1) div 2)"
      using k by (simp only: uint_nat zdiv_int of_nat_diff of_nat_1 of_nat_numeral)
    then show ?thesis by (simp add: m0_def)
  qed
  have up: "rbind (NumberCompositions (n - (n - of_nat m) - 1) k) (\<lambda>b. Inr (b < int T)) = Inr (Q m)"
    if "m \<le> m0" for m
  proof (cases m)
    case 0
    have "0 < T" using r by (simp add: T_def)
    with 0 k show ?thesis by (simp add: NumberCompositions_minus_1 Q_def)
  next
    case (Suc m')
    with that m0 k show ?thesis
      by (simp add: Q_def NumberCompositions_of_nat)
  qed
  obtain m1 where m1: "m1 \<le> m0" "Q m1" "\<forall>m'. m1 < m' \<and> m' \<le> m0 \<longrightarrow> \<not> Q m'"
    and search1: "search_up (\<lambda>mu. rbind (NumberCompositions (n - mu - 1) k) (\<lambda>b. Inr (b < int T)))
      (n - of_nat m0) = Some (Inr (n - of_nat m1))"
    using search_up_stops [of m0 "\<lambda>mu. rbind (NumberCompositions (n - mu - 1) k) (\<lambda>b. Inr (b < int T))" n Q]
      up by (auto simp: Q_def)
  define R where "R m \<longleftrightarrow> T \<le> ncomp m ?K" for m
  have RN: "R m" if "?N \<le> m" for m
    using ncomp_mono [OF that, of ?K] k by (simp add: R_def T_def)
  have down: "rbind (NumberCompositions (n - (n - of_nat m)) k) (\<lambda>b. Inr (int T \<le> b)) = Inr (R m)"
    if "m \<le> max m1 ?N" for m
  proof -
    have "m + ?K - 1 < 2 ^ 64" using that m0 m1(1) n K16 by auto
    with k show ?thesis by (simp add: R_def NumberCompositions_of_nat)
  qed
  obtain m2 where m2: "m1 \<le> m2" "R m2" "\<forall>m'. m1 \<le> m' \<and> m' < m2 \<longrightarrow> \<not> R m'"
    and search2: "search_down (\<lambda>mu. rbind (NumberCompositions (n - mu) k) (\<lambda>b. Inr (int T \<le> b)))
      (n - of_nat m1) = Some (Inr (n - of_nat m2))"
    using search_down_stops [of m1 "max m1 ?N" "\<lambda>mu. rbind (NumberCompositions (n - mu) k) (\<lambda>b. Inr (int T \<le> b))" n R]
      down RN by auto
  have below: "ncomp (m2 - 1) ?K < T" if "m2 \<noteq> 0"
  proof (cases "m2 = m1")
    case True
    with m1(2) that show ?thesis by (simp add: Q_def)
  next
    case False
    with m2 that have "\<not> R (m2 - 1)" by auto
    then show ?thesis by (simp add: R_def)
  qed
  have "m2 \<le> ?N"
  proof (rule ccontr)
    assume "\<not> m2 \<le> ?N"
    then have "R (m2 - 1)" "m2 \<noteq> 0" by (auto intro: RN)
    with below show False by (simp add: R_def)
  qed
  then have "first_part r ?N ?K (?N - m2)"
    using m2(2) below by (auto simp: first_part_def T_def R_def)
  moreover have "composition_part root (int r) n k = Inr (n - of_nat m2)"
    using search1 search2 by (simp add: composition_part_def NC T A_def [symmetric] mu0 Let_def)
  moreover have "n - of_nat m2 = of_nat (?N - m2)"
    using \<open>m2 \<le> ?N\<close> by simp
  ultimately show ?thesis by auto
qed

lemma comp_rank_Cons:
  assumes "xs \<noteq> []"
  shows "comp_rank (x # xs) = ncomp (x + sum_list xs) (Suc (length xs)) - ncomp (sum_list xs) (Suc (length xs)) + comp_rank xs"
  using assms by (cases xs) auto

lemma first_part_rest:
  assumes "first_part r n k x" "2 \<le> k" "r < ncomp n k"
  shows "r - (ncomp n k - ncomp (n - x) k) < ncomp (n - x) (k - 1)"
    and "ncomp n k - ncomp (n - x) k \<le> r"
proof -
  let ?s = "n - x"
  have le: "ncomp ?s k \<le> ncomp n k" using assms(2) by (intro ncomp_mono) auto
  have T: "ncomp n k - r \<le> ncomp ?s k" "x \<le> n" using assms(1) by (auto simp: first_part_def)
  show "ncomp n k - ncomp ?s k \<le> r" using T le by linarith
  show "r - (ncomp n k - ncomp ?s k) < ncomp ?s (k - 1)"
  proof (cases "x < n")
    case True
    with assms(1) have "ncomp (?s - 1) k < ncomp n k - r" by (simp add: first_part_def)
    moreover have "ncomp ?s k = ncomp (?s - 1) k + ncomp ?s (k - 1)"
      using True assms(2) ncomp_Suc [of "k - 1" "?s - 1"] by (simp add: Suc_diff_Suc)
    ultimately show ?thesis using T le by linarith
  next
    case False
    with T have "ncomp ?s k = 1" "ncomp ?s (k - 1) = 1" using assms(2) by (simp_all add: ncomp_def)
    with T le assms(3) show ?thesis by linarith
  qed
qed


lemma composition_loop_spec:
  assumes root: "root_ok root"
  shows "unat k = K \<Longrightarrow> 1 \<le> K \<Longrightarrow> unat n < 2 ^ 62 \<Longrightarrow> r < ncomp (unat n) K \<Longrightarrow>
    \<exists>comp' n' xs. composition_loop root [length pre..<length pre + K - 1] (pre @ replicate K 0) (int r) n k = Inr (comp', n')
      \<and> comp'[length pre + K - 1 := n'] = pre @ xs \<and> length xs = K
      \<and> sum_list (map unat xs) = unat n \<and> comp_rank (map unat xs) = r"
proof (induction K arbitrary: pre n k r)
  case 0
  then show ?case by simp
next
  case (Suc K)
  consider "K = 0" | "K \<noteq> 0" "n = 0" | "K \<noteq> 0" "n \<noteq> 0" by blast
  then show ?case
  proof cases
    case 1
    with Suc.prems show ?thesis by (intro exI [of _ "pre @ [0]"] exI [of _ n] exI [of _ "[n]"]) simp
  next
    case 2
    then obtain K' where "K = Suc K'" by (cases K) auto
    with 2 have "[length pre..<length pre + Suc K - 1] = length pre # [Suc (length pre)..<length pre + K]"
      by (simp add: upt_conv_Cons)
    then have loop: "composition_loop root [length pre..<length pre + Suc K - 1] (pre @ replicate (Suc K) 0) (int r) n k
        = Inr (pre @ replicate (Suc K) 0, n)"
      using 2 by simp
    have upd: "(pre @ replicate (Suc K) 0)[length pre + Suc K - 1 := n] = pre @ replicate (Suc K) 0"
      using 2 by (intro list_update_same_conv [THEN iffD2]) (auto simp: nth_append)
    have "r = 0" using 2 Suc.prems(4) by simp
    then show ?thesis
      using 2 loop upd
      by (intro exI [of "\<lambda>c. \<exists>n' xs. P c n' xs" "pre @ replicate (Suc K) 0" for P]
            exI [of "\<lambda>n'. \<exists>xs. P n' xs" n for P] exI [of _ "replicate (Suc K) 0"])
        (simp del: replicate_Suc add: sum_list_replicate)
  next
    case 3
    have k2: "2 \<le> unat k" using 3 Suc.prems(1) by simp
    have K16: "unat k < 2 ^ 16" by (rule unat_less_16)
    from composition_part_first [OF root k2 Suc.prems(3)] Suc.prems(1,4)
    obtain x where part: "composition_part root (int r) n k = Inr (of_nat x)"
      and x: "first_part r (unat n) (unat k) x" by auto
    let ?N = "unat n" and ?pre = "pre @ [of_nat x]"
    have xN: "x \<le> ?N" using x by (simp add: first_part_def)
    then have unx: "unat (of_nat x :: u64) = x"
      using unat_less_64 [of n] by (simp add: unat_of_nat)
    have nx: "unat (n - of_nat x) = ?N - x"
      using xN unx by (subst unat_sub) (auto simp: word_le_nat_alt)
    have k1: "unat (k - 1) = K"
      using k2 Suc.prems(1) by (subst unat_sub) (auto simp: word_le_nat_alt)
    have NC: "NumberCompositions n k = Inr (int (ncomp ?N (unat k)))"
      "NumberCompositions (n - of_nat x) k = Inr (int (ncomp (?N - x) (unat k)))"
      using k2 K16 Suc.prems(3) nx by (simp_all add: NumberCompositions_ncomp)
    let ?r = "r - (ncomp ?N (unat k) - ncomp (?N - x) (unat k))"
    have r: "?r < ncomp (?N - x) (unat k - 1)" "ncomp ?N (unat k) - ncomp (?N - x) (unat k) \<le> r"
      using first_part_rest [OF x k2] Suc.prems(1,4) by simp_all
    have le: "ncomp (?N - x) (unat k) \<le> ncomp ?N (unat k)" using k2 by (intro ncomp_mono) auto
    have idx: "int r - (int (ncomp ?N (unat k)) - int (ncomp (?N - x) (unat k))) = int ?r"
      using r(2) le by (simp add: of_nat_diff)
    have n62: "?N - x < 2 ^ 62" using Suc.prems(3) by linarith
    obtain comp' n' xs where IH:
      "composition_loop root [length ?pre..<length ?pre + K - 1] (?pre @ replicate K 0) (int ?r) (n - of_nat x) (k - 1) = Inr (comp', n')"
      "comp'[length ?pre + K - 1 := n'] = ?pre @ xs" "length xs = K"
      "sum_list (map unat xs) = ?N - x" "comp_rank (map unat xs) = ?r"
      using Suc.IH [of "k - 1" "n - of_nat x" ?r ?pre] k1 3 nx r(1) Suc.prems(1) n62 by auto
    have "composition_loop root [length pre..<length pre + Suc K - 1] (pre @ replicate (Suc K) 0) (int r) n k
        = Inr (comp', n')"
      using 3 part NC idx IH(1) by (simp add: upt_conv_Cons list_update_append)
    moreover have "comp'[length pre + Suc K - 1 := n'] = pre @ of_nat x # xs"
      using IH(2) by simp
    moreover have "xs \<noteq> []" using IH(3) 3 by auto
    then have "comp_rank (map unat (of_nat x # xs)) = r"
      using IH(3-5) 3 xN r(2) le Suc.prems(1) by (simp add: comp_rank_Cons unx)
    ultimately show ?thesis
      using IH(3,4) xN by (intro exI [of _ comp'] exI [of _ n'] exI [of _ "of_nat x # xs"]) (auto simp: unx)
  qed
qed

lemma IntegerToComposition_spec:
  assumes "root_ok root" "1 \<le> unat k" "unat n < 2 ^ 62" "r < ncomp (unat n) (unat k)"
  shows "\<exists>xs. IntegerToComposition root (int r) n k = Inr xs \<and> length xs = unat k
    \<and> sum_list (map unat xs) = unat n \<and> comp_rank (map unat xs) = r"
proof -
  have "k \<noteq> 0" using assms(2) by auto
  then show ?thesis
    using composition_loop_spec [OF assms(1) refl assms(2-4), of "[]"]
    by (auto simp: IntegerToComposition_def)
qed

lemma fold_sum_unat:
  "unat s + sum_list (map unat xs) < 2 ^ 64 \<Longrightarrow>
     unat (fold (\<lambda>c s. s + c) xs (s :: u64)) = unat s + sum_list (map unat xs)"
proof (induction xs arbitrary: s)
  case (Cons x xs)
  then have "unat (s + x) = unat s + unat x" by (simp add: unat_word_ariths)
  with Cons show ?case by simp
qed simp

lemma CompositionToInteger_rank:
  assumes "1 \<le> length c" "length c < 2 ^ 16" "sum_list (map unat c) < 2 ^ 63"
  shows "CompositionToInteger c = Inr (int (comp_rank (map unat c)))"
proof -
  let ?f = "\<lambda>i (idx, n, k).
                  rbind (vec_at c i) (\<lambda>x.
                  rbind (NumberCompositions n k) (\<lambda>a.
                  rbind (NumberCompositions (n - x) k) (\<lambda>b.
                    Inr (idx + (a - b), n - x, k - 1))))"
  have loop: "\<exists>n' k'. rfold ?f [length pre..<length pre + length xs - 1] (idx, n, k)
      = Inr (idx + int (comp_rank (map unat xs)), n', k')"
    if "c = pre @ xs" "xs \<noteq> []" "unat n = sum_list (map unat xs)" "unat k = length xs" for pre xs idx n k
    using that
  proof (induction xs arbitrary: pre idx n k)
    case (Cons x xs)
    show ?case
    proof (cases "xs = []")
      case False
      have "length xs + length [x] < 2 ^ 16" using Cons.prems assms by auto
      moreover have "sum_list (map unat (x # xs)) < 2 ^ 63" using Cons.prems assms by auto
      moreover have "unat (n - x) = sum_list (map unat xs)"
        using Cons.prems(3) by (subst unat_sub) (auto simp: word_le_nat_alt)
      moreover have "unat (k - 1) = length xs"
        using Cons.prems(4) by (subst unat_sub) (auto simp: word_le_nat_alt)
      ultimately have NC: "NumberCompositions n k = Inr (int (ncomp (unat x + sum_list (map unat xs)) (Suc (length xs))))"
        "NumberCompositions (n - x) k = Inr (int (ncomp (sum_list (map unat xs)) (Suc (length xs))))"
        and IH: "\<exists>n' k'. rfold ?f [Suc (length pre)..<length pre + length xs] (idx', n - x, k - 1)
          = Inr (idx' + int (comp_rank (map unat xs)), n', k')" for idx'
        using Cons.IH [of "pre @ [x]" "n - x" "k - 1"] Cons.prems False
        by (simp_all add: NumberCompositions_ncomp)
      have le: "ncomp (sum_list (map unat xs)) (Suc (length xs)) \<le> ncomp (unat x + sum_list (map unat xs)) (Suc (length xs))"
        by (rule ncomp_mono) auto
      have eq: "int (comp_rank (unat x # map unat xs)) =
          int (ncomp (unat x + sum_list (map unat xs)) (Suc (length xs)))
            - int (ncomp (sum_list (map unat xs)) (Suc (length xs))) + int (comp_rank (map unat xs))"
        using False le by (simp add: comp_rank_Cons of_nat_diff)
      have "[length pre..<length pre + length (x # xs) - 1] = length pre # [Suc (length pre)..<length pre + length xs]"
        using False by (simp add: upt_conv_Cons)
      moreover have "vec_at c (length pre) = Inr x" using Cons.prems by simp
      ultimately show ?thesis
        using IH [of "idx + (int (ncomp (unat x + sum_list (map unat xs)) (Suc (length xs)))
            - int (ncomp (sum_list (map unat xs)) (Suc (length xs))))"] NC False le
          eq by (simp add: add.assoc)
    qed simp
  qed simp
  have ne: "c \<noteq> []" using assms(1) by auto
  have "unat (fold (\<lambda>c s. s + c) c 0) = sum_list (map unat c)"
    using assms(3) by (subst fold_sum_unat) auto
  moreover have "unat (of_nat (length c) :: u16) = length c"
    using assms(2) by (simp add: unat_of_nat)
  ultimately obtain n' k' where
    "rfold ?f [0..<length c - 1] (0, fold (\<lambda>c s. s + c) c 0, of_nat (length c))
      = Inr (int (comp_rank (map unat c)), n', k')"
    using loop [of "[]" c "fold (\<lambda>c s. s + c) c 0" "of_nat (length c)" 0] ne by auto
  with \<open>unat (of_nat (length c) :: u16) = length c\<close> show ?thesis
    by (simp add: CompositionToInteger_def Let_def)
qed

section \<open>The two enumerations are rankings\<close>

definition is_permutation :: "u16 \<Rightarrow> u16 list \<Rightarrow> bool" where
  "is_permutation k p \<longleftrightarrow> length p = unat k \<and> distinct p \<and> set p = set (map of_nat [0..<unat k])"

definition is_composition :: "u64 \<Rightarrow> u16 \<Rightarrow> u64 list \<Rightarrow> bool" where
  "is_composition n k c \<longleftrightarrow> length c = unat k \<and> sum_list (map unat c) = unat n"

lemma sorted_range: "sorted_wrt (<) (map of_nat [0..<unat (k :: u16)] :: u16 list)"
  unfolding sorted_wrt_map
proof (rule sorted_wrt_mono_rel [OF _ sorted_wrt_upt])
  fix x y :: nat assume "x \<in> set [0..<unat k]" "y \<in> set [0..<unat k]" "x < y"
  with unat_less_16 [of k] show "(of_nat x :: u16) < of_nat y"
    by (simp add: word_less_nat_alt unat_of_nat)
qed

lemma IntegerToPermutation_permutation:
  assumes "r < fact (unat k)"
  shows "\<exists>p. IntegerToPermutation (int r) k = Inr p \<and> is_permutation k p \<and> perm_rank p = r"
proof -
  let ?buf = "map of_nat [0..<unat k] :: u16 list"
  let ?p = "perm_unrank (unat k) r ?buf"
  have p: "set ?p = set ?buf" "length ?p = unat k"
    using perm_unrank_perm [OF sorted_range, of k "unat k" r] assms by auto
  moreover have "distinct ?p"
    using p sorted_distinct [OF sorted_range, of k] distinct_card [of ?buf]
    by (intro card_distinct) simp
  moreover have "perm_rank ?p = r"
    using perm_rank_unrank [OF sorted_range, of k "unat k" r] assms by simp
  ultimately show ?thesis
    using IntegerToPermutation_unrank [OF assms] by (auto simp: is_permutation_def)
qed

interpretation perm: ranking
  "\<lambda>k. PermutationToInteger" "\<lambda>k idx. IntegerToPermutation idx k" is_permutation
  "\<lambda>k. fact (unat k)" "\<lambda>k. 2 \<le> unat k"
proof (unfold_locales, goal_cases)
  case (1 k r)
  then obtain p where "IntegerToPermutation (int r) k = Inr p" "is_permutation k p" "perm_rank p = r"
    using IntegerToPermutation_permutation by blast
  moreover from this 1 have "PermutationToInteger p = Inr (int r)"
    using PermutationToInteger_rank [of p] unat_less_16 [of k] by (simp add: is_permutation_def)
  ultimately show ?case by blast
next
  case (2 k p)
  then have "PermutationToInteger p = Inr (int (perm_rank p))"
    using PermutationToInteger_rank [of p] unat_less_16 [of k] by (simp add: is_permutation_def)
  moreover have "perm_rank p < fact (unat k)"
    using perm_rank_less [of p] 2(2) by (simp add: is_permutation_def)
  moreover have "IntegerToPermutation (int (perm_rank p)) k = Inr p"
    using IntegerToPermutation_unrank [OF calculation(2)] 2(2)
      perm_unrank_rank [OF sorted_range, of p k] by (simp add: is_permutation_def)
  ultimately show ?case by blast
qed

text \<open>A composition is enumerated for a root function, an integer and a number of parts.\<close>

definition comp_ok :: "(bigint \<Rightarrow> u16 \<Rightarrow> u64) \<times> u64 \<times> u16 \<Rightarrow> bool" where
  "comp_ok = (\<lambda>(root, n, k). root_ok root \<and> 2 \<le> unat k \<and> unat n < 2 ^ 62)"

interpretation comp: ranking
  "\<lambda>_. CompositionToInteger" "\<lambda>(root, n, k) idx. IntegerToComposition root idx n k"
  "\<lambda>(root, n, k). is_composition n k" "\<lambda>(root, n, k). ncomp (unat n) (unat k)" comp_ok
proof (unfold_locales, goal_cases)
  case (1 p r)
  obtain root n k where p: "p = (root, n, k)" by (cases p)
  with 1 have ok: "root_ok root" "2 \<le> unat k" "unat n < 2 ^ 62" by (simp_all add: comp_ok_def)
  then obtain c where c: "IntegerToComposition root (int r) n k = Inr c" "is_composition n k c"
    "comp_rank (map unat c) = r"
    using IntegerToComposition_spec [of root k n r] 1 p by (auto simp: is_composition_def)
  moreover have "CompositionToInteger c = Inr (int r)"
    using CompositionToInteger_rank [of c] c ok unat_less_16 [of k] by (simp add: is_composition_def)
  ultimately show ?case using p by auto
next
  case (2 p c)
  obtain root n k where p: "p = (root, n, k)" by (cases p)
  with 2 have ok: "root_ok root" "2 \<le> unat k" "unat n < 2 ^ 62" and c: "is_composition n k c"
    by (simp_all add: comp_ok_def)
  let ?r = "comp_rank (map unat c)"
  have r: "?r < ncomp (unat n) (unat k)"
    using comp_rank_less [of "map unat c"] c ok by (cases c) (auto simp: is_composition_def)
  obtain c' where "IntegerToComposition root (int ?r) n k = Inr c'" "length c' = unat k"
    "sum_list (map unat c') = unat n" "comp_rank (map unat c') = ?r"
    using IntegerToComposition_spec [of root k n ?r] ok r by auto
  moreover from this have "map unat c' = map unat c"
    using c by (intro comp_rank_inj) (auto simp: is_composition_def)
  then have "c' = c" by (rule map_injective) (auto simp: inj_def intro: unsigned_word_eqI)
  moreover have "CompositionToInteger c = Inr (int ?r)"
    using CompositionToInteger_rank [of c] c ok unat_less_16 [of k] by (simp add: is_composition_def)
  ultimately show ?case using p r by auto
qed

section \<open>Properties\<close>


text \<open>\<open>BinomialCoefficient\<close> is the binomial coefficient, as long as the 32-bit loop counter does not
  wrap; \<open>Factorial\<close> is the factorial.\<close>

theorem binomial_coefficient_correct:
  assumes "unat k < 2 ^ 32 - 1"
  shows "BinomialCoefficient n k = Inr (int (unat n choose unat k)) \<and> Factorial m = fact (unat m)"
  using assms by (intro conjI BinomialCoefficient_choose Factorial_fact) simp

theorem binomial_coefficient_correct_witness:
  "BinomialCoefficient 7 3 = Inr 35 \<and> Factorial 4 = 24"
proof -
  have "(7 choose 3 :: nat) = 35" by (simp add: numeral_eq_Suc)
  moreover have "fact 4 = (24 :: int)" by (simp add: numeral_eq_Suc)
  ultimately show ?thesis using binomial_coefficient_correct [of 3 7 4] by simp
qed

text \<open>C7: for two elements or more, \<open>IntegerToPermutation\<close> is a bijection from the indices below the
  factorial to the permutations of \<open>0..k-1\<close>, and \<open>PermutationToInteger\<close> is its inverse.\<close>

theorem permutation_bijection:
  assumes "2 \<le> unat k"
  shows "(0 \<le> idx \<and> idx < fact (unat k) \<longrightarrow>
      (\<exists>p. IntegerToPermutation idx k = Inr p \<and> is_permutation k p \<and> PermutationToInteger p = Inr idx)) \<and>
    (is_permutation k p \<longrightarrow>
      (\<exists>idx. PermutationToInteger p = Inr idx \<and> 0 \<le> idx \<and> idx < fact (unat k) \<and>
        IntegerToPermutation idx k = Inr p))"
proof (intro conjI impI)
  assume "0 \<le> idx \<and> idx < fact (unat k)"
  then obtain r where "idx = int r" "r < fact (unat k)"
    by (metis of_nat_fact of_nat_less_iff zero_le_imp_eq_int)
  then show "\<exists>p. IntegerToPermutation idx k = Inr p \<and> is_permutation k p \<and> PermutationToInteger p = Inr idx"
    using perm.unrank_rank [OF assms] by auto
next
  assume "is_permutation k p"
  then obtain r where "r < fact (unat k)" "PermutationToInteger p = Inr (int r)" "IntegerToPermutation (int r) k = Inr p"
    using perm.rank_unrank [OF assms] by blast
  moreover from this(1) have "int r < fact (unat k)" by (metis of_nat_fact of_nat_less_iff)
  ultimately show "\<exists>idx. PermutationToInteger p = Inr idx \<and> 0 \<le> idx \<and> idx < fact (unat k) \<and>
      IntegerToPermutation idx k = Inr p"
    by (intro exI [of _ "int r"]) simp
qed

theorem permutation_bijection_witness:
  "\<exists>p. IntegerToPermutation 4 3 = Inr p \<and> is_permutation 3 p \<and> PermutationToInteger p = Inr 4"
  using permutation_bijection [of 3 4] by (simp add: fact_numeral)

text \<open>C6: for two parts or more and an integer below \<open>2 ^ 62\<close>, \<open>IntegerToComposition\<close> ends and is a
  bijection from the indices below the number of compositions to the compositions of the integer, and
  \<open>CompositionToInteger\<close> is its inverse, whatever root the multiprecision library computes within a
  factor of two.\<close>

theorem composition_bijection:
  assumes "root_ok root" "2 \<le> unat k" "unat n < 2 ^ 62" "NumberCompositions n k = Inr num"
  shows "(0 \<le> idx \<and> idx < num \<longrightarrow>
      (\<exists>c. IntegerToComposition root idx n k = Inr c \<and> is_composition n k c \<and> CompositionToInteger c = Inr idx)) \<and>
    (is_composition n k c \<longrightarrow>
      (\<exists>idx. CompositionToInteger c = Inr idx \<and> 0 \<le> idx \<and> idx < num \<and>
        IntegerToComposition root idx n k = Inr c))"
proof -
  have ok: "comp_ok (root, n, k)" using assms by (simp add: comp_ok_def)
  have "NumberCompositions n k = Inr (int (ncomp (unat n) (unat k)))"
    using assms(2,3) unat_less_16 [of k] by (intro NumberCompositions_ncomp) auto
  with assms(4) have num: "num = int (ncomp (unat n) (unat k))" by simp
  show ?thesis
  proof (intro conjI impI)
    assume "0 \<le> idx \<and> idx < num"
    then obtain r where "idx = int r" "r < ncomp (unat n) (unat k)"
      using num by (metis of_nat_less_iff zero_le_imp_eq_int)
    then show "\<exists>c. IntegerToComposition root idx n k = Inr c \<and> is_composition n k c \<and> CompositionToInteger c = Inr idx"
      using comp.unrank_rank [OF ok] by auto
  next
    assume "is_composition n k c"
    then obtain r where "r < ncomp (unat n) (unat k)" "CompositionToInteger c = Inr (int r)"
      "IntegerToComposition root (int r) n k = Inr c"
      using comp.rank_unrank [OF ok, of c] by auto
    then show "\<exists>idx. CompositionToInteger c = Inr idx \<and> 0 \<le> idx \<and> idx < num \<and>
        IntegerToComposition root idx n k = Inr c"
      by (intro exI [of _ "int r"]) (simp add: num)
  qed
qed

text \<open>A root that is too small makes the search start too high and go down; it is within the bound.\<close>

lemma root_ok_zero: "root_ok (\<lambda>A k. 0)"
  by (simp add: root_ok_def)

theorem composition_bijection_witness:
  "\<exists>c. IntegerToComposition (\<lambda>A k. 0) 7 4 3 = Inr c \<and> is_composition 4 3 c \<and> CompositionToInteger c = Inr 7"
proof -
  have "(6 choose 2 :: nat) = 15" by (simp add: numeral_eq_Suc)
  then have "NumberCompositions 4 3 = Inr 15"
    using NumberCompositions_choose [of 3 4] by simp
  then show ?thesis using composition_bijection [OF root_ok_zero, of 3 4 15 7] by simp
qed

end
