(* ===== verification/DataInterface.thy ===== *)
theory DataInterface
  imports Maths Keys
begin

text \<open>
  \<open>src/src/lib/bms/DataInterface.cpp\<close>: the carriers. Binary vectors become sequence numbers,
  public keys, compositions of a budget and permutations, and are read back. Random bits are a list
  of draws. The floating-point computation \<open>(uint32_t) (log(N) / log(2))\<close> on \<open>cpp_dec_float\<close> is the
  parameter \<open>lg\<close>; the carriers rely on its never exceeding the binary logarithm.
\<close>

section \<open>Sequence numbers\<close>

definition EncodeDataInSequenceNr :: "databits \<Rightarrow> u32 result" where
  "EncodeDataInSequenceNr Bits =
     rbind (rassert (length Bits = 32)) (\<lambda>_.
     rbind (BitsToData Bits) (\<lambda>dat.
     rbind (vec_at dat 0) (\<lambda>d0.
     rbind (vec_at dat 1) (\<lambda>d1.
     rbind (vec_at dat 2) (\<lambda>d2.
     rbind (vec_at dat 3) (\<lambda>d3.
       Inr (0 OR push_bit 24 (ucast d0) OR push_bit 16 (ucast d1) OR push_bit 8 (ucast d2) OR ucast d3)))))))"

definition DecodeDataInSequenceNr :: "u32 \<Rightarrow> databits" where
  "DecodeDataInSequenceNr sequenceNr =
     DataToBits
       [ucast (drop_bit 24 sequenceNr AND 0xFF), ucast (drop_bit 16 sequenceNr AND 0xFF),
        ucast (drop_bit 8 sequenceNr AND 0xFF), ucast (sequenceNr AND 0xFF)]"

section \<open>Public keys\<close>

text \<open>\<open>GenerateRandomBits\<close> of \<open>Utilities.cpp\<close>.\<close>

definition GenerateRandomBits :: "nat \<Rightarrow> bool list \<Rightarrow> (databits \<times> bool list) result" where
  "GenerateRandomBits nBits draws =
     (if nBits \<le> length draws then Inr (take nBits draws, drop nBits draws) else Inl NoMoreInput)"

text \<open>The loop draws random bits until the key is valid; with none to draw it tries one key forever.\<close>

function EncodeDataInPubkey_loop ::
    "openssl \<Rightarrow> databits \<Rightarrow> databits \<Rightarrow> nat \<Rightarrow> bool list \<Rightarrow> (CPubKey \<times> bool list) result" where
  "EncodeDataInPubkey_loop ssl pre dat nRandBits draws =
     rbind (GenerateRandomBits nRandBits draws) (\<lambda>(random, draws').
     rbind (BitsToData (pre @ dat @ random)) (\<lambda>bytes.
       let pk = mk_pubkey bytes
       in if IsFullyValid ssl pk then Inr (pk, draws')
          else if nRandBits = 0 then Inl Diverges
          else EncodeDataInPubkey_loop ssl pre dat nRandBits draws'))"
  by pat_completeness auto
termination
  by (relation "measure (\<lambda>(ssl, pre, dat, nRandBits, draws). length draws)")
    (auto simp: GenerateRandomBits_def split: if_splits)

declare EncodeDataInPubkey_loop.simps [simp del]

definition EncodeDataInPubkey ::
    "openssl \<Rightarrow> databits \<Rightarrow> byte \<Rightarrow> bool list \<Rightarrow> (CPubKey \<times> bool list) result" where
  "EncodeDataInPubkey ssl Data nRandBits draws =
     rbind (rassert (1 \<le> length Data)) (\<lambda>_.
     rbind (rassert (5 \<le> nRandBits)) (\<lambda>_.
     rbind (rassert (255 - int (length Data) = uint nRandBits)) (\<lambda>_.
       let pre = replicate 6 False @ [True] @ [False];
           dat = [False] @ Data;
           dat = dat @ replicate (256 - length dat - unat nRandBits) False
       in EncodeDataInPubkey_loop ssl pre dat (unat nRandBits) draws)))"

definition DecodeDataInPubkey :: "CPubKey \<Rightarrow> byte \<Rightarrow> databits result" where
  "DecodeDataInPubkey Pubkey nRandBits =
     (let buf = DataToBits (pk_bytes Pubkey)
      in if length buf < 9 then Inl Undefined
         else let buf = drop 9 buf
              in if length buf < unat nRandBits then Inl Undefined
                 else Inr (take (length buf - unat nRandBits) buf))"

section \<open>Compositions of a budget\<close>

definition EmbeddableBitsInValues :: "(bigint \<Rightarrow> u32) \<Rightarrow> u64 \<Rightarrow> u16 \<Rightarrow> u32 result" where
  "EmbeddableBitsInValues lg n k = rbind (NumberCompositions n k) (\<lambda>N. Inr (lg N))"

definition EncodeDataInValues ::
    "(bigint \<Rightarrow> u32) \<Rightarrow> (bigint \<Rightarrow> u16 \<Rightarrow> u64) \<Rightarrow> databits \<Rightarrow> u64 \<Rightarrow> u16 \<Rightarrow> u64 list result" where
  "EncodeDataInValues lg root Data budget nParts =
     rbind (EmbeddableBitsInValues lg budget nParts) (\<lambda>MaxBits.
     rbind (rassert (length Data = unat MaxBits)) (\<lambda>_.
     rbind (rassert (nParts \<ge> 2)) (\<lambda>_.
     rbind (DataBitsToInt Data) (\<lambda>idx.
       IntegerToComposition root idx budget nParts))))"

text \<open>\<open>data.insert(data.begin(), MaxBits - data.size(), false)\<close> throws when the difference wraps.\<close>

definition insert_front :: "u32 \<Rightarrow> databits \<Rightarrow> databits result" where
  "insert_front MaxBits dat =
     (if length dat \<le> unat MaxBits then Inr (replicate (unat MaxBits - length dat) False @ dat)
      else Inl (Thrown ''std::length_error''))"

definition DecodeDataInValues :: "(bigint \<Rightarrow> u32) \<Rightarrow> u64 list \<Rightarrow> databits result" where
  "DecodeDataInValues lg Values =
     (let Budget = fold (\<lambda>c s. s + c) Values 0;
          nParts = of_nat (length Values) :: u16
      in rbind (rassert (nParts \<ge> 2)) (\<lambda>_.
         rbind (EmbeddableBitsInValues lg Budget nParts) (\<lambda>MaxBits.
         rbind (CompositionToInteger Values) (\<lambda>idx.
           insert_front MaxBits (IntToDataBits idx)))))"

section \<open>Permutations\<close>

definition EmbeddableBitsInPermutation :: "(bigint \<Rightarrow> u32) \<Rightarrow> u16 \<Rightarrow> u32" where
  "EmbeddableBitsInPermutation lg nParts = lg (Factorial nParts)"

definition EncodeDataInPermutation :: "(bigint \<Rightarrow> u32) \<Rightarrow> databits \<Rightarrow> u16 \<Rightarrow> u16 list result" where
  "EncodeDataInPermutation lg Data nParts =
     (let MaxBits = EmbeddableBitsInPermutation lg nParts
      in rbind (rassert (nParts \<ge> 2)) (\<lambda>_.
         rbind (rassert (length Data = unat MaxBits)) (\<lambda>_.
         rbind (DataBitsToInt Data) (\<lambda>idx.
           IntegerToPermutation idx nParts))))"

definition DecodeDataInPermutation :: "(bigint \<Rightarrow> u32) \<Rightarrow> u16 list \<Rightarrow> databits result" where
  "DecodeDataInPermutation lg Permutation =
     (let Size = of_nat (length Permutation) :: u16;
          MaxBits = EmbeddableBitsInPermutation lg Size
      in rbind (rassert (Size \<ge> 2)) (\<lambda>_.
         rbind (PermutationToInteger Permutation) (\<lambda>idx.
           insert_front MaxBits (IntToDataBits idx))))"

text \<open>What the carriers need of the logarithm.\<close>

definition lg_ok :: "(bigint \<Rightarrow> u32) \<Rightarrow> bool" where
  "lg_ok lg \<longleftrightarrow> (\<forall>N > 0. 2 ^ unat (lg N) \<le> N)"

section \<open>What is encoded is decoded\<close>


lemma EncodeDataInSequenceNr_total: "length bits = 32 \<Longrightarrow> \<exists>n. EncodeDataInSequenceNr bits = Inr n"
proof -
  assume len: "length bits = 32"
  then obtain d where d: "BitsToData bits = Inr d" using BitsToData_total [of bits] by auto
  then have "length d = 4" using len length_DataToBits [of d] by (simp add: BitsToData_Inr_iff)
  with len d show ?thesis by (simp add: EncodeDataInSequenceNr_def)
qed

lemma seqnr_bytes:
  "[ucast (drop_bit 24 n AND 0xFF), ucast (drop_bit 16 n AND 0xFF), ucast (drop_bit 8 n AND 0xFF), ucast (n AND 0xFF)]
    = rev (le_bytes 4 n)" for n :: u32
proof -
  have m: "(0xFF :: u32) = mask 8" by (simp add: mask_eq_exp_minus_1)
  have "ucast (x AND 0xFF) = (ucast x :: byte)" for x :: u32
    unfolding m by (rule bit_word_eqI) (auto simp: bit_simps)
  then show ?thesis by (simp add: le_bytes_4)
qed

lemma seqnr_word: "0 OR push_bit 24 (ucast d0) OR push_bit 16 (ucast d1) OR push_bit 8 (ucast d2) OR ucast d3
   = (le_word [d3, d2, d1, d0] :: u32)"
  by (simp add: ac_simps)

lemma Decode_Encode_SequenceNr:
  "EncodeDataInSequenceNr bits = Inr n \<Longrightarrow> DecodeDataInSequenceNr n = bits"
proof -
  assume *: "EncodeDataInSequenceNr bits = Inr n"
  then obtain d where d: "BitsToData bits = Inr d" and len: "length bits = 32"
    by (auto simp: EncodeDataInSequenceNr_def result_simps)
  have bits: "DataToBits d = bits" using d by (simp add: BitsToData_Inr_iff)
  then have "length d = 4" using len length_DataToBits [of d] by simp
  then obtain a b c e where dd: "d = [a, b, c, e]" by (auto simp: numeral_eq_Suc length_Suc_conv)
  with * d have "n = le_word [e, c, b, a]"
    unfolding seqnr_word [symmetric] by (simp add: EncodeDataInSequenceNr_def len)
  then have "le_bytes 4 n = [e, c, b, a]"
    using le_bytes_le_word [of "[e, c, b, a]", where 'a = 32] by (simp add: numeral_eq_Suc)
  then show ?thesis using bits dd unfolding DecodeDataInSequenceNr_def seqnr_bytes by simp
qed

lemma Encode_Decode_SequenceNr: "EncodeDataInSequenceNr (DecodeDataInSequenceNr n) = Inr n"
proof -
  have n: "le_word (le_bytes 4 n) = n" by (rule le_word_le_bytes) simp
  define d where "d = rev (le_bytes 4 n)"
  have "length d = 4" "rev d = le_bytes 4 n" by (simp_all add: d_def)
  then obtain a b c e where dd: "d = [a, b, c, e]" by (auto simp: numeral_eq_Suc length_Suc_conv)
  with \<open>rev d = le_bytes 4 n\<close> n have "le_word [e, c, b, a] = n" by simp
  then show ?thesis
    unfolding DecodeDataInSequenceNr_def seqnr_bytes d_def [symmetric] EncodeDataInSequenceNr_def seqnr_word
      BitsToData_DataToBits
    by (simp add: dd)
qed

lemma byte_2: "CharToBoolVec 2 = replicate 6 False @ [True] @ [False]"
  by code_simp

lemma EncodeDataInPubkey_loop_bytes:
  "EncodeDataInPubkey_loop ssl (CharToBoolVec 2) dat n draws = Inr (pk, draws') \<Longrightarrow>
   length dat + n = 256 \<Longrightarrow>
   IsFullyValid ssl pk \<and> pk_size pk = 33 \<and>
   (\<exists>random used. length random = n \<and> DataToBits (pk_bytes pk) = CharToBoolVec 2 @ dat @ random \<and> draws = used @ draws')"
proof (induction ssl "CharToBoolVec 2" dat n draws rule: EncodeDataInPubkey_loop.induct)
  case (1 ssl dat n draws)
  from 1(2) have n: "n \<le> length draws"
    by (subst (asm) EncodeDataInPubkey_loop.simps) (auto simp: GenerateRandomBits_def split: if_splits)
  let ?bits = "CharToBoolVec 2 @ dat @ take n draws"
  have "8 dvd length ?bits" using n 1(3) by simp
  then obtain bytes where bytes: "BitsToData ?bits = Inr bytes" using BitsToData_total by blast
  then have B: "DataToBits bytes = ?bits" by (simp add: BitsToData_Inr_iff)
  then obtain b bs where bb: "bytes = b # bs" by (cases bytes) auto
  with B have "CharToBoolVec b = CharToBoolVec 2" by (metis DataToBits.simps(2) append_eq_append_conv length_CharToBoolVec)
  then have b: "b = 2" by (metis BoolVecToChar_CharToBoolVec sum.inject(2))
  have "8 * length bytes = 264" using B n 1(3) length_DataToBits [of bytes] by simp
  with bb b have pk: "pk_bytes (mk_pubkey bytes) = bytes" "pk_size (mk_pubkey bytes) = 33"
    using pk_bytes_mk_pubkey [of bytes] pk_size_mk_pubkey [of bytes] by (auto simp: GetLen_def)
  show ?case
  proof (cases "IsFullyValid ssl (mk_pubkey bytes)")
    case True
    with 1(2) n bytes have "pk = mk_pubkey bytes" "draws' = drop n draws"
      by (subst (asm) EncodeDataInPubkey_loop.simps, simp add: GenerateRandomBits_def Let_def)+
    with True pk B n show ?thesis by (auto intro!: exI [of _ "take n draws"])
  next
    case False
    with 1(2) n bytes have "n \<noteq> 0" "EncodeDataInPubkey_loop ssl (CharToBoolVec 2) dat n (drop n draws) = Inr (pk, draws')"
      by (subst (asm) EncodeDataInPubkey_loop.simps, simp add: GenerateRandomBits_def Let_def split: if_splits)+
    with 1(1) [of "(take n draws, drop n draws)"] False n bytes 1(3)
    have "IsFullyValid ssl pk \<and> pk_size pk = 33 \<and> (\<exists>random used. length random = n \<and>
        DataToBits (pk_bytes pk) = CharToBoolVec 2 @ dat @ random \<and> drop n draws = used @ draws')"
      by (simp add: GenerateRandomBits_def)
    then show ?thesis by (metis append_assoc append_take_drop_id)
  qed
qed

lemma EncodeDataInPubkey_bytes:
  assumes "EncodeDataInPubkey ssl Data nRandBits draws = Inr (pk, draws')"
  shows "IsFullyValid ssl pk" "pk_size pk = 33" "length (pk_bytes pk) = 33"
    "\<exists>random. length random = unat nRandBits \<and> DataToBits (pk_bytes pk) = CharToBoolVec 2 @ False # Data @ random"
    "\<exists>used. draws = used @ draws'"
proof -
  from assms have **: "1 \<le> length Data" "255 - int (length Data) = uint nRandBits"
    by (simp_all add: EncodeDataInPubkey_def result_simps)
  then have "int (length Data + unat nRandBits) = 255" by simp
  with ** have *: "1 \<le> length Data" "length Data + unat nRandBits = 255" by linarith+
  then have "EncodeDataInPubkey_loop ssl (CharToBoolVec 2) (False # Data) (unat nRandBits) draws = Inr (pk, draws')"
    using assms by (auto simp: EncodeDataInPubkey_def result_simps Let_def byte_2)
  then have "IsFullyValid ssl pk \<and> pk_size pk = 33 \<and>
   (\<exists>random used. length random = unat nRandBits \<and> DataToBits (pk_bytes pk) = CharToBoolVec 2 @ (False # Data) @ random \<and> draws = used @ draws')"
    by (rule EncodeDataInPubkey_loop_bytes) (use * in simp)
  then show 1: "IsFullyValid ssl pk" "pk_size pk = 33"
    "\<exists>random. length random = unat nRandBits \<and> DataToBits (pk_bytes pk) = CharToBoolVec 2 @ False # Data @ random"
    "\<exists>used. draws = used @ draws'" by auto
  then obtain random where "length random = unat nRandBits"
      "DataToBits (pk_bytes pk) = CharToBoolVec 2 @ False # Data @ random" by blast
  then have "8 * length (pk_bytes pk) = 264" using * unfolding length_DataToBits [symmetric] by simp
  then show "length (pk_bytes pk) = 33" by simp
qed

lemma Decode_Encode_Pubkey:
  assumes "EncodeDataInPubkey ssl Data nRandBits draws = Inr (pk, draws')"
  shows "DecodeDataInPubkey pk nRandBits = Inr Data"
proof -
  obtain random where "length random = unat nRandBits" "DataToBits (pk_bytes pk) = CharToBoolVec 2 @ False # Data @ random"
    using EncodeDataInPubkey_bytes(4) [OF assms] by blast
  then show ?thesis by (simp add: DecodeDataInPubkey_def Let_def)
qed

lemma insert_front_IntToDataBits:
  "length bits = unat MaxBits \<Longrightarrow> insert_front MaxBits (IntToDataBits (bits_value bits)) = Inr bits"
  using IntToDataBits_pad [of bits] IntToDataBits_length [of "bits_value bits" "length bits"] bits_value_bounds [of bits]
  by (simp add: insert_front_def)

lemma EncodeDataInPermutation_ok:
  assumes "lg_ok lg" "2 \<le> unat k" "length bits = unat (EmbeddableBitsInPermutation lg k)" "bits \<noteq> []"
  shows "\<exists>p. EncodeDataInPermutation lg bits k = Inr p \<and> is_permutation k p \<and> DecodeDataInPermutation lg p = Inr bits"
proof -
  have "2 ^ length bits \<le> (fact (unat k) :: nat)"
  proof -
    have "(2 :: int) ^ unat (lg (fact (unat k))) \<le> fact (unat k)" using assms(1) by (simp add: lg_ok_def)
    then have "int (2 ^ length bits) \<le> int (fact (unat k))"
      using assms(3) by (simp add: EmbeddableBitsInPermutation_def Factorial_fact)
    then show ?thesis by (simp only: of_nat_le_iff)
  qed
  from perm.encode_bits [OF assms(2,4) this] obtain p where p:
    "rbind (DataBitsToInt bits) (\<lambda>idx. IntegerToPermutation idx k) = Inr p" "is_permutation k p"
    "PermutationToInteger p = Inr (bits_value bits)" by auto
  have "(2 :: u16) \<le> k" using assms(2) by (simp add: word_le_nat_alt)
  moreover have "(of_nat (length p) :: u16) = k" using p(2) by (simp add: is_permutation_def)
  ultimately show ?thesis using p assms(3)
    by (auto simp: EncodeDataInPermutation_def DecodeDataInPermutation_def Let_def insert_front_IntToDataBits)
qed

lemma EncodeDataInValues_ok:
  assumes "lg_ok lg" "root_ok root" "2 \<le> unat k" "unat n < 2 ^ 62"
    and "EmbeddableBitsInValues lg n k = Inr m" "length bits = unat m" "bits \<noteq> []"
  shows "\<exists>c. EncodeDataInValues lg root bits n k = Inr c \<and> is_composition n k c \<and> DecodeDataInValues lg c = Inr bits"
proof -
  have NC: "NumberCompositions n k = Inr (int (ncomp (unat n) (unat k)))"
    using assms(3,4) unat_less_16 [of k] by (intro NumberCompositions_ncomp) auto
  have "2 ^ length bits \<le> ncomp (unat n) (unat k)"
    using assms(1,3,5,6) ncomp_pos [of "unat k" "unat n"] NC 
    by (auto simp: lg_ok_def EmbeddableBitsInValues_def) (metis of_nat_0_less_iff of_nat_le_iff of_nat_numeral of_nat_power)
  moreover have "comp_ok (root, n, k)" using assms by (simp add: comp_ok_def)
  ultimately obtain c where c:
    "rbind (DataBitsToInt bits) (\<lambda>idx. IntegerToComposition root idx n k) = Inr c" "is_composition n k c"
    "CompositionToInteger c = Inr (bits_value bits)" 
    using comp.encode_bits [of "(root, n, k)" bits] assms(7) by auto
  have "(2 :: u16) \<le> k" using assms(3) by (simp add: word_le_nat_alt)
  moreover have "(of_nat (length c) :: u16) = k" using c(2) by (simp add: is_composition_def)
  moreover have "fold (\<lambda>c s. s + c) c 0 = n"
  proof -
    have "unat (fold (\<lambda>c s. s + c) c 0) = unat n"
      using c(2) assms(4) by (subst fold_sum_unat) (auto simp: is_composition_def)
    then show ?thesis by (simp add: word_unat_eq_iff)
  qed
  ultimately show ?thesis using c assms(5,6)
    by (auto simp: EncodeDataInValues_def DecodeDataInValues_def Let_def insert_front_IntToDataBits)
qed

section \<open>Properties\<close>


text \<open>32 bits become a sequence number and come back, and every sequence number stands for some
  32 bits; other lengths fail the assertion.\<close>

theorem sequence_number_bijection:
  "(EncodeDataInSequenceNr bits = Inr n \<longleftrightarrow> DecodeDataInSequenceNr n = bits) \<and>
   ((\<exists>n. EncodeDataInSequenceNr bits = Inr n) \<longleftrightarrow> length bits = 32)"
proof (intro conjI iffI)
  show "EncodeDataInSequenceNr bits = Inr n \<Longrightarrow> DecodeDataInSequenceNr n = bits"
    by (rule Decode_Encode_SequenceNr)
  show "DecodeDataInSequenceNr n = bits \<Longrightarrow> EncodeDataInSequenceNr bits = Inr n"
    using Encode_Decode_SequenceNr by auto
  show "\<exists>n. EncodeDataInSequenceNr bits = Inr n \<Longrightarrow> length bits = 32"
    by (auto simp: EncodeDataInSequenceNr_def result_simps)
  show "length bits = 32 \<Longrightarrow> \<exists>n. EncodeDataInSequenceNr bits = Inr n"
    by (rule EncodeDataInSequenceNr_total)
qed

text \<open>C24: a public key that carries data is fully valid, compressed, and gives the data back, whatever
  random bits were drawn.\<close>

theorem pubkey_roundtrip:
  assumes "EncodeDataInPubkey ssl Data nRandBits draws = Inr (pk, draws')"
  shows "IsFullyValid ssl pk \<and> pk_IsCompressed pk \<and> DecodeDataInPubkey pk nRandBits = Inr Data"
  using EncodeDataInPubkey_bytes [OF assms] Decode_Encode_Pubkey [OF assms]
  by (simp add: pk_IsCompressed_def)

definition lax_ssl :: openssl where
  "lax_ssl = \<lparr>SHA256 = \<lambda>v. take 32 (v @ replicate 32 0), SHA512 = \<lambda>v. take 64 (v @ replicate 64 0),
     RIPEMD160 = \<lambda>v. take 20 (v @ replicate 20 0), SHA1 = \<lambda>v. take 20 (v @ replicate 20 0),
     BN_bin2bn = \<lambda>v. int (be_value v), BN_bn2bin = \<lambda>n. [], BN_mpi2bn = \<lambda>v. 0, BN_bn2mpi = \<lambda>n. [],
     BN_mod_inverse = \<lambda>a m. None, EC_order = 7, EC_field = 11, EC_POINT_mul = \<lambda>n q. None,
     EC_POINT_set_compressed_coordinates = \<lambda>x y. None,
     o2i_ECPublicKey = \<lambda>v. if odd (unat (last v)) then Some None else None,
     i2o_ECPublicKey = \<lambda>p c. [], d2i_ECPrivateKey = \<lambda>v. None, i2d_ECPrivateKey = \<lambda>n c. [],
     ECDSA_do_sign = \<lambda>h s. Some (1, 1), i2d_ECDSA_SIG = \<lambda>rs. [0x30],
     ECDSA_verify = \<lambda>h s p. s = [0x30]\<rparr>"

theorem pubkey_roundtrip_witness:
  "\<exists>pk. EncodeDataInPubkey lax_ssl (replicate 250 True) 5
      [False, False, False, False, False, False, True, True, False, True, True] = Inr (pk, [True]) \<and>
    DecodeDataInPubkey pk 5 = Inr (replicate 250 True)"
proof -
  let ?pk = "mk_pubkey (2 # 0x7F # replicate 30 0xFF @ [0xED])"
  have "EncodeDataInPubkey lax_ssl (replicate 250 True) 5
      [False, False, False, False, False, False, True, True, False, True, True] = Inr (?pk, [True])"
    by code_simp
  from this pubkey_roundtrip [OF this] show ?thesis by blast
qed

text \<open>C22: as many bits as the logarithm allows become a composition of the budget into the given number
  of parts, and decoding the parts gives the bits back.\<close>

theorem values_roundtrip:
  assumes "lg_ok lg" "root_ok root" "2 \<le> unat nParts" "unat budget < 2 ^ 62"
    and "EmbeddableBitsInValues lg budget nParts = Inr MaxBits"
    and "length Data = unat MaxBits" "Data \<noteq> []"
  shows "\<exists>c. EncodeDataInValues lg root Data budget nParts = Inr c \<and> is_composition budget nParts c \<and>
    DecodeDataInValues lg c = Inr Data"
  using EncodeDataInValues_ok [OF assms] .

text \<open>The binary logarithm of a \<open>cpp_int\<close>, rounded down, cut at \<open>2 ^ 31\<close>.\<close>

definition floor_lg :: "bigint \<Rightarrow> u32" where
  "floor_lg N = of_nat (min (2 ^ 31) (length (IntToDataBits N) - 1))"

lemma IntToDataBits_loop_pos [simp]:
  "0 < num \<Longrightarrow> IntToDataBits_loop num bits = IntToDataBits_loop (num div 2) (odd num # bits)"
  "IntToDataBits_loop 0 bits = bits"
  by (subst IntToDataBits_loop.simps, simp)+

lemma IntToDataBits_loop_head: "0 < N \<Longrightarrow> \<exists>ys. IntToDataBits_loop N bits = True # ys"
proof (induction N bits rule: IntToDataBits_loop.induct)
  case (1 N bits)
  show ?case
  proof (cases "N = 1")
    case False
    then have "0 < N div 2" using 1(2) by simp
    with 1 show ?thesis by simp
  qed simp
qed

lemma IntToDataBits_lower:
  assumes "0 < N" shows "2 ^ (length (IntToDataBits N) - 1) \<le> N"
proof -
  obtain ys where ys: "IntToDataBits N = True # ys"
    using IntToDataBits_loop_head [OF assms] by (auto simp: IntToDataBits_def)
  with IntToDataBits_value [of N] assms bits_value_bounds [of ys] show ?thesis by simp
qed

lemma floor_lg_ok: "lg_ok floor_lg"
  unfolding lg_ok_def
proof (intro allI impI)
  fix N :: bigint assume N: "0 < N"
  define m where "m = min (2 ^ 31) (length (IntToDataBits N) - 1)"
  have "m \<le> 2 ^ 31" by (simp add: m_def)
  then have "unat (floor_lg N) = m"
    unfolding floor_lg_def m_def [symmetric] by (simp add: unat_of_nat)
  moreover have "(2 :: int) ^ m \<le> 2 ^ (length (IntToDataBits N) - 1)"
    by (rule power_increasing) (simp_all add: m_def)
  then have "2 ^ m \<le> N" using IntToDataBits_lower [OF N] by (rule order_trans)
  ultimately show "2 ^ unat (floor_lg N) \<le> N" by (simp only:)
qed

theorem values_roundtrip_witness:
  "\<exists>c. EncodeDataInValues floor_lg (\<lambda>A k. 0) [True, False, True] 4 3 = Inr c \<and>
    is_composition 4 3 c \<and> DecodeDataInValues floor_lg c = Inr [True, False, True]"
proof -
  have "(6 choose 2 :: nat) = 15" by (simp add: numeral_eq_Suc)
  then have "NumberCompositions 4 3 = Inr 15" using NumberCompositions_choose [of 3 4] by simp
  then have "EmbeddableBitsInValues floor_lg 4 3 = Inr 3"
    by (simp add: EmbeddableBitsInValues_def floor_lg_def IntToDataBits_def)
  then show ?thesis
    using values_roundtrip [OF floor_lg_ok root_ok_zero, of 3 4 3 "[True, False, True]"] by simp
qed

text \<open>C23: as many bits as the logarithm allows become a permutation, and decoding it gives them
  back.\<close>

theorem permutation_roundtrip:
  assumes "lg_ok lg" "2 \<le> unat nParts"
    and "length Data = unat (EmbeddableBitsInPermutation lg nParts)" "Data \<noteq> []"
  shows "\<exists>p. EncodeDataInPermutation lg Data nParts = Inr p \<and> is_permutation nParts p \<and>
    DecodeDataInPermutation lg p = Inr Data"
  using EncodeDataInPermutation_ok [OF assms] .

theorem permutation_roundtrip_witness:
  "\<exists>p. EncodeDataInPermutation floor_lg [True, False] 3 = Inr p \<and> is_permutation 3 p \<and>
    DecodeDataInPermutation floor_lg p = Inr [True, False]"
proof -
  have "EmbeddableBitsInPermutation floor_lg 3 = 2"
    by (simp add: EmbeddableBitsInPermutation_def Factorial_fact floor_lg_def IntToDataBits_def fact_numeral)
  then show ?thesis using permutation_roundtrip [OF floor_lg_ok, of 3 "[True, False]"] by simp
qed

text \<open>C40: when nothing is left of the budget to split, its only composition carries no bits and encoding
  them reads outside the empty vector.\<close>

theorem zero_budget_undefined:
  assumes "lg 1 = 0" "2 \<le> unat nParts"
  shows "EncodeDataInValues lg root [] 0 nParts = Inl Undefined"
proof -
  have "(2 :: u16) \<le> nParts" using assms(2) by (simp add: word_le_nat_alt)
  moreover have "NumberCompositions 0 nParts = Inr 1"
    using NumberCompositions_choose [of nParts 0] assms(2) unat_less_16 [of nParts] by simp
  ultimately show ?thesis
    using assms(1) by (simp add: EncodeDataInValues_def EmbeddableBitsInValues_def DataBitsToInt_def)
qed

theorem zero_budget_undefined_witness:
  "EncodeDataInValues floor_lg (\<lambda>A k. 0) [] 0 2 = Inl Undefined"
  by (rule zero_budget_undefined) (simp_all add: floor_lg_def IntToDataBits_def)

end
