(* ===== verification/DataCompression.thy ===== *)
theory DataCompression
  imports BmsTypes "HOL-Library.Multiset" "HOL-Library.Sublist"
begin

text \<open>
  \<open>src/src/lib/bms/DataCompression.cpp\<close>: Huffman coding. A \<open>std::map<char,int>\<close> is the list of its
  entries in the order of the keys, a \<open>boost::bimap\<close> the list of its entries. Among nodes of equal
  frequency \<open>std::priority_queue\<close> may return any; the choice is the parameter \<open>pick\<close>, an index into
  the nodes of the queue in the order in which they were pushed.
\<close>

section \<open>Characters and frequencies\<close>

definition EoF :: byte where
  "EoF = 0x03"

text \<open>The comparisons promote the signed character.\<close>

definition IsCharInvalid :: "byte \<Rightarrow> bool" where
  "IsCharInvalid symbol =
     (let c = sint symbol in
      if 0x0A = c then False
      else if 0x20 \<le> c \<and> c \<le> 0x2F then False
      else if 0x30 \<le> c \<and> c \<le> 0x39 then False
      else if 0x3A \<le> c \<and> c \<le> 0x40 then False
      else if 0x61 \<le> c \<and> c \<le> 0x7A then False
      else if 0x41 \<le> c \<and> c \<le> 0x5A then False
      else True)"

definition TransformCharDomain :: "data \<Rightarrow> data" where
  "TransformCharDomain text = filter (\<lambda>c. \<not> IsCharInvalid c) text"

type_synonym FreqMap = "(byte \<times> int) list"

fun freq_incr :: "byte \<Rightarrow> FreqMap \<Rightarrow> FreqMap" where
  "freq_incr c [] = [(c, 1)]"
| "freq_incr c ((d, n) # fm) =
     (if c = d then (d, n + 1) # fm
      else if sint c < sint d then (c, 1) # (d, n) # fm
      else (d, n) # freq_incr c fm)"

definition ComputeFrequencies :: "data \<Rightarrow> FreqMap" where
  "ComputeFrequencies Text = fold freq_incr Text []"

section \<open>The tree\<close>

datatype BaseNode =
    LeafNode byte int
  | InternalNode BaseNode BaseNode

fun frequency :: "BaseNode \<Rightarrow> int" where
  "frequency (LeafNode character freq) = freq"
| "frequency (InternalNode node1 node2) = frequency node1 + frequency node2"

text \<open>\<open>top\<close> and \<open>pop\<close> of the priority queue.\<close>

definition pop_node :: "(BaseNode list \<Rightarrow> nat) \<Rightarrow> BaseNode list \<Rightarrow> (BaseNode \<times> BaseNode list) result" where
  "pop_node pick q =
     (if pick q < length q then Inr (q ! pick q, take (pick q) q @ drop (Suc (pick q)) q)
      else Inl Undefined)"

lemma pop_node_length: "pop_node pick q = Inr (x, q') \<Longrightarrow> length q = Suc (length q')"
  by (auto simp: pop_node_def split: if_splits)

function BuildTree_loop :: "(BaseNode list \<Rightarrow> nat) \<Rightarrow> BaseNode list \<Rightarrow> BaseNode result" where
  "BuildTree_loop pick tree =
     (if length tree > 1 then
        rbind (pop_node pick tree) (\<lambda>(childLeft, tree1).
        rbind (pop_node pick tree1) (\<lambda>(childRight, tree2).
          BuildTree_loop pick (tree2 @ [InternalNode childLeft childRight])))
      else rbind (pop_node pick tree) (\<lambda>(root, _). Inr root))"
  by pat_completeness auto
termination
  by (relation "measure (\<lambda>(pick, tree). length tree)") (auto dest!: pop_node_length)

declare BuildTree_loop.simps [simp del]

definition BuildTree :: "(BaseNode list \<Rightarrow> nat) \<Rightarrow> FreqMap \<Rightarrow> BaseNode result" where
  "BuildTree pick Frequencies = BuildTree_loop pick (map (\<lambda>(c, n). LeafNode c n) Frequencies)"

section \<open>Codes\<close>

type_synonym HuffCode = databits
type_synonym HuffCodeMap = "(byte \<times> HuffCode) list"

text \<open>\<open>bimap::insert\<close> does nothing when either side is already there.\<close>

definition bimap_insert :: "byte \<times> HuffCode \<Rightarrow> HuffCodeMap \<Rightarrow> HuffCodeMap" where
  "bimap_insert e codes =
     (if fst e \<in> fst ` set codes \<or> snd e \<in> snd ` set codes then codes else codes @ [e])"

definition left_at :: "HuffCodeMap \<Rightarrow> byte \<Rightarrow> HuffCode result" where
  "left_at codes c = (case map_of codes c of None \<Rightarrow> Inl OutOfRange | Some code \<Rightarrow> Inr code)"

definition right_find :: "HuffCodeMap \<Rightarrow> HuffCode \<Rightarrow> byte option" where
  "right_find codes code = map_of (map (\<lambda>(c, u). (u, c)) codes) code"

fun GenerateCodes_node :: "BaseNode \<Rightarrow> HuffCode \<Rightarrow> HuffCodeMap \<Rightarrow> HuffCodeMap" where
  "GenerateCodes_node (LeafNode character freq) Prefix codes = bimap_insert (character, Prefix) codes"
| "GenerateCodes_node (InternalNode left right) Prefix codes =
     (let leftPrefix = Prefix @ [False];
          codes = GenerateCodes_node left leftPrefix codes;
          rightPrefix = Prefix @ [True]
      in GenerateCodes_node right rightPrefix codes)"

definition GenerateCodes :: "(BaseNode list \<Rightarrow> nat) \<Rightarrow> FreqMap \<Rightarrow> HuffCodeMap result" where
  "GenerateCodes pick Frequencies =
     rbind (BuildTree pick Frequencies) (\<lambda>root. Inr (GenerateCodes_node root [] []))"

section \<open>Compression\<close>

definition Compress :: "data \<Rightarrow> HuffCodeMap \<Rightarrow> databits result" where
  "Compress Data Codes =
     rbind (rfold (\<lambda>it compData. rbind (left_at Codes it) (\<lambda>u. Inr (compData @ u))) Data [])
       (\<lambda>compData. rbind (left_at Codes EoF) (\<lambda>u. Inr (compData @ u)))"

fun Decompress_loop :: "HuffCodeMap \<Rightarrow> databits \<Rightarrow> HuffCode \<Rightarrow> data \<Rightarrow> data" where
  "Decompress_loop Codes [] ch decompData = decompData"
| "Decompress_loop Codes (it # Bits) ch decompData =
     (let ch = ch @ [it] in
      case right_find Codes ch of
        Some tmp \<Rightarrow> if tmp = EoF then decompData else Decompress_loop Codes Bits [] (decompData @ [tmp])
      | None \<Rightarrow> Decompress_loop Codes Bits ch decompData)"

definition Decompress :: "databits \<Rightarrow> HuffCodeMap \<Rightarrow> data" where
  "Decompress Bits Codes = Decompress_loop Codes Bits [] []"

section \<open>Prefix codes\<close>

text \<open>
  A code book is a prefix code when no code is empty or begins another one. The contract is
  stated for books made from a parameter \<open>p\<close> (the frequencies and the choices of the queue, or a
  book read from a file); the clients are \<open>Compress\<close> and \<open>Decompress\<close>.
\<close>

definition is_prefix_code :: "HuffCodeMap \<Rightarrow> bool" where
  "is_prefix_code codes \<longleftrightarrow>
     distinct (map fst codes) \<and>
     (\<forall>(a, u) \<in> set codes. u \<noteq> [] \<and> (\<forall>(b, v) \<in> set codes. prefix u v \<longrightarrow> a = b))"

locale prefix_code =
  fixes book :: "'p \<Rightarrow> HuffCodeMap"
    and ok :: "'p \<Rightarrow> bool"
  assumes prefix_book: "ok p \<Longrightarrow> is_prefix_code (book p)"
begin

lemma left_at_book: "ok p \<Longrightarrow> left_at (book p) c = Inr u \<longleftrightarrow> (c, u) \<in> set (book p)"
proof -
  assume "ok p"
  then have "distinct (map fst (book p))" using prefix_book by (simp add: is_prefix_code_def)
  then have "(c, u) \<in> set (book p) \<longleftrightarrow> map_of (book p) c = Some u" by simp
  then show ?thesis by (simp only: left_at_def) (cases "map_of (book p) c", auto)
qed

lemma codes_differ:
  assumes "ok p" "(a, u) \<in> set (book p)" "(b, v) \<in> set (book p)" "prefix u v"
  shows "a = b \<and> u = v"
proof -
  have "is_prefix_code (book p)" using assms(1) by (rule prefix_book)
  then have d: "distinct (map fst (book p))"
    and pre: "\<forall>(a, u) \<in> set (book p). u \<noteq> [] \<and> (\<forall>(b, v) \<in> set (book p). prefix u v \<longrightarrow> a = b)"
    by (simp_all add: is_prefix_code_def)
  have "a = b" using bspec [OF pre assms(2)] assms(3,4) by auto
  with assms(2,3) d show ?thesis using eq_key_imp_eq_value by metis
qed

lemma right_find_book:
  assumes "ok p" "(c, u) \<in> set (book p)"
  shows "right_find (book p) u = Some c"
proof -
  have "(u, c) \<in> set (map (\<lambda>(c, u). (u, c)) (book p))" using assms(2) by force
  then obtain d where d: "map_of (map (\<lambda>(c, u). (u, c)) (book p)) u = Some d"
    by (metis not_None_eq weak_map_of_SomeI)
  then have "(u, d) \<in> set (map (\<lambda>(c, u). (u, c)) (book p))" by (rule map_of_SomeD)
  then have "(d, u) \<in> set (book p)" by auto
  with assms d codes_differ [of p d u c u] show ?thesis by (simp add: right_find_def)
qed

lemma right_find_shorter:
  assumes "ok p" "(c, u) \<in> set (book p)" "strict_prefix v u"
  shows "right_find (book p) v = None"
proof (rule ccontr)
  assume "right_find (book p) v \<noteq> None"
  then obtain d where "map_of (map (\<lambda>(c, u). (u, c)) (book p)) v = Some d"
    by (auto simp: right_find_def)
  then have "(v, d) \<in> set (map (\<lambda>(c, u). (u, c)) (book p))" by (rule map_of_SomeD)
  then have "(d, v) \<in> set (book p)" by auto
  with assms codes_differ [of p d v c u] show False by (simp add: strict_prefix_def)
qed

lemma decompress_code:
  assumes "ok p" "(c, w @ u) \<in> set (book p)" "u \<noteq> []"
  shows "Decompress_loop (book p) (u @ bits) w out =
    (if c = EoF then out else Decompress_loop (book p) bits [] (out @ [c]))"
  using assms(2,3)
proof (induction u arbitrary: w)
  case (Cons b u)
  show ?case
  proof (cases "u = []")
    case True
    with Cons.prems right_find_book [OF assms(1)] show ?thesis by (simp add: Let_def)
  next
    case False
    then have "strict_prefix (w @ [b]) (w @ b # u)" by (simp add: strict_prefix_def)
    with right_find_shorter [OF assms(1) Cons.prems(1)] Cons.IH [of "w @ [b]"] Cons.prems False
    show ?thesis by (simp add: Let_def)
  qed
qed simp

lemma compress_loop:
  assumes "ok p"
  shows "rfold (\<lambda>it compData. rbind (left_at (book p) it) (\<lambda>u. Inr (compData @ u))) dat acc = Inr bits \<Longrightarrow>
    EoF \<notin> set dat \<Longrightarrow> \<exists>body. bits = acc @ body \<and>
      (\<forall>rest out. Decompress_loop (book p) (body @ rest) [] out = Decompress_loop (book p) rest [] (out @ dat))"
proof (induction dat arbitrary: acc)
  case (Cons c dat)
  from Cons.prems obtain u where u: "left_at (book p) c = Inr u"
    and r: "rfold (\<lambda>it compData. rbind (left_at (book p) it) (\<lambda>u. Inr (compData @ u))) dat (acc @ u) = Inr bits"
    by (auto simp: result_simps)
  from Cons.IH [OF r] Cons.prems obtain body where body: "bits = (acc @ u) @ body"
    "\<And>rest out. Decompress_loop (book p) (body @ rest) [] out = Decompress_loop (book p) rest [] (out @ dat)"
    by auto
  have "(c, [] @ u) \<in> set (book p)" using u left_at_book [OF assms] by simp
  moreover from this have "u \<noteq> []" using prefix_book [OF assms] by (auto simp: is_prefix_code_def)
  ultimately have "Decompress_loop (book p) (u @ bs) [] out = Decompress_loop (book p) bs [] (out @ [c])" for bs out
    using decompress_code [OF assms, of c "[]" u] Cons.prems(2) by auto
  with body show ?case by (intro exI [of _ "u @ body"]) simp
qed simp

lemma decompress_compress:
  assumes "ok p" "EoF \<notin> set dat" "Compress dat (book p) = Inr bits"
  shows "Decompress (bits @ rest) (book p) = dat"
proof -
  from assms(3) obtain acc u where
    acc: "rfold (\<lambda>it compData. rbind (left_at (book p) it) (\<lambda>u. Inr (compData @ u))) dat [] = Inr acc"
    and u: "left_at (book p) EoF = Inr u" and bits: "bits = acc @ u"
    by (auto simp: Compress_def result_simps)
  from compress_loop [OF assms(1) acc assms(2)]
  have "Decompress_loop (book p) (acc @ bs) [] out = Decompress_loop (book p) bs [] (out @ dat)" for bs out
    by auto
  moreover have "(EoF, [] @ u) \<in> set (book p)" using u left_at_book [OF assms(1)] by simp
  moreover from this have "u \<noteq> []" using prefix_book [OF assms(1)] by (auto simp: is_prefix_code_def)
  ultimately show ?thesis
    using decompress_code [OF assms(1), of EoF "[]" u rest] by (simp add: Decompress_def bits)
qed

lemma compress_total:
  assumes "ok p" "set dat \<subseteq> fst ` set (book p)" "EoF \<in> fst ` set (book p)"
  shows "\<exists>bits. Compress dat (book p) = Inr bits"
proof -
  have at: "\<exists>u. left_at (book p) c = Inr u" if "c \<in> fst ` set (book p)" for c
    using that left_at_book [OF assms(1)] by force
  have "\<exists>bits. rfold (\<lambda>it compData. rbind (left_at (book p) it) (\<lambda>u. Inr (compData @ u))) dat acc = Inr bits" for acc
    using assms(2)
  proof (induction dat arbitrary: acc)
    case (Cons c dat)
    then have "c \<in> fst ` set (book p)" by simp
    from at [OF this] Cons show ?case by auto
  qed simp
  then show ?thesis using at [OF assms(3)] by (auto simp: Compress_def) (metis rbind_Inr)
qed

end

section \<open>The generated codes are a prefix code\<close>

text \<open>Codes of the leaves below a node, in the order of the traversal.\<close>

fun tree_codes :: "BaseNode \<Rightarrow> HuffCode \<Rightarrow> HuffCodeMap" where
  "tree_codes (LeafNode c n) pre = [(c, pre)]"
| "tree_codes (InternalNode l r) pre = tree_codes l (pre @ [False]) @ tree_codes r (pre @ [True])"

fun leaves :: "BaseNode \<Rightarrow> (byte \<times> int) multiset" where
  "leaves (LeafNode c n) = {#(c, n)#}"
| "leaves (InternalNode l r) = leaves l + leaves r"

lemma tree_codes_prefix: "(c, u) \<in> set (tree_codes t pre) \<Longrightarrow> prefix pre u"
  by (induction t arbitrary: pre) (force dest: append_prefixD)+

lemma fst_tree_codes: "mset (map fst (tree_codes t pre)) = image_mset fst (leaves t)"
  by (induction t arbitrary: pre) auto

lemma tree_codes_antichain:
  "(a, u) \<in> set (tree_codes t pre) \<Longrightarrow> (b, v) \<in> set (tree_codes t pre) \<Longrightarrow> prefix u v \<Longrightarrow>
   distinct (map fst (tree_codes t pre)) \<Longrightarrow> a = b"
proof (induction t arbitrary: pre)
  case (InternalNode l r)
  have no: False if "(a, u) \<in> set (tree_codes s (pre @ [x]))" "(b, v) \<in> set (tree_codes s' (pre @ [\<not> x]))" for s s' x
  proof -
    have "prefix (pre @ [x]) v" using tree_codes_prefix [OF that(1)] InternalNode.prems(3) by (rule prefix_order.trans)
    with tree_codes_prefix [OF that(2)] show False by (auto simp: prefix_def)
  qed
  show ?case using InternalNode no [of l False r] no [of r True l] by auto
qed auto

lemma tree_codes_distinct: "distinct (map snd (tree_codes t pre))"
proof (induction t arbitrary: pre)
  case (InternalNode l r)
  have "snd ` set (tree_codes l (pre @ [False])) \<inter> snd ` set (tree_codes r (pre @ [True])) = {}"
  proof (rule ccontr)
    assume "\<not> ?thesis"
    then obtain u c d where "(c, u) \<in> set (tree_codes l (pre @ [False]))" "(d, u) \<in> set (tree_codes r (pre @ [True]))"
      by force
    then have "prefix (pre @ [False]) u" "prefix (pre @ [True]) u" by (auto dest: tree_codes_prefix)
    then show False by (auto simp: prefix_def)
  qed
  with InternalNode show ?case by simp
qed simp

lemma GenerateCodes_node_codes:
  "distinct (map fst (codes @ tree_codes t pre)) \<Longrightarrow> distinct (map snd (codes @ tree_codes t pre)) \<Longrightarrow>
   GenerateCodes_node t pre codes = codes @ tree_codes t pre"
proof (induction t arbitrary: pre codes)
  case (LeafNode c n)
  then show ?case by (simp add: bimap_insert_def)
next
  case (InternalNode l r)
  have "GenerateCodes_node l (pre @ [False]) codes = codes @ tree_codes l (pre @ [False])"
    using InternalNode.prems by (intro InternalNode.IH(1)) auto
  moreover have "GenerateCodes_node r (pre @ [True]) (codes @ tree_codes l (pre @ [False]))
     = (codes @ tree_codes l (pre @ [False])) @ tree_codes r (pre @ [True])"
    using InternalNode.prems by (intro InternalNode.IH(2)) auto
  ultimately show ?case by (simp add: Let_def)
qed

text \<open>The queue returns some node of least frequency.\<close>

definition pick_ok :: "(BaseNode list \<Rightarrow> nat) \<Rightarrow> bool" where
  "pick_ok pick \<longleftrightarrow>
     (\<forall>q. q \<noteq> [] \<longrightarrow> pick q < length q \<and> (\<forall>n \<in> set q. frequency (q ! pick q) \<le> frequency n))"

lemma pop_node_ok:
  assumes "pick_ok pick" "q \<noteq> []"
  shows "\<exists>x q'. pop_node pick q = Inr (x, q') \<and> mset q = add_mset x (mset q') \<and> (\<forall>n \<in> set q'. frequency x \<le> frequency n)"
proof -
  have i: "pick q < length q" "\<forall>n \<in> set q. frequency (q ! pick q) \<le> frequency n"
    using assms by (auto simp: pick_ok_def)
  then have "mset q = add_mset (q ! pick q) (mset (take (pick q) q @ drop (Suc (pick q)) q))"
    by (subst id_take_nth_drop [OF i(1)]) (simp add: union_commute)
  with i show ?thesis by (auto simp: pop_node_def dest: in_set_takeD in_set_dropD)
qed

lemma BuildTree_loop_leaves:
  assumes "pick_ok pick"
  shows "q \<noteq> [] \<Longrightarrow> \<exists>t. BuildTree_loop pick q = Inr t \<and> leaves t = (\<Sum>n\<in>#mset q. leaves n) \<and>
     (1 < length q \<longrightarrow> (\<exists>l r. t = InternalNode l r))"
proof (induction "length q" arbitrary: q rule: less_induct)
  case less
  obtain x q1 where x: "pop_node pick q = Inr (x, q1)" "mset q = add_mset x (mset q1)"
    using pop_node_ok [OF assms less(2)] by blast
  show ?case
  proof (cases "1 < length q")
    case False
    with less(2) have "length q = 1" by (cases q) auto
    with x have "q1 = []" by (metis add_mset_eq_single length_Suc_conv length_0_conv mset.simps(1) mset_single_iff One_nat_def size_mset size_add_mset Suc_inject)
    then show ?thesis using x False by (subst BuildTree_loop.simps) simp
  next
    case True
    have l1: "length q = Suc (length q1)" using x(1) by (rule pop_node_length)
    with True have "q1 \<noteq> []" by auto
    then obtain y q2 where y: "pop_node pick q1 = Inr (y, q2)" "mset q1 = add_mset y (mset q2)"
      using pop_node_ok [OF assms] by blast
    have l2: "length q1 = Suc (length q2)" using y(1) by (rule pop_node_length)
    let ?q = "q2 @ [InternalNode x y]"
    obtain t where t: "BuildTree_loop pick ?q = Inr t" "leaves t = (\<Sum>n\<in>#mset ?q. leaves n)"
      "1 < length ?q \<longrightarrow> (\<exists>l r. t = InternalNode l r)"
      using less(1) [of ?q] l1 l2 by auto
    have "\<exists>l r. t = InternalNode l r"
    proof (cases "q2 = []")
      case True
      have "pick [InternalNode x y] < length [InternalNode x y]"
        using assms unfolding pick_ok_def by blast
      with True t(1) show ?thesis by (subst (asm) BuildTree_loop.simps) (auto simp: pop_node_def)
    qed (use t in auto)
    with t x y True show ?thesis by (subst BuildTree_loop.simps) (simp add: ac_simps)
  qed
qed

text \<open>Frequencies with distinct characters, as in a map, give a prefix code from two of them on.\<close>

definition freq_ok :: "(BaseNode list \<Rightarrow> nat) \<times> FreqMap \<Rightarrow> bool" where
  "freq_ok = (\<lambda>(pick, fm). pick_ok pick \<and> distinct (map fst fm) \<and> 2 \<le> length fm)"

lemma GenerateCodes_prefix_code:
  assumes "pick_ok pick" "distinct (map fst fm)" "2 \<le> length fm"
  shows "\<exists>codes. GenerateCodes pick fm = Inr codes \<and> is_prefix_code codes \<and> fst ` set codes = fst ` set fm"
proof -
  let ?q = "map (\<lambda>(c, n). LeafNode c n) fm"
  obtain t where t: "BuildTree_loop pick ?q = Inr t" "leaves t = (\<Sum>n\<in>#mset ?q. leaves n)"
    "\<exists>l r. t = InternalNode l r"
    using BuildTree_loop_leaves [OF assms(1), of ?q] assms(3) by (cases fm) auto
  have "(\<Sum>n\<in>#mset (map (\<lambda>(c, n). LeafNode c n) fm). leaves n) = mset fm" for fm
    by (induction fm) auto
  with t(2) have "leaves t = mset fm" by (simp only:)
  then have m: "mset (map fst (tree_codes t pre)) = mset (map fst fm)" for pre
    using fst_tree_codes [of t pre] by simp
  then have d: "distinct (map fst (tree_codes t []))" using assms(2) by (metis mset_eq_imp_distinct_iff)
  have s: "fst ` set (tree_codes t []) = fst ` set fm" using m [of "[]"] by (metis list.set_map mset_eq_setD)
  have g: "GenerateCodes_node t [] [] = tree_codes t []"
    using GenerateCodes_node_codes [of "[]" t "[]"] d tree_codes_distinct [of t "[]"] by simp
  have "u \<noteq> []" if "(c, u) \<in> set (tree_codes t [])" for c u
    using t(3) that tree_codes_prefix by fastforce
  then have "is_prefix_code (tree_codes t [])"
    using d tree_codes_antichain [of _ _ t "[]"] by (auto simp: is_prefix_code_def)
  with s g t(1) show ?thesis by (auto simp: GenerateCodes_def BuildTree_def)
qed

text \<open>A book that \<open>DeserializeHuffmanCode\<close> has read, and the generated one.\<close>

interpretation loaded: prefix_code "\<lambda>codes. codes" is_prefix_code
  by unfold_locales

definition generated_book :: "(BaseNode list \<Rightarrow> nat) \<times> FreqMap \<Rightarrow> HuffCodeMap" where
  "generated_book = (\<lambda>(pick, fm). case GenerateCodes pick fm of Inl _ \<Rightarrow> [] | Inr codes \<Rightarrow> codes)"

interpretation generated: prefix_code generated_book freq_ok
proof
  fix p assume "freq_ok p"
  then obtain pick fm where p: "p = (pick, fm)" and "pick_ok pick" "distinct (map fst fm)" "2 \<le> length fm"
    by (cases p) (auto simp: freq_ok_def)
  with GenerateCodes_prefix_code [of pick fm] show "is_prefix_code (generated_book p)"
    by (auto simp: generated_book_def)
qed

lemma freq_incr_fst: "fst ` set (freq_incr c fm) = insert c (fst ` set fm)"
  by (induction c fm rule: freq_incr.induct) auto

lemma freq_incr_sorted:
  "sorted_wrt (\<lambda>a b. sint (fst a) < sint (fst b)) fm \<Longrightarrow> sorted_wrt (\<lambda>a b. sint (fst a) < sint (fst b)) (freq_incr c fm)"
proof (induction c fm rule: freq_incr.induct)
  case (2 c d n fm)
  show ?case
  proof (cases "c = d \<or> sint c < sint d")
    case False
    then have "sint d < sint c" by (metis linorder_neqE signed_word_eqI)
    moreover have "\<forall>x \<in> set (freq_incr c fm). fst x = c \<or> fst x \<in> fst ` set fm"
      using freq_incr_fst [of c fm] by blast
    ultimately have "\<forall>x \<in> set (freq_incr c fm). sint d < sint (fst x)"
      using 2(2) by fastforce
    with 2 False show ?thesis by simp
  qed (use 2 in auto)
qed simp

lemma freq_incr_count:
  "sorted_wrt (\<lambda>a b. sint (fst a) < sint (fst b)) fm \<Longrightarrow>
   map_of (freq_incr c fm) d =
     (if d = c then Some (case map_of fm c of None \<Rightarrow> 1 | Some n \<Rightarrow> n + 1) else map_of fm d)"
proof (induction c fm rule: freq_incr.induct)
  case (2 c e n fm)
  have "map_of fm c = None" if "sint c < sint e"
    using that 2(2) by (force simp: map_of_eq_None_iff)
  with 2 show ?case by auto
qed simp

lemma ComputeFrequencies_spec:
  "sorted_wrt (\<lambda>a b. sint (fst a) < sint (fst b)) (ComputeFrequencies str)"
  "fst ` set (ComputeFrequencies str) = set str"
proof -
  have "sorted_wrt (\<lambda>a b. sint (fst a) < sint (fst b)) fm \<Longrightarrow> sorted_wrt (\<lambda>a b. sint (fst a) < sint (fst b)) (fold freq_incr str fm)" for fm
    by (induction str arbitrary: fm) (auto simp: freq_incr_sorted)
  moreover have "fst ` set (fold freq_incr str fm) = set str \<union> fst ` set fm" for fm
    by (induction str arbitrary: fm) (auto simp: freq_incr_fst)
  ultimately show "sorted_wrt (\<lambda>a b. sint (fst a) < sint (fst b)) (ComputeFrequencies str)"
  "fst ` set (ComputeFrequencies str) = set str" by (simp_all add: ComputeFrequencies_def)
qed

lemma TransformCharDomain_EoF: "EoF \<notin> set (TransformCharDomain str)"
  by (simp add: TransformCharDomain_def IsCharInvalid_def EoF_def Let_def)

section \<open>Properties\<close>


text \<open>C8: with the code generated from the frequencies of two characters or more, whatever nodes of equal
  frequency the queue prefers, \<open>Decompress\<close> gives back what \<open>Compress\<close> was given, even when more bits
  follow, provided the data holds no end marker.\<close>

theorem huffman_roundtrip:
  assumes "pick_ok pick" "distinct (map fst fm)" "2 \<le> length fm"
    and "GenerateCodes pick fm = Inr codes" "EoF \<notin> set dat" "Compress dat codes = Inr bits"
  shows "Decompress (bits @ rest) codes = dat"
  using generated.decompress_compress [of "(pick, fm)" dat bits rest] assms
  by (simp add: freq_ok_def generated_book_def)

definition first_min :: "BaseNode list \<Rightarrow> nat" where
  "first_min q = length (takeWhile (\<lambda>n. \<not> list_all (\<lambda>m. frequency n \<le> frequency m) q) q)"

lemma first_min_ok: "pick_ok first_min"
  unfolding pick_ok_def
proof (intro allI impI)
  fix q :: "BaseNode list" assume "q \<noteq> []"
  let ?P = "\<lambda>n. \<not> list_all (\<lambda>m. frequency n \<le> frequency m) q"
  have "Min (frequency ` set q) \<in> frequency ` set q" using \<open>q \<noteq> []\<close> by (intro Min_in) auto
  then obtain n where n: "n \<in> set q" "frequency n = Min (frequency ` set q)" by auto
  then have "\<not> ?P n" by (simp add: list_all_iff)
  with n(1) have "takeWhile ?P q \<noteq> q" unfolding takeWhile_eq_all_conv by blast
  then have "length (takeWhile ?P q) < length q"
    by (metis length_takeWhile_le le_neq_implies_less takeWhile_eq_take take_all_iff order_refl)
  moreover from this have "\<not> ?P (q ! length (takeWhile ?P q))" by (rule nth_length_takeWhile)
  ultimately show "first_min q < length q \<and> (\<forall>n \<in> set q. frequency (q ! first_min q) \<le> frequency n)"
    by (simp add: first_min_def list_all_iff)
qed

theorem huffman_roundtrip_witness:
  "\<exists>codes bits. GenerateCodes first_min (ComputeFrequencies [97, 98, 97, 3]) = Inr codes \<and>
     Compress [97, 98, 97] codes = Inr bits \<and> Decompress (bits @ [False]) codes = [97, 98, 97]"
proof -
  have "GenerateCodes first_min (ComputeFrequencies [97, 98, 97, 3]) =
      Inr [(97, [False]), (3, [True, False]), (98, [True, True])]"
    and "ComputeFrequencies [97, 98, 97, 3] = [(3, 1), (97, 2), (98, 1)]"
    and "Compress [97, 98, 97] [(97, [False]), (3, [True, False]), (98, [True, True])] =
      Inr [False, True, True, False, True, False]"
    by code_simp+
  moreover from this have "Decompress ([False, True, True, False, True, False] @ [False])
      [(97, [False]), (3, [True, False]), (98, [True, True])] = [97, 98, 97]"
    by (intro huffman_roundtrip [OF first_min_ok, of "[(3, 1), (97, 2), (98, 1)]"]) (simp_all add: EoF_def)
  ultimately show ?thesis by auto
qed

text \<open>The frequencies of a text are the entries of a map in the order of its signed characters, one
  for each character of the text, with the number of its occurrences.\<close>

theorem frequencies_count:
  "sorted_wrt (\<lambda>a b. sint (fst a) < sint (fst b)) (ComputeFrequencies str) \<and>
   fst ` set (ComputeFrequencies str) = set str \<and>
   map_of (ComputeFrequencies str) c = (if c \<in> set str then Some (int (count_list str c)) else None)"
proof -
  let ?S = "sorted_wrt (\<lambda>a b. sint (fst a) < sint (fst b))"
  have "map_of (fold freq_incr str fm) c =
      (if c \<in> set str then Some (int (count_list str c) + (case map_of fm c of None \<Rightarrow> 0 | Some n \<Rightarrow> n))
       else map_of fm c)" if "?S fm" for fm
    using that
    by (induction str arbitrary: fm)
      (auto simp: freq_incr_count freq_incr_sorted count_list_0_iff split: option.splits)
  from this [of "[]"] show ?thesis
    using ComputeFrequencies_spec [of str] by (simp add: ComputeFrequencies_def)
qed

text \<open>The code of an alphabet of one character is empty, and \<open>Decompress\<close> then finds nothing: the
  data is lost.\<close>

theorem single_character_lost:
  assumes "pick_ok pick"
  shows "GenerateCodes pick [(c, n)] = Inr [(c, [])] \<and> Decompress bits [(c, [])] = []"
proof -
  have "pick [LeafNode c n] < length [LeafNode c n]" using assms unfolding pick_ok_def by blast
  then have "GenerateCodes pick [(c, n)] = Inr [(c, [])]"
    by (simp add: GenerateCodes_def BuildTree_def BuildTree_loop.simps pop_node_def bimap_insert_def)
  moreover have "Decompress_loop [(c, [])] bits ch [] = []" for ch
    by (induction bits arbitrary: ch) (auto simp: right_find_def Let_def)
  ultimately show ?thesis by (simp add: Decompress_def)
qed

theorem single_character_lost_witness:
  "GenerateCodes first_min [(97, 5)] = Inr [(97, [])] \<and> Decompress [True, False] [(97, [])] = []"
  using single_character_lost [OF first_min_ok] .

end
