(* ===== verification/Utilities.thy ===== *)
theory Utilities
  imports Base58 Keystore DataInterface DataCompression "HOL-Library.Log_Nat" "HOL-Library.List_Lexorder"
begin

text \<open>
  \<open>src/src/lib/bms/Utilities.cpp\<close> and the maps of \<open>Serialization.cpp\<close>: the global state of the
  program (configuration, key pairs, key store, Huffman code), how it is loaded and unloaded, the fee
  of a transaction, and transactions as hex text. The archive format of Boost and the parser of
  configuration files are not part of the repository; a file that holds an archived map is that map.
  Random bits and bytes are lists of draws.
\<close>

section \<open>Floating point\<close>

text \<open>
  The double nearest to a natural number, ties to even: 53 bits are kept. A quotient of two naturals
  below \<open>2 ^ 31\<close> that is rounded to a double lies above an integer only if the quotient does, so
  \<open>ceil\<close> of it is the integer ceiling.
\<close>

definition round_double :: "nat \<Rightarrow> nat" where
  "round_double n =
     (let k = floorlog 2 n - 53;
          q = n div 2 ^ k; r = n mod 2 ^ k
      in (if 2 * r > 2 ^ k \<or> (2 * r = 2 ^ k \<and> odd q) then q + 1 else q) * 2 ^ k)"

definition ceil_div :: "nat \<Rightarrow> nat \<Rightarrow> nat" where
  "ceil_div n d = (n + d - 1) div d"

text \<open>The conversion of a double to an unsigned 64-bit integer, undefined out of range.\<close>

definition u64_of_double :: "nat \<Rightarrow> u64 result" where
  "u64_of_double n = (if n < 2 ^ 64 then Inr (of_nat n) else Inl Undefined)"

section \<open>The global state\<close>

type_synonym ConfigMap = "(string, string) mapping"
type_synonym KeypairMap = "(databits, CKey) mapping"

record bms =
  b_Config :: ConfigMap
  b_KeyMap :: KeypairMap
  b_Store :: CBasicKeyStore
  b_HuffCode :: HuffCodeMap
  b_Cache :: CSignatureCache
  b_draws :: "bool list"

text \<open>\<open>at\<close> throws for a missing key.\<close>

definition map_at :: "('k, 'v) mapping \<Rightarrow> 'k \<Rightarrow> 'v result" where
  "map_at m k = (case Mapping.lookup m k of None \<Rightarrow> Inl OutOfRange | Some v \<Rightarrow> Inr v)"

lemma map_at_eq_Inr [result_simps]: "map_at m k = Inr v \<longleftrightarrow> Mapping.lookup m k = Some v"
  by (simp add: map_at_def split: option.splits)

definition IsConfigFileLoaded :: "bms \<Rightarrow> bool" where
  "IsConfigFileLoaded g \<longleftrightarrow> \<not> Mapping.is_empty (b_Config g)"

definition IsKeypairMapLoaded :: "bms \<Rightarrow> bool" where
  "IsKeypairMapLoaded g \<longleftrightarrow> \<not> Mapping.is_empty (b_KeyMap g)"

definition IsHuffmanCodeLoaded :: "bms \<Rightarrow> bool" where
  "IsHuffmanCodeLoaded g \<longleftrightarrow> b_HuffCode g \<noteq> []"

definition IsKeystoreLoaded :: "bms \<Rightarrow> bool" where
  "IsKeystoreLoaded g \<longleftrightarrow> \<not> ks_IsEmpty (b_Store g)"

definition UnloadConfigFile :: "bms \<Rightarrow> bms" where
  "UnloadConfigFile g = g\<lparr>b_Config := Mapping.empty\<rparr>"

definition UnloadHuffmanCode :: "bms \<Rightarrow> bms" where
  "UnloadHuffmanCode g = g\<lparr>b_HuffCode := []\<rparr>"

definition UnloadKeypairMap :: "bms \<Rightarrow> bms" where
  "UnloadKeypairMap g = g\<lparr>b_KeyMap := Mapping.empty\<rparr>"

definition UnloadKeystore :: "bms \<Rightarrow> bms" where
  "UnloadKeystore g = g\<lparr>b_Store := ks_Clear (b_Store g)\<rparr>"

section \<open>Random values and key pairs\<close>

definition GenerateRandomHexString :: "nat \<Rightarrow> nat list \<Rightarrow> string result" where
  "GenerateRandomHexString nChars draws =
     (if length draws < nChars then Inl NoMoreInput
      else Inr (map (\<lambda>d. ''0123456789ABCDEF'' ! d) (take nChars draws)))"

lemma MakeNewKey_shorter: "MakeNewKey draws c = Inr (k, draws') \<Longrightarrow> length draws' < length draws"
  by (induction draws c rule: MakeNewKey.induct) (fastforce split: if_splits)+

function GenerateKeypairMap_loop :: "openssl \<Rightarrow> nat \<Rightarrow> data list \<Rightarrow> KeypairMap \<Rightarrow> KeypairMap result" where
  "GenerateKeypairMap_loop ssl nBits draws keyMap =
     (if Mapping.size keyMap < 2 ^ nBits then
        rbind (MakeNewKey draws True) (\<lambda>(val, draws').
        rbind (key_GetPubKey ssl val) (\<lambda>pubkey.
          let buf = DataToBits (pk_bytes pubkey)
          in if length buf < nBits then Inl Undefined
             else let key = drop (length buf - nBits) buf
                  in GenerateKeypairMap_loop ssl nBits draws' (Mapping.update key val keyMap)))
      else Inr keyMap)"
  by pat_completeness auto
termination
  by (relation "measure (\<lambda>(ssl, nBits, draws, keyMap). length draws)") (auto dest: MakeNewKey_shorter)

declare GenerateKeypairMap_loop.simps [simp del]

definition GenerateKeypairMap :: "openssl \<Rightarrow> nat \<Rightarrow> data list \<Rightarrow> KeypairMap result" where
  "GenerateKeypairMap ssl nBits draws = GenerateKeypairMap_loop ssl nBits draws Mapping.empty"

text \<open>An element of the archive: the flag of compression before the secret.\<close>

definition SerializeKeypairMap :: "KeypairMap \<Rightarrow> (databits, data) mapping" where
  "SerializeKeypairMap Keymap =
     Mapping.map_values (\<lambda>_ k. (if k_fCompressed k then 1 else 0) # (if k_fValid k then k_vch k else [])) Keymap"

definition empty_key :: CKey where
  "empty_key = \<lparr>k_fValid = False, k_fCompressed = False, k_vch = []\<rparr>"

definition DeserializeKeypairMap :: "(databits, data) mapping \<Rightarrow> KeypairMap result" where
  "DeserializeKeypairMap tmpMap =
     (if \<not> Mapping.is_empty (Mapping.filter (\<lambda>_ element. element = []) tmpMap) then Inl Undefined
      else Inr (Mapping.map_values (\<lambda>_ element. key_Set (tl element) (hd element \<noteq> 0) empty_key) tmpMap))"

section \<open>Loading\<close>

text \<open>The argument of each loader is what the file holds; \<open>None\<close> for a key map that does not exist.\<close>

definition LoadConfigFile :: "ConfigMap \<Rightarrow> bms \<Rightarrow> bms" where
  "LoadConfigFile file g = (if IsConfigFileLoaded g then g else g\<lparr>b_Config := file\<rparr>)"

definition LoadHuffmanCode :: "HuffCodeMap \<Rightarrow> bms \<Rightarrow> bms" where
  "LoadHuffmanCode file g = (if IsHuffmanCodeLoaded g then g else g\<lparr>b_HuffCode := file\<rparr>)"

definition LoadKeypairMap ::
  "openssl \<Rightarrow> data list \<Rightarrow> (databits, data) mapping option \<Rightarrow> bms \<Rightarrow> ((databits, data) mapping option \<times> bms) result" where
  "LoadKeypairMap ssl draws file g =
     (if \<not> IsConfigFileLoaded g then Inr (file, g)
      else if IsKeypairMapLoaded g then Inr (file, g)
      else case file of
             None \<Rightarrow>
               rbind (map_at (b_Config g) ''Keymap.SuffixBits'') (\<lambda>s.
               rbind (stoi s) (\<lambda>n.
               rbind (GenerateKeypairMap ssl (unat (of_int n :: u32)) draws) (\<lambda>m.
                 Inr (Some (SerializeKeypairMap m), g\<lparr>b_KeyMap := m\<rparr>))))
           | Some f \<Rightarrow> rbind (DeserializeKeypairMap f) (\<lambda>m. Inr (file, g\<lparr>b_KeyMap := m\<rparr>)))"

definition LoadKeystore :: "openssl \<Rightarrow> bms \<Rightarrow> bms result" where
  "LoadKeystore ssl g =
     (if \<not> IsKeypairMapLoaded g then Inr g
      else if IsKeystoreLoaded g then Inr g
      else rbind (rfold (\<lambda>k ks. case Mapping.lookup (b_KeyMap g) k of
                                   None \<Rightarrow> Inr ks
                                 | Some key \<Rightarrow> AddKey ssl key ks)
                   (Mapping.ordered_keys (b_KeyMap g)) (b_Store g))
             (\<lambda>ks. Inr (g\<lparr>b_Store := ks\<rparr>)))"

section \<open>The state of the chain in the configuration\<close>

text \<open>\<open>std::string::find\<close>, which answers the largest size when the text does not occur, and \<open>replace\<close>.\<close>

fun find_str :: "string \<Rightarrow> string \<Rightarrow> nat option" where
  "find_str [] pat = (if pat = [] then Some 0 else None)"
| "find_str (c # s) pat =
     (if take (length pat) (c # s) = pat then Some 0 else map_option Suc (find_str s pat))"

definition str_find :: "string \<Rightarrow> string \<Rightarrow> u64" where
  "str_find s pat = (case find_str s pat of None \<Rightarrow> - 1 | Some i \<Rightarrow> of_nat i)"

definition str_replace :: "string \<Rightarrow> u64 \<Rightarrow> nat \<Rightarrow> string \<Rightarrow> string result" where
  "str_replace s pos n t =
     (if unat pos > length s then Inl OutOfRange else Inr (take (unat pos) s @ t @ drop (unat pos + n) s))"

definition SerializeState :: "ConfigMap \<Rightarrow> string \<Rightarrow> string result" where
  "SerializeState Config str =
     rbind (map_at Config ''State.FirstTx'') (\<lambda>FirstTx.
     rbind (map_at Config ''State.LastTx'') (\<lambda>LastTx.
     rbind (str_replace str (str_find str ''State.FirstTx'' + 14) 64 FirstTx) (\<lambda>str.
       str_replace str (str_find str ''State.LastTx'' + 13) 64 LastTx)))"

definition UpdateChainstate :: "base_uint \<Rightarrow> base_uint \<Rightarrow> string \<Rightarrow> bms \<Rightarrow> (string \<times> bms) result" where
  "UpdateChainstate FirstTx LastTx file g =
     (if \<not> IsConfigFileLoaded g then Inr (file, g)
      else rbind (map_at (b_Config g) ''State.FirstTx'') (\<lambda>first.
           let Config = (if first = replicate 64 CHR ''0''
                         then Mapping.update ''State.FirstTx'' (GetHex FirstTx) (b_Config g) else b_Config g)
           in rbind (map_at Config ''State.LastTx'') (\<lambda>_.
              let Config = Mapping.update ''State.LastTx'' (GetHex LastTx) Config
              in rbind (SerializeState Config file) (\<lambda>file. Inr (file, g\<lparr>b_Config := Config\<rparr>)))))"

text \<open>The first value of a key in the file counts.\<close>

definition DeserializeConfigMap :: "(string \<times> string) list \<Rightarrow> ConfigMap" where
  "DeserializeConfigMap entries =
     fold (\<lambda>(key, v) config. if Mapping.lookup config key = None then Mapping.update key v config else config)
       entries Mapping.empty"

section \<open>Fees\<close>

definition TransactionFee :: "CTransaction \<Rightarrow> bms \<Rightarrow> u64 result" where
  "TransactionFee Tx g =
     rbind (map_at (b_Config g) ''TxFeeRate'') (\<lambda>s.
     rbind (stoul s) (\<lambda>FeeRate.
       let Size = tx_GetSerializeSize Tx
       in u64_of_double (round_double (round_double (unat FeeRate) * ceil_div (unat Size) 1000))))"

definition ChainFee :: "CTransaction list \<Rightarrow> bms \<Rightarrow> u64 result" where
  "ChainFee Chain g = rfold (\<lambda>tx nFee. rbind (TransactionFee tx g) (\<lambda>f. Inr (nFee + f))) Chain 0"

section \<open>Transactions as hex text\<close>

definition TransactionToHexString :: "CTransaction \<Rightarrow> string" where
  "TransactionToHexString Tx = HexStr (tx_Serialize Tx) False"

definition HexStringToTransaction :: "string \<Rightarrow> CTransaction result" where
  "HexStringToTransaction HexString =
     rbind (tx_Unserialize (ParseHex HexString)) (\<lambda>(tx, rest). Inr tx)"

end
