(* ===== verification/Channel.thy ===== *)
theory Channel
  imports Utilities Signing
begin

text \<open>
  \<open>src/src/lib/bms/BlockchainInterface.cpp\<close>: data is packed into a chain of transactions and
  unpacked from it. A vector or transaction that a C++ function changes in place is returned. What
  does not change while the program runs - OpenSSL, the network, the floating-point logarithm and
  root of the multiprecision library - is the record \<open>chan_env\<close>; the global variables are \<open>bms\<close>.
\<close>

record chan_env =
  ce_sig :: sig_env
  ce_params :: CChainParams
  ce_lg :: "bigint \<Rightarrow> u32"
  ce_root :: "bigint \<Rightarrow> u16 \<Rightarrow> u64"

abbreviation ce_ssl :: "chan_env \<Rightarrow> openssl" where
  "ce_ssl e \<equiv> se_ssl (ce_sig e)"

type_synonym TransactionChain = "CTransaction list"

record Parameters =
  p_nScriptHash :: nat
  p_nNulldata :: nat
  p_nFees :: u64

section \<open>Sequence numbers\<close>

definition PackDataIntoSeqNr :: "databits \<Rightarrow> CTxIn \<Rightarrow> (databits \<times> CTxIn) result" where
  "PackDataIntoSeqNr bits txIn =
     (let nBits = min 32 (int_of_size (length bits));
          bits = PadBits bits (of_int (32 - nBits))
      in rbind (SliceBits bits 32) (\<lambda>(slice, bits).
         rbind (EncodeDataInSequenceNr slice) (\<lambda>n. Inr (bits, txIn\<lparr>ti_nSequence := n\<rparr>))))"

definition UnpackDataFromSeqNr :: "CTxIn \<Rightarrow> databits" where
  "UnpackDataFromSeqNr txIn = DecodeDataInSequenceNr (ti_nSequence txIn)"

section \<open>Script hashes\<close>

definition nSuffixBits :: "bms \<Rightarrow> int result" where
  "nSuffixBits g = rbind (map_at (b_Config g) ''Keymap.SuffixBits'') stoi"

text \<open>The keys after the first one; the number of rounds is fixed before the loop.\<close>

fun PackP2SH_keys :: "openssl \<Rightarrow> nat \<Rightarrow> databits \<Rightarrow> bool list \<Rightarrow> (CPubKey list \<times> databits \<times> bool list) result" where
  "PackP2SH_keys ssl 0 bits draws = Inr ([], bits, draws)"
| "PackP2SH_keys ssl (Suc i) bits draws =
     (let nBits = min 250 (int_of_size (length bits));
          bits = PadBits bits (of_int (250 - nBits))
      in rbind (SliceBits bits 250) (\<lambda>(slice, bits).
         rbind (EncodeDataInPubkey ssl slice 5 draws) (\<lambda>(pk, draws).
         rbind (PackP2SH_keys ssl i bits draws) (\<lambda>(pubkeys, bits, draws).
           Inr (pk # pubkeys, bits, draws)))))"

definition PackDataIntoP2SH ::
  "chan_env \<Rightarrow> databits \<Rightarrow> CTxOut \<Rightarrow> CTransaction \<Rightarrow> nat \<Rightarrow> bms \<Rightarrow> (databits \<times> CTxOut \<times> CTransaction \<times> bms) result" where
  "PackDataIntoP2SH e bits txOut tx nInput g =
     rbind (nSuffixBits g) (\<lambda>nSuffix.
     let nBits = min nSuffix (int_of_size (length bits));
         bits = PadBits bits (of_int (nSuffix - nBits))
     in rbind (SliceBits bits (of_int nSuffix)) (\<lambda>(slice, bits).
        rbind (map_at (b_KeyMap g) slice) (\<lambda>key.
        rbind (key_GetPubKey (ce_ssl e) key) (\<lambda>pubkey.
        let nExtraKeys = min 11 (ceil_div (length bits) 250)
        in rbind (PackP2SH_keys (ce_ssl e) nExtraKeys bits (b_draws g)) (\<lambda>(pubkeys, bits, draws).
           rbind (SetMultisig 1 (pubkey # pubkeys)) (\<lambda>multisigAddress.
           let store = AddCScript (ce_ssl e) multisigAddress (b_Store g);
               addr = addr_of_dest (ce_params e) (CScriptID (script_GetID (ce_ssl e) multisigAddress));
               scriptPubKey = SetDestination (addr_Get (ce_params e) addr)
           in case SignSignature (ce_sig e) store scriptPubKey tx (of_nat nInput) 1 (b_Cache g) of
                (Inl err, c) \<Rightarrow> Inl err
              | (Inr (ok, tx), c) \<Rightarrow>
                  if \<not> ok then Inl (Thrown ''[PackDataIntoP2SH] Temporary signature generation failed'')
                  else Inr (bits, txOut\<lparr>to_scriptPubKey := scriptPubKey\<rparr>, tx,
                         g\<lparr>b_Store := store, b_Cache := c, b_draws := draws\<rparr>)))))))"

text \<open>The value pushed last, and the values of 33 bytes; a script that cannot be read ends the loop.\<close>

function last_push :: "data \<Rightarrow> data \<Rightarrow> data" where
  "last_push pc scriptData =
     (if pc = [] then scriptData
      else case GetOp2 pc of
             (False, opcode, vch, pc') \<Rightarrow> vch
           | (True, opcode, vch, pc') \<Rightarrow> last_push pc' vch)"
  by pat_completeness auto
termination by (relation "measure (\<lambda>(pc, v). length pc)") (auto dest: GetOp2_shorter')

function pushed_keys :: "data \<Rightarrow> CPubKey list \<Rightarrow> CPubKey list" where
  "pushed_keys pc pubkeys =
     (if pc = [] then pubkeys
      else case GetOp2 pc of
             (False, opcode, vch, pc') \<Rightarrow> pubkeys
           | (True, opcode, vch, pc') \<Rightarrow>
               pushed_keys pc' (if length vch = 33 then pubkeys @ [mk_pubkey vch] else pubkeys))"
  by pat_completeness auto
termination by (relation "measure (\<lambda>(pc, v). length pc)") (auto dest: GetOp2_shorter')

declare last_push.simps [simp del] pushed_keys.simps [simp del]

definition UnpackDataFromP2SH :: "CTxIn \<Rightarrow> bms \<Rightarrow> databits result" where
  "UnpackDataFromP2SH txIn g =
     (let scriptPubkey = last_push (ti_scriptSig txIn) [];
          pubkeys = pushed_keys scriptPubkey []
      in rbind (nSuffixBits g) (\<lambda>nSuffix.
         rbind (vec_at pubkeys 0) (\<lambda>pk.
           let buf = DataToBits (pk_bytes pk)
           in if nSuffix < 0 \<or> nat nSuffix > length buf then Inl Undefined
              else let slice = drop (length buf - nat nSuffix) buf
                   in rbind (rmap (\<lambda>pk. DecodeDataInPubkey pk 5) (tl pubkeys)) (\<lambda>slices.
                        Inr (slice @ concat slices)))))"

section \<open>Null data\<close>

definition PackDataIntoNulldata :: "databits \<Rightarrow> CTxOut \<Rightarrow> (databits \<times> CTxOut) result" where
  "PackDataIntoNulldata bits txOut =
     (let nBits = min 320 (int_of_size (length bits));
          bits = PadBits bits (of_int (320 - nBits))
      in rbind (SliceBits bits 320) (\<lambda>(slice, bits).
         rbind (BitsToData slice) (\<lambda>dat.
           Inr (bits, txOut\<lparr>to_scriptPubKey := push_data (push_opcode [] OP_RETURN) dat, to_nValue := 0\<rparr>))))"

definition UnpackDataFromNulldata :: "CTxOut \<Rightarrow> databits result" where
  "UnpackDataFromNulldata txOut =
     (let dat = to_scriptPubKey txOut
      in if length dat < 2 then Inl Undefined else Inr (DataToBits (drop 2 dat)))"

section \<open>The split of the budget and the order of the claims\<close>

definition PackDataIntoBudgetSplit ::
  "chan_env \<Rightarrow> databits \<Rightarrow> CTxOut list \<Rightarrow> u64 \<Rightarrow> u64 \<Rightarrow> (databits \<times> CTxOut list) result" where
  "PackDataIntoBudgetSplit e bits txOuts budget lbound =
     (let nOutputs = of_nat (length txOuts) :: u32;
          rest = budget - ucast nOutputs * lbound
      in rbind (EmbeddableBitsInValues (ce_lg e) rest (ucast nOutputs)) (\<lambda>MaxBits.
         let nBits = min MaxBits (of_nat (length bits))
         in rbind (rassert (budget \<ge> ucast nOutputs * lbound)) (\<lambda>_.
            rbind (SliceBits bits nBits) (\<lambda>(slice, bits).
            let slice = PadBits slice (MaxBits - nBits)
            in rbind (EncodeDataInValues (ce_lg e) (ce_root e) slice rest (ucast nOutputs)) (\<lambda>values.
               rbind (rmap (\<lambda>i. rbind (vec_at values i) (\<lambda>v. Inr ((txOuts ! i)\<lparr>to_nValue := v + lbound\<rparr>)))
                        [0..<length txOuts]) (\<lambda>txOuts.
                 Inr (bits, txOuts)))))))"

definition UnpackDataFromBudgetSplit :: "chan_env \<Rightarrow> CTxOut list \<Rightarrow> u64 \<Rightarrow> databits result" where
  "UnpackDataFromBudgetSplit e txOuts lbound =
     (let values = map (\<lambda>txOut. to_nValue txOut - lbound) txOuts
      in DecodeDataInValues (ce_lg e) values)"

definition set_n :: "u32 \<Rightarrow> CTxIn \<Rightarrow> CTxIn" where
  "set_n n txIn = txIn\<lparr>ti_prevout := (ti_prevout txIn)\<lparr>op_n := n\<rparr>\<rparr>"

definition PackDataIntoBudgetClaim :: "chan_env \<Rightarrow> databits \<Rightarrow> CTxIn list \<Rightarrow> (databits \<times> CTxIn list) result" where
  "PackDataIntoBudgetClaim e bits txInputs =
     (let nInputs = of_nat (length txInputs) :: u32;
          MaxBits = EmbeddableBitsInPermutation (ce_lg e) (ucast nInputs);
          nBits = min MaxBits (of_nat (length bits))
      in rbind (SliceBits bits nBits) (\<lambda>(slice, bits).
         let slice = PadBits slice (MaxBits - nBits)
         in rbind (EncodeDataInPermutation (ce_lg e) slice (ucast nInputs)) (\<lambda>perm.
            rbind (rmap (\<lambda>i. rbind (vec_at perm i) (\<lambda>p. Inr (set_n (ucast p) (txInputs ! i)))) [0..<length txInputs])
              (\<lambda>txInputs. Inr (bits, txInputs)))))"

definition UnpackDataFromBudgetClaim :: "chan_env \<Rightarrow> CTxIn list \<Rightarrow> databits result" where
  "UnpackDataFromBudgetClaim e txInputs =
     (let perm = map (\<lambda>txIn. ucast (op_n (ti_prevout txIn))) txInputs
      in DecodeDataInPermutation (ce_lg e) perm)"

section \<open>Choosing the number of outputs\<close>

definition dummyA :: script where
  "dummyA = push_opcode (push_data (push_opcode [] OP_HASH160) (replicate 20 0)) OP_EQUAL"

definition dummyB :: script where
  "dummyB = push_data (push_opcode [] OP_RETURN) (replicate 40 0)"

fun OptimizeParams_loop ::
  "chan_env \<Rightarrow> bms \<Rightarrow> CTransaction \<Rightarrow> databits \<Rightarrow> u64 \<Rightarrow> u32 \<Rightarrow> u32 \<Rightarrow> nat \<Rightarrow> Parameters \<Rightarrow> Parameters result" where
  "OptimizeParams_loop e g tx bits nBudget nBitsA nBitsB 0 params = Inr params"
| "OptimizeParams_loop e g tx bits nBudget nBitsA nBitsB (Suc j) params =
     (let nScriptHash = Suc j;
          vout = replicate nScriptHash (null_txout\<lparr>to_scriptPubKey := dummyA\<rparr>);
          nTotal = of_nat nScriptHash * (nBitsA + 11 * nBitsB) + of_nat nScriptHash * 32 :: u32;
          nNulldata = (if (nScriptHash = 1 \<and> length bits > unat nTotal) \<or> nScriptHash \<ge> 2 then 1 else 0);
          vout = (if nNulldata = 1 then vout @ [null_txout\<lparr>to_scriptPubKey := dummyB\<rparr>] else vout);
          nTotal = (if nNulldata = 1 then nTotal + 320 else nTotal)
      in rbind (TransactionFee (tx\<lparr>tx_vout := vout\<rparr>) g) (\<lambda>nFees.
         rbind (if nScriptHash \<ge> 2 then
                  rbind (if nBudget \<ge> nFees then EmbeddableBitsInValues (ce_lg e) (nBudget - nFees) (of_nat nScriptHash)
                         else Inr 0) (\<lambda>nBitsBudgetSplit.
                    Inr (nTotal + (nBitsBudgetSplit + EmbeddableBitsInPermutation (ce_lg e) (of_nat nScriptHash))))
                else Inr nTotal) (\<lambda>nTotal.
           let enough = unat nTotal \<ge> length bits;
               params = (if enough \<or> nScriptHash = 14
                         then \<lparr>p_nScriptHash = nScriptHash, p_nNulldata = nNulldata, p_nFees = nFees\<rparr> else params)
           in if enough then OptimizeParams_loop e g tx bits nBudget nBitsA nBitsB j params else Inr params)))"

definition OptimizeParams ::
  "chan_env \<Rightarrow> bms \<Rightarrow> CTransaction \<Rightarrow> databits \<Rightarrow> u64 \<Rightarrow> Parameters \<Rightarrow> Parameters result" where
  "OptimizeParams e g tx bits nBudget params =
     rbind (nSuffixBits g) (\<lambda>nBitsA.
     rbind (rbind (map_at (b_Config g) ''Random.SuffixBits'') stoi) (\<lambda>nRandom.
       if bits = [] then
         rbind (TransactionFee tx g) (\<lambda>nFees. Inr \<lparr>p_nScriptHash = 0, p_nNulldata = 0, p_nFees = nFees\<rparr>)
       else OptimizeParams_loop e g tx bits nBudget (of_int nBitsA) (of_int (255 - nRandom)) 14 params))"

section \<open>Embedding\<close>

text \<open>The outputs of a transaction and the inputs of the next one; each round numbers the last input.\<close>

definition add_script_hash :: "nat \<Rightarrow> CTxOut list \<times> CTxIn list \<Rightarrow> CTxOut list \<times> CTxIn list" where
  "add_script_hash i st =
     (let (vout, vin) = st;
          vout = null_txout # vout;
          vin = empty_txin # vin
      in (vout, vin[i := set_n (of_nat i) (vin ! i)]))"

definition pack_values ::
  "chan_env \<Rightarrow> databits \<Rightarrow> CTxOut list \<Rightarrow> CTxIn list \<Rightarrow> u64 \<Rightarrow> u64 \<Rightarrow> (databits \<times> CTxOut list \<times> CTxIn list) result" where
  "pack_values e bits vout vin nBudget nFees =
     (if length vout = 1 then
        rbind (vec_at vin 0) (\<lambda>txIn.
          Inr (bits, [(hd vout)\<lparr>to_nValue := nBudget - nFees\<rparr>], vin[0 := set_n 0 txIn]))
      else if length vout \<ge> 2 then
        rbind (if nBudget \<ge> nFees then PackDataIntoBudgetSplit e bits vout (nBudget - nFees) 546
               else Inr (bits, vout)) (\<lambda>(bits, vout).
        rbind (PackDataIntoBudgetClaim e bits vin) (\<lambda>(bits, vin). Inr (bits, vout, vin)))
      else Inr (bits, vout, vin))"

text \<open>One output with the input that will claim it; the input of the next transaction is signed temporarily.\<close>

definition pack_output ::
  "chan_env \<Rightarrow> nat \<Rightarrow> databits \<times> CTxOut list \<times> CTransaction \<times> bms
     \<Rightarrow> (databits \<times> CTxOut list \<times> CTransaction \<times> bms) result" where
  "pack_output e i st =
     (let (bits, vout, nxt, g) = st
      in rbind (vec_at (tx_vin nxt) i) (\<lambda>txIn.
         let n = unat (op_n (ti_prevout txIn))
         in rbind (vec_at vout n) (\<lambda>txOut.
            rbind (PackDataIntoP2SH e bits txOut nxt i g) (\<lambda>(bits, txOut, nxt, g).
            rbind (vec_at (tx_vin nxt) i) (\<lambda>txIn.
            rbind (PackDataIntoSeqNr bits txIn) (\<lambda>(bits, txIn).
              Inr (bits, vout[n := txOut], nxt\<lparr>tx_vin := (tx_vin nxt)[i := txIn]\<rparr>, g)))))))"

text \<open>One round of the loop, on the transactions \<open>txs[idx]\<close> and \<open>txs[idx+1]\<close>.\<close>

definition embed_round ::
  "chan_env \<Rightarrow> CTransaction \<Rightarrow> CTransaction \<Rightarrow> databits \<Rightarrow> u64 \<Rightarrow> Parameters \<Rightarrow> bms
     \<Rightarrow> (CTransaction \<times> CTransaction \<times> databits \<times> u64 \<times> Parameters \<times> bms) result" where
  "embed_round e cur nxt bits nBudget params g =
     rbind (OptimizeParams e g cur bits nBudget params) (\<lambda>params.
     let nScriptHash = p_nScriptHash params; nNulldata = p_nNulldata params; nFees = p_nFees params;
         (vout, vin) = fold add_script_hash [0..<nScriptHash] (tx_vout cur, tx_vin nxt)
     in rbind (pack_values e bits vout vin nBudget nFees) (\<lambda>(bits, vout, vin).
        rbind (if nNulldata \<noteq> 0 then
                 rbind (PackDataIntoNulldata bits null_txout) (\<lambda>(bits, txOut). Inr (bits, vout @ [txOut]))
               else Inr (bits, vout)) (\<lambda>(bits, vout).
        rbind (rfold (pack_output e) [0..<nScriptHash] (bits, vout, nxt\<lparr>tx_vin := vin\<rparr>, g)) (\<lambda>(bits, vout, nxt, g).
          Inr (cur\<lparr>tx_vout := vout\<rparr>, nxt, bits, nBudget - nFees, params, g)))))"

partial_function (option) EmbedData_loop ::
  "chan_env \<Rightarrow> TransactionChain \<Rightarrow> nat \<Rightarrow> databits \<Rightarrow> u64 \<Rightarrow> Parameters \<Rightarrow> bms
     \<Rightarrow> (TransactionChain \<times> nat \<times> u64 \<times> Parameters \<times> bms) result option" where
  "EmbedData_loop e txs idx bits nBudget params g =
     (case embed_round e (txs ! idx) (txs ! (idx + 1)) bits nBudget params g of
        Inl err \<Rightarrow> Some (Inl err)
      | Inr (cur, nxt, bits, nBudget, params, g) \<Rightarrow>
          let txs = txs[idx := cur, idx + 1 := nxt]
          in if bits \<noteq> [] then EmbedData_loop e (txs @ [null_tx]) (idx + 1) bits nBudget params g
             else Some (Inr (txs, idx, nBudget, params, g)))"

definition EmbedData ::
  "chan_env \<Rightarrow> databits \<Rightarrow> u64 \<Rightarrow> COutPoint list \<Rightarrow> CBase58Data \<Rightarrow> bms \<Rightarrow> (TransactionChain \<times> bms) result option" where
  "EmbedData e dat nBudget prevOut addr g =
     (let txs = [null_tx\<lparr>tx_vin := map (\<lambda>p. empty_txin\<lparr>ti_prevout := p\<rparr>) prevOut\<rparr>, null_tx];
          params = \<lparr>p_nScriptHash = 0, p_nNulldata = 0, p_nFees = 0\<rparr>
      in case EmbedData_loop e txs 0 dat nBudget params g of
           None \<Rightarrow> None
         | Some (Inl err) \<Rightarrow> Some (Inl err)
         | Some (Inr (txs, idx, nBudget, params, g)) \<Rightarrow>
             Some (rbind (OptimizeParams e g (txs ! (idx + 1)) [] nBudget params) (\<lambda>params.
               let out = \<lparr>to_nValue = nBudget - p_nFees params,
                          to_scriptPubKey = SetDestination (addr_Get (ce_params e) addr)\<rparr>;
                   last_tx = txs ! (idx + 1)
               in Inr (txs[idx + 1 := last_tx\<lparr>tx_vout := tx_vout last_tx @ [out]\<rparr>], g))))"

definition MinimumBudget :: "chan_env \<Rightarrow> nat \<Rightarrow> bms \<Rightarrow> (u64 \<times> bms) result option" where
  "MinimumBudget e nBits g =
     (case rbind (map_at (b_Config g) ''TxFeeRate'') stoul of
        Inl err \<Rightarrow> Some (Inl err)
      | Inr FeeRate \<Rightarrow>
          map_option (\<lambda>r. rbind r (\<lambda>(chain, g). rbind (ChainFee chain g) (\<lambda>f. Inr (0 + f + 2 * FeeRate, g))))
            (EmbedData e (replicate nBits False) 0 [] empty_base58 g))"

section \<open>Extraction\<close>

definition extract_pair :: "chan_env \<Rightarrow> bms \<Rightarrow> CTransaction \<Rightarrow> CTransaction \<Rightarrow> databits result" where
  "extract_pair e g cur nxt =
     (let nNulldata = (if length (tx_vout cur) \<ge> 2 then 1 else 0);
          nScriptHash = length (tx_vout cur) - nNulldata;
          vout = (if nNulldata = 1 then butlast (tx_vout cur) else tx_vout cur)
      in rbind (if nScriptHash \<ge> 2 then
                  rbind (UnpackDataFromBudgetSplit e vout 546) (\<lambda>a.
                  rbind (UnpackDataFromBudgetClaim e (tx_vin nxt)) (\<lambda>b. Inr (a @ b)))
                else Inr []) (\<lambda>bits.
         rbind (if nNulldata = 1 then
                  rbind (UnpackDataFromNulldata (last (tx_vout cur))) (\<lambda>slice. Inr (bits @ slice))
                else Inr bits) (\<lambda>bits.
           rfold (\<lambda>j bits.
               rbind (vec_at (tx_vin nxt) j) (\<lambda>txIn.
               rbind (UnpackDataFromP2SH txIn g) (\<lambda>slice.
                 Inr (bits @ slice @ UnpackDataFromSeqNr txIn))))
             [0..<nScriptHash] bits)))"

fun ExtractData_loop :: "chan_env \<Rightarrow> bms \<Rightarrow> TransactionChain \<Rightarrow> databits \<Rightarrow> databits result" where
  "ExtractData_loop e g (cur # nxt # txs) bits =
     rbind (extract_pair e g cur nxt) (\<lambda>b. ExtractData_loop e g (nxt # txs) (bits @ b))"
| "ExtractData_loop e g txs bits = Inr bits"

text \<open>With no transaction the bound \<open>nTransactions-1\<close> wraps.\<close>

definition ExtractData :: "chan_env \<Rightarrow> TransactionChain \<Rightarrow> bms \<Rightarrow> databits result" where
  "ExtractData e txs g = (if txs = [] then Inl Undefined else ExtractData_loop e g txs [])"

section \<open>Signing, sending and reading chains\<close>

text \<open>The wallet is a service: \<open>None\<close> stands for a \<open>BitcoinException\<close>.\<close>

record wallet =
  signrawtransaction :: "string \<Rightarrow> (string \<times> bool) option"
  sendrawtransaction :: "string \<Rightarrow> bool"
  getrawtransaction :: "string \<Rightarrow> (string \<times> string) option"
  getblock :: "string \<Rightarrow> (string list \<times> string) option"

definition sign_inputs ::
  "chan_env \<Rightarrow> CTransaction \<Rightarrow> CTransaction \<Rightarrow> bms \<Rightarrow> (CTransaction \<times> bms) result" where
  "sign_inputs e prev tx g =
     rfold (\<lambda>j (tx, g).
         let n = unat (op_n (ti_prevout (tx_vin tx ! j)))
         in rbind (vec_at (tx_vout prev) n) (\<lambda>txOut.
            case SignSignature (ce_sig e) (b_Store g) (to_scriptPubKey txOut) tx (of_nat j) 1 (b_Cache g) of
              (Inl err, c) \<Rightarrow> Inl err
            | (Inr (ok, tx), c) \<Rightarrow>
                if \<not> ok then Inl (Thrown ''[AuthorizeTransactions] Signature generation failed'')
                else Inr (tx, g\<lparr>b_Cache := c\<rparr>)))
       [0..<length (tx_vin tx)] (tx, g)"

definition set_hash :: "base_uint \<Rightarrow> CTxIn \<Rightarrow> CTxIn" where
  "set_hash h txIn = txIn\<lparr>ti_prevout := (ti_prevout txIn)\<lparr>op_hash := h\<rparr>\<rparr>"

fun authorize_rest :: "chan_env \<Rightarrow> CTransaction \<Rightarrow> TransactionChain \<Rightarrow> bms \<Rightarrow> (TransactionChain \<times> bms) result" where
  "authorize_rest e prev [] g = Inr ([], g)"
| "authorize_rest e prev (tx # txs) g =
     (let tx = tx\<lparr>tx_vin := map (set_hash (tx_GetHash (ce_ssl e) prev)) (tx_vin tx)\<rparr>
      in rbind (sign_inputs e prev tx g) (\<lambda>(tx, g).
         rbind (authorize_rest e tx txs g) (\<lambda>(txs, g). Inr (tx # txs, g))))"

definition AuthorizeTransactions ::
  "chan_env \<Rightarrow> wallet \<Rightarrow> TransactionChain \<Rightarrow> bms \<Rightarrow> (TransactionChain \<times> bms) result" where
  "AuthorizeTransactions e w txs g =
     rbind (vec_at txs 0) (\<lambda>tx.
       case signrawtransaction w (TransactionToHexString tx) of
         None \<Rightarrow> Inl (Thrown ''[Authorize transaction] Failed to sign transaction'')
       | Some (hex, fComplete) \<Rightarrow>
           if \<not> fComplete then Inl (Thrown ''[AuthorizeTransactions] The signature is not complete'')
           else rbind (HexStringToTransaction hex) (\<lambda>tx.
                rbind (authorize_rest e tx (tl txs) g) (\<lambda>(txs, g). Inr (tx # txs, g))))"

text \<open>The texts sent, up to the first failure.\<close>

fun SendTransactions :: "wallet \<Rightarrow> TransactionChain \<Rightarrow> string list \<times> unit result" where
  "SendTransactions w [] = ([], Inr ())"
| "SendTransactions w (tx # txs) =
     (let hex = TransactionToHexString tx
      in if sendrawtransaction w hex then let (sent, r) = SendTransactions w txs in (hex # sent, r)
         else ([], Inl (Thrown ''[SendTransaction]: Failed to send transaction'')))"

definition read_tx :: "string \<Rightarrow> wallet \<Rightarrow> string \<Rightarrow> CTransaction result" where
  "read_tx err w txid =
     (case getrawtransaction w txid of
        None \<Rightarrow> Inl (Thrown err)
      | Some (hex, _) \<Rightarrow> HexStringToTransaction hex)"

text \<open>From the last transaction back to the first; the chain is collected in reverse.\<close>

partial_function (option) read_back :: "wallet \<Rightarrow> base_uint \<Rightarrow> base_uint \<Rightarrow> TransactionChain \<Rightarrow> TransactionChain result option" where
  "read_back w TxBegin TxEnd chain =
     (case read_tx ''[ReadTransactions]: Failed to read transaction'' w (GetHex TxEnd) of
        Inl err \<Rightarrow> Some (Inl err)
      | Inr tx \<Rightarrow>
          if TxBegin \<noteq> TxEnd then
            (case tx_vin tx of
               [] \<Rightarrow> Some (Inl Undefined)
             | txIn # _ \<Rightarrow> read_back w TxBegin (COutPoint.op_hash (ti_prevout txIn)) (chain @ [tx]))
          else Some (Inr (rev (chain @ [tx]))))"

text \<open>A chain ends at a transaction that satisfies \<open>P\<close>; what follows the last end is dropped.\<close>

fun split_chains :: "(CTransaction \<Rightarrow> bool) \<Rightarrow> TransactionChain \<Rightarrow> TransactionChain \<Rightarrow> TransactionChain list" where
  "split_chains P sub [] = []"
| "split_chains P sub (tx # txs) =
     (if P tx then (sub @ [tx]) # split_chains P [] txs else split_chains P (sub @ [tx]) txs)"

definition ends_chain :: "CTransaction \<Rightarrow> bool" where
  "ends_chain tx \<longleftrightarrow> length (tx_vout tx) = 1 \<and> \<not> IsPayToScriptHash (to_scriptPubKey (hd (tx_vout tx)))"

definition ends_chain_forward :: "CTransaction \<Rightarrow> bool" where
  "ends_chain_forward tx \<longleftrightarrow> length (tx_vout tx) = 1"

definition ReadTransactions :: "wallet \<Rightarrow> base_uint \<Rightarrow> base_uint \<Rightarrow> TransactionChain list result option" where
  "ReadTransactions w TxBegin TxEnd =
     map_option (\<lambda>r. rbind r (\<lambda>chain. Inr (split_chains ends_chain [] chain))) (read_back w TxBegin TxEnd [])"

text \<open>
  The forward reader: the transactions of a block are added to those left over, and the search
  goes on at index 1 after each hit.
\<close>

function collect ::
  "openssl \<Rightarrow> nat \<Rightarrow> CTransaction list \<Rightarrow> base_uint \<Rightarrow> TransactionChain \<Rightarrow> (CTransaction list \<times> base_uint \<times> TransactionChain) result" where
  "collect ssl j txs TxBegin chain =
     (if j < length txs then
        (case tx_vin (txs ! j) of
           [] \<Rightarrow> Inl Undefined
         | txIn # _ \<Rightarrow>
             if COutPoint.op_hash (ti_prevout txIn) = TxBegin then
               collect ssl 1 (take j txs @ drop (j + 1) txs) (tx_GetHash ssl (txs ! j)) (chain @ [txs ! j])
             else collect ssl (j + 1) txs TxBegin chain)
      else Inr (txs, TxBegin, chain))"
  by pat_completeness auto
termination
  by (relation "measures [\<lambda>(ssl, j, txs, h, c). length txs, \<lambda>(ssl, j, txs, h, c). length txs - j]") auto

declare collect.simps [simp del]

fun read_blocks ::
  "openssl \<Rightarrow> wallet \<Rightarrow> nat \<Rightarrow> string \<Rightarrow> CTransaction list \<Rightarrow> base_uint \<Rightarrow> TransactionChain \<Rightarrow> TransactionChain result" where
  "read_blocks ssl w 0 BeginBlockHash txs TxBegin chain = Inr chain"
| "read_blocks ssl w (Suc i) BeginBlockHash txs TxBegin chain =
     (case getblock w BeginBlockHash of
        None \<Rightarrow> Inl (Thrown ''[SendTransaction]: Failed to send transaction'')
      | Some (refs, nextblockhash) \<Rightarrow>
          rbind (rmap (read_tx ''[SendTransaction]: Failed to send transaction'' w) refs) (\<lambda>new.
          rbind (collect ssl 0 (txs @ new) TxBegin chain) (\<lambda>(txs, TxBegin, chain).
            read_blocks ssl w i nextblockhash txs TxBegin chain)))"

definition ReadTransactions_forward ::
  "openssl \<Rightarrow> wallet \<Rightarrow> base_uint \<Rightarrow> nat \<Rightarrow> TransactionChain list result" where
  "ReadTransactions_forward ssl w TxBegin nBlocks =
     (case getrawtransaction w (GetHex TxBegin) of
        None \<Rightarrow> Inl (Thrown ''[SendTransaction]: Failed to send transaction'')
      | Some (hex, blockhash) \<Rightarrow>
          rbind (HexStringToTransaction hex) (\<lambda>tx.
          rbind (read_blocks ssl w nBlocks blockhash [] TxBegin [tx]) (\<lambda>chain.
            Inr (split_chains ends_chain_forward [] chain))))"

end
