(* ===== verification/Embedding.thy ===== *)
theory Embedding
  imports Channel
begin

text \<open>
  What is embedded by theory \<open>Channel\<close> is extracted: each carrier is unpacked to the bits that were
  packed into it, in the order in which they were packed, so a chain gives back the data followed by
  padding. \<open>chan_ok\<close> collects what the configuration, the key store and the libraries must satisfy.
\<close>

section \<open>Consumed bits\<close>

text \<open>\<open>out\<close> was taken from the front of \<open>bits\<close>, padded with zeros at the end of the data.\<close>

definition consumed :: "databits \<Rightarrow> databits \<Rightarrow> databits \<Rightarrow> bool" where
  "consumed bits bits' out \<longleftrightarrow>
     (\<exists>pad. bits @ replicate pad False = out @ bits' \<and> (pad = 0 \<or> bits' = []))"

lemma consumed_refl: "consumed bits bits []"
  by (auto simp: consumed_def intro: exI [of _ 0])

lemma consumed_trans:
  assumes "consumed a b out" "consumed b c out'"
  shows "consumed a c (out @ out')"
proof -
  obtain p q where p: "a @ replicate p False = out @ b" "p = 0 \<or> b = []"
    and q: "b @ replicate q False = out' @ c" "q = 0 \<or> c = []" using assms by (auto simp: consumed_def)
  have "a @ replicate (p + q) False = out @ out' @ c"
    unfolding replicate_add append_assoc [symmetric] p(1) using q(1) by simp
  moreover have "p + q = 0 \<or> c = []" using p(2) q by auto
  ultimately show ?thesis unfolding consumed_def by (metis append_assoc)
qed

lemma consumed_length: "consumed a b out \<Longrightarrow> length b \<le> length a - length out"
proof -
  assume "consumed a b out"
  then obtain p where p: "a @ replicate p False = out @ b" "p = 0 \<or> b = []" by (auto simp: consumed_def)
  then have "length a + p = length out + length b" by (metis length_append length_replicate)
  with p(2) show ?thesis by auto
qed

text \<open>The first \<open>n\<close> bits, after padding to \<open>n\<close>.\<close>

lemma pad_slice:
  assumes "length bits < 2 ^ 31" "n < 2 ^ 31"
    and "SliceBits (PadBits bits (of_int (int n - min (int n) (int_of_size (length bits))))) (of_nat n) = Inr (s, r)"
  shows "length s = n \<and> consumed bits r s"
proof -
  have w: "unat (of_nat k :: u32) = k" if "k < 2 ^ 31" for k using that by (simp add: unat_of_nat)
  define k where "k = n - min n (length bits)"
  have "(of_int (int n - min (int n) (int_of_size (length bits))) :: u32) = of_nat k"
    using assms(1) by (auto simp: k_def min_def of_nat_diff)
  then have b: "PadBits bits (of_int (int n - min (int n) (int_of_size (length bits)))) = bits @ replicate k False"
    using w [of k] assms(2) by (simp add: PadBits_def k_def)
  have s: "n \<le> length bits + k" "s = take n (bits @ replicate k False)" "r = drop n (bits @ replicate k False)"
    using assms(3) w [OF assms(2)] unfolding b by (simp_all add: result_simps)
  have "length s = n" using s(1,2) by simp
  moreover have "bits @ replicate k False = s @ r" by (simp only: s(2,3) append_take_drop_id)
  moreover have "k = 0 \<or> r = []" by (auto simp: s(3) k_def)
  ultimately show ?thesis unfolding consumed_def by blast
qed

section \<open>Sequence numbers and null data\<close>

lemma PackDataIntoSeqNr_unpack:
  assumes "length bits < 2 ^ 31" "PackDataIntoSeqNr bits i = Inr (bits', i')"
  shows "consumed bits bits' (UnpackDataFromSeqNr i') \<and> length (UnpackDataFromSeqNr i') = 32 \<and>
    ti_prevout i' = ti_prevout i \<and> ti_scriptSig i' = ti_scriptSig i"
proof -
  obtain s n where s: "SliceBits (PadBits bits (of_int (int 32 - min (int 32) (int_of_size (length bits))))) (of_nat 32) = Inr (s, bits')"
    "EncodeDataInSequenceNr s = Inr n" "i' = i\<lparr>ti_nSequence := n\<rparr>"
    using assms(2) by (auto simp: PackDataIntoSeqNr_def Let_def result_simps split: prod.splits)
  with pad_slice [OF assms(1) _ s(1)] Decode_Encode_SequenceNr [OF s(2)] show ?thesis
    by (simp add: UnpackDataFromSeqNr_def)
qed

lemma PackDataIntoNulldata_unpack:
  assumes "length bits < 2 ^ 31" "PackDataIntoNulldata bits o1 = Inr (bits', o2)"
  shows "\<exists>out. UnpackDataFromNulldata o2 = Inr out \<and> consumed bits bits' out \<and> length out = 320 \<and> to_nValue o2 = 0"
proof -
  obtain s d where s: "SliceBits (PadBits bits (of_int (int 320 - min (int 320) (int_of_size (length bits))))) (of_nat 320) = Inr (s, bits')"
    "BitsToData s = Inr d" "o2 = o1\<lparr>to_scriptPubKey := push_data (push_opcode [] OP_RETURN) d, to_nValue := 0\<rparr>"
    using assms(2) by (auto simp: PackDataIntoNulldata_def Let_def result_simps split: prod.splits)
  have c: "length s = 320" "consumed bits bits' s" using pad_slice [OF assms(1) _ s(1)] by simp_all
  have d: "DataToBits d = s" using s(2) by (simp add: BitsToData_Inr_iff)
  then have "length d = 40" using c(1) length_DataToBits [of d] by simp
  then have "push_data (push_opcode [] OP_RETURN) d = OP_RETURN # 40 # d" by (simp add: push_data_def push_opcode_def)
  then show ?thesis using c d by (auto simp: UnpackDataFromNulldata_def s(3))
qed

section \<open>Script hashes\<close>

text \<open>What holds of the libraries, of the key pairs and of the key store; \<open>m\<close> is the length of the suffixes.\<close>

definition env_ok :: "chan_env \<Rightarrow> bool" where
  "env_ok e \<longleftrightarrow> openssl_ok (ce_ssl e) \<and> ecdsa_ok (ce_ssl e) \<and> prefixes_ok (ce_params e) \<and> lg_ok (ce_lg e) \<and> root_ok (ce_root e)"

definition keys_ok :: "openssl \<Rightarrow> nat \<Rightarrow> bms \<Rightarrow> bool" where
  "keys_ok ssl m g \<longleftrightarrow>
     nSuffixBits g = Inr (int m) \<and> m \<le> 264 \<and>
     (\<forall>k key. Mapping.lookup (b_KeyMap g) k = Some key \<longrightarrow> k_fCompressed key \<and>
        (\<exists>pk. signs_with ssl (b_Store g) key pk \<and> drop (264 - m) (DataToBits (pk_bytes pk)) = k)) \<and>
     cache_ok ssl (b_Cache g)"

lemma pk_bytes_mk_pubkey_bytes:
  "length (pk_bytes pk) = 33 \<Longrightarrow> hd (pk_bytes pk) \<in> {2, 3} \<Longrightarrow> pk_bytes (mk_pubkey (pk_bytes pk)) = pk_bytes pk"
  by (rule pk_bytes_mk_pubkey) (auto simp: GetLen_def)

lemma EncodeDataInPubkey_hd: "EncodeDataInPubkey ssl s r d = Inr (pk, d') \<Longrightarrow> hd (pk_bytes pk) = 2"
proof -
  assume e: "EncodeDataInPubkey ssl s r d = Inr (pk, d')"
  obtain random where b: "DataToBits (pk_bytes pk) = CharToBoolVec 2 @ False # s @ random"
    using EncodeDataInPubkey_bytes(4) [OF e] by blast
  obtain c cs where c: "pk_bytes pk = c # cs" using EncodeDataInPubkey_bytes(3) [OF e] by (cases "pk_bytes pk") auto
  with b have "CharToBoolVec c = CharToBoolVec 2" by (metis DataToBits.simps(2) append_eq_append_conv length_CharToBoolVec)
  then show ?thesis using c by (metis BoolVecToChar_CharToBoolVec list.sel(1) sum.inject(2))
qed

lemma PackP2SH_keys_unpack:
  assumes "length bits < 2 ^ 31" "PackP2SH_keys ssl k bits draws = Inr (pks, bits', draws')"
  shows "length pks = k \<and> (\<forall>pk \<in> set pks. pk_size pk = 33 \<and> length (pk_bytes pk) = 33 \<and> hd (pk_bytes pk) = 2) \<and>
    (\<exists>slices. rmap (\<lambda>pk. DecodeDataInPubkey pk 5) pks = Inr slices \<and> consumed bits bits' (concat slices))"
  using assms
proof (induction k arbitrary: bits draws pks)
  case (Suc k)
  then obtain s b pk d pks' where s:
    "SliceBits (PadBits bits (of_int (int 250 - min (int 250) (int_of_size (length bits))))) (of_nat 250) = Inr (s, b)"
    "EncodeDataInPubkey ssl s 5 draws = Inr (pk, d)" "PackP2SH_keys ssl k b d = Inr (pks', bits', draws')" "pks = pk # pks'"
    by (auto simp: Let_def result_simps split: prod.splits)
  have c: "consumed bits b s" using pad_slice [OF Suc.prems(1) _ s(1)] by simp
  then have "length b < 2 ^ 31" using consumed_length [OF c] Suc.prems(1) by linarith
  from Suc.IH [OF this s(3)] obtain slices where IH: "length pks' = k"
    "\<forall>pk \<in> set pks'. pk_size pk = 33 \<and> length (pk_bytes pk) = 33 \<and> hd (pk_bytes pk) = 2"
    "rmap (\<lambda>pk. DecodeDataInPubkey pk 5) pks' = Inr slices" "consumed b bits' (concat slices)" by blast
  have "pk_size pk = 33" "length (pk_bytes pk) = 33" "hd (pk_bytes pk) = 2"
    using EncodeDataInPubkey_bytes(2,3) [OF s(2)] EncodeDataInPubkey_hd [OF s(2)] by simp_all
  moreover have "DecodeDataInPubkey pk 5 = Inr s" by (rule Decode_Encode_Pubkey [OF s(2)])
  moreover have "consumed bits bits' (concat (s # slices))" using consumed_trans [OF c IH(4)] by simp
  ultimately show ?case using IH s(4) by auto
qed (auto simp: consumed_refl)

lemma last_push_pushes:
  "length (concat (map (push_data []) vs)) < 2 ^ 31 \<Longrightarrow>
    last_push (concat (map (push_data []) vs)) v = last (v # vs)"
proof (induction vs arbitrary: v)
  case (Cons w vs)
  let ?r = "concat (map (push_data []) vs)"
  have "length w \<le> length (push_data [] w)" by (simp add: push_data_def)
  then have l: "length (w @ ?r) < 2 ^ 32" using Cons.prems by simp
  have ne: "push_data [] w @ ?r \<noteq> []" by (simp add: push_data_def)
  have "last_push (push_data [] w @ ?r) v = last_push ?r w"
    using ne by (subst last_push.simps) (simp only: GetOp2_push [OF l] prod.case bool.case if_False)
  with Cons.IH [of w] Cons.prems show ?case by simp
qed (simp add: last_push.simps)

lemma pushed_keys_step:
  "GetOp2 pc = (True, opcode, vch, pc') \<Longrightarrow>
    pushed_keys pc ks = pushed_keys pc' (if length vch = 33 then ks @ [mk_pubkey vch] else ks)"
proof -
  assume g: "GetOp2 pc = (True, opcode, vch, pc')"
  then have "pc \<noteq> []" by auto
  with g show ?thesis by (subst pushed_keys.simps) simp
qed

lemma pushed_keys_keys:
  "\<forall>v \<in> set vs. length v = 33 \<Longrightarrow> length vs \<le> 16 \<Longrightarrow> length t \<le> 10 \<Longrightarrow>
    pushed_keys (concat (map (\<lambda>v. of_nat (length v) # v) vs) @ t) ks = pushed_keys t (ks @ map mk_pubkey vs)"
proof (induction vs arbitrary: ks)
  case (Cons v vs)
  let ?r = "concat (map (\<lambda>v. of_nat (length v) # v) vs) @ t"
  have "length ?r = 34 * length vs + length t" using Cons.prems(1) by (induction vs) simp_all
  then have "length (v @ ?r) < 2 ^ 32" using Cons.prems by simp
  then have "GetOp2 (of_nat 33 # v @ ?r) = (True, of_nat 33, v, ?r)"
    using Cons.prems(1) by (intro GetOp2_direct) simp_all
  from pushed_keys_step [OF this] Cons show ?case by simp
qed simp

lemma pushed_keys_multisig:
  assumes "\<forall>v \<in> set vs. length v = 33" "1 \<le> length vs" "length vs \<le> 16"
  shows "pushed_keys (multisig_code 1 vs) [] = map mk_pubkey vs"
proof -
  let ?t = "[of_nat (80 + length vs), OP_CHECKMULTISIG]"
  have "pushed_keys (of_nat (80 + 1) # concat (map (\<lambda>v. of_nat (length v) # v) vs) @ ?t) [] =
      pushed_keys (concat (map (\<lambda>v. of_nat (length v) # v) vs) @ ?t) []"
    using pushed_keys_step [OF GetOp2_opcode [OF small_op_big [of 1]], of "concat (map (\<lambda>v. of_nat (length v) # v) vs) @ ?t" "[]"]
    by simp
  also have "\<dots> = pushed_keys ?t (map mk_pubkey vs)"
    using pushed_keys_keys [OF assms(1,3), of ?t "[]"] by simp
  also have "\<dots> = pushed_keys [OP_CHECKMULTISIG] (map mk_pubkey vs)"
    using pushed_keys_step [OF GetOp2_opcode [OF small_op_big [OF assms(2,3)]], of "[OP_CHECKMULTISIG]"] by simp
  also have "\<dots> = pushed_keys [] (map mk_pubkey vs)"
    using pushed_keys_step [OF GetOp2_opcode, of OP_CHECKMULTISIG "[]"] by simp
  finally show ?thesis by (simp add: multisig_code_def pushed_keys.simps [of "[]"])
qed

lemma sign_case:
  "(case S of (Inl err, c) \<Rightarrow> Inl err
     | (Inr (ok, tx), c) \<Rightarrow> if \<not> ok then Inl err' else Inr (b, o1, tx, h c)) = Inr (b', o2, tx', g') \<Longrightarrow>
   \<exists>c. S = (Inr (True, tx'), c) \<and> b' = b \<and> o2 = o1 \<and> g' = h c"
  by (auto split: prod.splits sum.splits if_splits)

lemma PackDataIntoP2SH_value:
  "PackDataIntoP2SH e bits txOut tx i g = Inr (bits', txOut', tx', g') \<Longrightarrow> to_nValue txOut' = to_nValue txOut"
  by (auto simp: PackDataIntoP2SH_def Let_def rbind_eq_Inr dest!: sign_case)

text \<open>The script that an input redeems, and what a script must be for the key store to sign for it.\<close>

definition redeemed :: "CTxIn \<Rightarrow> script" where
  "redeemed x = last_push (ti_scriptSig x) []"

definition redeems :: "openssl \<Rightarrow> CBasicKeyStore \<Rightarrow> script \<Rightarrow> bool" where
  "redeems ssl ks code \<longleftrightarrow> (\<exists>key pk vs. signs_with ssl ks key pk \<and> k_fCompressed key \<and> length vs \<le> 14 \<and>
     (\<forall>v \<in> set vs. length v = 33 \<and> hd v \<in> {2, 3}) \<and> code = multisig_code 1 (pk_bytes pk # vs))"

lemma AddCScript_lookup: "GetCScript (AddCScript ssl code ks) (script_GetID ssl code) = Some code"
  by (simp add: AddCScript_def GetCScript_def lookup_update)

lemma AddCScript_keys:
  "signs_with ssl (AddCScript ssl code ks) = signs_with ssl ks" "redeems ssl (AddCScript ssl code ks) = redeems ssl ks"
  by (simp_all add: fun_eq_iff redeems_def signs_with_def GetKey_def AddCScript_def)

text \<open>A signature, the script and nothing else.\<close>

lemma redeem_pushes:
  assumes "ecdsa_ok ssl" "openssl_ok ssl" "signs_with ssl ks key pk" "k_fCompressed key" "length vs \<le> 14"
    and "\<forall>v \<in> set vs. length v = 33 \<and> hd v \<in> {2, 3}" "code = multisig_code 1 (pk_bytes pk # vs)"
    and "key_Sign ssl key h = Some sig"
  shows "last_push (PushAll [[], sig @ [t], code]) [] = code" "length (PushAll [[], sig @ [t], code]) \<le> 700"
proof -
  let ?vs = "[[], sig @ [t], code]"
  have pk: "length (pk_bytes pk) = 33" using mk_pubkey_GetID [OF assms(2,3)] assms(4) by simp
  have "length sig \<le> 72" using key_Sign_verifies [OF assms(1,2), of key pk h] assms(3,8)
    by (auto simp: signs_with_def)
  moreover have "length code \<le> 520"
  proof -
    have "length (concat (map (\<lambda>v. of_nat (length v) # v) vs)) = 34 * length vs" using assms(6) by (induction vs) simp_all
    then show ?thesis using assms(5) pk by (simp add: assms(7) multisig_code_def)
  qed
  moreover have "length (push_data [] v) \<le> length v + 5" for v by (simp add: push_data_def)
  from this [of "[]"] this [of "sig @ [t]"] this [of code]
  have "length (concat (map (push_data []) ?vs)) \<le> 15 + (length sig + 1) + length code" by simp
  ultimately have l: "length (concat (map (push_data []) ?vs)) \<le> 700" by linarith
  have P: "PushAll ?vs = concat (map (push_data []) ?vs)" unfolding PushAll_def PushAll_append append_Nil ..
  show "length (PushAll ?vs) \<le> 700" using l by (simp only: P)
  have "length (concat (map (push_data []) ?vs)) < 2 ^ 31" using l by (rule order_le_less_trans) simp
  from last_push_pushes [OF this, of "[]"] show "last_push (PushAll ?vs) [] = code" unfolding P by simp
qed

lemma PackDataIntoP2SH_unpack:
  assumes e: "env_ok e" and g: "keys_ok (ce_ssl e) m g" and bits: "length bits < 2 ^ 31"
    and i: "i < length (tx_vin tx)" "i < 2 ^ 32"
    and r: "PackDataIntoP2SH e bits txOut tx i g = Inr (bits', txOut', tx', g')"
  shows "\<exists>S out c. tx' = set_scriptSig i S tx \<and> last_push S [] = c \<and>
    (\<forall>j g''. nSuffixBits g'' = Inr (int m) \<longrightarrow> redeemed j = c \<longrightarrow> UnpackDataFromP2SH j g'' = Inr out) \<and>
    consumed bits bits' out \<and> keys_ok (ce_ssl e) m g' \<and> b_Config g' = b_Config g \<and> to_nValue txOut' = to_nValue txOut \<and>
    redeems (ce_ssl e) (b_Store g) c \<and> b_Store g' = AddCScript (ce_ssl e) c (b_Store g) \<and>
    to_scriptPubKey txOut' = SetDestination (CScriptID (script_GetID (ce_ssl e) c))"
proof -
  let ?ssl = "ce_ssl e"
  have ssl: "openssl_ok ?ssl" "ecdsa_ok ?ssl" "prefixes_ok (ce_params e)" using e by (simp_all add: env_ok_def)
  then have dig: "digests_ok ?ssl" by (simp add: openssl_ok_def)
  have m: "nSuffixBits g = Inr (int m)" "m \<le> 264" using g by (simp_all add: keys_ok_def)
  let ?sign = "\<lambda>code. SignSignature (ce_sig e) (AddCScript ?ssl code (b_Store g))
       (SetDestination (addr_Get (ce_params e) (addr_of_dest (ce_params e) (CScriptID (script_GetID ?ssl code))))) tx (of_nat i) 1 (b_Cache g)"
  from r m(1) obtain s b key pk pks b' draws code where s:
    "SliceBits (PadBits bits (of_int (int m - min (int m) (int_of_size (length bits))))) (of_int (int m)) = Inr (s, b)"
    "Mapping.lookup (b_KeyMap g) s = Some key" "key_GetPubKey ?ssl key = Inr pk"
    "PackP2SH_keys ?ssl (min 11 (ceil_div (length b) 250)) b (b_draws g) = Inr (pks, b', draws)"
    "SetMultisig 1 (pk # pks) = Inr code"
    and sg: "(case ?sign code of (Inl err, c) \<Rightarrow> Inl err
      | (Inr (ok, tx), c) \<Rightarrow>
          if \<not> ok then Inl (Thrown ''[PackDataIntoP2SH] Temporary signature generation failed'')
          else Inr (b', txOut\<lparr>to_scriptPubKey := SetDestination (addr_Get (ce_params e) (addr_of_dest (ce_params e) (CScriptID (script_GetID ?ssl code))))\<rparr>,
             tx, g\<lparr>b_Store := AddCScript ?ssl code (b_Store g), b_Cache := c, b_draws := draws\<rparr>)) = Inr (bits', txOut', tx', g')"
    by (auto simp: PackDataIntoP2SH_def Let_def rbind_eq_Inr map_at_eq_Inr simp del: of_int_of_nat_eq)
  from sg obtain c where s2: "?sign code = (Inr (True, tx'), c)" "bits' = b'"
    "g' = g\<lparr>b_Store := AddCScript ?ssl code (b_Store g), b_Cache := c, b_draws := draws\<rparr>"
    "txOut' = txOut\<lparr>to_scriptPubKey := SetDestination (addr_Get (ce_params e) (addr_of_dest (ce_params e) (CScriptID (script_GetID ?ssl code))))\<rparr>"
    by (auto dest!: sign_case)
  note s = s(1) [unfolded of_int_of_nat_eq] s(2-5) s2
  have c1: "length s = m" "consumed bits b s" using pad_slice [OF bits _ s(1)] m(2) by simp_all
  have "length b < 2 ^ 31" using consumed_length [OF c1(2)] bits by linarith
  from PackP2SH_keys_unpack [OF this s(4)] obtain slices where ks: "length pks = min 11 (ceil_div (length b) 250)"
    "\<forall>pk \<in> set pks. pk_size pk = 33 \<and> length (pk_bytes pk) = 33 \<and> hd (pk_bytes pk) = 2"
    "rmap (\<lambda>pk. DecodeDataInPubkey pk 5) pks = Inr slices" "consumed b b' (concat slices)" by blast
  have key: "signs_with ?ssl (b_Store g) key pk" "k_fCompressed key" "drop (264 - m) (DataToBits (pk_bytes pk)) = s"
    using g s(2,3) by (fastforce simp: keys_ok_def signs_with_def)+
  have pk: "length (pk_bytes pk) = 33" "pk_size pk = 33" "hd (pk_bytes pk) \<in> {2, 3}"
    using mk_pubkey_GetID [OF ssl(1) key(1)] key(2) by simp_all
  define vs where "vs = map pk_bytes pks"
  have vs: "length vs \<le> 14" "\<forall>v \<in> set vs. length v = 33 \<and> hd v \<in> {2, 3}" using ks(1,2) by (auto simp: vs_def)
  have code: "code = multisig_code 1 (pk_bytes pk # vs)"
    using SetMultisig_form(1) [of 1 "pk # pks"] s(5) ks(1,2) pk(1,2)
    by (simp add: multisig_code_def vs_def pk_IsValid_def)
  let ?store = "AddCScript ?ssl code (b_Store g)"
  note store = AddCScript_lookup [of ?ssl code "b_Store g"] AddCScript_keys [of ?ssl code "b_Store g"]
  have "length (script_GetID ?ssl code) = 5" using length_Hash160 [OF dig] by (simp add: script_GetID_def)
  from addr_Get_Set [OF ssl(3) this] have addr:
    "addr_Get (ce_params e) (addr_of_dest (ce_params e) (CScriptID (script_GetID ?ssl code))) = CScriptID (script_GetID ?ssl code)" by simp
  have ii: "unat (of_nat i :: u32) = i" using i(2) by (simp add: unat_of_nat)
  have "cache_ok ?ssl (b_Cache g)" using g by (simp add: keys_ok_def)
  from SignSignature_script_hash [OF ssl(1,2) this key(1) [folded store(2)] key(2) vs _ code store(1), of 1 "of_nat i" tx] i(1) ii
  obtain sig where sig: "tx' = set_scriptSig i (PushAll [[], sig @ [ucast (1 :: u32)], code]) tx" "cache_ok ?ssl c"
    "key_Sign ?ssl key (SignatureHash ?ssl code tx (of_nat i) 1) = Some sig"
    using s(6) addr by (auto simp: keys_ok_def)
  let ?vs = "[[], sig @ [ucast (1 :: u32)], code]"
  note lp = redeem_pushes [OF ssl(2,1) key(1,2) vs code sig(3), of "ucast (1 :: u32)"]
  have "pushed_keys code [] = map mk_pubkey (pk_bytes pk # vs)"
    unfolding code using vs pk(1) by (intro pushed_keys_multisig) auto
  then have pks: "pushed_keys code [] = mk_pubkey (pk_bytes pk) # map (\<lambda>pk. mk_pubkey (pk_bytes pk)) pks"
    by (simp add: vs_def)
  have eq: "pk_bytes (mk_pubkey (pk_bytes pk)) = pk_bytes pk" using pk by (intro pk_bytes_mk_pubkey_bytes) auto
  have "DecodeDataInPubkey (mk_pubkey (pk_bytes q)) 5 = DecodeDataInPubkey q 5" if "q \<in> set pks" for q
    using that ks(2) pk_bytes_mk_pubkey_bytes [of q] by (simp add: DecodeDataInPubkey_def)
  then have dec: "rmap (\<lambda>pk. DecodeDataInPubkey pk 5) (map (\<lambda>pk. mk_pubkey (pk_bytes pk)) pks) = Inr slices"
    using ks(3) by (induction pks arbitrary: slices) (auto simp: result_simps)
  have "UnpackDataFromP2SH j g'' = Inr (s @ concat slices)"
    if "nSuffixBits g'' = Inr (int m)" "redeemed j = code" for j g''
    using that pks dec eq key(3) pk(1) m(2) by (simp add: UnpackDataFromP2SH_def Let_def redeemed_def)
  moreover have "consumed bits bits' (s @ concat slices)" using consumed_trans [OF c1(2) ks(4)] s(7) by simp
  moreover have "keys_ok ?ssl m g'" using g sig(2) store(2) by (simp add: keys_ok_def s(8) nSuffixBits_def)
  moreover have "redeems ?ssl (b_Store g) code" unfolding redeems_def using key(1,2) vs code by blast
  ultimately show ?thesis using sig(1) s(8,9) lp addr
    by (intro exI [of _ "PushAll ?vs"] exI [of _ "s @ concat slices"] exI [of _ code]) simp
qed

section \<open>The outputs of one transaction\<close>

text \<open>Only the scripts of the outputs change.\<close>

lemma pack_output_values:
  "pack_output e i (bits, vout, nxt, g) = Inr (bits', vout', nxt', g') \<Longrightarrow> map to_nValue vout' = map to_nValue vout"
proof -
  assume r: "pack_output e i (bits, vout, nxt, g) = Inr (bits', vout', nxt', g')"
  then obtain n b1 o2 nxt1 g1 where s: "n < length vout"
    "PackDataIntoP2SH e bits (vout ! n) nxt i g = Inr (b1, o2, nxt1, g1)" "vout' = vout[n := o2]"
    by (auto simp: pack_output_def Let_def rbind_eq_Inr vec_at_eq_Inr)
  from PackDataIntoP2SH_value [OF s(2)] show ?thesis using s(1) by (simp add: s(3) map_update list_update_same_conv)
qed

lemma pack_outputs_values:
  "rfold (pack_output e) is (bits, vout, nxt, g) = Inr (bits', vout', nxt', g') \<Longrightarrow> map to_nValue vout' = map to_nValue vout"
proof (induction "is" arbitrary: bits vout nxt g)
  case (Cons i js)
  then obtain b v x h where "pack_output e i (bits, vout, nxt, g) = Inr (b, v, x, h)"
    "rfold (pack_output e) js (b, v, x, h) = Inr (bits', vout', nxt', g')"
    by (auto simp: rbind_eq_Inr)
  with Cons.IH [of b v x h] pack_output_values show ?case by metis
qed simp

lemma pack_output_unpack:
  assumes e: "env_ok e" and g: "keys_ok (ce_ssl e) m g" and bits: "length bits < 2 ^ 31" and i: "i < 2 ^ 32"
    and r: "pack_output e i (bits, vout, nxt, g) = Inr (bits', vout', nxt', g')"
  shows "\<exists>x a o'. i < length (tx_vin nxt) \<and> tx_vin nxt' = (tx_vin nxt)[i := x] \<and> tx_vout nxt' = tx_vout nxt \<and>
    (\<forall>g''. nSuffixBits g'' = Inr (int m) \<longrightarrow> UnpackDataFromP2SH x g'' = Inr a) \<and>
    consumed bits bits' (a @ UnpackDataFromSeqNr x) \<and> ti_prevout x = ti_prevout (tx_vin nxt ! i) \<and>
    length (UnpackDataFromSeqNr x) = 32 \<and> vout' = vout[unat (op_n (ti_prevout (tx_vin nxt ! i))) := o'] \<and>
    unat (op_n (ti_prevout (tx_vin nxt ! i))) < length vout \<and>
    to_scriptPubKey o' = SetDestination (CScriptID (script_GetID (ce_ssl e) (redeemed x))) \<and>
    redeems (ce_ssl e) (b_Store g) (redeemed x) \<and> b_Store g' = AddCScript (ce_ssl e) (redeemed x) (b_Store g) \<and>
    keys_ok (ce_ssl e) m g' \<and> b_Config g' = b_Config g"
proof -
  from r obtain o1 b1 o2 nxt1 x1 where s: "i < length (tx_vin nxt)"
    "unat (op_n (ti_prevout (tx_vin nxt ! i))) < length vout"
    "PackDataIntoP2SH e bits (vout ! unat (op_n (ti_prevout (tx_vin nxt ! i)))) nxt i g = Inr (b1, o2, nxt1, g')"
    "PackDataIntoSeqNr b1 (tx_vin nxt1 ! i) = Inr (bits', x1)"
    "vout' = vout[unat (op_n (ti_prevout (tx_vin nxt ! i))) := o2]" "nxt' = nxt1\<lparr>tx_vin := (tx_vin nxt1)[i := x1]\<rparr>"
    by (auto simp: pack_output_def Let_def rbind_eq_Inr vec_at_eq_Inr)
  from PackDataIntoP2SH_unpack [OF e g bits s(1) i s(3)] obtain S a c where p: "nxt1 = set_scriptSig i S nxt"
    "last_push S [] = c"
    "\<forall>j g''. nSuffixBits g'' = Inr (int m) \<longrightarrow> redeemed j = c \<longrightarrow> UnpackDataFromP2SH j g'' = Inr a"
    "consumed bits b1 a" "keys_ok (ce_ssl e) m g'" "b_Config g' = b_Config g"
    "redeems (ce_ssl e) (b_Store g) c" "b_Store g' = AddCScript (ce_ssl e) c (b_Store g)"
    "to_scriptPubKey o2 = SetDestination (CScriptID (script_GetID (ce_ssl e) c))" by blast
  have "length b1 < 2 ^ 31" using consumed_length [OF p(4)] bits by linarith
  note q = PackDataIntoSeqNr_unpack [OF this s(4)]
  have v: "tx_vin nxt1 = (tx_vin nxt)[i := (tx_vin nxt ! i)\<lparr>ti_scriptSig := S\<rparr>]" "tx_vout nxt1 = tx_vout nxt"
    by (simp_all add: p(1) set_scriptSig_def)
  have "tx_vin nxt' = (tx_vin nxt)[i := x1]" "tx_vout nxt' = tx_vout nxt" by (simp_all add: s(6) v)
  moreover have "ti_scriptSig x1 = S" "ti_prevout x1 = ti_prevout (tx_vin nxt ! i)" using q s(1) by (simp_all add: v)
  moreover have "consumed bits bits' (a @ UnpackDataFromSeqNr x1)" using consumed_trans [OF p(4)] q by blast
  ultimately show ?thesis using p(2,3,5-9) s(1,2,5) q
    by (intro exI [of _ x1] exI [of _ a] exI [of _ o2]) (simp add: redeemed_def)
qed

text \<open>Each output pays to the script that the input claiming it redeems; the scripts are in the key store.\<close>

definition pays :: "openssl \<Rightarrow> CTxOut list \<Rightarrow> CTxIn \<Rightarrow> bool" where
  "pays ssl vout x \<longleftrightarrow> unat (op_n (ti_prevout x)) < length vout \<and>
     to_scriptPubKey (vout ! unat (op_n (ti_prevout x))) = SetDestination (CScriptID (script_GetID ssl (redeemed x)))"

definition unpack_input :: "bms \<Rightarrow> CTxIn \<Rightarrow> databits result" where
  "unpack_input g x = rbind (UnpackDataFromP2SH x g) (\<lambda>a. Inr (a @ UnpackDataFromSeqNr x))"

lemma pack_outputs_unpack:
  assumes e: "env_ok e" and g: "keys_ok (ce_ssl e) m g" and bits: "length bits < 2 ^ 31" and n: "n < 2 ^ 32"
    and r: "rfold (pack_output e) [0..<n] (bits, vout, nxt, g) = Inr (bits', vout', nxt', g')"
  shows "n \<le> length (tx_vin nxt) \<and> length (tx_vin nxt') = length (tx_vin nxt) \<and> tx_vout nxt' = tx_vout nxt \<and>
    map ti_prevout (tx_vin nxt') = map ti_prevout (tx_vin nxt) \<and>
    (\<exists>outs. length outs = n \<and> consumed bits bits' (concat outs) \<and> (\<forall>out \<in> set outs. 32 \<le> length out) \<and>
       (\<forall>j < n. \<forall>g''. nSuffixBits g'' = Inr (int m) \<longrightarrow> unpack_input g'' (tx_vin nxt' ! j) = Inr (outs ! j))) \<and>
    (\<forall>k. (\<forall>j < n. unat (op_n (ti_prevout (tx_vin nxt ! j))) \<noteq> k) \<longrightarrow> vout' ! k = vout ! k) \<and>
    keys_ok (ce_ssl e) m g' \<and> b_Config g' = b_Config g"
  using n r
proof (induction n arbitrary: bits' vout' nxt' g')
  case 0
  then show ?case using g by (auto simp: consumed_refl)
next
  case (Suc n)
  then obtain b1 v1 n1 g1 where s: "rfold (pack_output e) [0..<n] (bits, vout, nxt, g) = Inr (b1, v1, n1, g1)"
    "pack_output e n (b1, v1, n1, g1) = Inr (bits', vout', nxt', g')"
    by (auto simp: rfold_append rbind_eq_Inr)
  have "n < 2 ^ 32" using Suc.prems(1) by simp
  from Suc.IH [OF this s(1)] obtain outs where IH: "n \<le> length (tx_vin nxt)" "length (tx_vin n1) = length (tx_vin nxt)"
    "tx_vout n1 = tx_vout nxt" "map ti_prevout (tx_vin n1) = map ti_prevout (tx_vin nxt)"
    "length outs = n" "consumed bits b1 (concat outs)" "\<forall>out \<in> set outs. 32 \<le> length out"
    "\<forall>j < n. \<forall>g''. nSuffixBits g'' = Inr (int m) \<longrightarrow> unpack_input g'' (tx_vin n1 ! j) = Inr (outs ! j)"
    "\<forall>k. (\<forall>j < n. unat (op_n (ti_prevout (tx_vin nxt ! j))) \<noteq> k) \<longrightarrow> v1 ! k = vout ! k"
    "keys_ok (ce_ssl e) m g1" "b_Config g1 = b_Config g" by blast
  have "length b1 < 2 ^ 31" using consumed_length [OF IH(6)] bits by linarith
  from pack_output_unpack [OF e IH(10) this \<open>n < 2 ^ 32\<close> s(2)] obtain x a o' where p: "n < length (tx_vin n1)"
    "tx_vin nxt' = (tx_vin n1)[n := x]" "tx_vout nxt' = tx_vout n1"
    "\<forall>g''. nSuffixBits g'' = Inr (int m) \<longrightarrow> UnpackDataFromP2SH x g'' = Inr a"
    "consumed b1 bits' (a @ UnpackDataFromSeqNr x)" "ti_prevout x = ti_prevout (tx_vin n1 ! n)" "length (UnpackDataFromSeqNr x) = 32"
    "vout' = v1[unat (op_n (ti_prevout (tx_vin n1 ! n))) := o']" "keys_ok (ce_ssl e) m g'" "b_Config g' = b_Config g1" by blast
  have "ti_prevout (tx_vin n1 ! n) = ti_prevout (tx_vin nxt ! n)"
    using IH(2,4) p(1) by (metis nth_map)
  then have other: "vout' ! k = vout ! k" if "\<forall>j < Suc n. unat (op_n (ti_prevout (tx_vin nxt ! j))) \<noteq> k" for k
    using that IH(9) by (simp add: p(8))
  let ?outs = "outs @ [a @ UnpackDataFromSeqNr x]"
  have "consumed bits bits' (concat ?outs)" using consumed_trans [OF IH(6) p(5)] by simp
  moreover have "unpack_input g'' (tx_vin nxt' ! j) = Inr (?outs ! j)" if "j < Suc n" "nSuffixBits g'' = Inr (int m)" for j g''
    using that p(1,2,4) IH(5,8) by (cases "j = n") (simp_all add: unpack_input_def nth_append)
  moreover have "map ti_prevout (tx_vin nxt') = map ti_prevout (tx_vin n1)"
    using p(1,6) by (simp add: p(2) map_update list_update_same_conv)
  ultimately show ?case using IH p(1-3,5,7,9,10) other by (intro conjI exI [of _ ?outs]) auto
qed

lemma pack_outputs_claims:
  assumes e: "env_ok e" and bits: "length bits < 2 ^ 31"
  shows "keys_ok (ce_ssl e) m g \<Longrightarrow> n < 2 ^ 32 \<Longrightarrow> inj_on (\<lambda>j. unat (op_n (ti_prevout (tx_vin nxt ! j)))) {..<n} \<Longrightarrow>
    rfold (pack_output e) [0..<n] (bits, vout, nxt, g) = Inr (bits', vout', nxt', g') \<Longrightarrow>
    b_Store g' = fold (AddCScript (ce_ssl e)) (map (\<lambda>j. redeemed (tx_vin nxt' ! j)) [0..<n]) (b_Store g) \<and>
    (\<forall>j < n. redeems (ce_ssl e) (b_Store g) (redeemed (tx_vin nxt' ! j)) \<and>
       pays (ce_ssl e) vout' (tx_vin nxt' ! j)) \<and> redeems (ce_ssl e) (b_Store g') = redeems (ce_ssl e) (b_Store g) \<and>
    (list_all txout_ok vout \<longrightarrow> list_all txout_ok vout')"
proof (induction n arbitrary: bits' vout' nxt' g')
  case (Suc n)
  then obtain b1 v1 n1 g1 where s: "rfold (pack_output e) [0..<n] (bits, vout, nxt, g) = Inr (b1, v1, n1, g1)"
    "pack_output e n (b1, v1, n1, g1) = Inr (bits', vout', nxt', g')"
    by (auto simp: rfold_append rbind_eq_Inr)
  let ?N = "\<lambda>j. unat (op_n (ti_prevout (tx_vin nxt ! j)))"
  have n: "n < 2 ^ 32" "inj_on ?N {..<n}" using Suc.prems(2,3) by (auto intro: inj_on_subset)
  note IH = Suc.IH [OF Suc.prems(1) n s(1)]
  note old = pack_outputs_unpack [OF e Suc.prems(1) bits n(1) s(1)]
  obtain outs where o3: "consumed bits b1 (concat outs)" "keys_ok (ce_ssl e) m g1" "length (tx_vin n1) = length (tx_vin nxt)"
    "map ti_prevout (tx_vin n1) = map ti_prevout (tx_vin nxt)" "n \<le> length (tx_vin nxt)"
    using old by blast
  have "length b1 < 2 ^ 31" using consumed_length [OF o3(1)] bits by linarith
  from pack_output_unpack [OF e o3(2) this n(1) s(2)] obtain x o' where p: "n < length (tx_vin n1)"
    "tx_vin nxt' = (tx_vin n1)[n := x]" "ti_prevout x = ti_prevout (tx_vin n1 ! n)"
    "vout' = v1[unat (op_n (ti_prevout (tx_vin n1 ! n))) := o']"
    "unat (op_n (ti_prevout (tx_vin n1 ! n))) < length v1"
    "to_scriptPubKey o' = SetDestination (CScriptID (script_GetID (ce_ssl e) (redeemed x)))"
    "redeems (ce_ssl e) (b_Store g1) (redeemed x)" "b_Store g' = AddCScript (ce_ssl e) (redeemed x) (b_Store g1)" by blast
  have prev: "ti_prevout (tx_vin n1 ! j) = ti_prevout (tx_vin nxt ! j)" if "j \<le> n" for j
    using o3(3,4) p(1) that by (metis nth_map order_le_less_trans)
  have new: "pays (ce_ssl e) vout' x" using p(3-6) by (simp add: pays_def)
  have pays: "pays (ce_ssl e) vout' (tx_vin nxt' ! j)" if j: "j < Suc n" for j
  proof (cases "j = n")
    case True
    then show ?thesis using new p(1) by (simp add: p(2))
  next
    case False
    then have "?N j \<noteq> ?N n" using Suc.prems(3) j by (auto dest: inj_onD)
    moreover have "tx_vin nxt' ! j = tx_vin n1 ! j" using False by (simp add: p(2))
    moreover have "pays (ce_ssl e) v1 (tx_vin n1 ! j)" using IH j False by simp
    ultimately show ?thesis using prev [of j] prev [of n] j by (simp add: pays_def p(4))
  qed
  have "b_Store g' = fold (AddCScript (ce_ssl e)) (map (\<lambda>j. redeemed (tx_vin nxt' ! j)) [0..<Suc n]) (b_Store g)"
  proof -
    have "map (\<lambda>j. redeemed (tx_vin nxt' ! j)) [0..<n] = map (\<lambda>j. redeemed (tx_vin n1 ! j)) [0..<n]" by (simp add: p(2))
    moreover have "tx_vin nxt' ! n = x" using p(1) by (simp add: p(2))
    ultimately show ?thesis using IH p(8) by (simp del: map_eq_conv)
  qed
  moreover have "list_all txout_ok v1 \<longrightarrow> list_all txout_ok vout'"
  proof -
    have "length (script_GetID (ce_ssl e) c) = 5" for c
      using e length_Hash160 [of "ce_ssl e"] by (simp add: env_ok_def openssl_ok_def script_GetID_def)
    then have "txout_ok o'" by (simp add: p(6) txout_ok_def push_uint160_def push_opcode_def MAX_SIZE_def)
    then show ?thesis by (auto simp: p(4) list_all_iff dest: set_update_subset_insert [THEN subsetD])
  qed
  moreover have "redeems (ce_ssl e) (b_Store g) (redeemed (tx_vin nxt' ! j))" if "j < Suc n" for j
    using that IH p(1,7) by (cases "j = n") (auto simp: p(2))
  moreover have "redeems (ce_ssl e) (b_Store g') = redeems (ce_ssl e) (b_Store g)"
  proof -
    have "redeems (ce_ssl e) (b_Store g1) = redeems (ce_ssl e) (b_Store g)" using IH by blast
    then show ?thesis by (simp only: p(8) AddCScript_keys)
  qed
  ultimately show ?case using IH pays by blast
qed simp

lemma unpack_inputs:
  assumes "\<And>j. j < n \<Longrightarrow> unpack_input g (vin ! j) = Inr (outs ! j)" "n \<le> length vin" "length outs = n"
  shows "rfold (\<lambda>j bits. rbind (vec_at vin j) (\<lambda>txIn. rbind (UnpackDataFromP2SH txIn g) (\<lambda>slice.
      Inr (bits @ slice @ UnpackDataFromSeqNr txIn)))) [0..<n] b = Inr (b @ concat outs)"
proof -
  have "rfold (\<lambda>j bits. rbind (vec_at vin j) (\<lambda>txIn. rbind (UnpackDataFromP2SH txIn g) (\<lambda>slice.
      Inr (bits @ slice @ UnpackDataFromSeqNr txIn)))) [0..<k] b = Inr (b @ concat (take k outs))" if "k \<le> n" for k
    using that
  proof (induction k)
    case (Suc k)
    obtain a where "UnpackDataFromP2SH (vin ! k) g = Inr a" "outs ! k = a @ UnpackDataFromSeqNr (vin ! k)"
      using assms(1) [of k] Suc.prems by (auto simp: unpack_input_def rbind_eq_Inr)
    then show ?case using Suc assms(2,3) by (simp add: rfold_append take_Suc_conv_app_nth)
  qed simp
  from this [of n] assms(3) show ?thesis by simp
qed

section \<open>The split of the budget and the order of the claims\<close>

lemma rmap_nth: "rmap f xs = Inr ys \<Longrightarrow> length ys = length xs \<and> (\<forall>i < length xs. f (xs ! i) = Inr (ys ! i))"
proof (induction xs arbitrary: ys)
  case (Cons x xs)
  then obtain y zs where "f x = Inr y" "rmap f xs = Inr zs" "ys = y # zs" by (auto simp: rbind_eq_Inr)
  with Cons.IH [of zs] show ?case by (auto simp: less_Suc_eq_0_disj)
qed simp

lemma min_slice:
  assumes "length bits < 2 ^ 31" "SliceBits bits (min M (of_nat (length bits))) = Inr (s, r)"
  shows "length (PadBits s (M - min M (of_nat (length bits)))) = unat M \<and>
    consumed bits r (PadBits s (M - min M (of_nat (length bits))))"
proof -
  let ?n = "min M (of_nat (length bits))"
  have u: "unat (of_nat (length bits) :: u32) = length bits" using assms(1) by (simp add: unat_of_nat)
  then have n: "unat ?n = min (unat M) (length bits)" by (simp add: min_def word_le_nat_alt)
  have p: "unat (M - ?n) = unat M - min (unat M) (length bits)" by (subst unat_sub) (simp_all add: n)
  have s: "s = take (min (unat M) (length bits)) bits" "r = drop (min (unat M) (length bits)) bits"
    using assms(2) n by (auto simp: SliceBits_eq_Inr)
  have "length (PadBits s (M - ?n)) = unat M" using p by (auto simp: s(1))
  moreover have "consumed bits r (PadBits s (M - ?n))"
    unfolding consumed_def PadBits_def p
  proof (intro exI [of _ "unat M - min (unat M) (length bits)"] conjI)
    show "bits @ replicate (unat M - min (unat M) (length bits)) False =
        (s @ replicate (unat M - min (unat M) (length bits)) False) @ r"
      by (cases "unat M \<le> length bits") (simp_all add: s min_def)
    show "unat M - min (unat M) (length bits) = 0 \<or> r = []" by (auto simp: s(2) min_def)
  qed
  ultimately show ?thesis by blast
qed

lemma small_sizes:
  assumes "n \<le> 14"
  shows "unat (ucast (of_nat n :: u32) :: u16) = n" "unat (ucast (of_nat n :: u32) :: u64) = n" "(ucast (of_nat n :: u32) :: u16) = of_nat n"
proof -
  have "n \<in> set [0..<15]" using assms by (simp add: less_Suc_eq_le)
  moreover have "list_all (\<lambda>n. unat (ucast (of_nat n :: u32) :: u16) = n \<and> unat (ucast (of_nat n :: u32) :: u64) = n \<and>
     (ucast (of_nat n :: u32) :: u16) = of_nat n) [0..<15]" by code_simp
  ultimately show "unat (ucast (of_nat n :: u32) :: u16) = n" "unat (ucast (of_nat n :: u32) :: u64) = n"
    "(ucast (of_nat n :: u32) :: u16) = of_nat n" unfolding list_all_iff by blast+
qed

lemma PackDataIntoBudgetSplit_unpack:
  assumes e: "env_ok e" and bits: "length bits < 2 ^ 31" and n: "2 \<le> length vout" "length vout \<le> 14"
    and budget: "unat budget < 2 ^ 62" and r: "PackDataIntoBudgetSplit e bits vout budget lbound = Inr (bits', vout')"
  shows "\<exists>out. UnpackDataFromBudgetSplit e vout' lbound = Inr out \<and> consumed bits bits' out \<and> length vout' = length vout"
proof -
  let ?k = "ucast (of_nat (length vout) :: u32) :: u16"
  let ?rest = "budget - ucast (of_nat (length vout) :: u32) * lbound"
  obtain M s vals where s: "EmbeddableBitsInValues (ce_lg e) ?rest ?k = Inr M"
    "ucast (of_nat (length vout) :: u32) * lbound \<le> budget"
    "SliceBits bits (min M (of_nat (length bits))) = Inr (s, bits')"
    "EncodeDataInValues (ce_lg e) (ce_root e) (PadBits s (M - min M (of_nat (length bits)))) ?rest ?k = Inr vals"
    "rmap (\<lambda>i. rbind (vec_at vals i) (\<lambda>v. Inr ((vout ! i)\<lparr>to_nValue := v + lbound\<rparr>))) [0..<length vout] = Inr vout'"
    using r by (auto simp: PackDataIntoBudgetSplit_def Let_def rbind_eq_Inr rassert_eq_Inr)
  let ?slice = "PadBits s (M - min M (of_nat (length bits)))"
  have sl: "length ?slice = unat M" "consumed bits bits' ?slice" using min_slice [OF bits s(3)] by simp_all
  have "?slice \<noteq> []" using s(4) by (auto simp: EncodeDataInValues_def DataBitsToInt_def rbind_eq_Inr)
  moreover have "unat ?rest < 2 ^ 62" using budget by (simp add: unat_sub [OF s(2)])
  moreover have "2 \<le> unat ?k" using n small_sizes(1) [OF n(2)] by simp
  ultimately obtain c where c: "is_composition ?rest ?k vals" "DecodeDataInValues (ce_lg e) vals = Inr ?slice"
    using EncodeDataInValues_ok [of "ce_lg e" "ce_root e" ?k ?rest M ?slice] e s(1,4) sl(1) by (auto simp: env_ok_def)
  have v: "length vout' = length vout" "\<forall>i < length vout. i < length vals \<and> vout' ! i = (vout ! i)\<lparr>to_nValue := vals ! i + lbound\<rparr>"
    using rmap_nth [OF s(5)] by (auto simp: rbind_eq_Inr vec_at_eq_Inr)
  have "length vals = length vout" using c(1) small_sizes(1) [OF n(2)] by (simp add: is_composition_def)
  then have "map (\<lambda>txOut. to_nValue txOut - lbound) vout' = vals"
    using v by (intro nth_equalityI) simp_all
  then show ?thesis using c(2) sl(2) v(1) by (simp add: UnpackDataFromBudgetSplit_def)
qed

lemma PackDataIntoBudgetClaim_unpack:
  assumes e: "env_ok e" and bits: "length bits < 2 ^ 31" and n: "2 \<le> length vin" "length vin \<le> 14"
    and r: "PackDataIntoBudgetClaim e bits vin = Inr (bits', vin')"
  shows "\<exists>out. (\<forall>vin''. map ti_prevout vin'' = map ti_prevout vin' \<longrightarrow> UnpackDataFromBudgetClaim e vin'' = Inr out) \<and>
    consumed bits bits' out \<and> length vin' = length vin \<and> (\<forall>x \<in> set vin'. unat (op_n (ti_prevout x)) < length vin) \<and>
    distinct (map (\<lambda>x. unat (op_n (ti_prevout x))) vin')"
proof -
  let ?k = "ucast (of_nat (length vin) :: u32) :: u16"
  let ?M = "EmbeddableBitsInPermutation (ce_lg e) ?k"
  obtain s perm where s: "SliceBits bits (min ?M (of_nat (length bits))) = Inr (s, bits')"
    "EncodeDataInPermutation (ce_lg e) (PadBits s (?M - min ?M (of_nat (length bits)))) ?k = Inr perm"
    "rmap (\<lambda>i. rbind (vec_at perm i) (\<lambda>p. Inr (set_n (ucast p) (vin ! i)))) [0..<length vin] = Inr vin'"
    using r by (auto simp: PackDataIntoBudgetClaim_def Let_def rbind_eq_Inr)
  let ?slice = "PadBits s (?M - min ?M (of_nat (length bits)))"
  have sl: "length ?slice = unat ?M" "consumed bits bits' ?slice" using min_slice [OF bits s(1)] by simp_all
  have "?slice \<noteq> []" using s(2) by (auto simp: EncodeDataInPermutation_def DataBitsToInt_def rbind_eq_Inr Let_def)
  moreover have "2 \<le> unat ?k" using n small_sizes(1) [OF n(2)] by simp
  ultimately have c: "is_permutation ?k perm" "DecodeDataInPermutation (ce_lg e) perm = Inr ?slice"
    using EncodeDataInPermutation_ok [of "ce_lg e" ?k ?slice] e s(2) sl(1) by (auto simp: env_ok_def)
  have v: "length vin' = length vin" "\<forall>i < length vin. i < length perm \<and> vin' ! i = set_n (ucast (perm ! i)) (vin ! i)"
    using rmap_nth [OF s(3)] by (auto simp: rbind_eq_Inr vec_at_eq_Inr)
  have len: "length perm = length vin" using c(1) small_sizes(1) [OF n(2)] by (simp add: is_permutation_def)
  have "UnpackDataFromBudgetClaim e vin'' = Inr ?slice" if "map ti_prevout vin'' = map ti_prevout vin'" for vin''
  proof -
    have "map (\<lambda>p. ucast (op_n p)) (map ti_prevout vin'') = map (\<lambda>p. ucast (op_n p)) (map ti_prevout vin')"
      by (simp only: that)
    then have "map (\<lambda>x. ucast (op_n (ti_prevout x))) vin'' = (map (\<lambda>x. ucast (op_n (ti_prevout x))) vin' :: u16 list)"
      by (simp add: comp_def)
    also have "\<dots> = perm"
    proof (intro nth_equalityI)
      fix i assume "i < length (map (\<lambda>x. ucast (op_n (ti_prevout x)) :: u16) vin')"
      moreover have "ucast (ucast p :: u32) = p" for p :: u16
        by (rule bit_word_eqI) (simp add: bit_simps)
      ultimately show "map (\<lambda>x. ucast (op_n (ti_prevout x))) vin' ! i = perm ! i" using v by (simp add: set_n_def)
    qed (simp add: v(1) len)
    finally show ?thesis using c(2) by (simp add: UnpackDataFromBudgetClaim_def)
  qed
  moreover have "unat (op_n (ti_prevout x)) < length vin" if x: "x \<in> set vin'" for x
  proof -
    obtain i where i: "i < length vin" "x = vin' ! i" using x v(1) by (metis in_set_conv_nth)
    have "perm ! i \<in> set perm" using v(2) i(1) by simp
    then obtain j where j: "j < length vin" "perm ! i = of_nat j"
      using c(1) small_sizes(1) [OF n(2)] by (auto simp: is_permutation_def)
    have "unat (of_nat j :: u16) = j" using j(1) n(2) by (simp add: unat_of_nat)
    then show ?thesis using v(2) i j by (simp add: set_n_def unat_ucast_up)
  qed
  moreover have "distinct (map (\<lambda>x. unat (op_n (ti_prevout x))) vin')"
  proof -
    have "map (\<lambda>x. unat (op_n (ti_prevout x))) vin' = map unat perm"
      using v len by (intro nth_equalityI) (simp_all add: set_n_def unat_ucast_up)
    moreover have "distinct perm" using c(1) by (simp add: is_permutation_def)
    ultimately show ?thesis by (simp add: distinct_map inj_on_def word_unat_eq_iff)
  qed
  ultimately show ?thesis using sl(2) v(1) by (intro exI [of _ ?slice]) simp
qed

section \<open>One round\<close>

definition counts_ok :: "Parameters \<Rightarrow> bool" where
  "counts_ok p \<longleftrightarrow> 1 \<le> p_nScriptHash p \<and> p_nScriptHash p \<le> 14 \<and> p_nNulldata p \<le> 1 \<and>
     (2 \<le> p_nScriptHash p \<longrightarrow> p_nNulldata p = 1)"

lemma OptimizeParams_loop_counts:
  "OptimizeParams_loop e g tx bits nBudget a b k p = Inr q \<Longrightarrow> k \<le> 14 \<Longrightarrow> k = 14 \<or> counts_ok p \<Longrightarrow> counts_ok q"
proof (induction k arbitrary: p)
  case (Suc j)
  define T where "T = (of_nat (Suc j) * (a + 11 * b) + of_nat (Suc j) * 32 :: u32)"
  define N :: nat where "N = (if (Suc j = 1 \<and> length bits > unat T) \<or> Suc j \<ge> 2 then 1 else 0)"
  have N: "N \<le> 1" "2 \<le> Suc j \<Longrightarrow> N = 1" by (auto simp: N_def)
  from Suc.prems(1) obtain nFees and nTotal :: u32 where r: "(let enough = unat nTotal \<ge> length bits;
       params = (if enough \<or> Suc j = 14 then \<lparr>p_nScriptHash = Suc j, p_nNulldata = N, p_nFees = nFees\<rparr> else p)
     in if enough then OptimizeParams_loop e g tx bits nBudget a b j params else Inr params) = Inr q"
    unfolding OptimizeParams_loop.simps T_def [symmetric] Let_def [of "Suc j"] Let_def [of T] N_def [symmetric] Let_def [of N]
      Let_def [of "(_ :: CTxOut list)"] Let_def [of "(_ :: u32)"] rbind_eq_Inr by blast
  define p' where "p' = (if unat nTotal \<ge> length bits \<or> Suc j = 14
      then \<lparr>p_nScriptHash = Suc j, p_nNulldata = N, p_nFees = nFees\<rparr> else p)"
  have "counts_ok p'" using N Suc.prems(2,3) by (auto simp: p'_def counts_ok_def)
  moreover have "(if unat nTotal \<ge> length bits then OptimizeParams_loop e g tx bits nBudget a b j p' else Inr p') = Inr q"
    using r by (simp only: Let_def p'_def)
  ultimately show ?case using Suc.IH [of p'] Suc.prems(2) by (cases "unat nTotal \<ge> length bits") auto
qed (simp add: counts_ok_def)

lemma OptimizeParams_counts:
  "OptimizeParams e g tx bits nBudget p = Inr q \<Longrightarrow> bits \<noteq> [] \<Longrightarrow> counts_ok q"
  by (auto simp: OptimizeParams_def rbind_eq_Inr intro: OptimizeParams_loop_counts)

lemma OptimizeParams_Nil:
  "OptimizeParams e g tx [] nBudget p = Inr q \<Longrightarrow> p_nScriptHash q = 0 \<and> p_nNulldata q = 0"
  by (auto simp: OptimizeParams_def rbind_eq_Inr)

lemma add_script_hash_step:
  "add_script_hash i (a, b) = (vout, vin) \<Longrightarrow> vout = null_txout # a \<and> length vin = Suc (length b)"
  by (auto simp: add_script_hash_def Let_def simp del: list_update.simps)

lemma add_script_hashes:
  "fold add_script_hash [0..<n] ([], []) = (vout, vin) \<Longrightarrow>
    vout = replicate n null_txout \<and> length vin = n"
proof (induction n arbitrary: vout vin)
  case (Suc n)
  obtain a b where "fold add_script_hash [0..<n] ([], []) = (a, b)" by fastforce
  with Suc.IH [OF this] Suc.prems add_script_hash_step [of n a b vout vin] show ?case by simp
qed simp

lemma MoneyRange_bound: "MoneyRange v \<Longrightarrow> unat v < 2 ^ 62"
proof -
  assume "MoneyRange v"
  then have s: "0 \<le> sint v" "sint v \<le> 21 * 10 ^ 14" by (simp_all add: MoneyRange_def MAX_MONEY_def COIN_def)
  have "uint v = take_bit 64 (sint v)" using uint_sint [of v] by simp
  also have "\<dots> = sint v" using s by (intro take_bit_int_eq_self) simp_all
  finally have "uint v < 2 ^ 62" using s by simp
  then show ?thesis by (simp only: unat_eq_nat_uint nat_less_iff [OF uint_ge_0]) simp
qed

lemma unpack_split_cong:
  "map to_nValue a = map to_nValue b \<Longrightarrow> UnpackDataFromBudgetSplit e a l = UnpackDataFromBudgetSplit e b l"
proof -
  assume "map to_nValue a = map to_nValue b"
  then have "map (\<lambda>v. v - l) (map to_nValue a) = map (\<lambda>v. v - l) (map to_nValue b)" by simp
  then show ?thesis by (simp add: UnpackDataFromBudgetSplit_def comp_def)
qed

lemma pack_values_unpack:
  assumes e: "env_ok e" and bits: "length bits < 2 ^ 31" and n: "1 \<le> n" "n \<le> 14"
    and l: "vout = replicate n null_txout" "length vin = n" and budget: "unat nBudget < 2 ^ 62"
    and r: "pack_values e bits vout vin nBudget nFees = Inr (bits', vout', vin')"
    and money: "\<forall>v \<in> set (map to_nValue vout'). MoneyRange v"
  shows "\<exists>out. (\<forall>vout'' vin''. map to_nValue vout'' = map to_nValue vout' \<longrightarrow> map ti_prevout vin'' = map ti_prevout vin' \<longrightarrow>
      (if n \<ge> 2 then rbind (UnpackDataFromBudgetSplit e vout'' 546) (\<lambda>a.
                      rbind (UnpackDataFromBudgetClaim e vin'') (\<lambda>b. Inr (a @ b)))
       else Inr []) = Inr out) \<and> consumed bits bits' out \<and> length vout' = n \<and> length vin' = n \<and> unat (nBudget - nFees) < 2 ^ 62 \<and>
    (\<forall>x \<in> set vin'. unat (op_n (ti_prevout x)) < n) \<and> distinct (map (\<lambda>x. unat (op_n (ti_prevout x))) vin')"
proof (cases "n = 1")
  case True
  then obtain x where "vin = [x]" using l(2) by (metis One_nat_def Suc_length_conv length_0_conv)
  with True r have "bits' = bits" "vout' = [null_txout\<lparr>to_nValue := nBudget - nFees\<rparr>]" "vin' = [set_n 0 x]"
    by (auto simp: pack_values_def l(1))
  moreover from this money MoneyRange_bound have "unat (nBudget - nFees) < 2 ^ 62" by simp
  ultimately show ?thesis using True by (auto simp: consumed_refl set_n_def)
next
  case False
  then have n2: "2 \<le> n" "length vout = n" using n l(1) by simp_all
  have skip: "nFees \<le> nBudget"
  proof (rule ccontr)
    assume "\<not> nFees \<le> nBudget"
    with r n2 have "vout' = vout" by (auto simp: pack_values_def rbind_eq_Inr)
    then have "- 1 \<in> set (map to_nValue vout')" using n by (simp add: l(1) null_txout_def)
    with money have "MoneyRange (- 1)" by blast
    then show False by (simp add: MoneyRange_def)
  qed
  then obtain b1 where s: "PackDataIntoBudgetSplit e bits vout (nBudget - nFees) 546 = Inr (b1, vout')"
    "PackDataIntoBudgetClaim e b1 vin = Inr (bits', vin')"
    using r n2 by (auto simp: pack_values_def rbind_eq_Inr)
  have b: "unat (nBudget - nFees) < 2 ^ 62" using budget by (simp add: unat_sub [OF skip])
  from PackDataIntoBudgetSplit_unpack [OF e bits _ _ b s(1)] n2 n(2) obtain o1 where o1:
    "UnpackDataFromBudgetSplit e vout' 546 = Inr o1" "consumed bits b1 o1" "length vout' = length vout" by auto
  have "length b1 < 2 ^ 31" using consumed_length [OF o1(2)] bits by linarith
  from PackDataIntoBudgetClaim_unpack [OF e this _ _ s(2)] n2 n(2) l(2) obtain o2 where o2:
    "\<forall>vin''. map ti_prevout vin'' = map ti_prevout vin' \<longrightarrow> UnpackDataFromBudgetClaim e vin'' = Inr o2"
    "consumed b1 bits' o2" "length vin' = length vin" "\<forall>x \<in> set vin'. unat (op_n (ti_prevout x)) < n"
    "distinct (map (\<lambda>x. unat (op_n (ti_prevout x))) vin')" by auto
  have "UnpackDataFromBudgetSplit e vout'' 546 = Inr o1" if "map to_nValue vout'' = map to_nValue vout'" for vout''
    using unpack_split_cong [OF that] o1(1) by simp
  then show ?thesis using o2 o1(3) n2 l(2) b consumed_trans [OF o1(2) o2(2)] by (intro exI [of _ "o1 @ o2"]) auto
qed

lemma embed_round_parts:
  assumes fresh: "tx_vout cur = []" "tx_vin nxt = []"
    and r: "embed_round e cur nxt bits nBudget params g = Inr (cur', nxt', bits', nBudget', params', g')"
  obtains vin0 b1 vout1 vin1 b2 vout2 vout3 where
    "OptimizeParams e g cur bits nBudget params = Inr params'"
    "pack_values e bits (replicate (p_nScriptHash params') null_txout) vin0 nBudget (p_nFees params') = Inr (b1, vout1, vin1)"
    "(if p_nNulldata params' \<noteq> 0 then
        rbind (PackDataIntoNulldata b1 null_txout) (\<lambda>(bits, txOut). Inr (bits, vout1 @ [txOut]))
      else Inr (b1, vout1)) = Inr (b2, vout2)"
    "rfold (pack_output e) [0..<p_nScriptHash params'] (b2, vout2, nxt\<lparr>tx_vin := vin1\<rparr>, g) = Inr (bits', vout3, nxt', g')"
    "cur' = cur\<lparr>tx_vout := vout3\<rparr>" "nBudget' = nBudget - p_nFees params'" "length vin0 = p_nScriptHash params'"
proof -
  obtain p where p: "OptimizeParams e g cur bits nBudget params = Inr p" using r by (auto simp: embed_round_def rbind_eq_Inr)
  obtain vout0 vin0 where f': "fold add_script_hash [0..<p_nScriptHash p] ([], []) = (vout0, vin0)" by fastforce
  have p': "params' = p" using r p f' fresh by (auto simp: embed_round_def Let_def rbind_eq_Inr)
  note l = add_script_hashes [OF f' [folded p']]
  from r p f' fresh that l show thesis
    unfolding embed_round_def Let_def p' by (auto simp: rbind_eq_Inr)
qed

text \<open>What the next pair of transactions gives back depends on the outputs of the one and the inputs of the other.\<close>

lemma embed_round_extract:
  assumes e: "env_ok e" and g: "keys_ok (ce_ssl e) m g" and bits: "length bits < 2 ^ 31" and budget: "unat nBudget < 2 ^ 62"
    and fresh: "tx_vout cur = []" "tx_vin nxt = []"
    and r: "embed_round e cur nxt bits nBudget params g = Inr (cur', nxt', bits', nBudget', params', g')"
    and money: "\<forall>o' \<in> set (tx_vout cur'). MoneyRange (to_nValue o')"
  shows "\<exists>out. (\<forall>g'' cur'' nxt''. nSuffixBits g'' = Inr (int m) \<longrightarrow> tx_vout cur'' = tx_vout cur' \<longrightarrow> tx_vin nxt'' = tx_vin nxt' \<longrightarrow>
      extract_pair e g'' cur'' nxt'' = Inr out) \<and> consumed bits bits' out \<and> (bits \<noteq> [] \<longrightarrow> 32 \<le> length out) \<and>
    tx_vin cur' = tx_vin cur \<and> tx_vout nxt' = tx_vout nxt \<and> keys_ok (ce_ssl e) m g' \<and> b_Config g' = b_Config g \<and>
    (bits \<noteq> [] \<longrightarrow> unat nBudget' < 2 ^ 62)"
proof -
  obtain vin0 b1 vout1 vin1 b2 vout2 vout3 where s:
    "OptimizeParams e g cur bits nBudget params = Inr params'"
    "pack_values e bits (replicate (p_nScriptHash params') null_txout) vin0 nBudget (p_nFees params') = Inr (b1, vout1, vin1)"
    "(if p_nNulldata params' \<noteq> 0 then
        rbind (PackDataIntoNulldata b1 null_txout) (\<lambda>(bits, txOut). Inr (bits, vout1 @ [txOut]))
      else Inr (b1, vout1)) = Inr (b2, vout2)"
    "rfold (pack_output e) [0..<p_nScriptHash params'] (b2, vout2, nxt\<lparr>tx_vin := vin1\<rparr>, g) = Inr (bits', vout3, nxt', g')"
    "cur' = cur\<lparr>tx_vout := vout3\<rparr>" "nBudget' = nBudget - p_nFees params'" "length vin0 = p_nScriptHash params'"
    by (rule embed_round_parts [OF fresh r])
  show ?thesis
  proof (cases "bits = []")
    case True
    with s(1) have n: "p_nScriptHash params' = 0" "p_nNulldata params' = 0" using OptimizeParams_Nil by blast+
    with s(2,7) have "b1 = bits" "vout1 = []" "vin1 = []" by (auto simp: pack_values_def)
    with s(3,4) n True have "bits' = []" "vout3 = []" "nxt' = nxt\<lparr>tx_vin := []\<rparr>" "g' = g" by auto
    with True g s(5) show ?thesis by (auto simp: extract_pair_def consumed_refl intro!: exI [of _ "[]"])
  next
    case False
    define n where "n = p_nScriptHash params'"
    have n: "1 \<le> n" "n \<le> 14" "p_nNulldata params' \<le> 1" "2 \<le> n \<longrightarrow> p_nNulldata params' = 1"
      using OptimizeParams_counts [OF s(1) False] by (simp_all add: counts_ok_def n_def)
    have n32: "n < 2 ^ 32" using n(2) by simp
    have l': "length vin0 = n" using s(7) by (simp add: n_def)
    let ?null = "p_nNulldata params' \<noteq> 0"
    \<comment> \<open>the values of the outputs do not change any more\<close>
    obtain tail where tail: "vout2 = vout1 @ tail" "length tail = (if ?null then 1 else 0)"
      using s(3) by (cases ?null) (auto simp: rbind_eq_Inr)
    have vals: "map to_nValue vout3 = map to_nValue vout2" by (rule pack_outputs_values [OF s(4)])
    have money1: "\<forall>v \<in> set (map to_nValue vout1). MoneyRange v"
    proof -
      have "set (map to_nValue vout1) \<subseteq> set (map to_nValue vout3)" by (simp only: vals tail(1)) auto
      then show ?thesis using money by (auto simp: s(5))
    qed
    from pack_values_unpack [OF e bits n(1,2) refl l' budget s(2) [folded n_def] money1] obtain o1 where o1:
      "\<forall>vout'' vin''. map to_nValue vout'' = map to_nValue vout1 \<longrightarrow> map ti_prevout vin'' = map ti_prevout vin1 \<longrightarrow>
        (if n \<ge> 2 then rbind (UnpackDataFromBudgetSplit e vout'' 546) (\<lambda>a.
                        rbind (UnpackDataFromBudgetClaim e vin'') (\<lambda>b. Inr (a @ b)))
         else Inr []) = Inr o1"
      "consumed bits b1 o1" "length vout1 = n" "length vin1 = n" "unat nBudget' < 2 ^ 62"
      "\<forall>x \<in> set vin1. unat (op_n (ti_prevout x)) < n" unfolding s(6) by blast
    have b1: "length b1 < 2 ^ 31" using consumed_length [OF o1(2)] bits by linarith
    obtain o2 where o2: "consumed b1 b2 o2"
      "?null \<longrightarrow> (\<exists>t. tail = [t] \<and> UnpackDataFromNulldata t = Inr o2)" "\<not> ?null \<longrightarrow> o2 = []"
    proof (cases ?null)
      case True
      then obtain t where t: "PackDataIntoNulldata b1 null_txout = Inr (b2, t)" "tail = [t]"
        using s(3) tail(1) by (auto simp: rbind_eq_Inr)
      from PackDataIntoNulldata_unpack [OF b1 t(1)] t(2) True that show thesis by blast
    next
      case False
      with s(3) show thesis by (intro that [of "[]"]) (simp_all add: consumed_refl)
    qed
    have b2: "length b2 < 2 ^ 31" using consumed_length [OF o2(1)] b1 by linarith
    from pack_outputs_unpack [OF e g b2 n32 s(4) [folded n_def]] obtain outs where o3:
      "length (tx_vin nxt') = n" "tx_vout nxt' = tx_vout nxt" "map ti_prevout (tx_vin nxt') = map ti_prevout vin1"
      "length outs = n" "consumed b2 bits' (concat outs)" "\<forall>out \<in> set outs. 32 \<le> length out"
      "\<forall>j < n. \<forall>g''. nSuffixBits g'' = Inr (int m) \<longrightarrow> unpack_input g'' (tx_vin nxt' ! j) = Inr (outs ! j)"
      "\<forall>k. (\<forall>j < n. unat (op_n (ti_prevout (vin1 ! j))) \<noteq> k) \<longrightarrow> vout3 ! k = vout2 ! k"
      "keys_ok (ce_ssl e) m g'" "b_Config g' = b_Config g"
      using o1(4) by auto
    let ?out = "o1 @ o2 @ concat outs"
    have "consumed bits bits' ?out" using consumed_trans [OF o1(2) consumed_trans [OF o2(1) o3(5)]] .
    moreover have "32 \<le> length ?out" using o3(4,6) n(1) by (cases outs) auto
    moreover have "extract_pair e g'' cur'' nxt'' = Inr ?out"
      if h: "nSuffixBits g'' = Inr (int m)" "tx_vout cur'' = tx_vout cur'" "tx_vin nxt'' = tx_vin nxt'" for g'' cur'' nxt''
    proof -
      have len: "length vout3 = n + length tail" using vals tail(1) o1(3) by (metis length_append length_map)
      have null: "length vout3 \<ge> 2 \<longleftrightarrow> ?null" using len tail(2) n(1,3,4) by auto
      have v: "map to_nValue (take n vout3) = map to_nValue vout1" "map ti_prevout (tx_vin nxt') = map ti_prevout vin1"
        using vals tail(1) o1(3) o3(3) by (simp_all flip: take_map)
      note sp = o1(1) [rule_format, OF v]
      have inp: "rfold (\<lambda>j bits. rbind (vec_at (tx_vin nxt') j) (\<lambda>txIn. rbind (UnpackDataFromP2SH txIn g'') (\<lambda>slice.
          Inr (bits @ slice @ UnpackDataFromSeqNr txIn)))) [0..<n] b = Inr (b @ concat outs)" for b
        using o3(1,4,7) h(1) by (intro unpack_inputs) simp_all
      show ?thesis
      proof (cases ?null)
        case True
        then obtain t where t: "tail = [t]" "UnpackDataFromNulldata t = Inr o2" using o2(2) by blast
        have "vout3 ! n = vout2 ! n"
          using o3(8) o1(4,6) by (metis nth_mem order_less_irrefl)
        then have "last vout3 = t" using len t(1) tail(1) o1(3) by (simp add: last_conv_nth nth_append flip: length_0_conv)
        moreover have "butlast vout3 = take n vout3" using len t(1) by (simp add: butlast_conv_take)
        moreover have "length vout3 = Suc n" using len t(1) by simp
        ultimately show ?thesis
          using null True sp inp t(2) h(2,3) s(5) by (cases "n \<ge> 2") (auto simp: extract_pair_def)
      next
        case False
        then have "length vout3 = n" "take n vout3 = vout3" "o2 = []" "n = 1"
          using len tail(2) o2(3) n(1,4) by auto
        then show ?thesis using null False sp inp [of "[]"] h(2,3) s(5) by (auto simp: extract_pair_def)
      qed
    qed
    ultimately show ?thesis using o1(5) o3(2,9,10) by (intro exI [of _ ?out]) (simp add: s(5))
  qed
qed

section \<open>The loop ends\<close>

text \<open>Whatever the state, a round that does not fail uses up bits.\<close>

lemma nSuffixBits_range: "nSuffixBits g = Inr v \<Longrightarrow> - (2 ^ 31) \<le> v \<and> v < 2 ^ 31"
  by (auto simp: nSuffixBits_def stoi_def rbind_eq_Inr split: option.splits if_splits)

lemma PackDataIntoP2SH_shrinks:
  assumes "length bits < 2 ^ 31" "PackDataIntoP2SH e bits txOut tx i g = Inr (bits', txOut', tx', g')"
  shows "length bits' \<le> length bits"
proof -
  from assms(2) obtain v s b k pks draws where s: "nSuffixBits g = Inr v"
    "SliceBits (PadBits bits (of_int (v - min v (int_of_size (length bits))))) (of_int v) = Inr (s, b)"
    "PackP2SH_keys (ce_ssl e) k b (b_draws g) = Inr (pks, bits', draws)"
    by (auto simp: PackDataIntoP2SH_def Let_def rbind_eq_Inr simp del: of_int_diff dest!: sign_case)
  have v: "- (2 ^ 31) \<le> v" "v < 2 ^ 31" using nSuffixBits_range [OF s(1)] by simp_all
  have "length b \<le> length bits"
  proof (cases "0 \<le> v")
    case True
    then obtain n where n: "v = int n" "n < 2 ^ 31" using v(2) zero_le_imp_eq_int by auto
    have "consumed bits b s"
      by (rule conjunct2 [OF pad_slice [OF assms(1) n(2) s(2) [unfolded n(1) of_int_of_nat_eq]]])
    then show ?thesis using consumed_length [of bits b s] by simp
  next
    case False
    then have m: "min v (int_of_size (length bits)) = v" using assms(1) by simp
    have "uint (of_int v :: u32) = v + 2 ^ 32"
    proof -
      have "(v + 2 ^ 32) mod 2 ^ 32 = v + 2 ^ 32" using v(1) False by (intro mod_pos_pos_trivial) simp_all
      then show ?thesis by (simp add: uint_word_of_int)
    qed
    then have "length bits < unat (of_int v :: u32)" using assms(1) v(1) by (simp add: unat_eq_nat_uint del: nat_uint_eq)
    then show ?thesis using s(2) by (simp add: SliceBits_def m PadBits_def)
  qed
  moreover from this have "length b < 2 ^ 31" using assms(1) by linarith
  from PackP2SH_keys_unpack [OF this s(3)] consumed_length have "length bits' \<le> length b" by (meson diff_le_self le_trans)
  ultimately show ?thesis by linarith
qed

lemma pack_output_shrinks:
  assumes "length bits < 2 ^ 31" "pack_output e i (bits, vout, nxt, g) = Inr (bits', vout', nxt', g')"
  shows "length bits' \<le> length bits - 32"
proof -
  obtain txOut b1 o2 nxt1 x x' where s: "PackDataIntoP2SH e bits txOut nxt i g = Inr (b1, o2, nxt1, g')"
    "PackDataIntoSeqNr b1 x = Inr (bits', x')"
    using assms(2) by (auto simp: pack_output_def Let_def rbind_eq_Inr)
  have l: "length b1 \<le> length bits" by (rule PackDataIntoP2SH_shrinks [OF assms(1) s(1)])
  then have "consumed b1 bits' (UnpackDataFromSeqNr x') \<and> length (UnpackDataFromSeqNr x') = 32"
    using PackDataIntoSeqNr_unpack [OF _ s(2)] assms(1) by simp
  then show ?thesis using consumed_length [of b1 bits' "UnpackDataFromSeqNr x'"] l by simp
qed

lemma pack_outputs_shrinks:
  "length bits < 2 ^ 31 \<Longrightarrow> rfold (pack_output e) is (bits, vout, nxt, g) = Inr (bits', vout', nxt', g') \<Longrightarrow>
    length bits' \<le> length bits - 32 * length is"
proof (induction "is" arbitrary: bits vout nxt g)
  case (Cons i js)
  then obtain b v x h where s: "pack_output e i (bits, vout, nxt, g) = Inr (b, v, x, h)"
    "rfold (pack_output e) js (b, v, x, h) = Inr (bits', vout', nxt', g')"
    by (auto simp: rbind_eq_Inr)
  have l: "length b \<le> length bits - 32" by (rule pack_output_shrinks [OF Cons.prems(1) s(1)])
  then have "length b < 2 ^ 31" using Cons.prems(1) by linarith
  with l Cons.IH [OF _ s(2)] show ?case by simp
qed simp

lemma pack_values_shrinks:
  assumes "length bits < 2 ^ 31" "pack_values e bits vout vin nBudget nFees = Inr (bits', vout', vin')"
  shows "length bits' \<le> length bits"
proof -
  have split: "length b \<le> length bits" if h: "PackDataIntoBudgetSplit e bits v l r = Inr (b, v')" for b v l r v'
  proof -
    obtain s and M :: u32 where "SliceBits bits (min M (of_nat (length bits))) = Inr (s, b)"
      using h by (auto simp: PackDataIntoBudgetSplit_def Let_def rbind_eq_Inr)
    with min_slice [OF assms(1) this] consumed_length show ?thesis by fastforce
  qed
  have claim: "length b' \<le> length b" if h: "PackDataIntoBudgetClaim e b i = Inr (b', i')" "length b < 2 ^ 31" for b b' i i'
  proof -
    obtain s and M :: u32 where "SliceBits b (min M (of_nat (length b))) = Inr (s, b')"
      using h(1) by (auto simp: PackDataIntoBudgetClaim_def Let_def rbind_eq_Inr)
    with min_slice [OF h(2) this] consumed_length show ?thesis by fastforce
  qed
  show ?thesis
    using assms split claim by (fastforce simp: pack_values_def rbind_eq_Inr split: if_splits dest!: split)
qed

lemma embed_round_stages:
  assumes "embed_round e cur nxt bits nBudget params g = Inr (cur', nxt', bits', nBudget', params', g')"
  obtains vout0 vin0 b1 vout1 vin1 b2 vout2 v3 n3 where
    "OptimizeParams e g cur bits nBudget params = Inr params'"
    "pack_values e bits vout0 vin0 nBudget (p_nFees params') = Inr (b1, vout1, vin1)"
    "(if p_nNulldata params' \<noteq> 0 then
        rbind (PackDataIntoNulldata b1 null_txout) (\<lambda>(bits, txOut). Inr (bits, vout1 @ [txOut]))
      else Inr (b1, vout1)) = Inr (b2, vout2)"
    "rfold (pack_output e) [0..<p_nScriptHash params'] (b2, vout2, nxt\<lparr>tx_vin := vin1\<rparr>, g) = Inr (bits', v3, n3, g')"
proof -
  obtain p where p: "OptimizeParams e g cur bits nBudget params = Inr p" using assms by (auto simp: embed_round_def rbind_eq_Inr)
  obtain vout0 vin0 where f: "fold add_script_hash [0..<p_nScriptHash p] (tx_vout cur, tx_vin nxt) = (vout0, vin0)" by fastforce
  have "params' = p" using assms p f by (auto simp: embed_round_def Let_def rbind_eq_Inr)
  then show thesis using assms p f that unfolding embed_round_def Let_def by (auto simp: rbind_eq_Inr)
qed

lemma embed_round_shrinks:
  assumes "length bits < 2 ^ 31" "embed_round e cur nxt bits nBudget params g = Inr (cur', nxt', bits', nBudget', params', g')"
  shows "length bits' \<le> length bits - 32"
proof -
  obtain vout0 vin0 b1 vout1 vin1 b2 vout2 v3 n3 where s:
    "OptimizeParams e g cur bits nBudget params = Inr params'"
    "pack_values e bits vout0 vin0 nBudget (p_nFees params') = Inr (b1, vout1, vin1)"
    "(if p_nNulldata params' \<noteq> 0 then
        rbind (PackDataIntoNulldata b1 null_txout) (\<lambda>(bits, txOut). Inr (bits, vout1 @ [txOut]))
      else Inr (b1, vout1)) = Inr (b2, vout2)"
    "rfold (pack_output e) [0..<p_nScriptHash params'] (b2, vout2, nxt\<lparr>tx_vin := vin1\<rparr>, g) = Inr (bits', v3, n3, g')"
    by (rule embed_round_stages [OF assms(2)])
  have b1: "length b1 \<le> length bits" by (rule pack_values_shrinks [OF assms(1) s(2)])
  have b2: "length b2 \<le> length b1"
    using s(3) PackDataIntoNulldata_unpack [of b1] consumed_length b1 assms(1)
    by (fastforce simp: rbind_eq_Inr split: if_splits)
  have "length bits' \<le> length b2 - 32 * p_nScriptHash params'"
    using pack_outputs_shrinks [OF _ s(4)] b1 b2 assms(1) by simp
  moreover have "1 \<le> p_nScriptHash params'" if "bits \<noteq> []" using OptimizeParams_counts [OF s(1) that] by (simp add: counts_ok_def)
  ultimately show ?thesis using b1 b2 by (cases "bits = []") auto
qed

lemma EmbedData_loop_ends:
  "length bits < 2 ^ 31 \<Longrightarrow> \<exists>r. EmbedData_loop e txs idx bits nBudget params g = Some r"
proof (induction "length bits" arbitrary: txs idx bits nBudget params g rule: less_induct)
  case less
  show ?case
  proof (cases "embed_round e (txs ! idx) (txs ! (idx + 1)) bits nBudget params g")
    case (Inl err)
    then show ?thesis by (subst EmbedData_loop.simps) simp
  next
    case (Inr r)
    obtain cur nxt bits' nBudget' params' g' where r: "r = (cur, nxt, bits', nBudget', params', g')" by (cases r)
    have l: "length bits' \<le> length bits - 32" using embed_round_shrinks [OF less.prems] Inr r by metis
    show ?thesis
    proof (cases "bits' = []")
      case True
      then show ?thesis using Inr by (subst EmbedData_loop.simps) (simp add: r Let_def)
    next
      case False
      with l have "length bits' < length bits" by (cases bits') auto
      with less.hyps [OF this] less.prems obtain r' where
        "EmbedData_loop e (txs[idx := cur, idx + 1 := nxt] @ [null_tx]) (idx + 1) bits' nBudget' params' g' = Some r'"
        by fastforce
      then show ?thesis using False Inr by (subst EmbedData_loop.simps) (simp add: r Let_def)
    qed
  qed
qed

section \<open>What is left to sign\<close>

lemma PackDataIntoNulldata_ok: "PackDataIntoNulldata bits o1 = Inr (bits', o2) \<Longrightarrow> txout_ok o2"
proof -
  assume "PackDataIntoNulldata bits o1 = Inr (bits', o2)"
  then obtain s d b where s: "SliceBits b 320 = Inr (s, bits')" "BitsToData s = Inr d"
    "o2 = o1\<lparr>to_scriptPubKey := push_data (push_opcode [] OP_RETURN) d, to_nValue := 0\<rparr>"
    by (auto simp: PackDataIntoNulldata_def Let_def rbind_eq_Inr simp del: SliceBits_eq_Inr)
  have "length s = 320" using s(1) by (auto simp: SliceBits_eq_Inr)
  then have "length d = 40" using s(2) length_DataToBits [of d] by (simp add: BitsToData_Inr_iff)
  then show ?thesis by (simp add: s(3) txout_ok_def push_data_def push_opcode_def MAX_SIZE_def)
qed

lemma PackDataIntoBudgetSplit_scripts:
  assumes "PackDataIntoBudgetSplit e bits vout budget lbound = Inr (bits', vout')"
  shows "map to_scriptPubKey vout' = map to_scriptPubKey vout"
proof -
  obtain vals where "rmap (\<lambda>i. rbind (vec_at vals i) (\<lambda>v. Inr ((vout ! i)\<lparr>to_nValue := v + lbound\<rparr>))) [0..<length vout] = Inr vout'"
    using assms by (auto simp: PackDataIntoBudgetSplit_def Let_def rbind_eq_Inr)
  from rmap_nth [OF this] have l: "length vout' = length vout"
    and n: "\<forall>i < length vout. \<exists>x. (vout ! i)\<lparr>to_nValue := x + lbound\<rparr> = vout' ! i"
    by (auto simp: rbind_eq_Inr)
  have "to_scriptPubKey (vout' ! i) = to_scriptPubKey (vout ! i)" if "i < length vout" for i
    using n that by (metis CTxOut.select_convs(2) CTxOut.surjective CTxOut.update_convs(1))
  with l show ?thesis by (simp add: list_eq_iff_nth_eq)
qed

lemma pack_values_scripts:
  "pack_values e bits vout vin nBudget nFees = Inr (bits', vout', vin') \<Longrightarrow> map to_scriptPubKey vout' = map to_scriptPubKey vout"
  by (cases vout) (auto simp: pack_values_def rbind_eq_Inr dest: PackDataIntoBudgetSplit_scripts split: if_splits)

lemma IsPayToScriptHash_destination: "length h = 5 \<Longrightarrow> IsPayToScriptHash (SetDestination (CScriptID h))"
  by (simp add: IsPayToScriptHash_def push_opcode_def push_uint160_def nth_append)

text \<open>What a round leaves for the signing of the next transaction.\<close>

lemma embed_round_claims:
  assumes e: "env_ok e" and g: "keys_ok (ce_ssl e) m g" and bits: "length bits < 2 ^ 31" "bits \<noteq> []"
    and budget: "unat nBudget < 2 ^ 62" and fresh: "tx_vout cur = []" "tx_vin nxt = []"
    and r: "embed_round e cur nxt bits nBudget params g = Inr (cur', nxt', bits', nBudget', params', g')"
    and money: "\<forall>o' \<in> set (tx_vout cur'). MoneyRange (to_nValue o')"
  shows "1 \<le> length (tx_vin nxt') \<and> length (tx_vin nxt') \<le> 14 \<and> length (tx_vout cur') \<le> 15 \<and>
    b_Store g' = fold (AddCScript (ce_ssl e)) (map redeemed (tx_vin nxt')) (b_Store g) \<and>
    (\<forall>x \<in> set (tx_vin nxt'). redeems (ce_ssl e) (b_Store g) (redeemed x) \<and> pays (ce_ssl e) (tx_vout cur') x) \<and>
    redeems (ce_ssl e) (b_Store g') = redeems (ce_ssl e) (b_Store g) \<and>
    list_all txout_ok (tx_vout cur') \<and> \<not> ends_chain cur'"
proof -
  obtain vin0 b1 vout1 vin1 b2 vout2 vout3 where s:
    "OptimizeParams e g cur bits nBudget params = Inr params'"
    "pack_values e bits (replicate (p_nScriptHash params') null_txout) vin0 nBudget (p_nFees params') = Inr (b1, vout1, vin1)"
    "(if p_nNulldata params' \<noteq> 0 then
        rbind (PackDataIntoNulldata b1 null_txout) (\<lambda>(bits, txOut). Inr (bits, vout1 @ [txOut]))
      else Inr (b1, vout1)) = Inr (b2, vout2)"
    "rfold (pack_output e) [0..<p_nScriptHash params'] (b2, vout2, nxt\<lparr>tx_vin := vin1\<rparr>, g) = Inr (bits', vout3, nxt', g')"
    "cur' = cur\<lparr>tx_vout := vout3\<rparr>" "nBudget' = nBudget - p_nFees params'" "length vin0 = p_nScriptHash params'"
    by (rule embed_round_parts [OF fresh r])
  define n where "n = p_nScriptHash params'"
  have n: "1 \<le> n" "n \<le> 14" "p_nNulldata params' \<le> 1"
    using OptimizeParams_counts [OF s(1) bits(2)] by (simp_all add: counts_ok_def n_def)
  obtain tail where tail: "vout2 = vout1 @ tail" "length tail \<le> 1" "list_all txout_ok tail"
    using s(3) PackDataIntoNulldata_ok by (cases "p_nNulldata params' \<noteq> 0") (auto simp: rbind_eq_Inr)
  have vals: "map to_nValue vout3 = map to_nValue vout2" by (rule pack_outputs_values [OF s(4)])
  have money1: "\<forall>v \<in> set (map to_nValue vout1). MoneyRange v"
  proof -
    have "set (map to_nValue vout1) \<subseteq> set (map to_nValue vout3)" by (simp only: vals tail(1)) auto
    then show ?thesis using money by (auto simp: s(5))
  qed
  have o1: "length vout1 = n" "length vin1 = n" "distinct (map (\<lambda>x. unat (op_n (ti_prevout x))) vin1)"
    using pack_values_unpack [OF e bits(1) n(1,2) refl s(7) [folded n_def] budget s(2) [folded n_def] money1] by auto
  have "length b1 \<le> length bits" by (rule pack_values_shrinks [OF bits(1) s(2)])
  moreover from this have "length b2 \<le> length b1"
    using s(3) PackDataIntoNulldata_unpack [of b1] consumed_length bits(1)
    by (fastforce simp: rbind_eq_Inr split: if_splits)
  ultimately have b2: "length b2 < 2 ^ 31" using bits(1) by linarith
  have inj: "inj_on (\<lambda>j. unat (op_n (ti_prevout (tx_vin (nxt\<lparr>tx_vin := vin1\<rparr>) ! j)))) {..<n}"
    using o1(2,3) by (auto simp: inj_on_def distinct_conv_nth)
  have n32: "n < 2 ^ 32" using n(2) by simp
  have len: "length (tx_vin nxt') = n"
    using pack_outputs_unpack [OF e g b2 n32 s(4) [folded n_def]] o1(2) by simp
  have "map to_scriptPubKey vout1 = replicate n []" using pack_values_scripts [OF s(2)] by (simp add: n_def null_txout_def)
  then have "\<forall>x \<in> set vout1. to_scriptPubKey x = []" by (metis in_set_replicate list.set_map rev_image_eqI)
  then have "list_all txout_ok vout2" using tail(3) by (simp add: tail(1) list_all_iff txout_ok_def ball_Un)
  moreover have "(\<lambda>j. redeemed (tx_vin nxt' ! j)) = redeemed \<circ> (!) (tx_vin nxt')" by (simp add: fun_eq_iff)
  then have map: "map (\<lambda>j. redeemed (tx_vin nxt' ! j)) [0..<n] = map redeemed (tx_vin nxt')"
    using map_nth [of "tx_vin nxt'"] len by (metis map_map)
  note claims = pack_outputs_claims [OF e b2 g n32 inj s(4) [folded n_def], unfolded map]
  ultimately have c: "b_Store g' = fold (AddCScript (ce_ssl e)) (map redeemed (tx_vin nxt')) (b_Store g)"
    "\<forall>x \<in> set (tx_vin nxt'). redeems (ce_ssl e) (b_Store g) (redeemed x) \<and> pays (ce_ssl e) vout3 x"
    "redeems (ce_ssl e) (b_Store g') = redeems (ce_ssl e) (b_Store g)" "list_all txout_ok vout3"
    using len by (auto simp: in_set_conv_nth)
  have "\<not> ends_chain cur'"
  proof
    assume h: "ends_chain cur'"
    then obtain x where x: "x \<in> set (tx_vin nxt')" using len n(1) by (cases "tx_vin nxt'") auto
    have "length vout3 = 1" using h by (simp add: ends_chain_def s(5))
    with c(2) x have "to_scriptPubKey (hd vout3) = SetDestination (CScriptID (script_GetID (ce_ssl e) (redeemed x)))"
      by (auto simp: pays_def length_Suc_conv)
    moreover have "length (script_GetID (ce_ssl e) (redeemed x)) = 5"
      using e length_Hash160 [of "ce_ssl e"] by (simp add: env_ok_def openssl_ok_def script_GetID_def)
    ultimately have "IsPayToScriptHash (to_scriptPubKey (hd (tx_vout cur')))"
      using IsPayToScriptHash_destination [of "script_GetID (ce_ssl e) (redeemed x)"] by (simp add: s(5) del: SetDestination.simps)
    with h show False by (simp add: ends_chain_def)
  qed
  moreover have "length vout3 \<le> 15" using vals tail(1,2) o1(1) n(2) map_eq_imp_length_eq [OF vals] by simp
  ultimately show ?thesis using c len n by (simp add: s(5))
qed

end
