(* ===== verification/Sample.thy ===== *)
theory Sample
  imports Embedding
begin

text \<open>
  A small state in which the program runs from end to end, for the witnesses: two keys whose public
  keys end in \<open>0111\<close> and \<open>0000\<close>, a code of two characters, and the sample of OpenSSL. Four bits fit into
  one output, so embedding them takes one round.
\<close>

section \<open>Keys\<close>

definition sample_pk_of :: "data \<Rightarrow> CPubKey" where
  "sample_pk_of s = pk_Set (2 # s) invalid_pubkey"

definition sample_key_of :: "data \<Rightarrow> CKey" where
  "sample_key_of s = \<lparr>k_fValid = True, k_fCompressed = True, k_vch = s\<rparr>"

lemma sample_key_of_pubkey:
  assumes "length s = 32" "0 < be_value s" "int (be_value s) < secp256k1_order"
  shows "key_Check s" "key_GetPubKey sample_ssl (sample_key_of s) = Inr (sample_pk_of s)" "pk_bytes (sample_pk_of s) = 2 # s"
    "pk_size (sample_pk_of s) = 33"
proof -
  show "key_Check s" using key_Check_range [OF assms(1)] assms(2,3) by simp
  have "BN_bin2bn sample_ssl s = int (be_value s)" by (simp add: sample_ssl_def)
  then have "regenerate_key sample_ssl s = Some (int (be_value s), 0)"
    using sample_mul [of "int (be_value s)"] assms(2,3) by (simp add: regenerate_key_def)
  moreover have "be_bytes_at 32 (int (be_value s)) = s" using be_bytes_at_value [of s] assms(1) by simp
  ultimately have "i2o_ECPublicKey sample_ssl (regenerate_key sample_ssl s) True = 2 # s"
    by (simp add: sample_ssl_def sample_i2o_def)
  then show "key_GetPubKey sample_ssl (sample_key_of s) = Inr (sample_pk_of s)"
    using assms(1) by (simp add: key_GetPubKey_def eckey_GetPubKey_def sample_key_of_def sample_pk_of_def Let_def)
  show "pk_bytes (sample_pk_of s) = 2 # s" "pk_size (sample_pk_of s) = 33"
    using pk_Set_invalid [of "2 # s" invalid_pubkey] assms(1) by (simp_all add: sample_pk_of_def GetLen_def)
qed

definition sample_a :: data where
  "sample_a = replicate 31 0 @ [7]"

definition sample_b :: data where
  "sample_b = 1 # replicate 31 0"

lemma sample_secrets:
  "length sample_a = 32" "0 < be_value sample_a" "int (be_value sample_a) < secp256k1_order"
  "length sample_b = 32" "0 < be_value sample_b" "int (be_value sample_b) < secp256k1_order"
proof -
  have "be_value sample_a = 7" using be_value_replicate_0 [of 31 "[7]"] by (simp add: sample_a_def)
  then show "0 < be_value sample_a" "int (be_value sample_a) < secp256k1_order" by (simp_all add: secp256k1_order_def)
  have "be_value sample_b = 256 ^ 31" using be_value_replicate_0 [of 31 "[]"] by (simp add: sample_b_def)
  then show "0 < be_value sample_b" "int (be_value sample_b) < secp256k1_order" by (simp_all add: secp256k1_order_def)
qed (simp_all add: sample_a_def sample_b_def)

lemmas sample_key_a = sample_key_of_pubkey [OF sample_secrets(1-3)]
lemmas sample_key_b = sample_key_of_pubkey [OF sample_secrets(4-6)]

section \<open>The state\<close>

definition sample_chan :: chan_env where
  "sample_chan = \<lparr>ce_sig = sample_env, ce_params = sample_params, ce_lg = (\<lambda>N. 0), ce_root = (\<lambda>A k. 0)\<rparr>"

definition sample_bms :: bms where
  "sample_bms = \<lparr>b_Config = Mapping.of_alist
      [(''Keymap.SuffixBits'', ''4''), (''Random.SuffixBits'', ''5''), (''TxFeeRate'', ''10000''),
       (''State.FirstTx'', replicate 64 CHR ''0''), (''State.LastTx'', replicate 64 CHR ''0'')],
    b_KeyMap = Mapping.of_alist [([False, True, True, True], sample_key_of sample_a), ([False, False, False, False], sample_key_of sample_b)],
    b_Store = AddKeyPubKey sample_ssl (sample_key_of sample_a) (sample_pk_of sample_a)
      (AddKeyPubKey sample_ssl (sample_key_of sample_b) (sample_pk_of sample_b) empty_keystore),
    b_HuffCode = [(97, [False]), (3, [True, True, True])], b_Cache = empty_cache, b_draws = []\<rparr>"

lemma sample_chan_simps [simp]: "ce_sig sample_chan = sample_env" "ce_params sample_chan = sample_params"
  "ce_lg sample_chan = (\<lambda>N. 0)" "se_ssl sample_env = sample_ssl"
  by (simp_all add: sample_chan_def sample_env_def)

lemma sample_env_ok: "env_ok sample_chan"
  using sample_openssl_ok sample_ecdsa_ok sample_prefixes by (simp add: env_ok_def lg_ok_def root_ok_def sample_chan_def)

lemma sample_config:
  "nSuffixBits sample_bms = Inr 4" "rbind (map_at (b_Config sample_bms) ''Random.SuffixBits'') stoi = Inr 5"
  "map_at (b_Config sample_bms) ''TxFeeRate'' = Inr ''10000''" "stoul ''10000'' = Inr 10000"
proof -
  have a: "stoi ''4'' = Inr 4" "stoi ''5'' = Inr 5" by code_simp+
  show "stoul ''10000'' = Inr 10000" by code_simp
  show "nSuffixBits sample_bms = Inr 4" "rbind (map_at (b_Config sample_bms) ''Random.SuffixBits'') stoi = Inr 5"
    "map_at (b_Config sample_bms) ''TxFeeRate'' = Inr ''10000''"
    using a by (simp_all add: nSuffixBits_def map_at_def sample_bms_def lookup_of_alist)
qed

lemma sample_IDs: "pk_GetID sample_ssl (sample_pk_of sample_a) \<noteq> pk_GetID sample_ssl (sample_pk_of sample_b)"
proof -
  have "bu_bytes (Hash160 sample_ssl (2 # s)) = 2 # take 19 s" if "length s = 32" for s
    using that by (simp add: Hash160_def sample_ssl_def bu_bytes_of_bytes)
  from this [of sample_a] this [of sample_b] have "bu_bytes (Hash160 sample_ssl (2 # sample_a)) = 2 # take 19 sample_a"
    "bu_bytes (Hash160 sample_ssl (2 # sample_b)) = 2 # take 19 sample_b" using sample_secrets by simp_all
  moreover have "take 19 sample_a \<noteq> take 19 sample_b" unfolding sample_a_def sample_b_def by code_simp
  ultimately have "Hash160 sample_ssl (2 # sample_a) \<noteq> Hash160 sample_ssl (2 # sample_b)" by (metis list.inject)
  then show ?thesis using sample_key_a(3) sample_key_b(3) by (simp add: pk_GetID_def)
qed

lemma sample_keys_ok: "keys_ok sample_ssl 4 sample_bms"
proof -
  have "signs_with sample_ssl (b_Store sample_bms) (sample_key_of sample_a) (sample_pk_of sample_a)"
    using sample_key_a sample_secrets sample_IDs
    by (simp add: signs_with_def sample_bms_def GetKey_def AddKeyPubKey_def empty_keystore_def lookup_update sample_key_of_def)
  moreover have "signs_with sample_ssl (b_Store sample_bms) (sample_key_of sample_b) (sample_pk_of sample_b)"
    using sample_key_b sample_secrets sample_IDs
    by (simp add: signs_with_def sample_bms_def GetKey_def AddKeyPubKey_def empty_keystore_def lookup_update lookup_update_neq sample_key_of_def)
  moreover have "drop 260 (DataToBits (2 # sample_a)) = [False, True, True, True]" unfolding sample_a_def by code_simp
  moreover have "drop 260 (DataToBits (2 # sample_b)) = [False, False, False, False]" unfolding sample_b_def by code_simp
  ultimately show ?thesis using sample_config(1) sample_key_a(3) sample_key_b(3)
    by (auto simp: keys_ok_def sample_bms_def lookup_of_alist cache_ok_def empty_cache_def sample_key_of_def split: if_splits)
qed


section \<open>Fees\<close>

lemma round_double_small: "n < 2 ^ 53 \<Longrightarrow> round_double n = n"
proof -
  assume "n < 2 ^ 53"
  then have "floorlog 2 n - 53 = 0" by (simp add: floorlog_leI)
  then show ?thesis unfolding round_double_def Let_def by simp
qed

definition sample_point_in :: CTxIn where
  "sample_point_in = empty_txin\<lparr>ti_prevout := \<lparr>COutPoint.op_hash = [1, 2, 3, 4, 5, 6, 7, 8], op_n = 0\<rparr>\<rparr>"

text \<open>The transactions tried by \<open>OptimizeParams\<close> have at most 1000 bytes.\<close>

lemma sample_sizes:
  "1 \<le> k \<Longrightarrow> k \<le> 14 \<Longrightarrow>
   0 < tx_GetSerializeSize (null_tx\<lparr>tx_vin := xs, tx_vout := replicate k (null_txout\<lparr>to_scriptPubKey := dummyA\<rparr>) @ u\<rparr>) \<and>
   tx_GetSerializeSize (null_tx\<lparr>tx_vin := xs, tx_vout := replicate k (null_txout\<lparr>to_scriptPubKey := dummyA\<rparr>) @ u\<rparr>) \<le> 1000"
  if u: "u \<in> {[], [null_txout\<lparr>to_scriptPubKey := dummyB\<rparr>]}" and xs: "xs \<in> {[], [sample_point_in]}"
proof -
  have "list_all (\<lambda>k. list_all (\<lambda>u. list_all (\<lambda>xs.
      0 < tx_GetSerializeSize (null_tx\<lparr>tx_vin := xs, tx_vout := replicate k (null_txout\<lparr>to_scriptPubKey := dummyA\<rparr>) @ u\<rparr>) \<and>
      tx_GetSerializeSize (null_tx\<lparr>tx_vin := xs, tx_vout := replicate k (null_txout\<lparr>to_scriptPubKey := dummyA\<rparr>) @ u\<rparr>) \<le> 1000)
      [[], [sample_point_in]]) [[], [null_txout\<lparr>to_scriptPubKey := dummyB\<rparr>]]) [1..<15]"
    unfolding sample_point_in_def by code_simp
  then show "1 \<le> k \<Longrightarrow> k \<le> 14 \<Longrightarrow> ?thesis" using u xs by (auto simp: list_all_iff)
qed

definition sample_state :: "bms \<Rightarrow> bool" where
  "sample_state g \<longleftrightarrow> b_Config g = b_Config sample_bms \<and> b_KeyMap g = b_KeyMap sample_bms \<and> keys_ok sample_ssl 4 g"

lemma sample_state_config:
  assumes "sample_state g"
  shows "nSuffixBits g = Inr 4" "rbind (map_at (b_Config g) ''Random.SuffixBits'') stoi = Inr 5"
    "map_at (b_Config g) ''TxFeeRate'' = Inr ''10000''"
  using assms sample_config by (simp_all add: sample_state_def nSuffixBits_def)

lemma sample_fee:
  assumes "sample_state g" "0 < tx_GetSerializeSize tx" "tx_GetSerializeSize tx \<le> 1000"
  shows "TransactionFee tx g = Inr 10000"
proof -
  have "0 < unat (tx_GetSerializeSize tx)" "unat (tx_GetSerializeSize tx) \<le> 1000"
    using assms(2,3) by (simp_all add: word_less_nat_alt word_le_nat_alt)
  then have "(unat (tx_GetSerializeSize tx) + 999) div 1000 = 1" by (intro div_nat_eqI) simp_all
  then have "ceil_div (unat (tx_GetSerializeSize tx)) 1000 = 1" by (simp add: ceil_div_def)
  then show ?thesis
    by (simp add: TransactionFee_def sample_state_config [OF assms(1)] sample_config(4) round_double_small u64_of_double_def Let_def)
qed

lemma sample_fee_total: "sample_state g \<Longrightarrow> \<exists>f. TransactionFee tx g = Inr f"
proof -
  assume g: "sample_state g"
  have "unat (tx_GetSerializeSize tx) < 2 ^ 32" by (rule order_less_le_trans [OF unsigned_less]) simp
  then have "ceil_div (unat (tx_GetSerializeSize tx)) 1000 < 2 ^ 32" by (simp add: ceil_div_def)
  then show ?thesis
    by (simp add: TransactionFee_def sample_state_config [OF g] sample_config(4) round_double_small u64_of_double_def Let_def)
qed

section \<open>One output\<close>

lemma sample_values: "k \<le> 14 \<Longrightarrow> 1 \<le> k \<Longrightarrow> EmbeddableBitsInValues (\<lambda>N. 0) 90000 (of_nat k) = Inr 0"
  by (simp add: EmbeddableBitsInValues_def NumberCompositions_choose unat_of_nat)

lemma sample_OptimizeParams_loop:
  assumes g: "sample_state g" and xs: "xs \<in> {[], [sample_point_in]}" and B: "B \<in> {0, 100000}" and len: "length bits = 4"
  shows "1 \<le> k \<Longrightarrow> k \<le> 14 \<Longrightarrow> OptimizeParams_loop sample_chan g (null_tx\<lparr>tx_vin := xs\<rparr>) bits B 4 250 k p =
    Inr \<lparr>p_nScriptHash = 1, p_nNulldata = 0, p_nFees = 10000\<rparr>"
proof (induction k arbitrary: p)
  case IH: (Suc j)
  note word_simps = unat_word_ariths unat_of_nat
  have f: "TransactionFee (null_tx\<lparr>tx_vin := xs, tx_vout := replicate (Suc j) (null_txout\<lparr>to_scriptPubKey := dummyA\<rparr>) @ u\<rparr>) g = Inr 10000"
    if "u \<in> {[], [null_txout\<lparr>to_scriptPubKey := dummyB\<rparr>]}" for u
    using sample_sizes [OF that xs, of "Suc j"] IH.prems(2) by (intro sample_fee [OF g]) auto
  have p: "EmbeddableBitsInPermutation (\<lambda>N. 0) n = 0" for n by (simp add: EmbeddableBitsInPermutation_def)
  show ?case
  proof (cases j)
    case 0
    then show ?thesis using f [of "[]"] len by (simp add: 0 Let_def del: replicate.simps)
  next
    case (Suc i)
    have T: "4 \<le> unat (2786 * of_nat (Suc j) + 320 :: u32)"
      using IH.prems(2) by (simp add: word_simps del: of_nat_Suc)
    have "2 \<le> Suc j" "Suc j \<noteq> 1" using Suc by simp_all
    with f [of "[null_txout\<lparr>to_scriptPubKey := dummyB\<rparr>]"] T p sample_values [OF IH.prems(2)] IH.IH IH.prems(2) B len
    show ?thesis by (auto simp: Let_def Suc simp del: replicate.simps of_nat_Suc)
  qed
qed simp

lemma sample_OptimizeParams:
  assumes "sample_state g" "xs \<in> {[], [sample_point_in]}" "B \<in> {0, 100000}" "length bits = 4"
  shows "OptimizeParams sample_chan g (null_tx\<lparr>tx_vin := xs\<rparr>) bits B p = Inr \<lparr>p_nScriptHash = 1, p_nNulldata = 0, p_nFees = 10000\<rparr>"
  using assms(4) sample_OptimizeParams_loop [OF assms, of 14 p]
  by (auto simp: OptimizeParams_def sample_state_config [OF assms(1)])

text \<open>Data of the length of a suffix fits into one output.\<close>

lemma PackDataIntoP2SH_suffix:
  assumes e: "env_ok e" and g: "keys_ok (ce_ssl e) m g" and bits: "Mapping.lookup (b_KeyMap g) bits = Some key" "length bits = m"
    and i: "i < length (tx_vin tx)" "i < 2 ^ 32"
  shows "\<exists>s S g'. PackDataIntoP2SH e bits txOut tx i g = Inr ([], txOut\<lparr>to_scriptPubKey := s\<rparr>, set_scriptSig i S tx, g') \<and>
    b_Config g' = b_Config g \<and> b_KeyMap g' = b_KeyMap g \<and> keys_ok (ce_ssl e) m g'"
proof -
  let ?ssl = "ce_ssl e"
  have ssl: "openssl_ok ?ssl" "ecdsa_ok ?ssl" "prefixes_ok (ce_params e)" "digests_ok ?ssl"
    using e by (simp_all add: env_ok_def openssl_ok_def)
  have m: "nSuffixBits g = Inr (int m)" "m \<le> 264" "cache_ok ?ssl (b_Cache g)" using g by (simp_all add: keys_ok_def)
  obtain pk where pk: "k_fCompressed key" "signs_with ?ssl (b_Store g) key pk" using g bits(1) by (auto simp: keys_ok_def)
  have pkb: "length (pk_bytes pk) = 33" "pk_size pk = 33" "key_GetPubKey ?ssl key = Inr pk"
    using mk_pubkey_GetID [OF ssl(1) pk(2)] pk by (simp_all add: signs_with_def)
  define code where "code = multisig_code 1 [pk_bytes pk]"
  have set: "SetMultisig 1 [pk] = Inr code"
    using SetMultisig_form(1) [of 1 "[pk]"] pkb by (simp add: code_def multisig_code_def pk_IsValid_def)
  let ?store = "AddCScript ?ssl code (b_Store g)"
  have "length (script_GetID ?ssl code) = 5" using length_Hash160 [OF ssl(4)] by (simp add: script_GetID_def)
  from addr_Get_Set [OF ssl(3) this] have addr: "addr_Get (ce_params e) (addr_of_dest (ce_params e) (CScriptID (script_GetID ?ssl code)))
      = CScriptID (script_GetID ?ssl code)" by blast
  have u: "unat (of_nat i :: u32) = i" using i(2) by (simp add: unat_of_nat)
  have signs: "signs_with ?ssl ?store key pk" using pk(2) by (simp add: AddCScript_keys)
  obtain sig c where s: "SignSignature (ce_sig e) ?store (SetDestination (CScriptID (script_GetID ?ssl code))) tx (of_nat i) 1 (b_Cache g)
      = (Inr (True, set_scriptSig i (PushAll [[], sig @ [ucast (1 :: u32)], code]) tx), c)"
    using SignSignature_script_hash [OF ssl(1,2) m(3) signs pk(1), of "[]" 1 code "of_nat i" tx] AddCScript_lookup [of ?ssl code "b_Store g"] i u
    by (auto simp: code_def)
  let ?s = "SetDestination (CScriptID (script_GetID ?ssl code))" and ?g = "g\<lparr>b_Store := ?store, b_Cache := c\<rparr>"
  have len: "int_of_size m = int m" "unat (of_nat m :: u32) = m" using m(2) by (simp_all add: unat_of_nat)
  have r: "PackDataIntoP2SH e bits txOut tx i g = Inr ([], txOut\<lparr>to_scriptPubKey := ?s\<rparr>, set_scriptSig i (PushAll [[], sig @ [ucast (1 :: u32)], code]) tx, ?g)"
    using bits s
    by (simp add: PackDataIntoP2SH_def m(1) Let_def len PadBits_def SliceBits_def map_at_def pkb(3) ceil_div_def set addr del: SetDestination.simps)
  have "length bits < 2 ^ 31" using bits(2) m(2) by simp
  from PackDataIntoP2SH_unpack [OF e g this i r] have "keys_ok ?ssl m ?g" by blast
  with r show ?thesis by fastforce
qed


definition sample_prevout :: COutPoint where
  "sample_prevout = ti_prevout sample_point_in"

lemma sample_embed:
  assumes g: "sample_state g" and bits: "bits \<in> {[False, True, True, True], [False, False, False, False]}"
    and prev: "prevOut \<in> {[], [sample_prevout]}" and B: "B \<in> {0, 100000}"
  shows "\<exists>cur nxt g'. EmbedData sample_chan bits B prevOut addr g = Some (Inr ([cur, nxt], g')) \<and> sample_state g' \<and>
    tx_vin cur = map (\<lambda>p. empty_txin\<lparr>ti_prevout := p\<rparr>) prevOut \<and> map to_nValue (tx_vout cur) = [B - 10000] \<and>
    length (tx_vin nxt) = 1 \<and> tx_nVersion cur = 1 \<and> tx_nVersion nxt = 1"
proof -
  let ?xs = "map (\<lambda>p. empty_txin\<lparr>ti_prevout := p\<rparr>) prevOut"
  let ?first = "null_tx\<lparr>tx_vin := ?xs\<rparr>"
  let ?params = "\<lparr>p_nScriptHash = 1, p_nNulldata = 0, p_nFees = 10000\<rparr>"
  let ?in = "set_n 0 empty_txin"
  let ?out = "null_txout\<lparr>to_nValue := B - 10000\<rparr>" and ?tx = "null_tx\<lparr>tx_vin := [?in]\<rparr>"
  have xs: "?xs \<in> {[], [sample_point_in]}" using prev by (auto simp: sample_prevout_def sample_point_in_def)
  have ne: "bits \<noteq> []" "length bits = 4" using bits by auto
  have keys: "keys_ok sample_ssl 4 g" "b_KeyMap g = b_KeyMap sample_bms" using g by (simp_all add: sample_state_def)
  obtain key where "Mapping.lookup (b_KeyMap g) bits = Some key" using bits by (auto simp: keys(2) sample_bms_def lookup_of_alist)
  from PackDataIntoP2SH_suffix [OF sample_env_ok, of 4 g bits key 0 ?tx ?out] this keys(1) ne(2) obtain s S g' where
    p: "PackDataIntoP2SH sample_chan bits ?out ?tx 0 g = Inr ([], ?out\<lparr>to_scriptPubKey := s\<rparr>, set_scriptSig 0 S ?tx, g')"
      "b_Config g' = b_Config g" "b_KeyMap g' = b_KeyMap g" "keys_ok sample_ssl 4 g'" by auto
  have g': "sample_state g'" using g p(2-4) by (simp add: sample_state_def)
  let ?x = "?in\<lparr>ti_scriptSig := S, ti_nSequence := 0\<rparr>"
  have seq: "PackDataIntoSeqNr [] x = Inr ([], x\<lparr>ti_nSequence := 0\<rparr>)" for x
  proof -
    have "EncodeDataInSequenceNr (replicate 32 False) = Inr 0" by code_simp
    then show ?thesis by (simp add: PackDataIntoSeqNr_def SliceBits_def PadBits_def)
  qed
  have add: "fold add_script_hash [0..<1] ([], []) = ([null_txout], [?in])" by (simp add: add_script_hash_def)
  have "unat (op_n (ti_prevout ?in)) = 0" by (simp add: set_n_def)
  then have out: "pack_output sample_chan 0 (bits, [?out], ?tx, g) = Inr ([], [?out\<lparr>to_scriptPubKey := s\<rparr>], null_tx\<lparr>tx_vin := [?x]\<rparr>, g')"
    using p(1) seq by (simp add: pack_output_def vec_at_def set_scriptSig_def)
  have n: "set_n 0 ?in = ?in" by (simp add: set_n_def)
  let ?cur = "?first\<lparr>tx_vout := [?out\<lparr>to_scriptPubKey := s\<rparr>]\<rparr>" and ?nxt = "null_tx\<lparr>tx_vin := [?x]\<rparr>"
  have opt: "OptimizeParams sample_chan g ?first bits B p = Inr ?params" for p
    using sample_OptimizeParams [OF g xs B ne(2)] .
  have r: "embed_round sample_chan ?first null_tx bits B \<lparr>p_nScriptHash = 0, p_nNulldata = 0, p_nFees = 0\<rparr> g =
      Inr (?cur, ?nxt, [], B - 10000, ?params, g')"
    using add out n unfolding embed_round_def opt by (simp add: pack_values_def vec_at_def null_tx_def)
  obtain f where "TransactionFee ?nxt g' = Inr f" using sample_fee_total [OF g'] by blast
  then have "OptimizeParams sample_chan g' ?nxt [] (B - 10000) ?params = Inr \<lparr>p_nScriptHash = 0, p_nNulldata = 0, p_nFees = f\<rparr>"
    using sample_state_config [OF g'] by (auto simp: OptimizeParams_def)
  then have "EmbedData sample_chan bits B prevOut addr g = Some (Inr ([?cur, ?nxt\<lparr>tx_vout := tx_vout ?nxt @
      [\<lparr>to_nValue = (B - 10000) - f, to_scriptPubKey = SetDestination (addr_Get sample_params addr)\<rparr>]\<rparr>], g'))"
    using r unfolding EmbedData_def Let_def by (simp add: EmbedData_loop.simps)
  then show ?thesis using g' by (fastforce simp: null_tx_def)
qed

end
