(* ===== verification/Startup.thy ===== *)
theory Startup
  imports Sample
begin

text \<open>
  What the program loads before it embeds anything: the generated key pairs have every suffix, the key
  store signs with each of them, and the file that is written holds the same key pairs for the next start.
\<close>

definition pair_ok :: "openssl \<Rightarrow> nat \<Rightarrow> databits \<Rightarrow> CKey \<Rightarrow> bool" where
  "pair_ok ssl n k key \<longleftrightarrow>
     k_fValid key \<and> k_fCompressed key \<and> key_Check (k_vch key) \<and> length (k_vch key) = 32 \<and> length k = n \<and>
     (\<exists>pk. key_GetPubKey ssl key = Inr pk \<and> drop (264 - n) (DataToBits (pk_bytes pk)) = k)"

definition pairs_ok :: "openssl \<Rightarrow> nat \<Rightarrow> KeypairMap \<Rightarrow> bool" where
  "pairs_ok ssl n m \<longleftrightarrow> finite (Mapping.keys m) \<and> (\<forall>k key. Mapping.lookup m k = Some key \<longrightarrow> pair_ok ssl n k key)"

lemma MakeNewKey_ok:
  "MakeNewKey draws c = Inr (key, draws') \<Longrightarrow> \<forall>v \<in> set draws. length v = 32 \<Longrightarrow>
    k_fValid key \<and> k_fCompressed key = c \<and> key_Check (k_vch key) \<and> length (k_vch key) = 32 \<and> set draws' \<subseteq> set draws"
  by (induction draws c rule: MakeNewKey.induct) (fastforce split: if_splits)+

lemma GenerateKeypairMap_loop_ok:
  assumes "openssl_ok ssl" "n \<le> 264"
  shows "GenerateKeypairMap_loop ssl n draws m = Inr m' \<Longrightarrow> \<forall>v \<in> set draws. length v = 32 \<Longrightarrow> pairs_ok ssl n m \<Longrightarrow>
    pairs_ok ssl n m' \<and> 2 ^ n \<le> Mapping.size m'"
proof (induction "length draws" arbitrary: draws m rule: less_induct)
  case less
  show ?case
  proof (cases "Mapping.size m < 2 ^ n")
    case False
    then show ?thesis using less.prems by (simp add: GenerateKeypairMap_loop.simps)
  next
    case True
    obtain key draws' pk where s: "MakeNewKey draws True = Inr (key, draws')" "key_GetPubKey ssl key = Inr pk"
      "\<not> length (DataToBits (pk_bytes pk)) < n"
      "GenerateKeypairMap_loop ssl n draws' (Mapping.update (drop (length (DataToBits (pk_bytes pk)) - n) (DataToBits (pk_bytes pk))) key m) = Inr m'"
      using less.prems(1) True
      by (subst (asm) GenerateKeypairMap_loop.simps) (auto simp: rbind_eq_Inr Let_def split: if_splits)
    have key: "k_fValid key" "k_fCompressed key" "key_Check (k_vch key)" "length (k_vch key) = 32" "set draws' \<subseteq> set draws"
      using MakeNewKey_ok [OF s(1) less.prems(2)] by simp_all
    have "length (pk_bytes pk) = 33" using key_GetPubKey_ok [OF assms(1) key(1,3,4)] s(2) key(2) by auto
    then have len: "length (DataToBits (pk_bytes pk)) = 264" by simp
    let ?k = "drop (264 - n) (DataToBits (pk_bytes pk))"
    have "pair_ok ssl n ?k key" using key s(2) len assms(2) by (simp add: pair_ok_def)
    then have "pairs_ok ssl n (Mapping.update ?k key m)" using less.prems(3) by (auto simp: pairs_ok_def lookup_update' split: if_splits)
    moreover have "\<forall>v \<in> set draws'. length v = 32" using key(5) less.prems(2) by blast
    ultimately show ?thesis using less.hyps [OF MakeNewKey_shorter [OF s(1)]] s(4) by (simp only: len)
  qed
qed

lemma pairs_complete:
  assumes "pairs_ok ssl n m" "2 ^ n \<le> Mapping.size m" "length bits = n"
  shows "\<exists>key. Mapping.lookup m bits = Some key"
proof -
  have "Mapping.keys m \<subseteq> {bs. set bs \<subseteq> UNIV \<and> length bs = n}"
    using assms(1) by (auto simp: pairs_ok_def pair_ok_def keys_is_none_rep Option.is_none_def)
  moreover have "card {bs :: bool list. set bs \<subseteq> UNIV \<and> length bs = n} = 2 ^ n"
    using card_lists_length_eq [of "UNIV :: bool set" n] by simp
  moreover have "finite {bs :: bool list. set bs \<subseteq> UNIV \<and> length bs = n}" by (rule finite_lists_length_eq) simp
  ultimately have "Mapping.keys m = {bs. set bs \<subseteq> UNIV \<and> length bs = n}"
    using assms(1,2) by (intro card_seteq) (simp_all add: Mapping.size_def pairs_ok_def)
  then have "bits \<in> Mapping.keys m" using assms(3) by simp
  then show ?thesis by (simp add: keys_is_none_rep Option.is_none_def)
qed

text \<open>What was written is read back.\<close>

lemma Deserialize_Serialize:
  assumes "pairs_ok ssl n m"
  shows "DeserializeKeypairMap (SerializeKeypairMap m) = Inr m"
proof -
  have "Mapping.map_values (\<lambda>_ element. key_Set (tl element) (hd element \<noteq> 0) empty_key) (SerializeKeypairMap m) = m"
  proof (rule mapping_eqI)
    fix k show "Mapping.lookup (Mapping.map_values (\<lambda>_ element. key_Set (tl element) (hd element \<noteq> 0) empty_key) (SerializeKeypairMap m)) k
      = Mapping.lookup m k"
      using assms by (cases "Mapping.lookup m k")
        (auto simp: SerializeKeypairMap_def lookup_map_values pairs_ok_def pair_ok_def key_Set_def empty_key_def)
  qed
  moreover have "Mapping.filter (\<lambda>_ element. element = []) (SerializeKeypairMap m) = Mapping.empty"
    by (rule mapping_eqI) (auto simp: lookup_filter SerializeKeypairMap_def lookup_map_values lookup_empty split: option.splits)
  ultimately show ?thesis by (simp add: DeserializeKeypairMap_def Mapping.is_empty_def)
qed

text \<open>The key store signs with every key, unless two public keys have the same hash.\<close>

lemma AddKeys_signs:
  assumes keys: "\<forall>k \<in> set ks. \<forall>key. Mapping.lookup m k = Some key \<longrightarrow> pair_ok ssl n k key"
    and inj: "\<forall>k key k' key' pk pk'. Mapping.lookup m k = Some key \<longrightarrow> Mapping.lookup m k' = Some key' \<longrightarrow>
      key_GetPubKey ssl key = Inr pk \<longrightarrow> key_GetPubKey ssl key' = Inr pk' \<longrightarrow> pk_GetID ssl pk = pk_GetID ssl pk' \<longrightarrow> key = key'"
    and r: "rfold (\<lambda>k st. case Mapping.lookup m k of None \<Rightarrow> Inr st | Some key \<Rightarrow> AddKey ssl key st) ks st = Inr st'"
    and k: "k \<in> set ks" "Mapping.lookup m k = Some key"
  shows "\<exists>pk. signs_with ssl st' key pk \<and> drop (264 - n) (DataToBits (pk_bytes pk)) = k"
  using keys r k(1)
proof (induction ks arbitrary: st' rule: rev_induct)
  case (snoc d ks)
  obtain st1 where st1: "rfold (\<lambda>k st. case Mapping.lookup m k of None \<Rightarrow> Inr st | Some key \<Rightarrow> AddKey ssl key st) ks st = Inr st1"
    "(case Mapping.lookup m d of None \<Rightarrow> Inr st1 | Some key \<Rightarrow> AddKey ssl key st1) = Inr st'"
    using snoc.prems(2) by (auto simp: rfold_append rbind_eq_Inr)
  have ok: "pair_ok ssl n k key" using snoc.prems(1,3) k(2) by auto
  then obtain pk where pk: "key_GetPubKey ssl key = Inr pk" "drop (264 - n) (DataToBits (pk_bytes pk)) = k"
    by (auto simp: pair_ok_def)
  have "GetKey st' (pk_GetID ssl pk) = Some key"
  proof (cases "Mapping.lookup m d")
    case None
    then have "k \<noteq> d" using k(2) by auto
    then have "\<exists>pk. signs_with ssl st1 key pk \<and> drop (264 - n) (DataToBits (pk_bytes pk)) = k"
      using snoc.IH [OF _ st1(1)] snoc.prems(1,3) by simp
    then show ?thesis using None st1(2) pk(1) by (auto simp: signs_with_def)
  next
    case (Some key')
    then obtain pk' where pk': "key_GetPubKey ssl key' = Inr pk'" "st' = AddKeyPubKey ssl key' pk' st1"
      using st1(2) by (auto simp: AddKey_def rbind_eq_Inr)
    show ?thesis
    proof (cases "pk_GetID ssl pk = pk_GetID ssl pk'")
      case True
      then have "key = key'" using inj k(2) Some pk(1) pk'(1) by blast
      then show ?thesis using True by (simp add: pk'(2) AddKeyPubKey_def GetKey_def)
    next
      case False
      then have "k \<noteq> d" using k(2) Some pk(1) pk'(1) by auto
      then have "\<exists>pk. signs_with ssl st1 key pk \<and> drop (264 - n) (DataToBits (pk_bytes pk)) = k"
        using snoc.IH [OF _ st1(1)] snoc.prems(1,3) by simp
      then have "GetKey st1 (pk_GetID ssl pk) = Some key" using pk(1) by (auto simp: signs_with_def)
      then show ?thesis using False by (simp add: pk'(2) AddKeyPubKey_def GetKey_def)
    qed
  qed
  then show ?case using ok pk by (auto simp: signs_with_def pair_ok_def)
qed simp

lemma startup_state:
  assumes ssl: "openssl_ok ssl" and n: "nSuffixBits g = Inr (int n)" "n \<le> 264"
    and fresh: "Mapping.is_empty (b_KeyMap g)" "ks_IsEmpty (b_Store g)" "cache_ok ssl (b_Cache g)" "IsConfigFileLoaded g"
    and draws: "\<forall>v \<in> set draws. length v = 32"
    and load: "LoadKeypairMap ssl draws None g = Inr (file, g1)" "LoadKeystore ssl g1 = Inr g2"
    and inj: "\<forall>k key k' key' pk pk'. Mapping.lookup (b_KeyMap g1) k = Some key \<longrightarrow> Mapping.lookup (b_KeyMap g1) k' = Some key' \<longrightarrow>
      key_GetPubKey ssl key = Inr pk \<longrightarrow> key_GetPubKey ssl key' = Inr pk' \<longrightarrow> pk_GetID ssl pk = pk_GetID ssl pk' \<longrightarrow> key = key'"
  shows "keys_ok ssl n g2 \<and> (\<forall>bits. length bits = n \<longrightarrow> (\<exists>key. Mapping.lookup (b_KeyMap g2) bits = Some key)) \<and>
    (\<forall>draws'. LoadKeypairMap ssl draws' file g = Inr (file, g1))"
proof -
  have nn: "unat (of_int (int n) :: u32) = n" using n(2) by (simp add: unat_of_nat)
  have unloaded: "\<not> IsKeypairMapLoaded g" using fresh(1) by (simp add: IsKeypairMapLoaded_def)
  obtain s m where m: "map_at (b_Config g) ''Keymap.SuffixBits'' = Inr s" "stoi s = Inr (int n)"
    "GenerateKeypairMap ssl n draws = Inr m" "file = Some (SerializeKeypairMap m)" "g1 = g\<lparr>b_KeyMap := m\<rparr>"
    using load(1) n(1) unloaded fresh(4) nn
    by (auto simp: LoadKeypairMap_def rbind_eq_Inr nSuffixBits_def)
  have "pairs_ok ssl n Mapping.empty" by (simp add: pairs_ok_def lookup_empty)
  from GenerateKeypairMap_loop_ok [OF ssl n(2) m(3) [unfolded GenerateKeypairMap_def] draws this]
  have ok: "pairs_ok ssl n m" "2 ^ n \<le> Mapping.size m" by simp_all
  have "Mapping.keys m \<noteq> {}" using ok(2) by (auto simp: Mapping.size_def)
  then have loaded: "IsKeypairMapLoaded g1" "\<not> IsKeystoreLoaded g1"
    using fresh(2) by (auto simp: IsKeypairMapLoaded_def IsKeystoreLoaded_def m(5) Mapping.is_empty_def)
  obtain ks where ks: "rfold (\<lambda>k st. case Mapping.lookup m k of None \<Rightarrow> Inr st | Some key \<Rightarrow> AddKey ssl key st)
      (Mapping.ordered_keys m) (b_Store g) = Inr ks" "g2 = g1\<lparr>b_Store := ks\<rparr>"
    using load(2) loaded by (auto simp: LoadKeystore_def rbind_eq_Inr m(5))
  have all: "\<forall>k \<in> set (Mapping.ordered_keys m). \<forall>key. Mapping.lookup m k = Some key \<longrightarrow> pair_ok ssl n k key"
    using ok(1) by (simp add: pairs_ok_def)
  have "k_fCompressed key \<and> (\<exists>pk. signs_with ssl ks key pk \<and> drop (264 - n) (DataToBits (pk_bytes pk)) = k)"
    if "Mapping.lookup m k = Some key" for k key
  proof -
    have "k \<in> set (Mapping.ordered_keys m)" using that ok(1) by (simp add: pairs_ok_def keys_is_none_rep Option.is_none_def)
    from AddKeys_signs [OF all _ ks(1) this that] inj have "\<exists>pk. signs_with ssl ks key pk \<and> drop (264 - n) (DataToBits (pk_bytes pk)) = k"
      by (simp add: m(5))
    moreover have "k_fCompressed key" using that ok(1) by (auto simp: pairs_ok_def pair_ok_def)
    ultimately show ?thesis by blast
  qed
  then have "keys_ok ssl n g2" using n fresh(3) by (simp add: keys_ok_def ks(2) m(5) nSuffixBits_def)
  moreover have "LoadKeypairMap ssl draws' file g = Inr (file, g1)" for draws'
    using unloaded fresh(4) Deserialize_Serialize [OF ok(1)] by (simp add: LoadKeypairMap_def m(4,5))
  moreover have "\<exists>key. Mapping.lookup (b_KeyMap g2) bits = Some key" if "length bits = n" for bits
    using pairs_complete [OF ok that] by (simp add: ks(2) m(5))
  ultimately show ?thesis by blast
qed


text \<open>C4: after the first start every suffix of the configured length has a key pair with which the key store
  signs, provided that no two of the generated public keys have the same hash; and a later start reads
  the same key pairs from the file that the first one wrote.\<close>

theorem startup_keys:
  assumes "openssl_ok ssl" "nSuffixBits g = Inr (int n)" "n \<le> 264"
    and "Mapping.is_empty (b_KeyMap g)" "ks_IsEmpty (b_Store g)" "cache_ok ssl (b_Cache g)" "IsConfigFileLoaded g"
    and "\<forall>v \<in> set draws. length v = 32"
    and "LoadKeypairMap ssl draws None g = Inr (file, g1)" "LoadKeystore ssl g1 = Inr g2"
    and "\<forall>k key k' key' pk pk'. Mapping.lookup (b_KeyMap g1) k = Some key \<longrightarrow> Mapping.lookup (b_KeyMap g1) k' = Some key' \<longrightarrow>
      key_GetPubKey ssl key = Inr pk \<longrightarrow> key_GetPubKey ssl key' = Inr pk' \<longrightarrow> pk_GetID ssl pk = pk_GetID ssl pk' \<longrightarrow> key = key'"
  shows "keys_ok ssl n g2 \<and> (\<forall>bits. length bits = n \<longrightarrow> (\<exists>key. Mapping.lookup (b_KeyMap g2) bits = Some key)) \<and>
    (\<forall>draws'. LoadKeypairMap ssl draws' file g = Inr (file, g1))"
  using assms by (rule startup_state)

definition sample_start :: bms where
  "sample_start = sample_bms\<lparr>b_Config := Mapping.of_alist [(''Keymap.SuffixBits'', ''1'')], b_KeyMap := Mapping.empty, b_Store := empty_keystore\<rparr>"

theorem startup_keys_witness:
  "\<exists>file g1 g2. LoadKeypairMap sample_ssl [sample_a, sample_b] None sample_start = Inr (file, g1) \<and>
     LoadKeystore sample_ssl g1 = Inr g2 \<and> keys_ok sample_ssl 1 g2 \<and> LoadKeypairMap sample_ssl [] file sample_start = Inr (file, g1)"
proof -
  let ?m = "Mapping.update [False] (sample_key_of sample_b) (Mapping.update [True] (sample_key_of sample_a) Mapping.empty)"
  have stoi: "stoi ''1'' = Inr 1" by code_simp
  have start: "nSuffixBits sample_start = Inr (int 1)" "Mapping.is_empty (b_KeyMap sample_start)" "ks_IsEmpty (b_Store sample_start)"
    "cache_ok sample_ssl (b_Cache sample_start)" "IsConfigFileLoaded sample_start"
    "map_at (b_Config sample_start) ''Keymap.SuffixBits'' = Inr ''1''" "\<not> IsKeypairMapLoaded sample_start"
    using stoi by (simp_all add: nSuffixBits_def map_at_def sample_start_def lookup_of_alist Mapping.is_empty_def ks_IsEmpty_def
        empty_keystore_def cache_ok_def sample_bms_def empty_cache_def IsConfigFileLoaded_def IsKeypairMapLoaded_def)
  have bits: "drop (length (DataToBits (2 # sample_a)) - Suc 0) (DataToBits (2 # sample_a)) = [True]"
    "drop (length (DataToBits (2 # sample_b)) - Suc 0) (DataToBits (2 # sample_b)) = [False]"
    unfolding sample_a_def sample_b_def by code_simp+
  have gen: "GenerateKeypairMap sample_ssl 1 [sample_a, sample_b] = Inr ?m"
    unfolding GenerateKeypairMap_def
    using sample_key_a sample_key_b bits sample_secrets
    by (simp add: GenerateKeypairMap_loop.simps Mapping.size_def sample_key_of_def Let_def)
  have load: "LoadKeypairMap sample_ssl [sample_a, sample_b] None sample_start = Inr (Some (SerializeKeypairMap ?m), sample_start\<lparr>b_KeyMap := ?m\<rparr>)"
    using start gen stoi by (simp add: LoadKeypairMap_def)
  obtain ks where ks: "rfold (\<lambda>k ks. case Mapping.lookup ?m k of None \<Rightarrow> Inr ks | Some key \<Rightarrow> AddKey sample_ssl key ks)
      (Mapping.ordered_keys ?m) empty_keystore = Inr ks"
    using sample_key_a(2) sample_key_b(2) by (simp add: AddKey_def lookup_update')
  have "LoadKeystore sample_ssl (sample_start\<lparr>b_KeyMap := ?m\<rparr>) = Inr (sample_start\<lparr>b_KeyMap := ?m, b_Store := ks\<rparr>)"
    using ks start(3) by (simp add: LoadKeystore_def IsKeypairMapLoaded_def Mapping.is_empty_def IsKeystoreLoaded_def sample_start_def)
  moreover have "\<forall>v \<in> set [sample_a, sample_b]. length v = 32" using sample_secrets by simp
  ultimately show ?thesis
    using startup_keys [OF sample_openssl_ok start(1) _ start(2-5) _ load] load sample_key_a(2) sample_key_b(2) sample_IDs
    by (auto simp: lookup_update' split: if_splits)
qed

end
