(* ===== verification/Roundtrip.thy ===== *)
theory Roundtrip
  imports Sample
begin

text \<open>
  Embedding as a whole: the loop of \<open>EmbedData\<close>, and what was embedded in a chain of
  transactions is extracted from it.
\<close>

section \<open>The loop\<close>

lemma EmbedData_loop_result:
  assumes "EmbedData_loop e txs idx bits nBudget params g = Some (Inr (txs', idx', nBudget', params', g'))"
  obtains cur nxt b B p h where
    "embed_round e (txs ! idx) (txs ! (idx + 1)) bits nBudget params g = Inr (cur, nxt, b, B, p, h)"
    "b \<noteq> [] \<longrightarrow> EmbedData_loop e (txs[idx := cur, idx + 1 := nxt] @ [null_tx]) (idx + 1) b B p h
        = Some (Inr (txs', idx', nBudget', params', g'))"
    "b = [] \<longrightarrow> txs' = txs[idx := cur, idx + 1 := nxt] \<and> idx' = idx \<and> nBudget' = B \<and> params' = p \<and> g' = h"
proof (cases "embed_round e (txs ! idx) (txs ! (idx + 1)) bits nBudget params g")
  case (Inl err)
  then show ?thesis using assms by (simp add: EmbedData_loop.simps [of e txs])
next
  case (Inr r)
  obtain cur nxt b B p h where r: "r = (cur, nxt, b, B, p, h)" by (cases r)
  note eq = assms [unfolded EmbedData_loop.simps [of e txs] Inr r sum.case prod.case Let_def]
  show ?thesis by (rule that [of cur nxt b B p h]) (use Inr r eq in \<open>auto split: if_splits\<close>)
qed

text \<open>The transactions before \<open>idx\<close> stay as they are.\<close>

lemma EmbedData_loop_prefix:
  "length bits < 2 ^ 31 \<Longrightarrow> length txs = idx + 2 \<Longrightarrow>
   EmbedData_loop e txs idx bits nBudget params g = Some (Inr (txs', idx', nBudget', params', g')) \<Longrightarrow>
   take idx txs' = take idx txs \<and> length txs' = idx' + 2 \<and> idx \<le> idx'"
proof (induction "length bits" arbitrary: txs idx bits nBudget params g rule: less_induct)
  case less
  obtain cur nxt b B p h where r:
    "embed_round e (txs ! idx) (txs ! (idx + 1)) bits nBudget params g = Inr (cur, nxt, b, B, p, h)"
    "b \<noteq> [] \<longrightarrow> EmbedData_loop e (txs[idx := cur, idx + 1 := nxt] @ [null_tx]) (idx + 1) b B p h
        = Some (Inr (txs', idx', nBudget', params', g'))"
    "b = [] \<longrightarrow> txs' = txs[idx := cur, idx + 1 := nxt] \<and> idx' = idx \<and> nBudget' = B \<and> params' = p \<and> g' = h"
    by (rule EmbedData_loop_result [OF less.prems(3)])
  show ?case
  proof (cases "b = []")
    case True
    then show ?thesis using r(3) less.prems(2) by simp
  next
    case False
    have "length b \<le> length bits - 32" by (rule embed_round_shrinks [OF less.prems(1) r(1)])
    then have "length b < length bits" using False by (cases b) auto
    from less.hyps [OF this _ _ r(2) [rule_format, OF False]] this less.prems(1,2)
    have "take (idx + 1) txs' = take (idx + 1) (txs[idx := cur, idx + 1 := nxt] @ [null_tx])"
      "length txs' = idx' + 2" "idx + 1 \<le> idx'" by simp_all
    from arg_cong [OF this(1), of "take idx"] this(2,3) less.prems(2) show ?thesis by (simp add: min_def)
  qed
qed

text \<open>
  Two neighbours of a chain: every input of the second redeems a script that the key store can sign
  for and to which the output that it claims pays; the first does not end a chain.
\<close>

definition chained :: "openssl \<Rightarrow> CBasicKeyStore \<Rightarrow> CTransaction \<Rightarrow> CTransaction \<Rightarrow> bool" where
  "chained ssl ks cur nxt \<longleftrightarrow> tx_vin nxt \<noteq> [] \<and> length (tx_vin nxt) \<le> 14 \<and>
     (\<forall>x \<in> set (tx_vin nxt). redeems ssl ks (redeemed x) \<and> pays ssl (tx_vout cur) x) \<and>
     list_all txout_ok (tx_vout cur) \<and> length (tx_vout cur) \<le> 15 \<and> \<not> ends_chain cur"

definition codes :: "TransactionChain \<Rightarrow> script list" where
  "codes txs = concat (map (\<lambda>tx. map redeemed (tx_vin tx)) txs)"

lemma codes_simps [simp]: "codes [] = []" "codes (tx # txs) = map redeemed (tx_vin tx) @ codes txs"
  by (simp_all add: codes_def)

lemma EmbedData_loop_extract:
  assumes e: "env_ok e"
  shows "keys_ok (ce_ssl e) m g \<Longrightarrow> length bits < 2 ^ 31 \<Longrightarrow> unat nBudget < 2 ^ 62 \<Longrightarrow>
    tx_vout cur = [] \<Longrightarrow> tx_vin nxt = [] \<Longrightarrow> tx_vout nxt = [] \<Longrightarrow>
    EmbedData_loop e (pre @ [cur, nxt]) (length pre) bits nBudget params g = Some (Inr (txs', idx', nBudget', params', g')) \<Longrightarrow>
    (\<forall>tx \<in> set (butlast txs'). \<forall>o' \<in> set (tx_vout tx). MoneyRange (to_nValue o')) \<Longrightarrow>
    \<exists>mid lst out. txs' = pre @ mid @ [lst] \<and> mid \<noteq> [] \<and> tx_vin (hd mid) = tx_vin cur \<and> tx_vout lst = [] \<and>
      consumed bits [] out \<and>
      (bits \<noteq> [] \<longrightarrow> successively (chained (ce_ssl e) (b_Store g)) (mid @ [lst]) \<and>
         b_Store g' = fold (AddCScript (ce_ssl e)) (codes (tl (mid @ [lst]))) (b_Store g)) \<and>
      (\<forall>g'' lst' b. nSuffixBits g'' = Inr (int m) \<longrightarrow> tx_vin lst' = tx_vin lst \<longrightarrow>
         ExtractData_loop e g'' (mid @ [lst']) b = Inr (b @ out))"
proof (induction "length bits" arbitrary: bits nBudget cur nxt pre params g rule: less_induct)
  case less
  let ?txs = "pre @ [cur, nxt]"
  obtain cur' nxt' b B p h where r: "embed_round e cur nxt bits nBudget params g = Inr (cur', nxt', b, B, p, h)"
    "b \<noteq> [] \<longrightarrow> EmbedData_loop e ((pre @ [cur']) @ [nxt', null_tx]) (length (pre @ [cur'])) b B p h
        = Some (Inr (txs', idx', nBudget', params', g'))"
    "b = [] \<longrightarrow> txs' = pre @ [cur'] @ [nxt'] \<and> g' = h"
    by (rule EmbedData_loop_result [OF less.prems(7)]) (auto simp: nth_append list_update_append)
  have l: "length b \<le> length bits - 32" by (rule embed_round_shrinks [OF less.prems(2) r(1)])
  have cur': "cur' \<in> set (butlast txs')"
  proof (cases "b = []")
    case True
    then show ?thesis using r(3) by (simp add: butlast_append)
  next
    case False
    have "length b < 2 ^ 31" using l less.prems(2) by linarith
    from EmbedData_loop_prefix [OF this _ r(2) [rule_format, OF False]]
    have t: "take (length (pre @ [cur'])) txs' = pre @ [cur']" "length (pre @ [cur']) + 1 < length txs'" by auto
    then have "butlast txs' ! length pre = cur'"
      by (metis length_append_singleton less_add_Suc1 add.commute nth_append_length nth_butlast nth_take
          length_butlast less_diff_conv add_lessD1 lessI plus_1_eq_Suc less_trans)
    then show ?thesis using t(2) by (metis length_append_singleton length_butlast less_diff_conv nth_mem Suc_lessD add.commute plus_1_eq_Suc)
  qed
  obtain out where out:
    "\<forall>g'' cur'' nxt''. nSuffixBits g'' = Inr (int m) \<longrightarrow> tx_vout cur'' = tx_vout cur' \<longrightarrow> tx_vin nxt'' = tx_vin nxt' \<longrightarrow>
      extract_pair e g'' cur'' nxt'' = Inr out" "consumed bits b out"
    "tx_vin cur' = tx_vin cur" "tx_vout nxt' = []" "keys_ok (ce_ssl e) m h" "bits \<noteq> [] \<longrightarrow> unat B < 2 ^ 62"
    using embed_round_extract [OF e less.prems(1-5) r(1)] less.prems(6,8) cur' by auto
  have claims: "chained (ce_ssl e) (b_Store g) cur' nxt'" "b_Store h = fold (AddCScript (ce_ssl e)) (map redeemed (tx_vin nxt')) (b_Store g)"
    "redeems (ce_ssl e) (b_Store h) = redeems (ce_ssl e) (b_Store g)" if "bits \<noteq> []"
    using embed_round_claims [OF e less.prems(1,2) that less.prems(3-5) r(1)] less.prems(8) cur' by (auto simp: chained_def)
  show ?case
  proof (cases "b = []")
    case True
    then show ?thesis using out r(3) claims
      by (intro exI [of _ "[cur']"] exI [of _ nxt'] exI [of _ out]) simp
  next
    case False
    then have lt: "length b < length bits" using l by (cases b) auto
    then have ne: "bits \<noteq> []" by auto
    with out(6) less.hyps [OF lt out(5) _ _ out(4) _ _ r(2) [rule_format, OF False] less.prems(8)] lt less.prems(2)
    obtain mid lst out' where IH: "txs' = (pre @ [cur']) @ mid @ [lst]" "mid \<noteq> []" "tx_vin (hd mid) = tx_vin nxt'"
      "tx_vout lst = []" "consumed b [] out'" "successively (chained (ce_ssl e) (b_Store h)) (mid @ [lst])"
      "b_Store g' = fold (AddCScript (ce_ssl e)) (codes (tl (mid @ [lst]))) (b_Store h)"
      "\<forall>g'' lst' b. nSuffixBits g'' = Inr (int m) \<longrightarrow> tx_vin lst' = tx_vin lst \<longrightarrow>
         ExtractData_loop e g'' (mid @ [lst']) b = Inr (b @ out')"
      using False by (auto simp: null_tx_def)
    obtain c mid' where mid: "mid = c # mid'" using IH(2) by (cases mid) auto
    note claims = claims [OF ne]
    have "chained (ce_ssl e) (b_Store h) = chained (ce_ssl e) (b_Store g)" by (simp add: fun_eq_iff chained_def claims(3))
    moreover have "chained (ce_ssl e) (b_Store g) cur' c" using claims(1) IH(3) by (simp add: chained_def mid)
    ultimately have "successively (chained (ce_ssl e) (b_Store g)) (cur' # mid @ [lst])" using IH(6) by (simp add: mid)
    moreover have "b_Store g' = fold (AddCScript (ce_ssl e)) (codes (mid @ [lst])) (b_Store g)"
      using IH(3,7) claims(2) by (simp add: mid)
    ultimately show ?thesis using IH out(1,3) consumed_trans [OF out(2) IH(5)]
      by (intro exI [of _ "cur' # mid"] exI [of _ lst] exI [of _ "out @ out'"]) (simp add: mid)
  qed
qed

section \<open>Embedding and extraction\<close>

lemma consumed_all: "consumed bits [] out \<Longrightarrow> \<exists>pad. out = bits @ replicate pad False"
  by (auto simp: consumed_def)

text \<open>All that is known of an embedded chain.\<close>

lemma EmbedData_chain:
  assumes "env_ok e" "keys_ok (ce_ssl e) m g" "length dat < 2 ^ 31" "unat nBudget < 2 ^ 62"
    and "EmbedData e dat nBudget prevOut addr g = Some (Inr (txs, g'))"
    and "\<forall>tx \<in> set (butlast txs). \<forall>o' \<in> set (tx_vout tx). MoneyRange (to_nValue o')"
  obtains mid lst pad out where "txs = mid @ [lst]" "mid \<noteq> []"
    "\<And>gr. nSuffixBits gr = Inr (int m) \<Longrightarrow> ExtractData e txs gr = Inr (dat @ replicate pad False)"
    "tx_vout lst = [out]" "to_scriptPubKey out = SetDestination (addr_Get (ce_params e) addr)"
    "dat \<noteq> [] \<Longrightarrow> successively (chained (ce_ssl e) (b_Store g)) txs"
    "dat \<noteq> [] \<Longrightarrow> b_Store g' = fold (AddCScript (ce_ssl e)) (codes (tl txs)) (b_Store g)"
proof -
  let ?first = "null_tx\<lparr>tx_vin := map (\<lambda>p. empty_txin\<lparr>ti_prevout := p\<rparr>) prevOut\<rparr>"
  let ?params = "\<lparr>p_nScriptHash = 0, p_nNulldata = 0, p_nFees = 0\<rparr>"
  from assms(5) obtain txs1 idx B params out where r:
    "EmbedData_loop e ([] @ [?first, null_tx]) (length ([] :: CTransaction list)) dat nBudget ?params g = Some (Inr (txs1, idx, B, params, g'))"
    "txs = txs1[idx + 1 := (txs1 ! (idx + 1))\<lparr>tx_vout := tx_vout (txs1 ! (idx + 1)) @ [out]\<rparr>]"
    "to_scriptPubKey out = SetDestination (addr_Get (ce_params e) addr)"
    by (auto simp: EmbedData_def Let_def rbind_eq_Inr split: option.splits sum.splits)
  have len: "length txs1 = idx + 2" using EmbedData_loop_prefix [OF assms(3) _ r(1)] by simp
  then have "butlast txs = butlast txs1" by (simp add: r(2) butlast_list_update)
  then have "\<forall>tx \<in> set (butlast txs1). \<forall>o' \<in> set (tx_vout tx). MoneyRange (to_nValue o')"
    using assms(6) by simp
  from EmbedData_loop_extract [OF assms(1-4) _ _ _ r(1) this] obtain mid lst bs where x:
    "txs1 = mid @ [lst]" "mid \<noteq> []" "tx_vout lst = []" "consumed dat [] bs"
    "dat \<noteq> [] \<longrightarrow> successively (chained (ce_ssl e) (b_Store g)) (mid @ [lst]) \<and>
         b_Store g' = fold (AddCScript (ce_ssl e)) (codes (tl (mid @ [lst]))) (b_Store g)"
    "\<forall>g'' lst' b. nSuffixBits g'' = Inr (int m) \<longrightarrow> tx_vin lst' = tx_vin lst \<longrightarrow>
         ExtractData_loop e g'' (mid @ [lst']) b = Inr (b @ bs)"
    by (auto simp: null_tx_def)
  from consumed_all [OF x(4)] obtain pad where pad: "bs = dat @ replicate pad False" by blast
  let ?lst = "lst\<lparr>tx_vout := [out]\<rparr>"
  have "idx + 1 = length mid" using len x(1) by simp
  then have txs: "txs = mid @ [?lst]" by (simp add: r(2) x(1,3))
  have "ExtractData e txs gr = Inr (dat @ replicate pad False)" if "nSuffixBits gr = Inr (int m)" for gr
    using x(6) that by (simp add: txs ExtractData_def pad)
  moreover have "codes (tl txs) = codes (tl (mid @ [lst]))" using x(2) by (cases mid) (simp_all add: txs codes_def)
  moreover have "successively (chained (ce_ssl e) (b_Store g)) txs" if "dat \<noteq> []"
  proof -
    have "chained (ce_ssl e) (b_Store g) c ?lst = chained (ce_ssl e) (b_Store g) c lst" for c by (simp add: chained_def)
    then show ?thesis using x(5) that by (simp add: txs successively_append_iff)
  qed
  ultimately show thesis using that [OF txs x(2), of pad out] r(3) x(5) by simp
qed

section \<open>Properties\<close>

text \<open>C2: the data embedded in a chain of transactions is extracted from it, followed by zeros, whatever the
  configuration holds apart from the length of the suffixes; the outputs must stay in the range of money.\<close>

theorem channel_roundtrip:
  assumes "env_ok e" "keys_ok (ce_ssl e) m g" "length dat < 2 ^ 31" "unat nBudget < 2 ^ 62"
    and "EmbedData e dat nBudget prevOut addr g = Some (Inr (txs, g'))"
    and "\<forall>tx \<in> set (butlast txs). \<forall>o' \<in> set (tx_vout tx). MoneyRange (to_nValue o')"
  shows "\<exists>pad. \<forall>gr. nSuffixBits gr = Inr (int m) \<longrightarrow> ExtractData e txs gr = Inr (dat @ replicate pad False)"
proof -
  obtain pad where "\<And>gr. nSuffixBits gr = Inr (int m) \<Longrightarrow> ExtractData e txs gr = Inr (dat @ replicate pad False)"
    using EmbedData_chain [OF assms] by metis
  then show ?thesis by blast
qed

theorem channel_roundtrip_witness:
  "\<exists>txs g' pad. EmbedData sample_chan [False, True, True, True] 100000 [sample_prevout] empty_base58 sample_bms = Some (Inr (txs, g')) \<and>
     ExtractData sample_chan txs sample_bms = Inr ([False, True, True, True] @ replicate pad False)"
proof -
  obtain cur nxt g' where r: "EmbedData sample_chan [False, True, True, True] 100000 [sample_prevout] empty_base58 sample_bms
      = Some (Inr ([cur, nxt], g'))" "map to_nValue (tx_vout cur) = [90000]"
    using sample_embed [of sample_bms "[False, True, True, True]" "[sample_prevout]" 100000 empty_base58] sample_keys_ok
    by (auto simp: sample_state_def)
  have "\<forall>tx \<in> set (butlast [cur, nxt]). \<forall>o' \<in> set (tx_vout tx). MoneyRange (to_nValue o')"
    using r(2) by (auto simp: MoneyRange_def MAX_MONEY_def COIN_def)
  then obtain pad where "ExtractData sample_chan [cur, nxt] sample_bms = Inr ([False, True, True, True] @ replicate pad False)"
    using channel_roundtrip [OF sample_env_ok, of 4 sample_bms "[False, True, True, True]" 100000, OF _ _ _ r(1)]
      sample_keys_ok sample_config(1) by auto
  then show ?thesis using r(1) by auto
qed

end
