(* ===== verification/Program.thy ===== *)
theory Program
  imports Channel
begin

text \<open>
  \<open>src/src/Main.cpp\<close>: the two modes of the program. What the user chooses (the inputs for a given
  least budget, the address, whether the password unlocks the wallet) and the wallet are parameters;
  the texts that are printed are left out.
\<close>

text \<open>Mode \<open>W\<close> up to the question for the password.\<close>

definition ComposeMessage ::
  "chan_env \<Rightarrow> data \<Rightarrow> (u64 \<Rightarrow> (u64 \<times> COutPoint list) result) \<Rightarrow> CBase58Data result \<Rightarrow> bms
     \<Rightarrow> (TransactionChain \<times> bms) result option" where
  "ComposeMessage e text SelectInputs SelectAddress g =
     (let text = TransformCharDomain text
      in case Compress text (b_HuffCode g) of
           Inl err \<Rightarrow> Some (Inl err)
         | Inr compressedData \<Rightarrow>
             (case MinimumBudget e (length compressedData) g of
                None \<Rightarrow> None
              | Some (Inl err) \<Rightarrow> Some (Inl err)
              | Some (Inr (minimum, g)) \<Rightarrow>
                  (case rbind (SelectInputs minimum) (\<lambda>params. rbind SelectAddress (\<lambda>addr. Inr (params, addr))) of
                     Inl err \<Rightarrow> Some (Inl err)
                   | Inr ((budget, utxo), addr) \<Rightarrow> EmbedData e compressedData budget utxo addr g)))"

text \<open>The rest of mode \<open>W\<close>: the texts that were sent, and the chain as it was authorised.\<close>

definition PublishMessage ::
  "chan_env \<Rightarrow> wallet \<Rightarrow> bool \<Rightarrow> TransactionChain \<Rightarrow> string \<Rightarrow> bms
     \<Rightarrow> string list \<times> (TransactionChain \<times> string \<times> bms) result" where
  "PublishMessage e w unlocks chain file g =
     (case rbind (ChainFee chain g) (\<lambda>nFees.
             if \<not> unlocks then Inl (Thrown ''[Wallet] Error while unlocking wallet'')
             else AuthorizeTransactions e w chain g) of
        Inl err \<Rightarrow> ([], Inl err)
      | Inr (chain, g) \<Rightarrow>
          let (sent, r) = SendTransactions w chain
          in (sent, rbind r (\<lambda>_.
               rbind (UpdateChainstate (tx_GetHash (ce_ssl e) (hd chain)) (tx_GetHash (ce_ssl e) (last chain)) file g)
                 (\<lambda>(file, g). Inr (chain, file, g)))))"

text \<open>Mode \<open>R\<close>.\<close>

definition ReadMessages :: "chan_env \<Rightarrow> wallet \<Rightarrow> string \<Rightarrow> string \<Rightarrow> bms \<Rightarrow> data list result option" where
  "ReadMessages e w firstID lastID g =
     (let BeginTx = SetHex 8 firstID; EndTx = SetHex 8 lastID
      in map_option (\<lambda>r. rbind r (rmap (\<lambda>chain.
           rbind (ExtractData e chain g) (\<lambda>compressedData. Inr (Decompress compressedData (b_HuffCode g))))))
           (ReadTransactions w BeginTx EndTx))"

end
