(* ===== verification/Delivery.thy ===== *)
theory Delivery
  imports Roundtrip Program
begin

text \<open>
  From the text that is written to the texts that are read: the chain is signed, sent, stored by the
  network under the hashes of its transactions, found again from the last transaction and unpacked.
\<close>

section \<open>The dry run\<close>

text \<open>The keys stay in order, whatever the budget.\<close>

lemma embed_round_keys:
  assumes e: "env_ok e" and g: "keys_ok (ce_ssl e) m g" and bits: "length bits < 2 ^ 31"
    and r: "embed_round e cur nxt bits nBudget params g = Inr (cur', nxt', bits', nBudget', params', g')"
  shows "keys_ok (ce_ssl e) m g'"
proof -
  obtain vout0 vin0 b1 vout1 vin1 b2 vout2 v3 n3 where s:
    "OptimizeParams e g cur bits nBudget params = Inr params'"
    "pack_values e bits vout0 vin0 nBudget (p_nFees params') = Inr (b1, vout1, vin1)"
    "(if p_nNulldata params' \<noteq> 0 then
        rbind (PackDataIntoNulldata b1 null_txout) (\<lambda>(bits, txOut). Inr (bits, vout1 @ [txOut]))
      else Inr (b1, vout1)) = Inr (b2, vout2)"
    "rfold (pack_output e) [0..<p_nScriptHash params'] (b2, vout2, nxt\<lparr>tx_vin := vin1\<rparr>, g) = Inr (bits', v3, n3, g')"
    by (rule embed_round_stages [OF r])
  have b1: "length b1 \<le> length bits" by (rule pack_values_shrinks [OF bits s(2)])
  have "length b2 \<le> length b1"
    using s(3) PackDataIntoNulldata_unpack [of b1] consumed_length b1 bits by (fastforce simp: rbind_eq_Inr split: if_splits)
  then have b2: "length b2 < 2 ^ 31" using b1 bits by linarith
  have "p_nScriptHash params' \<le> 14"
    using OptimizeParams_counts [OF s(1)] OptimizeParams_Nil [of e g cur nBudget params params'] s(1)
    by (cases "bits = []") (auto simp: counts_ok_def)
  then have "p_nScriptHash params' < 2 ^ 32" by simp
  from pack_outputs_unpack [OF e g b2 this s(4)] show ?thesis by simp
qed

lemma EmbedData_loop_keys:
  assumes "env_ok e"
  shows "keys_ok (ce_ssl e) m g \<Longrightarrow> length bits < 2 ^ 31 \<Longrightarrow>
    EmbedData_loop e txs idx bits nBudget params g = Some (Inr (txs', idx', nBudget', params', g')) \<Longrightarrow> keys_ok (ce_ssl e) m g'"
proof (induction "length bits" arbitrary: txs idx bits nBudget params g rule: less_induct)
  case less
  obtain cur nxt b B p h where r:
    "embed_round e (txs ! idx) (txs ! (idx + 1)) bits nBudget params g = Inr (cur, nxt, b, B, p, h)"
    "b \<noteq> [] \<longrightarrow> EmbedData_loop e (txs[idx := cur, idx + 1 := nxt] @ [null_tx]) (idx + 1) b B p h
        = Some (Inr (txs', idx', nBudget', params', g'))"
    "b = [] \<longrightarrow> txs' = txs[idx := cur, idx + 1 := nxt] \<and> idx' = idx \<and> nBudget' = B \<and> params' = p \<and> g' = h"
    by (rule EmbedData_loop_result [OF less.prems(3)])
  have h: "keys_ok (ce_ssl e) m h" by (rule embed_round_keys [OF assms less.prems(1,2) r(1)])
  show ?case
  proof (cases "b = []")
    case False
    have "length b \<le> length bits - 32" by (rule embed_round_shrinks [OF less.prems(2) r(1)])
    then have "length b < length bits" using False by (cases b) auto
    with less.hyps [OF this h _ r(2) [rule_format, OF False]] less.prems(2) show ?thesis by simp
  qed (use r(3) h in simp)
qed

lemma EmbedData_keys:
  assumes "env_ok e" "keys_ok (ce_ssl e) m g" "length dat < 2 ^ 31"
    and "EmbedData e dat nBudget prevOut addr g = Some (Inr (txs, g'))"
  shows "keys_ok (ce_ssl e) m g'"
  using assms(4) EmbedData_loop_keys [OF assms(1-3)]
  by (auto simp: EmbedData_def Let_def rbind_eq_Inr split: option.splits sum.splits)

lemma MinimumBudget_keys:
  assumes "env_ok e" "keys_ok (ce_ssl e) m g" "n < 2 ^ 31" "MinimumBudget e n g = Some (Inr (b, g'))"
  shows "keys_ok (ce_ssl e) m g'"
  using assms(4) EmbedData_keys [OF assms(1,2), of "replicate n False"] assms(3)
  by (auto simp: MinimumBudget_def rbind_eq_Inr split: sum.splits)

section \<open>Signing a chain\<close>

text \<open>The store gives back every script of a chain, unless two of them have the same hash.\<close>

lemma AddCScript_other:
  "script_GetID ssl c \<noteq> script_GetID ssl d \<Longrightarrow> GetCScript (AddCScript ssl d ks) (script_GetID ssl c) = GetCScript ks (script_GetID ssl c)"
  by (simp add: AddCScript_def GetCScript_def lookup_update_neq)

lemma GetCScript_fold:
  "inj_on (script_GetID ssl) (set cs) \<Longrightarrow> c \<in> set cs \<Longrightarrow>
    GetCScript (fold (AddCScript ssl) cs ks) (script_GetID ssl c) = Some c"
proof (induction cs rule: rev_induct)
  case (snoc d cs)
  show ?case
  proof (cases "c = d")
    case True
    then show ?thesis by (simp add: AddCScript_lookup)
  next
    case False
    then have c: "c \<in> set cs" and ne: "script_GetID ssl c \<noteq> script_GetID ssl d"
      using snoc.prems by (auto simp: inj_on_def)
    have "GetCScript (fold (AddCScript ssl) cs ks) (script_GetID ssl c) = Some c"
      using snoc.IH snoc.prems(1) c by (auto intro: inj_on_subset)
    then show ?thesis using ne by (simp add: AddCScript_other)
  qed
qed simp

lemma redeems_fold: "redeems ssl (fold (AddCScript ssl) cs ks) = redeems ssl ks"
  by (induction cs arbitrary: ks) (simp_all add: AddCScript_keys)

text \<open>What extraction reads of an input does not change.\<close>

definition same_input :: "CTxIn \<Rightarrow> CTxIn \<Rightarrow> bool" where
  "same_input x y \<longleftrightarrow> redeemed y = redeemed x \<and> ti_nSequence y = ti_nSequence x \<and>
     op_n (ti_prevout y) = op_n (ti_prevout x)"

definition same_message :: "CTransaction \<Rightarrow> CTransaction \<Rightarrow> bool" where
  "same_message t u \<longleftrightarrow> tx_nVersion u = tx_nVersion t \<and> tx_vout u = tx_vout t \<and> list_all2 same_input (tx_vin t) (tx_vin u)"

lemma same_input_refl: "same_input x x"
  by (simp add: same_input_def)

lemma list_all2_same_refl: "list_all2 same_input xs xs"
  by (simp add: list_all2_refl same_input_refl)

definition store_has :: "openssl \<Rightarrow> CBasicKeyStore \<Rightarrow> script \<Rightarrow> bool" where
  "store_has ssl ks c \<longleftrightarrow> GetCScript ks (script_GetID ssl c) = Some c"

lemma sign_inputs_ok:
  assumes e: "env_ok e" and g: "cache_ok (ce_ssl e) (b_Cache g)" and len: "length (tx_vin tx) < 2 ^ 32"
    and ok: "\<forall>x \<in> set (tx_vin tx). redeems (ce_ssl e) (b_Store g) (redeemed x) \<and> pays (ce_ssl e) (tx_vout prev) x \<and>
      store_has (ce_ssl e) (b_Store g) (redeemed x) \<and> op_ok (ti_prevout x)"
  shows "\<exists>vin c. sign_inputs e prev tx g = Inr (tx\<lparr>tx_vin := vin\<rparr>, g\<lparr>b_Cache := c\<rparr>) \<and> cache_ok (ce_ssl e) c \<and>
    list_all2 same_input (tx_vin tx) vin \<and> map ti_prevout vin = map ti_prevout (tx_vin tx) \<and> list_all txin_ok vin"
proof -
  let ?ssl = "ce_ssl e"
  have ssl: "openssl_ok ?ssl" "ecdsa_ok ?ssl" using e by (simp_all add: env_ok_def)
  define step where "step = (\<lambda>j (tx, g :: bms).
         let n = unat (op_n (ti_prevout (tx_vin tx ! j)))
         in rbind (vec_at (tx_vout prev) n) (\<lambda>txOut.
            case SignSignature (ce_sig e) (b_Store g) (to_scriptPubKey txOut) tx (of_nat j) 1 (b_Cache g) of
              (Inl err, c) \<Rightarrow> Inl err
            | (Inr (ok, tx), c) \<Rightarrow>
                if \<not> ok then Inl (Thrown ''[AuthorizeTransactions] Signature generation failed'')
                else Inr (tx, g\<lparr>b_Cache := c\<rparr>)))"
  have "\<exists>vin c. rfold step [0..<k] (tx, g) = Inr (tx\<lparr>tx_vin := vin\<rparr>, g\<lparr>b_Cache := c\<rparr>) \<and> cache_ok ?ssl c \<and>
    list_all2 same_input (tx_vin tx) vin \<and> map ti_prevout vin = map ti_prevout (tx_vin tx) \<and>
    (\<forall>j < k. length (ti_scriptSig (vin ! j)) \<le> 700)" if "k \<le> length (tx_vin tx)" for k
    using that
  proof (induction k)
    case 0
    show ?case using g by (intro exI [of _ "tx_vin tx"] exI [of _ "b_Cache g"]) (simp add: list_all2_same_refl)
  next
    case (Suc k)
    then obtain vin c where IH: "rfold step [0..<k] (tx, g) = Inr (tx\<lparr>tx_vin := vin\<rparr>, g\<lparr>b_Cache := c\<rparr>)" "cache_ok ?ssl c"
      "list_all2 same_input (tx_vin tx) vin" "map ti_prevout vin = map ti_prevout (tx_vin tx)"
      "\<forall>j < k. length (ti_scriptSig (vin ! j)) \<le> 700" by auto
    have k: "k < length (tx_vin tx)" "length vin = length (tx_vin tx)" using Suc.prems list_all2_lengthD [OF IH(3)] by simp_all
    define x where "x = tx_vin tx ! k"
    have x: "redeems ?ssl (b_Store g) (redeemed x)" "pays ?ssl (tx_vout prev) x" "store_has ?ssl (b_Store g) (redeemed x)"
      using ok k(1) by (simp_all add: x_def)
    have prevout: "ti_prevout (vin ! k) = ti_prevout x" using IH(4) k by (metis nth_map x_def)
    from x(1) obtain key pk vs where r: "signs_with ?ssl (b_Store g) key pk" "k_fCompressed key" "length vs \<le> 14"
      "\<forall>v \<in> set vs. length v = 33 \<and> hd v \<in> {2, 3}" "redeemed x = multisig_code 1 (pk_bytes pk # vs)" by (auto simp: redeems_def)
    let ?tx = "tx\<lparr>tx_vin := vin\<rparr>"
    have kk: "unat (of_nat k :: u32) = k" using k(1) len by (simp add: unat_of_nat)
    from SignSignature_script_hash [OF ssl IH(2) r(1-4) _ r(5) x(3) [unfolded store_has_def], of 1 "of_nat k" ?tx] kk k
    obtain sig c' where s: "key_Sign ?ssl key (SignatureHash ?ssl (redeemed x) ?tx (of_nat k) 1) = Some sig"
      "SignSignature (ce_sig e) (b_Store g) (SetDestination (CScriptID (script_GetID ?ssl (redeemed x)))) ?tx (of_nat k) 1 c =
        (Inr (True, set_scriptSig k (PushAll [[], sig @ [ucast (1 :: u32)], redeemed x]) ?tx), c')" "cache_ok ?ssl c'"
      by auto
    note p = redeem_pushes [OF ssl(2,1) r s(1), of "ucast (1 :: u32)"]
    let ?S = "PushAll [[], sig @ [ucast (1 :: u32)], redeemed x]"
    let ?y = "(vin ! k)\<lparr>ti_scriptSig := ?S\<rparr>"
    have y: "same_input x ?y"
      using p(1) list_all2_nthD [OF IH(3) k(1)] by (simp add: same_input_def redeemed_def x_def)
    have st: "rfold step [0..<Suc k] (tx, g) = Inr (tx\<lparr>tx_vin := vin[k := ?y]\<rparr>, g\<lparr>b_Cache := c'\<rparr>)"
      using IH(1) x(2) s(2) k prevout
      by (simp add: rfold_append step_def Let_def pays_def vec_at_def set_scriptSig_def)
    have "list_all2 same_input (tx_vin tx) (vin[k := ?y])"
      using IH(3) y by (metis list_all2_update_cong list_update_id x_def)
    moreover have "map ti_prevout (vin[k := ?y]) = map ti_prevout (tx_vin tx)"
      using IH(4) k prevout by (simp add: map_update list_update_same_conv x_def)
    ultimately show ?case using st s(3) IH(5) p(2) k
      by (intro exI [of _ "vin[k := ?y]"] exI [of _ c']) (auto simp: less_Suc_eq nth_list_update)
  qed
  from this [of "length (tx_vin tx)"] obtain vin c where v:
    "rfold step [0..<length (tx_vin tx)] (tx, g) = Inr (tx\<lparr>tx_vin := vin\<rparr>, g\<lparr>b_Cache := c\<rparr>)" "cache_ok ?ssl c"
    "list_all2 same_input (tx_vin tx) vin" "map ti_prevout vin = map ti_prevout (tx_vin tx)"
    "\<forall>j < length (tx_vin tx). length (ti_scriptSig (vin ! j)) \<le> 700" by auto
  have "txin_ok (vin ! j)" if "j < length vin" for j
  proof -
    have j: "j < length (tx_vin tx)" using that list_all2_lengthD [OF v(3)] by simp
    then have "ti_prevout (vin ! j) = ti_prevout (tx_vin tx ! j)" using v(4) that by (metis nth_map)
    then have "op_ok (ti_prevout (vin ! j))" using ok j by simp
    moreover have "length (ti_scriptSig (vin ! j)) \<le> 700" using v(5) j by simp
    ultimately show ?thesis by (simp add: txin_ok_def MAX_SIZE_def)
  qed
  then have "list_all txin_ok vin" by (simp add: list_all_length)
  moreover have "sign_inputs e prev tx g = rfold step [0..<length (tx_vin tx)] (tx, g)"
    by (simp add: sign_inputs_def step_def)
  ultimately show ?thesis using v by auto
qed

text \<open>Each transaction names the one before it.\<close>

definition linked :: "openssl \<Rightarrow> CTransaction \<Rightarrow> CTransaction \<Rightarrow> bool" where
  "linked ssl t u \<longleftrightarrow> tx_vin u \<noteq> [] \<and> (\<forall>x \<in> set (tx_vin u). COutPoint.op_hash (ti_prevout x) = tx_GetHash ssl t)"

lemma length_tx_GetHash: "digests_ok ssl \<Longrightarrow> length (tx_GetHash ssl tx) = 8"
  by (simp add: tx_GetHash_def SerializeHash_Hash length_Hash)

lemma authorize_rest_ok:
  assumes e: "env_ok e"
  shows "cache_ok (ce_ssl e) (b_Cache g) \<Longrightarrow> successively (chained (ce_ssl e) (b_Store g)) (cur # txs) \<Longrightarrow>
    tx_vout prev = tx_vout cur \<Longrightarrow> \<forall>c \<in> set (codes txs). store_has (ce_ssl e) (b_Store g) c \<Longrightarrow>
    \<exists>txs' c. authorize_rest e prev txs g = Inr (txs', g\<lparr>b_Cache := c\<rparr>) \<and> list_all2 same_message txs txs' \<and>
      successively (linked (ce_ssl e)) (prev # txs') \<and>
      (\<forall>tx \<in> set txs'. list_all txin_ok (tx_vin tx) \<and> length (tx_vin tx) \<le> 14)"
proof (induction txs arbitrary: cur prev g)
  case (Cons tx txs)
  let ?ssl = "ce_ssl e"
  have ch: "chained ?ssl (b_Store g) cur tx" "successively (chained ?ssl (b_Store g)) (tx # txs)" using Cons.prems(2) by simp_all
  let ?tx = "tx\<lparr>tx_vin := map (set_hash (tx_GetHash ?ssl prev)) (tx_vin tx)\<rparr>"
  have h: "length (tx_GetHash ?ssl prev) = 8" using e by (simp add: env_ok_def openssl_ok_def length_tx_GetHash)
  have ok: "\<forall>x \<in> set (tx_vin ?tx). redeems ?ssl (b_Store g) (redeemed x) \<and> pays ?ssl (tx_vout prev) x \<and>
      store_has ?ssl (b_Store g) (redeemed x) \<and> op_ok (ti_prevout x)"
    using ch(1) Cons.prems(3,4) h by (auto simp: chained_def pays_def set_hash_def redeemed_def op_ok_def)
  have "length (tx_vin ?tx) < 2 ^ 32" using ch(1) by (simp add: chained_def)
  from sign_inputs_ok [OF e Cons.prems(1) this ok] obtain vin c where s:
    "sign_inputs e prev ?tx g = Inr (tx\<lparr>tx_vin := vin\<rparr>, g\<lparr>b_Cache := c\<rparr>)" "cache_ok ?ssl c"
    "list_all2 same_input (map (set_hash (tx_GetHash ?ssl prev)) (tx_vin tx)) vin"
    "map ti_prevout vin = map ti_prevout (tx_vin ?tx)" "list_all txin_ok vin" by auto
  let ?u = "tx\<lparr>tx_vin := vin\<rparr>"
  have len: "length vin = length (tx_vin tx)" using list_all2_lengthD [OF s(3)] by simp
  have same: "same_message tx ?u"
    using s(3) by (auto simp: same_message_def list_all2_conv_all_nth same_input_def redeemed_def set_hash_def)
  have "COutPoint.op_hash (ti_prevout x) = tx_GetHash ?ssl prev" if "x \<in> set vin" for x
  proof -
    have "ti_prevout x \<in> set (map ti_prevout (tx_vin ?tx))" using that s(4) by (metis image_eqI list.set_map)
    then show ?thesis by (auto simp: set_hash_def)
  qed
  then have link: "linked ?ssl prev ?u" using ch(1) len by (auto simp: linked_def chained_def)
  from Cons.IH [of "g\<lparr>b_Cache := c\<rparr>" tx ?u] ch(2) s(2) Cons.prems(4) obtain txs' c' where r:
    "authorize_rest e ?u txs (g\<lparr>b_Cache := c\<rparr>) = Inr (txs', g\<lparr>b_Cache := c'\<rparr>)" "list_all2 same_message txs txs'"
    "successively (linked ?ssl) (?u # txs')"
    "\<forall>tx \<in> set txs'. list_all txin_ok (tx_vin tx) \<and> length (tx_vin tx) \<le> 14" by auto
  have "authorize_rest e prev (tx # txs) g = Inr (?u # txs', g\<lparr>b_Cache := c'\<rparr>)" using s(1) r(1) by (simp add: Let_def)
  moreover have "length vin \<le> 14" using len ch(1) by (simp add: chained_def)
  ultimately show ?case using same r(2-4) link s(5)
    by (intro exI [of _ "?u # txs'"] exI [of _ c']) simp
next
  case Nil
  then show ?case by (intro exI [of _ "[]"] exI [of _ "b_Cache g"]) simp
qed

section \<open>Extraction after signing\<close>

lemma extract_pair_same:
  assumes "tx_vout cur' = tx_vout cur" "list_all2 same_input (tx_vin nxt) (tx_vin nxt')"
  shows "extract_pair e g cur' nxt' = extract_pair e g cur nxt"
proof -
  have len: "length (tx_vin nxt') = length (tx_vin nxt)" using list_all2_lengthD [OF assms(2)] by simp
  have "map (\<lambda>x. ucast (op_n (ti_prevout x)) :: u16) (tx_vin nxt') = map (\<lambda>x. ucast (op_n (ti_prevout x))) (tx_vin nxt)"
    using assms(2) by (auto simp: list_all2_conv_all_nth same_input_def intro!: nth_equalityI)
  then have claim: "UnpackDataFromBudgetClaim e (tx_vin nxt') = UnpackDataFromBudgetClaim e (tx_vin nxt)"
    by (simp add: UnpackDataFromBudgetClaim_def)
  have "rbind (vec_at (tx_vin nxt') j) (\<lambda>x. rbind (UnpackDataFromP2SH x g) (\<lambda>s. Inr (b @ s @ UnpackDataFromSeqNr x))) =
      rbind (vec_at (tx_vin nxt) j) (\<lambda>x. rbind (UnpackDataFromP2SH x g) (\<lambda>s. Inr (b @ s @ UnpackDataFromSeqNr x)))" for j b
  proof (cases "j < length (tx_vin nxt)")
    case True
    then have "same_input (tx_vin nxt ! j) (tx_vin nxt' ! j)" using assms(2) by (simp add: list_all2_conv_all_nth)
    then have "last_push (ti_scriptSig (tx_vin nxt' ! j)) [] = last_push (ti_scriptSig (tx_vin nxt ! j)) []"
      "ti_nSequence (tx_vin nxt' ! j) = ti_nSequence (tx_vin nxt ! j)" by (simp_all add: same_input_def redeemed_def)
    then have "UnpackDataFromP2SH (tx_vin nxt' ! j) g = UnpackDataFromP2SH (tx_vin nxt ! j) g"
      "UnpackDataFromSeqNr (tx_vin nxt' ! j) = UnpackDataFromSeqNr (tx_vin nxt ! j)"
      unfolding UnpackDataFromP2SH_def UnpackDataFromSeqNr_def by (simp_all only:)
    then show ?thesis using True len by (simp add: vec_at_def)
  qed (simp add: vec_at_def len)
  then show ?thesis unfolding extract_pair_def assms(1) claim by (simp only:)
qed

lemma ExtractData_loop_same:
  "list_all2 same_message txs txs' \<Longrightarrow> tx_vout cur' = tx_vout cur \<Longrightarrow>
    ExtractData_loop e g (cur' # txs') b = ExtractData_loop e g (cur # txs) b"
proof (induction txs arbitrary: txs' cur cur' b)
  case (Cons t txs)
  then obtain u us where u: "txs' = u # us" "same_message t u" "list_all2 same_message txs us" by (auto simp: list_all2_Cons1)
  then have "extract_pair e g cur' u = extract_pair e g cur t"
    using Cons.prems(2) by (intro extract_pair_same) (simp_all add: same_message_def)
  moreover have "ExtractData_loop e g (u # us) b = ExtractData_loop e g (t # txs) b" for b
    using Cons.IH [OF u(3)] u(2) by (simp add: same_message_def)
  ultimately show ?case by (simp add: u(1))
qed simp

section \<open>Reading a chain\<close>

lemma TransactionHexString: "tx_ok tx \<Longrightarrow> HexStringToTransaction (TransactionToHexString tx) = Inr tx"
  using ser_tx.unser_ser [of tx "[]"] by (simp add: HexStringToTransaction_def TransactionToHexString_def ParseHex_HexStr)

lemma SendTransactions_all: "\<forall>hex. sendrawtransaction w hex \<Longrightarrow> SendTransactions w txs = (map TransactionToHexString txs, Inr ())"
  by (induction txs) simp_all

lemma SendTransactions_sent: "SendTransactions w txs = (sent, Inr u) \<Longrightarrow> sent = map TransactionToHexString txs"
  by (induction txs arbitrary: sent) (auto simp: Let_def split: if_splits prod.splits)

lemma read_back_chain:
  "xs \<noteq> [] \<Longrightarrow> successively (linked ssl) xs \<Longrightarrow> distinct (map (tx_GetHash ssl) xs) \<Longrightarrow>
   \<forall>tx \<in> set xs. read_tx ''[ReadTransactions]: Failed to read transaction'' w (GetHex (tx_GetHash ssl tx)) = Inr tx \<Longrightarrow>
   read_back w (tx_GetHash ssl (hd xs)) (tx_GetHash ssl (last xs)) acc = Some (Inr (xs @ rev acc))"
proof (induction xs arbitrary: acc rule: rev_induct)
  case (snoc x xs)
  show ?case
  proof (cases "xs = []")
    case True
    then show ?thesis using snoc.prems(4) by (simp add: read_back.simps)
  next
    case False
    have link: "linked ssl (last xs) x" "successively (linked ssl) xs"
      using snoc.prems(2) False by (simp_all add: successively_append_iff)
    obtain y ys where y: "tx_vin x = y # ys" using link(1) by (cases "tx_vin x") (auto simp: linked_def)
    have hash: "COutPoint.op_hash (ti_prevout y) = tx_GetHash ssl (last xs)" using link(1) by (simp add: linked_def y)
    have ne: "tx_GetHash ssl (hd xs) \<noteq> tx_GetHash ssl x"
    proof -
      have "tx_GetHash ssl (hd xs) \<in> tx_GetHash ssl ` set xs" using False by simp
      then show ?thesis using snoc.prems(3) by (auto simp: image_iff)
    qed
    have "read_back w (tx_GetHash ssl (hd xs)) (tx_GetHash ssl (last xs)) (acc @ [x]) = Some (Inr (xs @ rev (acc @ [x])))"
      using snoc.prems False link(2) by (intro snoc.IH) simp_all
    then show ?thesis using ne hash y False snoc.prems(4) by (subst read_back.simps) simp
  qed
qed simp

lemma split_chains_one:
  "\<forall>tx \<in> set xs. \<not> P tx \<Longrightarrow> P y \<Longrightarrow> split_chains P sub (xs @ [y]) = [sub @ xs @ [y]]"
  by (induction xs arbitrary: sub) simp_all

lemma successively_butlast:
  "successively P (xs @ [y]) \<Longrightarrow> (\<And>a b. P a b \<Longrightarrow> Q a) \<Longrightarrow> \<forall>x \<in> set xs. Q x"
proof (induction xs)
  case (Cons x xs)
  then show ?case by (cases xs) auto
qed simp


section \<open>From the writer to the reader\<close>

text \<open>Any prefix code that was loaded serves.\<close>

interpretation loaded: prefix_code "\<lambda>book. book" is_prefix_code
  by unfold_locales

lemma Compress_nonempty: "is_prefix_code book \<Longrightarrow> Compress dat book = Inr bits \<Longrightarrow> bits \<noteq> []"
  using loaded.left_at_book by (fastforce simp: Compress_def is_prefix_code_def result_simps)

lemma ends_chain_cong: "tx_vout u = tx_vout t \<Longrightarrow> ends_chain u = ends_chain t"
  by (simp add: ends_chain_def)

lemma ends_chain_address:
  assumes "tx_vout lst = [out]" "to_scriptPubKey out = SetDestination (CKeyID h)"
  shows "ends_chain lst"
  using assms by (simp add: ends_chain_def IsPayToScriptHash_def push_opcode_def push_uint160_def)

lemma AuthorizeTransactions_chain:
  assumes e: "env_ok e" and keys: "keys_ok (ce_ssl e) m g1" and txs: "txs \<noteq> []"
    and chained: "successively (chained (ce_ssl e) (b_Store g)) txs"
    and store: "b_Store g1 = fold (AddCScript (ce_ssl e)) (codes (tl txs)) (b_Store g)"
    and inj: "inj_on (script_GetID (ce_ssl e)) (set (codes (tl txs)))"
    and wallet: "signrawtransaction w (TransactionToHexString (hd txs)) = Some (TransactionToHexString tx1, True)"
      "tx_ok tx1" "tx_vout tx1 = tx_vout (hd txs)"
    and out: "\<forall>t \<in> set txs. list_all txout_ok (tx_vout t) \<and> length (tx_vout t) \<le> 15"
  shows "\<exists>rest c. AuthorizeTransactions e w txs g1 = Inr (tx1 # rest, g1\<lparr>b_Cache := c\<rparr>) \<and>
    list_all2 same_message (tl txs) rest \<and> successively (linked (ce_ssl e)) (tx1 # rest) \<and> (\<forall>t \<in> set (tx1 # rest). tx_ok t)"
proof -
  have "chained (ce_ssl e) (b_Store g1) = chained (ce_ssl e) (b_Store g)"
    by (simp add: fun_eq_iff chained_def store redeems_fold)
  then have ch: "successively (chained (ce_ssl e) (b_Store g1)) (hd txs # tl txs)" using chained txs by simp
  have ca: "cache_ok (ce_ssl e) (b_Cache g1)" using keys by (simp add: keys_ok_def)
  have st: "\<forall>c \<in> set (codes (tl txs)). store_has (ce_ssl e) (b_Store g1) c"
    using GetCScript_fold [OF inj] by (simp add: store_has_def store)
  from authorize_rest_ok [OF e ca ch wallet(3) st] obtain rest c where r: "authorize_rest e tx1 (tl txs) g1 = Inr (rest, g1\<lparr>b_Cache := c\<rparr>)"
    "list_all2 same_message (tl txs) rest" "successively (linked (ce_ssl e)) (tx1 # rest)"
    "\<forall>tx \<in> set rest. list_all txin_ok (tx_vin tx) \<and> length (tx_vin tx) \<le> 14"
    by blast
  have "tx_ok t" if "t \<in> set rest" for t
  proof -
    obtain i where i: "i < length rest" "t = rest ! i" using \<open>t \<in> set rest\<close> by (auto simp: in_set_conv_nth)
    define u where "u = tl txs ! i"
    have "u \<in> set (tl txs)" "same_message u t"
      using list_all2_nthD2 [OF r(2) i(1)] list_all2_lengthD [OF r(2)] i by (simp_all add: u_def)
    then have "u \<in> set txs" "tx_vout t = tx_vout u" using txs by (simp_all add: list.set_sel(2) same_message_def)
    with out have "list_all txout_ok (tx_vout t)" "length (tx_vout t) \<le> 15" by simp_all
    moreover have "list_all txin_ok (tx_vin t)" "length (tx_vin t) \<le> 14" using r(4) that by simp_all
    ultimately show ?thesis by (simp add: tx_ok_def MAX_SIZE_def)
  qed
  moreover have "AuthorizeTransactions e w txs g1 = Inr (tx1 # rest, g1\<lparr>b_Cache := c\<rparr>)"
    using txs wallet r(1) by (simp add: AuthorizeTransactions_def vec_at_def hd_conv_nth TransactionHexString)
  ultimately show ?thesis using r(2,3) wallet(2) by auto
qed

lemma ReadTransactions_chain:
  assumes "digests_ok ssl" "xs \<noteq> []" "successively (linked ssl) xs" "distinct (map (tx_GetHash ssl) xs)" "\<forall>t \<in> set xs. tx_ok t"
    and "\<forall>t \<in> set xs. \<exists>b. getrawtransaction w (GetHex (tx_GetHash ssl t)) = Some (TransactionToHexString t, b)"
    and "\<forall>t \<in> set (butlast xs). \<not> ends_chain t" "ends_chain (last xs)"
  shows "ReadTransactions w (tx_GetHash ssl (hd xs)) (tx_GetHash ssl (last xs)) = Some (Inr [xs])"
proof -
  have "\<forall>tx \<in> set xs. read_tx ''[ReadTransactions]: Failed to read transaction'' w (GetHex (tx_GetHash ssl tx)) = Inr tx"
    using assms(5,6) by (fastforce simp: read_tx_def TransactionHexString)
  from read_back_chain [OF assms(2-4) this, of "[]"]
  have "read_back w (tx_GetHash ssl (hd xs)) (tx_GetHash ssl (last xs)) [] = Some (Inr xs)" by simp
  moreover have "split_chains ends_chain [] xs = [xs]"
    using split_chains_one [of "butlast xs" ends_chain "last xs" "[]"] assms(2,7,8) by simp
  ultimately show ?thesis by (simp add: ReadTransactions_def)
qed


lemma map_snoc_eq: "map f xs = ys @ [y] \<Longrightarrow> map f (butlast xs) = ys \<and> f (last xs) = y"
  by (cases xs rule: rev_cases) simp_all

text \<open>The chain that the reader finds holds the data of the chain that was embedded.\<close>

lemma delivered_chain:
  assumes e: "env_ok e" and keys: "keys_ok (ce_ssl e) m g" and bits: "bits \<noteq> []" "length bits < 2 ^ 31"
    and embed: "EmbedData e bits nBudget prevOut addr g = Some (Inr (txs, g1))" "unat nBudget < 2 ^ 62"
    and money: "\<forall>tx \<in> set (butlast txs). \<forall>o' \<in> set (tx_vout tx). MoneyRange (to_nValue o')"
    and addr: "addr_Get (ce_params e) addr = CKeyID h" "length h = 5"
    and inj: "inj_on (script_GetID (ce_ssl e)) (set (codes (tl txs)))"
    and wallet: "signrawtransaction w (TransactionToHexString (hd txs)) = Some (TransactionToHexString tx1, True)"
      "tx_ok tx1" "tx_vout tx1 = tx_vout (hd txs)"
  shows "\<exists>rest c pad. AuthorizeTransactions e w txs g1 = Inr (tx1 # rest, g1\<lparr>b_Cache := c\<rparr>) \<and>
    (\<forall>t \<in> set (tx1 # rest). tx_ok t) \<and> list_all2 same_message (tl txs) rest \<and> successively (linked (ce_ssl e)) (tx1 # rest) \<and>
    (\<forall>gr. nSuffixBits gr = Inr (int m) \<longrightarrow> ExtractData e (tx1 # rest) gr = Inr (bits @ replicate pad False)) \<and>
    (\<forall>w'. distinct (map (tx_GetHash (ce_ssl e)) (tx1 # rest)) \<longrightarrow>
      (\<forall>t \<in> set (tx1 # rest). \<exists>b. getrawtransaction w' (GetHex (tx_GetHash (ce_ssl e) t)) = Some (TransactionToHexString t, b)) \<longrightarrow>
      ReadTransactions w' (tx_GetHash (ce_ssl e) tx1) (tx_GetHash (ce_ssl e) (last (tx1 # rest))) = Some (Inr [tx1 # rest]))"
proof -
  obtain mid lst pad out where x: "txs = mid @ [lst]" "mid \<noteq> []"
    "\<And>gr. nSuffixBits gr = Inr (int m) \<Longrightarrow> ExtractData e txs gr = Inr (bits @ replicate pad False)"
    "tx_vout lst = [out]" "to_scriptPubKey out = SetDestination (addr_Get (ce_params e) addr)"
    "successively (chained (ce_ssl e) (b_Store g)) txs"
    "b_Store g1 = fold (AddCScript (ce_ssl e)) (codes (tl txs)) (b_Store g)"
    using EmbedData_chain [OF e keys bits(2) embed(2,1) money] bits(1) by metis
  have txs: "txs \<noteq> []" "txs = hd txs # tl txs" using x(1,2) by simp_all
  have mid: "\<forall>t \<in> set mid. list_all txout_ok (tx_vout t) \<and> length (tx_vout t) \<le> 15 \<and> \<not> ends_chain t"
    using x(6) by (intro successively_butlast [of "chained (ce_ssl e) (b_Store g)" mid lst]) (simp_all add: x(1) chained_def)
  have "txout_ok out" using addr by (simp add: x(5) txout_ok_def push_opcode_def push_uint160_def MAX_SIZE_def)
  then have outs: "\<forall>t \<in> set txs. list_all txout_ok (tx_vout t) \<and> length (tx_vout t) \<le> 15" using mid x(4) by (auto simp: x(1))
  obtain rest c where r: "AuthorizeTransactions e w txs g1 = Inr (tx1 # rest, g1\<lparr>b_Cache := c\<rparr>)"
    "list_all2 same_message (tl txs) rest" "successively (linked (ce_ssl e)) (tx1 # rest)" "\<forall>t \<in> set (tx1 # rest). tx_ok t"
    using AuthorizeTransactions_chain [OF e EmbedData_keys [OF e keys bits(2) embed(1)] txs(1) x(6,7) inj wallet outs] by blast
  have "map tx_vout rest = map tx_vout (tl txs)"
    using r(2) by (induction rule: list_all2_induct) (simp_all add: same_message_def)
  then have "map tx_vout (tx1 # rest) = map tx_vout (hd txs # tl txs)" using wallet(3) by simp
  then have vout: "map tx_vout (tx1 # rest) = map tx_vout mid @ [tx_vout lst]" using txs(2) x(1) by simp
  then have "map tx_vout (butlast (tx1 # rest)) = map tx_vout mid" "tx_vout (last (tx1 # rest)) = tx_vout lst"
    using map_snoc_eq [OF vout] by blast+
  then have ends: "\<forall>t \<in> set (butlast (tx1 # rest)). \<not> ends_chain t" "ends_chain (last (tx1 # rest))"
  proof -
    show "\<forall>t \<in> set (butlast (tx1 # rest)). \<not> ends_chain t"
    proof
      fix t assume "t \<in> set (butlast (tx1 # rest))"
      then have "tx_vout t \<in> set (map tx_vout (butlast (tx1 # rest)))" by simp
      then obtain u where "u \<in> set mid" "tx_vout u = tx_vout t"
        unfolding \<open>map tx_vout (butlast (tx1 # rest)) = map tx_vout mid\<close> by auto
      then show "\<not> ends_chain t" using mid ends_chain_cong [of t u] by simp
    qed
    have "ends_chain lst" using ends_chain_address [OF x(4)] x(5) addr(1) by simp
    then show "ends_chain (last (tx1 # rest))"
      using ends_chain_cong [OF \<open>tx_vout (last (tx1 # rest)) = tx_vout lst\<close>] by simp
  qed
  have "ExtractData e (tx1 # rest) gr = ExtractData e txs gr" for gr
  proof -
    have "ExtractData e (tx1 # rest) gr = ExtractData e (hd txs # tl txs) gr"
      using ExtractData_loop_same [OF r(2) wallet(3)] by (simp add: ExtractData_def)
    then show ?thesis using txs(2) by simp
  qed
  then have "\<forall>gr. nSuffixBits gr = Inr (int m) \<longrightarrow> ExtractData e (tx1 # rest) gr = Inr (bits @ replicate pad False)"
    using x(3) by simp
  moreover have "digests_ok (ce_ssl e)" using e by (simp add: env_ok_def openssl_ok_def)
  note ReadTransactions_chain [OF this _ r(3) _ r(4) _ ends]
  ultimately show ?thesis using r by (intro exI [of _ rest] exI [of _ c] exI [of _ pad]) auto
qed

lemma ComposeMessage_result:
  assumes "ComposeMessage e text SelectInputs SelectAddress g = Some (Inr (txs, g1))"
  obtains bits minimum g0 budget utxo addr where
    "Compress (TransformCharDomain text) (b_HuffCode g) = Inr bits" "MinimumBudget e (length bits) g = Some (Inr (minimum, g0))"
    "SelectInputs minimum = Inr (budget, utxo)" "SelectAddress = Inr addr" "EmbedData e bits budget utxo addr g0 = Some (Inr (txs, g1))"
  using assms
  by (auto simp: ComposeMessage_def Let_def rbind_def split: sum.splits option.splits)

lemma PublishMessage_result:
  assumes "PublishMessage e w True txs file g1 = (sent, Inr (chain, file', g2))"
  shows "\<exists>g. AuthorizeTransactions e w txs g1 = Inr (chain, g) \<and> sent = map TransactionToHexString chain"
  using assms SendTransactions_sent
  by (fastforce simp: PublishMessage_def rbind_eq_Inr Let_def split: sum.splits prod.splits)

text \<open>C1: a text that was composed, signed, sent and stored by the network is what the reader reads, given the
  first and the last transaction of its chain: its valid characters, and nothing more. No two scripts of the
  chain may have the same hash, nor two of its transactions; the wallet signs the first transaction without
  changing its outputs.\<close>

theorem message_delivered:
  assumes "env_ok e" "keys_ok (ce_ssl e) m g" "is_prefix_code (b_HuffCode g)"
    and "ComposeMessage e text SelectInputs (Inr addr) g = Some (Inr (txs, g1))"
    and "\<forall>bits. Compress (TransformCharDomain text) (b_HuffCode g) = Inr bits \<longrightarrow> length bits < 2 ^ 31"
    and "\<forall>least budget utxo. SelectInputs least = Inr (budget, utxo) \<longrightarrow> unat budget < 2 ^ 62"
    and "\<forall>tx \<in> set (butlast txs). \<forall>o' \<in> set (tx_vout tx). MoneyRange (to_nValue o')"
    and "addr_Get (ce_params e) addr = CKeyID h" "length h = 5"
    and "inj_on (script_GetID (ce_ssl e)) (set (codes (tl txs)))"
    and "signrawtransaction w (TransactionToHexString (hd txs)) = Some (TransactionToHexString tx1, True)"
    and "tx_ok tx1" "tx_vout tx1 = tx_vout (hd txs)"
    and "PublishMessage e w True txs file g1 = (sent, Inr (chain, file', g2))"
    and "\<forall>hex \<in> set sent. \<forall>tx. HexStringToTransaction hex = Inr tx \<longrightarrow>
      (\<exists>b. getrawtransaction w' (GetHex (tx_GetHash (ce_ssl e) tx)) = Some (hex, b))"
    and "distinct (map (tx_GetHash (ce_ssl e)) chain)"
    and "nSuffixBits gr = Inr (int m)" "b_HuffCode gr = b_HuffCode g"
  shows "ReadMessages e w' (GetHex (tx_GetHash (ce_ssl e) (hd chain))) (GetHex (tx_GetHash (ce_ssl e) (last chain))) gr =
    Some (Inr [TransformCharDomain text])"
proof -
  let ?hash = "tx_GetHash (ce_ssl e)"
  obtain bits least g0 budget utxo addr' where c: "Compress (TransformCharDomain text) (b_HuffCode g) = Inr bits"
    "MinimumBudget e (length bits) g = Some (Inr (least, g0))" "SelectInputs least = Inr (budget, utxo)"
    "Inr addr = (Inr addr' :: CBase58Data result)" "EmbedData e bits budget utxo addr' g0 = Some (Inr (txs, g1))"
    by (rule ComposeMessage_result [OF assms(4)])
  have bits: "bits \<noteq> []" "length bits < 2 ^ 31" "unat budget < 2 ^ 62"
    using Compress_nonempty [OF assms(3) c(1)] c(1,3) assms(5,6) by blast+
  have keys: "keys_ok (ce_ssl e) m g0" by (rule MinimumBudget_keys [OF assms(1,2) bits(2) c(2)])
  have embed: "EmbedData e bits budget utxo addr g0 = Some (Inr (txs, g1))" using c(4,5) by simp
  obtain rest cache pad where r: "AuthorizeTransactions e w txs g1 = Inr (tx1 # rest, g1\<lparr>b_Cache := cache\<rparr>)"
    "\<forall>t \<in> set (tx1 # rest). tx_ok t"
    "\<forall>gr. nSuffixBits gr = Inr (int m) \<longrightarrow> ExtractData e (tx1 # rest) gr = Inr (bits @ replicate pad False)"
    "\<forall>w'. distinct (map ?hash (tx1 # rest)) \<longrightarrow>
      (\<forall>t \<in> set (tx1 # rest). \<exists>b. getrawtransaction w' (GetHex (?hash t)) = Some (TransactionToHexString t, b)) \<longrightarrow>
      ReadTransactions w' (?hash tx1) (?hash (last (tx1 # rest))) = Some (Inr [tx1 # rest])"
    using delivered_chain [OF assms(1) keys bits(1,2) embed bits(3) assms(7-13)] by blast
  have chain: "chain = tx1 # rest" "sent = map TransactionToHexString chain"
    using PublishMessage_result [OF assms(14)] r(1) by auto
  have "\<forall>t \<in> set chain. \<exists>b. getrawtransaction w' (GetHex (?hash t)) = Some (TransactionToHexString t, b)"
    using assms(15) TransactionHexString r(2) by (simp only: chain(2)) (auto simp: chain(1))
  then have read: "ReadTransactions w' (?hash (hd chain)) (?hash (last chain)) = Some (Inr [chain])"
    using r(4) assms(16) by (simp add: chain(1))
  have "digests_ok (ce_ssl e)" using assms(1) by (simp add: env_ok_def openssl_ok_def)
  then have hex: "SetHex 8 (GetHex (?hash t)) = ?hash t" for t using SetHex_GetHex [of "?hash t"] length_tx_GetHash by simp
  have "Decompress (bits @ replicate pad False) (b_HuffCode g) = TransformCharDomain text"
    using loaded.decompress_compress [OF assms(3) TransformCharDomain_EoF c(1)] .
  then show ?thesis using r(3) assms(17,18) by (simp add: ReadMessages_def hex read chain(1) [symmetric])
qed

section \<open>A message that is delivered\<close>

definition sample_wallet :: wallet where
  "sample_wallet = \<lparr>signrawtransaction = \<lambda>hex. Some (hex, True), sendrawtransaction = \<lambda>hex. True,
     getrawtransaction = \<lambda>txid. None, getblock = \<lambda>txid. None\<rparr>"

text \<open>A node that serves the transactions of a list.\<close>

definition serve :: "openssl \<Rightarrow> CTransaction list \<Rightarrow> wallet" where
  "serve ssl txs = sample_wallet\<lparr>getrawtransaction := \<lambda>txid.
     map_option (\<lambda>tx. (TransactionToHexString tx, '''')) (find (\<lambda>tx. GetHex (tx_GetHash ssl tx) = txid) txs)\<rparr>"

definition sample_file :: string where
  "sample_file = ''State.LastTx='' @ replicate 64 CHR ''0'' @ [CHR 0x0A] @ ''State.FirstTx='' @ replicate 64 CHR ''0''"

definition sample_address :: CBase58Data where
  "sample_address = addr_of_dest sample_params (CKeyID [1, 2, 3, 4, 5])"

lemma sample_addresses: "addr_Get sample_params sample_address = CKeyID [1, 2, 3, 4, 5]"
  using addr_Get_Set [OF sample_prefixes, of "[1, 2, 3, 4, 5]" "CKeyID [1, 2, 3, 4, 5]"] by (simp add: sample_address_def)

lemma find_first: "take (length pat) s = pat \<Longrightarrow> s \<noteq> [] \<Longrightarrow> str_find s pat = 0"
  by (cases s) (simp_all add: str_find_def)

lemma sample_UpdateChainstate:
  assumes "b_Config g = b_Config sample_bms"
  shows "\<exists>file' g'. UpdateChainstate a b sample_file g = Inr (file', g')"
proof -
  have config: "IsConfigFileLoaded g" "Mapping.lookup (b_Config g) ''State.FirstTx'' = Some (replicate 64 CHR ''0'')"
    "Mapping.lookup (b_Config g) ''State.LastTx'' = Some (replicate 64 CHR ''0'')"
    using assms by (simp_all add: IsConfigFileLoaded_def sample_bms_def lookup_of_alist Mapping.is_empty_def)
  have "str_find sample_file ''State.FirstTx'' = 78" unfolding sample_file_def by code_simp
  moreover have "length sample_file = 156" by (simp add: sample_file_def)
  moreover have "take 12 (take 92 sample_file @ t) = ''State.LastTx''" for t by (simp add: sample_file_def)
  moreover have "str_find (take 92 sample_file @ t) ''State.LastTx'' = 0" for t
    by (rule find_first) (simp_all add: sample_file_def)
  ultimately show ?thesis using config
    by (auto simp: UpdateChainstate_def map_at_def SerializeState_def str_replace_def Let_def lookup_update')
qed

lemma sample_ChainFee: "sample_state g \<Longrightarrow> \<exists>f. ChainFee txs g = Inr f"
proof -
  assume g: "sample_state g"
  have "\<exists>f. rfold (\<lambda>tx nFee. rbind (TransactionFee tx g) (\<lambda>f. Inr (nFee + f))) txs n = Inr f" for n
  proof (induction txs arbitrary: n)
    case (Cons tx txs)
    obtain f where "TransactionFee tx g = Inr f" using sample_fee_total [OF g] by blast
    then show ?case using Cons by simp
  qed simp
  then show ?thesis by (simp add: ChainFee_def)
qed

lemma sample_code: "is_prefix_code (b_HuffCode sample_bms)" "TransformCharDomain [97] = [97]"
  "Compress [97] (b_HuffCode sample_bms) = Inr [False, True, True, True]"
proof -
  show "is_prefix_code (b_HuffCode sample_bms)" by (auto simp: is_prefix_code_def sample_bms_def)
  show "TransformCharDomain [97] = [97]" by code_simp
  have "Compress [97] [(97, [False]), (3, [True, True, True])] = Inr [False, True, True, True]" by code_simp
  then show "Compress [97] (b_HuffCode sample_bms) = Inr [False, True, True, True]" by (simp add: sample_bms_def)
qed

lemma sample_state_bms: "sample_state sample_bms"
  using sample_keys_ok by (simp add: sample_state_def)

lemma sample_compose:
  "\<exists>cur nxt g g1. ComposeMessage sample_chan [97] (\<lambda>least. Inr (100000, [sample_prevout])) (Inr sample_address) sample_bms = Some (Inr ([cur, nxt], g1)) \<and>
     EmbedData sample_chan [False, True, True, True] 100000 [sample_prevout] sample_address g = Some (Inr ([cur, nxt], g1)) \<and>
     sample_state g \<and> sample_state g1 \<and> tx_vin cur = [sample_point_in] \<and> map to_nValue (tx_vout cur) = [90000] \<and>
     length (tx_vin nxt) = 1 \<and> tx_nVersion cur = 1 \<and> tx_nVersion nxt = 1"
proof -
  obtain c n g where d: "EmbedData sample_chan [False, False, False, False] 0 [] empty_base58 sample_bms = Some (Inr ([c, n], g))" "sample_state g"
    using sample_embed [OF sample_state_bms, of "[False, False, False, False]" "[]" 0 empty_base58] by auto
  obtain f where "ChainFee [c, n] g = Inr f" using sample_ChainFee [OF d(2)] by blast
  then have m: "MinimumBudget sample_chan 4 sample_bms = Some (Inr (f + 20000, g))"
    using d(1) sample_config(3,4) by (simp add: MinimumBudget_def numeral_eq_Suc)
  have "map (\<lambda>p. empty_txin\<lparr>ti_prevout := p\<rparr>) [sample_prevout] = [sample_point_in]"
    by (simp add: sample_prevout_def sample_point_in_def)
  then obtain cur nxt g1 where r: "EmbedData sample_chan [False, True, True, True] 100000 [sample_prevout] sample_address g = Some (Inr ([cur, nxt], g1))"
    "sample_state g1" "tx_vin cur = [sample_point_in]" "map to_nValue (tx_vout cur) = [90000]" "length (tx_vin nxt) = 1"
    "tx_nVersion cur = 1" "tx_nVersion nxt = 1"
    using sample_embed [OF d(2), of "[False, True, True, True]" "[sample_prevout]" 100000 sample_address] by auto
  have "ComposeMessage sample_chan [97] (\<lambda>least. Inr (100000, [sample_prevout])) (Inr sample_address) sample_bms = Some (Inr ([cur, nxt], g1))"
  proof -
    have "length [False, True, True, True] = (4 :: nat)" by simp
    then show ?thesis using m r(1) unfolding ComposeMessage_def Let_def sample_code by (simp del: list.size)
  qed
  then show ?thesis using r d(2)
    by (intro exI [of _ cur] exI [of _ nxt] exI [of _ g] exI [of _ g1]) simp
qed

lemma sample_hash: "bu_bytes (tx_GetHash sample_ssl tx) = take 32 (tx_Serialize tx @ replicate 32 0)"
proof -
  have sha: "SHA256 sample_ssl v = take 32 (v @ replicate 32 0)" for v by (simp add: sample_ssl_def)
  have len: "length (take 32 (v @ replicate 32 0)) = 32" for v :: data by simp
  have "bu_bytes (bu_of_bytes (take 32 (v @ replicate 32 0))) = take 32 (v @ replicate 32 0)" for v :: data
    using len [of v] by (intro bu_bytes_of_bytes) simp
  then show ?thesis by (simp only: tx_GetHash_def SerializeHash_Hash Hash_def sha) simp
qed

lemma sample_hash_one_input:
  assumes "tx_vin tx = [x]" "tx_nVersion tx = 1" "length (COutPoint.op_hash (ti_prevout x)) = 8"
  shows "bu_bytes (tx_GetHash sample_ssl tx) ! 5 = bu_bytes (COutPoint.op_hash (ti_prevout x)) ! 0"
    "bu_bytes (tx_GetHash sample_ssl tx) ! 9 = bu_bytes (COutPoint.op_hash (ti_prevout x)) ! 4"
    "bu_bytes (tx_GetHash sample_ssl tx) ! 4 = 1"
proof -
  have "\<exists>r. tx_Serialize tx = le_bytes 4 (1 :: u32) @ [1] @ bu_bytes (COutPoint.op_hash (ti_prevout x)) @ r"
    using assms by (simp add: tx_Serialize_def Serialize_vector_def WriteCompactSize_def txin_Serialize_def op_Serialize_def)
  then obtain r where "tx_Serialize tx = le_bytes 4 (1 :: u32) @ [1] @ bu_bytes (COutPoint.op_hash (ti_prevout x)) @ r" by blast
  moreover have "length (bu_bytes (COutPoint.op_hash (ti_prevout x))) = 32" using assms(3) by simp
  ultimately show "bu_bytes (tx_GetHash sample_ssl tx) ! 5 = bu_bytes (COutPoint.op_hash (ti_prevout x)) ! 0"
    "bu_bytes (tx_GetHash sample_ssl tx) ! 9 = bu_bytes (COutPoint.op_hash (ti_prevout x)) ! 4"
    "bu_bytes (tx_GetHash sample_ssl tx) ! 4 = 1"
    by (simp_all add: sample_hash nth_append)
qed

lemma sample_hashes_differ:
  assumes "tx_vin cur = [sample_point_in]" "tx_nVersion cur = 1" "linked sample_ssl cur u" "length (tx_vin u) = 1" "tx_nVersion u = 1"
  shows "tx_GetHash sample_ssl cur \<noteq> tx_GetHash sample_ssl u"
proof
  assume eq: "tx_GetHash sample_ssl cur = tx_GetHash sample_ssl u"
  obtain x where x: "tx_vin u = [x]" using assms(4) by (cases "tx_vin u") auto
  then have h: "COutPoint.op_hash (ti_prevout x) = tx_GetHash sample_ssl cur" using assms(3) by (simp add: linked_def)
  have c: "COutPoint.op_hash (ti_prevout sample_point_in) = [1, 2, 3, 4, 5, 6, 7, 8]" by (simp add: sample_point_in_def)
  have "bu_bytes (tx_GetHash sample_ssl cur) ! 9 = bu_bytes [1, 2, 3, 4, 5, 6, 7, 8] ! 4"
    using sample_hash_one_input(2) [OF assms(1,2)] c by simp
  also have "bu_bytes [1, 2, 3, 4, 5, 6, 7, 8] ! 4 = 2" by code_simp
  finally have "bu_bytes (tx_GetHash sample_ssl cur) ! 9 = 2" .
  moreover have "bu_bytes (tx_GetHash sample_ssl u) ! 9 = bu_bytes (tx_GetHash sample_ssl cur) ! 4"
    using sample_hash_one_input(2) [OF x assms(5)] h length_tx_GetHash [OF sample_digests_ok] by simp
  moreover have "bu_bytes (tx_GetHash sample_ssl cur) ! 4 = 1"
    using sample_hash_one_input(3) [OF assms(1,2)] c by simp
  ultimately show False using eq by simp
qed

text \<open>The sample chain satisfies what delivery asks for.\<close>

lemma sample_ready:
  obtains cur nxt g g1 where
    "ComposeMessage sample_chan [97] (\<lambda>least. Inr (100000, [sample_prevout])) (Inr sample_address) sample_bms = Some (Inr ([cur, nxt], g1))"
    "EmbedData sample_chan [False, True, True, True] 100000 [sample_prevout] sample_address g = Some (Inr ([cur, nxt], g1))"
    "keys_ok (ce_ssl sample_chan) 4 g" "sample_state g1"
    "\<forall>tx \<in> set (butlast [cur, nxt]). \<forall>o' \<in> set (tx_vout tx). MoneyRange (to_nValue o')"
    "inj_on (script_GetID (ce_ssl sample_chan)) (set (codes (tl [cur, nxt])))" "tx_ok cur"
    "tx_vin cur = [sample_point_in]" "length (tx_vin nxt) = 1" "tx_nVersion cur = 1" "tx_nVersion nxt = 1"
proof -
  obtain cur nxt g g1 where c: "ComposeMessage sample_chan [97] (\<lambda>least. Inr (100000, [sample_prevout])) (Inr sample_address) sample_bms
      = Some (Inr ([cur, nxt], g1))"
    "EmbedData sample_chan [False, True, True, True] 100000 [sample_prevout] sample_address g = Some (Inr ([cur, nxt], g1))"
    "sample_state g" "sample_state g1" "tx_vin cur = [sample_point_in]" "map to_nValue (tx_vout cur) = [90000]"
    "length (tx_vin nxt) = 1" "tx_nVersion cur = 1" "tx_nVersion nxt = 1"
    using sample_compose by (elim exE conjE) (rule that)
  have money: "\<forall>tx \<in> set (butlast [cur, nxt]). \<forall>o' \<in> set (tx_vout tx). MoneyRange (to_nValue o')"
    using c(6) by (auto simp: MoneyRange_def MAX_MONEY_def COIN_def)
  have keys: "keys_ok (ce_ssl sample_chan) 4 g" using c(3) by (simp add: sample_state_def)
  obtain x where x: "tx_vin nxt = [x]" using c(7) by (cases "tx_vin nxt") auto
  have "list_all txout_ok (tx_vout cur) \<and> length (tx_vout cur) \<le> 15"
    using EmbedData_chain [OF sample_env_ok keys _ _ c(2) money] by (fastforce simp: chained_def)
  moreover have "txin_ok sample_point_in" by (simp add: txin_ok_def op_ok_def sample_point_in_def empty_txin_def MAX_SIZE_def)
  ultimately have "tx_ok cur" using c(5) by (simp add: tx_ok_def MAX_SIZE_def)
  moreover have "inj_on (script_GetID (ce_ssl sample_chan)) (set (codes (tl [cur, nxt])))" by (simp add: x)
  ultimately show thesis using that c(1,2,4,5,7-9) keys money by blast
qed

lemma sample_wallet_signs: "signrawtransaction sample_wallet hex = Some (hex, True)" "sendrawtransaction sample_wallet hex"
  by (simp_all add: sample_wallet_def)

text \<open>C3: an embedded chain can be signed: the wallet signs the first transaction, and signing the others with the
  keys of the store succeeds. The result is a chain of well-formed transactions with the same outputs
  and the same data, each of which names the one before it.\<close>

theorem authorised_chain:
  assumes "env_ok e" "keys_ok (ce_ssl e) m g" "bits \<noteq> []" "length bits < 2 ^ 31"
    and "EmbedData e bits nBudget prevOut addr g = Some (Inr (txs, g1))" "unat nBudget < 2 ^ 62"
    and "\<forall>tx \<in> set (butlast txs). \<forall>o' \<in> set (tx_vout tx). MoneyRange (to_nValue o')"
    and "addr_Get (ce_params e) addr = CKeyID h" "length h = 5"
    and "inj_on (script_GetID (ce_ssl e)) (set (codes (tl txs)))"
    and "signrawtransaction w (TransactionToHexString (hd txs)) = Some (TransactionToHexString tx1, True)"
    and "tx_ok tx1" "tx_vout tx1 = tx_vout (hd txs)"
  shows "\<exists>rest c. AuthorizeTransactions e w txs g1 = Inr (tx1 # rest, g1\<lparr>b_Cache := c\<rparr>) \<and>
    (\<forall>t \<in> set (tx1 # rest). tx_ok t) \<and> list_all2 same_message (tl txs) rest \<and> successively (linked (ce_ssl e)) (tx1 # rest)"
  using delivered_chain [OF assms] by blast

theorem authorised_chain_witness:
  "\<exists>txs g g1 chain g2. EmbedData sample_chan [False, True, True, True] 100000 [sample_prevout] sample_address g = Some (Inr (txs, g1)) \<and>
     AuthorizeTransactions sample_chan sample_wallet txs g1 = Inr (chain, g2) \<and> (\<forall>t \<in> set chain. tx_ok t)"
proof -
  obtain cur nxt g g1 where c: "EmbedData sample_chan [False, True, True, True] 100000 [sample_prevout] sample_address g = Some (Inr ([cur, nxt], g1))"
    "keys_ok (ce_ssl sample_chan) 4 g" "\<forall>tx \<in> set (butlast [cur, nxt]). \<forall>o' \<in> set (tx_vout tx). MoneyRange (to_nValue o')"
    "inj_on (script_GetID (ce_ssl sample_chan)) (set (codes (tl [cur, nxt])))" "tx_ok cur"
    by (rule sample_ready)
  have "addr_Get (ce_params sample_chan) sample_address = CKeyID [1, 2, 3, 4, 5]" using sample_addresses by simp
  from authorised_chain [OF sample_env_ok c(2) _ _ c(1) _ c(3) this _ c(4), of sample_wallet cur] c(1,5) sample_wallet_signs
  show ?thesis by fastforce
qed

theorem message_delivered_witness:
  "\<exists>txs g1 sent chain file' g2.
     ComposeMessage sample_chan [97] (\<lambda>least. Inr (100000, [sample_prevout])) (Inr sample_address) sample_bms = Some (Inr (txs, g1)) \<and>
     PublishMessage sample_chan sample_wallet True txs sample_file g1 = (sent, Inr (chain, file', g2)) \<and>
     ReadMessages sample_chan (serve sample_ssl chain) (GetHex (tx_GetHash sample_ssl (hd chain)))
       (GetHex (tx_GetHash sample_ssl (last chain))) sample_bms = Some (Inr [[97]])"
proof -
  obtain cur nxt g g1 where
    c: "ComposeMessage sample_chan [97] (\<lambda>least. Inr (100000, [sample_prevout])) (Inr sample_address) sample_bms = Some (Inr ([cur, nxt], g1))"
    "EmbedData sample_chan [False, True, True, True] 100000 [sample_prevout] sample_address g = Some (Inr ([cur, nxt], g1))"
    and keys: "keys_ok (ce_ssl sample_chan) 4 g" and g1: "sample_state g1"
    and money: "\<forall>tx \<in> set (butlast [cur, nxt]). \<forall>o' \<in> set (tx_vout tx). MoneyRange (to_nValue o')"
    and inj: "inj_on (script_GetID (ce_ssl sample_chan)) (set (codes (tl [cur, nxt])))" and ok: "tx_ok cur"
    and fields: "tx_vin cur = [sample_point_in]" "length (tx_vin nxt) = 1" "tx_nVersion cur = 1" "tx_nVersion nxt = 1"
    by (rule sample_ready)
  have addr: "addr_Get (ce_params sample_chan) sample_address = CKeyID [1, 2, 3, 4, 5]" using sample_addresses by simp
  note sign = sample_wallet_signs
  obtain rest cache where r: "AuthorizeTransactions sample_chan sample_wallet [cur, nxt] g1 = Inr (cur # rest, g1\<lparr>b_Cache := cache\<rparr>)"
    "\<forall>t \<in> set (cur # rest). tx_ok t" "list_all2 same_message (tl [cur, nxt]) rest" "successively (linked sample_ssl) (cur # rest)"
    using delivered_chain [OF sample_env_ok keys _ _ c(2) _ money addr _ inj, of sample_wallet cur] ok sign by auto
  then obtain u where u: "rest = [u]" "same_message nxt u" by (auto simp: list_all2_Cons1)
  have "tx_GetHash sample_ssl cur \<noteq> tx_GetHash sample_ssl u"
    using sample_hashes_differ [OF fields(1,3)] r(4) u fields(2,4) list_all2_lengthD [of same_input "tx_vin nxt" "tx_vin u"]
    by (simp add: same_message_def)
  then have ids: "distinct (map (tx_GetHash (ce_ssl sample_chan)) [cur, u])" by simp
  have hex: "GetHex (tx_GetHash sample_ssl cur) \<noteq> GetHex (tx_GetHash sample_ssl u)"
    using ids GetHex_inj [of "tx_GetHash sample_ssl cur" "tx_GetHash sample_ssl u"] length_tx_GetHash [OF sample_digests_ok] by auto
  obtain f where "ChainFee [cur, nxt] g1 = Inr f" using sample_ChainFee [OF g1] by blast
  moreover obtain file' g2 where
    "UpdateChainstate (tx_GetHash sample_ssl cur) (tx_GetHash sample_ssl u) sample_file (g1\<lparr>b_Cache := cache\<rparr>) = Inr (file', g2)"
    using sample_UpdateChainstate [of "g1\<lparr>b_Cache := cache\<rparr>" "tx_GetHash sample_ssl cur" "tx_GetHash sample_ssl u"] g1
    by (auto simp: sample_state_def)
  ultimately have pub: "PublishMessage sample_chan sample_wallet True [cur, nxt] sample_file g1 =
      (map TransactionToHexString [cur, u], Inr ([cur, u], file', g2))"
    using r(1) u(1) sign(2) by (simp add: PublishMessage_def)
  have net: "\<forall>hex \<in> set (map TransactionToHexString [cur, u]). \<forall>tx. HexStringToTransaction hex = Inr tx \<longrightarrow>
      (\<exists>b. getrawtransaction (serve sample_ssl [cur, u]) (GetHex (tx_GetHash (ce_ssl sample_chan) tx)) = Some (hex, b))"
    using r(2) u(1) hex TransactionHexString by (auto simp: serve_def)
  have "ReadMessages sample_chan (serve sample_ssl [cur, u]) (GetHex (tx_GetHash (ce_ssl sample_chan) (hd [cur, u])))
       (GetHex (tx_GetHash (ce_ssl sample_chan) (last [cur, u]))) sample_bms = Some (Inr [TransformCharDomain [97]])"
    by (rule message_delivered [OF sample_env_ok _ sample_code(1) c(1) _ _ money addr _ inj _ ok _ pub net ids])
      (use sample_keys_ok sample_code sample_config(1) sign in \<open>auto\<close>)
  then show ?thesis using c(1) pub by (auto simp: sample_code)
qed

section \<open>The forward reader\<close>

text \<open>
  The reader that goes forward takes every transaction with one output for the last of its chain, also one
  whose output pays to a script hash: it cuts such a chain, which the other reader does not.
\<close>

lemma forward_reader_cuts:
  assumes "length (tx_vout t) = 1" "IsPayToScriptHash (to_scriptPubKey (hd (tx_vout t)))"
  shows "split_chains ends_chain_forward [] (t # txs) = [t] # split_chains ends_chain_forward [] txs \<and>
    [t] \<notin> set (split_chains ends_chain [] (t # txs))"
proof -
  have "\<forall>c \<in> set (split_chains P sub xs). P (last c)" for P sub and xs :: TransactionChain
    by (induction P sub xs rule: split_chains.induct) auto
  moreover have "\<not> ends_chain t" using assms by (simp add: ends_chain_def)
  ultimately show ?thesis using assms(1) by (fastforce simp: ends_chain_forward_def)
qed

end
