(* ===== verification/Completion.thy ===== *)
theory Completion
  imports Roundtrip
begin

text \<open>
  Embedding comes to an end with a chain. Three loops of \<open>EmbedData\<close> have no bound of their own: the
  rounds over the transactions, the search for a valid public key, and the search for the parts of
  a budget. What they need is stated of the inputs: random bits among which a valid key is met in
  time, a budget that covers the fees, a key for every suffix, and the logarithm of at least one
  for two choices or more.
\<close>

section \<open>Random bits\<close>

text \<open>The candidate that the key search makes of 250 bits of data and the next five draws.\<close>

definition key_try :: "openssl \<Rightarrow> databits \<Rightarrow> bool list \<Rightarrow> bool" where
  "key_try ssl s draws \<longleftrightarrow> 5 \<le> length draws \<and>
     (case BitsToData ((replicate 6 False @ [True] @ [False]) @ (False # s) @ take 5 draws) of
        Inl _ \<Rightarrow> False
      | Inr bytes \<Rightarrow> IsFullyValid ssl (mk_pubkey bytes))"

definition piece :: "databits \<Rightarrow> databits" where
  "piece bits = take 250 (bits @ replicate 250 False)"

text \<open>Wherever the search starts, one of \<open>t\<close> candidates in a row is a valid key.\<close>

definition fair_draws :: "openssl \<Rightarrow> nat \<Rightarrow> databits \<Rightarrow> bool list \<Rightarrow> bool" where
  "fair_draws ssl t dat draws \<longleftrightarrow>
     (\<forall>i < length dat. \<forall>k. 5 * (k + t) \<le> length draws \<longrightarrow>
        (\<exists>j < t. key_try ssl (piece (drop i dat)) (drop (5 * (k + j)) draws)))"

text \<open>What is left of the data and of the draws; \<open>t\<close> candidates for each piece that is left.\<close>

definition supplied :: "nat \<Rightarrow> databits \<Rightarrow> bool list \<Rightarrow> databits \<Rightarrow> bool list \<Rightarrow> bool" where
  "supplied t dat draws bits left \<longleftrightarrow>
     (\<exists>i. bits = drop i dat) \<and> (\<exists>k. left = drop (5 * k) draws \<and> 5 * (k + t * ceil_div (length bits) 250) \<le> length draws)"

lemma ceil_div_drop: "ceil_div (n - 250) 250 = ceil_div n 250 - 1"
proof (cases "250 \<le> n")
  case True
  then have "n + 249 = 250 + (n - 250 + 249)" by linarith
  then have "(n + 249) div 250 = Suc ((n - 250 + 249) div 250)" by simp
  then show ?thesis by (simp add: ceil_div_def)
next
  case False
  then have "n + 249 < 2 * 250" by linarith
  then have "(n + 249) div 250 < 2" by (simp only: less_mult_imp_div_less)
  then show ?thesis using False by (simp add: ceil_div_def)
qed

lemma ceil_div_mono: "a \<le> b \<Longrightarrow> ceil_div a d \<le> ceil_div b d"
  by (simp add: ceil_div_def div_le_mono)

lemma ceil_div_pos: "0 < ceil_div n 250 \<longleftrightarrow> 0 < n"
  by (auto simp: ceil_div_def div_greater_zero_iff)

lemma supplied_drop: "supplied t dat D bits left \<Longrightarrow> supplied t dat D (drop n bits) left"
proof -
  assume s: "supplied t dat D bits left"
  have "t * ceil_div (length (drop n bits)) 250 \<le> t * ceil_div (length bits) 250"
    by (intro mult_le_mono2 ceil_div_mono) simp
  then have le: "5 * (k + t * ceil_div (length (drop n bits)) 250) \<le> 5 * (k + t * ceil_div (length bits) 250)" for k by simp
  obtain i k where "bits = drop i dat" "left = drop (5 * k) D" "5 * (k + t * ceil_div (length bits) 250) \<le> length D"
    using s by (auto simp: supplied_def)
  moreover from this have "drop n bits = drop (n + i) dat" by simp
  ultimately show ?thesis unfolding supplied_def using le [of k] order_trans by blast
qed

lemma consumed_drop: "consumed bits bits' out \<Longrightarrow> bits' = drop (length out) bits"
proof -
  assume "consumed bits bits' out"
  then obtain p where p: "bits @ replicate p False = out @ bits'" "p = 0 \<or> bits' = []" by (auto simp: consumed_def)
  have "length bits + p = length out + length bits'" using arg_cong [OF p(1), of length] by simp
  then show ?thesis using p by (cases "p = 0") auto
qed

lemma pad_slice_value:
  assumes "length bits < 2 ^ 31" "n < 2 ^ 31"
  shows "SliceBits (PadBits bits (of_int (int n - min (int n) (int_of_size (length bits))))) (of_nat n)
    = Inr (take n (bits @ replicate n False), drop n bits)"
proof -
  have w: "unat (of_nat k :: u32) = k" if "k < 2 ^ 31" for k using that by (simp add: unat_of_nat)
  define k where "k = n - min n (length bits)"
  have "(of_int (int n - min (int n) (int_of_size (length bits))) :: u32) = of_nat k"
    using assms(1) by (auto simp: k_def min_def of_nat_diff)
  moreover have "unat (of_nat k :: u32) = k" using w [of k] assms(2) by (simp add: k_def)
  ultimately have "PadBits bits (of_int (int n - min (int n) (int_of_size (length bits)))) = bits @ replicate k False"
    by (simp add: PadBits_def)
  then show ?thesis using w [OF assms(2)] by (auto simp: SliceBits_eq_Inr k_def min_def)
qed

section \<open>The search for a key\<close>

lemma EncodeDataInPubkey_tries:
  assumes s: "length s = 250" and j: "key_try ssl s (drop (5 * j) draws)"
  shows "\<exists>pk j'. j' \<le> Suc j \<and> EncodeDataInPubkey ssl s 5 draws = Inr (pk, drop (5 * j') draws)"
proof -
  let ?pre = "replicate 6 False @ [True] @ [False]"
  have "\<exists>pk j'. j' \<le> Suc j \<and> EncodeDataInPubkey_loop ssl ?pre (False # s) 5 draws = Inr (pk, drop (5 * j') draws)"
    using j
  proof (induction j arbitrary: draws)
    case 0
    then obtain bytes where "5 \<le> length draws" "BitsToData (?pre @ (False # s) @ take 5 draws) = Inr bytes"
      "IsFullyValid ssl (mk_pubkey bytes)" by (auto simp: key_try_def split: sum.splits)
    then show ?case
      by (intro exI [of _ "mk_pubkey bytes"] exI [of _ 1])
        (subst EncodeDataInPubkey_loop.simps, simp add: GenerateRandomBits_def Let_def)
  next
    case (Suc j)
    have "5 \<le> length (drop (5 * Suc j) draws)" using Suc.prems unfolding key_try_def by (rule conjunct1)
    then have len: "5 \<le> length draws" by simp
    have "8 dvd length (?pre @ (False # s) @ take 5 draws)" using len s by simp
    then obtain bytes where b: "BitsToData (?pre @ (False # s) @ take 5 draws) = Inr bytes" using BitsToData_total by blast
    show ?case
    proof (cases "IsFullyValid ssl (mk_pubkey bytes)")
      case True
      then show ?thesis using b len
        by (intro exI [of _ "mk_pubkey bytes"] exI [of _ 1])
          (subst EncodeDataInPubkey_loop.simps, simp add: GenerateRandomBits_def Let_def)
    next
      case False
      have "key_try ssl s (drop (5 * j) (drop 5 draws))" using Suc.prems by (simp add: add.commute)
      from Suc.IH [OF this] obtain pk j' where IH: "j' \<le> Suc j"
        "EncodeDataInPubkey_loop ssl ?pre (False # s) 5 (drop 5 draws) = Inr (pk, drop (5 * j') (drop 5 draws))" by blast
      then show ?thesis using b len False
        by (intro exI [of _ pk] exI [of _ "Suc j'"])
          (subst EncodeDataInPubkey_loop.simps, simp add: GenerateRandomBits_def Let_def add.commute)
    qed
  qed
  then show ?thesis using s by (simp add: EncodeDataInPubkey_def)
qed

lemma PackP2SH_keys_succeeds:
  assumes fair: "fair_draws ssl t dat D"
  shows "supplied t dat D bits left \<Longrightarrow> length bits < 2 ^ 31 \<Longrightarrow> n \<le> ceil_div (length bits) 250 \<Longrightarrow>
    \<exists>pks left'. PackP2SH_keys ssl n bits left = Inr (pks, drop (250 * n) bits, left') \<and>
      supplied t dat D (drop (250 * n) bits) left'"
proof (induction n arbitrary: bits left)
  case 0
  then show ?case by simp
next
  case (Suc n)
  obtain i k where ik: "bits = drop i dat" "left = drop (5 * k) D" "5 * (k + t * ceil_div (length bits) 250) \<le> length D"
    using Suc.prems(1) by (auto simp: supplied_def)
  have pos: "0 < ceil_div (length bits) 250" using Suc.prems(3) by simp
  then have "0 < length bits" by (simp only: ceil_div_pos)
  then have i: "i < length dat" using ik(1) by simp
  have t: "t \<le> t * ceil_div (length bits) 250" using pos by simp
  then have "5 * (k + t) \<le> 5 * (k + t * ceil_div (length bits) 250)" by simp
  then have "5 * (k + t) \<le> length D" using ik(3) by (rule order_trans)
  then obtain j where j: "j < t" "key_try ssl (piece bits) (drop (5 * (k + j)) D)"
    using fair i unfolding fair_draws_def ik(1) by blast
  have "key_try ssl (piece bits) (drop (5 * j) left)" using j(2) by (simp add: ik(2) algebra_simps)
  have "length (piece bits) = 250" by (simp add: piece_def)
  from EncodeDataInPubkey_tries [OF this \<open>key_try ssl (piece bits) (drop (5 * j) left)\<close>] obtain pk j' where pk: "j' \<le> Suc j"
    "EncodeDataInPubkey ssl (piece bits) 5 left = Inr (pk, drop (5 * j') left)" by blast
  have cd: "ceil_div (length (drop 250 bits)) 250 = ceil_div (length bits) 250 - 1" by (simp add: ceil_div_drop)
  have "t * ceil_div (length bits) 250 = t + t * ceil_div (length (drop 250 bits)) 250"
    using pos unfolding cd by (cases "ceil_div (length bits) 250") simp_all
  moreover have "5 * (k + j' + B) \<le> n" if "A = t + B" "5 * (k + A) \<le> n" for A B n using that pk(1) j(1) by presburger
  ultimately have "5 * (k + j' + t * ceil_div (length (drop 250 bits)) 250) \<le> length D" using ik(3) by blast
  moreover have "drop (5 * j') left = drop (5 * (k + j')) D" by (simp add: ik(2) algebra_simps)
  moreover have "drop 250 bits = drop (i + 250) dat" by (simp add: ik(1) add.commute)
  ultimately have sup: "supplied t dat D (drop 250 bits) (drop (5 * j') left)" unfolding supplied_def by blast
  have "length (drop 250 bits) < 2 ^ 31" "n \<le> ceil_div (length (drop 250 bits)) 250" using Suc.prems(2,3) cd by simp_all
  from Suc.IH [OF sup this] obtain pks left' where IH: "PackP2SH_keys ssl n (drop 250 bits) (drop (5 * j') left)
      = Inr (pks, drop (250 * n) (drop 250 bits), left')" "supplied t dat D (drop (250 * n) (drop 250 bits)) left'" by blast
  have d: "drop (250 * n) (drop 250 bits) = drop (250 * Suc n) bits" by (simp add: add.commute)
  have sl: "SliceBits (PadBits bits (of_int (250 - min 250 (int_of_size (length bits))))) 250 = Inr (piece bits, drop 250 bits)"
    using pad_slice_value [OF Suc.prems(2), of 250] by (simp add: piece_def del: int_of_size_small)
  note IH = IH [unfolded d]
  show ?case unfolding PackP2SH_keys.simps Let_def sl rbind_Inr prod.case pk(2) IH(1) using IH(2) by blast
qed

section \<open>One output\<close>

text \<open>
  What the state must hold: a key for every suffix, the configuration, and enough random bits; it
  stays while embedding goes on.
\<close>

definition ready :: "openssl \<Rightarrow> nat \<Rightarrow> u64 \<Rightarrow> nat \<Rightarrow> databits \<Rightarrow> bool list \<Rightarrow> databits \<Rightarrow> bms \<Rightarrow> bool" where
  "ready ssl m F t dat D bits g \<longleftrightarrow>
     keys_ok ssl m g \<and> (\<forall>s. length s = m \<longrightarrow> Mapping.lookup (b_KeyMap g) s \<noteq> None) \<and>
     (\<exists>r. rbind (map_at (b_Config g) ''Random.SuffixBits'') stoi = Inr r) \<and>
     rbind (map_at (b_Config g) ''TxFeeRate'') stoul = Inr F \<and> unat F \<le> 2 ^ 48 \<and>
     fair_draws ssl t dat D \<and> supplied t dat D bits (b_draws g) \<and> length bits < 2 ^ 31"

lemma ready_consumed:
  "ready ssl m F t dat D bits g \<Longrightarrow> consumed bits bits' out \<Longrightarrow> ready ssl m F t dat D bits' g"
  using consumed_drop [of bits bits' out] by (auto simp: ready_def intro: supplied_drop)

lemma PackDataIntoP2SH_succeeds:
  assumes e: "env_ok e" and rd: "ready (ce_ssl e) m F t dat D bits g" and i: "i < length (tx_vin tx)" "i < 2 ^ 32"
  shows "\<exists>bits' txOut' S g'. PackDataIntoP2SH e bits txOut tx i g = Inr (bits', txOut', set_scriptSig i S tx, g') \<and>
    length S \<le> 700 \<and> ready (ce_ssl e) m F t dat D bits' g'"
proof -
  let ?ssl = "ce_ssl e"
  have ssl: "openssl_ok ?ssl" "ecdsa_ok ?ssl" "prefixes_ok (ce_params e)" "digests_ok ?ssl"
    using e by (simp_all add: env_ok_def openssl_ok_def)
  have g: "keys_ok ?ssl m g" "length bits < 2 ^ 31" "supplied t dat D bits (b_draws g)" "fair_draws ?ssl t dat D"
    and all: "\<And>s. length s = m \<Longrightarrow> \<exists>key. Mapping.lookup (b_KeyMap g) s = Some key" using rd by (auto simp: ready_def)
  then have m: "nSuffixBits g = Inr (int m)" "m \<le> 264" "cache_ok ?ssl (b_Cache g)" by (simp_all add: keys_ok_def)
  have m31: "m < 2 ^ 31" using m(2) by simp
  define s where "s = take m (bits @ replicate m False)"
  define b where "b = drop m bits"
  have "length s = m" by (simp add: s_def)
  from all [OF this] obtain key where key: "Mapping.lookup (b_KeyMap g) s = Some key" by blast
  then obtain pk where pk: "k_fCompressed key" "signs_with ?ssl (b_Store g) key pk" using g(1) by (auto simp: keys_ok_def)
  have pkb: "length (pk_bytes pk) = 33" "pk_size pk = 33" "hd (pk_bytes pk) \<in> {2, 3}" "key_GetPubKey ?ssl key = Inr pk"
    using mk_pubkey_GetID [OF ssl(1) pk(2)] pk by (simp_all add: signs_with_def)
  have "supplied t dat D b (b_draws g)" "length b < 2 ^ 31" using g(2) supplied_drop [OF g(3), of m] by (simp_all add: b_def)
  from PackP2SH_keys_succeeds [OF g(4) this, of "min 11 (ceil_div (length b) 250)"] obtain pks left' where
    keys: "PackP2SH_keys ?ssl (min 11 (ceil_div (length b) 250)) b (b_draws g)
        = Inr (pks, drop (250 * min 11 (ceil_div (length b) 250)) b, left')"
      "supplied t dat D (drop (250 * min 11 (ceil_div (length b) 250)) b) left'" by auto
  note ks = PackP2SH_keys_unpack [OF \<open>length b < 2 ^ 31\<close> keys(1)]
  define bits' where "bits' = drop (250 * min 11 (ceil_div (length b) 250)) b"
  define vs where "vs = map pk_bytes pks"
  have vs: "length vs \<le> 14" "\<forall>v \<in> set vs. length v = 33 \<and> hd v \<in> {2, 3}" using ks by (auto simp: vs_def)
  define code where "code = multisig_code 1 (pk_bytes pk # vs)"
  have set: "SetMultisig 1 (pk # pks) = Inr code"
    using SetMultisig_form(1) [of 1 "pk # pks"] ks pkb by (simp add: code_def multisig_code_def vs_def pk_IsValid_def)
  let ?store = "AddCScript ?ssl code (b_Store g)"
  have "length (script_GetID ?ssl code) = 5" using length_Hash160 [OF ssl(4)] by (simp add: script_GetID_def)
  from addr_Get_Set [OF ssl(3) this] have addr: "addr_Get (ce_params e) (addr_of_dest (ce_params e) (CScriptID (script_GetID ?ssl code)))
      = CScriptID (script_GetID ?ssl code)" by blast
  have u: "unat (of_nat i :: u32) = i" using i(2) by (simp add: unat_of_nat)
  have signs: "signs_with ?ssl ?store key pk" using pk(2) by (simp add: AddCScript_keys)
  obtain sig c where sg: "key_Sign ?ssl key (SignatureHash ?ssl code tx (of_nat i) 1) = Some sig"
    "SignSignature (ce_sig e) ?store (SetDestination (CScriptID (script_GetID ?ssl code))) tx (of_nat i) 1 (b_Cache g)
      = (Inr (True, set_scriptSig i (PushAll [[], sig @ [ucast (1 :: u32)], code]) tx), c)"
    using SignSignature_script_hash [OF ssl(1,2) m(3) signs pk(1) vs _ code_def AddCScript_lookup, of 1 "of_nat i" tx] i u by auto
  let ?S = "PushAll [[], sig @ [ucast (1 :: u32)], code]"
  have S: "length ?S \<le> 700" using redeem_pushes(2) [OF ssl(2,1) pk(2,1) vs code_def sg(1)] .
  let ?s = "SetDestination (CScriptID (script_GetID ?ssl code))"
  let ?g = "g\<lparr>b_Store := ?store, b_Cache := c, b_draws := left'\<rparr>"
  have sl: "SliceBits (PadBits bits (of_int (int m - min (int m) (int_of_size (length bits))))) (of_int (int m)) = Inr (s, b)"
    using pad_slice_value [OF g(2) m31] by (simp add: s_def b_def)
  have mk: "map_at (b_KeyMap g) s = Inr key" using key by (simp add: map_at_def)
  have r: "PackDataIntoP2SH e bits txOut tx i g = Inr (bits', txOut\<lparr>to_scriptPubKey := ?s\<rparr>, set_scriptSig i ?S tx, ?g)"
    unfolding PackDataIntoP2SH_def m(1) rbind_Inr Let_def sl prod.case mk pkb(4) keys(1) set addr sg(2) bits'_def by simp
  from PackDataIntoP2SH_unpack [OF e g(1,2) i r] obtain out where u: "consumed bits bits' out" "keys_ok ?ssl m ?g" by blast
  have "length bits' < 2 ^ 31" using consumed_length [OF u(1)] g(2) by linarith
  then have "ready ?ssl m F t dat D bits' ?g" using rd u(2) keys(2) by (simp add: ready_def bits'_def)
  with r S show ?thesis by blast
qed

lemma PackDataIntoSeqNr_succeeds: "length bits < 2 ^ 31 \<Longrightarrow> \<exists>r. PackDataIntoSeqNr bits x = Inr r"
proof -
  assume b: "length bits < 2 ^ 31"
  have "length (take 32 (bits @ replicate 32 False)) = 32" by simp
  from EncodeDataInSequenceNr_total [OF this] show ?thesis
    using pad_slice_value [OF b, of 32] by (auto simp: PackDataIntoSeqNr_def)
qed

lemma PackDataIntoNulldata_succeeds: "length bits < 2 ^ 31 \<Longrightarrow> \<exists>r. PackDataIntoNulldata bits x = Inr r"
proof -
  assume b: "length bits < 2 ^ 31"
  have "length (take 320 (bits @ replicate 320 False)) = 8 * 40" by simp
  then have "8 dvd length (take 320 (bits @ replicate 320 False))" by (simp only: dvd_triv_left)
  from BitsToData_total [OF this] show ?thesis
    using pad_slice_value [OF b, of 320] by (auto simp: PackDataIntoNulldata_def)
qed

text \<open>\<open>pack_output\<close> signs the input, so it bounds the script of the input by the largest signature and script.\<close>

lemma pack_output_succeeds:
  assumes e: "env_ok e" and rd: "ready (ce_ssl e) m F t dat D bits g" and i: "i < length (tx_vin nxt)" "i < 2 ^ 32"
    and n: "unat (op_n (ti_prevout (tx_vin nxt ! i))) < length vout"
  shows "\<exists>bits' vout' nxt' g' x. pack_output e i (bits, vout, nxt, g) = Inr (bits', vout', nxt', g') \<and>
    ready (ce_ssl e) m F t dat D bits' g' \<and> length vout' = length vout \<and> tx_vout nxt' = tx_vout nxt \<and>
    tx_vin nxt' = (tx_vin nxt)[i := x] \<and> ti_prevout x = ti_prevout (tx_vin nxt ! i) \<and> length (ti_scriptSig x) \<le> 700"
proof -
  let ?n = "unat (op_n (ti_prevout (tx_vin nxt ! i)))"
  obtain b o2 S g' where p: "PackDataIntoP2SH e bits (vout ! ?n) nxt i g = Inr (b, o2, set_scriptSig i S nxt, g')"
    "length S \<le> 700" "ready (ce_ssl e) m F t dat D b g'" using PackDataIntoP2SH_succeeds [OF e rd i] by blast
  let ?x = "(tx_vin nxt ! i)\<lparr>ti_scriptSig := S\<rparr>"
  have v: "tx_vin (set_scriptSig i S nxt) = (tx_vin nxt)[i := ?x]" "tx_vout (set_scriptSig i S nxt) = tx_vout nxt"
    by (simp_all add: set_scriptSig_def)
  have b: "length b < 2 ^ 31" using p(3) by (simp add: ready_def)
  from PackDataIntoSeqNr_succeeds [OF this] obtain bits' x where q: "PackDataIntoSeqNr b ?x = Inr (bits', x)" by force
  note u = PackDataIntoSeqNr_unpack [OF b q]
  have "ready (ce_ssl e) m F t dat D bits' g'" using ready_consumed [OF p(3)] u by blast
  moreover have "pack_output e i (bits, vout, nxt, g)
      = Inr (bits', vout[?n := o2], (set_scriptSig i S nxt)\<lparr>tx_vin := (tx_vin nxt)[i := x]\<rparr>, g')"
    using i n p(1) q by (simp add: pack_output_def Let_def v)
  ultimately show ?thesis using u p(2) v(2) by auto
qed

lemma pack_outputs_succeed:
  assumes e: "env_ok e"
  shows "ready (ce_ssl e) m F t dat D bits g \<Longrightarrow> n \<le> length (tx_vin nxt) \<Longrightarrow> n < 2 ^ 32 \<Longrightarrow>
    \<forall>j < n. unat (op_n (ti_prevout (tx_vin nxt ! j))) < length vout \<Longrightarrow>
    \<exists>bits' vout' nxt' g'. rfold (pack_output e) [0..<n] (bits, vout, nxt, g) = Inr (bits', vout', nxt', g') \<and>
      ready (ce_ssl e) m F t dat D bits' g' \<and> length vout' = length vout \<and> tx_vout nxt' = tx_vout nxt \<and>
      map ti_prevout (tx_vin nxt') = map ti_prevout (tx_vin nxt) \<and> (\<forall>j < n. length (ti_scriptSig (tx_vin nxt' ! j)) \<le> 700)"
proof (induction n)
  case (Suc n)
  then obtain b v x h where IH: "rfold (pack_output e) [0..<n] (bits, vout, nxt, g) = Inr (b, v, x, h)"
    "ready (ce_ssl e) m F t dat D b h" "length v = length vout" "tx_vout x = tx_vout nxt"
    "map ti_prevout (tx_vin x) = map ti_prevout (tx_vin nxt)" "\<forall>j < n. length (ti_scriptSig (tx_vin x ! j)) \<le> 700" by auto
  have l: "n < length (tx_vin x)" "length (tx_vin x) = length (tx_vin nxt)"
    using Suc.prems(2) map_eq_imp_length_eq [OF IH(5)] by simp_all
  then have prev: "ti_prevout (tx_vin x ! n) = ti_prevout (tx_vin nxt ! n)" using IH(5) by (metis nth_map)
  then have "unat (op_n (ti_prevout (tx_vin x ! n))) < length v" "n < 2 ^ 32" using Suc.prems(3,4) IH(3) by simp_all
  from pack_output_succeeds [OF e IH(2) l(1) this(2,1)] obtain bits' vout' nxt' g' y where p:
    "pack_output e n (b, v, x, h) = Inr (bits', vout', nxt', g')" "ready (ce_ssl e) m F t dat D bits' g'"
    "length vout' = length v" "tx_vout nxt' = tx_vout x" "tx_vin nxt' = (tx_vin x)[n := y]"
    "ti_prevout y = ti_prevout (tx_vin x ! n)" "length (ti_scriptSig y) \<le> 700" by blast
  have "map ti_prevout (tx_vin nxt') = map ti_prevout (tx_vin x)"
    using l(1) by (simp add: p(5,6) map_update list_update_same_conv)
  moreover have "\<forall>j < Suc n. length (ti_scriptSig (tx_vin nxt' ! j)) \<le> 700"
    using IH(6) p(7) l(1) by (auto simp: p(5) less_Suc_eq nth_list_update)
  moreover have "rfold (pack_output e) [0..<Suc n] (bits, vout, nxt, g) = Inr (bits', vout', nxt', g')"
    using IH(1) p(1) by (simp add: rfold_append)
  ultimately show ?case using p(2-4) IH(3-5) by auto
qed simp

section \<open>The values of the outputs and the order of the claims\<close>

text \<open>With two choices or more there is at least one bit to embed; the logarithm of two is exact.\<close>

definition lg_pos :: "(bigint \<Rightarrow> u32) \<Rightarrow> bool" where
  "lg_pos lg \<longleftrightarrow> (\<forall>N \<ge> 2. lg N \<noteq> 0)"

lemma rmap_total: "(\<And>x. x \<in> set xs \<Longrightarrow> \<exists>y. f x = Inr y) \<Longrightarrow> \<exists>ys. rmap f xs = Inr ys"
  by (induction xs) fastforce+

text \<open>What is taken from the front and padded to \<open>M\<close> bits.\<close>

lemma min_slice_total:
  assumes "length bits < 2 ^ 31"
  shows "\<exists>s r. SliceBits bits (min M (of_nat (length bits))) = Inr (s, r)"
proof -
  have "unat (of_nat (length bits) :: u32) = length bits" using assms by (simp add: unat_of_nat)
  then show ?thesis by (auto simp: SliceBits_eq_Inr min_def word_le_nat_alt)
qed

lemma PackDataIntoBudgetSplit_succeeds:
  assumes e: "env_ok e" "lg_pos (ce_lg e)" and bits: "length bits < 2 ^ 31"
    and n: "2 \<le> length vout" "length vout \<le> 14" and budget: "546 * length vout < unat budget" "unat budget < 2 ^ 62"
  shows "\<exists>bits' vout'. PackDataIntoBudgetSplit e bits vout budget 546 = Inr (bits', vout')"
proof -
  let ?n = "ucast (of_nat (length vout) :: u32) :: u64" and ?k = "ucast (of_nat (length vout) :: u32) :: u16"
  let ?rest = "budget - ?n * 546"
  have un: "unat ?k = length vout" "unat ?n = length vout" using small_sizes(1,2) [OF n(2)] by simp_all
  have mul: "unat (?n * 546) = 546 * length vout" using n(2) by (simp add: unat_word_ariths un)
  then have le: "?n * 546 \<le> budget" using budget(1) by (simp add: word_le_nat_alt)
  then have rest: "unat ?rest = unat budget - 546 * length vout" by (simp add: unat_sub mul)
  let ?N = "int (ncomp (unat ?rest) (unat ?k))"
  have NC: "NumberCompositions ?rest ?k = Inr ?N"
    using n budget(2) rest by (intro NumberCompositions_ncomp) (simp_all add: un)
  then have M: "EmbeddableBitsInValues (ce_lg e) ?rest ?k = Inr (ce_lg e ?N)" by (simp add: EmbeddableBitsInValues_def)
  define M where "M = ce_lg e ?N"
  have "ncomp 0 (length vout) < ncomp (unat ?rest) (length vout)" using n(1) rest budget(1) by (intro ncomp_less) simp_all
  moreover have "ncomp 0 (length vout) = 1" using n(1) by (cases "length vout") simp_all
  ultimately have "2 \<le> ?N" by (simp add: un)
  then have "M \<noteq> 0" using e(2) by (simp add: lg_pos_def M_def)
  obtain s r where s: "SliceBits bits (min M (of_nat (length bits))) = Inr (s, r)" using min_slice_total [OF bits] by blast
  let ?slice = "PadBits s (M - min M (of_nat (length bits)))"
  have sl: "length ?slice = unat M" using min_slice [OF bits s] by simp
  then have "length ?slice \<noteq> 0" using \<open>M \<noteq> 0\<close> by (simp only: unat_eq_0 not_False_eq_True)
  then have "?slice \<noteq> []" by (simp only: length_0_conv not_False_eq_True)
  moreover have "2 \<le> unat ?k" "unat ?rest < 2 ^ 62" using n(1) un(1) rest budget(2) by simp_all
  ultimately obtain c where c: "EncodeDataInValues (ce_lg e) (ce_root e) ?slice ?rest ?k = Inr c" "is_composition ?rest ?k c"
    using EncodeDataInValues_ok [of "ce_lg e" "ce_root e" ?k ?rest M ?slice] e(1) M sl by (auto simp: env_ok_def M_def)
  have "length c = length vout" using c(2) un(1) by (simp add: is_composition_def)
  then have "\<exists>ys. rmap (\<lambda>i. rbind (vec_at c i) (\<lambda>v. Inr ((vout ! i)\<lparr>to_nValue := v + 546\<rparr>))) [0..<length vout] = Inr ys"
    by (intro rmap_total) simp
  then show ?thesis unfolding PackDataIntoBudgetSplit_def Let_def M rbind_Inr M_def [symmetric] s prod.case c(1) using le by auto
qed

lemma PackDataIntoBudgetClaim_succeeds:
  assumes e: "env_ok e" "lg_pos (ce_lg e)" and bits: "length bits < 2 ^ 31" and n: "2 \<le> length vin" "length vin \<le> 14"
  shows "\<exists>bits' vin'. PackDataIntoBudgetClaim e bits vin = Inr (bits', vin')"
proof -
  let ?k = "ucast (of_nat (length vin) :: u32) :: u16"
  let ?M = "EmbeddableBitsInPermutation (ce_lg e) ?k"
  have un: "unat ?k = length vin" using small_sizes(1) [OF n(2)] .
  have "(2 :: int) \<le> fact (length vin)" using fact_mono [OF n(1), where 'a = int] by (simp add: fact_numeral)
  then have M: "?M \<noteq> 0" using e(2) by (simp add: lg_pos_def EmbeddableBitsInPermutation_def Factorial_fact un)
  obtain s r where s: "SliceBits bits (min ?M (of_nat (length bits))) = Inr (s, r)" using min_slice_total [OF bits] by blast
  let ?slice = "PadBits s (?M - min ?M (of_nat (length bits)))"
  have sl: "length ?slice = unat ?M" using min_slice [OF bits s] by simp
  then have "length ?slice \<noteq> 0" using M by (simp only: unat_eq_0 not_False_eq_True)
  then have "?slice \<noteq> []" by (simp only: length_0_conv not_False_eq_True)
  moreover have "2 \<le> unat ?k" using n(1) un by simp
  ultimately obtain p where p: "EncodeDataInPermutation (ce_lg e) ?slice ?k = Inr p" "is_permutation ?k p"
    using EncodeDataInPermutation_ok [of "ce_lg e" ?k ?slice] e(1) sl by (auto simp: env_ok_def)
  have "length p = length vin" using p(2) un by (simp add: is_permutation_def)
  then have "\<exists>ys. rmap (\<lambda>i. rbind (vec_at p i) (\<lambda>q. Inr (set_n (ucast q) (vin ! i)))) [0..<length vin] = Inr ys"
    by (intro rmap_total) simp
  then show ?thesis unfolding PackDataIntoBudgetClaim_def Let_def s rbind_Inr prod.case p(1) by auto
qed

lemma pack_values_succeeds:
  assumes e: "env_ok e" "lg_pos (ce_lg e)" and bits: "length bits < 2 ^ 31"
    and n: "length vout = n" "length vin = n" "1 \<le> n" "n \<le> 14"
    and budget: "nFees \<le> nBudget" "7645 \<le> unat (nBudget - nFees)" "unat nBudget < 2 ^ 62"
  shows "\<exists>bits' vout' vin' out. pack_values e bits vout vin nBudget nFees = Inr (bits', vout', vin') \<and>
    consumed bits bits' out \<and> length vout' = n \<and> length vin' = n \<and> (\<forall>x \<in> set vin'. unat (op_n (ti_prevout x)) < n)"
proof (cases "n = 1")
  case True
  then obtain x y where "vin = [x]" "vout = [y]" using n by (auto simp: length_Suc_conv)
  then show ?thesis using True by (auto simp: pack_values_def set_n_def intro: exI [of _ "[]"] consumed_refl)
next
  case False
  then have n2: "2 \<le> n" using n(3) by simp
  have "unat (nBudget - nFees) < 2 ^ 62" using budget(1,3) by (simp add: unat_sub)
  moreover have "546 * length vout < unat (nBudget - nFees)" using n(1,4) budget(2) by linarith
  ultimately obtain b v where s: "PackDataIntoBudgetSplit e bits vout (nBudget - nFees) 546 = Inr (b, v)"
    using PackDataIntoBudgetSplit_succeeds [OF e bits] n(1,4) n2 by blast
  from PackDataIntoBudgetSplit_unpack [OF e(1) bits _ _ \<open>unat (nBudget - nFees) < 2 ^ 62\<close> s] n(1,4) n2 obtain o1 where
    o1: "consumed bits b o1" "length v = n" by auto
  have "length b < 2 ^ 31" using consumed_length [OF o1(1)] bits by linarith
  note b = e this
  obtain bits' w where c: "PackDataIntoBudgetClaim e b vin = Inr (bits', w)"
    using PackDataIntoBudgetClaim_succeeds [OF b] n(2,4) n2 by blast
  from PackDataIntoBudgetClaim_unpack [OF b(1,3) _ _ c] n(2,4) n2 obtain o2 where
    "consumed b bits' o2" "length w = n" "\<forall>x \<in> set w. unat (op_n (ti_prevout x)) < n" by auto
  then show ?thesis using s c n(1) n2 False budget(1) o1(2) consumed_trans [OF o1(1)] by (auto simp: pack_values_def)
qed

section \<open>Fees\<close>

text \<open>The size of a transaction is at most the sum of these; the words may only wrap to less.\<close>

definition in_weight :: "CTransaction \<Rightarrow> nat" where
  "in_weight tx = sum_list (map (\<lambda>x. 49 + length (ti_scriptSig x)) (tx_vin tx))"

definition out_weight :: "CTxOut list \<Rightarrow> nat" where
  "out_weight vout = sum_list (map (\<lambda>o'. 17 + length (to_scriptPubKey o')) vout)"

lemma unat_plus_le: "unat (a + b :: 'a :: len word) \<le> unat a + unat b"
  by (simp add: unat_word_ariths)

lemma unat_of_nat_le: "unat (of_nat n :: 'a :: len word) \<le> n"
  by (simp add: unat_of_nat)

lemma compact_size_le: "unat (GetSizeOfCompactSize n) \<le> 9"
  by (simp add: GetSizeOfCompactSize_def)

lemma bytes_size_le: "unat (GetSerializeSize_bytes v) \<le> 9 + length v"
  unfolding GetSerializeSize_bytes_def
  by (rule order_trans [OF unat_plus_le add_mono [OF compact_size_le unat_of_nat_le]])

lemma vector_size_le:
  assumes "\<And>x. x \<in> set v \<Longrightarrow> unat (sz x) \<le> w x"
  shows "unat (GetSerializeSize_vector sz v) \<le> 9 + sum_list (map w v)"
proof -
  have "unat (fold (\<lambda>x n. n + sz x) v n) \<le> unat n + sum_list (map w v)" for n
    using assms
  proof (induction v arbitrary: n)
    case (Cons x v)
    have "unat (fold (\<lambda>x n. n + sz x) v (n + sz x)) \<le> unat (n + sz x) + sum_list (map w v)" using Cons by simp
    moreover have "unat (n + sz x) \<le> unat n + unat (sz x)" by (rule unat_plus_le)
    moreover have "unat (sz x) \<le> w x" using Cons.prems by simp
    ultimately show ?case by simp
  qed simp
  from this [of "GetSizeOfCompactSize (of_nat (length v))"] compact_size_le [of "of_nat (length v)"] show ?thesis
    unfolding GetSerializeSize_vector_def by linarith
qed

lemma tx_size_le: "unat (tx_GetSerializeSize tx) \<le> 26 + in_weight tx + out_weight (tx_vout tx)"
proof -
  have i: "unat (txin_GetSerializeSize x) \<le> 49 + length (ti_scriptSig x)" for x
    using unat_plus_le [of "36 + GetSerializeSize_bytes (ti_scriptSig x)" 4] unat_plus_le [of 36 "GetSerializeSize_bytes (ti_scriptSig x)"]
      bytes_size_le [of "ti_scriptSig x"] by (simp add: txin_GetSerializeSize_def op_GetSerializeSize_def)
  have o': "unat (txout_GetSerializeSize x) \<le> 17 + length (to_scriptPubKey x)" for x
    using unat_plus_le [of 8 "GetSerializeSize_bytes (to_scriptPubKey x)"]
      bytes_size_le [of "to_scriptPubKey x"] by (simp add: txout_GetSerializeSize_def)
  let ?i = "GetSerializeSize_vector txin_GetSerializeSize (tx_vin tx)" and ?o = "GetSerializeSize_vector txout_GetSerializeSize (tx_vout tx)"
  have "unat ?i \<le> 9 + in_weight tx" unfolding in_weight_def by (rule vector_size_le) (rule i)
  moreover have "unat ?o \<le> 9 + out_weight (tx_vout tx)" unfolding out_weight_def by (rule vector_size_le) (rule o')
  ultimately show ?thesis
    using unat_plus_le [of "4 + ?i + ?o" 4] unat_plus_le [of "4 + ?i" ?o] unat_plus_le [of 4 ?i] by (simp add: tx_GetSerializeSize_def)
qed

lemma TransactionFee_bound:
  assumes F: "rbind (map_at (b_Config g) ''TxFeeRate'') stoul = Inr F" "unat F \<le> 2 ^ 48"
    and w: "in_weight tx \<le> 10500" "out_weight (tx_vout tx) \<le> 700"
  shows "\<exists>f. TransactionFee tx g = Inr f \<and> unat f \<le> 12 * unat F"
proof -
  let ?c = "ceil_div (unat (tx_GetSerializeSize tx)) 1000"
  have "unat (tx_GetSerializeSize tx) \<le> 12000" using tx_size_le [of tx] w by linarith
  then have "?c \<le> ceil_div 12000 1000" by (rule ceil_div_mono)
  then have c: "?c \<le> 12" by (simp add: ceil_div_def)
  have p: "unat F * ?c \<le> 12 * unat F" using mult_le_mono2 [OF c, of "unat F"] by simp
  moreover have "12 * unat F < 2 ^ 53" using F(2) by simp
  ultimately have "unat F * ?c < 2 ^ 53" by (rule order_le_less_trans)
  moreover have "unat F < 2 ^ 53" using F(2) by simp
  moreover have "unat F * ?c < 2 ^ 64" using \<open>unat F * ?c < 2 ^ 53\<close> by simp
  moreover from this have "unat (of_nat (unat F * ?c) :: u64) = unat F * ?c" by (simp only: unat_of_nat) simp
  moreover obtain s where "map_at (b_Config g) ''TxFeeRate'' = Inr s" "stoul s = Inr F" using F(1) by (auto simp: rbind_eq_Inr)
  ultimately show ?thesis using p
    by (intro exI [of _ "of_nat (unat F * ?c)"]) (simp add: TransactionFee_def round_double_small u64_of_double_def)
qed

lemma dummy_scripts: "length dummyA = 23" "length dummyB = 42"
  by code_simp+

lemma NumberCompositions_total: "unat n < 2 ^ 62 \<Longrightarrow> 1 \<le> k \<Longrightarrow> k \<le> 14 \<Longrightarrow> \<exists>N. NumberCompositions n (of_nat k) = Inr N"
  using NumberCompositions_ncomp [of "of_nat k" n] by (simp add: unat_of_nat)

lemma OptimizeParams_loop_succeeds:
  assumes F: "rbind (map_at (b_Config g) ''TxFeeRate'') stoul = Inr F" "unat F \<le> 2 ^ 48"
    and w: "in_weight tx \<le> 10500" and B: "unat nBudget < 2 ^ 62"
  shows "k \<le> 14 \<Longrightarrow> k = 14 \<or> unat (p_nFees p) \<le> 12 * unat F \<Longrightarrow>
    \<exists>q. OptimizeParams_loop e g tx bits nBudget a b k p = Inr q \<and> unat (p_nFees q) \<le> 12 * unat F"
proof (induction k arbitrary: p)
  case (Suc j)
  define T where "T = (of_nat (Suc j) * (a + 11 * b) + of_nat (Suc j) * 32 :: u32)"
  define N :: nat where "N = (if (Suc j = 1 \<and> length bits > unat T) \<or> Suc j \<ge> 2 then 1 else 0)"
  define V where "V = (if N = 1 then replicate (Suc j) (null_txout\<lparr>to_scriptPubKey := dummyA\<rparr>) @ [null_txout\<lparr>to_scriptPubKey := dummyB\<rparr>]
      else replicate (Suc j) (null_txout\<lparr>to_scriptPubKey := dummyA\<rparr>))"
  have "out_weight V \<le> 40 * Suc j + 59" by (simp add: V_def out_weight_def sum_list_replicate dummy_scripts del: replicate.simps)
  then have "out_weight V \<le> 700" using Suc.prems(1) by simp
  moreover have "in_weight (tx\<lparr>tx_vout := V\<rparr>) = in_weight tx" by (simp add: in_weight_def)
  ultimately obtain f where f: "TransactionFee (tx\<lparr>tx_vout := V\<rparr>) g = Inr f" "unat f \<le> 12 * unat F"
    using TransactionFee_bound [OF F, of "tx\<lparr>tx_vout := V\<rparr>"] w by auto
  define T' where "T' = (if N = 1 then T + 320 else T)"
  have "\<exists>v. (if nBudget \<ge> f then EmbeddableBitsInValues (ce_lg e) (nBudget - f) (of_nat (Suc j)) else Inr 0) = Inr v"
  proof (cases "f \<le> nBudget")
    case True
    then have "unat (nBudget - f) < 2 ^ 62" using B by (simp add: unat_sub)
    then show ?thesis using NumberCompositions_total [of "nBudget - f" "Suc j"] Suc.prems(1) by (auto simp: EmbeddableBitsInValues_def)
  qed simp
  then obtain v where v: "(if nBudget \<ge> f then EmbeddableBitsInValues (ce_lg e) (nBudget - f) (of_nat (Suc j)) else Inr 0) = Inr v" ..
  define T'' where "T'' = (if Suc j \<ge> 2 then T' + (v + EmbeddableBitsInPermutation (ce_lg e) (of_nat (Suc j))) else T')"
  define p' where "p' = (if unat T'' \<ge> length bits \<or> Suc j = 14 then \<lparr>p_nScriptHash = Suc j, p_nNulldata = N, p_nFees = f\<rparr> else p)"
  have p': "unat (p_nFees p') \<le> 12 * unat F" using f(2) Suc.prems(2) by (auto simp: p'_def)
  have "OptimizeParams_loop e g tx bits nBudget a b (Suc j) p =
      (if unat T'' \<ge> length bits then OptimizeParams_loop e g tx bits nBudget a b j p' else Inr p')"
    unfolding OptimizeParams_loop.simps Let_def [of "Suc j"] T_def [symmetric] Let_def [of T] N_def [symmetric] Let_def [of N]
    unfolding Let_def V_def [symmetric] f(1) rbind_Inr v T'_def [symmetric]
    by (simp add: T''_def p'_def)
  then show ?case using Suc.IH [of p'] Suc.prems(1) p' by auto
qed simp

lemma OptimizeParams_succeeds:
  assumes rd: "ready ssl m F t dat D bits g" and w: "in_weight tx \<le> 10500" "tx_vout tx = []" and B: "unat nBudget < 2 ^ 62"
  shows "\<exists>q. OptimizeParams e g tx bits nBudget p = Inr q \<and> unat (p_nFees q) \<le> 12 * unat F"
proof -
  obtain a r where c: "nSuffixBits g = Inr a" "rbind (map_at (b_Config g) ''Random.SuffixBits'') stoi = Inr r"
    using rd by (auto simp: ready_def keys_ok_def)
  have F: "rbind (map_at (b_Config g) ''TxFeeRate'') stoul = Inr F" "unat F \<le> 2 ^ 48" using rd by (simp_all add: ready_def)
  have "out_weight (tx_vout tx) \<le> 700" by (simp add: w(2) out_weight_def)
  then obtain f where "TransactionFee tx g = Inr f" "unat f \<le> 12 * unat F" using TransactionFee_bound [OF F w(1)] by blast
  then show ?thesis using OptimizeParams_loop_succeeds [OF F w(1) B, of 14] c by (auto simp: OptimizeParams_def)
qed

section \<open>The rounds\<close>

text \<open>What the budget must hold: twelve times the rate for each transaction, and the least values of fourteen outputs.\<close>

definition covers :: "u64 \<Rightarrow> databits \<Rightarrow> u64 \<Rightarrow> bool" where
  "covers F bits nBudget \<longleftrightarrow> 12 * unat F * (length bits div 32 + 1) + 7645 \<le> unat nBudget \<and> unat nBudget < 2 ^ 62"

lemma in_weight_small:
  "length (tx_vin tx) \<le> 14 \<Longrightarrow> \<forall>x \<in> set (tx_vin tx). length (ti_scriptSig x) \<le> 700 \<Longrightarrow> in_weight tx \<le> 10500"
proof -
  assume l: "length (tx_vin tx) \<le> 14" and x: "\<forall>x \<in> set (tx_vin tx). length (ti_scriptSig x) \<le> 700"
  have "in_weight tx \<le> sum_list (map (\<lambda>x. 749) (tx_vin tx))"
    unfolding in_weight_def by (rule sum_list_mono) (use x in auto)
  then show ?thesis using l by (simp add: sum_list_triv)
qed

text \<open>A round without data does nothing; it makes no outputs.\<close>

lemma embed_round_empty:
  assumes rd: "ready ssl m F t dat D [] g" and w: "in_weight cur \<le> 10500" "tx_vout cur = []" "tx_vin nxt = []"
    and B: "covers F [] nBudget"
  shows "\<exists>cur' nxt' nBudget' params'. embed_round e cur nxt [] nBudget params g = Inr (cur', nxt', [], nBudget', params', g) \<and>
    in_weight nxt' \<le> 10500 \<and> tx_vout nxt' = tx_vout nxt \<and> unat nBudget' < 2 ^ 62"
proof -
  have B': "unat nBudget < 2 ^ 62" "12 * unat F \<le> unat nBudget" using B by (simp_all add: covers_def)
  obtain p where p: "OptimizeParams e g cur [] nBudget params = Inr p" "unat (p_nFees p) \<le> 12 * unat F"
    using OptimizeParams_succeeds [OF rd w(1,2) B'(1)] by blast
  have "p_nFees p \<le> nBudget" using order_trans [OF p(2) B'(2)] by (simp add: word_le_nat_alt)
  then have b: "unat (nBudget - p_nFees p) < 2 ^ 62" using B'(1) by (simp add: unat_sub)
  note n = OptimizeParams_Nil [OF p(1)]
  have "embed_round e cur nxt [] nBudget params g
      = Inr (cur\<lparr>tx_vout := []\<rparr>, nxt\<lparr>tx_vin := []\<rparr>, [], nBudget - p_nFees p, p, g)"
    unfolding embed_round_def p(1) rbind_Inr Let_def using n w(2,3) by (simp add: pack_values_def)
  then show ?thesis using b by (fastforce simp: in_weight_def)
qed

lemma embed_round_succeeds:
  assumes e: "env_ok e" "lg_pos (ce_lg e)" and rd: "ready (ce_ssl e) m F t dat D bits g"
    and w: "in_weight cur \<le> 10500" "tx_vout cur = []" "tx_vin nxt = []" and B: "covers F bits nBudget"
  shows "\<exists>cur' nxt' bits' nBudget' params' g'. embed_round e cur nxt bits nBudget params g = Inr (cur', nxt', bits', nBudget', params', g') \<and>
    ready (ce_ssl e) m F t dat D bits' g' \<and> in_weight nxt' \<le> 10500 \<and> tx_vout nxt' = tx_vout nxt \<and>
    unat nBudget' < 2 ^ 62 \<and> (bits' \<noteq> [] \<longrightarrow> covers F bits' nBudget')"
proof (cases "bits = []")
  case True
  then show ?thesis using embed_round_empty [of "ce_ssl e" m F t dat D g cur nxt nBudget e params] rd w B by fastforce
next
  case ne: False
  have b31: "length bits < 2 ^ 31" using rd by (simp add: ready_def)
  have B62: "unat nBudget < 2 ^ 62" using B by (simp add: covers_def)
  obtain p where p: "OptimizeParams e g cur bits nBudget params = Inr p" "unat (p_nFees p) \<le> 12 * unat F"
    using OptimizeParams_succeeds [OF rd w(1,2) B62] by blast
  define n where "n = p_nScriptHash p"
  have n: "1 \<le> n" "n \<le> 14" using OptimizeParams_counts [OF p(1) ne] by (simp_all add: counts_ok_def n_def)
  obtain vout0 vin0 where f: "fold add_script_hash [0..<n] ([], []) = (vout0, vin0)" by fastforce
  have l: "length vout0 = n" "length vin0 = n" using add_script_hashes [OF f] by simp_all
  have "12 * unat F + 7645 \<le> unat nBudget" using B by (simp add: covers_def algebra_simps)
  then have fee: "p_nFees p \<le> nBudget" and rest: "7645 \<le> unat (nBudget - p_nFees p)"
    using p(2) by (simp_all add: word_le_nat_alt unat_sub)
  obtain b1 vout1 vin1 o1 where v: "pack_values e bits vout0 vin0 nBudget (p_nFees p) = Inr (b1, vout1, vin1)"
    "consumed bits b1 o1" "length vout1 = n" "length vin1 = n" "\<forall>x \<in> set vin1. unat (op_n (ti_prevout x)) < n"
    using pack_values_succeeds [OF e b31 l n fee rest B62] by blast
  have rd1: "ready (ce_ssl e) m F t dat D b1 g" by (rule ready_consumed [OF rd v(2)])
  let ?null = "if p_nNulldata p \<noteq> 0 then
      rbind (PackDataIntoNulldata b1 null_txout) (\<lambda>(bits, txOut). Inr (bits, vout1 @ [txOut])) else Inr (b1, vout1)"
  have b1: "length b1 < 2 ^ 31" using rd1 by (simp add: ready_def)
  obtain b2 vout2 where u: "?null = Inr (b2, vout2)" "n \<le> length vout2" "ready (ce_ssl e) m F t dat D b2 g"
  proof (cases "p_nNulldata p \<noteq> 0")
    case True
    obtain b2 o2 where o2: "PackDataIntoNulldata b1 null_txout = Inr (b2, o2)" using PackDataIntoNulldata_succeeds [OF b1] by force
    obtain out where "consumed b1 b2 out" using PackDataIntoNulldata_unpack [OF b1 o2] by blast
    then show thesis using that [of b2 "vout1 @ [o2]"] True o2 v(3) ready_consumed [OF rd1] by auto
  next
    case False
    then show thesis using that [of b1 vout1] v(3) rd1 by simp
  qed
  let ?nxt = "nxt\<lparr>tx_vin := vin1\<rparr>"
  have op: "\<forall>j < n. unat (op_n (ti_prevout (tx_vin ?nxt ! j))) < length vout2" using v(4,5) u(2) by (auto intro: order_less_le_trans)
  have "n \<le> length (tx_vin ?nxt)" "n < 2 ^ 32" using v(4) n(2) by simp_all
  from pack_outputs_succeed [OF e(1) u(3) this op] obtain bits' vout3 nxt' g' where r:
    "rfold (pack_output e) [0..<n] (b2, vout2, ?nxt, g) = Inr (bits', vout3, nxt', g')"
    "ready (ce_ssl e) m F t dat D bits' g'" "tx_vout nxt' = tx_vout nxt"
    "map ti_prevout (tx_vin nxt') = map ti_prevout vin1" "\<forall>j < n. length (ti_scriptSig (tx_vin nxt' ! j)) \<le> 700" by auto
  have round: "embed_round e cur nxt bits nBudget params g = Inr (cur\<lparr>tx_vout := vout3\<rparr>, nxt', bits', nBudget - p_nFees p, p, g')"
    unfolding embed_round_def p(1) rbind_Inr Let_def n_def [symmetric] w(2,3) f prod.case v(1) u(1) r(1) ..
  have "length (tx_vin nxt') = n" using map_eq_imp_length_eq [OF r(4)] v(4) by simp
  then have "in_weight nxt' \<le> 10500" using r(5) n(2) by (intro in_weight_small) (auto simp: in_set_conv_nth)
  moreover have "unat (nBudget - p_nFees p) < 2 ^ 62" using B62 fee by (simp add: unat_sub)
  moreover have "covers F bits' (nBudget - p_nFees p)" if "bits' \<noteq> []"
  proof -
    have "length bits' \<le> length bits - 32" by (rule embed_round_shrinks [OF b31 round])
    moreover have "0 < length bits'" using that by simp
    ultimately have "length bits' div 32 + 1 \<le> length bits div 32" by linarith
    then have "12 * unat F * (length bits' div 32 + 1) \<le> 12 * unat F * (length bits div 32)" by (rule mult_le_mono2)
    moreover have "unat (nBudget - p_nFees p) = unat nBudget - unat (p_nFees p)" using fee by (simp add: unat_sub)
    moreover have "12 * unat F * (length bits div 32) + 12 * unat F + 7645 \<le> unat nBudget" using B by (simp add: covers_def algebra_simps)
    moreover have "x + 7645 \<le> b - f" if "x \<le> y" "y + z + 7645 \<le> b" "f \<le> z" for x y z b f :: nat using that by simp
    ultimately have "12 * unat F * (length bits' div 32 + 1) + 7645 \<le> unat (nBudget - p_nFees p)" using p(2) by metis
    then show ?thesis using \<open>unat (nBudget - p_nFees p) < 2 ^ 62\<close> by (simp add: covers_def)
  qed
  ultimately show ?thesis using round r(2,3) by blast
qed

lemma EmbedData_loop_succeeds:
  assumes e: "env_ok e" "lg_pos (ce_lg e)"
  shows "ready (ce_ssl e) m F t dat D bits g \<Longrightarrow> in_weight cur \<le> 10500 \<Longrightarrow> tx_vout cur = [] \<Longrightarrow> tx_vin nxt = [] \<Longrightarrow>
    tx_vout nxt = [] \<Longrightarrow> covers F bits nBudget \<Longrightarrow>
    \<exists>txs idx B p g'. EmbedData_loop e (pre @ [cur, nxt]) (length pre) bits nBudget params g = Some (Inr (txs, idx, B, p, g')) \<and>
      ready (ce_ssl e) m F t dat D [] g' \<and> in_weight (txs ! (idx + 1)) \<le> 10500 \<and> tx_vout (txs ! (idx + 1)) = [] \<and> unat B < 2 ^ 62"
proof (induction "length bits" arbitrary: bits nBudget cur nxt pre params g rule: less_induct)
  case less
  have b31: "length bits < 2 ^ 31" using less.prems(1) by (simp add: ready_def)
  from embed_round_succeeds [OF e less.prems(1-4,6)] less.prems(5)
  obtain cur' nxt' b B' p' g' where r: "embed_round e cur nxt bits nBudget params g = Inr (cur', nxt', b, B', p', g')"
    "ready (ce_ssl e) m F t dat D b g'" "in_weight nxt' \<le> 10500" "tx_vout nxt' = []" "unat B' < 2 ^ 62" "b \<noteq> [] \<longrightarrow> covers F b B'" by force
  have upd: "(pre @ [cur, nxt])[length pre := cur', length pre + 1 := nxt'] = pre @ [cur', nxt']"
    "(pre @ [cur, nxt]) ! length pre = cur" "(pre @ [cur, nxt]) ! (length pre + 1) = nxt"
    by (simp_all add: list_update_append nth_append)
  have step: "EmbedData_loop e (pre @ [cur, nxt]) (length pre) bits nBudget params g =
      (if b \<noteq> [] then EmbedData_loop e ((pre @ [cur', nxt']) @ [null_tx]) (length pre + 1) b B' p' g'
       else Some (Inr (pre @ [cur', nxt'], length pre, B', p', g')))"
    unfolding EmbedData_loop.simps [of e "pre @ [cur, nxt]"] upd r(1) sum.case prod.case Let_def ..
  show ?case
  proof (cases "b = []")
    case True
    then have "EmbedData_loop e (pre @ [cur, nxt]) (length pre) bits nBudget params g
        = Some (Inr (pre @ [cur', nxt'], length pre, B', p', g'))"
      unfolding step by simp
    then show ?thesis using r True by (auto simp: nth_append)
  next
    case False
    have "length b \<le> length bits - 32" by (rule embed_round_shrinks [OF b31 r(1)])
    moreover have "0 < length b" using False by simp
    ultimately have "length b < length bits" by linarith
    from less.hyps [OF this r(2,3,4) _ _ r(6) [rule_format, OF False], of null_tx "pre @ [cur']" p'] obtain txs idx B p h where IH:
      "EmbedData_loop e ((pre @ [cur']) @ [nxt', null_tx]) (length (pre @ [cur'])) b B' p' g' = Some (Inr (txs, idx, B, p, h))"
      "ready (ce_ssl e) m F t dat D [] h" "in_weight (txs ! (idx + 1)) \<le> 10500" "tx_vout (txs ! (idx + 1)) = []" "unat B < 2 ^ 62"
      by (auto simp: null_tx_def)
    have "EmbedData_loop e (pre @ [cur, nxt]) (length pre) bits nBudget params g = Some (Inr (txs, idx, B, p, h))"
      unfolding step using IH(1) False by simp
    then show ?thesis using IH(2-5) by blast
  qed
qed

section \<open>A state in which embedding succeeds\<close>

text \<open>The sample of OpenSSL accepts every candidate made of data that begins with a one.\<close>

lemma sample_key_try:
  assumes "length s = 250" "s \<noteq> []" "hd s" "5 \<le> length draws"
  shows "key_try sample_ssl s draws"
proof -
  let ?bits = "CharToBoolVec 2 @ (False # s) @ take 5 draws"
  have "length ?bits = 8 * 33" using assms(1,4) by simp
  then have "8 dvd length ?bits" by (simp only: dvd_triv_left)
  then obtain bytes where b: "BitsToData ?bits = Inr bytes" using BitsToData_total by blast
  then have D: "DataToBits bytes = ?bits" by (simp add: BitsToData_Inr_iff)
  then have l: "length bytes = 33" using assms(1,4) length_DataToBits [of bytes] by simp
  then obtain h c cs where bytes: "bytes = h # c # cs" "length cs = 31"
    by (cases bytes; cases "tl bytes") auto
  have D2: "CharToBoolVec h @ CharToBoolVec c @ DataToBits cs = ?bits" using D by (simp add: bytes(1))
  then have h: "CharToBoolVec h = CharToBoolVec 2" and D3: "CharToBoolVec c @ DataToBits cs = (False # s) @ take 5 draws" by auto
  from h have h2: "h = 2" by (metis BoolVecToChar_CharToBoolVec sum.inject(2))
  obtain s' where s': "s = True # s'" using assms(2,3) by (cases s) auto
  have "\<not> hd (CharToBoolVec c)" "hd (tl (CharToBoolVec c))"
    using arg_cong [OF D3, of hd] arg_cong [OF D3, of "\<lambda>v. hd (tl v)"] by (simp_all add: s' CharToBoolVec_bits upt_rec)
  moreover have "hd (CharToBoolVec 255)" "\<not> hd (tl (CharToBoolVec 0))" by code_simp+
  ultimately have "c \<noteq> 255" "c \<noteq> 0" by auto
  then have "unat c \<noteq> unat (255 :: byte)" "unat c \<noteq> 0" by (simp_all only: word_unat_eq_iff [symmetric] unat_eq_0 not_False_eq_True)
  moreover have "unat c < 256" using unsigned_less [of c] by simp
  moreover have "unat (255 :: byte) = 255" by simp
  ultimately have c: "1 \<le> unat c" "unat c \<le> 254" by linarith+
  have cs: "be_value cs < 256 ^ 31" using be_value_less [of cs] bytes(2) by simp
  have "unat c * 256 ^ 31 \<le> 254 * 256 ^ 31" by (rule mult_le_mono1 [OF c(2)])
  then have v: "0 < be_value (c # cs)" "be_value (c # cs) < 255 * 256 ^ 31"
    using c(1) cs by (simp_all add: bytes(2))
  then have "int (be_value (c # cs)) < secp256k1_order" by (simp add: secp256k1_order_def del: be_value_simps)
  then have "sample_o2i bytes \<noteq> None" using v(1) bytes(2) by (simp add: sample_o2i_def bytes(1) h2 Let_def del: be_value_simps)
  moreover have "pk_bytes (mk_pubkey bytes) = bytes" "pk_size (mk_pubkey bytes) = 33"
    using pk_bytes_mk_pubkey [of bytes] pk_size_mk_pubkey [of bytes] l by (simp_all add: bytes(1) h2 GetLen_def)
  ultimately have "IsFullyValid sample_ssl (mk_pubkey bytes)" by (simp add: IsFullyValid_def pk_IsValid_def sample_ssl_def)
  then show ?thesis using b assms(4) by (simp add: key_try_def byte_2)
qed

definition log_chan :: chan_env where
  "log_chan = sample_chan\<lparr>ce_lg := floor_lg\<rparr>"

definition full_bms :: bms where
  "full_bms = sample_bms\<lparr>b_Config := Mapping.update ''Keymap.SuffixBits'' ''1'' (b_Config sample_bms),
    b_KeyMap := Mapping.of_alist [([True], sample_key_of sample_a), ([False], sample_key_of sample_b)],
    b_draws := replicate 20 False\<rparr>"

lemma floor_lg_pos: "lg_pos floor_lg"
proof -
  have "floor_lg N \<noteq> 0" if N: "2 \<le> N" for N
  proof -
    have "length (IntToDataBits N) \<noteq> 1"
    proof
      assume l: "length (IntToDataBits N) = 1"
      have "bits_value (IntToDataBits N) = N" using IntToDataBits_value [of N] N by simp
      then show False using bits_value_bounds [of "IntToDataBits N"] N l by simp
    qed
    moreover have "IntToDataBits N \<noteq> []" using IntToDataBits_loop_head [of N "[]"] N by (auto simp: IntToDataBits_def)
    ultimately have "1 \<le> length (IntToDataBits N) - 1" by (cases "IntToDataBits N") (auto simp: Suc_le_eq)
    define k where "k = min (2 ^ 31) (length (IntToDataBits N) - 1)"
    have "1 \<le> k" "k \<le> 2 ^ 31" using \<open>1 \<le> length (IntToDataBits N) - 1\<close> by (simp_all add: k_def)
    then have "unat (of_nat k :: u32) \<noteq> 0" by (simp add: unat_of_nat)
    then show ?thesis unfolding floor_lg_def k_def [symmetric] by auto
  qed
  then show ?thesis by (simp add: lg_pos_def)
qed

lemma log_chan_ok: "env_ok log_chan" "lg_pos (ce_lg log_chan)" "ce_ssl log_chan = sample_ssl"
  using sample_env_ok floor_lg_ok floor_lg_pos by (simp_all add: env_ok_def log_chan_def sample_chan_def sample_env_def)

lemma full_bms_ok: "keys_ok sample_ssl 1 full_bms"
  "\<forall>s. length s = 1 \<longrightarrow> Mapping.lookup (b_KeyMap full_bms) s \<noteq> None"
  "rbind (map_at (b_Config full_bms) ''Random.SuffixBits'') stoi = Inr 5"
  "rbind (map_at (b_Config full_bms) ''TxFeeRate'') stoul = Inr 10000"
proof -
  have s: "stoi ''1'' = Inr 1" by code_simp
  have n: "nSuffixBits full_bms = Inr 1" using s by (simp add: nSuffixBits_def map_at_def full_bms_def lookup_update)
  have k: "Mapping.lookup (b_KeyMap sample_bms) [False, True, True, True] = Some (sample_key_of sample_a)"
    "Mapping.lookup (b_KeyMap sample_bms) [False, False, False, False] = Some (sample_key_of sample_b)"
    by (simp_all add: sample_bms_def lookup_of_alist)
  have keys: "\<exists>pk. signs_with sample_ssl (b_Store sample_bms) key pk \<and> drop 260 (DataToBits (pk_bytes pk)) = k"
    if "Mapping.lookup (b_KeyMap sample_bms) k = Some key" for k key
    using sample_keys_ok that by (simp add: keys_ok_def)
  obtain pa where a: "signs_with sample_ssl (b_Store sample_bms) (sample_key_of sample_a) pa"
    "drop 260 (DataToBits (pk_bytes pa)) = [False, True, True, True]" using keys [OF k(1)] by blast
  obtain pb where b: "signs_with sample_ssl (b_Store sample_bms) (sample_key_of sample_b) pb"
    "drop 260 (DataToBits (pk_bytes pb)) = [False, False, False, False]" using keys [OF k(2)] by blast
  have "drop 3 (drop 260 (DataToBits (pk_bytes pa))) = [True]" "drop 3 (drop 260 (DataToBits (pk_bytes pb))) = [False]"
    by (simp_all only: a(2) b(2)) simp_all
  then have d: "drop 263 (DataToBits (pk_bytes pa)) = [True]" "drop 263 (DataToBits (pk_bytes pb)) = [False]" by simp_all
  have "cache_ok sample_ssl (b_Cache full_bms)" using sample_keys_ok by (simp add: keys_ok_def full_bms_def)
  then show "keys_ok sample_ssl 1 full_bms" using n a(1) b(1) d
    by (auto simp: keys_ok_def full_bms_def lookup_of_alist sample_key_of_def split: if_splits)
  show "\<forall>s. length s = 1 \<longrightarrow> Mapping.lookup (b_KeyMap full_bms) s \<noteq> None"
    by (auto simp: full_bms_def lookup_of_alist length_Suc_conv)
  show "rbind (map_at (b_Config full_bms) ''Random.SuffixBits'') stoi = Inr 5"
    "rbind (map_at (b_Config full_bms) ''TxFeeRate'') stoul = Inr 10000"
    using sample_config(2-4) by (simp_all add: full_bms_def map_at_def lookup_update_neq)
qed

section \<open>Properties\<close>

text \<open>C5: embedding comes to an end and returns a chain of transactions. Each search for a key meets a valid one
  among \<open>t\<close> candidates, and there are random bits for \<open>t\<close> candidates for every 250 bits of data; there is a key for every
  suffix; and the budget covers the fees of the at most \<open>length dat div 32 + 1\<close> transactions that make outputs.\<close>

theorem embedding_succeeds:
  assumes e: "env_ok e" "lg_pos (ce_lg e)" "keys_ok (ce_ssl e) m g"
    and suffixes: "\<forall>s. length s = m \<longrightarrow> Mapping.lookup (b_KeyMap g) s \<noteq> None"
    and config: "rbind (map_at (b_Config g) ''Random.SuffixBits'') stoi = Inr r"
      "rbind (map_at (b_Config g) ''TxFeeRate'') stoul = Inr F" "unat F \<le> 2 ^ 48"
    and draws: "fair_draws (ce_ssl e) t dat (b_draws g)" "5 * t * ceil_div (length dat) 250 \<le> length (b_draws g)"
    and budget: "12 * unat F * (length dat div 32 + 1) + 7645 \<le> unat nBudget" "unat nBudget < 2 ^ 62"
    and size: "length dat < 2 ^ 31" "length prevOut \<le> 200"
  shows "\<exists>txs g'. EmbedData e dat nBudget prevOut addr g = Some (Inr (txs, g'))"
proof -
  let ?first = "null_tx\<lparr>tx_vin := map (\<lambda>p. empty_txin\<lparr>ti_prevout := p\<rparr>) prevOut\<rparr>"
  let ?params = "\<lparr>p_nScriptHash = 0, p_nNulldata = 0, p_nFees = 0\<rparr>"
  have "5 * (0 + t * ceil_div (length dat) 250) \<le> length (b_draws g)" using draws(2) by (simp add: mult.assoc)
  moreover have "dat = drop 0 dat" "b_draws g = drop (5 * 0) (b_draws g)" by simp_all
  ultimately have "supplied t dat (b_draws g) dat (b_draws g)" unfolding supplied_def by metis
  then have rd: "ready (ce_ssl e) m F t dat (b_draws g) dat g" using e(3) suffixes config draws(1) size(1) by (simp add: ready_def)
  have w: "in_weight ?first \<le> 10500" using size(2) by (simp add: in_weight_def empty_txin_def comp_def sum_list_triv)
  have cov: "covers F dat nBudget" using budget by (simp add: covers_def)
  from EmbedData_loop_succeeds [OF e(1,2) rd w _ _ _ cov, of null_tx "[]" ?params] obtain txs idx B p h where
    loop: "EmbedData_loop e [?first, null_tx] 0 dat nBudget ?params g = Some (Inr (txs, idx, B, p, h))"
      "ready (ce_ssl e) m F t dat (b_draws g) [] h" "in_weight (txs ! (idx + 1)) \<le> 10500" "tx_vout (txs ! (idx + 1)) = []"
      "unat B < 2 ^ 62"
    by (auto simp: null_tx_def)
  obtain q where "OptimizeParams e h (txs ! (idx + 1)) [] B p = Inr q" using OptimizeParams_succeeds [OF loop(2-5)] by blast
  then show ?thesis using loop(1) by (simp add: EmbedData_def Let_def)
qed

theorem embedding_succeeds_witness:
  "\<exists>txs g'. EmbedData log_chan (replicate 600 True) 10000000 [sample_prevout] empty_base58 full_bms = Some (Inr (txs, g'))"
proof (rule embedding_succeeds [where m = 1 and F = 10000 and t = 1 and r = 5])
  have d: "b_draws full_bms = replicate 20 False" by (simp add: full_bms_def)
  show "fair_draws (ce_ssl log_chan) 1 (replicate 600 True) (b_draws full_bms)"
    unfolding fair_draws_def d log_chan_ok(3)
  proof (intro allI impI exI [of _ 0] conjI)
    fix i k :: nat
    assume i: "i < length (replicate 600 True)" and k: "5 * (k + 1) \<le> length (replicate 20 False)"
    have "hd (piece (drop i (replicate 600 True)))" using i by (cases "600 - i") (simp_all add: piece_def)
    moreover have "length (piece (drop i (replicate 600 True))) = 250" by (simp add: piece_def)
    moreover from this have "piece (drop i (replicate 600 True)) \<noteq> []" by auto
    ultimately show "key_try sample_ssl (piece (drop i (replicate 600 True))) (drop (5 * (k + 0)) (replicate 20 False))"
      using k by (intro sample_key_try) simp_all
  qed simp
  show "5 * 1 * ceil_div (length (replicate 600 True)) 250 \<le> length (b_draws full_bms)" by (simp add: d ceil_div_def)
qed (use log_chan_ok full_bms_ok in simp_all)

end
