(* ===== verification/ExtKeys.thy ===== *)
theory ExtKeys
  imports Signing
begin

text \<open>
  The rest of \<open>src/src/lib/core/key.h\<close> and \<open>key.cpp\<close>: private keys in the format of OpenSSL, compact
  signatures, from which the public key is recovered, and the extended keys of BIP 32. An output
  parameter is an argument and a part of the result; a function of OpenSSL that fails on a null pointer is
  undefined. The curve has degree 256.
\<close>

section \<open>Recovering a public key from a signature\<close>

text \<open>\<open>None\<close> stands for every return value but 1.\<close>

definition ECDSA_SIG_recover_key_GFp :: "openssl \<Rightarrow> ecdsa_sig \<Rightarrow> data \<Rightarrow> int \<Rightarrow> bool \<Rightarrow> ec_point option" where
  "ECDSA_SIG_recover_key_GFp ssl sig msg recid check =
     (let (sig_r, sig_s) = sig;
          i = recid div 2;
          order = EC_order ssl;
          x = order * i + sig_r
      in if x \<ge> EC_field ssl then None
         else case EC_POINT_set_compressed_coordinates ssl x (recid mod 2 \<noteq> 0) of
           None \<Rightarrow> None
         | Some R \<Rightarrow>
             if check \<and> EC_POINT_mul ssl None (Some (R, order)) \<noteq> None then None
             else let n = 256;
                      e = BN_bin2bn ssl msg;
                      e = (if 8 * length msg > n then BN_rshift e (8 - n mod 8) else e);
                      e = (0 - e) mod order
                  in case BN_mod_inverse ssl sig_r order of
                       None \<Rightarrow> None
                     | Some rr \<Rightarrow>
                         let sor = (sig_s * rr) mod order;
                             eor = (e * rr) mod order
                         in Some (EC_POINT_mul ssl (Some eor) (Some (R, sor))))"

section \<open>\<open>CECKey\<close>\<close>

text \<open>A number of at most 32 bytes at the end of an array of 32 bytes that was cleared.\<close>

definition put_secret :: "openssl \<Rightarrow> bignum \<Rightarrow> data result" where
  "put_secret ssl bn =
     (let nBytes = BN_num_bytes bn
      in if nBytes > 32 then Inl Undefined
         else Inr (replicate (32 - nBytes) 0 @ BN_bn2bin ssl bn))"

definition GetSecretBytes :: "openssl \<Rightarrow> bignum \<Rightarrow> data result" where
  "GetSecretBytes ssl bn =
     rbind (put_secret ssl bn) (\<lambda>vch.
     rbind (rassert (length (BN_bn2bin ssl bn) = BN_num_bytes bn)) (\<lambda>_. Inr vch))"

text \<open>\<open>d2i_ECPrivateKey\<close> gives the secret and what \<open>EC_KEY_check_key\<close> says of the key; \<open>&privkey[0]\<close> needs a byte.\<close>

definition eckey_SetPrivKey :: "openssl \<Rightarrow> data \<Rightarrow> bool \<Rightarrow> bignum option result" where
  "eckey_SetPrivKey ssl privkey fSkipCheck =
     (if privkey = [] then Inl Undefined
      else Inr (case d2i_ECPrivateKey ssl privkey of
                  None \<Rightarrow> None
                | Some (secret, valid) \<Rightarrow> if fSkipCheck then Some secret else if valid then Some secret else None))"

definition eckey_GetPrivKey :: "openssl \<Rightarrow> bignum \<Rightarrow> bool \<Rightarrow> data result" where
  "eckey_GetPrivKey ssl secret fCompressed =
     (let privkey = i2d_ECPrivateKey ssl secret fCompressed
      in rbind (rassert (privkey \<noteq> [])) (\<lambda>_. Inr privkey))"

text \<open>The search for the number of the key; the recovered key is checked.\<close>

fun find_recid :: "openssl \<Rightarrow> ecdsa_sig \<Rightarrow> data \<Rightarrow> CPubKey \<Rightarrow> nat list \<Rightarrow> nat option result" where
  "find_recid ssl sig hash pubkey [] = Inr None"
| "find_recid ssl sig hash pubkey (i # is) =
     (case ECDSA_SIG_recover_key_GFp ssl sig hash (int i) True of
        None \<Rightarrow> find_recid ssl sig hash pubkey is
      | Some pkey \<Rightarrow>
          rbind (eckey_GetPubKey ssl pkey True invalid_pubkey) (\<lambda>pubkeyRec.
            if pk_eq pubkeyRec pubkey then Inr (Some i) else find_recid ssl sig hash pubkey is))"

text \<open>The key is given by its secret and its point. \<open>BN_num_bits\<close> is at most 256 when \<open>BN_num_bytes\<close> is at most 32.\<close>

definition eckey_SignCompact :: "openssl \<Rightarrow> bignum \<Rightarrow> ec_point \<Rightarrow> base_uint \<Rightarrow> (data \<times> nat) option result" where
  "eckey_SignCompact ssl secret pkey hash =
     (case ECDSA_do_sign ssl (bu_bytes hash) secret of
        None \<Rightarrow> Inr None
      | Some (r, s) \<Rightarrow>
          if BN_num_bytes r \<le> 32 \<and> BN_num_bytes s \<le> 32 then
            rbind (eckey_GetPubKey ssl pkey True invalid_pubkey) (\<lambda>pubkey.
            rbind (find_recid ssl (r, s) (bu_bytes hash) pubkey [0..<4]) (\<lambda>found.
              case found of
                None \<Rightarrow> Inl AssertFailed
              | Some rec \<Rightarrow>
                  rbind (put_secret ssl r) (\<lambda>p. rbind (put_secret ssl s) (\<lambda>q. Inr (Some (p @ q, rec))))))
          else Inr None)"

definition eckey_Recover :: "openssl \<Rightarrow> base_uint \<Rightarrow> data \<Rightarrow> int \<Rightarrow> ec_point option" where
  "eckey_Recover ssl hash p64 rec =
     (if rec < 0 \<or> rec \<ge> 3 then None
      else ECDSA_SIG_recover_key_GFp ssl (BN_bin2bn ssl (take 32 p64), BN_bin2bn ssl (take 32 (drop 32 p64)))
             (bu_bytes hash) rec False)"

definition TweakSecret :: "openssl \<Rightarrow> data \<Rightarrow> data \<Rightarrow> (bool \<times> data) result" where
  "TweakSecret ssl vchSecretIn vchTweak =
     (let bnOrder = EC_order ssl;
          bnTweak = BN_bin2bn ssl vchTweak;
          ret = (if bnTweak \<ge> bnOrder then False else True);
          bnSecret = BN_bin2bn ssl vchSecretIn;
          bnSecret = bnSecret + bnTweak;
          bnSecret = bnSecret mod bnOrder;
          ret = (if bnSecret = 0 then False else ret)
      in rbind (put_secret ssl bnSecret) (\<lambda>vchSecretOut. Inr (ret, vchSecretOut)))"

definition TweakPublic :: "openssl \<Rightarrow> ec_point \<Rightarrow> data \<Rightarrow> bool \<times> ec_point" where
  "TweakPublic ssl pkey vchTweak =
     (let bnOrder = EC_order ssl;
          bnTweak = BN_bin2bn ssl vchTweak;
          ret = (if bnTweak \<ge> bnOrder then False else True);
          bnOne = 1;
          point = EC_POINT_mul ssl (Some bnTweak) (Some (pkey, bnOne));
          ret = (if point = None then False else ret)
      in (ret, point))"

section \<open>Private keys in the format of OpenSSL\<close>

definition key_SetPrivKey :: "openssl \<Rightarrow> CKey \<Rightarrow> data \<Rightarrow> bool \<Rightarrow> (bool \<times> CKey) result" where
  "key_SetPrivKey ssl k privkey fCompressedIn =
     rbind (eckey_SetPrivKey ssl privkey False) (\<lambda>key.
       case key of
         None \<Rightarrow> Inr (False, k)
       | Some secret \<Rightarrow>
           rbind (GetSecretBytes ssl secret) (\<lambda>vch.
             Inr (True, k\<lparr>k_vch := vch, k_fCompressed := fCompressedIn, k_fValid := True\<rparr>)))"

definition key_GetPrivKey :: "openssl \<Rightarrow> CKey \<Rightarrow> data result" where
  "key_GetPrivKey ssl k =
     rbind (rassert (k_fValid k)) (\<lambda>_. eckey_GetPrivKey ssl (BN_bin2bn ssl (k_vch k)) (k_fCompressed k))"

definition key_Load :: "openssl \<Rightarrow> CKey \<Rightarrow> data \<Rightarrow> CPubKey \<Rightarrow> bool \<Rightarrow> (bool \<times> CKey) result" where
  "key_Load ssl k privkey vchPubKey fSkipCheck =
     rbind (eckey_SetPrivKey ssl privkey fSkipCheck) (\<lambda>key.
       case key of
         None \<Rightarrow> Inr (False, k)
       | Some secret \<Rightarrow>
           rbind (GetSecretBytes ssl secret) (\<lambda>vch.
             let k = k\<lparr>k_vch := vch, k_fCompressed := pk_IsCompressed vchPubKey, k_fValid := True\<rparr>
             in if fSkipCheck then Inr (True, k)
                else rbind (key_GetPubKey ssl k) (\<lambda>pubkey.
                       if \<not> pk_eq pubkey vchPubKey then Inr (False, k) else Inr (True, k))))"

section \<open>Compact signatures\<close>

definition key_SignCompact :: "openssl \<Rightarrow> CKey \<Rightarrow> base_uint \<Rightarrow> data option result" where
  "key_SignCompact ssl k hash =
     (if \<not> k_fValid k then Inr None
      else rbind (eckey_SignCompact ssl (BN_bin2bn ssl (k_vch k)) (regenerate_key ssl (k_vch k)) hash) (\<lambda>signed.
        case signed of
          None \<Rightarrow> Inr None
        | Some (p64, rec) \<Rightarrow>
            Inr (Some (of_nat (27 + rec + (if k_fCompressed k then 4 else 0)) # p64))))"

definition pk_GetHash :: "openssl \<Rightarrow> CPubKey \<Rightarrow> base_uint" where
  "pk_GetHash ssl pk = Hash ssl (pk_bytes pk)"

definition pk_RecoverCompact :: "openssl \<Rightarrow> CPubKey \<Rightarrow> base_uint \<Rightarrow> data \<Rightarrow> (bool \<times> CPubKey) result" where
  "pk_RecoverCompact ssl pk hash vchSig =
     (if length vchSig \<noteq> 65 then Inr (False, pk)
      else let header = int (unat (vchSig ! 0)) - 27
           in case eckey_Recover ssl hash (drop 1 vchSig) (header AND NOT 4) of
                None \<Rightarrow> Inr (False, pk)
              | Some pkey \<Rightarrow> rbind (eckey_GetPubKey ssl pkey (header AND 4 \<noteq> 0) pk) (\<lambda>pk. Inr (True, pk)))"

definition pk_VerifyCompact :: "openssl \<Rightarrow> CPubKey \<Rightarrow> base_uint \<Rightarrow> data \<Rightarrow> bool result" where
  "pk_VerifyCompact ssl pk hash vchSig =
     (if \<not> pk_IsValid pk then Inr False
      else if length vchSig \<noteq> 65 then Inr False
      else let header = int (unat (vchSig ! 0)) - 27
           in case eckey_Recover ssl hash (drop 1 vchSig) (header AND NOT 4) of
                None \<Rightarrow> Inr False
              | Some pkey \<Rightarrow>
                  rbind (eckey_GetPubKey ssl pkey (pk_IsCompressed pk) invalid_pubkey) (\<lambda>pubkeyRec.
                    if \<not> pk_eq pk pubkeyRec then Inr False else Inr True))"

section \<open>Derivation of child keys\<close>

definition be_u32 :: "u32 \<Rightarrow> data" where
  "be_u32 n = [ucast (drop_bit 24 n AND 0xFF), ucast (drop_bit 16 n AND 0xFF),
     ucast (drop_bit 8 n AND 0xFF), ucast (drop_bit 0 n AND 0xFF)]"

definition BIP32Hash :: "openssl \<Rightarrow> data \<Rightarrow> u32 \<Rightarrow> byte \<Rightarrow> data \<Rightarrow> data" where
  "BIP32Hash ssl chainCode nChild header dat =
     (let num = be_u32 nChild;
          ctx = HMAC_SHA512_Init ssl chainCode;
          ctx = HMAC_SHA512_Update [header] ctx;
          ctx = HMAC_SHA512_Update (take 32 dat) ctx;
          ctx = HMAC_SHA512_Update num ctx
      in HMAC_SHA512_Final ssl ctx)"

text \<open>The result is the return value, the child and its chain code.\<close>

definition key_Derive :: "openssl \<Rightarrow> CKey \<Rightarrow> CKey \<Rightarrow> u32 \<Rightarrow> data \<Rightarrow> (bool \<times> CKey \<times> data) result" where
  "key_Derive ssl k keyChild nChild cc =
     rbind (rassert (k_fValid k)) (\<lambda>_.
     rbind (rassert (k_fCompressed k)) (\<lambda>_.
     rbind (if drop_bit 31 nChild = 0 then
              rbind (key_GetPubKey ssl k) (\<lambda>pubkey.
              rbind (rassert (pk_size pubkey = 33)) (\<lambda>_.
                Inr (BIP32Hash ssl cc nChild (hd (pk_vch pubkey)) (tl (pk_vch pubkey)))))
            else
              rbind (rassert (key_size k = 32)) (\<lambda>_. Inr (BIP32Hash ssl cc nChild 0 (k_vch k)))) (\<lambda>out.
     rbind (TweakSecret ssl (k_vch k) (take 32 out)) (\<lambda>(ret, vch).
       Inr (ret, keyChild\<lparr>k_vch := vch, k_fCompressed := True, k_fValid := ret\<rparr>, take 32 (drop 32 out))))))"

definition pk_Derive :: "openssl \<Rightarrow> CPubKey \<Rightarrow> CPubKey \<Rightarrow> u32 \<Rightarrow> data \<Rightarrow> (bool \<times> CPubKey \<times> data) result" where
  "pk_Derive ssl pk pubkeyChild nChild cc =
     rbind (rassert (pk_IsValid pk)) (\<lambda>_.
     rbind (rassert (drop_bit 31 nChild = 0)) (\<lambda>_.
     rbind (rassert (pk_size pk = 33)) (\<lambda>_.
       let out = BIP32Hash ssl cc nChild (hd (pk_vch pk)) (tl (pk_vch pk))
       in case o2i_ECPublicKey ssl (pk_bytes pk) of
            None \<Rightarrow> Inl Undefined
          | Some key \<Rightarrow>
              (let (ret, key) = TweakPublic ssl key (take 32 out)
               in rbind (eckey_GetPubKey ssl key True pubkeyChild) (\<lambda>pubkeyChild.
                    Inr (ret, pubkeyChild, take 32 (drop 32 out)))))))"

section \<open>Extended keys\<close>

record CExtPubKey =
  xp_nDepth :: byte
  xp_vchFingerprint :: data
  xp_nChild :: u32
  xp_vchChainCode :: data
  xp_pubkey :: CPubKey

record CExtKey =
  xk_nDepth :: byte
  xk_vchFingerprint :: data
  xk_nChild :: u32
  xk_vchChainCode :: data
  xk_key :: CKey

definition key_eq :: "CKey \<Rightarrow> CKey \<Rightarrow> bool" where
  "key_eq a b \<longleftrightarrow> k_fCompressed a = k_fCompressed b \<and> key_size a = key_size b \<and>
     take (key_size a) (k_vch a) = take (key_size a) (k_vch b)"

definition xp_eq :: "CExtPubKey \<Rightarrow> CExtPubKey \<Rightarrow> bool" where
  "xp_eq a b \<longleftrightarrow> xp_nDepth a = xp_nDepth b \<and> xp_vchFingerprint a = xp_vchFingerprint b \<and> xp_nChild a = xp_nChild b \<and>
     xp_vchChainCode a = xp_vchChainCode b \<and> pk_eq (xp_pubkey a) (xp_pubkey b)"

definition xk_eq :: "CExtKey \<Rightarrow> CExtKey \<Rightarrow> bool" where
  "xk_eq a b \<longleftrightarrow> xk_nDepth a = xk_nDepth b \<and> xk_vchFingerprint a = xk_vchFingerprint b \<and> xk_nChild a = xk_nChild b \<and>
     xk_vchChainCode a = xk_vchChainCode b \<and> key_eq (xk_key a) (xk_key b)"

definition xk_Derive :: "openssl \<Rightarrow> CExtKey \<Rightarrow> CExtKey \<Rightarrow> u32 \<Rightarrow> (bool \<times> CExtKey) result" where
  "xk_Derive ssl k out nChild =
     rbind (key_GetPubKey ssl (xk_key k)) (\<lambda>pubkey.
       let id = pk_GetID ssl pubkey
       in rbind (key_Derive ssl (xk_key k) (xk_key out) nChild (xk_vchChainCode k)) (\<lambda>(ret, key, cc).
            Inr (ret, \<lparr>xk_nDepth = xk_nDepth k + 1, xk_vchFingerprint = take 4 (bu_bytes id), xk_nChild = nChild,
                       xk_vchChainCode = cc, xk_key = key\<rparr>)))"

definition xk_SetMaster :: "openssl \<Rightarrow> data \<Rightarrow> CExtKey \<Rightarrow> CExtKey" where
  "xk_SetMaster ssl seed k =
     (let hashkey = map (of_nat \<circ> of_char) ''Bitcoin seed'';
          ctx = HMAC_SHA512_Init ssl hashkey;
          ctx = HMAC_SHA512_Update seed ctx;
          out = HMAC_SHA512_Final ssl ctx
      in \<lparr>xk_nDepth = 0, xk_vchFingerprint = replicate 4 0, xk_nChild = 0,
          xk_vchChainCode = take 32 (drop 32 out), xk_key = key_Set (take 32 out) True (xk_key k)\<rparr>)"

definition xk_Neuter :: "openssl \<Rightarrow> CExtKey \<Rightarrow> CExtPubKey result" where
  "xk_Neuter ssl k =
     rbind (key_GetPubKey ssl (xk_key k)) (\<lambda>pubkey.
       Inr \<lparr>xp_nDepth = xk_nDepth k, xp_vchFingerprint = xk_vchFingerprint k, xp_nChild = xk_nChild k,
            xp_vchChainCode = xk_vchChainCode k, xp_pubkey = pubkey\<rparr>)"

definition xk_Encode :: "CExtKey \<Rightarrow> data result" where
  "xk_Encode k =
     rbind (rassert (key_size (xk_key k) = 32)) (\<lambda>_.
       Inr ([xk_nDepth k] @ xk_vchFingerprint k @ be_u32 (xk_nChild k) @ xk_vchChainCode k @ [0] @ k_vch (xk_key k)))"

definition be_read32 :: "byte \<Rightarrow> byte \<Rightarrow> byte \<Rightarrow> byte \<Rightarrow> u32" where
  "be_read32 a b c d = push_bit 24 (ucast a) OR push_bit 16 (ucast b) OR push_bit 8 (ucast c) OR ucast d"

definition xk_Decode :: "data \<Rightarrow> CExtKey \<Rightarrow> CExtKey" where
  "xk_Decode code k =
     \<lparr>xk_nDepth = code ! 0, xk_vchFingerprint = take 4 (drop 1 code),
      xk_nChild = be_read32 (code ! 5) (code ! 6) (code ! 7) (code ! 8),
      xk_vchChainCode = take 32 (drop 9 code), xk_key = key_Set (take 32 (drop 42 code)) True (xk_key k)\<rparr>"

definition xp_Encode :: "CExtPubKey \<Rightarrow> data result" where
  "xp_Encode k =
     rbind (rassert (pk_size (xp_pubkey k) = 33)) (\<lambda>_.
       Inr ([xp_nDepth k] @ xp_vchFingerprint k @ be_u32 (xp_nChild k) @ xp_vchChainCode k @ take 33 (pk_vch (xp_pubkey k))))"

definition xp_Decode :: "data \<Rightarrow> CExtPubKey \<Rightarrow> CExtPubKey" where
  "xp_Decode code k =
     \<lparr>xp_nDepth = code ! 0, xp_vchFingerprint = take 4 (drop 1 code),
      xp_nChild = be_read32 (code ! 5) (code ! 6) (code ! 7) (code ! 8),
      xp_vchChainCode = take 32 (drop 9 code), xp_pubkey = pk_Set (take 33 (drop 41 code)) (xp_pubkey k)\<rparr>"

definition xp_Derive :: "openssl \<Rightarrow> CExtPubKey \<Rightarrow> CExtPubKey \<Rightarrow> u32 \<Rightarrow> (bool \<times> CExtPubKey) result" where
  "xp_Derive ssl k out nChild =
     (let id = pk_GetID ssl (xp_pubkey k)
      in rbind (pk_Derive ssl (xp_pubkey k) (xp_pubkey out) nChild (xp_vchChainCode k)) (\<lambda>(ret, pubkey, cc).
           Inr (ret, \<lparr>xp_nDepth = xp_nDepth k + 1, xp_vchFingerprint = take 4 (bu_bytes id), xp_nChild = nChild,
                      xp_vchChainCode = cc, xp_pubkey = pubkey\<rparr>)))"


section \<open>Lemmas\<close>

text \<open>The bytes of a number that fits into the array, after zeros, are the number.\<close>

lemma BN_num_bytes_le: "\<bar>n\<bar> < 256 ^ k \<longleftrightarrow> BN_num_bytes n \<le> k"
proof
  assume a: "\<bar>n\<bar> < 256 ^ k"
  show "BN_num_bytes n \<le> k"
  proof (rule ccontr)
    assume "\<not> BN_num_bytes n \<le> k"
    then have b: "k \<le> BN_num_bytes n - 1" "BN_num_bytes n > 0" by simp_all
    have "(256 :: nat) ^ k \<le> 256 ^ (BN_num_bytes n - 1)" by (rule power_increasing [OF b(1)]) simp
    moreover have "256 ^ (BN_num_bytes n - 1) \<le> nat \<bar>n\<bar>"
      using nat_bytes_bounds(2) [of "nat \<bar>n\<bar>"] b(2) by (cases "n = 0") (auto simp: BN_num_bytes_def)
    ultimately have "(256 :: nat) ^ k \<le> nat \<bar>n\<bar>" by (rule order_trans)
    then have "(256 :: int) ^ k \<le> \<bar>n\<bar>" by (metis nat_0_le abs_ge_zero of_nat_numeral of_nat_power zle_int)
    with a show False by simp
  qed
next
  assume "BN_num_bytes n \<le> k"
  then have "(256 :: nat) ^ BN_num_bytes n \<le> 256 ^ k" by (rule power_increasing) simp
  then have "nat \<bar>n\<bar> < 256 ^ k" using nat_bytes_bounds(1) [of "nat \<bar>n\<bar>"]
    unfolding BN_num_bytes_def by (rule order_less_le_trans [rotated])
  then have "nat \<bar>n\<bar> < nat (256 ^ k)" by (simp only: nat_power_eq zero_le_numeral nat_numeral)
  then show "\<bar>n\<bar> < 256 ^ k" by simp
qed

lemma length_BN_bn2bin:
  assumes "bignum_ok ssl"
  shows "length (BN_bn2bin ssl n) = BN_num_bytes n"
proof -
  let ?v = "BN_bn2bin ssl n"
  have v: "int (be_value ?v) = \<bar>n\<bar>" "?v \<noteq> [] \<longrightarrow> hd ?v \<noteq> 0" using assms unfolding bignum_ok_def by blast+
  have "BN_num_bytes n \<le> length ?v"
    using v(1) be_value_less [of ?v] BN_num_bytes_le [of n "length ?v"] by (metis of_nat_less_iff of_nat_numeral of_nat_power)
  moreover have "\<not> BN_num_bytes n \<le> length bs" if "?v = b # bs" for b bs
  proof -
    have "unat b \<ge> 1" using that v(2) by (cases "unat b") (auto simp: unat_eq_0)
    then have "256 ^ length bs \<le> be_value ?v" using that by (simp add: trans_le_add1)
    then have "int (256 ^ length bs) \<le> \<bar>n\<bar>" unfolding v(1) [symmetric] by (rule zle_int [THEN iffD2])
    then show ?thesis unfolding BN_num_bytes_le [symmetric] by simp
  qed
  ultimately show ?thesis by (cases ?v) auto
qed

lemma put_secret_ok:
  assumes "bignum_ok ssl" "\<bar>n\<bar> < 256 ^ 32"
  shows "\<exists>v. put_secret ssl n = Inr v \<and> length v = 32 \<and> int (be_value v) = \<bar>n\<bar>"
  using assms length_BN_bn2bin [of ssl n] BN_num_bytes_le [of n 32]
  by (simp add: put_secret_def Let_def bignum_ok_def be_value_replicate_0)

lemma be_read32: "be_read32 (ucast (drop_bit 24 n AND 0xFF)) (ucast (drop_bit 16 n AND 0xFF))
    (ucast (drop_bit 8 n AND 0xFF)) (ucast (n AND 0xFF)) = n"
proof (rule bit_word_eqI)
  fix i assume i: "i < LENGTH(32)"
  have m: "(0xFF :: u32) = mask 8" by (simp add: mask_eq_exp_minus_1)
  consider "i < 8" | "8 \<le> i" "i < 16" | "16 \<le> i" "i < 24" | "24 \<le> i" by linarith
  then show "bit (be_read32 (ucast (drop_bit 24 n AND 0xFF)) (ucast (drop_bit 16 n AND 0xFF))
      (ucast (drop_bit 8 n AND 0xFF)) (ucast (n AND 0xFF))) i = bit n i"
    using i unfolding be_read32_def m
    by cases (simp_all add: bit_or_iff bit_push_bit_iff bit_unsigned_iff bit_and_iff bit_drop_bit_eq bit_mask_iff, auto)
qed

text \<open>
  What the curve promises beside \<open>ecdsa_ok\<close>: adding a multiple of the generator to a public point adds the
  factor to the secret, and the point at infinity belongs to the multiples of the order.
\<close>

definition group_ok :: "openssl \<Rightarrow> bool" where
  "group_ok ssl \<longleftrightarrow>
     (\<forall>d t. EC_POINT_mul ssl (Some t) (Some (EC_POINT_mul ssl (Some d) None, 1)) =
        EC_POINT_mul ssl (Some ((d + t) mod secp256k1_order)) None) \<and>
     (\<forall>d. EC_POINT_mul ssl (Some d) None = None \<longleftrightarrow> d mod secp256k1_order = 0)"

text \<open>A private key that signs and a public key that fits it.\<close>

definition secret_ok :: "CKey \<Rightarrow> bool" where
  "secret_ok k \<longleftrightarrow> k_fValid k \<and> k_fCompressed k \<and> length (k_vch k) = 32 \<and> key_Check (k_vch k)"

definition xk_ok :: "CExtKey \<Rightarrow> bool" where
  "xk_ok k \<longleftrightarrow> secret_ok (xk_key k) \<and> length (xk_vchFingerprint k) = 4 \<and> length (xk_vchChainCode k) = 32"

lemma secret_public:
  assumes "openssl_ok ssl" "ecdsa_ok ssl" "secret_ok k"
  defines "d \<equiv> int (be_value (k_vch k))"
  shows "\<exists>c. key_GetPubKey ssl k = Inr \<lparr>pk_vch = c\<rparr> \<and> length c = 33 \<and> hd c \<in> {2, 3} \<and>
    c = i2o_ECPublicKey ssl (EC_POINT_mul ssl (Some d) None) True \<and>
    o2i_ECPublicKey ssl c = Some (EC_POINT_mul ssl (Some d) None)"
proof -
  let ?c = "i2o_ECPublicKey ssl (EC_POINT_mul ssl (Some d) None) True"
  have d: "0 < d" "d < secp256k1_order"
    using assms(3) key_Check_value [of "k_vch k"] by (auto simp: secret_ok_def d_def secp256k1_order_def)
  have c: "?c \<noteq> []" "length ?c = 33" "hd ?c \<in> {2, 3}"
    using assms(1,3) unfolding openssl_ok_def secret_ok_def d_def Let_def by metis+
  have "BN_bin2bn ssl (k_vch k) = d" using assms(1) by (simp add: openssl_ok_def bignum_ok_def d_def)
  moreover have "pk_Set ?c invalid_pubkey = \<lparr>pk_vch = ?c\<rparr>"
    using c by (auto simp: pk_Set_def GetLen_def invalid_pubkey_def Let_def)
  ultimately have "key_GetPubKey ssl k = Inr \<lparr>pk_vch = ?c\<rparr>"
    using c assms(3) by (simp add: key_GetPubKey_def eckey_GetPubKey_def secret_ok_def regenerate_key_def Let_def)
  then show ?thesis using assms(2) c d unfolding ecdsa_ok_def by blast
qed

lemma TweakSecret_value:
  assumes "openssl_ok ssl" "ecdsa_ok ssl" "n = int (be_value vchSecretIn) + int (be_value vchTweak)"
  shows "\<exists>v. TweakSecret ssl vchSecretIn vchTweak =
      Inr (int (be_value vchTweak) < secp256k1_order \<and> n mod secp256k1_order \<noteq> 0, v) \<and>
    length v = 32 \<and> int (be_value v) = n mod secp256k1_order"
proof -
  have b: "bignum_ok ssl" "EC_order ssl = secp256k1_order" "\<And>v. BN_bin2bn ssl v = int (be_value v)"
    using assms(1,2) by (simp_all add: openssl_ok_def bignum_ok_def ecdsa_ok_def)
  have m: "0 \<le> n mod secp256k1_order" "n mod secp256k1_order < secp256k1_order" by (simp_all add: secp256k1_order_def)
  then have "\<bar>n mod secp256k1_order\<bar> < 256 ^ 32" by (simp add: secp256k1_order_def)
  from put_secret_ok [OF b(1) this] m(1) obtain v where
    "put_secret ssl (n mod secp256k1_order) = Inr v" "length v = 32" "int (be_value v) = n mod secp256k1_order" by auto
  then show ?thesis by (auto simp: TweakSecret_def b(2,3) assms(3) Let_def)
qed

text \<open>One step, for a child that is not hardened.\<close>

lemma Derive_commutes:
  assumes "openssl_ok ssl" "ecdsa_ok ssl" "group_ok ssl" "xk_ok k" "drop_bit 31 nChild = 0"
  shows "\<exists>ret child pub. xk_Derive ssl k out nChild = Inr (ret, child) \<and> xk_Neuter ssl k = Inr pub \<and>
    (ret \<longrightarrow> xk_ok child \<and> (\<exists>pubchild. xk_Neuter ssl child = Inr pubchild \<and>
       xp_Derive ssl pub (pubout\<lparr>xp_pubkey := invalid_pubkey\<rparr>) nChild = Inr (True, pubchild))) \<and>
    (\<forall>c. key_GetPubKey ssl (xk_key k) = Inr \<lparr>pk_vch = c\<rparr> \<longrightarrow>
       (let t = int (be_value (take 32 (BIP32Hash ssl (xk_vchChainCode k) nChild (hd c) (tl c))))
        in ret = (t < secp256k1_order \<and> (int (be_value (k_vch (xk_key k))) + t) mod secp256k1_order \<noteq> 0)))"
proof -
  let ?h = "\<lambda>c. BIP32Hash ssl (xk_vchChainCode k) nChild (hd c) (tl c)"
  let ?d = "int (be_value (k_vch (xk_key k)))"
  have wf: "secret_ok (xk_key k)" "length (xk_vchFingerprint k) = 4" "length (xk_vchChainCode k) = 32"
    using assms(4) by (simp_all add: xk_ok_def)
  obtain c where c: "key_GetPubKey ssl (xk_key k) = Inr \<lparr>pk_vch = c\<rparr>" "length c = 33" "hd c \<in> {2, 3}"
    "o2i_ECPublicKey ssl c = Some (EC_POINT_mul ssl (Some ?d) None)"
    using secret_public [OF assms(1,2) wf(1)] by blast
  define t where "t = int (be_value (take 32 (?h c)))"
  obtain v where v: "TweakSecret ssl (k_vch (xk_key k)) (take 32 (?h c)) =
      Inr (t < secp256k1_order \<and> (?d + t) mod secp256k1_order \<noteq> 0, v)" "length v = 32"
    "int (be_value v) = (?d + t) mod secp256k1_order"
    using TweakSecret_value [OF assms(1,2) refl] unfolding t_def by blast
  let ?ret = "t < secp256k1_order \<and> (?d + t) mod secp256k1_order \<noteq> 0"
  let ?id = "take 4 (bu_bytes (pk_GetID ssl \<lparr>pk_vch = c\<rparr>))"
  let ?child = "\<lparr>xk_nDepth = xk_nDepth k + 1, xk_vchFingerprint = ?id, xk_nChild = nChild,
      xk_vchChainCode = take 32 (drop 32 (?h c)), xk_key = (xk_key out)\<lparr>k_vch := v, k_fCompressed := True, k_fValid := ?ret\<rparr>\<rparr>"
  have size: "pk_size \<lparr>pk_vch = c\<rparr> = 33" "pk_bytes \<lparr>pk_vch = c\<rparr> = c"
    using c(2,3) by (auto simp: pk_size_def GetLen_def pk_bytes_def)
  have derive: "xk_Derive ssl k out nChild = Inr (?ret, ?child)"
    using wf(1) assms(5) c(1) size(1) v(1)
    by (simp add: xk_Derive_def key_Derive_def secret_ok_def Let_def)
  let ?pub = "\<lparr>xp_nDepth = xk_nDepth k, xp_vchFingerprint = xk_vchFingerprint k, xp_nChild = xk_nChild k,
      xp_vchChainCode = xk_vchChainCode k, xp_pubkey = \<lparr>pk_vch = c\<rparr>\<rparr>"
  have neuter: "xk_Neuter ssl k = Inr ?pub" using c(1) by (simp add: xk_Neuter_def)
  have step: "xk_ok ?child \<and> (\<exists>pubchild. xk_Neuter ssl ?child = Inr pubchild \<and>
      xp_Derive ssl ?pub (pubout\<lparr>xp_pubkey := invalid_pubkey\<rparr>) nChild = Inr (True, pubchild))" if r: ?ret
  proof -
    have "key_Check v" using key_Check_value [OF v(2)] v(3) r
        pos_mod_sign [of secp256k1_order "?d + t"] pos_mod_bound [of secp256k1_order "?d + t"]
      by (simp add: secp256k1_order_def)
    then have ok: "secret_ok (xk_key ?child)" using r v(2) by (simp add: secret_ok_def)
    obtain c' where c': "key_GetPubKey ssl (xk_key ?child) = Inr \<lparr>pk_vch = c'\<rparr>" "length c' = 33" "hd c' \<in> {2, 3}"
      "c' = i2o_ECPublicKey ssl (EC_POINT_mul ssl (Some ((?d + t) mod secp256k1_order)) None) True"
      using secret_public [OF assms(1,2) ok] v(3) by auto
    have h: "length (?h c) = 64" "length (bu_bytes (pk_GetID ssl \<lparr>pk_vch = c\<rparr>)) = 20"
      using assms(1) by (simp_all add: BIP32Hash_def HMAC_SHA512_Final_def openssl_ok_def digests_ok_def pk_GetID_def Hash160_def Let_def)
    have point: "EC_POINT_mul ssl (Some t) (Some (EC_POINT_mul ssl (Some ?d) None, 1)) =
        EC_POINT_mul ssl (Some ((?d + t) mod secp256k1_order)) None"
      "EC_POINT_mul ssl (Some ((?d + t) mod secp256k1_order)) None \<noteq> None"
      using assms(3) r unfolding group_ok_def by (blast, simp)
    have "BN_bin2bn ssl (take 32 (?h c)) = t" "EC_order ssl = secp256k1_order"
      using assms(1,2) by (simp_all add: openssl_ok_def bignum_ok_def ecdsa_ok_def t_def)
    then have "TweakPublic ssl (EC_POINT_mul ssl (Some ?d) None) (take 32 (?h c)) =
        (True, EC_POINT_mul ssl (Some ((?d + t) mod secp256k1_order)) None)"
      using point r by (simp add: TweakPublic_def Let_def)
    moreover have "pk_Set c' invalid_pubkey = \<lparr>pk_vch = c'\<rparr>"
      using c'(2,3) by (auto simp: pk_Set_def GetLen_def invalid_pubkey_def Let_def)
    moreover have "c' \<noteq> []" using c'(2) by auto
    ultimately have "xp_Derive ssl ?pub (pubout\<lparr>xp_pubkey := invalid_pubkey\<rparr>) nChild =
      Inr (True, \<lparr>xp_nDepth = xk_nDepth k + 1, xp_vchFingerprint = ?id, xp_nChild = nChild,
         xp_vchChainCode = take 32 (drop 32 (?h c)), xp_pubkey = \<lparr>pk_vch = c'\<rparr>\<rparr>)"
      using c(4) size assms(5) c'(2) c'(4) [symmetric]
      by (simp add: xp_Derive_def pk_Derive_def pk_IsValid_def eckey_GetPubKey_def Let_def)
    then show ?thesis using c'(1) ok h by (simp add: xk_Neuter_def xk_ok_def)
  qed
  show ?thesis
    by (rule exI [of _ ?ret], rule exI [of _ ?child], rule exI [of _ ?pub]) (intro conjI derive neuter, rule impI, erule step, simp add: c(1) t_def Let_def)
qed

text \<open>Derivation along a path of numbers of children.\<close>

fun xk_path :: "openssl \<Rightarrow> CExtKey \<Rightarrow> u32 list \<Rightarrow> (bool \<times> CExtKey) result" where
  "xk_path ssl k [] = Inr (True, k)"
| "xk_path ssl k (n # ns) =
     rbind (xk_Derive ssl k k n) (\<lambda>(ret, child). if ret then xk_path ssl child ns else Inr (False, child))"

fun xp_path :: "openssl \<Rightarrow> CExtPubKey \<Rightarrow> u32 list \<Rightarrow> (bool \<times> CExtPubKey) result" where
  "xp_path ssl k [] = Inr (True, k)"
| "xp_path ssl k (n # ns) =
     rbind (xp_Derive ssl k (k\<lparr>xp_pubkey := invalid_pubkey\<rparr>) n) (\<lambda>(ret, child).
       if ret then xp_path ssl child ns else Inr (False, child))"

lemma sample_group_ok: "group_ok sample_ssl"
proof -
  have e: "EC_POINT_mul sample_ssl (Some d) None = sample_point d"
    "EC_POINT_mul sample_ssl (Some t) (Some (p, 1)) = sample_point (t + sample_log p)" for d t p
    by (simp_all add: sample_ssl_def)
  have l: "sample_log (sample_point d) = d mod secp256k1_order" for d
    by (simp add: sample_log_def sample_point_def Let_def)
  show ?thesis unfolding group_ok_def e l
    by (simp add: sample_point_def Let_def mod_add_right_eq add.commute)
qed

definition sample_root :: CExtKey where
  "sample_root = \<lparr>xk_nDepth = 0, xk_vchFingerprint = [0, 0, 0, 0], xk_nChild = 0,
     xk_vchChainCode = replicate 32 0, xk_key = sample_secret\<rparr>"

lemma sample_path: "\<exists>child. xk_path sample_ssl sample_root [5] = Inr (True, child)"
proof -
  have ok: "xk_ok sample_root" using sample_GetPubKey(3)
    by (simp add: xk_ok_def secret_ok_def sample_root_def sample_secret_def)
  have "HMAC_SHA512_Final sample_ssl (HMAC_SHA512_Update v (HMAC_SHA512_Init sample_ssl (replicate 32 0))) = replicate 64 0x5c" for v
    by (simp add: HMAC_SHA512_Final_def HMAC_SHA512_Update_def HMAC_SHA512_Init_def sample_ssl_def Let_def)
      (simp add: numeral_eq_Suc)
  then have h: "BIP32Hash sample_ssl (replicate 32 0) 5 b v = replicate 64 0x5c" for b v
    by (simp add: BIP32Hash_def HMAC_SHA512_Update_def HMAC_SHA512_Init_def HMAC_SHA512_Final_def Let_def)
  have r: "be_value (replicate (n + n) b) = be_value (replicate n b) * (256 ^ n + 1)" for n b
    by (simp add: replicate_add be_value_append algebra_simps)
  have r2: "be_value (replicate 2 0x5c) = 0x5c * 257"
  proof -
    have "replicate 2 x = [x, x]" for x :: byte by (simp add: numeral_2_eq_2)
    then show ?thesis by simp
  qed
  have "be_value (replicate 32 0x5c) = 0x5c * (256 ^ 1 + 1) * (256 ^ 2 + 1) * (256 ^ 4 + 1) * (256 ^ 8 + 1) * (256 ^ 16 + 1)"
    using r2 r [of 2 "0x5c"] r [of 4 "0x5c"] r [of 8 "0x5c"] r [of 16 "0x5c"] by simp
  then have t: "int (be_value (take 32 (replicate 64 0x5c))) = 0x5c5c5c5c5c5c5c5c5c5c5c5c5c5c5c5c5c5c5c5c5c5c5c5c5c5c5c5c5c5c5c5c"
    by simp
  have d: "int (be_value (k_vch (xk_key sample_root))) = 7"
    by (simp add: sample_root_def sample_secret_def be_value_replicate_0)
  obtain c where c: "key_GetPubKey sample_ssl (xk_key sample_root) = Inr \<lparr>pk_vch = c\<rparr>"
    using secret_public [OF sample_openssl_ok sample_ecdsa_ok, of "xk_key sample_root"] ok by (auto simp: xk_ok_def)
  have cc: "xk_vchChainCode sample_root = replicate 32 0" by (simp add: sample_root_def)
  obtain ret child where x: "xk_Derive sample_ssl sample_root sample_root 5 = Inr (ret, child)"
    "\<forall>c. key_GetPubKey sample_ssl (xk_key sample_root) = Inr \<lparr>pk_vch = c\<rparr> \<longrightarrow>
       (let t = int (be_value (take 32 (BIP32Hash sample_ssl (xk_vchChainCode sample_root) 5 (hd c) (tl c))))
        in ret = (t < secp256k1_order \<and> (int (be_value (k_vch (xk_key sample_root))) + t) mod secp256k1_order \<noteq> 0))"
    using Derive_commutes [OF sample_openssl_ok sample_ecdsa_ok sample_group_ok ok, of 5 sample_root undefined] by auto
  have ret using x(2) [rule_format, OF c] unfolding cc h d t Let_def by (simp add: secp256k1_order_def)
  then show ?thesis using x(1) by simp
qed

text \<open>What a compact signature needs of the curve: the compressed form of a computed point determines it.\<close>

definition points_ok :: "openssl \<Rightarrow> bool" where
  "points_ok ssl \<longleftrightarrow>
     (\<forall>m q m' q'. i2o_ECPublicKey ssl (EC_POINT_mul ssl m q) True = i2o_ECPublicKey ssl (EC_POINT_mul ssl m' q') True \<longrightarrow>
        EC_POINT_mul ssl m q = EC_POINT_mul ssl m' q')"

lemma find_recid_found:
  "find_recid ssl sig hash pubkey is = Inr (Some i) \<Longrightarrow> i \<in> set is \<and>
    (\<exists>pkey pr. ECDSA_SIG_recover_key_GFp ssl sig hash (int i) True = Some pkey \<and>
       eckey_GetPubKey ssl pkey True invalid_pubkey = Inr pr \<and> pk_eq pr pubkey)"
  by (induction "is") (fastforce simp: rbind_eq_Inr split: option.splits if_splits)+

lemma recover_unchecked:
  "ECDSA_SIG_recover_key_GFp ssl sig msg recid True = Some pkey \<Longrightarrow>
    ECDSA_SIG_recover_key_GFp ssl sig msg recid False = Some pkey"
  by (auto simp: ECDSA_SIG_recover_key_GFp_def Let_def split: if_splits option.splits prod.splits)

lemma recover_point:
  "ECDSA_SIG_recover_key_GFp ssl sig msg recid check = Some pkey \<Longrightarrow> \<exists>m q. pkey = EC_POINT_mul ssl m q"
  by (auto simp: ECDSA_SIG_recover_key_GFp_def Let_def split: if_splits option.splits prod.splits)

lemma same_compressed:
  assumes "eckey_GetPubKey ssl q True invalid_pubkey = Inr pr" "pk_eq pr \<lparr>pk_vch = c\<rparr>" "length c = 33" "hd c \<in> {2, 3}"
  shows "i2o_ECPublicKey ssl q True = c"
proof -
  let ?v = "i2o_ECPublicKey ssl q True"
  have v: "?v \<noteq> []" "pr = pk_Set ?v invalid_pubkey"
    using assms(1) by (auto simp: eckey_GetPubKey_def Let_def rbind_eq_Inr rassert_def split: if_splits)
  have hd: "hd (pk_vch pr) = hd c" "take (pk_size pr) (pk_vch pr) = take (pk_size pr) c"
    using assms(2) by (simp_all add: pk_eq_def)
  then have "pk_size pr = 33" using assms(4) by (auto simp: pk_size_def GetLen_def)
  moreover have "GetLen (hd ?v) = length ?v \<and> pk_vch pr = ?v"
    using v hd(1) assms(4) by (auto simp: pk_Set_def invalid_pubkey_def pk_Invalidate_def Let_def split: if_splits)
  ultimately show ?thesis using hd(2) assms(3) by (simp add: pk_size_def)
qed

lemma compact_header:
  assumes "rec < 4" and b_def: "b = (of_nat (27 + rec + (if c then 4 else 0)) :: byte)"
  shows "(int (unat b) - 27) AND NOT 4 = int rec" "(int (unat b) - 27) AND 4 \<noteq> 0 \<longleftrightarrow> c" "b = 30 \<or> b = 34 \<longleftrightarrow> rec = 3"
proof -
  consider "rec = 0" | "rec = 1" | "rec = 2" | "rec = 3" using assms(1) by linarith
  then have "(int (unat b) - 27) AND NOT 4 = int rec \<and> ((int (unat b) - 27) AND 4 \<noteq> 0 \<longleftrightarrow> c) \<and> (b = 30 \<or> b = 34 \<longleftrightarrow> rec = 3)"
    by cases (cases c; simp add: b_def)+
  then show "(int (unat b) - 27) AND NOT 4 = int rec" "(int (unat b) - 27) AND 4 \<noteq> 0 \<longleftrightarrow> c" "b = 30 \<or> b = 34 \<longleftrightarrow> rec = 3"
    by blast+
qed

lemma key_point:
  assumes "openssl_ok ssl" "length vch = 32" "key_Check vch"
  defines "P \<equiv> EC_POINT_mul ssl (Some (int (be_value vch))) None"
  shows "i2o_ECPublicKey ssl P c \<noteq> [] \<and> length (i2o_ECPublicKey ssl P c) = (if c then 33 else 65) \<and>
      hd (i2o_ECPublicKey ssl P c) \<in> (if c then {2, 3} else {4})"
    "\<exists>pk'. eckey_GetPubKey ssl P c pk0 = Inr pk' \<and> pk_bytes pk' = i2o_ECPublicKey ssl P c \<and> pk_size pk' = (if c then 33 else 65)"
proof -
  show 1: "i2o_ECPublicKey ssl P c \<noteq> [] \<and> length (i2o_ECPublicKey ssl P c) = (if c then 33 else 65) \<and>
      hd (i2o_ECPublicKey ssl P c) \<in> (if c then {2, 3} else {4})" for c
    using assms unfolding openssl_ok_def P_def Let_def by metis
  have "GetLen (hd (i2o_ECPublicKey ssl P c)) = length (i2o_ECPublicKey ssl P c)"
    using 1 [of c] by (cases c) (auto simp: GetLen_def)
  then show "\<exists>pk'. eckey_GetPubKey ssl P c pk0 = Inr pk' \<and> pk_bytes pk' = i2o_ECPublicKey ssl P c \<and> pk_size pk' = (if c then 33 else 65)"
    using 1 [of c] pk_Set_invalid [of "i2o_ECPublicKey ssl P c" pk0] by (cases c) (simp_all add: eckey_GetPubKey_def Let_def)
qed

text \<open>The signer accepts only a candidate that is its own point, and the verifier computes the same candidate.\<close>

lemma SignCompact_recovers:
  assumes "openssl_ok ssl" "ecdsa_ok ssl" "points_ok ssl" "length vch = 32" "key_Check vch"
  defines "P \<equiv> EC_POINT_mul ssl (Some (int (be_value vch))) None"
  assumes "eckey_SignCompact ssl (int (be_value vch)) P hash = Inr (Some (p64, rec))"
  shows "rec < 4" "length p64 = 64" "eckey_Recover ssl hash p64 (int rec) = (if rec = 3 then None else Some P)"
proof -
  have bn: "BN_bin2bn ssl v = int (be_value v)" "bignum_ok ssl" for v
    using assms(1) by (simp_all add: openssl_ok_def bignum_ok_def)
  have d: "0 < int (be_value vch)" "int (be_value vch) < secp256k1_order"
    using key_Check_value [OF assms(4)] assms(5) by (simp_all add: secp256k1_order_def)
  have enc: "i2o_ECPublicKey ssl P True \<noteq> []" "length (i2o_ECPublicKey ssl P True) = 33" "hd (i2o_ECPublicKey ssl P True) \<in> {2, 3}"
    using key_point(1) [OF assms(1,4,5), of True] by (simp_all add: P_def)
  obtain r s where sgn: "ECDSA_do_sign ssl (bu_bytes hash) (int (be_value vch)) = Some (r, s)"
    "0 < r" "r < secp256k1_order" "0 < s" "s < secp256k1_order"
    using assms(2) d unfolding ecdsa_ok_def by blast
  from assms(7) sgn(1) obtain pubkey p q where found: "eckey_GetPubKey ssl P True invalid_pubkey = Inr pubkey"
    "find_recid ssl (r, s) (bu_bytes hash) pubkey [0..<4] = Inr (Some rec)" "put_secret ssl r = Inr p" "put_secret ssl s = Inr q" "p64 = p @ q"
    by (auto simp: eckey_SignCompact_def rbind_eq_Inr simp del: upt_Suc split: if_splits option.splits)
  have pubkey: "pubkey = \<lparr>pk_vch = i2o_ECPublicKey ssl P True\<rparr>"
    using found(1) enc by (auto simp: eckey_GetPubKey_def pk_Set_def GetLen_def invalid_pubkey_def Let_def)
  obtain Q pr where Q: "rec < 4" "ECDSA_SIG_recover_key_GFp ssl (r, s) (bu_bytes hash) (int rec) True = Some Q"
    "eckey_GetPubKey ssl Q True invalid_pubkey = Inr pr" "pk_eq pr pubkey"
    using find_recid_found [OF found(2)] by auto
  have "i2o_ECPublicKey ssl Q True = i2o_ECPublicKey ssl P True"
    using same_compressed [OF Q(3) Q(4) [unfolded pubkey]] enc by simp
  then have "Q = P" using assms(3) recover_point [OF Q(2)] unfolding points_ok_def P_def by blast
  with recover_unchecked [OF Q(2)]
  have rec: "ECDSA_SIG_recover_key_GFp ssl (r, s) (bu_bytes hash) (int rec) False = Some P" by simp
  have "r < 256 ^ 32" "s < 256 ^ 32" using sgn(3,5) by (simp_all add: secp256k1_order_def)
  then have pq: "length p = 32" "int (be_value p) = r" "length q = 32" "int (be_value q) = s"
    using put_secret_ok [OF bn(2), of r] put_secret_ok [OF bn(2), of s] found(3,4) sgn(2,4) by simp_all
  then show "eckey_Recover ssl hash p64 (int rec) = (if rec = 3 then None else Some P)"
    using rec Q(1) by (simp add: eckey_Recover_def found(5) bn)
  show "rec < 4" "length p64 = 64" using Q(1) pq found(5) by simp_all
qed

section \<open>Properties\<close>

text \<open>C16: public keys are derived without the private keys: for children that are not hardened, the public
  part of the key derived along a path is what is derived from the public part of the root along the same path,
  and every derived key is a private key in range.\<close>

theorem bip32_public_derivation:
  assumes "openssl_ok ssl" "ecdsa_ok ssl" "group_ok ssl" "xk_ok k" "\<forall>n \<in> set ns. drop_bit 31 n = 0"
    and "xk_path ssl k ns = Inr (True, child)"
  shows "xk_ok child \<and> (\<exists>pub pubchild. xk_Neuter ssl k = Inr pub \<and> xk_Neuter ssl child = Inr pubchild \<and>
    xp_path ssl pub ns = Inr (True, pubchild))"
  using assms(4-6)
proof (induction ns arbitrary: k)
  case Nil
  then show ?case using Derive_commutes [OF assms(1-3), of k 0] by fastforce
next
  case (Cons n ns)
  obtain ret c pub where s: "xk_Derive ssl k k n = Inr (ret, c)" "xk_Neuter ssl k = Inr pub"
    "ret \<longrightarrow> xk_ok c \<and> (\<exists>pubc. xk_Neuter ssl c = Inr pubc \<and>
       xp_Derive ssl pub (pub\<lparr>xp_pubkey := invalid_pubkey\<rparr>) n = Inr (True, pubc))"
    using Derive_commutes [OF assms(1-3) Cons.prems(1), of n k] Cons.prems(2) by (metis list.set_intros(1) sum.inject(2))
  from Cons.prems(3) s(1) have "ret" "xk_path ssl c ns = Inr (True, child)" by (auto split: if_splits)
  with Cons.IH [of c] Cons.prems(2) s show ?case by fastforce
qed


theorem bip32_public_derivation_witness:
  "\<exists>child pub pubchild. xk_path sample_ssl sample_root [5] = Inr (True, child) \<and>
     xk_Neuter sample_ssl sample_root = Inr pub \<and> xk_Neuter sample_ssl child = Inr pubchild \<and>
     xp_path sample_ssl pub [5] = Inr (True, pubchild)"
proof -
  have "xk_ok sample_root" using sample_GetPubKey(3)
    by (simp add: xk_ok_def secret_ok_def sample_root_def sample_secret_def)
  moreover obtain child where "xk_path sample_ssl sample_root [5] = Inr (True, child)" using sample_path by blast
  ultimately show ?thesis
    using bip32_public_derivation [OF sample_openssl_ok sample_ecdsa_ok sample_group_ok, of sample_root "[5]" child] by auto
qed

text \<open>C33: an extended key is read back from its 74 bytes: the key itself, and the public key it has.\<close>

theorem extended_key_roundtrip:
  assumes "xk_ok k" "length (xp_vchFingerprint p) = 4" "length (xp_vchChainCode p) = 32"
    and "pk_size (xp_pubkey p) = 33" "length (pk_vch (xp_pubkey p)) = 33"
  shows "\<exists>code code'. xk_Encode k = Inr code \<and> length code = 74 \<and> xk_Decode code k' = k \<and>
    xp_Encode p = Inr code' \<and> length code' = 74 \<and> xp_eq (xp_Decode code' p') p"
proof -
  obtain f0 f1 f2 f3 where f: "xk_vchFingerprint k = [f0, f1, f2, f3]"
    using assms(1) by (auto simp: xk_ok_def length_Suc_conv numeral_eq_Suc)
  obtain g0 g1 g2 g3 where g: "xp_vchFingerprint p = [g0, g1, g2, g3]"
    using assms(2) by (auto simp: length_Suc_conv numeral_eq_Suc)
  have k: "key_size (xk_key k) = 32" "length (xk_vchChainCode k) = 32" "length (k_vch (xk_key k)) = 32" "key_Check (k_vch (xk_key k))"
    "k_fValid (xk_key k)" "k_fCompressed (xk_key k)"
    using assms(1) by (simp_all add: xk_ok_def secret_ok_def key_size_def)
  have v: "pk_vch (xp_pubkey p) \<noteq> []" "GetLen (hd (pk_vch (xp_pubkey p))) = 33"
    using assms(4,5) by (auto simp: pk_size_def)
  have 1: "xk_Decode ([xk_nDepth k] @ xk_vchFingerprint k @ be_u32 (xk_nChild k) @ xk_vchChainCode k @ [0] @ k_vch (xk_key k)) k' = k"
    using k by (intro CExtKey.equality CKey.equality) (simp_all add: xk_Decode_def f be_u32_def be_read32 key_Set_def)
  have 2: "xp_eq (xp_Decode ([xp_nDepth p] @ xp_vchFingerprint p @ be_u32 (xp_nChild p) @ xp_vchChainCode p @ take 33 (pk_vch (xp_pubkey p))) p') p"
    using assms(3,5) v by (simp add: xp_Decode_def g be_u32_def be_read32 xp_eq_def pk_eq_def pk_size_def pk_Set_def Let_def)
  show ?thesis using 1 2 k(1-3) assms(2-5) by (simp add: xk_Encode_def xp_Encode_def f be_u32_def)
qed


theorem extended_key_roundtrip_witness:
  "\<exists>code. xk_Encode sample_root = Inr code \<and> xk_Decode code sample_root = sample_root"
proof -
  have "xk_ok sample_root" using sample_GetPubKey(3)
    by (simp add: xk_ok_def secret_ok_def sample_root_def sample_secret_def)
  from extended_key_roundtrip [OF this, of "\<lparr>xp_nDepth = 0, xp_vchFingerprint = [1, 2, 3, 4], xp_nChild = 0,
      xp_vchChainCode = replicate 32 0, xp_pubkey = \<lparr>pk_vch = 2 # replicate 32 1\<rparr>\<rparr>" sample_root]
  show ?thesis by (simp add: pk_size_def GetLen_def) blast
qed

text \<open>C17: a compact signature identifies its key: the public key recovered from it is the key of the signer, in
  the form the header names, and the signature is valid for that key. There is one exception: of the four candidates the
  signer tries, the verifier refuses the last, so a signature with that number is never accepted.\<close>

theorem compact_signature:
  assumes "openssl_ok ssl" "ecdsa_ok ssl" "points_ok ssl"
    and "k_fValid k" "length (k_vch k) = 32" "key_Check (k_vch k)"
    and "key_SignCompact ssl k hash = Inr (Some vchSig)"
  shows "length vchSig = 65 \<and> (\<exists>pub. key_GetPubKey ssl k = Inr pub \<and>
    (if hd vchSig \<in> {30, 34} then pk_RecoverCompact ssl pk hash vchSig = Inr (False, pk) \<and> pk_VerifyCompact ssl pub hash vchSig = Inr False
     else (\<exists>pk'. pk_RecoverCompact ssl pk hash vchSig = Inr (True, pk') \<and> pk_bytes pk' = pk_bytes pub) \<and>
       pk_VerifyCompact ssl pub hash vchSig = Inr True))"
proof -
  let ?d = "int (be_value (k_vch k))"
  let ?P = "EC_POINT_mul ssl (Some ?d) None"
  have bn: "BN_bin2bn ssl v = int (be_value v)" for v using assms(1) by (simp add: openssl_ok_def bignum_ok_def)
  note get = key_point(2) [OF assms(1,5,6)]
  from assms(4,7) obtain p64 rec where p64: "eckey_SignCompact ssl ?d ?P hash = Inr (Some (p64, rec))"
    "vchSig = of_nat (27 + rec + (if k_fCompressed k then 4 else 0)) # p64"
    by (auto simp: key_SignCompact_def regenerate_key_def bn rbind_eq_Inr split: option.splits)
  note R = SignCompact_recovers [OF assms(1-3,5,6) p64(1)]
  have header: "(int (unat (hd vchSig)) - 27) AND NOT 4 = int rec" "(int (unat (hd vchSig)) - 27) AND 4 \<noteq> 0 \<longleftrightarrow> k_fCompressed k"
    "hd vchSig \<in> {30, 34} \<longleftrightarrow> rec = 3"
    using compact_header [OF R(1), of "hd vchSig" "k_fCompressed k"] p64(2) by simp_all
  obtain pub where pub: "key_GetPubKey ssl k = Inr pub" "pk_bytes pub = i2o_ECPublicKey ssl ?P (k_fCompressed k)"
    "pk_size pub = (if k_fCompressed k then 33 else 65)"
    using get [of "k_fCompressed k" invalid_pubkey] assms(4) by (auto simp: key_GetPubKey_def regenerate_key_def bn)
  obtain pk' where pk': "eckey_GetPubKey ssl ?P (k_fCompressed k) pk = Inr pk'"
    "pk_bytes pk' = i2o_ECPublicKey ssl ?P (k_fCompressed k)"
    using get [of "k_fCompressed k" pk] by blast
  have hd: "vchSig ! 0 = hd vchSig" "drop (Suc 0) vchSig = p64" "length vchSig = 65" using R(2) by (simp_all add: p64(2))
  have valid: "pk_IsValid pub" "pk_IsCompressed pub = k_fCompressed k" "eckey_GetPubKey ssl ?P (k_fCompressed k) invalid_pubkey = Inr pub"
    using pub assms(4) by (auto simp: pk_IsValid_def pk_IsCompressed_def key_GetPubKey_def regenerate_key_def bn)
  show ?thesis using pub pk' R(3) header valid hd
    by (cases "rec = 3") (simp_all add: pk_RecoverCompact_def pk_VerifyCompact_def pk_eq_def Let_def)
qed


definition compact_ssl :: openssl where
  "compact_ssl = sample_ssl\<lparr>BN_mod_inverse := \<lambda>a m. Some 1\<rparr>"

definition compact_key :: CKey where
  "compact_key = \<lparr>k_fValid = True, k_fCompressed = False, k_vch = replicate 31 0 @ [1]\<rparr>"

lemma compact_ssl_ok: "openssl_ok compact_ssl" "ecdsa_ok compact_ssl" "points_ok compact_ssl"
proof -
  show "openssl_ok compact_ssl" using sample_openssl_ok
    by (simp add: compact_ssl_def openssl_ok_def digests_ok_def bignum_ok_def)
  show "ecdsa_ok compact_ssl" using sample_ecdsa_ok by (simp add: compact_ssl_def ecdsa_ok_def)
  have b: "0 \<le> m mod secp256k1_order" "m mod secp256k1_order < 256 ^ 32" for m
    using pos_mod_bound [of secp256k1_order m] by (simp_all add: secp256k1_order_def)
  have "int (be_value (be_bytes_at 32 (m mod secp256k1_order))) = m mod secp256k1_order" for m
    by (rule trans [OF be_value_be_bytes_at [OF b(1)] mod_pos_pos_trivial [OF b]])
  then have "m mod secp256k1_order = m' mod secp256k1_order"
    if "be_bytes_at 32 (m mod secp256k1_order) = be_bytes_at 32 (m' mod secp256k1_order)" for m m'
    using that by metis
  then have inj: "m mod secp256k1_order = m' mod secp256k1_order"
    if "2 # be_bytes_at 32 (m mod secp256k1_order) = 2 # be_bytes_at 32 (m' mod secp256k1_order)" for m m'
    using that unfolding list.inject by blast
  have e: "sample_i2o (sample_point m) True = (if m mod secp256k1_order = 0 then [0] else 2 # be_bytes_at 32 (m mod secp256k1_order))" for m
    by (simp add: sample_i2o_def sample_point_def Let_def)
  have "sample_point m = sample_point m'" if "sample_i2o (sample_point m) True = sample_i2o (sample_point m') True" for m m'
  proof -
    have "m mod secp256k1_order = m' mod secp256k1_order"
      using that inj [of m m'] unfolding e by (simp split: if_splits)
    then show ?thesis by (simp add: sample_point_def)
  qed
  then show "points_ok compact_ssl" unfolding points_ok_def by (simp add: compact_ssl_def sample_ssl_def)
qed

lemma compact_signed: "\<exists>p64. key_SignCompact compact_ssl compact_key (replicate 8 0) = Inr (Some (27 # p64))"
proof -
  have v: "be_value (replicate 31 0 @ [1]) = 1" "be_value (replicate 32 0) = 0"
    using be_value_replicate_0 [of 31 "[1]"] be_value_replicate_0 [of 32 "[]"] by simp_all
  have n: "BN_num_bytes 1 = 1" by (simp add: BN_num_bytes_def nat_bytes.simps)
  have p: "regenerate_key compact_ssl (replicate 31 0 @ [1]) = sample_point 1"
    using v by (simp add: regenerate_key_def compact_ssl_def sample_ssl_def)
  have "bu_bytes (replicate 8 0) = replicate 32 0" by code_simp
  then have r: "ECDSA_SIG_recover_key_GFp compact_ssl (1, 1) (bu_bytes (replicate 8 0)) 0 True = Some (sample_point 1)"
    using v by (simp add: ECDSA_SIG_recover_key_GFp_def compact_ssl_def sample_ssl_def sample_log_def sample_point_def
        secp256k1_order_def Let_def)
  have bn: "BN_bin2bn compact_ssl v = int (be_value v)" "ECDSA_do_sign compact_ssl h d = Some (1, 1)" for v h d
    by (simp_all add: compact_ssl_def sample_ssl_def)
  have "key_Check (replicate 31 0 @ [1])" using key_Check_value [of "replicate 31 0 @ [1]"] v by simp
  then obtain pk where pk: "eckey_GetPubKey compact_ssl (sample_point 1) True invalid_pubkey = Inr pk"
    using key_point(2) [OF compact_ssl_ok(1), of "replicate 31 0 @ [1]" True invalid_pubkey] p
    unfolding regenerate_key_def bn by auto
  have "[0..<4] = 0 # [1..<4 :: nat]" by (simp add: upt_rec)
  then have found: "find_recid compact_ssl (1, 1) (bu_bytes (replicate 8 0)) pk [0..<4] = Inr (Some 0)"
    using r pk by (simp only: find_recid.simps of_nat_0) (simp add: pk_eq_def)
  obtain q where q: "put_secret compact_ssl 1 = Inr q"
    using put_secret_ok [of compact_ssl 1] compact_ssl_ok(1) by (auto simp: openssl_ok_def)
  have "eckey_SignCompact compact_ssl 1 (sample_point 1) (replicate 8 0) = Inr (Some (q @ q, 0))"
    unfolding eckey_SignCompact_def bn(2) option.case prod.case n pk found q by (simp add: q found pk)
  then show ?thesis using p v bn(1) by (simp add: key_SignCompact_def compact_key_def)
qed

theorem compact_signature_witness:
  "\<exists>vchSig pub pk'. key_SignCompact compact_ssl compact_key (replicate 8 0) = Inr (Some vchSig) \<and>
     pk_RecoverCompact compact_ssl invalid_pubkey (replicate 8 0) vchSig = Inr (True, pk') \<and> key_GetPubKey compact_ssl compact_key = Inr pub \<and>
     pk_bytes pk' = pk_bytes pub"
proof -
  obtain p64 where s: "key_SignCompact compact_ssl compact_key (replicate 8 0) = Inr (Some (27 # p64))" using compact_signed by blast
  have "key_Check (replicate 31 0 @ [1])"
    using key_Check_value [of "replicate 31 0 @ [1]"] be_value_replicate_0 [of 31 "[1]"] by simp
  then show ?thesis
    using compact_signature [OF compact_ssl_ok, of compact_key "replicate 8 0" "27 # p64" invalid_pubkey] s by (auto simp: compact_key_def)
qed

end
