(* ===== verification/Streams.thy ===== *)
theory Streams
  imports Serialize
begin

text \<open>
  The streams of \<open>src/src/lib/core/serialize.h\<close>: \<open>CDataStream\<close>, a byte vector with a read position,
  \<open>CAutoFile\<close>, a file, and \<open>CBufferedFile\<close>, a file read through a ring buffer that allows to step back. An
  operation gives its result, or the exception it throws, and the new state. An iterator into the
  vector is its index. The templates of theory \<open>Serialize\<close> read from any of them: the locale
  \<open>byte_source\<close> states what they rely on.
\<close>

section \<open>States of a stream\<close>

text \<open>The flags of \<open>std::ios_base\<close> as the GNU library numbers them.\<close>

definition badbit :: u16 where "badbit = 1"
definition failbit :: u16 where "failbit = 4"

section \<open>\<open>CDataStream\<close>\<close>

record CDataStream =
  ds_vch :: data
  ds_nReadPos :: u32
  ds_state :: u16
  ds_exceptmask :: u16
  ds_nType :: u32
  ds_nVersion :: u32

definition ds_Init :: "u32 \<Rightarrow> u32 \<Rightarrow> data \<Rightarrow> CDataStream" where
  "ds_Init nTypeIn nVersionIn vch =
     \<lparr>ds_vch = vch, ds_nReadPos = 0, ds_state = 0, ds_exceptmask = badbit OR failbit,
      ds_nType = nTypeIn, ds_nVersion = nVersionIn\<rparr>"

text \<open>The bytes from \<open>begin()\<close> to \<open>end()\<close>.\<close>

definition ds_str :: "CDataStream \<Rightarrow> data" where
  "ds_str s = drop (unat (ds_nReadPos s)) (ds_vch s)"

definition ds_append :: "CDataStream \<Rightarrow> CDataStream \<Rightarrow> CDataStream" where
  "ds_append s b = s\<lparr>ds_vch := ds_vch s @ ds_str b\<rparr>"

definition ds_plus :: "CDataStream \<Rightarrow> CDataStream \<Rightarrow> CDataStream" where
  "ds_plus a b = (let ret = a in ds_append ret b)"

definition ds_begin :: "CDataStream \<Rightarrow> nat" where
  "ds_begin s = unat (ds_nReadPos s)"

definition ds_end :: "CDataStream \<Rightarrow> nat" where
  "ds_end s = length (ds_vch s)"

definition ds_size :: "CDataStream \<Rightarrow> u64" where
  "ds_size s = of_nat (length (ds_vch s)) - ucast (ds_nReadPos s)"

definition ds_empty :: "CDataStream \<Rightarrow> bool" where
  "ds_empty s \<longleftrightarrow> length (ds_vch s) = unat (ds_nReadPos s)"

definition ds_resize :: "u64 \<Rightarrow> byte \<Rightarrow> CDataStream \<Rightarrow> CDataStream" where
  "ds_resize n c s =
     (let k = unat (n + ucast (ds_nReadPos s))
      in s\<lparr>ds_vch := take k (ds_vch s) @ replicate (k - length (ds_vch s)) c\<rparr>)"

definition ds_at :: "nat \<Rightarrow> CDataStream \<Rightarrow> byte result" where
  "ds_at pos s =
     (let i = pos + unat (ds_nReadPos s)
      in if i < length (ds_vch s) then Inr (ds_vch s ! i) else Inl Undefined)"

definition ds_clear :: "CDataStream \<Rightarrow> CDataStream" where
  "ds_clear s = s\<lparr>ds_vch := [], ds_nReadPos := 0\<rparr>"

text \<open>\<open>std::vector::insert\<close> and \<open>erase\<close>; iterators outside the vector are undefined.\<close>

definition vec_insert :: "nat \<Rightarrow> data \<Rightarrow> data \<Rightarrow> data result" where
  "vec_insert it bs v = (if it \<le> length v then Inr (take it v @ bs @ drop it v) else Inl Undefined)"

definition vec_erase :: "nat \<Rightarrow> nat \<Rightarrow> data \<Rightarrow> data result" where
  "vec_erase it_from it_to v =
     (if it_from \<le> it_to \<and> it_to \<le> length v then Inr (take it_from v @ drop it_to v) else Inl Undefined)"

definition ds_insert1 :: "nat \<Rightarrow> byte \<Rightarrow> CDataStream \<Rightarrow> CDataStream result" where
  "ds_insert1 it x s = rbind (vec_insert it [x] (ds_vch s)) (\<lambda>v. Inr (s\<lparr>ds_vch := v\<rparr>))"

definition ds_insertn :: "nat \<Rightarrow> nat \<Rightarrow> byte \<Rightarrow> CDataStream \<Rightarrow> CDataStream result" where
  "ds_insertn it n x s = rbind (vec_insert it (replicate n x) (ds_vch s)) (\<lambda>v. Inr (s\<lparr>ds_vch := v\<rparr>))"

definition ds_insert :: "nat \<Rightarrow> data \<Rightarrow> CDataStream \<Rightarrow> CDataStream result" where
  "ds_insert it bs s =
     (if it = unat (ds_nReadPos s) \<and> of_nat (length bs) \<le> ds_nReadPos s then
        let nReadPos = ds_nReadPos s - of_nat (length bs)
        in if unat nReadPos + length bs \<le> length (ds_vch s) then
             Inr (s\<lparr>ds_nReadPos := nReadPos,
                    ds_vch := take (unat nReadPos) (ds_vch s) @ bs @ drop (unat nReadPos + length bs) (ds_vch s)\<rparr>)
           else Inl Undefined
      else rbind (vec_insert it bs (ds_vch s)) (\<lambda>v. Inr (s\<lparr>ds_vch := v\<rparr>)))"

text \<open>The iterator that is returned comes with the stream.\<close>

definition ds_erase1 :: "nat \<Rightarrow> CDataStream \<Rightarrow> (nat \<times> CDataStream) result" where
  "ds_erase1 it s =
     (if it = unat (ds_nReadPos s) then
        let nReadPos = ds_nReadPos s + 1
        in if unat nReadPos \<ge> length (ds_vch s) then Inr (0, s\<lparr>ds_nReadPos := 0, ds_vch := []\<rparr>)
           else Inr (unat nReadPos, s\<lparr>ds_nReadPos := nReadPos\<rparr>)
      else rbind (vec_erase it (it + 1) (ds_vch s)) (\<lambda>v. Inr (it, s\<lparr>ds_vch := v\<rparr>)))"

definition ds_erase :: "nat \<Rightarrow> nat \<Rightarrow> CDataStream \<Rightarrow> (nat \<times> CDataStream) result" where
  "ds_erase it_from it_to s =
     (if it_from = unat (ds_nReadPos s) then
        if it_to = length (ds_vch s) then Inr (0, s\<lparr>ds_nReadPos := 0, ds_vch := []\<rparr>)
        else Inr (it_to, s\<lparr>ds_nReadPos := of_nat it_to\<rparr>)
      else rbind (vec_erase it_from it_to (ds_vch s)) (\<lambda>v. Inr (it_from, s\<lparr>ds_vch := v\<rparr>)))"

definition ds_Compact :: "CDataStream \<Rightarrow> CDataStream result" where
  "ds_Compact s =
     rbind (vec_erase 0 (unat (ds_nReadPos s)) (ds_vch s)) (\<lambda>v. Inr (s\<lparr>ds_vch := v, ds_nReadPos := 0\<rparr>))"

definition ds_Rewind :: "u64 \<Rightarrow> CDataStream \<Rightarrow> bool \<times> CDataStream" where
  "ds_Rewind n s =
     (if n > ucast (ds_nReadPos s) then (False, s)
      else (True, s\<lparr>ds_nReadPos := ds_nReadPos s - ucast n\<rparr>))"

definition ds_setstate :: "u16 \<Rightarrow> string \<Rightarrow> CDataStream \<Rightarrow> unit result \<times> CDataStream" where
  "ds_setstate bits psz s =
     (let s = s\<lparr>ds_state := ds_state s OR bits\<rparr>
      in if ds_state s AND ds_exceptmask s \<noteq> 0 then (Inl (ios_failure psz), s) else (Inr (), s))"

definition ds_eof :: "CDataStream \<Rightarrow> bool" where
  "ds_eof s \<longleftrightarrow> ds_size s = 0"

definition ds_fail :: "CDataStream \<Rightarrow> bool" where
  "ds_fail s \<longleftrightarrow> ds_state s AND (badbit OR failbit) \<noteq> 0"

definition ds_good :: "CDataStream \<Rightarrow> bool" where
  "ds_good s \<longleftrightarrow> \<not> ds_eof s \<and> ds_state s = 0"

definition ds_clear_state :: "u16 \<Rightarrow> CDataStream \<Rightarrow> CDataStream" where
  "ds_clear_state n s = s\<lparr>ds_state := n\<rparr>"

definition ds_exceptions :: "u16 \<Rightarrow> CDataStream \<Rightarrow> u16 result \<times> CDataStream" where
  "ds_exceptions emask s =
     (let prev = ds_exceptmask s
      in case ds_setstate 0 ''CDataStream'' (s\<lparr>ds_exceptmask := emask\<rparr>) of
           (Inl e, s) \<Rightarrow> (Inl e, s)
         | (Inr _, s) \<Rightarrow> (Inr prev, s))"

text \<open>\<open>memcpy\<close> of \<open>n\<close> bytes from a position.\<close>

definition vec_slice :: "nat \<Rightarrow> nat \<Rightarrow> data \<Rightarrow> data result" where
  "vec_slice pos n v = (if pos + n \<le> length v then Inr (take n (drop pos v)) else Inl Undefined)"

definition ds_read :: "u32 \<Rightarrow> CDataStream \<Rightarrow> data result \<times> CDataStream" where
  "ds_read nSize s =
     (if sint nSize < 0 then (Inl AssertFailed, s)
      else let nReadPosNext = ds_nReadPos s + nSize
           in if unat nReadPosNext \<ge> length (ds_vch s) then
                if unat nReadPosNext > length (ds_vch s) then
                  case ds_setstate failbit ''CDataStream::read() : end of data'' s of
                    (Inl e, s) \<Rightarrow> (Inl e, s)
                  | (Inr _, s) \<Rightarrow>
                      (let left = length (ds_vch s) - unat (ds_nReadPos s)
                       in (rbind (vec_slice (unat (ds_nReadPos s)) left (ds_vch s)) (\<lambda>bs.
                             Inr (bs @ replicate (unat nSize - left) 0)), ds_clear s))
                else (vec_slice (unat (ds_nReadPos s)) (unat nSize) (ds_vch s), ds_clear s)
              else (vec_slice (unat (ds_nReadPos s)) (unat nSize) (ds_vch s), s\<lparr>ds_nReadPos := nReadPosNext\<rparr>))"

definition ds_ignore :: "u32 \<Rightarrow> CDataStream \<Rightarrow> unit result \<times> CDataStream" where
  "ds_ignore nSize s =
     (if sint nSize < 0 then (Inl AssertFailed, s)
      else let nReadPosNext = ds_nReadPos s + nSize
           in if unat nReadPosNext \<ge> length (ds_vch s) then
                if unat nReadPosNext > length (ds_vch s) then
                  case ds_setstate failbit ''CDataStream::ignore() : end of data'' s of
                    (Inl e, s) \<Rightarrow> (Inl e, s)
                  | (Inr _, s) \<Rightarrow> (Inr (), ds_clear s)
                else (Inr (), ds_clear s)
              else (Inr (), s\<lparr>ds_nReadPos := nReadPosNext\<rparr>))"

definition ds_write :: "data \<Rightarrow> u32 \<Rightarrow> CDataStream \<Rightarrow> unit result \<times> CDataStream" where
  "ds_write pch nSize s =
     (if sint nSize < 0 then (Inl AssertFailed, s)
      else (Inr (), s\<lparr>ds_vch := ds_vch s @ take (unat nSize) pch\<rparr>))"

text \<open>What the stream writes into another one.\<close>

definition ds_Serialize :: "CDataStream \<Rightarrow> data" where
  "ds_Serialize s = (if ds_vch s \<noteq> [] then ds_vch s else [])"

definition ds_GetAndClear :: "data \<Rightarrow> CDataStream \<Rightarrow> data \<times> CDataStream" where
  "ds_GetAndClear dat s = (dat @ ds_str s, ds_clear s)"

section \<open>Files\<close>

text \<open>
  A \<open>FILE\<close> as far as the sources use it: the bytes that can be read, the position, whether the end was met
  by a read, whether that end is an error of the device, and how many bytes the device still takes.
\<close>

record FILE =
  f_bytes :: data
  f_pos :: nat
  f_eof :: bool
  f_broken :: bool
  f_room :: nat

definition fread :: "nat \<Rightarrow> FILE \<Rightarrow> data \<times> FILE" where
  "fread n f =
     (let bs = take n (drop (f_pos f) (f_bytes f))
      in (bs, f\<lparr>f_pos := f_pos f + length bs, f_eof := f_eof f \<or> (length bs < n \<and> \<not> f_broken f)\<rparr>))"

definition fwrite :: "data \<Rightarrow> FILE \<Rightarrow> nat \<times> FILE" where
  "fwrite bs f =
     (let n = min (length bs) (f_room f)
      in (n, f\<lparr>f_bytes := take (f_pos f) (f_bytes f) @ take n bs @ drop (f_pos f + n) (f_bytes f),
               f_pos := f_pos f + n, f_room := f_room f - n\<rparr>))"

section \<open>\<open>CAutoFile\<close>\<close>

record CAutoFile =
  af_file :: "FILE option"
  af_state :: u16
  af_exceptmask :: u16
  af_nType :: u32
  af_nVersion :: u32

definition af_new :: "FILE option \<Rightarrow> u32 \<Rightarrow> u32 \<Rightarrow> CAutoFile" where
  "af_new filenew nTypeIn nVersionIn =
     \<lparr>af_file = filenew, af_state = 0, af_exceptmask = badbit OR failbit, af_nType = nTypeIn, af_nVersion = nVersionIn\<rparr>"

definition af_fclose :: "CAutoFile \<Rightarrow> CAutoFile" where
  "af_fclose s = s\<lparr>af_file := None\<rparr>"

definition af_release :: "CAutoFile \<Rightarrow> FILE option \<times> CAutoFile" where
  "af_release s = (let ret = af_file s in (ret, s\<lparr>af_file := None\<rparr>))"

definition af_setstate :: "u16 \<Rightarrow> string \<Rightarrow> CAutoFile \<Rightarrow> unit result \<times> CAutoFile" where
  "af_setstate bits psz s =
     (let s = s\<lparr>af_state := af_state s OR bits\<rparr>
      in if af_state s AND af_exceptmask s \<noteq> 0 then (Inl (ios_failure psz), s) else (Inr (), s))"

definition af_fail :: "CAutoFile \<Rightarrow> bool" where
  "af_fail s \<longleftrightarrow> af_state s AND (badbit OR failbit) \<noteq> 0"

definition af_good :: "CAutoFile \<Rightarrow> bool" where
  "af_good s \<longleftrightarrow> af_state s = 0"

text \<open>Without an exception the caller sees the bytes that were read; the rest of its buffer keeps its contents.\<close>

definition af_read :: "nat \<Rightarrow> CAutoFile \<Rightarrow> data result \<times> CAutoFile" where
  "af_read nSize s =
     (case af_file s of
        None \<Rightarrow> (Inl (ios_failure ''CAutoFile::read : file handle is NULL''), s)
      | Some f \<Rightarrow>
          let (bs, f) = fread nSize f; s = s\<lparr>af_file := Some f\<rparr>
          in if length bs \<noteq> nSize then
               case af_setstate failbit (if f_eof f then ''CAutoFile::read : end of file'' else ''CAutoFile::read : fread failed'') s of
                 (Inl e, s) \<Rightarrow> (Inl e, s)
               | (Inr _, s) \<Rightarrow> (Inr bs, s)
             else (Inr bs, s))"

definition af_write :: "data \<Rightarrow> CAutoFile \<Rightarrow> unit result \<times> CAutoFile" where
  "af_write pch s =
     (case af_file s of
        None \<Rightarrow> (Inl (ios_failure ''CAutoFile::write : file handle is NULL''), s)
      | Some f \<Rightarrow>
          let (n, f) = fwrite pch f; s = s\<lparr>af_file := Some f\<rparr>
          in if n \<noteq> length pch then af_setstate failbit ''CAutoFile::write : write failed'' s
             else (Inr (), s))"

section \<open>\<open>CBufferedFile\<close>\<close>

record CBufferedFile =
  bf_src :: FILE
  bf_nSrcPos :: u64
  bf_nReadPos :: u64
  bf_nReadLimit :: u64
  bf_nRewind :: u64
  bf_vchBuf :: data
  bf_state :: u16
  bf_exceptmask :: u16
  bf_nType :: u32
  bf_nVersion :: u32

definition bf_new :: "FILE \<Rightarrow> u64 \<Rightarrow> u64 \<Rightarrow> u32 \<Rightarrow> u32 \<Rightarrow> CBufferedFile" where
  "bf_new fileIn nBufSize nRewindIn nTypeIn nVersionIn =
     \<lparr>bf_src = fileIn, bf_nSrcPos = 0, bf_nReadPos = 0, bf_nReadLimit = - 1, bf_nRewind = nRewindIn,
      bf_vchBuf = replicate (unat nBufSize) 0, bf_state = 0, bf_exceptmask = badbit OR failbit,
      bf_nType = nTypeIn, bf_nVersion = nVersionIn\<rparr>"

definition bf_setstate :: "u16 \<Rightarrow> string \<Rightarrow> CBufferedFile \<Rightarrow> unit result \<times> CBufferedFile" where
  "bf_setstate bits psz s =
     (let s = s\<lparr>bf_state := bf_state s OR bits\<rparr>
      in if bf_state s AND bf_exceptmask s \<noteq> 0 then (Inl (ios_failure psz), s) else (Inr (), s))"

abbreviation bf_size :: "CBufferedFile \<Rightarrow> u64" where
  "bf_size s \<equiv> of_nat (length (bf_vchBuf s))"

text \<open>The remainder by the size of an empty buffer is undefined.\<close>

definition bf_Fill :: "CBufferedFile \<Rightarrow> bool result \<times> CBufferedFile" where
  "bf_Fill s =
     (if bf_vchBuf s = [] then (Inl Undefined, s)
      else let pos = ucast (bf_nSrcPos s mod bf_size s) :: u32;
               readNow = ucast (bf_size s) - pos;
               nAvail = ucast (bf_size s - (bf_nSrcPos s - bf_nReadPos s) - bf_nRewind s) :: u32;
               readNow = (if nAvail < readNow then nAvail else readNow)
           in if readNow = 0 then (Inr False, s)
              else let (bs, f) = fread (unat readNow) (bf_src s);
                       s = s\<lparr>bf_src := f,
                             bf_vchBuf := take (unat pos) (bf_vchBuf s) @ bs @ drop (unat pos + length bs) (bf_vchBuf s)\<rparr>
                   in if bs = [] then
                        case bf_setstate failbit (if f_eof f then ''CBufferedFile::Fill : end of file'' else ''CBufferedFile::Fill : fread failed'') s of
                          (Inl e, s) \<Rightarrow> (Inl e, s)
                        | (Inr _, s) \<Rightarrow> (Inr False, s)
                      else (Inr True, s\<lparr>bf_nSrcPos := bf_nSrcPos s + of_nat (length bs)\<rparr>))"

definition bf_good :: "CBufferedFile \<Rightarrow> bool" where
  "bf_good s \<longleftrightarrow> bf_state s = 0"

definition bf_eof :: "CBufferedFile \<Rightarrow> bool" where
  "bf_eof s \<longleftrightarrow> bf_nReadPos s = bf_nSrcPos s \<and> f_eof (bf_src s)"

definition bf_fill_when_empty :: "CBufferedFile \<Rightarrow> unit result \<times> CBufferedFile" where
  "bf_fill_when_empty s =
     (if bf_nReadPos s = bf_nSrcPos s then
        case bf_Fill s of (Inl e, s) \<Rightarrow> (Inl e, s) | (Inr _, s) \<Rightarrow> (Inr (), s)
      else (Inr (), s))"

text \<open>The bytes that one round of the loop copies.\<close>

definition bf_copy :: "u64 \<Rightarrow> CBufferedFile \<Rightarrow> (data \<times> u64) result" where
  "bf_copy nSize s =
     (if bf_vchBuf s = [] then Inl Undefined
      else let pos = ucast (bf_nReadPos s mod bf_size s) :: u32;
               nNow = nSize;
               nNow = (if nNow + ucast pos > bf_size s then bf_size s - ucast pos else nNow);
               nNow = (if nNow + bf_nReadPos s > bf_nSrcPos s then bf_nSrcPos s - bf_nReadPos s else nNow)
           in rbind (vec_slice (unat pos) (unat nNow) (bf_vchBuf s)) (\<lambda>bs. Inr (bs, nNow)))"

partial_function (option) bf_read_loop :: "u64 \<Rightarrow> data \<Rightarrow> CBufferedFile \<Rightarrow> (data result \<times> CBufferedFile) option" where
  "bf_read_loop nSize pch s =
     (if nSize > 0 then
        case bf_fill_when_empty s of
          (Inl e, s) \<Rightarrow> Some (Inl e, s)
        | (Inr _, s) \<Rightarrow>
            (case bf_copy nSize s of
               Inl e \<Rightarrow> Some (Inl e, s)
             | Inr (bs, nNow) \<Rightarrow>
                 bf_read_loop (nSize - nNow) (pch @ bs) (s\<lparr>bf_nReadPos := bf_nReadPos s + nNow\<rparr>))
      else Some (Inr pch, s))"

definition bf_read :: "u64 \<Rightarrow> CBufferedFile \<Rightarrow> (data result \<times> CBufferedFile) option" where
  "bf_read nSize s =
     (if nSize + bf_nReadPos s > bf_nReadLimit s then Some (Inl (ios_failure ''Read attempted past buffer limit''), s)
      else if nSize + bf_nRewind s > bf_size s then Some (Inl (ios_failure ''Read larger than buffer size''), s)
      else bf_read_loop nSize [] s)"

definition bf_SetPos :: "u64 \<Rightarrow> CBufferedFile \<Rightarrow> bool \<times> CBufferedFile" where
  "bf_SetPos nPos s =
     (let s = s\<lparr>bf_nReadPos := nPos\<rparr>
      in if bf_nReadPos s + bf_nRewind s < bf_nSrcPos s then (False, s\<lparr>bf_nReadPos := bf_nSrcPos s - bf_nRewind s\<rparr>)
         else if bf_nReadPos s > bf_nSrcPos s then (False, s\<lparr>bf_nReadPos := bf_nSrcPos s\<rparr>)
         else (True, s))"

text \<open>\<open>fseek\<close> fails for a negative position and clears the mark of the end; \<open>long\<close> has 64 bits.\<close>

definition bf_Seek :: "u64 \<Rightarrow> CBufferedFile \<Rightarrow> bool \<times> CBufferedFile" where
  "bf_Seek nPos s =
     (if sint nPos < 0 then (False, s)
      else (True, s\<lparr>bf_src := (bf_src s)\<lparr>f_pos := unat nPos, f_eof := False\<rparr>,
                    bf_nSrcPos := nPos, bf_nReadPos := nPos, bf_state := 0\<rparr>))"

definition bf_SetLimit :: "u64 \<Rightarrow> CBufferedFile \<Rightarrow> bool \<times> CBufferedFile" where
  "bf_SetLimit nPos s = (if nPos < bf_nReadPos s then (False, s) else (True, s\<lparr>bf_nReadLimit := nPos\<rparr>))"

partial_function (option) bf_FindByte :: "byte \<Rightarrow> CBufferedFile \<Rightarrow> (unit result \<times> CBufferedFile) option" where
  "bf_FindByte ch s =
     (case bf_fill_when_empty s of
        (Inl e, s) \<Rightarrow> Some (Inl e, s)
      | (Inr _, s) \<Rightarrow>
          if bf_vchBuf s = [] then Some (Inl Undefined, s)
          else if bf_vchBuf s ! unat (bf_nReadPos s mod bf_size s) = ch then Some (Inr (), s)
          else bf_FindByte ch (s\<lparr>bf_nReadPos := bf_nReadPos s + 1\<rparr>))"

section \<open>What the readers rely on\<close>

text \<open>
  A source gives the bytes of its contents in order. A read of more bytes than are left throws; \<open>may s n\<close>
  says how many bytes may be asked for at once.
\<close>

fun read_list :: "(nat \<Rightarrow> 's \<Rightarrow> data result \<times> 's) \<Rightarrow> nat list \<Rightarrow> 's \<Rightarrow> data list result \<times> 's" where
  "read_list read [] s = (Inr [], s)"
| "read_list read (n # ns) s =
     (case read n s of
        (Inl e, s) \<Rightarrow> (Inl e, s)
      | (Inr bs, s) \<Rightarrow> (case read_list read ns s of (Inl e, s) \<Rightarrow> (Inl e, s) | (Inr bss, s) \<Rightarrow> (Inr (bs # bss), s)))"

fun pieces :: "nat list \<Rightarrow> data \<Rightarrow> data list" where
  "pieces [] bs = []"
| "pieces (n # ns) bs = take n bs # pieces ns (drop n bs)"

locale byte_source =
  fixes content :: "'s \<Rightarrow> data"
    and ok :: "'s \<Rightarrow> bool"
    and may :: "'s \<Rightarrow> nat \<Rightarrow> bool"
    and read :: "nat \<Rightarrow> 's \<Rightarrow> data result \<times> 's"
  assumes read_enough:
    "ok s \<Longrightarrow> may s n \<Longrightarrow> n \<le> length (content s) \<Longrightarrow>
       \<exists>s'. read n s = (Inr (take n (content s)), s') \<and> content s' = drop n (content s) \<and> ok s' \<and> may s' = may s"
    and read_short:
    "ok s \<Longrightarrow> may s n \<Longrightarrow> length (content s) < n \<Longrightarrow> \<exists>msg s'. read n s = (Inl (ios_failure msg), s')"
begin

lemma read_bytes_source:
  assumes "ok s" "may s n"
  shows "case read n s of (Inr bs, s') \<Rightarrow> read_bytes n (content s) = Inr (bs, content s')
    | (Inl e, s') \<Rightarrow> (\<exists>e'. read_bytes n (content s) = Inl e')"
  using read_enough [OF assms] read_short [OF assms] by (cases "n \<le> length (content s)") (auto simp: read_bytes_def)

lemma read_list_source:
  "ok s \<Longrightarrow> \<forall>n \<in> set ns. may s n \<Longrightarrow> sum_list ns \<le> length (content s) \<Longrightarrow>
     \<exists>s'. read_list read ns s = (Inr (pieces ns (content s)), s') \<and> content s' = drop (sum_list ns) (content s) \<and> ok s' \<and> may s' = may s"
proof (induction ns arbitrary: s)
  case (Cons n ns)
  obtain s1 where s1: "read n s = (Inr (take n (content s)), s1)" "content s1 = drop n (content s)" "ok s1" "may s1 = may s"
    using read_enough [of s n] Cons.prems by auto
  then have "\<forall>m \<in> set ns. may s1 m" "sum_list ns \<le> length (content s1)" using Cons.prems by auto
  from Cons.IH [OF s1(3) this] s1 show ?case by (auto simp: add.commute)
qed simp

end

section \<open>\<open>CDataStream\<close> is a queue of bytes\<close>

definition ds_ok :: "CDataStream \<Rightarrow> bool" where
  "ds_ok s \<longleftrightarrow> unat (ds_nReadPos s) \<le> length (ds_vch s) \<and> length (ds_vch s) < 2 ^ 31 \<and>
     ds_exceptmask s = badbit OR failbit"

lemma of_nat_small:
  assumes "n < 2 ^ 31"
  shows "unat (of_nat n :: u32) = n" "0 \<le> sint (of_nat n :: u32)"
proof -
  show "unat (of_nat n :: u32) = n" using assms by (simp add: unat_of_nat)
  show "0 \<le> sint (of_nat n :: u32)" using assms
    by (simp add: signed_of_nat signed_take_bit_int_eq_self)
qed

lemma unat_add_small:
  assumes "unat (p :: u32) < 2 ^ 31" "n < 2 ^ 31"
  shows "unat (p + of_nat n) = unat p + n"
  using assms of_nat_small(1) [OF assms(2)] by (subst unat_add_lem [THEN iffD1]) simp_all

lemma ds_setstate_throws: "ds_ok s \<Longrightarrow> \<exists>s'. ds_setstate failbit psz s = (Inl (ios_failure psz), s') \<and> ds_str s' = ds_str s \<and> ds_ok s'
    \<and> ds_vch s' = ds_vch s"
proof -
  assume "ds_ok s"
  moreover have "(st OR failbit) AND (badbit OR failbit) \<noteq> 0" for st
  proof -
    have "bit ((st OR failbit) AND (badbit OR failbit)) 2" by (simp add: bit_simps failbit_def badbit_def)
    then show ?thesis by (metis bit_0_eq bot_apply bot_bool_def)
  qed
  ultimately show ?thesis by (simp add: ds_setstate_def ds_ok_def ds_str_def Let_def)
qed

lemma ds_read_enough:
  assumes "ds_ok s" "n < 2 ^ 31" "n \<le> length (ds_str s)"
  shows "\<exists>s'. ds_read (of_nat n) s = (Inr (take n (ds_str s)), s') \<and> ds_str s' = drop n (ds_str s) \<and> ds_ok s' \<and>
    length (ds_vch s') \<le> length (ds_vch s)"
proof -
  have p: "unat (ds_nReadPos s) \<le> length (ds_vch s)" "length (ds_vch s) < 2 ^ 31" using assms(1) by (simp_all add: ds_ok_def)
  then have "unat (ds_nReadPos s + of_nat n) = unat (ds_nReadPos s) + n" using assms(2) by (intro unat_add_small) simp_all
  moreover have "unat (ds_nReadPos s) + n \<le> length (ds_vch s)" using assms(3) p by (simp add: ds_str_def)
  moreover have "\<not> sint (of_nat n :: u32) < 0" using of_nat_small(2) [OF assms(2)] by simp
  ultimately show ?thesis using assms(1) of_nat_small(1) [OF assms(2)]
    by (auto simp: ds_read_def vec_slice_def ds_clear_def ds_str_def ds_ok_def Let_def add.commute)
qed

lemma ds_read_short:
  assumes "ds_ok s" "n < 2 ^ 31" "length (ds_str s) < n"
  shows "\<exists>s'. ds_read (of_nat n) s = (Inl (ios_failure ''CDataStream::read() : end of data''), s') \<and> ds_str s' = ds_str s \<and> ds_ok s' \<and>
    ds_vch s' = ds_vch s"
proof -
  have p: "unat (ds_nReadPos s) \<le> length (ds_vch s)" "length (ds_vch s) < 2 ^ 31" using assms(1) by (simp_all add: ds_ok_def)
  then have "unat (ds_nReadPos s + of_nat n) = unat (ds_nReadPos s) + n" using assms(2) by (intro unat_add_small) simp_all
  moreover have "length (ds_vch s) < unat (ds_nReadPos s) + n" using assms(3) p by (simp add: ds_str_def)
  moreover have "\<not> sint (of_nat n :: u32) < 0" using of_nat_small(2) [OF assms(2)] by simp
  moreover note ds_setstate_throws [OF assms(1), of "''CDataStream::read() : end of data''"]
  ultimately show ?thesis by (auto simp: ds_read_def Let_def)
qed

interpretation datastream: byte_source ds_str ds_ok "\<lambda>s n. n < 2 ^ 31" "\<lambda>n. ds_read (of_nat n)"
proof unfold_locales
  fix s :: CDataStream and n :: nat
  assume "ds_ok s" "n < 2 ^ 31"
  then show "n \<le> length (ds_str s) \<Longrightarrow> \<exists>s'. ds_read (of_nat n) s = (Inr (take n (ds_str s)), s') \<and> ds_str s' = drop n (ds_str s) \<and> ds_ok s' \<and>
      (\<lambda>n :: nat. n < 2 ^ 31) = (\<lambda>n. n < 2 ^ 31)"
    "length (ds_str s) < n \<Longrightarrow> \<exists>msg s'. ds_read (of_nat n) s = (Inl (ios_failure msg), s')"
    using ds_read_enough ds_read_short by blast+
qed

text \<open>The operations of the stream at its two ends, and what they do to a queue.\<close>

datatype stream_op =
    SWrite data
  | SRead nat
  | SIgnore nat
  | SPushFront data
  | SErase nat
  | SCompact
  | SClear

fun ds_do :: "stream_op \<Rightarrow> CDataStream \<Rightarrow> data result \<times> CDataStream" where
  "ds_do (SWrite bs) s = (case ds_write bs (of_nat (length bs)) s of (Inl e, s) \<Rightarrow> (Inl e, s) | (Inr _, s) \<Rightarrow> (Inr [], s))"
| "ds_do (SRead n) s = ds_read (of_nat n) s"
| "ds_do (SIgnore n) s = (case ds_ignore (of_nat n) s of (Inl e, s) \<Rightarrow> (Inl e, s) | (Inr _, s) \<Rightarrow> (Inr [], s))"
| "ds_do (SPushFront bs) s = (case ds_insert (ds_begin s) bs s of Inl e \<Rightarrow> (Inl e, s) | Inr s \<Rightarrow> (Inr [], s))"
| "ds_do (SErase n) s = (case ds_erase (ds_begin s) (ds_begin s + n) s of Inl e \<Rightarrow> (Inl e, s) | Inr (_, s) \<Rightarrow> (Inr [], s))"
| "ds_do SCompact s = (case ds_Compact s of Inl e \<Rightarrow> (Inl e, s) | Inr s \<Rightarrow> (Inr [], s))"
| "ds_do SClear s = (Inr [], ds_clear s)"

fun queue_do :: "stream_op \<Rightarrow> data \<Rightarrow> data result \<times> data" where
  "queue_do (SWrite bs) q = (Inr [], q @ bs)"
| "queue_do (SRead n) q =
     (if n \<le> length q then (Inr (take n q), drop n q) else (Inl (ios_failure ''CDataStream::read() : end of data''), q))"
| "queue_do (SIgnore n) q =
     (if n \<le> length q then (Inr [], drop n q) else (Inl (ios_failure ''CDataStream::ignore() : end of data''), q))"
| "queue_do (SPushFront bs) q = (Inr [], bs @ q)"
| "queue_do (SErase n) q = (Inr [], drop n q)"
| "queue_do SCompact q = (Inr [], q)"
| "queue_do SClear q = (Inr [], [])"

text \<open>What an operation adds to the vector, and when it may be called.\<close>

fun op_growth :: "stream_op \<Rightarrow> nat" where
  "op_growth (SWrite bs) = length bs"
| "op_growth (SPushFront bs) = length bs"
| "op_growth _ = 0"

fun op_valid :: "stream_op \<Rightarrow> data \<Rightarrow> bool" where
  "op_valid (SRead n) q \<longleftrightarrow> n < 2 ^ 31"
| "op_valid (SIgnore n) q \<longleftrightarrow> n < 2 ^ 31"
| "op_valid (SErase n) q \<longleftrightarrow> n \<le> length q"
| "op_valid _ q \<longleftrightarrow> True"

fun run_ops :: "(stream_op \<Rightarrow> 's \<Rightarrow> data result \<times> 's) \<Rightarrow> stream_op list \<Rightarrow> 's \<Rightarrow> data result list \<times> 's" where
  "run_ops step [] s = ([], s)"
| "run_ops step (c # cs) s =
     (let (r, s) = step c s; (rs, s) = run_ops step cs s in (r # rs, s))"

fun ops_valid :: "stream_op list \<Rightarrow> data \<Rightarrow> bool" where
  "ops_valid [] q \<longleftrightarrow> True"
| "ops_valid (c # cs) q \<longleftrightarrow> op_valid c q \<and> ops_valid cs (snd (queue_do c q))"

lemma ds_ignore_ok:
  assumes "ds_ok s" "n < 2 ^ 31"
  shows "\<exists>s'. ds_ignore (of_nat n) s =
      (if n \<le> length (ds_str s) then Inr () else Inl (ios_failure ''CDataStream::ignore() : end of data''), s') \<and>
    ds_str s' = (if n \<le> length (ds_str s) then drop n (ds_str s) else ds_str s) \<and> ds_ok s' \<and> length (ds_vch s') \<le> length (ds_vch s)"
proof -
  have p: "unat (ds_nReadPos s) \<le> length (ds_vch s)" "length (ds_vch s) < 2 ^ 31" using assms(1) by (simp_all add: ds_ok_def)
  then have u: "unat (ds_nReadPos s + of_nat n) = unat (ds_nReadPos s) + n" using assms(2) by (intro unat_add_small) simp_all
  have l: "n \<le> length (ds_str s) \<longleftrightarrow> unat (ds_nReadPos s) + n \<le> length (ds_vch s)" using p by (auto simp: ds_str_def)
  have n: "\<not> sint (of_nat n :: u32) < 0" using of_nat_small(2) [OF assms(2)] by simp
  show ?thesis
  proof (cases "n \<le> length (ds_str s)")
    case True
    then show ?thesis using assms(1) u l n
      by (auto simp: ds_ignore_def ds_clear_def ds_str_def ds_ok_def Let_def add.commute)
  next
    case False
    then show ?thesis using u l n ds_setstate_throws [OF assms(1), of "''CDataStream::ignore() : end of data''"]
      by (auto simp: ds_ignore_def Let_def)
  qed
qed

lemma ds_insert_front:
  assumes "ds_ok s" "length (ds_vch s) + length bs < 2 ^ 31"
  shows "\<exists>s'. ds_insert (ds_begin s) bs s = Inr s' \<and> ds_str s' = bs @ ds_str s \<and> ds_ok s' \<and>
    length (ds_vch s') \<le> length (ds_vch s) + length bs"
proof -
  have p: "unat (ds_nReadPos s) \<le> length (ds_vch s)" using assms(1) by (simp add: ds_ok_def)
  have b: "unat (of_nat (length bs) :: u32) = length bs" using assms(2) by (intro of_nat_small(1)) simp
  show ?thesis
  proof (cases "of_nat (length bs) \<le> ds_nReadPos s")
    case True
    then have "unat (ds_nReadPos s - of_nat (length bs)) = unat (ds_nReadPos s) - length bs" "length bs \<le> unat (ds_nReadPos s)"
      using b by (simp_all add: unat_sub word_le_nat_alt)
    with True show ?thesis using assms p
      by (auto simp: ds_insert_def ds_begin_def ds_str_def ds_ok_def Let_def)
  next
    case False
    then show ?thesis using assms p
      by (auto simp: ds_insert_def ds_begin_def vec_insert_def ds_str_def ds_ok_def Let_def)
  qed
qed

lemma ds_erase_front:
  assumes "ds_ok s" "n \<le> length (ds_str s)"
  shows "\<exists>it s'. ds_erase (ds_begin s) (ds_begin s + n) s = Inr (it, s') \<and> ds_str s' = drop n (ds_str s) \<and> ds_ok s' \<and>
    length (ds_vch s') \<le> length (ds_vch s)"
proof -
  have p: "unat (ds_nReadPos s) + n \<le> length (ds_vch s)" "length (ds_vch s) < 2 ^ 31"
    using assms by (auto simp: ds_ok_def ds_str_def)
  then have "unat (of_nat (unat (ds_nReadPos s) + n) :: u32) = unat (ds_nReadPos s) + n" by (intro of_nat_small(1)) simp
  then show ?thesis using assms(1) p
    by (auto simp: ds_erase_def ds_begin_def ds_str_def ds_ok_def Let_def add.commute)
qed

lemma ds_do_queue:
  assumes "ds_ok s" "length (ds_vch s) + op_growth c < 2 ^ 31" "op_valid c (ds_str s)"
  shows "\<exists>s'. ds_do c s = (fst (queue_do c (ds_str s)), s') \<and> ds_str s' = snd (queue_do c (ds_str s)) \<and> ds_ok s' \<and>
    length (ds_vch s') \<le> length (ds_vch s) + op_growth c"
proof (cases c)
  case (SWrite bs)
  then have "unat (of_nat (length bs) :: u32) = length bs" "\<not> sint (of_nat (length bs) :: u32) < 0"
    using of_nat_small [of "length bs"] assms(2) by simp_all
  then show ?thesis using SWrite assms by (simp add: ds_write_def ds_str_def ds_ok_def)
next
  case (SRead n)
  then show ?thesis using assms ds_read_enough [OF assms(1), of n] ds_read_short [OF assms(1), of n] by fastforce
next
  case (SIgnore n)
  then show ?thesis using assms ds_ignore_ok [OF assms(1), of n] by fastforce
next
  case (SPushFront bs)
  then show ?thesis using assms ds_insert_front [OF assms(1), of bs] by auto
next
  case (SErase n)
  then show ?thesis using assms ds_erase_front [OF assms(1), of n] by auto
next
  case SCompact
  then show ?thesis using assms by (auto simp: ds_Compact_def vec_erase_def ds_str_def ds_ok_def)
next
  case SClear
  then show ?thesis using assms by (simp add: ds_clear_def ds_str_def ds_ok_def)
qed

section \<open>A file is a source\<close>

definition af_content :: "CAutoFile \<Rightarrow> data" where
  "af_content s = (case af_file s of None \<Rightarrow> [] | Some f \<Rightarrow> drop (f_pos f) (f_bytes f))"

definition af_ok :: "CAutoFile \<Rightarrow> bool" where
  "af_ok s \<longleftrightarrow> af_file s \<noteq> None \<and> af_exceptmask s = badbit OR failbit"

lemma failbit_masked: "(st OR failbit) AND (badbit OR failbit) \<noteq> 0"
proof -
  have "bit ((st OR failbit) AND (badbit OR failbit)) 2" by (simp add: bit_simps failbit_def badbit_def)
  then show ?thesis by (metis bit_0_eq bot_apply bot_bool_def)
qed

interpretation autofile: byte_source af_content af_ok "\<lambda>s n. True" af_read
proof unfold_locales
  fix s :: CAutoFile and n :: nat
  assume ok: "af_ok s"
  then obtain f where f: "af_file s = Some f" by (auto simp: af_ok_def)
  show "\<exists>s'. af_read n s = (Inr (take n (af_content s)), s') \<and> af_content s' = drop n (af_content s) \<and> af_ok s' \<and> (\<lambda>n :: nat. True) = (\<lambda>n. True)"
    if "n \<le> length (af_content s)"
    using that f ok by (auto simp: af_read_def fread_def af_content_def af_ok_def Let_def min_def add.commute)
  show "\<exists>msg s'. af_read n s = (Inl (ios_failure msg), s')" if "length (af_content s) < n"
    using that f ok failbit_masked [of "af_state s"]
    by (auto simp: af_read_def fread_def af_content_def af_ok_def af_setstate_def Let_def)
qed

section \<open>The buffered file\<close>

text \<open>
  The buffer holds the last bytes that were read from the file, each at its position modulo the size, but
  nothing from before \<open>lo\<close>, where reading began.
\<close>

definition bf_ok :: "nat \<Rightarrow> CBufferedFile \<Rightarrow> bool" where
  "bf_ok lo s \<longleftrightarrow>
     (let sz = length (bf_vchBuf s); src = unat (bf_nSrcPos s); bytes = f_bytes (bf_src s)
      in sz < 2 ^ 32 \<and> unat (bf_nRewind s) < sz \<and> length bytes < 2 ^ 62 \<and> f_pos (bf_src s) = src \<and> src \<le> length bytes \<and>
         lo \<le> unat (bf_nReadPos s) \<and> unat (bf_nReadPos s) \<le> src \<and> src \<le> unat (bf_nReadPos s) + sz \<and>
         (\<forall>i. lo \<le> i \<longrightarrow> i < src \<longrightarrow> src \<le> i + sz \<longrightarrow> bf_vchBuf s ! (i mod sz) = bytes ! i) \<and>
         bf_exceptmask s = badbit OR failbit)"

text \<open>What reading leaves as it is.\<close>

definition bf_same :: "CBufferedFile \<Rightarrow> CBufferedFile \<Rightarrow> bool" where
  "bf_same s s' \<longleftrightarrow> f_bytes (bf_src s') = f_bytes (bf_src s) \<and> length (bf_vchBuf s') = length (bf_vchBuf s) \<and>
     bf_nRewind s' = bf_nRewind s \<and> bf_nReadLimit s' = bf_nReadLimit s"

lemma window_update:
  assumes "src mod sz + length bs \<le> sz" "length buf = sz" "0 < sz"
    and "src + length bs \<le> length bytes" "bs = take (length bs) (drop src bytes)"
    and "\<forall>i. lo \<le> i \<longrightarrow> i < src \<longrightarrow> src \<le> i + sz \<longrightarrow> buf ! (i mod sz) = bytes ! i"
    and "lo \<le> i" "i < src + length bs" "src + length bs \<le> i + sz"
  shows "(take (src mod sz) buf @ bs @ drop (src mod sz + length bs) buf) ! (i mod sz) = bytes ! i"
proof -
  let ?p = "src mod sz" and ?k = "length bs"
  show ?thesis
  proof (cases "i < src")
    case True
    have "\<not> (?p \<le> i mod sz \<and> i mod sz < ?p + ?k)"
    proof
      assume a: "?p \<le> i mod sz \<and> i mod sz < ?p + ?k"
      define j where "j = src div sz * sz + i mod sz"
      have src: "src div sz * sz + ?p = src" by (rule div_mult_mod_eq)
      have "j mod sz = i mod sz" by (simp add: j_def)
      moreover have "i < j" "j < i + sz" using a src True assms(9) unfolding j_def by linarith+
      ultimately have "sz dvd j - i" by (metis mod_eq_dvd_iff_nat less_imp_le)
      with \<open>i < j\<close> \<open>j < i + sz\<close> show False by (auto dest: dvd_imp_le)
    qed
    moreover have "buf ! (i mod sz) = bytes ! i" using assms(6,7,9) True by simp
    ultimately show ?thesis using assms(1-3) by (auto simp: nth_append)
  next
    case False
    have src: "src div sz * sz + ?p = src" by (rule div_mult_mod_eq)
    have "i = src div sz * sz + (?p + (i - src))" using src False by linarith
    then have "i mod sz = (src div sz * sz + (?p + (i - src))) mod sz" by (rule arg_cong)
    also have "\<dots> = (?p + (i - src)) mod sz" by (rule mod_mult_self3)
    also have "\<dots> = ?p + (i - src)" using assms(1,8) False by (intro mod_less) linarith
    finally have m: "i mod sz = ?p + (i - src)" .
    have "bs ! (i - src) = take (length bs) (drop src bytes) ! (i - src)" using assms(5) by (rule arg_cong)
    also have "\<dots> = bytes ! i" using False assms(4,8) by simp
    finally have "bs ! (i - src) = bytes ! i" .
    moreover note m
    ultimately show ?thesis using False assms(1,2,8) by (auto simp: nth_append)
  qed
qed

lemma bf_Fill_ok:
  assumes "bf_ok lo s" "bf_nReadPos s = bf_nSrcPos s"
  shows "if unat (bf_nSrcPos s) < length (f_bytes (bf_src s))
    then \<exists>s'. bf_Fill s = (Inr True, s') \<and> bf_ok lo s' \<and> bf_same s s' \<and> bf_nReadPos s' = bf_nReadPos s \<and> bf_nSrcPos s < bf_nSrcPos s'
    else \<exists>msg s'. bf_Fill s = (Inl (ios_failure msg), s')"
proof -
  let ?size = "length (bf_vchBuf s)" and ?src = "unat (bf_nSrcPos s)" and ?bytes = "f_bytes (bf_src s)"
  have ok: "?size < 2 ^ 32" "unat (bf_nRewind s) < ?size" "length ?bytes < 2 ^ 62" "f_pos (bf_src s) = ?src" "?src \<le> length ?bytes"
    "lo \<le> ?src" "\<forall>i. lo \<le> i \<longrightarrow> i < ?src \<longrightarrow> ?src \<le> i + ?size \<longrightarrow> bf_vchBuf s ! (i mod ?size) = ?bytes ! i"
    "bf_exceptmask s = badbit OR failbit"
    using assms by (simp_all add: bf_ok_def Let_def)
  have size: "unat (bf_size s) = ?size" using ok(1) by (simp add: unat_of_nat)
  have p: "?src mod ?size < ?size" using ok(2) by (intro mod_less_divisor) linarith
  define pos where "pos = (ucast (bf_nSrcPos s mod bf_size s) :: u32)"
  have pos: "unat pos = ?src mod ?size"
    using ok(1) p by (simp add: pos_def unsigned_ucast_eq unat_mod size take_bit_nat_eq_self)
  have size32: "unat (ucast (bf_size s) :: u32) = ?size" using ok(1) by (simp add: unsigned_ucast_eq size take_bit_nat_eq_self)
  have rewind: "bf_nRewind s \<le> bf_size s" using ok(2) by (simp add: word_le_nat_alt size)
  have avail: "unat (ucast (bf_size s - (bf_nSrcPos s - bf_nReadPos s) - bf_nRewind s) :: u32) = ?size - unat (bf_nRewind s)"
    using ok(1) assms(2) by (simp add: unsigned_ucast_eq unat_sub rewind size take_bit_nat_eq_self)
  have left: "unat (ucast (bf_size s) - pos) = ?size - ?src mod ?size"
    using p pos by (simp add: unat_sub word_le_nat_alt size32)
  define readNow where "readNow = (if ucast (bf_size s - (bf_nSrcPos s - bf_nReadPos s) - bf_nRewind s) < ucast (bf_size s) - pos
      then ucast (bf_size s - (bf_nSrcPos s - bf_nReadPos s) - bf_nRewind s) else ucast (bf_size s) - pos)"
  have now: "0 < unat readNow" "unat readNow \<le> ?size - ?src mod ?size" "unat readNow \<le> ?size - unat (bf_nRewind s)"
    using avail left p ok(2) unfolding readNow_def by (auto simp: word_less_nat_alt)
  then have nz: "readNow \<noteq> 0" by auto
  define bs where "bs = take (unat readNow) (drop ?src ?bytes)"
  define f where "f = snd (fread (unat readNow) (bf_src s))"
  have f: "fread (unat readNow) (bf_src s) = (bs, f)" "f_bytes f = ?bytes" "f_pos f = ?src + length bs"
    by (simp_all add: fread_def f_def bs_def ok(4) Let_def)
  define buf where "buf = take (unat pos) (bf_vchBuf s) @ bs @ drop (unat pos + length bs) (bf_vchBuf s)"
  have fill: "bf_Fill s = (if bs = [] then
      (case bf_setstate failbit (if f_eof f then ''CBufferedFile::Fill : end of file'' else ''CBufferedFile::Fill : fread failed'')
         (s\<lparr>bf_src := f, bf_vchBuf := buf\<rparr>) of (Inl e, s) \<Rightarrow> (Inl e, s) | (Inr _, s) \<Rightarrow> (Inr False, s))
      else (Inr True, s\<lparr>bf_src := f, bf_vchBuf := buf, bf_nSrcPos := bf_nSrcPos s + of_nat (length bs)\<rparr>))"
    unfolding bf_Fill_def Let_def pos_def [symmetric] readNow_def [symmetric] using nz ok(2) f(1)
    by (auto simp: buf_def)
  show ?thesis
  proof (cases "?src < length ?bytes")
    case True
    then have bs: "bs \<noteq> []" using now(1) by (simp add: bs_def)
    have lb: "length bs \<le> unat readNow" "?src + length bs \<le> length ?bytes" using ok(5) by (auto simp: bs_def)
    have "unat (of_nat (length bs) :: u64) = length bs" using lb(2) ok(3) by (simp add: unat_of_nat)
    then have src: "unat (bf_nSrcPos s + of_nat (length bs)) = ?src + length bs"
      using lb(2) ok(3) by (subst unat_add_lem [THEN iffD1]) simp_all
    have fit: "?src mod ?size + length bs \<le> ?size" using lb(1) now(2) p by linarith
    have pre: "bs = take (length bs) (drop ?src ?bytes)" by (simp add: bs_def min_def)
    have pos_size: "0 < ?size" using ok(2) by linarith
    have "length buf = ?size" using fit pos by (simp add: buf_def)
    moreover have "buf ! (i mod ?size) = ?bytes ! i" if "lo \<le> i" "i < ?src + length bs" "?src + length bs \<le> i + ?size" for i
      unfolding buf_def pos by (rule window_update [OF fit refl pos_size lb(2) pre ok(7) that])
    ultimately have "bf_ok lo (s\<lparr>bf_src := f, bf_vchBuf := buf, bf_nSrcPos := bf_nSrcPos s + of_nat (length bs)\<rparr>)"
      using ok f lb now src assms(2) by (simp add: bf_ok_def Let_def)
    moreover have "bf_nSrcPos s < bf_nSrcPos s + of_nat (length bs)"
      using src bs by (simp add: word_less_nat_alt)
    ultimately show ?thesis using True bs fill f \<open>length buf = ?size\<close> by (simp add: bf_same_def)
  next
    case False
    then have "bs = []" by (simp add: bs_def)
    then show ?thesis using False fill ok(8) failbit_masked [of "bf_state s"] by (auto simp: bf_setstate_def Let_def)
  qed
qed

text \<open>The bytes of one round are those of the file, and there is at least one.\<close>

lemma bf_copy_ok:
  assumes "bf_ok lo s" "0 < nSize" "unat nSize < 2 ^ 62" "bf_nReadPos s < bf_nSrcPos s"
  shows "\<exists>nNow. bf_copy nSize s = Inr (take (unat nNow) (drop (unat (bf_nReadPos s)) (f_bytes (bf_src s))), nNow) \<and>
    0 < nNow \<and> nNow \<le> nSize \<and> unat (bf_nReadPos s) + unat nNow \<le> unat (bf_nSrcPos s)"
proof -
  let ?size = "length (bf_vchBuf s)" and ?src = "unat (bf_nSrcPos s)" and ?rd = "unat (bf_nReadPos s)" and ?bytes = "f_bytes (bf_src s)"
  have ok: "?size < 2 ^ 32" "unat (bf_nRewind s) < ?size" "length ?bytes < 2 ^ 62" "?src \<le> length ?bytes"
    "lo \<le> ?rd" "?rd < ?src" "?src \<le> ?rd + ?size"
    "\<forall>i. lo \<le> i \<longrightarrow> i < ?src \<longrightarrow> ?src \<le> i + ?size \<longrightarrow> bf_vchBuf s ! (i mod ?size) = ?bytes ! i"
    using assms by (simp_all add: bf_ok_def Let_def word_less_nat_alt)
  have size: "unat (bf_size s) = ?size" using ok(1) by (simp add: unat_of_nat)
  have p: "?rd mod ?size < ?size" using ok(2) by (intro mod_less_divisor) linarith
  define pos where "pos = (ucast (bf_nReadPos s mod bf_size s) :: u32)"
  have pos: "unat pos = ?rd mod ?size"
    using ok(1) p by (simp add: pos_def unsigned_ucast_eq unat_mod size take_bit_nat_eq_self)
  have up: "unat (ucast pos :: u64) = unat pos"
    using pos p ok(1) by (simp add: unsigned_ucast_eq take_bit_nat_eq_self)
  have sum1: "unat (nSize + ucast pos) = unat nSize + unat pos"
    using assms(3) pos p ok(1) up by (subst unat_add_lem [THEN iffD1]) simp_all
  define n1 where "n1 = (if nSize + ucast pos > bf_size s then bf_size s - ucast pos else nSize)"
  have n1: "unat n1 = min (unat nSize) (?size - ?rd mod ?size)"
    using p unfolding n1_def by (auto simp: word_less_nat_alt sum1 size pos up unat_sub word_le_nat_alt min_def)
  have sum2: "unat (n1 + bf_nReadPos s) = unat n1 + ?rd"
    using n1 assms(3) ok(3,4,6) by (subst unat_add_lem [THEN iffD1]) simp_all
  define n2 where "n2 = (if n1 + bf_nReadPos s > bf_nSrcPos s then bf_nSrcPos s - bf_nReadPos s else n1)"
  have n2: "unat n2 = min (unat n1) (?src - ?rd)"
    using ok(6) unfolding n2_def by (auto simp: word_less_nat_alt sum2 unat_sub word_le_nat_alt min_def)
  have pos_n2: "0 < unat n2" using n1 n2 assms(2) p ok(6) by (simp add: word_less_nat_alt)
  have le2: "unat n2 \<le> ?size - ?rd mod ?size" "unat n2 \<le> ?src - ?rd" by (simp_all add: n1 n2)
  have slice: "take (unat n2) (drop (?rd mod ?size) (bf_vchBuf s)) = take (unat n2) (drop ?rd ?bytes)"
  proof (rule nth_equalityI)
    show "length (take (unat n2) (drop (?rd mod ?size) (bf_vchBuf s))) = length (take (unat n2) (drop ?rd ?bytes))"
      using le2 ok(4) unfolding length_take length_drop by linarith
  next
    fix k assume "k < length (take (unat n2) (drop (?rd mod ?size) (bf_vchBuf s)))"
    then have k: "k < unat n2" "?rd mod ?size + k < ?size"
      unfolding length_take length_drop by linarith+
    have rd: "?rd div ?size * ?size + ?rd mod ?size = ?rd" by (rule div_mult_mod_eq)
    have "?rd + k = ?rd div ?size * ?size + (?rd mod ?size + k)" using rd by linarith
    then have "(?rd + k) mod ?size = (?rd div ?size * ?size + (?rd mod ?size + k)) mod ?size" by (rule arg_cong)
    also have "\<dots> = (?rd mod ?size + k) mod ?size" by (rule mod_mult_self3)
    also have "\<dots> = ?rd mod ?size + k" using k(2) by (rule mod_less)
    finally have m: "(?rd + k) mod ?size = ?rd mod ?size + k" .
    have "bf_vchBuf s ! ((?rd + k) mod ?size) = ?bytes ! (?rd + k)"
      by (rule ok(8) [rule_format]) (use ok(5,7) k(1) le2(2) in linarith)+
    then show "take (unat n2) (drop (?rd mod ?size) (bf_vchBuf s)) ! k = take (unat n2) (drop ?rd ?bytes) ! k"
      using k m ok(4,6) by simp
  qed
  have "bf_copy nSize s = rbind (vec_slice (unat pos) (unat n2) (bf_vchBuf s)) (\<lambda>bs. Inr (bs, n2))"
    unfolding bf_copy_def Let_def pos_def [symmetric] n1_def [symmetric] n2_def [symmetric] using ok(2) by auto
  moreover have "vec_slice (unat pos) (unat n2) (bf_vchBuf s) = Inr (take (unat n2) (drop ?rd ?bytes))"
    using slice le2(1) p by (simp add: vec_slice_def pos)
  moreover have "unat n2 \<le> unat nSize" "?rd + unat n2 \<le> ?src"
    using le2(2) ok(6) unfolding n2 n1 by simp_all
  ultimately show ?thesis using pos_n2
    by (intro exI [of _ n2]) (simp add: word_less_nat_alt word_le_nat_alt)
qed

lemma bf_same_refl [simp]: "bf_same s s" by (simp add: bf_same_def)

lemma bf_same_trans: "bf_same s t \<Longrightarrow> bf_same t u \<Longrightarrow> bf_same s u" by (simp add: bf_same_def)

lemma bf_fill_when_empty_ok:
  assumes "bf_ok lo s"
  shows "if unat (bf_nReadPos s) < length (f_bytes (bf_src s))
    then \<exists>s'. bf_fill_when_empty s = (Inr (), s') \<and> bf_ok lo s' \<and> bf_same s s' \<and> bf_nReadPos s' = bf_nReadPos s \<and> bf_nReadPos s' < bf_nSrcPos s'
    else \<exists>msg s'. bf_fill_when_empty s = (Inl (ios_failure msg), s')"
proof (cases "bf_nReadPos s = bf_nSrcPos s")
  case True
  then show ?thesis using bf_Fill_ok [OF assms True] by (auto simp: bf_fill_when_empty_def split: if_splits)
next
  case False
  then have "bf_nReadPos s < bf_nSrcPos s" "unat (bf_nReadPos s) < length (f_bytes (bf_src s))"
    using assms by (auto simp: bf_ok_def Let_def word_less_nat_alt word_unat_eq_iff)
  then show ?thesis using False assms by (simp add: bf_fill_when_empty_def)
qed

lemma bf_advance:
  "bf_ok lo s \<Longrightarrow> unat (bf_nReadPos s) + unat n \<le> unat (bf_nSrcPos s) \<Longrightarrow>
     bf_ok lo (s\<lparr>bf_nReadPos := bf_nReadPos s + n\<rparr>) \<and> unat (bf_nReadPos s + n) = unat (bf_nReadPos s) + unat n"
proof -
  assume a: "bf_ok lo s" "unat (bf_nReadPos s) + unat n \<le> unat (bf_nSrcPos s)"
  then have "unat (bf_nReadPos s + n) = unat (bf_nReadPos s) + unat n"
    by (subst unat_add_lem [THEN iffD1]) (auto simp: bf_ok_def Let_def)
  then show ?thesis using a by (simp add: bf_ok_def Let_def)
qed

lemma bf_read_loop_ok:
  "bf_ok lo s \<Longrightarrow> unat nSize < 2 ^ 62 \<Longrightarrow>
    (if unat (bf_nReadPos s) + unat nSize \<le> length (f_bytes (bf_src s))
     then \<exists>s'. bf_read_loop nSize pch s = Some (Inr (pch @ take (unat nSize) (drop (unat (bf_nReadPos s)) (f_bytes (bf_src s)))), s') \<and>
       bf_ok lo s' \<and> bf_same s s' \<and> unat (bf_nReadPos s') = unat (bf_nReadPos s) + unat nSize
     else \<exists>msg s'. bf_read_loop nSize pch s = Some (Inl (ios_failure msg), s'))"
proof (induction "unat nSize" arbitrary: nSize pch s rule: less_induct)
  case less
  show ?case
  proof (cases "nSize = 0")
    case True
    then show ?thesis using less.prems by (subst bf_read_loop.simps) (auto simp: bf_ok_def Let_def)
  next
    case False
    then have pos: "0 < nSize" by (simp add: word_gt_0)
    note fill = bf_fill_when_empty_ok [OF less.prems(1)]
    show ?thesis
    proof (cases "unat (bf_nReadPos s) < length (f_bytes (bf_src s))")
      case True
      then obtain s1 where s1: "bf_fill_when_empty s = (Inr (), s1)" "bf_ok lo s1" "bf_same s s1" "bf_nReadPos s1 = bf_nReadPos s"
        "bf_nReadPos s1 < bf_nSrcPos s1" using fill by auto
      let ?rest = "drop (unat (bf_nReadPos s)) (f_bytes (bf_src s))"
      obtain n where n: "bf_copy nSize s1 = Inr (take (unat n) ?rest, n)" "0 < n" "n \<le> nSize"
        "unat (bf_nReadPos s1) + unat n \<le> unat (bf_nSrcPos s1)"
        using bf_copy_ok [OF s1(2) pos less.prems(2) s1(5)] s1(3,4) by (auto simp: bf_same_def)
      define s2 where "s2 = s1\<lparr>bf_nReadPos := bf_nReadPos s1 + n\<rparr>"
      have s2: "bf_ok lo s2" "unat (bf_nReadPos s2) = unat (bf_nReadPos s) + unat n" "bf_same s s2"
        using bf_advance [OF s1(2) n(4)] s1(3,4) by (simp_all add: s2_def bf_same_def)
      have sub: "unat (nSize - n) = unat nSize - unat n" using n(3) by (simp add: unat_sub)
      then have "unat (nSize - n) < unat nSize" "unat (nSize - n) < 2 ^ 62"
        using n(2,3) less.prems(2) by (auto simp: word_less_nat_alt word_le_nat_alt)
      note IH = less.hyps [OF this(1) s2(1) this(2), of "pch @ take (unat n) ?rest"]
      have step: "bf_read_loop nSize pch s = bf_read_loop (nSize - n) (pch @ take (unat n) ?rest) s2"
        using pos s1(1) n(1) by (subst bf_read_loop.simps) (simp add: s2_def)
      have le: "unat n \<le> unat nSize" using n(3) by (simp add: word_le_nat_alt)
      have cat: "take (unat n) ?rest @ take (unat nSize - unat n) (drop (unat n) ?rest) = take (unat nSize) ?rest"
        using le by (metis le_add_diff_inverse take_add)
      have "f_bytes (bf_src s2) = f_bytes (bf_src s)" using s2(3) by (simp add: bf_same_def)
      then show ?thesis using IH le cat s2(2,3) bf_same_trans
        by (auto simp: step sub add.commute [of _ "unat n"] drop_drop split: if_splits)
    next
      case b: False
      then obtain msg s1 where "bf_fill_when_empty s = (Inl (ios_failure msg), s1)" using fill by auto
      moreover have "0 < unat nSize" using pos by (simp add: word_less_nat_alt)
      ultimately show ?thesis using b pos by (subst bf_read_loop.simps) auto
    qed
  qed
qed

definition bf_content :: "CBufferedFile \<Rightarrow> data" where
  "bf_content s = drop (unat (bf_nReadPos s)) (take (unat (bf_nReadLimit s)) (f_bytes (bf_src s)))"

definition bf_may :: "CBufferedFile \<Rightarrow> nat \<Rightarrow> bool" where
  "bf_may s n \<longleftrightarrow> 0 < n \<and> n + unat (bf_nRewind s) \<le> length (bf_vchBuf s)"

definition bf_get :: "nat \<Rightarrow> CBufferedFile \<Rightarrow> data result \<times> CBufferedFile" where
  "bf_get n s = (case bf_read (of_nat n) s of None \<Rightarrow> (Inl Diverges, s) | Some r \<Rightarrow> r)"

lemma bf_read_ok:
  assumes "bf_ok lo s" "bf_may s n"
  shows "if n \<le> length (bf_content s)
    then \<exists>s'. bf_read (of_nat n) s = Some (Inr (take n (bf_content s)), s') \<and> bf_ok lo s' \<and> bf_same s s' \<and>
      unat (bf_nReadPos s') = unat (bf_nReadPos s) + n
    else \<exists>msg s'. bf_read (of_nat n) s = Some (Inl (ios_failure msg), s')"
proof -
  let ?rd = "unat (bf_nReadPos s)" and ?bytes = "f_bytes (bf_src s)" and ?lim = "unat (bf_nReadLimit s)"
  have ok: "length (bf_vchBuf s) < 2 ^ 32" "length ?bytes < 2 ^ 62" "?rd \<le> length ?bytes" "n + unat (bf_nRewind s) \<le> length (bf_vchBuf s)" "0 < n"
    using assms by (auto simp: bf_ok_def bf_may_def Let_def)
  have n: "unat (of_nat n :: u64) = n" using ok by (simp add: unat_of_nat)
  have size: "unat (bf_size s) = length (bf_vchBuf s)" using ok(1) by (simp add: unat_of_nat)
  have sum: "unat (of_nat n + bf_nReadPos s) = n + ?rd" "unat (of_nat n + bf_nRewind s) = n + unat (bf_nRewind s)"
    using ok n by (subst unat_add_lem [THEN iffD1]; simp)+
  have guard: "\<not> of_nat n + bf_nRewind s > bf_size s" using ok(4) by (simp add: word_less_nat_alt sum size)
  have limit: "of_nat n + bf_nReadPos s > bf_nReadLimit s \<longleftrightarrow> ?lim < n + ?rd" by (simp add: word_less_nat_alt sum)
  have len: "n \<le> length (bf_content s) \<longleftrightarrow> n + ?rd \<le> ?lim \<and> n + ?rd \<le> length ?bytes"
    using ok(5) unfolding bf_content_def length_drop length_take by linarith
  have "unat (of_nat n :: u64) < 2 ^ 62" using ok n by simp
  note loop = bf_read_loop_ok [OF assms(1) this, of "[]", unfolded n]
  show ?thesis
  proof (cases "?lim < n + ?rd")
    case True
    then show ?thesis using len limit by (auto simp: bf_read_def)
  next
    case False
    then have "bf_read (of_nat n) s = bf_read_loop (of_nat n) [] s" using guard limit by (simp add: bf_read_def)
    moreover have "take n (bf_content s) = take n (drop ?rd ?bytes)" using False
      by (simp add: bf_content_def drop_take min_def)
    ultimately show ?thesis using loop len False by (auto simp: add.commute split: if_splits)
  qed
qed

lemma bf_content_after:
  "bf_same s s' \<Longrightarrow> unat (bf_nReadPos s') = unat (bf_nReadPos s) + n \<Longrightarrow> bf_content s' = drop n (bf_content s)"
  by (simp add: bf_content_def bf_same_def add.commute)

interpretation bufferedfile: byte_source bf_content "bf_ok lo" bf_may bf_get for lo
proof unfold_locales
  fix s n
  assume a: "bf_ok lo s" "bf_may s n"
  show "\<exists>s'. bf_get n s = (Inr (take n (bf_content s)), s') \<and> bf_content s' = drop n (bf_content s) \<and> bf_ok lo s' \<and> bf_may s' = bf_may s"
    if le: "n \<le> length (bf_content s)"
  proof -
    obtain s' where s': "bf_read (of_nat n) s = Some (Inr (take n (bf_content s)), s')" "bf_ok lo s'" "bf_same s s'"
      "unat (bf_nReadPos s') = unat (bf_nReadPos s) + n" using bf_read_ok [OF a] le by auto
    have "bf_may s' = bf_may s" using s'(3) by (simp add: bf_same_def bf_may_def fun_eq_iff)
    then show ?thesis using s' bf_content_after [OF s'(3,4)] by (simp add: bf_get_def)
  qed
  show "\<exists>msg s'. bf_get n s = (Inl (ios_failure msg), s')" if "length (bf_content s) < n"
    using bf_read_ok [OF a] that by (auto simp: bf_get_def)
qed

lemma bf_SetPos_ok:
  assumes "bf_ok lo s" "unat nPos + unat (bf_nRewind s) < 2 ^ 64" "bf_SetPos nPos s = (b, s')" "lo \<le> unat (bf_nReadPos s')"
  shows "bf_ok lo s' \<and> bf_same s s'"
proof -
  have "unat (nPos + bf_nRewind s) = unat nPos + unat (bf_nRewind s)" using assms(2) by (subst unat_add_lem [THEN iffD1]) simp_all
  moreover have "unat (bf_nSrcPos s - bf_nRewind s) = unat (bf_nSrcPos s) - unat (bf_nRewind s)"
    if "unat (nPos + bf_nRewind s) < unat (bf_nSrcPos s)"
    using that calculation by (simp add: unat_sub word_le_nat_alt)
  ultimately show ?thesis using assms(1,3,4)
    by (auto simp: bf_SetPos_def bf_ok_def bf_same_def Let_def word_less_nat_alt split: if_splits)
qed

definition bf_skipped :: "byte \<Rightarrow> CBufferedFile \<Rightarrow> data" where
  "bf_skipped ch s = takeWhile (\<lambda>b. b \<noteq> ch) (drop (unat (bf_nReadPos s)) (f_bytes (bf_src s)))"

text \<open>The search for a byte ends at its first occurrence, or at the end of the file with an exception.\<close>

lemma bf_FindByte_ok:
  assumes "bf_ok lo s"
  shows "if unat (bf_nReadPos s) + length (bf_skipped ch s) < length (f_bytes (bf_src s))
    then \<exists>s'. bf_FindByte ch s = Some (Inr (), s') \<and> bf_ok lo s' \<and> bf_same s s' \<and>
      unat (bf_nReadPos s') = unat (bf_nReadPos s) + length (bf_skipped ch s)
    else \<exists>msg s'. bf_FindByte ch s = Some (Inl (ios_failure msg), s')"
  using assms(1)
proof (induction "length (f_bytes (bf_src s)) - unat (bf_nReadPos s)" arbitrary: s rule: less_induct)
  case less
  let ?bytes = "f_bytes (bf_src s)" and ?rd = "unat (bf_nReadPos s)"
  note fill = bf_fill_when_empty_ok [OF less.prems]
  show ?case
  proof (cases "?rd < length ?bytes")
    case True
    then obtain s1 where s1: "bf_fill_when_empty s = (Inr (), s1)" "bf_ok lo s1" "bf_same s s1" "bf_nReadPos s1 = bf_nReadPos s"
      "bf_nReadPos s1 < bf_nSrcPos s1" using fill by auto
    have size: "unat (bf_size s1) = length (bf_vchBuf s1)" "bf_vchBuf s1 \<noteq> []"
      using s1(2) by (auto simp: bf_ok_def Let_def unat_of_nat)
    have "bf_vchBuf s1 ! (?rd mod length (bf_vchBuf s1)) = ?bytes ! ?rd"
      using s1 by (auto simp: bf_ok_def bf_same_def Let_def word_less_nat_alt)
    then have at: "bf_vchBuf s1 ! unat (bf_nReadPos s1 mod bf_size s1) = ?bytes ! ?rd" using s1(4) by (simp add: unat_mod size)
    have drop: "drop ?rd ?bytes = ?bytes ! ?rd # drop (Suc ?rd) ?bytes" by (simp add: Cons_nth_drop_Suc True)
    show ?thesis
    proof (cases "?bytes ! ?rd = ch")
      case True
      then show ?thesis using s1 at size(2) \<open>?rd < length ?bytes\<close> drop
        by (subst bf_FindByte.simps) (simp add: bf_skipped_def)
    next
      case False
      define s2 where "s2 = s1\<lparr>bf_nReadPos := bf_nReadPos s1 + 1\<rparr>"
      have s2: "bf_ok lo s2" "unat (bf_nReadPos s2) = Suc ?rd" "bf_same s s2"
        using bf_advance [OF s1(2), of 1] s1(3-5) by (simp_all add: s2_def bf_same_def word_less_nat_alt)
      then have b: "f_bytes (bf_src s2) = ?bytes" by (simp add: bf_same_def)
      have "bf_FindByte ch s = bf_FindByte ch s2" using s1(1) at size(2) False by (subst bf_FindByte.simps) (simp add: s2_def)
      moreover have "bf_skipped ch s = ?bytes ! ?rd # bf_skipped ch s2" using drop False by (simp add: bf_skipped_def b s2(2))
      moreover have "length (f_bytes (bf_src s2)) - unat (bf_nReadPos s2) < length ?bytes - ?rd" using True by (simp add: b s2(2))
      note less.hyps [OF this s2(1)]
      ultimately show ?thesis using s2(2,3) bf_same_trans [OF s2(3)] by (auto simp: b split: if_splits)
    qed
  next
    case False
    then obtain msg s1 where "bf_fill_when_empty s = (Inl (ios_failure msg), s1)" using fill by auto
    with False show ?thesis by (subst bf_FindByte.simps) auto
  qed
qed

text \<open>The states a program reaches that reads, steps back, sets limits and searches.\<close>

inductive bf_reach :: "FILE \<Rightarrow> u64 \<Rightarrow> u64 \<Rightarrow> CBufferedFile \<Rightarrow> bool" for f nBufSize nRewind where
  new: "bf_reach f nBufSize nRewind (bf_new f nBufSize nRewind nType nVersion)"
| read: "bf_reach f nBufSize nRewind s \<Longrightarrow> bf_read (of_nat n) s = Some (Inr bs, s') \<Longrightarrow> n < 2 ^ 32 \<Longrightarrow>
    bf_reach f nBufSize nRewind s'"
| setpos: "bf_reach f nBufSize nRewind s \<Longrightarrow> unat nPos + unat nRewind < 2 ^ 64 \<Longrightarrow> bf_reach f nBufSize nRewind (snd (bf_SetPos nPos s))"
| limit: "bf_reach f nBufSize nRewind s \<Longrightarrow> bf_reach f nBufSize nRewind (snd (bf_SetLimit nPos s))"
| find: "bf_reach f nBufSize nRewind s \<Longrightarrow> bf_FindByte ch s = Some (Inr (), s') \<Longrightarrow> bf_reach f nBufSize nRewind s'"

lemma bf_reach_ok:
  assumes "bf_reach f nBufSize nRewind s" "nRewind < nBufSize" "unat nBufSize < 2 ^ 32" "length (f_bytes f) < 2 ^ 62" "f_pos f = 0"
  shows "bf_ok 0 s \<and> f_bytes (bf_src s) = f_bytes f \<and> bf_nRewind s = nRewind \<and> length (bf_vchBuf s) = unat nBufSize"
  using assms(1)
proof induction
  case (new nType nVersion)
  then show ?case using assms by (simp add: bf_ok_def bf_new_def Let_def word_less_nat_alt)
next
  case (read s n bs s')
  show ?case
  proof (cases "bf_may s n")
    case True
    then show ?thesis using bf_read_ok [of 0 s n] read by (auto simp: bf_same_def split: if_splits)
  next
    case False
    have n: "unat (of_nat n :: u64) = n" using read.hyps by (simp add: unat_of_nat)
    have "unat (of_nat n + bf_nRewind s) = n + unat (bf_nRewind s)"
      using read assms(2,3) n by (subst unat_add_lem [THEN iffD1]) (simp_all add: word_less_nat_alt)
    moreover have "unat (bf_size s) = length (bf_vchBuf s)" using read assms(3) by (simp add: unat_of_nat)
    ultimately have "n = 0" using False read.hyps(2)
      by (auto simp: bf_read_def bf_may_def word_less_nat_alt split: if_splits)
    then have "s' = s" using read.hyps(2) by (auto simp: bf_read_def bf_read_loop.simps split: if_splits)
    then show ?thesis using read by simp
  qed
next
  case (setpos s nPos)
  obtain b s' where "bf_SetPos nPos s = (b, s')" by force
  then show ?case using setpos bf_SetPos_ok [of 0 s nPos b s'] by (simp add: bf_same_def)
next
  case (limit s nPos)
  have "bf_ok 0 (snd (bf_SetLimit nPos s)) = bf_ok 0 s" by (simp add: bf_SetLimit_def bf_ok_def)
  then show ?case using limit by (simp add: bf_SetLimit_def)
next
  case (find s ch s')
  then show ?case using bf_FindByte_ok [of 0 s ch] by (auto simp: bf_same_def split: if_splits)
qed

declare bf_read_loop.simps [code]

definition sample_file :: FILE where
  "sample_file = \<lparr>f_bytes = [0, 1, 2, 3, 4, 5, 6, 7, 8, 9, 10, 11, 12, 13, 14, 15, 16, 17, 18, 19],
     f_pos = 0, f_eof = False, f_broken = False, f_room = 0\<rparr>"

section \<open>Properties\<close>

text \<open>C18: a data stream is a queue of bytes: whatever is written, read, skipped, put back at the front, erased or
  compacted, it gives the results of a plain list of bytes and throws where the list is too short, without
  losing its contents. Its buffer must stay below \<open>2 ^ 31\<close> bytes.\<close>

theorem datastream_is_queue:
  assumes "ds_ok s" "length (ds_vch s) + sum_list (map op_growth cs) < 2 ^ 31" "ops_valid cs (ds_str s)"
  shows "fst (run_ops ds_do cs s) = fst (run_ops queue_do cs (ds_str s)) \<and>
    ds_str (snd (run_ops ds_do cs s)) = snd (run_ops queue_do cs (ds_str s)) \<and> ds_ok (snd (run_ops ds_do cs s))"
  using assms
proof (induction cs arbitrary: s)
  case (Cons c cs)
  obtain s1 where s1: "ds_do c s = (fst (queue_do c (ds_str s)), s1)" "ds_str s1 = snd (queue_do c (ds_str s))" "ds_ok s1"
    "length (ds_vch s1) \<le> length (ds_vch s) + op_growth c"
    using ds_do_queue [OF Cons.prems(1), of c] Cons.prems(2,3) by auto
  have "length (ds_vch s1) + sum_list (map op_growth cs) < 2 ^ 31" using s1(4) Cons.prems(2) by simp
  moreover have "ops_valid cs (ds_str s1)" using Cons.prems(3) s1(2) by simp
  ultimately show ?case using Cons.IH [OF s1(3)] s1(1,2) by (simp add: Let_def split_beta)
qed simp

theorem datastream_is_queue_witness:
  "fst (run_ops ds_do [SWrite [1, 2, 3], SRead 2, SPushFront [9, 8], SRead 4, SRead 2] (ds_Init 1 70002 [])) =
    [Inr [], Inr [1, 2], Inr [], Inl (ios_failure ''CDataStream::read() : end of data''), Inr [9, 8]]"
  using datastream_is_queue [of "ds_Init 1 70002 []" "[SWrite [1, 2, 3], SRead 2, SPushFront [9, 8], SRead 4, SRead 2]"]
  by (simp add: ds_ok_def ds_Init_def ds_str_def)


text \<open>C19: a buffered file reads the bytes of its file: in every state that reading, stepping back, limits and searches
  lead to, a read of up to the size of the buffer less the bytes kept for stepping back returns, and gives the next bytes of the file
  when the file and the limit allow it, an exception otherwise; a search ends at the next occurrence of its byte.\<close>

theorem buffered_file_reads:
  assumes "bf_reach f nBufSize nRewind s" "nRewind < nBufSize" "unat nBufSize < 2 ^ 32" "length (f_bytes f) < 2 ^ 62" "f_pos f = 0"
    and "0 < n" "n + unat nRewind \<le> unat nBufSize"
  defines "rd \<equiv> unat (bf_nReadPos s)"
  shows "(if rd + n \<le> length (f_bytes f) \<and> rd + n \<le> unat (bf_nReadLimit s)
     then \<exists>s'. bf_read (of_nat n) s = Some (Inr (take n (drop rd (f_bytes f))), s') \<and> unat (bf_nReadPos s') = rd + n
     else \<exists>msg s'. bf_read (of_nat n) s = Some (Inl (ios_failure msg), s')) \<and>
   (let skipped = takeWhile (\<lambda>b. b \<noteq> ch) (drop rd (f_bytes f))
    in if rd + length skipped < length (f_bytes f)
       then \<exists>s'. bf_FindByte ch s = Some (Inr (), s') \<and> unat (bf_nReadPos s') = rd + length skipped
       else \<exists>msg s'. bf_FindByte ch s = Some (Inl (ios_failure msg), s'))"
proof -
  note r = bf_reach_ok [OF assms(1-5)]
  have may: "bf_may s n" using r assms(6,7) by (simp add: bf_may_def)
  have len: "n \<le> length (bf_content s) \<longleftrightarrow> rd + n \<le> length (f_bytes f) \<and> rd + n \<le> unat (bf_nReadLimit s)"
    using r assms(6) unfolding bf_content_def length_drop length_take rd_def by auto
  have "take n (bf_content s) = take n (drop rd (f_bytes f))" if "n \<le> length (bf_content s)"
  proof -
    have "n \<le> unat (bf_nReadLimit s) - rd" using that len by linarith
    then show ?thesis using r unfolding rd_def by (simp add: bf_content_def drop_take min_absorb1)
  qed
  then show ?thesis using bf_read_ok [OF conjunct1 [OF r] may] bf_FindByte_ok [OF conjunct1 [OF r], of ch] len r
    by (auto simp: Let_def rd_def bf_skipped_def split: if_splits)
qed

theorem buffered_file_reads_witness:
  "\<exists>s'. bf_read (of_nat 3) (bf_new sample_file 10 2 0 0) = Some (Inr [0, 1, 2], s')"
proof -
  have p: "(2 :: u64) < 10" "unat (10 :: u64) < 2 ^ 32" "length (f_bytes sample_file) < 2 ^ 62" "f_pos sample_file = 0"
    "0 < (3 :: nat)" "3 + unat (2 :: u64) \<le> unat (10 :: u64)" by (simp_all add: sample_file_def)
  have f: "bf_nReadPos (bf_new sample_file 10 2 0 0) = 0" "bf_nReadLimit (bf_new sample_file 10 2 0 0) = - 1"
    by (simp_all add: bf_new_def)
  have l: "length (f_bytes sample_file) = 20" "take 3 (f_bytes sample_file) = [0, 1, 2]" by (simp_all add: sample_file_def)
  have "unat (3 :: u64) \<le> unat (- 1 :: u64)" using word_n1_ge [of "3 :: u64"] by (simp only: word_le_nat_alt)
  then show ?thesis using conjunct1 [OF buffered_file_reads [OF bf_reach.new p, of 0 0], unfolded f] l by auto
qed

text \<open>Stepping back is not reliable. In a file of twenty bytes, read through a buffer of ten of which two are kept
  for stepping back, three bytes are read; stepping back by one byte, which the buffer still holds, is refused, and the
  position moves forward to the sixth byte instead, because the file has been read ahead. After \<open>Seek\<close> stepping
  back is accepted, but the buffer does not hold the bytes of the file there.\<close>

theorem rewind_unreliable:
  "(\<exists>s. bf_reach sample_file 10 2 s \<and> bf_nReadPos s = 3 \<and> fst (bf_SetPos 2 s) = False \<and> bf_nReadPos (snd (bf_SetPos 2 s)) = 6) \<and>
   (\<exists>s. snd (bf_Seek 8 (bf_new sample_file 10 2 0 0)) = s \<and> fst (bf_SetPos 7 s) = True \<and>
      map_option fst (bf_read 1 (snd (bf_SetPos 7 s))) = Some (Inr [0]) \<and> f_bytes sample_file ! 7 = 7)"
proof -
  have "map_option (\<lambda>(r, s). (r, bf_nReadPos s, bf_nSrcPos s, bf_nRewind s)) (bf_read 3 (bf_new sample_file 10 2 0 0)) =
      Some (Inr [0, 1, 2], 3, 8, 2)" by code_simp
  then obtain s where s: "bf_read (of_nat 3) (bf_new sample_file 10 2 0 0) = Some (Inr [0, 1, 2], s)"
    "bf_nReadPos s = 3" "bf_nSrcPos s = 8" "bf_nRewind s = 2" by (auto simp: option.map_sel)
  have "bf_reach sample_file 10 2 s" by (rule bf_reach.read [OF bf_reach.new s(1)]) simp
  moreover have "bf_SetPos 2 s = (False, s\<lparr>bf_nReadPos := 6\<rparr>)" using s by (simp add: bf_SetPos_def Let_def)
  ultimately have "\<exists>s. bf_reach sample_file 10 2 s \<and> bf_nReadPos s = 3 \<and> fst (bf_SetPos 2 s) = False \<and> bf_nReadPos (snd (bf_SetPos 2 s)) = 6"
    using s(2) by (intro exI [of _ s]) simp
  moreover have "\<exists>s. snd (bf_Seek 8 (bf_new sample_file 10 2 0 0)) = s \<and> fst (bf_SetPos 7 s) = True \<and>
      map_option fst (bf_read 1 (snd (bf_SetPos 7 s))) = Some (Inr [0]) \<and> f_bytes sample_file ! 7 = 7"
    by (rule exI, rule conjI, rule refl) code_simp
  ultimately show ?thesis by (rule conjI)
qed

end
