(* ===== verification/Containers.thy ===== *)
theory Containers
  imports Transactions
begin

text \<open>
  Strings, tuples, maps and sets in \<open>src/src/lib/core/serialize.h\<close>. A \<open>std::map\<close> or \<open>std::set\<close> is the
  list of its elements in the order of its keys, which is a parameter.
\<close>

section \<open>Strings\<close>

definition GetSerializeSize_string :: "data \<Rightarrow> u32" where
  "GetSerializeSize_string str = GetSizeOfCompactSize (of_nat (length str)) + of_nat (length str) * 1"

definition Serialize_string :: "data \<Rightarrow> data" where
  "Serialize_string str = WriteCompactSize (of_nat (length str)) @ (if str \<noteq> [] then str else [])"

definition Unserialize_string :: "data reader" where
  "Unserialize_string s =
     rbind (ReadCompactSize s) (\<lambda>(n, s).
       let nSize = ucast n :: u32
       in if nSize \<noteq> 0 then read_bytes (unat nSize) s else Inr ([], s))"

section \<open>Tuples\<close>

definition GetSerializeSize_tuple3 :: "('a \<Rightarrow> u32) \<Rightarrow> ('b \<Rightarrow> u32) \<Rightarrow> ('c \<Rightarrow> u32) \<Rightarrow> 'a \<times> 'b \<times> 'c \<Rightarrow> u32" where
  "GetSerializeSize_tuple3 sz0 sz1 sz2 item =
     (let (a, b, c) = item; nSize = 0; nSize = nSize + sz0 a; nSize = nSize + sz1 b; nSize = nSize + sz2 c in nSize)"

definition Serialize_tuple3 :: "('a \<Rightarrow> data) \<Rightarrow> ('b \<Rightarrow> data) \<Rightarrow> ('c \<Rightarrow> data) \<Rightarrow> 'a \<times> 'b \<times> 'c \<Rightarrow> data" where
  "Serialize_tuple3 ser0 ser1 ser2 item = (let (a, b, c) = item in ser0 a @ ser1 b @ ser2 c)"

definition Unserialize_tuple3 :: "'a reader \<Rightarrow> 'b reader \<Rightarrow> 'c reader \<Rightarrow> ('a \<times> 'b \<times> 'c) reader" where
  "Unserialize_tuple3 unser0 unser1 unser2 s =
     rbind (unser0 s) (\<lambda>(a, s). rbind (unser1 s) (\<lambda>(b, s). rbind (unser2 s) (\<lambda>(c, s). Inr ((a, b, c), s))))"

definition GetSerializeSize_tuple4 ::
  "('a \<Rightarrow> u32) \<Rightarrow> ('b \<Rightarrow> u32) \<Rightarrow> ('c \<Rightarrow> u32) \<Rightarrow> ('d \<Rightarrow> u32) \<Rightarrow> 'a \<times> 'b \<times> 'c \<times> 'd \<Rightarrow> u32" where
  "GetSerializeSize_tuple4 sz0 sz1 sz2 sz3 item =
     (let (a, b, c, d) = item; nSize = 0; nSize = nSize + sz0 a; nSize = nSize + sz1 b; nSize = nSize + sz2 c;
          nSize = nSize + sz3 d
      in nSize)"

definition Serialize_tuple4 ::
  "('a \<Rightarrow> data) \<Rightarrow> ('b \<Rightarrow> data) \<Rightarrow> ('c \<Rightarrow> data) \<Rightarrow> ('d \<Rightarrow> data) \<Rightarrow> 'a \<times> 'b \<times> 'c \<times> 'd \<Rightarrow> data" where
  "Serialize_tuple4 ser0 ser1 ser2 ser3 item = (let (a, b, c, d) = item in ser0 a @ ser1 b @ ser2 c @ ser3 d)"

definition Unserialize_tuple4 ::
  "'a reader \<Rightarrow> 'b reader \<Rightarrow> 'c reader \<Rightarrow> 'd reader \<Rightarrow> ('a \<times> 'b \<times> 'c \<times> 'd) reader" where
  "Unserialize_tuple4 unser0 unser1 unser2 unser3 s =
     rbind (unser0 s) (\<lambda>(a, s). rbind (unser1 s) (\<lambda>(b, s). rbind (unser2 s) (\<lambda>(c, s).
       rbind (unser3 s) (\<lambda>(d, s). Inr ((a, b, c, d), s)))))"

section \<open>Maps and sets\<close>

text \<open>\<open>insert\<close> keeps an element with an equivalent key; \<open>key\<close> gives the key of an element.\<close>

fun tree_insert :: "('k \<Rightarrow> 'k \<Rightarrow> bool) \<Rightarrow> ('e \<Rightarrow> 'k) \<Rightarrow> 'e \<Rightarrow> 'e list \<Rightarrow> 'e list" where
  "tree_insert lt key x [] = [x]"
| "tree_insert lt key x (y # ys) =
     (if lt (key x) (key y) then x # y # ys
      else if lt (key y) (key x) then y # tree_insert lt key x ys
      else y # ys)"

fun Unserialize_tree :: "('k \<Rightarrow> 'k \<Rightarrow> bool) \<Rightarrow> ('e \<Rightarrow> 'k) \<Rightarrow> 'e reader \<Rightarrow> nat \<Rightarrow> 'e list \<Rightarrow> 'e list reader" where
  "Unserialize_tree lt key unser 0 m s = Inr (m, s)"
| "Unserialize_tree lt key unser (Suc n) m s =
     rbind (unser s) (\<lambda>(item, s). Unserialize_tree lt key unser n (tree_insert lt key item m) s)"

definition GetSerializeSize_map :: "('k \<Rightarrow> u32) \<Rightarrow> ('v \<Rightarrow> u32) \<Rightarrow> ('k \<times> 'v) list \<Rightarrow> u32" where
  "GetSerializeSize_map szk szv m =
     fold (\<lambda>mi nSize. nSize + GetSerializeSize_pair szk szv mi) m (GetSizeOfCompactSize (of_nat (length m)))"

definition Serialize_map :: "('k \<Rightarrow> data) \<Rightarrow> ('v \<Rightarrow> data) \<Rightarrow> ('k \<times> 'v) list \<Rightarrow> data" where
  "Serialize_map serk serv m = WriteCompactSize (of_nat (length m)) @ concat (map (Serialize_pair serk serv) m)"

definition Unserialize_map :: "('k \<Rightarrow> 'k \<Rightarrow> bool) \<Rightarrow> 'k reader \<Rightarrow> 'v reader \<Rightarrow> ('k \<times> 'v) list reader" where
  "Unserialize_map lt unserk unserv s =
     rbind (ReadCompactSize s) (\<lambda>(n, s).
       Unserialize_tree lt fst (Unserialize_pair unserk unserv) (unat (ucast n :: u32)) [] s)"

definition GetSerializeSize_set :: "('k \<Rightarrow> u32) \<Rightarrow> 'k list \<Rightarrow> u32" where
  "GetSerializeSize_set sz m = fold (\<lambda>it nSize. nSize + sz it) m (GetSizeOfCompactSize (of_nat (length m)))"

definition Serialize_set :: "('k \<Rightarrow> data) \<Rightarrow> 'k list \<Rightarrow> data" where
  "Serialize_set ser m = WriteCompactSize (of_nat (length m)) @ concat (map ser m)"

definition Unserialize_set :: "('k \<Rightarrow> 'k \<Rightarrow> bool) \<Rightarrow> 'k reader \<Rightarrow> 'k list reader" where
  "Unserialize_set lt unser s =
     rbind (ReadCompactSize s) (\<lambda>(n, s). Unserialize_tree lt (\<lambda>k. k) unser (unat (ucast n :: u32)) [] s)"

section \<open>What is written is read back\<close>

lemma small_size:
  "n \<le> MAX_SIZE \<Longrightarrow> unat (of_nat n :: u64) = n" "n \<le> MAX_SIZE \<Longrightarrow> unat (ucast (of_nat n :: u64) :: u32) = n"
  by (simp_all add: MAX_SIZE_def unat_of_nat unsigned_ucast_eq take_bit_nat_eq_self)

lemma Unserialize_string_Serialize: "length v \<le> MAX_SIZE \<Longrightarrow> Unserialize_string (Serialize_string v @ s) = Inr (v, s)"
  using small_size [of "length v"]
  by (auto simp: Unserialize_string_def Serialize_string_def ReadCompactSize_Write Let_def word_unat_eq_iff)

interpretation ser_string: serializer Serialize_string Unserialize_string GetSerializeSize_string "\<lambda>v. length v \<le> MAX_SIZE"
  by unfold_locales
    (simp_all add: Unserialize_string_Serialize, simp add: Serialize_string_def GetSerializeSize_string_def length_WriteCompactSize)

text \<open>An element with a key above all others goes to the end.\<close>

lemma tree_insert_end:
  "\<forall>y \<in> set m. lt (key y) (key x) \<and> \<not> lt (key x) (key y) \<Longrightarrow> tree_insert lt key x m = m @ [x]"
  by (induction m) auto

definition strictly_sorted :: "('k \<Rightarrow> 'k \<Rightarrow> bool) \<Rightarrow> 'k list \<Rightarrow> bool" where
  "strictly_sorted lt ks \<longleftrightarrow> sorted_wrt (\<lambda>a b. lt a b \<and> \<not> lt b a) ks"

context serializer
begin

lemma tree_unser:
  "list_all ok m \<Longrightarrow> strictly_sorted lt (map key (m0 @ m)) \<Longrightarrow>
    Unserialize_tree lt key unser (length m) m0 (concat (map ser m) @ s) = Inr (m0 @ m, s)"
proof (induction m arbitrary: m0)
  case (Cons x m)
  have "tree_insert lt key x m0 = m0 @ [x]"
    using Cons.prems(2) by (intro tree_insert_end) (auto simp: strictly_sorted_def sorted_wrt_append)
  moreover have "strictly_sorted lt (map key ((m0 @ [x]) @ m))" using Cons.prems(2) by simp
  ultimately show ?case using Cons.IH [of "m0 @ [x]"] Cons.prems(1) by (simp add: unser_ser)
qed simp

lemma set_unser:
  "list_all ok m \<Longrightarrow> length m \<le> MAX_SIZE \<Longrightarrow> strictly_sorted lt m \<Longrightarrow>
    Unserialize_set lt unser (Serialize_set ser m @ s) = Inr (m, s)"
  using tree_unser [of m lt "\<lambda>k. k" "[]" s] small_size [of "length m"]
  by (simp add: Unserialize_set_def Serialize_set_def ReadCompactSize_Write)

end

context serializer_pair
begin

lemma map_unser:
  "list_all (\<lambda>p. ok1 (fst p) \<and> ok2 (snd p)) m \<Longrightarrow> length m \<le> MAX_SIZE \<Longrightarrow> strictly_sorted lt (map fst m) \<Longrightarrow>
    Unserialize_map lt unser1 unser2 (Serialize_map ser1 ser2 m @ s) = Inr (m, s)"
  using pair.tree_unser [of m lt fst "[]" s] small_size [of "length m"]
  by (simp add: Unserialize_map_def Serialize_map_def ReadCompactSize_Write)

end

text \<open>Coins by outpoint, as a map that is serialized.\<close>

interpretation coin: serializer_pair op_Serialize op_Unserialize op_GetSerializeSize op_ok
  txout_Serialize txout_Unserialize txout_GetSerializeSize txout_ok
  by unfold_locales

section \<open>Properties\<close>

text \<open>The variable-length encoding is not unique: zero is read from one byte and from ten, because the
  reader works modulo \<open>2 ^ 64\<close> and does not limit the number of bytes.\<close>

theorem varint_not_unique:
  "ReadVarInt [0] = Inr (0, []) \<and> ReadVarInt [0x80, 0xFE, 0xFE, 0xFE, 0xFE, 0xFE, 0xFE, 0xFE, 0xFF, 0] = Inr (0, [])"
  by code_simp

end
