(* ===== verification/Base64.thy ===== *)
theory Base64
  imports Util
begin

text \<open>
  Base 64 and base 32 in \<open>src/src/lib/core/util.cpp\<close>. The loops are automata that carry the bits left over from
  the last byte or character in \<open>left\<close>. A C string is read up to the character that the table refuses; the
  terminating zero is refused.
\<close>

section \<open>Base 64\<close>

definition pbase64 :: string where
  "pbase64 = ''ABCDEFGHIJKLMNOPQRSTUVWXYZabcdefghijklmnopqrstuvwxyz0123456789+/''"

fun EncodeBase64_loop :: "string \<Rightarrow> nat \<Rightarrow> int \<Rightarrow> data \<Rightarrow> string \<times> nat \<times> int" where
  "EncodeBase64_loop strRet mode left [] = (strRet, mode, left)"
| "EncodeBase64_loop strRet mode left (b # pch) =
     (let enc = uint b in
      if mode = 0 then
        EncodeBase64_loop (strRet @ [pbase64 ! nat (drop_bit 2 enc)]) 1 (push_bit 4 (enc AND 3)) pch
      else if mode = 1 then
        EncodeBase64_loop (strRet @ [pbase64 ! nat (left OR drop_bit 4 enc)]) 2 (push_bit 2 (enc AND 15)) pch
      else
        EncodeBase64_loop (strRet @ [pbase64 ! nat (left OR drop_bit 6 enc), pbase64 ! nat (enc AND 63)]) 0 left pch)"

definition EncodeBase64 :: "data \<Rightarrow> string" where
  "EncodeBase64 pch =
     (let (strRet, mode, left) = EncodeBase64_loop [] 0 0 pch
      in if mode \<noteq> 0 then strRet @ [pbase64 ! nat left] @ ''='' @ (if mode = 1 then ''='' else [])
         else strRet)"

definition decode64_table :: "int list" where
  "decode64_table =
     [
      - 1, - 1, - 1, - 1, - 1, - 1, - 1, - 1, - 1, - 1, - 1, - 1, - 1, - 1, - 1, - 1, - 1, - 1, - 1, - 1,
      - 1, - 1, - 1, - 1, - 1, - 1, - 1, - 1, - 1, - 1, - 1, - 1, - 1, - 1, - 1, - 1, - 1, - 1, - 1, - 1,
      - 1, - 1, - 1, 62, - 1, - 1, - 1, 63, 52, 53, 54, 55, 56, 57, 58, 59, 60, 61, - 1, - 1,
      - 1, - 1, - 1, - 1, - 1, 0, 1, 2, 3, 4, 5, 6, 7, 8, 9, 10, 11, 12, 13, 14,
      15, 16, 17, 18, 19, 20, 21, 22, 23, 24, 25, - 1, - 1, - 1, - 1, - 1, - 1, 26, 27, 28,
      29, 30, 31, 32, 33, 34, 35, 36, 37, 38, 39, 40, 41, 42, 43, 44, 45, 46, 47, 48,
      49, 50, 51, - 1, - 1, - 1, - 1, - 1, - 1, - 1, - 1, - 1, - 1, - 1, - 1, - 1, - 1, - 1, - 1, - 1,
      - 1, - 1, - 1, - 1, - 1, - 1, - 1, - 1, - 1, - 1, - 1, - 1, - 1, - 1, - 1, - 1, - 1, - 1, - 1, - 1,
      - 1, - 1, - 1, - 1, - 1, - 1, - 1, - 1, - 1, - 1, - 1, - 1, - 1, - 1, - 1, - 1, - 1, - 1, - 1, - 1,
      - 1, - 1, - 1, - 1, - 1, - 1, - 1, - 1, - 1, - 1, - 1, - 1, - 1, - 1, - 1, - 1, - 1, - 1, - 1, - 1,
      - 1, - 1, - 1, - 1, - 1, - 1, - 1, - 1, - 1, - 1, - 1, - 1, - 1, - 1, - 1, - 1, - 1, - 1, - 1, - 1,
      - 1, - 1, - 1, - 1, - 1, - 1, - 1, - 1, - 1, - 1, - 1, - 1, - 1, - 1, - 1, - 1, - 1, - 1, - 1, - 1,
      - 1, - 1, - 1, - 1, - 1, - 1, - 1, - 1, - 1, - 1, - 1, - 1, - 1, - 1, - 1, - 1]"

text \<open>\<open>p[i]\<close>, with the zero that ends the string.\<close>

definition cstr_at :: "string \<Rightarrow> nat \<Rightarrow> char" where
  "cstr_at p i = (if i < length p then p ! i else CHR 0x00)"

definition decode64 :: "char \<Rightarrow> int" where
  "decode64 c = decode64_table ! of_char c"

fun DecodeBase64_loop :: "data \<Rightarrow> nat \<Rightarrow> int \<Rightarrow> string \<Rightarrow> data \<times> nat \<times> int \<times> string" where
  "DecodeBase64_loop vchRet mode left [] = (vchRet, mode, left, [])"
| "DecodeBase64_loop vchRet mode left (c # p) =
     (let dec = decode64 c in
      if dec = - 1 then (vchRet, mode, left, c # p)
      else if mode = 0 then DecodeBase64_loop vchRet 1 dec p
      else if mode = 1 then DecodeBase64_loop (vchRet @ [of_int (push_bit 2 left OR drop_bit 4 dec)]) 2 (dec AND 15) p
      else if mode = 2 then DecodeBase64_loop (vchRet @ [of_int (push_bit 4 left OR drop_bit 2 dec)]) 3 (dec AND 3) p
      else DecodeBase64_loop (vchRet @ [of_int (push_bit 6 left OR dec)]) 0 left p)"

text \<open>The bytes, and what is stored in \<open>pfInvalid\<close>.\<close>

definition DecodeBase64 :: "string \<Rightarrow> data \<times> bool" where
  "DecodeBase64 p =
     (let (vchRet, mode, left, p) = DecodeBase64_loop [] 0 0 p
      in (vchRet,
          if mode = 0 then False
          else if mode = 1 then True
          else if mode = 2 then
            left \<noteq> 0 \<or> cstr_at p 0 \<noteq> CHR ''='' \<or> cstr_at p 1 \<noteq> CHR ''='' \<or> decode64 (cstr_at p 2) \<noteq> - 1
          else left \<noteq> 0 \<or> cstr_at p 0 \<noteq> CHR ''='' \<or> decode64 (cstr_at p 1) \<noteq> - 1))"

section \<open>Base 32\<close>

definition pbase32 :: string where
  "pbase32 = ''abcdefghijklmnopqrstuvwxyz234567''"

fun EncodeBase32_loop :: "string \<Rightarrow> nat \<Rightarrow> int \<Rightarrow> data \<Rightarrow> string \<times> nat \<times> int" where
  "EncodeBase32_loop strRet mode left [] = (strRet, mode, left)"
| "EncodeBase32_loop strRet mode left (b # pch) =
     (let enc = uint b in
      if mode = 0 then
        EncodeBase32_loop (strRet @ [pbase32 ! nat (drop_bit 3 enc)]) 1 (push_bit 2 (enc AND 7)) pch
      else if mode = 1 then
        EncodeBase32_loop (strRet @ [pbase32 ! nat (left OR drop_bit 6 enc), pbase32 ! nat (drop_bit 1 enc AND 31)])
          2 (push_bit 4 (enc AND 1)) pch
      else if mode = 2 then
        EncodeBase32_loop (strRet @ [pbase32 ! nat (left OR drop_bit 4 enc)]) 3 (push_bit 1 (enc AND 15)) pch
      else if mode = 3 then
        EncodeBase32_loop (strRet @ [pbase32 ! nat (left OR drop_bit 7 enc), pbase32 ! nat (drop_bit 2 enc AND 31)])
          4 (push_bit 3 (enc AND 3)) pch
      else
        EncodeBase32_loop (strRet @ [pbase32 ! nat (left OR drop_bit 5 enc), pbase32 ! nat (enc AND 31)]) 0 left pch)"

definition nPadding :: "nat list" where
  "nPadding = [0, 6, 4, 3, 1]"

definition EncodeBase32 :: "data \<Rightarrow> string" where
  "EncodeBase32 pch =
     (let (strRet, mode, left) = EncodeBase32_loop [] 0 0 pch
      in if mode \<noteq> 0 then strRet @ [pbase32 ! nat left] @ replicate (nPadding ! mode) CHR ''=''
         else strRet)"

definition decode32_table :: "int list" where
  "decode32_table =
     [
      - 1, - 1, - 1, - 1, - 1, - 1, - 1, - 1, - 1, - 1, - 1, - 1, - 1, - 1, - 1, - 1, - 1, - 1, - 1, - 1,
      - 1, - 1, - 1, - 1, - 1, - 1, - 1, - 1, - 1, - 1, - 1, - 1, - 1, - 1, - 1, - 1, - 1, - 1, - 1, - 1,
      - 1, - 1, - 1, - 1, - 1, - 1, - 1, - 1, - 1, - 1, 26, 27, 28, 29, 30, 31, - 1, - 1, - 1, - 1,
      - 1, - 1, - 1, - 1, - 1, 0, 1, 2, 3, 4, 5, 6, 7, 8, 9, 10, 11, 12, 13, 14,
      15, 16, 17, 18, 19, 20, 21, 22, 23, 24, 25, - 1, - 1, - 1, - 1, - 1, - 1, 0, 1, 2,
      3, 4, 5, 6, 7, 8, 9, 10, 11, 12, 13, 14, 15, 16, 17, 18, 19, 20, 21, 22,
      23, 24, 25, - 1, - 1, - 1, - 1, - 1, - 1, - 1, - 1, - 1, - 1, - 1, - 1, - 1, - 1, - 1, - 1, - 1,
      - 1, - 1, - 1, - 1, - 1, - 1, - 1, - 1, - 1, - 1, - 1, - 1, - 1, - 1, - 1, - 1, - 1, - 1, - 1, - 1,
      - 1, - 1, - 1, - 1, - 1, - 1, - 1, - 1, - 1, - 1, - 1, - 1, - 1, - 1, - 1, - 1, - 1, - 1, - 1, - 1,
      - 1, - 1, - 1, - 1, - 1, - 1, - 1, - 1, - 1, - 1, - 1, - 1, - 1, - 1, - 1, - 1, - 1, - 1, - 1, - 1,
      - 1, - 1, - 1, - 1, - 1, - 1, - 1, - 1, - 1, - 1, - 1, - 1, - 1, - 1, - 1, - 1, - 1, - 1, - 1, - 1,
      - 1, - 1, - 1, - 1, - 1, - 1, - 1, - 1, - 1, - 1, - 1, - 1, - 1, - 1, - 1, - 1, - 1, - 1, - 1, - 1,
      - 1, - 1, - 1, - 1, - 1, - 1, - 1, - 1, - 1, - 1, - 1, - 1, - 1, - 1, - 1, - 1]"

definition decode32 :: "char \<Rightarrow> int" where
  "decode32 c = decode32_table ! of_char c"

fun DecodeBase32_loop :: "data \<Rightarrow> nat \<Rightarrow> int \<Rightarrow> string \<Rightarrow> data \<times> nat \<times> int \<times> string" where
  "DecodeBase32_loop vchRet mode left [] = (vchRet, mode, left, [])"
| "DecodeBase32_loop vchRet mode left (c # p) =
     (let dec = decode32 c in
      if dec = - 1 then (vchRet, mode, left, c # p)
      else if mode = 0 then DecodeBase32_loop vchRet 1 dec p
      else if mode = 1 then DecodeBase32_loop (vchRet @ [of_int (push_bit 3 left OR drop_bit 2 dec)]) 2 (dec AND 3) p
      else if mode = 2 then DecodeBase32_loop vchRet 3 (push_bit 5 left OR dec) p
      else if mode = 3 then DecodeBase32_loop (vchRet @ [of_int (push_bit 1 left OR drop_bit 4 dec)]) 4 (dec AND 15) p
      else if mode = 4 then DecodeBase32_loop (vchRet @ [of_int (push_bit 4 left OR drop_bit 1 dec)]) 5 (dec AND 1) p
      else if mode = 5 then DecodeBase32_loop vchRet 6 (push_bit 5 left OR dec) p
      else if mode = 6 then DecodeBase32_loop (vchRet @ [of_int (push_bit 2 left OR drop_bit 3 dec)]) 7 (dec AND 7) p
      else DecodeBase32_loop (vchRet @ [of_int (push_bit 5 left OR dec)]) 0 left p)"

text \<open>\<open>n\<close> signs of padding and then a character that is refused.\<close>

definition padded_by :: "string \<Rightarrow> nat \<Rightarrow> bool" where
  "padded_by p n \<longleftrightarrow> list_all (\<lambda>i. cstr_at p i = CHR ''='') [0..<n] \<and> decode32 (cstr_at p n) = - 1"

definition DecodeBase32 :: "string \<Rightarrow> data \<times> bool" where
  "DecodeBase32 p =
     (let (vchRet, mode, left, p) = DecodeBase32_loop [] 0 0 p
      in (vchRet,
          if mode = 0 then False
          else if mode = 1 \<or> mode = 3 \<or> mode = 6 then True
          else if mode = 2 then left \<noteq> 0 \<or> \<not> padded_by p 6
          else if mode = 4 then left \<noteq> 0 \<or> \<not> padded_by p 4
          else if mode = 5 then left \<noteq> 0 \<or> \<not> padded_by p 3
          else left \<noteq> 0 \<or> \<not> padded_by p 1))"

section \<open>Lemmas\<close>

lemma decode64_alphabet: "0 \<le> n \<Longrightarrow> n < 64 \<Longrightarrow> decode64 (pbase64 ! nat n) = n"
proof -
  have "list_all (\<lambda>n. decode64 (pbase64 ! nat n) = n) [0..63]" by code_simp
  then show "0 \<le> n \<Longrightarrow> n < 64 \<Longrightarrow> decode64 (pbase64 ! nat n) = n" by (auto simp: list_all_iff)
qed

lemma decode32_alphabet: "0 \<le> n \<Longrightarrow> n < 32 \<Longrightarrow> decode32 (pbase32 ! nat n) = n"
proof -
  have "list_all (\<lambda>n. decode32 (pbase32 ! nat n) = n) [0..31]" by code_simp
  then show "0 \<le> n \<Longrightarrow> n < 32 \<Longrightarrow> decode32 (pbase32 ! nat n) = n" by (auto simp: list_all_iff)
qed

lemma decode_padding: "decode64 (CHR ''='') = - 1" "decode32 (CHR ''='') = - 1" "decode64 (CHR 0x00) = - 1" "decode32 (CHR 0x00) = - 1"
  by code_simp+

lemma low_bits: "(1 :: int) = mask 1" "(3 :: int) = mask 2" "(7 :: int) = mask 3" "(15 :: int) = mask 4" "(31 :: int) = mask 5" "(63 :: int) = mask 6"
  by (simp_all add: mask_eq_exp_minus_1)

lemma bounded_bits: "(\<And>i. bit v i \<Longrightarrow> i < n) \<Longrightarrow> 0 \<le> v \<and> v < 2 ^ n" for v :: int
proof -
  assume a: "\<And>i. bit v i \<Longrightarrow> i < n"
  have "take_bit n v = v" by (rule bit_eqI) (auto simp: bit_take_bit_iff dest: a)
  then show ?thesis by (metis take_bit_nonnegative take_bit_int_less_exp)
qed

lemma byte_bits_eqI:
  "(bit a 0 \<longleftrightarrow> bit b 0) \<Longrightarrow> (bit a 1 \<longleftrightarrow> bit b 1) \<Longrightarrow> (bit a 2 \<longleftrightarrow> bit b 2) \<Longrightarrow> (bit a 3 \<longleftrightarrow> bit b 3) \<Longrightarrow>
   (bit a 4 \<longleftrightarrow> bit b 4) \<Longrightarrow> (bit a 5 \<longleftrightarrow> bit b 5) \<Longrightarrow> (bit a 6 \<longleftrightarrow> bit b 6) \<Longrightarrow> (bit a 7 \<longleftrightarrow> bit b 7) \<Longrightarrow> a = b" for a b :: byte
proof (rule bit_word_eqI)
  fix i assume "i < LENGTH(8)"
  then consider "i = 0" | "i = 1" | "i = 2" | "i = 3" | "i = 4" | "i = 5" | "i = 6" | "i = 7" by fastforce
  then show "(bit a 0 \<longleftrightarrow> bit b 0) \<Longrightarrow> (bit a 1 \<longleftrightarrow> bit b 1) \<Longrightarrow> (bit a 2 \<longleftrightarrow> bit b 2) \<Longrightarrow> (bit a 3 \<longleftrightarrow> bit b 3) \<Longrightarrow>
   (bit a 4 \<longleftrightarrow> bit b 4) \<Longrightarrow> (bit a 5 \<longleftrightarrow> bit b 5) \<Longrightarrow> (bit a 6 \<longleftrightarrow> bit b 6) \<Longrightarrow> (bit a 7 \<longleftrightarrow> bit b 7) \<Longrightarrow> bit a i = bit b i"
    by cases simp_all
qed

lemmas group_bits = bit_or_iff bit_and_iff bit_push_bit_iff bit_drop_bit_eq bit_uint_iff bit_mask_iff bit_of_int_iff bit_take_bit_iff

text \<open>The three bytes of a group in six-bit pieces, and back.\<close>

lemma sextets:
  fixes a b c :: byte
  shows "0 \<le> drop_bit 2 (uint a)" "drop_bit 2 (uint a) < 64"
    "0 \<le> push_bit 4 (uint a AND 3) OR drop_bit 4 (uint b)" "push_bit 4 (uint a AND 3) OR drop_bit 4 (uint b) < 64"
    "0 \<le> push_bit 2 (uint b AND 15) OR drop_bit 6 (uint c)" "push_bit 2 (uint b AND 15) OR drop_bit 6 (uint c) < 64"
    "0 \<le> uint c AND 63" "uint c AND 63 < 64"
    "0 \<le> push_bit 4 (uint a AND 3)" "push_bit 4 (uint a AND 3) < 64"
    "0 \<le> push_bit 2 (uint b AND 15)" "push_bit 2 (uint b AND 15) < 64"
proof -
  have "0 \<le> drop_bit 2 (uint a) \<and> drop_bit 2 (uint a) < 2 ^ 6"
    by (rule bounded_bits) (auto simp: group_bits)
  then show "0 \<le> drop_bit 2 (uint a)" "drop_bit 2 (uint a) < 64" by simp_all
  have "0 \<le> push_bit 4 (uint a AND 3) OR drop_bit 4 (uint b) \<and> push_bit 4 (uint a AND 3) OR drop_bit 4 (uint b) < 2 ^ 6"
    unfolding low_bits by (rule bounded_bits) (auto simp: group_bits)
  then show "0 \<le> push_bit 4 (uint a AND 3) OR drop_bit 4 (uint b)" "push_bit 4 (uint a AND 3) OR drop_bit 4 (uint b) < 64" by simp_all
  have "0 \<le> push_bit 2 (uint b AND 15) OR drop_bit 6 (uint c) \<and> push_bit 2 (uint b AND 15) OR drop_bit 6 (uint c) < 2 ^ 6"
    unfolding low_bits by (rule bounded_bits) (auto simp: group_bits)
  then show "0 \<le> push_bit 2 (uint b AND 15) OR drop_bit 6 (uint c)" "push_bit 2 (uint b AND 15) OR drop_bit 6 (uint c) < 64" by simp_all
  have "0 \<le> uint c AND 63 \<and> uint c AND 63 < 2 ^ 6" unfolding low_bits by (rule bounded_bits) (auto simp: group_bits)
  then show "0 \<le> uint c AND 63" "uint c AND 63 < 64" by simp_all
  have "0 \<le> push_bit 4 (uint a AND 3) \<and> push_bit 4 (uint a AND 3) < 2 ^ 6" unfolding low_bits by (rule bounded_bits) (auto simp: group_bits)
  then show "0 \<le> push_bit 4 (uint a AND 3)" "push_bit 4 (uint a AND 3) < 64" by simp_all
  have "0 \<le> push_bit 2 (uint b AND 15) \<and> push_bit 2 (uint b AND 15) < 2 ^ 6" unfolding low_bits by (rule bounded_bits) (auto simp: group_bits)
  then show "0 \<le> push_bit 2 (uint b AND 15)" "push_bit 2 (uint b AND 15) < 64" by simp_all
qed

lemma sextets_join:
  fixes a b c :: byte
  shows "of_int (push_bit 2 (drop_bit 2 (uint a)) OR drop_bit 4 (push_bit 4 (uint a AND 3) OR drop_bit 4 (uint b))) = a"
    "of_int (push_bit 4 ((push_bit 4 (uint a AND 3) OR drop_bit 4 (uint b)) AND 15) OR
       drop_bit 2 (push_bit 2 (uint b AND 15) OR drop_bit 6 (uint c))) = b"
    "of_int (push_bit 6 ((push_bit 2 (uint b AND 15) OR drop_bit 6 (uint c)) AND 3) OR (uint c AND 63)) = c"
    "of_int (push_bit 2 (drop_bit 2 (uint a)) OR drop_bit 4 (push_bit 4 (uint a AND 3))) = a"
    "of_int (push_bit 4 ((push_bit 4 (uint a AND 3) OR drop_bit 4 (uint b)) AND 15) OR drop_bit 2 (push_bit 2 (uint b AND 15))) = b"
    "push_bit 4 (uint a AND 3) AND 15 = 0" "push_bit 2 (uint b AND 15) AND 3 = 0"
  unfolding low_bits by (rule byte_bits_eqI; simp add: group_bits)+ (rule bit_eqI; auto simp: group_bits)+

section \<open>Base 64 is read back\<close>

definition finish64 :: "string \<times> nat \<times> int \<Rightarrow> string" where
  "finish64 r = (let (strRet, mode, left) = r
     in if mode \<noteq> 0 then strRet @ [pbase64 ! nat left] @ ''='' @ (if mode = 1 then ''='' else []) else strRet)"

definition check64 :: "data \<times> nat \<times> int \<times> string \<Rightarrow> data \<times> bool" where
  "check64 r = (let (vchRet, mode, left, p) = r
     in (vchRet,
         if mode = 0 then False
         else if mode = 1 then True
         else if mode = 2 then
           left \<noteq> 0 \<or> cstr_at p 0 \<noteq> CHR ''='' \<or> cstr_at p 1 \<noteq> CHR ''='' \<or> decode64 (cstr_at p 2) \<noteq> - 1
         else left \<noteq> 0 \<or> cstr_at p 0 \<noteq> CHR ''='' \<or> decode64 (cstr_at p 1) \<noteq> - 1))"

lemma EncodeBase64_loop_acc:
  "finish64 (EncodeBase64_loop (r @ t) mode left v) = r @ finish64 (EncodeBase64_loop t mode left v)"
proof (induction v arbitrary: t mode left)
  case (Cons b v)
  show ?case using Cons.IH by (simp add: Let_def)
qed (simp add: finish64_def)

lemma DecodeBase64_step:
  "0 \<le> n \<Longrightarrow> n < 64 \<Longrightarrow> DecodeBase64_loop vchRet mode left (pbase64 ! nat n # p) =
     (if mode = 0 then DecodeBase64_loop vchRet 1 n p
      else if mode = 1 then DecodeBase64_loop (vchRet @ [of_int (push_bit 2 left OR drop_bit 4 n)]) 2 (n AND 15) p
      else if mode = 2 then DecodeBase64_loop (vchRet @ [of_int (push_bit 4 left OR drop_bit 2 n)]) 3 (n AND 3) p
      else DecodeBase64_loop (vchRet @ [of_int (push_bit 6 left OR n)]) 0 left p)"
  by (simp add: decode64_alphabet)

lemma DecodeBase64_stop: "DecodeBase64_loop vchRet mode left (CHR ''='' # p) = (vchRet, mode, left, CHR ''='' # p)"
  by (simp add: decode_padding)

fun by_threes :: "data \<Rightarrow> nat" where
  "by_threes (a # b # c # v) = Suc (by_threes v)"
| "by_threes v = 0"

lemmas threes_induct = by_threes.induct [case_names more none one two]

lemma Base64_group:
  "check64 (DecodeBase64_loop vr 0 ll (finish64 (EncodeBase64_loop [] 0 l v))) = (vr @ v, False)"
proof (induction v arbitrary: vr ll l rule: threes_induct)
  case (more a b c v)
  have "finish64 (EncodeBase64_loop [] 0 l (a # b # c # v)) =
    pbase64 ! nat (drop_bit 2 (uint a)) # pbase64 ! nat (push_bit 4 (uint a AND 3) OR drop_bit 4 (uint b)) #
    pbase64 ! nat (push_bit 2 (uint b AND 15) OR drop_bit 6 (uint c)) # pbase64 ! nat (uint c AND 63) #
    finish64 (EncodeBase64_loop [] 0 (push_bit 2 (uint b AND 15)) v)"
    using EncodeBase64_loop_acc [of "[pbase64 ! nat (drop_bit 2 (uint a)), pbase64 ! nat (push_bit 4 (uint a AND 3) OR drop_bit 4 (uint b)),
      pbase64 ! nat (push_bit 2 (uint b AND 15) OR drop_bit 6 (uint c)), pbase64 ! nat (uint c AND 63)]" "[]"] by (simp add: Let_def del: push_bit_and)
  then show ?case using more.IH by (simp add: DecodeBase64_step sextets sextets_join del: DecodeBase64_loop.simps push_bit_and drop_bit_or push_bit_or drop_bit_and)
next
  case none
  then show ?case by (simp add: finish64_def check64_def)
next
  case (one a)
  have "finish64 (EncodeBase64_loop [] 0 l [a]) = pbase64 ! nat (drop_bit 2 (uint a)) # pbase64 ! nat (push_bit 4 (uint a AND 3)) # ''==''"
    by (simp add: finish64_def Let_def del: push_bit_and)
  then show ?case
    by (simp add: DecodeBase64_step DecodeBase64_stop sextets sextets_join check64_def cstr_at_def decode_padding
        del: DecodeBase64_loop.simps push_bit_and drop_bit_or push_bit_or drop_bit_and)
next
  case (two a b)
  have "finish64 (EncodeBase64_loop [] 0 l [a, b]) = pbase64 ! nat (drop_bit 2 (uint a)) #
      pbase64 ! nat (push_bit 4 (uint a AND 3) OR drop_bit 4 (uint b)) # pbase64 ! nat (push_bit 2 (uint b AND 15)) # ''=''"
    by (simp add: finish64_def Let_def del: push_bit_and)
  then show ?case
    by (simp add: DecodeBase64_step DecodeBase64_stop sextets sextets_join check64_def cstr_at_def decode_padding
        del: DecodeBase64_loop.simps push_bit_and drop_bit_or push_bit_or drop_bit_and)
qed

section \<open>Base 32 is read back\<close>

text \<open>The five bytes of a group in five-bit pieces, and back.\<close>

lemma quintets:
  fixes a b c d e :: byte
  shows "0 \<le> drop_bit 3 (uint a)" "drop_bit 3 (uint a) < 32"
    "0 \<le> push_bit 2 (uint a AND 7) OR drop_bit 6 (uint b)" "push_bit 2 (uint a AND 7) OR drop_bit 6 (uint b) < 32"
    "0 \<le> drop_bit 1 (uint b) AND 31" "drop_bit 1 (uint b) AND 31 < 32"
    "0 \<le> push_bit 4 (uint b AND 1) OR drop_bit 4 (uint c)" "push_bit 4 (uint b AND 1) OR drop_bit 4 (uint c) < 32"
    "0 \<le> push_bit 1 (uint c AND 15) OR drop_bit 7 (uint d)" "push_bit 1 (uint c AND 15) OR drop_bit 7 (uint d) < 32"
    "0 \<le> drop_bit 2 (uint d) AND 31" "drop_bit 2 (uint d) AND 31 < 32"
    "0 \<le> push_bit 3 (uint d AND 3) OR drop_bit 5 (uint e)" "push_bit 3 (uint d AND 3) OR drop_bit 5 (uint e) < 32"
    "0 \<le> uint e AND 31" "uint e AND 31 < 32"
    "0 \<le> push_bit 2 (uint a AND 7)" "push_bit 2 (uint a AND 7) < 32"
    "0 \<le> push_bit 4 (uint b AND 1)" "push_bit 4 (uint b AND 1) < 32"
    "0 \<le> push_bit 1 (uint c AND 15)" "push_bit 1 (uint c AND 15) < 32"
    "0 \<le> push_bit 3 (uint d AND 3)" "push_bit 3 (uint d AND 3) < 32"
proof -
  have "0 \<le> drop_bit 3 (uint a) \<and> drop_bit 3 (uint a) < 2 ^ 5"
    unfolding low_bits(2-) by (rule bounded_bits) (auto simp: group_bits bit_1_iff simp del: push_bit_and push_bit_Suc)
  then show "0 \<le> drop_bit 3 (uint a)" "drop_bit 3 (uint a) < 32" by simp_all
  have "0 \<le> push_bit 2 (uint a AND 7) OR drop_bit 6 (uint b) \<and> push_bit 2 (uint a AND 7) OR drop_bit 6 (uint b) < 2 ^ 5"
    unfolding low_bits(2-) by (rule bounded_bits) (auto simp: group_bits bit_1_iff simp del: push_bit_and push_bit_Suc)
  then show "0 \<le> push_bit 2 (uint a AND 7) OR drop_bit 6 (uint b)" "push_bit 2 (uint a AND 7) OR drop_bit 6 (uint b) < 32" by simp_all
  have "0 \<le> drop_bit 1 (uint b) AND 31 \<and> drop_bit 1 (uint b) AND 31 < 2 ^ 5"
    unfolding low_bits(2-) by (rule bounded_bits) (auto simp: group_bits bit_1_iff simp del: push_bit_and push_bit_Suc)
  then show "0 \<le> drop_bit 1 (uint b) AND 31" "drop_bit 1 (uint b) AND 31 < 32" by simp_all
  have "0 \<le> push_bit 4 (uint b AND 1) OR drop_bit 4 (uint c) \<and> push_bit 4 (uint b AND 1) OR drop_bit 4 (uint c) < 2 ^ 5"
    unfolding low_bits(2-) by (rule bounded_bits) (auto simp: group_bits bit_1_iff simp del: push_bit_and push_bit_Suc)
  then show "0 \<le> push_bit 4 (uint b AND 1) OR drop_bit 4 (uint c)" "push_bit 4 (uint b AND 1) OR drop_bit 4 (uint c) < 32" by simp_all
  have "0 \<le> push_bit 1 (uint c AND 15) OR drop_bit 7 (uint d) \<and> push_bit 1 (uint c AND 15) OR drop_bit 7 (uint d) < 2 ^ 5"
    unfolding low_bits(2-) by (rule bounded_bits) (auto simp: group_bits bit_1_iff simp del: push_bit_and push_bit_Suc)
  then show "0 \<le> push_bit 1 (uint c AND 15) OR drop_bit 7 (uint d)" "push_bit 1 (uint c AND 15) OR drop_bit 7 (uint d) < 32" by simp_all
  have "0 \<le> drop_bit 2 (uint d) AND 31 \<and> drop_bit 2 (uint d) AND 31 < 2 ^ 5"
    unfolding low_bits(2-) by (rule bounded_bits) (auto simp: group_bits bit_1_iff simp del: push_bit_and push_bit_Suc)
  then show "0 \<le> drop_bit 2 (uint d) AND 31" "drop_bit 2 (uint d) AND 31 < 32" by simp_all
  have "0 \<le> push_bit 3 (uint d AND 3) OR drop_bit 5 (uint e) \<and> push_bit 3 (uint d AND 3) OR drop_bit 5 (uint e) < 2 ^ 5"
    unfolding low_bits(2-) by (rule bounded_bits) (auto simp: group_bits bit_1_iff simp del: push_bit_and push_bit_Suc)
  then show "0 \<le> push_bit 3 (uint d AND 3) OR drop_bit 5 (uint e)" "push_bit 3 (uint d AND 3) OR drop_bit 5 (uint e) < 32" by simp_all
  have "0 \<le> uint e AND 31 \<and> uint e AND 31 < 2 ^ 5"
    unfolding low_bits(2-) by (rule bounded_bits) (auto simp: group_bits bit_1_iff simp del: push_bit_and push_bit_Suc)
  then show "0 \<le> uint e AND 31" "uint e AND 31 < 32" by simp_all
  have "0 \<le> push_bit 2 (uint a AND 7) \<and> push_bit 2 (uint a AND 7) < 2 ^ 5"
    unfolding low_bits(2-) by (rule bounded_bits) (auto simp: group_bits bit_1_iff simp del: push_bit_and push_bit_Suc)
  then show "0 \<le> push_bit 2 (uint a AND 7)" "push_bit 2 (uint a AND 7) < 32" by simp_all
  have "0 \<le> push_bit 4 (uint b AND 1) \<and> push_bit 4 (uint b AND 1) < 2 ^ 5"
    unfolding low_bits(2-) by (rule bounded_bits) (auto simp: group_bits bit_1_iff simp del: push_bit_and push_bit_Suc)
  then show "0 \<le> push_bit 4 (uint b AND 1)" "push_bit 4 (uint b AND 1) < 32" by simp_all
  have "0 \<le> push_bit 1 (uint c AND 15) \<and> push_bit 1 (uint c AND 15) < 2 ^ 5"
    unfolding low_bits(2-) by (rule bounded_bits) (auto simp: group_bits bit_1_iff simp del: push_bit_and push_bit_Suc)
  then show "0 \<le> push_bit 1 (uint c AND 15)" "push_bit 1 (uint c AND 15) < 32" by simp_all
  have "0 \<le> push_bit 3 (uint d AND 3) \<and> push_bit 3 (uint d AND 3) < 2 ^ 5"
    unfolding low_bits(2-) by (rule bounded_bits) (auto simp: group_bits bit_1_iff simp del: push_bit_and push_bit_Suc)
  then show "0 \<le> push_bit 3 (uint d AND 3)" "push_bit 3 (uint d AND 3) < 32" by simp_all
qed

lemma quintets_join:
  fixes a b c d e :: byte
  shows "of_int (push_bit 3 (drop_bit 3 (uint a)) OR drop_bit 2 (push_bit 2 (uint a AND 7) OR drop_bit 6 (uint b))) = a"
    "of_int (push_bit 1 (push_bit 5 ((push_bit 2 (uint a AND 7) OR drop_bit 6 (uint b)) AND 3) OR (drop_bit 1 (uint b) AND 31)) OR drop_bit 4 (push_bit 4 (uint b AND 1) OR drop_bit 4 (uint c))) = b"
    "of_int (push_bit 4 ((push_bit 4 (uint b AND 1) OR drop_bit 4 (uint c)) AND 15) OR drop_bit 1 (push_bit 1 (uint c AND 15) OR drop_bit 7 (uint d))) = c"
    "of_int (push_bit 2 (push_bit 5 ((push_bit 1 (uint c AND 15) OR drop_bit 7 (uint d)) AND 1) OR (drop_bit 2 (uint d) AND 31)) OR drop_bit 3 (push_bit 3 (uint d AND 3) OR drop_bit 5 (uint e))) = d"
    "of_int (push_bit 5 ((push_bit 3 (uint d AND 3) OR drop_bit 5 (uint e)) AND 7) OR (uint e AND 31)) = e"
    "of_int (push_bit 3 (drop_bit 3 (uint a)) OR drop_bit 2 (push_bit 2 (uint a AND 7))) = a"
    "of_int (push_bit 1 (push_bit 5 ((push_bit 2 (uint a AND 7) OR drop_bit 6 (uint b)) AND 3) OR (drop_bit 1 (uint b) AND 31)) OR drop_bit 4 (push_bit 4 (uint b AND 1))) = b"
    "of_int (push_bit 4 ((push_bit 4 (uint b AND 1) OR drop_bit 4 (uint c)) AND 15) OR drop_bit 1 (push_bit 1 (uint c AND 15))) = c"
    "of_int (push_bit 2 (push_bit 5 ((push_bit 1 (uint c AND 15) OR drop_bit 7 (uint d)) AND 1) OR (drop_bit 2 (uint d) AND 31)) OR drop_bit 3 (push_bit 3 (uint d AND 3))) = d"
    "push_bit 2 (uint a AND 7) AND 3 = 0"
    "push_bit 4 (uint b AND 1) AND 15 = 0"
    "push_bit 1 (uint c AND 15) AND 1 = 0"
    "push_bit 3 (uint d AND 3) AND 7 = 0"
  unfolding low_bits(2-)
  by (rule byte_bits_eqI; simp add: group_bits bit_1_iff del: push_bit_and push_bit_Suc drop_bit_or push_bit_or; simp add: numeral_2_eq_2 numeral_3_eq_3)+
    (rule bit_eqI; auto simp: group_bits bit_1_iff simp del: push_bit_and push_bit_Suc)+

definition finish32 :: "string \<times> nat \<times> int \<Rightarrow> string" where
  "finish32 r = (let (strRet, mode, left) = r
     in if mode \<noteq> 0 then strRet @ [pbase32 ! nat left] @ replicate (nPadding ! mode) CHR ''='' else strRet)"

definition check32 :: "data \<times> nat \<times> int \<times> string \<Rightarrow> data \<times> bool" where
  "check32 r = (let (vchRet, mode, left, p) = r
     in (vchRet,
         if mode = 0 then False
         else if mode = 1 \<or> mode = 3 \<or> mode = 6 then True
         else if mode = 2 then left \<noteq> 0 \<or> \<not> padded_by p 6
         else if mode = 4 then left \<noteq> 0 \<or> \<not> padded_by p 4
         else if mode = 5 then left \<noteq> 0 \<or> \<not> padded_by p 3
         else left \<noteq> 0 \<or> \<not> padded_by p 1))"

lemma EncodeBase32_loop_acc:
  "finish32 (EncodeBase32_loop (r @ t) mode left v) = r @ finish32 (EncodeBase32_loop t mode left v)"
proof (induction v arbitrary: t mode left)
  case (Cons b v)
  show ?case using Cons.IH by (simp add: Let_def)
qed (simp add: finish32_def)

lemma DecodeBase32_step:
  "0 \<le> n \<Longrightarrow> n < 32 \<Longrightarrow> DecodeBase32_loop vchRet mode left (pbase32 ! nat n # p) =
     (if mode = 0 then DecodeBase32_loop vchRet 1 n p
      else if mode = 1 then DecodeBase32_loop (vchRet @ [of_int (push_bit 3 left OR drop_bit 2 n)]) 2 (n AND 3) p
      else if mode = 2 then DecodeBase32_loop vchRet 3 (push_bit 5 left OR n) p
      else if mode = 3 then DecodeBase32_loop (vchRet @ [of_int (push_bit 1 left OR drop_bit 4 n)]) 4 (n AND 15) p
      else if mode = 4 then DecodeBase32_loop (vchRet @ [of_int (push_bit 4 left OR drop_bit 1 n)]) 5 (n AND 1) p
      else if mode = 5 then DecodeBase32_loop vchRet 6 (push_bit 5 left OR n) p
      else if mode = 6 then DecodeBase32_loop (vchRet @ [of_int (push_bit 2 left OR drop_bit 3 n)]) 7 (n AND 7) p
      else DecodeBase32_loop (vchRet @ [of_int (push_bit 5 left OR n)]) 0 left p)"
  by (simp add: decode32_alphabet)

lemma DecodeBase32_stop: "DecodeBase32_loop vchRet mode left (CHR ''='' # p) = (vchRet, mode, left, CHR ''='' # p)"
  by (simp add: decode_padding)

lemma padded_replicate: "padded_by (replicate n CHR ''='') n"
  by (simp add: padded_by_def cstr_at_def list_all_iff decode_padding)

lemma padding_signs:
  "replicate 6 CHR ''='' = ''======''" "replicate 4 CHR ''='' = ''===''  @ ''=''" "replicate 3 CHR ''='' = ''===''"
  "replicate (Suc 0) CHR ''='' = ''=''" "replicate 1 CHR ''='' = ''=''"
  by (simp_all add: numeral_eq_Suc)

lemma paddings:
  "padded_by ''======'' 6" "padded_by ''===='' 4" "padded_by ''==='' 3" "padded_by ''='' 1"
  using padded_replicate [of 6] padded_replicate [of 4] padded_replicate [of 3] padded_replicate [of 1]
  by (simp_all add: numeral_eq_Suc)

fun by_fives :: "data \<Rightarrow> nat" where
  "by_fives (a # b # c # d # e # v) = Suc (by_fives v)"
| "by_fives v = 0"

lemmas fives_induct = by_fives.induct [case_names more none one two three four]

lemma Base32_group:
  "check32 (DecodeBase32_loop vr 0 ll (finish32 (EncodeBase32_loop [] 0 l v))) = (vr @ v, False)"
proof (induction v arbitrary: vr ll l rule: fives_induct)
  case (more a b c d e v)
  have "finish32 (EncodeBase32_loop [] 0 l (a # b # c # d # e # v)) =
    pbase32 ! nat (drop_bit 3 (uint a)) # pbase32 ! nat (push_bit 2 (uint a AND 7) OR drop_bit 6 (uint b)) # pbase32 ! nat (drop_bit 1 (uint b) AND 31) # pbase32 ! nat (push_bit 4 (uint b AND 1) OR drop_bit 4 (uint c)) # pbase32 ! nat (push_bit 1 (uint c AND 15) OR drop_bit 7 (uint d)) # pbase32 ! nat (drop_bit 2 (uint d) AND 31) # pbase32 ! nat (push_bit 3 (uint d AND 3) OR drop_bit 5 (uint e)) # pbase32 ! nat (uint e AND 31) # finish32 (EncodeBase32_loop [] 0 (push_bit 3 (uint d AND 3)) v)"
    using EncodeBase32_loop_acc [of "[pbase32 ! nat (drop_bit 3 (uint a)), pbase32 ! nat (push_bit 2 (uint a AND 7) OR drop_bit 6 (uint b)), pbase32 ! nat (drop_bit 1 (uint b) AND 31), pbase32 ! nat (push_bit 4 (uint b AND 1) OR drop_bit 4 (uint c)), pbase32 ! nat (push_bit 1 (uint c AND 15) OR drop_bit 7 (uint d)), pbase32 ! nat (drop_bit 2 (uint d) AND 31), pbase32 ! nat (push_bit 3 (uint d AND 3) OR drop_bit 5 (uint e)), pbase32 ! nat (uint e AND 31)]" "[]"] by (simp add: Let_def del: push_bit_and push_bit_Suc One_nat_def)
  then show ?case using more.IH
    by (simp add: DecodeBase32_step quintets quintets_join
        del: DecodeBase32_loop.simps One_nat_def push_bit_Suc push_bit_and drop_bit_or push_bit_or drop_bit_and)
next
  case none
  then show ?case by (simp add: finish32_def check32_def)
next
  case (one a)
  have "finish32 (EncodeBase32_loop [] 0 l [a]) = pbase32 ! nat (drop_bit 3 (uint a)) # pbase32 ! nat (push_bit 2 (uint a AND 7)) # ''======''"
    by (simp add: finish32_def Let_def nPadding_def padding_signs del: push_bit_and push_bit_Suc One_nat_def)
  then show ?case
    by (simp add: DecodeBase32_step DecodeBase32_stop quintets quintets_join check32_def paddings
        del: DecodeBase32_loop.simps One_nat_def push_bit_Suc push_bit_and drop_bit_or push_bit_or drop_bit_and)
next
  case (two a b)
  have "finish32 (EncodeBase32_loop [] 0 l [a, b]) = pbase32 ! nat (drop_bit 3 (uint a)) # pbase32 ! nat (push_bit 2 (uint a AND 7) OR drop_bit 6 (uint b)) # pbase32 ! nat (drop_bit 1 (uint b) AND 31) # pbase32 ! nat (push_bit 4 (uint b AND 1)) # ''====''"
    by (simp add: finish32_def Let_def nPadding_def padding_signs del: push_bit_and push_bit_Suc One_nat_def)
  then show ?case
    by (simp add: DecodeBase32_step DecodeBase32_stop quintets quintets_join check32_def paddings
        del: DecodeBase32_loop.simps One_nat_def push_bit_Suc push_bit_and drop_bit_or push_bit_or drop_bit_and)
next
  case (three a b c)
  have "finish32 (EncodeBase32_loop [] 0 l [a, b, c]) = pbase32 ! nat (drop_bit 3 (uint a)) # pbase32 ! nat (push_bit 2 (uint a AND 7) OR drop_bit 6 (uint b)) # pbase32 ! nat (drop_bit 1 (uint b) AND 31) # pbase32 ! nat (push_bit 4 (uint b AND 1) OR drop_bit 4 (uint c)) # pbase32 ! nat (push_bit 1 (uint c AND 15)) # ''===''"
    by (simp add: finish32_def Let_def nPadding_def padding_signs del: push_bit_and push_bit_Suc One_nat_def)
  then show ?case
    by (simp add: DecodeBase32_step DecodeBase32_stop quintets quintets_join check32_def paddings
        del: DecodeBase32_loop.simps One_nat_def push_bit_Suc push_bit_and drop_bit_or push_bit_or drop_bit_and)
next
  case (four a b c d)
  have "finish32 (EncodeBase32_loop [] 0 l [a, b, c, d]) = pbase32 ! nat (drop_bit 3 (uint a)) # pbase32 ! nat (push_bit 2 (uint a AND 7) OR drop_bit 6 (uint b)) # pbase32 ! nat (drop_bit 1 (uint b) AND 31) # pbase32 ! nat (push_bit 4 (uint b AND 1) OR drop_bit 4 (uint c)) # pbase32 ! nat (push_bit 1 (uint c AND 15) OR drop_bit 7 (uint d)) # pbase32 ! nat (drop_bit 2 (uint d) AND 31) # pbase32 ! nat (push_bit 3 (uint d AND 3)) # ''=''"
    by (simp add: finish32_def Let_def nPadding_def padding_signs del: push_bit_and push_bit_Suc One_nat_def)
  then show ?case
    by (simp add: DecodeBase32_step DecodeBase32_stop quintets quintets_join check32_def paddings
        del: DecodeBase32_loop.simps One_nat_def push_bit_Suc push_bit_and drop_bit_or push_bit_or drop_bit_and)
qed

section \<open>Properties\<close>

text \<open>C34: every byte string is decoded from its base 64 and from its base 32 text, with its padding, and the text
  is found valid.\<close>

theorem base64_base32_roundtrip:
  "DecodeBase64 (EncodeBase64 v) = (v, False) \<and> DecodeBase32 (EncodeBase32 v) = (v, False)"
proof -
  have "EncodeBase64 v = finish64 (EncodeBase64_loop [] 0 0 v)" "DecodeBase64 p = check64 (DecodeBase64_loop [] 0 0 p)"
    "EncodeBase32 v = finish32 (EncodeBase32_loop [] 0 0 v)" "DecodeBase32 p = check32 (DecodeBase32_loop [] 0 0 p)" for p
    by (simp_all add: EncodeBase64_def finish64_def DecodeBase64_def check64_def
        EncodeBase32_def finish32_def DecodeBase32_def check32_def Let_def)
  then show ?thesis using Base64_group [of "[]" 0 0 v] Base32_group [of "[]" 0 0 v] by simp
qed

lemma base64_vectors:
  "EncodeBase64 [0x66, 0x6f, 0x6f, 0x62] = ''Zm9vYg==''" "EncodeBase32 [0x66, 0x6f, 0x6f, 0x62] = ''mzxw6yq=''"
  by code_simp+

end
