(* ===== verification/Numbers.thy ===== *)
theory Numbers
  imports Util
begin

text \<open>
  What the functions of theory \<open>Util\<close> promise: amounts of money are read back from their text, the
  comparison in constant time is equality, bounded random numbers are uniform, and the median filter
  keeps the last values.
\<close>

section \<open>Decimal digits\<close>

lemma digit_char:
  "n < 10 \<Longrightarrow> isdigit (hex_digit n) \<and> digit_value (hex_digit n) = n \<and> \<not> isspace (hex_digit n) \<and> hex_digit n \<noteq> CHR 0x00"
proof -
  assume "n < 10"
  then have "n \<in> set [0..<10]" by simp
  moreover have "list_all (\<lambda>n. isdigit (hex_digit n) \<and> digit_value (hex_digit n) = n \<and> \<not> isspace (hex_digit n) \<and> hex_digit n \<noteq> CHR 0x00) [0..<10]"
    by code_simp
  ultimately show ?thesis by (simp add: list_all_iff)
qed

lemma digit_special: "isdigit (CHR ''0'')" "digit_value (CHR ''0'') = 0" "\<not> isdigit (CHR ''.'')" "\<not> isspace (CHR ''.'')"
  "\<not> isdigit (CHR ''-'')" "\<not> isdigit (CHR ''+'')" "\<not> isdigit (CHR 0x00)"
  by (simp_all add: isdigit_def digit_value_def isspace_def)

lemma dec_value_append: "dec_value (s @ t) = dec_value s * 10 ^ length t + dec_value t"
proof (induction t rule: rev_induct)
  case (snoc c t)
  have snoc_value: "dec_value (v @ [c]) = 10 * dec_value v + digit_value c" for v by (simp add: dec_value_def)
  have "dec_value (s @ t @ [c]) = 10 * dec_value (s @ t) + digit_value c" using snoc_value [of "s @ t"] by simp
  then show ?case unfolding snoc snoc_value by simp
qed (simp add: dec_value_def)

lemma dec_nat_digits: "list_all isdigit (dec_nat n) \<and> dec_value (dec_nat n) = n \<and> dec_nat n \<noteq> []"
proof (induction n rule: dec_nat.induct)
  case (1 n)
  show ?case
  proof (cases "n < 10")
    case True
    then show ?thesis using digit_char [of n] by (simp add: dec_nat.simps dec_value_def)
  next
    case False
    then have "dec_nat n = dec_nat (n div 10) @ [hex_digit (n mod 10)]" by (subst dec_nat.simps) simp
    moreover have "dec_value [hex_digit (n mod 10)] = n mod 10" using digit_char [of "n mod 10"] by (simp add: dec_value_def)
    ultimately show ?thesis using 1 False digit_char [of "n mod 10"] by (simp add: dec_value_append)
  qed
qed

lemma length_dec_nat: "n < 10 ^ k \<Longrightarrow> 0 < k \<Longrightarrow> length (dec_nat n) \<le> k"
proof (induction n arbitrary: k rule: dec_nat.induct)
  case (1 n)
  show ?case
  proof (cases "n < 10")
    case True
    then show ?thesis using 1 by (simp add: dec_nat.simps)
  next
    case False
    then have k: "1 < k" using 1 by (cases "k = 1") auto
    then have "n div 10 < 10 ^ (k - 1)" using 1(2) by (simp add: div_less_iff_less_mult power_Suc2 [symmetric])
    then show ?thesis using 1 False k by (subst dec_nat.simps) fastforce
  qed
qed

lemma dec_padded_digits:
  "r < 10 ^ k \<Longrightarrow> 0 < k \<Longrightarrow> list_all isdigit (dec_padded k r) \<and> dec_value (dec_padded k r) = r \<and> length (dec_padded k r) = k"
proof -
  assume a: "r < 10 ^ k" "0 < k"
  have "dec_value (replicate n CHR ''0'') = 0" for n
    by (induction n) (simp_all add: replicate_append_same [symmetric] dec_value_append del: replicate.simps(2),
        simp_all add: dec_value_def digit_special)
  then show ?thesis using a dec_nat_digits [of r] length_dec_nat [OF a]
    by (auto simp: dec_padded_def dec_value_append digit_special list_all_iff)
qed

section \<open>Money\<close>

text \<open>The loop that trims zeros keeps two digits behind the point.\<close>

lemma trim_zeros_digits:
  "list_all isdigit ds \<Longrightarrow> 2 \<le> length ds \<Longrightarrow>
    \<exists>k t. ds = replicate k CHR ''0'' @ t \<and> 2 \<le> length t \<and> trim_zeros (ds @ CHR ''.'' # w) = t @ CHR ''.'' # w"
proof (induction ds)
  case (Cons a ds)
  show ?case
  proof (cases "2 \<le> length ds \<and> a = CHR ''0''")
    case True
    then obtain b c ds' where ds: "ds = b # c # ds'" by (cases ds; cases "tl ds") auto
    then have "trim_zeros ((a # ds) @ CHR ''.'' # w) = trim_zeros (ds @ CHR ''.'' # w)" using True Cons.prems by simp
    moreover obtain k t where "ds = replicate k CHR ''0'' @ t" "2 \<le> length t" "trim_zeros (ds @ CHR ''.'' # w) = t @ CHR ''.'' # w"
      using Cons True by auto
    ultimately show ?thesis using True by (intro exI [of _ "Suc k"] exI [of _ t]) simp
  next
    case False
    then obtain b ds' where ds: "ds = b # ds'" using Cons.prems by (cases ds) auto
    then have "trim_zeros ((a # ds) @ CHR ''.'' # w) = (a # ds) @ CHR ''.'' # w"
      using False digit_special by (cases ds') auto
    then show ?thesis using Cons.prems by (intro exI [of _ 0] exI [of _ "a # ds"]) simp
  qed
qed simp

lemma mult_step:
  "k < 8 \<Longrightarrow> 0 <s (of_nat (10 ^ k) :: 64 word) \<and>
    (of_int (sint (of_nat (10 ^ k) :: 64 word) div 10) :: 64 word) = of_nat (if k = 0 then 0 else 10 ^ (k - 1))"
proof -
  assume "k < 8"
  then consider "k = 0" | "k = 1" | "k = 2" | "k = 3" | "k = 4" | "k = 5" | "k = 6" | "k = 7" by linarith
  then show ?thesis by cases (simp_all add: word_sless_alt)
qed

lemma ParseMoney_units_digits:
  "list_all isdigit t \<Longrightarrow> length t \<le> Suc k \<Longrightarrow> k < 8 \<Longrightarrow>
    ParseMoney_units t (of_nat (10 ^ k)) acc = (acc + of_nat (10 ^ (Suc k - length t) * dec_value t), [])"
proof (induction t arbitrary: k acc)
  case (Cons c t)
  have v: "dec_value (c # t) = digit_value c * 10 ^ length t + dec_value t"
    using dec_value_append [of "[c]" t] by (simp add: dec_value_def)
  have "ParseMoney_units (c # t) (of_nat (10 ^ k)) acc =
      ParseMoney_units t (of_nat (if k = 0 then 0 else 10 ^ (k - 1))) (acc + of_nat (10 ^ k) * of_nat (digit_value c))"
    using Cons.prems mult_step [of k] by simp
  also have "\<dots> = (acc + of_nat (10 ^ k) * of_nat (digit_value c) + of_nat (10 ^ (k - length t) * dec_value t), [])"
  proof (cases k)
    case 0
    then show ?thesis using Cons.prems by (simp add: dec_value_def)
  next
    case (Suc k')
    then show ?thesis using Cons.IH [of k' "acc + of_nat (10 ^ k) * of_nat (digit_value c)"] Cons.prems by simp
  qed
  finally have "ParseMoney_units (c # t) (of_nat (10 ^ k)) acc =
      (acc + of_nat (10 ^ k) * of_nat (digit_value c) + of_nat (10 ^ (k - length t) * dec_value t), [])" .
  moreover have "of_nat (10 ^ k) * of_nat (digit_value c) + of_nat (10 ^ (k - length t) * dec_value t) =
      (of_nat (10 ^ (k - length t) * dec_value (c # t)) :: 64 word)"
  proof -
    have "10 ^ k = 10 ^ (k - length t) * (10 :: nat) ^ length t" using Cons.prems by (simp add: power_add [symmetric])
    then have "10 ^ k * digit_value c + 10 ^ (k - length t) * dec_value t = 10 ^ (k - length t) * dec_value (c # t)"
      unfolding v by (simp add: algebra_simps)
    then show ?thesis by (metis of_nat_add of_nat_mult)
  qed
  ultimately show ?case by (simp only: add.assoc) simp
qed (simp add: dec_value_def)

lemma ParseMoney_loop_digits:
  "list_all isdigit q \<Longrightarrow> ParseMoney_loop (q @ CHR ''.'' # t) w =
    (let (nUnits, p) = ParseMoney_units t (1000000 * 10) 0 in Some (w @ q, nUnits, p))"
proof (induction q arbitrary: w)
  case (Cons c q)
  then have "c \<noteq> CHR ''.''" using digit_special(3) by auto
  moreover have "\<not> isspace c" using Cons.prems by (auto simp: isdigit_def isspace_def)
  ultimately show ?case using Cons by simp
qed simp

lemma atoi64_digits:
  assumes "list_all isdigit q" "q \<noteq> []" "dec_value q < 2 ^ 63"
  shows "atoi64 q = of_nat (dec_value q)"
proof -
  have d: "isdigit c" if "c \<in> set q" for c using that assms(1) by (simp add: list_all_iff)
  have c: "c_str q = q" using d digit_special(7) by (intro c_str_id) auto
  have ns: "\<not> isspace c" if "isdigit c" for c using that by (auto simp: isdigit_def isspace_def)
  have "dropWhile isspace q = q" using d ns assms(2) by (cases q) auto
  moreover have "hd q \<noteq> CHR ''-''" "hd q \<noteq> CHR ''+''" using d digit_special(5,6) assms(2) by (cases q; fastforce)+
  moreover have all: "takeWhile isdigit q = q" unfolding takeWhile_eq_all_conv using d by blast
  ultimately have "strto_int (c_str q) = Some (int (dec_value q))"
    using assms(2) c by (simp add: strto_int_def Let_def all del: takeWhile_eq_all_conv)
  moreover have "max (- (2 ^ 63)) (min (2 ^ 63 - 1) (int (dec_value q))) = int (dec_value q)" using assms(3) by simp
  ultimately show ?thesis by (simp add: atoi64_def strtoll_def)
qed

section \<open>Properties\<close>

lemma dec_value_zeros: "dec_value (s @ replicate k CHR ''0'') = dec_value s * 10 ^ k"
proof (induction k)
  case (Suc k)
  have "dec_value (s @ replicate (Suc k) CHR ''0'') = dec_value ((s @ replicate k CHR ''0'') @ [CHR ''0''])"
    by (simp add: replicate_append_same)
  also have "\<dots> = dec_value (s @ replicate k CHR ''0'') * 10"
    unfolding dec_value_append [of _ "[CHR ''0'']"] by (simp add: dec_value_def digit_special)
  finally show ?case using Suc by simp
qed simp

text \<open>The text of an amount that is not negative.\<close>

lemma sint_nonnegative: "0 \<le> sint (n :: 64 word) \<Longrightarrow> int (unat n) = sint n"
proof -
  assume "0 \<le> sint n"
  moreover have "sint n < 2 ^ 63" using sint_lt [of n] by simp
  ultimately have "take_bit 64 (sint n) = sint n" by (simp add: take_bit_int_eq_self)
  then show ?thesis using uint_sint [of n] by simp
qed

lemma sint_of_small: "m < 2 ^ 63 \<Longrightarrow> sint (of_nat m :: 64 word) = int m"
  by (simp add: signed_of_nat signed_take_bit_int_eq_self)

lemma FormatMoney_digits:
  assumes "0 \<le> sint n"
  obtains s k where "FormatMoney n False = dec_nat (unat n div 100000000) @ CHR ''.'' # s"
    "list_all isdigit s" "length s + k = 8" "dec_value s * 10 ^ k = unat n mod 100000000"
proof -
  have not_neg: "\<not> n <s 0" using assms by (simp add: word_sless_alt)
  have pos: "(if 0 <s n then n else - n) = n"
  proof (cases "sint n = 0")
    case True
    then have "n = 0" using sint_nonnegative [OF assms] by (simp only: unat_0_iff [symmetric])
    then show ?thesis by simp
  next
    case False
    then show ?thesis using assms by (simp add: word_sless_alt)
  qed
  have padded: "list_all isdigit (dec_padded 8 (unat n mod 100000000))"
    "dec_value (dec_padded 8 (unat n mod 100000000)) = unat n mod 100000000" "length (dec_padded 8 (unat n mod 100000000)) = 8"
    using dec_padded_digits [of "unat n mod 100000000" 8] by auto
  then have "list_all isdigit (rev (dec_padded 8 (unat n mod 100000000)))" "2 \<le> length (rev (dec_padded 8 (unat n mod 100000000)))"
    by (simp_all add: list_all_iff)
  from trim_zeros_digits [OF this, of "rev (dec_nat (unat n div 100000000))"] obtain k t
    where t: "rev (dec_padded 8 (unat n mod 100000000)) = replicate k CHR ''0'' @ t"
      "trim_zeros (rev (dec_padded 8 (unat n mod 100000000)) @ CHR ''.'' # rev (dec_nat (unat n div 100000000))) =
        t @ CHR ''.'' # rev (dec_nat (unat n div 100000000))"
    by blast
  have digits: "dec_padded 8 (unat n mod 100000000) = rev t @ replicate k CHR ''0''" using t(1) by (metis rev_append rev_replicate rev_rev_ident)
  have "FormatMoney n False = dec_nat (unat n div 100000000) @ CHR ''.'' # rev t"
    using not_neg pos t(2) by (simp add: FormatMoney_def Let_def)
  moreover have "list_all isdigit (rev t)" "length (rev t) + k = 8" "dec_value (rev t) * 10 ^ k = unat n mod 100000000"
    using padded by (simp_all add: digits dec_value_zeros)
  ultimately show ?thesis by (rule that)
qed

text \<open>C35: an amount below \<open>10 ^ 18\<close> units, which has at most ten digits before the point, is read back from its
  text exactly.\<close>

theorem money_roundtrip:
  assumes "0 \<le> sint n" "sint n < 10 ^ 18"
  shows "ParseMoney (FormatMoney n False) = Some n"
proof -
  obtain s k where s: "FormatMoney n False = dec_nat (unat n div 100000000) @ CHR ''.'' # s"
    "list_all isdigit s" "length s + k = 8" "dec_value s * 10 ^ k = unat n mod 100000000"
    using FormatMoney_digits [OF assms(1)] .
  let ?q = "dec_nat (unat n div 100000000)"
  have u: "int (unat n) = sint n" using sint_nonnegative [OF assms(1)] .
  then have "int (unat n) < int (10 ^ 18)" using assms(2) by simp
  then have small: "unat n < 10 ^ 18" by (simp only: of_nat_less_iff)
  have q: "list_all isdigit ?q" "dec_value ?q = unat n div 100000000" "?q \<noteq> []" "length ?q \<le> 10"
    using dec_nat_digits [of "unat n div 100000000"] length_dec_nat [of "unat n div 100000000" 10] small by (auto simp: div_less_iff_less_mult)
  have no_nul: "CHR 0x00 \<notin> set (FormatMoney n False)" using s(2) q(1) digit_special(7) by (auto simp: s(1) list_all_iff)
  have head: "dropWhile isspace (FormatMoney n False) = FormatMoney n False"
    using q(1,3) by (cases ?q) (auto simp: s(1) isdigit_def isspace_def)
  have "ParseMoney_units s (1000000 * 10) 0 = (of_nat (unat n mod 100000000), [])"
  proof -
    have k: "8 - length s = k" using s(3) by linarith
    have "ParseMoney_units s (of_nat (10 ^ 7)) 0 = (0 + of_nat (10 ^ (Suc 7 - length s) * dec_value s), [])"
      using s(2,3) by (intro ParseMoney_units_digits) simp_all
    moreover have "10 ^ (Suc 7 - length s) * dec_value s = unat n mod 100000000" using s(4) k by (simp add: mult.commute)
    ultimately show ?thesis by (simp del: of_nat_mult of_nat_mod)
  qed
  then have loop: "ParseMoney_loop (FormatMoney n False) [] = Some (?q, of_nat (unat n mod 100000000), [])"
    using ParseMoney_loop_digits [OF q(1), of s "[]"] by (simp add: s(1))
  have r: "sint (of_nat (unat n mod 100000000) :: 64 word) = int (unat n mod 100000000)"
    by (rule sint_of_small) (rule less_trans [of _ 100000000], simp_all)
  then have bounds: "\<not> (of_nat (unat n mod 100000000) :: 64 word) <s 0" "\<not> 100000000 <s (of_nat (unat n mod 100000000) :: 64 word)"
    by (simp_all add: word_sless_alt del: of_nat_mod)
  have "atoi64 ?q = of_nat (unat n div 100000000)" using atoi64_digits [OF q(1,3)] q(2) small by (simp add: div_less_iff_less_mult)
  then have "ParseMoney (FormatMoney n False) = Some (of_nat (unat n div 100000000) * 100000000 + of_nat (unat n mod 100000000))"
    using loop bounds q(4) c_str_id [of "FormatMoney n False"] no_nul head by (simp add: ParseMoney_def)
  also have "\<dots> = Some (of_nat (unat n div 100000000 * 100000000 + unat n mod 100000000))"
    by (simp only: of_nat_add of_nat_mult of_nat_numeral)
  also have "\<dots> = Some n" by (simp only: div_mult_mod_eq) simp
  finally show ?thesis .
qed

theorem money_roundtrip_witness:
  "ParseMoney (FormatMoney 123456789 False) = Some 123456789"
  by (rule money_roundtrip) simp_all

section \<open>Random numbers\<close>

lemma unat64_less: "unat (w :: u64) < 2 ^ 64"
  using unsigned_less [of w] by simp

lemma GetRand_one:
  "n \<noteq> 0 \<Longrightarrow> (\<forall>draws. GetRand n (w # draws) = Inr (r, draws)) \<longleftrightarrow> w < (-1) div n * n \<and> w mod n = r"
proof
  assume n: "n \<noteq> 0" and "\<forall>draws. GetRand n (w # draws) = Inr (r, draws)"
  then have "GetRand n [w] = Inr (r, [])" by blast
  then show "w < (-1) div n * n \<and> w mod n = r" using n by (auto simp: GetRand_def Let_def rbind_def split: if_splits)
next
  assume "n \<noteq> 0" "w < (-1) div n * n \<and> w mod n = r"
  then show "\<forall>draws. GetRand n (w # draws) = Inr (r, draws)" by (auto simp: GetRand_def Let_def rbind_def)
qed

lemma unat_range: "unat ((-1) div n * (n :: u64)) = unat ((-1 :: u64) div n) * unat n"
proof -
  have "unat ((-1 :: u64) div n) * unat n \<le> unat (-1 :: u64)" by (simp only: unat_div div_times_less_eq_dividend)
  also have "\<dots> < 2 ^ 64" using unat64_less [of "-1"] by simp
  finally show ?thesis by (simp add: unat_word_ariths)
qed

text \<open>The draws that give one result: one in each of the ranges of the length of the bound.\<close>

lemma card_draws:
  fixes n r :: u64
  assumes "r < n"
  defines "Q \<equiv> unat ((-1 :: u64) div n)"
  shows "card {w :: u64. unat w < Q * unat n \<and> unat w mod unat n = unat r} = Q"
proof -
  have below: "k * unat n + unat r < Q * unat n" if "k < Q" for k
  proof -
    have "k * unat n + unat r < Suc k * unat n" using assms(1) by (simp add: word_less_nat_alt)
    also have "\<dots> \<le> Q * unat n" using that by (intro mult_le_mono1) simp
    finally show ?thesis .
  qed
  have fits: "Q * unat n < 2 ^ 64" using unat_range [of n] unat64_less [of "(-1) div n * n"] by (simp add: Q_def)
  have val: "unat (of_nat (k * unat n + unat r) :: u64) = k * unat n + unat r" if "k < Q" for k
    using below [OF that] fits by (simp add: unat_of_nat del: of_nat_add of_nat_mult)
  have "{w :: u64. unat w < Q * unat n \<and> unat w mod unat n = unat r} = (\<lambda>k. of_nat (k * unat n + unat r)) ` {..<Q}"
  proof safe
    fix w :: u64
    assume w: "unat w < Q * unat n" "unat w mod unat n = unat r"
    then have "unat w div unat n < Q" by (simp add: less_mult_imp_div_less)
    moreover have "w = of_nat (unat w div unat n * unat n + unat r)" unfolding w(2) [symmetric] div_mult_mod_eq by simp
    ultimately show "w \<in> (\<lambda>k. of_nat (k * unat n + unat r)) ` {..<Q}" by blast
  qed (use val below assms(1) in \<open>simp_all add: word_less_nat_alt\<close>)
  moreover have "inj_on (\<lambda>k. of_nat (k * unat n + unat r) :: u64) {..<Q}"
  proof (rule inj_onI)
    fix k k'
    assume k: "k \<in> {..<Q}" "k' \<in> {..<Q}" "(of_nat (k * unat n + unat r) :: u64) = of_nat (k' * unat n + unat r)"
    then have "k * unat n + unat r = k' * unat n + unat r" using val [of k] val [of k'] by (metis lessThan_iff)
    then show "k = k'" using assms(1) by (auto simp: word_less_nat_alt)
  qed
  ultimately show ?thesis by (simp add: card_image)
qed

text \<open>C36: drawing a number below a bound is uniform: every result below the bound is given by the same number of
  64-bit draws, every other draw is thrown away and the next one is taken, and no other result is possible.\<close>

theorem random_numbers_uniform:
  assumes "n \<noteq> 0" "r < n"
  shows "card {w. \<forall>draws. GetRand n (w # draws) = Inr (r, draws)} = unat ((-1 :: u64) div n) \<and>
    (\<forall>w draws. (-1) div n * n \<le> w \<longrightarrow> GetRand n (w # draws) = GetRand n draws) \<and>
    (\<forall>draws r' rest. GetRand n draws = Inr (r', rest) \<longrightarrow> r' < n)"
proof (intro conjI allI impI)
  show "card {w. \<forall>draws. GetRand n (w # draws) = Inr (r, draws)} = unat ((-1 :: u64) div n)"
    using card_draws [OF assms(2)] unfolding GetRand_one [OF assms(1)] word_less_nat_alt unat_range word_unat_eq_iff unat_mod .
next
  fix w draws
  assume "(-1) div n * n \<le> w"
  then show "GetRand n (w # draws) = GetRand n draws" using assms by (simp add: GetRand_def Let_def)
next
  fix draws r' rest
  assume "GetRand n draws = Inr (r', rest)"
  then obtain w where "r' = w mod n" using assms by (auto simp: GetRand_def Let_def rbind_def split: sum.splits)
  then show "r' < n" using assms by (simp add: word_mod_less_divisor word_neq_0_conv)
qed

theorem random_numbers_uniform_witness:
  "card {w. \<forall>draws. GetRand 10 (w # draws) = Inr (3, draws)} = 1844674407370955161 \<and>
   GetRand 10 [-1, 17] = GetRand 10 [17]"
  using random_numbers_uniform [of 10 3] by simp

section \<open>Comparison in constant time\<close>

lemma or_is_zero: "(a :: u64) OR b = 0 \<longleftrightarrow> a = 0 \<and> b = 0"
  by (auto simp: bit_eq_iff bit_or_iff)

lemma fold_or_zero: "fold (\<lambda>i acc. acc OR f i) xs (a :: u64) = 0 \<longleftrightarrow> a = 0 \<and> (\<forall>i \<in> set xs. f i = 0)"
  by (induction xs arbitrary: a) (auto simp: or_is_zero)

lemma xor_is_zero: "(a :: 'a :: len word) XOR b = 0 \<longleftrightarrow> a = b"
  by (auto simp: bit_eq_iff bit_xor_iff)

lemma widened_zero: "(ucast (b :: byte) :: u64) = 0 \<longleftrightarrow> b = 0"
proof
  assume "(ucast b :: u64) = 0"
  then have "(ucast (ucast b :: u64) :: byte) = 0" by simp
  moreover have "(ucast (ucast b :: u64) :: byte) = b" by (rule bit_eqI) (simp add: bit_unsigned_iff)
  ultimately show "b = 0" by simp
qed simp

text \<open>The comparison that reads every byte and never stops early is equality of the two strings.\<close>

theorem timing_resistant_equal_correct:
  assumes "length a < 2 ^ 64" "length b < 2 ^ 64"
  shows "TimingResistantEqual a b \<longleftrightarrow> a = b"
proof (cases "length b = 0")
  case False
  have len: "(of_nat (length a) :: u64) = of_nat (length b) \<longleftrightarrow> length a = length b"
    using assms by (auto simp: word_unat_eq_iff unat_of_nat)
  have "(ucast (a ! i XOR b ! j) :: u64) = 0 \<longleftrightarrow> a ! i = b ! j" for i j
    using xor_is_zero [of "a ! i" "b ! j"] unfolding widened_zero .
  then show ?thesis using False by (auto simp: TimingResistantEqual_def fold_or_zero xor_is_zero len intro: nth_equalityI)
qed (simp add: TimingResistantEqual_def)

theorem timing_resistant_equal_correct_witness: "TimingResistantEqual [1, 2] [1, 2] \<and> \<not> TimingResistantEqual [1, 2] [1, 3]"
  by (simp add: timing_resistant_equal_correct)

section \<open>Median filter\<close>

text \<open>The filter holds the last values it was given, in order and sorted.\<close>

lemma median_filter_window:
  assumes "0 < n"
  shows "vValues (fold mf_input xs (new_median_filter n v)) = drop (Suc (length xs) - n) (v # xs) \<and>
    vSorted (fold mf_input xs (new_median_filter n v)) = sort (drop (Suc (length xs) - n) (v # xs)) \<and>
    mf_nSize (fold mf_input xs (new_median_filter n v)) = n"
proof (induction xs rule: rev_induct)
  case Nil
  then show ?case using assms(1) by (simp add: new_median_filter_def)
next
  case (snoc x xs)
  then show ?case using assms(1)
    by (auto simp: mf_input_def Let_def tl_drop drop_Suc Suc_diff_le simp flip: drop_Suc)
qed

end
