(* ===== verification/Spec2Isabelle.thy ===== *)
theory Spec2Isabelle
  imports Keystore ScriptCompressor Signing Spending Conditionals Startup Delivery Completion ExtKeys Streams Containers
    Base64 Numbers
begin

text \<open>
  A model of the messaging program in \<open>src/src\<close> and of the part of the Bitcoin sources in
  \<open>src/src/lib/core\<close> that it computes with.

  \<^bold>\<open>The program.\<close> The program hides a text in a chain of Bitcoin transactions and finds it again. To
  write, it restricts the text to the characters it can encode, compresses them with a stored Huffman code to a
  vector of bits, computes the least budget for that many bits, lets the user choose inputs and an address, and
  embeds the bits: each transaction carries bits in its output values (a composition of the budget), in the order
  of its outputs among the inputs that claim them (a permutation), in sequence numbers, in a null data output and in public keys
  of pay-to-script-hash redeem scripts. The last bits of a public key choose the private key that must sign, so the program
  keeps one key pair for each suffix. The chain is then signed (the first transaction by the wallet, the others
  by the key store), linked by the hashes of the signed transactions, and sent. To read, it collects the chain from the wallet, extracts the bits
  in the same order and decodes them.

  \<^bold>\<open>Theories, from the bottom up.\<close> Each theory has the definitions for one part of the sources, in the order
  of the code, and the lemmas about them.
  \<^item> \<open>Prelude\<close>, \<open>Bytes\<close>: words of the machine's widths, the result type \<open>error + 'a\<close> in which every exception,
    failed assertion and undefined read is a value, byte images of integers, digits.
  \<^item> \<open>OpenSSL\<close>, \<open>Mpi\<close>: the record of the functions of OpenSSL the sources call, what they promise, and the
    format of its numbers.
  \<^item> \<open>Interfaces\<close>: the locale \<open>ranking\<close> (objects numbered by consecutive indices), the contract between the two
    enumerations of \<open>Maths\<close> and the carriers that store a number in an object.
  \<^item> \<open>BmsTypes\<close> (\<open>lib/bms/Types\<close>), \<open>Maths\<close> (\<open>lib/bms/Maths\<close>), \<open>DataInterface\<close> (\<open>lib/bms/DataInterface\<close>),
    \<open>DataCompression\<close> (\<open>lib/bms/DataCompression\<close>): bits and integers, compositions and permutations, the
    carriers, Huffman coding.
  \<^item> \<open>Uint256\<close>, \<open>Serialize\<close>, \<open>Hashing\<close>, \<open>Keys\<close>, \<open>Bignum\<close> (\<open>lib/core\<close>: \<open>uint256.h\<close>, \<open>serialize.h\<close>, \<open>hash\<close>,
    \<open>key\<close>, \<open>bignum.h\<close>): limbs, the wire format, digests, keys, the numbers of scripts.
  \<^item> \<open>Containers\<close>, \<open>Streams\<close> (\<open>serialize.h\<close>): strings, tuples, maps and sets on the wire; the streams \<open>CDataStream\<close>,
    \<open>CAutoFile\<close> and \<open>CBufferedFile\<close> with their buffers and errors. \<open>ExtKeys\<close> (\<open>key\<close>): compact signatures, keys in
    the format of OpenSSL, the extended keys of BIP 32.
  \<^item> \<open>Opcodes\<close>, \<open>Script\<close>, \<open>Interpreter\<close>, \<open>Sighash\<close>, \<open>Signing\<close>, \<open>ScriptCompressor\<close> (\<open>lib/core/script\<close>),
    \<open>Keystore\<close> (\<open>lib/core/keystore\<close>): scripts as byte lists, \<open>EvalScript\<close> as one definition for each group of opcodes, signature
    hashes and their cache, signing and combining signatures, compressed scripts, the store of keys.
  \<^item> \<open>Transactions\<close>, \<open>Blocks\<close> (\<open>lib/core/core\<close>), \<open>ChainParams\<close> (\<open>lib/core/chainparams\<close>), \<open>Base58\<close>
    (\<open>lib/core/base58.h\<close>), \<open>Util\<close> and \<open>Base64\<close> (\<open>lib/core/util\<close>).
  \<^item> \<open>Utilities\<close> (\<open>lib/bms/Utilities\<close>, \<open>lib/bms/Serialization\<close>): the global variables of the program as the
    record \<open>bms\<close>, the generation of key pairs, the files.
  \<^item> \<open>Channel\<close> (\<open>lib/bms/BlockchainInterface\<close>): packing, embedding, extraction, authorisation, sending and the
    two readers. \<open>Program\<close> (\<open>Main.cpp\<close>): writing and reading a message.
  \<^item> \<open>Evaluation\<close>, \<open>Conditionals\<close>, \<open>Spending\<close>, \<open>Embedding\<close>, \<open>Roundtrip\<close>, \<open>Completion\<close>, \<open>Delivery\<close>, \<open>Startup\<close>, \<open>Numbers\<close>
    have no definitions of the code: they prove what spans several parts, and what the functions of \<open>Util\<close> promise. \<open>Conditionals\<close>
    holds the reference interpreter of scripts, which runs a tree of nested conditionals. \<open>Sample\<close> holds a small state in which the program runs to its end.

  \<^bold>\<open>How state and effects are represented.\<close> Structures are records with the fields of the source, integers are
  words of their width, \<open>std::vector\<close> is a list, \<open>std::map\<close> a mapping or, where its order is visible, a sorted list.
  A function that may throw returns a result; one that changes an argument returns its new value. A loop without
  an evident bound is a \<open>partial_function\<close> whose result \<open>None\<close> is that it does not return, and that it returns is
  proved where it does: \<open>IntegerToComposition\<close>, \<open>EmbedData\<close>, the reads of \<open>CBufferedFile\<close>. Inside a result such a loop is
  the error \<open>Diverges\<close>, so that a call ends is shown by the value that it returns. Random numbers are lists of draws, consumed in order. The
  wallet is a record of partial functions for the commands of the node that are called.

  \<^bold>\<open>What is proved.\<close>
  \<^item> The message as a whole. \<open>message_delivered\<close>: the text that is composed, signed and sent is the text that is read. It
    rests on \<open>channel_roundtrip\<close> (extraction inverts embedding), \<open>authorised_chain\<close> (signing succeeds, keeps the
    data, and links the transactions by their hashes), \<open>embedding_succeeds\<close> (embedding ends with a chain), \<open>startup_keys\<close> (the keys that are generated,
    stored and loaded sign for every suffix) and \<open>huffman_roundtrip\<close>.
  \<^item> The carriers. The composition and permutation enumerations are bijections, and what each carrier encodes it decodes; the one
    budget for which encoding reads outside its vector is exhibited (\<open>zero_budget_undefined\<close>).
  \<^item> Scripts. Pushed values are read back, the scanning functions agree with the list of instructions,
    \<open>EvalScript\<close> runs the tree of nested conditionals that a script stands for (\<open>evaluation_of_trees\<close>), every reachable state of it keeps
    the limits (\<open>interpreter_limits\<close>), the answer does not depend on the signature cache, and the
    standard scripts are spent by exactly what they ask for (\<open>spend_key_hash\<close>, \<open>spend_script_hash\<close>,
    \<open>multisig_in_order\<close>); signing for a multi-signature script uses the first keys that are held and its answer is that
    of the interpreter (\<open>sign_script_hash\<close>).
  \<^item> Data. Every serialized form is read back (locale \<open>serializer\<close> and its interpretations), the limbs of
    \<open>base_uint\<close> are numbers modulo a power of two, Merkle branches lead to the root, base 58 is a bijection, base 64, base 32 and amounts
    of money are read back from their text.
  \<^item> Streams. A data stream is a queue of bytes (\<open>datastream_is_queue\<close>); every read and search of a buffered file ends,
    with the bytes of the file or an exception (\<open>buffered_file_reads\<close>), but stepping back in it is not reliable
    (\<open>rewind_unreliable\<close>).
  \<^item> Keys. Public derivation agrees with private derivation (\<open>bip32_public_derivation\<close>), and a compact signature
    gives back the key of the signer (\<open>compact_signature\<close>).

  \<^bold>\<open>Locales.\<close> \<open>ranking\<close> (interpreted by the two enumerations), \<open>prefix_code\<close> (by loaded and generated code books), \<open>serializer\<close>
  and \<open>serializer_pair\<close> (by the types that are serialized), \<open>byte_source\<close> (by the three streams), \<open>store\<close> (by the maps of keys and of scripts) and
  \<open>sig_checker\<close> (by the cached signature check).

  \<^bold>\<open>Parameters and bounds.\<close> OpenSSL is the record \<open>openssl\<close>: \<open>digests_ok\<close>, \<open>bignum_ok\<close>, \<open>ecdsa_ok\<close> and \<open>openssl_ok\<close>
  state that digests have their length, that numbers and points are converted by value, that a signature of a
  valid key verifies and that compressed points are read back, \<open>group_ok\<close> and \<open>points_ok\<close> that multiples of the
  base point add up and that the compressed form of a point determines it; \<open>Sample\<close> has functions that satisfy them. The logarithm and the root of the multiprecision library are
  \<open>ce_lg\<close>, never more than the logarithm (\<open>lg_ok\<close>), and \<open>ce_root\<close>, at most twice the root (\<open>root_ok\<close>). The choice among equal nodes
  of the priority queue is \<open>pick\<close>. Vectors have fewer than \<open>2 ^ 31\<close> elements, because the code converts
  their sizes to \<open>int\<close>, and a budget that is split is below \<open>2 ^ 62\<close>. Where two scripts or transactions must not have the same
  hash the theorem says so. That embedding succeeds needs a budget of twelve times the fee rate for every 32 bits of data and
  the least values of fourteen outputs, a key for every suffix, and draws among which every piece of 250 bits meets a valid key in
  time (\<open>fair_draws\<close>); the computation of the least budget, which embeds with a budget of zero, is not covered by it. There is no fuel: a loop that may not end has the value \<open>None\<close>.

  \<^bold>\<open>Not modelled.\<close> The vendored libraries (JSON, JSON-RPC, HTTP, formatted text), the wallet interface, which
  copies answers of the node from JSON into structures, the network code of the Bitcoin node (\<open>netbase\<close>, \<open>protocol\<close>), which the
  program never calls, locked memory and locks, the log and the texts on the terminal, and from \<open>util.cpp\<close> the command line, the configuration file and the directories of the operating
  system.
\<close>

end
